(* ===== verification/Prelude.thy ===== *)
theory Prelude
  imports Main "HOL-Library.Word"
begin

text \<open>
  Shared vocabulary of the development: the machine integer types of the C sources,
  the address type of the pointer models, the collections the component proofs use,
  and generic facts on lists, words and memory that no component owns.
\<close>

unbundle bit_operations_syntax

subsection \<open>Types\<close>

type_synonym u8 = "8 word"
type_synonym u16 = "16 word"
type_synonym u32 = "32 word"
type_synonym u64 = "64 word"

text \<open>
  Addresses of C objects. An object lies inside one allocation, so the pointer
  arithmetic of the sources (indexing, stepping over array elements) never wraps;
  natural numbers with \<open>0\<close> as the NIL pointer model it.
\<close>

type_synonym addr = nat

abbreviation (input) NIL :: addr where "NIL \<equiv> 0"

subsection \<open>Collections\<close>

named_theorems frame_simps \<open>an update leaves what it does not touch unchanged\<close>
named_theorems size_simps \<open>lengths, sizes and counts of modelled data\<close>

subsection \<open>Lists\<close>

lemma set_butlast_subset: "set (butlast xs) \<subseteq> set xs"
  by (auto dest: in_set_butlastD)

lemma set_tl_subset: "set (tl xs) \<subseteq> set xs"
  by (cases xs) auto

lemma distinct_last_notin_butlast:
  "distinct xs \<Longrightarrow> xs \<noteq> [] \<Longrightarrow> last xs \<notin> set (butlast xs)"
  by (induction xs) (auto dest: in_set_butlastD)

lemma nth_append_left [simp]: "i < length xs \<Longrightarrow> (xs @ ys) ! i = xs ! i"
  by (simp add: nth_append)

lemma map_of_eq_None_keys: "map_of (map (\<lambda>a. (k a, v a)) xs) x = None \<longleftrightarrow> x \<notin> k ` set xs"
  by (induction xs) auto

lemma map_of_found:
  assumes "distinct (map k xs)" "a \<in> set xs"
  shows "map_of (map (\<lambda>a. (k a, v a)) xs) (k a) = Some (v a)"
  using assms by (induction xs) (auto simp: rev_image_eqI)

lemma length_ge4D: "4 \<le> length xs \<Longrightarrow> \<exists>x y z w ws. xs = x # y # z # w # ws"
  by (auto simp: Suc_le_length_iff numeral_eq_Suc)

lemma nat_ge4D: "4 \<le> n \<Longrightarrow> \<exists>m. n = Suc (Suc (Suc (Suc m)))"
  by (intro exI [of _ "n - 4"]) simp

subsection \<open>Words\<close>

lemma unat_mask_bound:
  fixes x :: "'a::len word"
  shows "unat (x AND mask n) < 2 ^ n"
  by (simp flip: take_bit_eq_mask add: unsigned_take_bit_eq)

lemma and_mask_eq_self:
  fixes x :: "'a::len word"
  shows "unat x < 2 ^ n \<Longrightarrow> x AND mask n = x"
  by (metis take_bit_eq_mask take_bit_nat_eq_self unsigned_take_bit_eq word_unat_eq_iff)

lemma unat_pow2:
  "k < LENGTH('a) \<Longrightarrow> unat (2 ^ k :: 'a::len word) = 2 ^ k"
  by (metis of_nat_numeral of_nat_power take_bit_nat_eq_self unat_of_nat unsigned_of_nat power_strict_increasing one_less_numeral_iff semiring_norm(76))

lemma unat_pow2_minus_one:
  "k < LENGTH('a) \<Longrightarrow> unat (2 ^ k - 1 :: 'a::len word) = 2 ^ k - 1"
proof -
  assume k: "k < LENGTH('a)"
  then have "(2 ^ k :: 'a word) \<noteq> 0" by (simp add: unat_pow2 word_unat_eq_iff)
  then show ?thesis using k by (simp add: unat_minus_one unat_pow2)
qed

lemma unat_push_bit:
  fixes x :: "'a::len word"
  assumes "unat x * 2 ^ k < 2 ^ LENGTH('a)"
  shows "unat (push_bit k x) = unat x * 2 ^ k"
proof -
  have "push_bit k x = of_nat (unat x * 2 ^ k)" by (simp add: push_bit_eq_mult)
  then have "unat (push_bit k x) = take_bit LENGTH('a) (unat x * 2 ^ k)"
    by (simp only: unsigned_of_nat of_nat_id)
  then show ?thesis using assms by (simp add: take_bit_nat_eq_self)
qed

lemma unat_ucast_up:
  fixes x :: "'a::len word"
  assumes "LENGTH('a) \<le> LENGTH('b)"
  shows "unat (ucast x :: 'b::len word) = unat x"
proof -
  have "unat x < 2 ^ LENGTH('b)"
    using unsigned_less [of x] power_increasing [OF assms, of "2 :: nat"] by (rule less_le_trans) simp
  then show ?thesis by (simp add: unsigned_ucast_eq take_bit_nat_eq_self)
qed

lemma sint_small:
  fixes w :: u32
  assumes "unat w < 2 ^ 31"
  shows "sint w = int (unat w)"
proof -
  have "int (unat w) < int (2 ^ 31)" using assms by (simp only: of_nat_less_iff)
  then have lt: "uint w < 2 ^ 31" by simp
  have ge: "- (2 ^ 31) \<le> uint w" using uint_ge_0 [of w] by (rule order_trans [rotated]) simp
  have "sint w = signed_take_bit 31 (uint w)" by (simp add: sint_uint)
  also have "\<dots> = uint w" using ge lt by (rule signed_take_bit_int_eq_self)
  finally show ?thesis by simp
qed

lemma unat_minus_one_less:
  fixes x :: "'a::len word"
  shows "x \<noteq> 0 \<Longrightarrow> unat (x - 1) < unat x"
  by (metis unat_minus_one unat_gt_0 diff_less zero_less_one)

lemma unat_of_nat_u32: "x < 2 ^ 32 \<Longrightarrow> unat (of_nat x :: u32) = x"
  by (simp add: unsigned_of_nat take_bit_nat_eq_self)

lemma of_nat_u32_nonzero: "0 < x \<Longrightarrow> x < 2 ^ 32 \<Longrightarrow> (of_nat x :: u32) \<noteq> 0"
  using unat_of_nat_u32 [of x] by auto

text \<open>The counter of a \<^verbatim>\<open>do ... while(--n)\<close> loop decreases.\<close>

lemma unat_countdown:
  fixes x :: "'a::len word"
  shows "x \<noteq> 1 \<Longrightarrow> unat (x - 2) < unat (x - 1)"
  using unat_minus_one_less [of "x - 1"] by (simp add: diff_diff_eq)

text \<open>Clearing the low bits of an address.\<close>

lemma and_not_mask:
  fixes x :: "'a::len word"
  shows "x AND NOT (mask k) = push_bit k (drop_bit k x)"
  by (rule bit_word_eqI) (auto simp: bit_and_iff bit_not_iff bit_mask_iff bit_push_bit_iff bit_drop_bit_eq)

lemma floor_of_nat: "(of_nat x :: 'a::len word) AND NOT (mask k) = of_nat (x div 2 ^ k * 2 ^ k)"
proof -
  have "(of_nat x :: 'a word) AND NOT (mask k) = of_nat (push_bit k (drop_bit k x))"
    by (rule bit_word_eqI) (auto simp: bit_and_iff bit_not_iff bit_mask_iff bit_push_bit_iff bit_drop_bit_eq bit_of_nat_iff)
  then show ?thesis by (simp add: push_bit_eq_mult drop_bit_eq_div)
qed

lemma of_nat_word_mod: "(of_nat (x mod 2 ^ LENGTH('a)) :: 'a::len word) = of_nat x"
  by (metis of_nat_unat take_bit_eq_mod ucast_id unsigned_of_nat)

lemma of_nat_u32_exp [simp]: "(of_nat (2 ^ 32) :: u32) = 0"
  using of_nat_word_mod [of "2 ^ 32", where 'a = 32] by simp

end
