(* ===== verification/Bytes.thy ===== *)
theory Bytes
  imports Prelude "HOL-Library.Monad_Syntax"
begin

text \<open>
  Byte buffers. An access outside of a buffer is undefined in C and is \<open>None\<close> here; so is a
  \<^verbatim>\<open>memcpy\<close> between overlapping areas. Multi-byte integers are stored least significant byte
  first, as both the ARM and the x86 builds of the sources do.
\<close>

subsection \<open>Access\<close>

definition rd :: "u8 list \<Rightarrow> nat \<Rightarrow> u8 option" where
  "rd buf i = (if i < length buf then Some (buf ! i) else None)"

definition wr :: "u8 list \<Rightarrow> nat \<Rightarrow> u8 \<Rightarrow> u8 list option" where
  "wr buf i v = (if i < length buf then Some (buf[i := v]) else None)"

definition mem_read :: "u8 list \<Rightarrow> nat \<Rightarrow> nat \<Rightarrow> u8 list option" where
  "mem_read buf off n = (if off + n \<le> length buf then Some (take n (drop off buf)) else None)"

definition mem_put :: "u8 list \<Rightarrow> nat \<Rightarrow> u8 list \<Rightarrow> u8 list option" where
  "mem_put buf off bs =
     (if off + length bs \<le> length buf then Some (take off buf @ bs @ drop (off + length bs) buf) else None)"

definition mem_copy :: "u8 list \<Rightarrow> nat \<Rightarrow> nat \<Rightarrow> nat \<Rightarrow> u8 list option" where
  "mem_copy buf dst src n =
     (if n = 0 \<or> dst + n \<le> src \<or> src + n \<le> dst
      then Option.bind (mem_read buf src n) (mem_put buf dst) else None)"

lemma rd_append [simp]:
  "i < length xs \<Longrightarrow> rd (xs @ ys) i = rd xs i" "rd (xs @ ys) (length xs + i) = rd ys i"
  by (simp_all add: rd_def nth_append)

lemma rd_Cons [simp]: "rd (x # xs) 0 = Some x" "rd (x # xs) (Suc i) = rd xs i"
  by (simp_all add: rd_def)

lemma rd_cong_prefix:
  assumes "i < length r"
  shows "rd (pre @ r @ post) (length pre + i) = Some (r ! i)"
  using assms by (simp add: rd_def nth_append)

lemma rd_prefix_0: "0 < length r \<Longrightarrow> rd (pre @ r @ post) (length pre) = Some (r ! 0)"
  using rd_cong_prefix [of 0 r pre post] by simp

lemma wr_prefix:
  "i < length r \<Longrightarrow> wr (pre @ r @ post) (length pre + i) v = Some (pre @ r[i := v] @ post)"
  by (simp add: wr_def list_update_append)

lemma wr_prefix_0: "0 < length r \<Longrightarrow> wr (pre @ r @ post) (length pre) v = Some (pre @ r[0 := v] @ post)"
  using wr_prefix [of 0 r pre post v] by simp

lemma mem_read_prefix: "mem_read (pre @ r @ post) (length pre) (length r) = Some r"
  by (simp add: mem_read_def)

lemma mem_put_prefix:
  "length r' = length r \<Longrightarrow> mem_put (pre @ r @ post) (length pre) r' = Some (pre @ r' @ post)"
  by (simp add: mem_put_def)

lemma mem_put_length [size_simps]: "mem_put buf off bs = Some buf' \<Longrightarrow> length buf' = length buf"
  by (auto simp: mem_put_def split: if_splits)

lemma wr_length [size_simps]: "wr buf i v = Some buf' \<Longrightarrow> length buf' = length buf"
  by (auto simp: wr_def split: if_splits)

lemma mem_copy_length [size_simps]: "mem_copy buf d s n = Some buf' \<Longrightarrow> length buf' = length buf"
  by (auto simp: mem_copy_def mem_read_def mem_put_def split: if_splits)

text \<open>Moving a record down over a gap that is at least as long.\<close>

lemma mem_copy_down:
  assumes "length r \<le> length gap"
  shows "mem_copy (pre @ gap @ r @ post) (length pre) (length pre + length gap) (length r) =
    Some (pre @ r @ drop (length r) (gap @ r) @ post)"
proof -
  have read: "mem_read (pre @ gap @ r @ post) (length pre + length gap) (length r) = Some r"
    using mem_read_prefix [of "pre @ gap" r post] by simp
  have "mem_put (pre @ gap @ r @ post) (length pre) r = Some (pre @ r @ drop (length r) (gap @ r) @ post)"
    using assms by (simp add: mem_put_def)
  with read assms show ?thesis by (simp add: mem_copy_def)
qed

lemma mem_copy_overlap:
  "n \<noteq> 0 \<Longrightarrow> dst \<le> src \<Longrightarrow> src < dst + n \<Longrightarrow> mem_copy buf dst src n = None"
  by (simp add: mem_copy_def)

subsection \<open>Integers in memory\<close>

text \<open>A word load from bytes, least significant byte first.\<close>

definition le_word :: "u8 \<Rightarrow> u8 \<Rightarrow> u8 \<Rightarrow> u8 \<Rightarrow> u32" where
  "le_word a b c d = ucast a OR push_bit 8 (ucast b) OR push_bit 16 (ucast c) OR push_bit 24 (ucast d)"

lemma bit_le_word:
  "bit (le_word a b c d) n \<longleftrightarrow>
     (if n < 8 then bit a n else if n < 16 then bit b (n - 8)
      else if n < 24 then bit c (n - 16) else bit d (n - 24))"
  by (auto simp: le_word_def bit_simps dest: bit_imp_le_length)

definition le_bytes :: "u32 \<Rightarrow> u8 list" where
  "le_bytes w = [ucast w, ucast (drop_bit 8 w), ucast (drop_bit 16 w), ucast (drop_bit 24 w)]"

definition le_bytes16 :: "u16 \<Rightarrow> u8 list" where
  "le_bytes16 w = [ucast w, ucast (drop_bit 8 w)]"

definition le_half :: "u8 \<Rightarrow> u8 \<Rightarrow> u16" where
  "le_half a b = ucast a OR push_bit 8 (ucast b)"

lemma length_le_bytes [simp]: "length (le_bytes w) = 4" "length (le_bytes16 v) = 2"
  by (simp_all add: le_bytes_def le_bytes16_def)

lemma le_word_bytes [simp]:
  "le_word (ucast w) (ucast (drop_bit 8 w)) (ucast (drop_bit 16 w)) (ucast (drop_bit 24 w)) = w"
  by (rule bit_word_eqI) (auto simp: bit_le_word bit_simps)

lemma le_half_bytes [simp]: "le_half (ucast w) (ucast (drop_bit 8 w)) = w"
  by (rule bit_word_eqI) (auto simp: le_half_def bit_simps)

lemma le_bytes_word:
  "le_bytes (le_word a b c d) = [a, b, c, d]"
  by (auto simp: le_bytes_def bit_le_word bit_simps intro!: bit_word_eqI)

text \<open>The 8-bit sum of a block, the basis of its checksum.\<close>

definition byte_sum :: "u8 list \<Rightarrow> u8" where
  "byte_sum bs = sum_list bs"

lemma byte_sum_simps [simp]:
  "byte_sum [] = 0" "byte_sum (b # bs) = b + byte_sum bs" "byte_sum (xs @ ys) = byte_sum xs + byte_sum ys"
  by (simp_all add: byte_sum_def)

end
