(* ===== verification/DList.thy ===== *)
theory DList
  imports Prelude
begin

text \<open>
  Doubly-linked lists, \<^verbatim>\<open>tool/list/include/List.h\<close>: a list head is itself an entry and
  the entries form a circle through it. The heap of links is a record of two maps from
  addresses to addresses; every operation returns the updated heap. The record is
  extensible, so the tables built on these lists add their own fields to it.
  \<open>dll h p xs\<close> is the abstraction: the circle through head \<open>p\<close> holds exactly \<open>xs\<close>.
\<close>

subsection \<open>The operations\<close>

record link_heap =
  forward :: "addr \<Rightarrow> addr"
  reverse :: "addr \<Rightarrow> addr"

definition List_Attach :: "addr \<Rightarrow> addr \<Rightarrow> 'a link_heap_scheme \<Rightarrow> 'a link_heap_scheme" where
  "List_Attach this after h =
     (let nxt = forward h after;
          h = h\<lparr>forward := (forward h)(this := nxt)\<rparr>;
          h = h\<lparr>reverse := (reverse h)(this := after)\<rparr>;
          h = h\<lparr>reverse := (reverse h)(nxt := this)\<rparr>
      in h\<lparr>forward := (forward h)(after := this)\<rparr>)"

definition List_Detach :: "addr \<Rightarrow> 'a link_heap_scheme \<Rightarrow> addr \<times> 'a link_heap_scheme" where
  "List_Detach this h =
     (let nxt = forward h this;
          prv = reverse h this;
          h = h\<lparr>forward := (forward h)(prv := nxt)\<rparr>;
          h = h\<lparr>reverse := (reverse h)(nxt := prv)\<rparr>
      in (this, h))"

definition List_Empty :: "addr \<Rightarrow> 'a link_heap_scheme \<Rightarrow> 'a link_heap_scheme" where
  "List_Empty this h =
     (let h = h\<lparr>forward := (forward h)(this := this)\<rparr>
      in h\<lparr>reverse := (reverse h)(this := this)\<rparr>)"

definition List_Head :: "addr \<Rightarrow> 'a link_heap_scheme \<Rightarrow> addr" where
  "List_Head this h = forward h this"

definition List_Tail :: "addr \<Rightarrow> 'a link_heap_scheme \<Rightarrow> addr" where
  "List_Tail this h = reverse h this"

definition List_Eol :: "addr \<Rightarrow> addr" where
  "List_Eol this = this"

definition List_Insert :: "addr \<Rightarrow> addr \<Rightarrow> 'a link_heap_scheme \<Rightarrow> 'a link_heap_scheme" where
  "List_Insert this list h = List_Attach this (reverse h list) h"

definition List_Remove :: "addr \<Rightarrow> 'a link_heap_scheme \<Rightarrow> addr \<times> 'a link_heap_scheme" where
  "List_Remove list h = List_Detach (forward h list) h"

subsection \<open>Chains of links\<close>

text \<open>
  \<open>chain h ys\<close>: consecutive elements of \<open>ys\<close> are linked in both directions.
\<close>

fun chain :: "'a link_heap_scheme \<Rightarrow> addr list \<Rightarrow> bool" where
  "chain h (a # b # ys) \<longleftrightarrow> forward h a = b \<and> reverse h b = a \<and> chain h (b # ys)"
| "chain h _ \<longleftrightarrow> True"

lemma chain_append: "chain h (xs @ a # ys) \<longleftrightarrow> chain h (xs @ [a]) \<and> chain h (a # ys)"
proof (induction xs)
  case Nil
  show ?case by simp
next
  case (Cons x xs)
  then show ?case by (cases xs) auto
qed

lemma chain_cong:
  assumes "\<And>a. a \<in> set (butlast ys) \<Longrightarrow> forward h' a = forward h a"
    and "\<And>a. a \<in> set (tl ys) \<Longrightarrow> reverse h' a = reverse h a"
  shows "chain h' ys \<longleftrightarrow> chain h ys"
  using assms by (induction h ys rule: chain.induct) auto

definition dll :: "'a link_heap_scheme \<Rightarrow> addr \<Rightarrow> addr list \<Rightarrow> bool" where
  "dll h p xs \<longleftrightarrow> distinct (p # xs) \<and> chain h (p # xs @ [p])"

lemma dll_distinct: "dll h p xs \<Longrightarrow> distinct (p # xs)"
  by (simp add: dll_def)

lemma dll_Nil [simp]: "dll h p [] \<longleftrightarrow> forward h p = p \<and> reverse h p = p"
  by (simp add: dll_def)

lemma dll_forward_head: "dll h p xs \<Longrightarrow> forward h p = hd (xs @ [p])"
  by (cases xs) (auto simp: dll_def)

lemma chain_reverse_last: "chain h (a # xs @ [p]) \<Longrightarrow> reverse h p = last (a # xs)"
  by (induction xs arbitrary: a) auto

lemma dll_reverse_head: "dll h p xs \<Longrightarrow> reverse h p = last (p # xs)"
  unfolding dll_def using chain_reverse_last by blast

lemma dll_split:
  "dll h p (xs @ a # ys) \<Longrightarrow>
     forward h a = hd (ys @ [p]) \<and> reverse h a = last (p # xs)"
proof -
  assume "dll h p (xs @ a # ys)"
  then have c: "chain h ((p # xs) @ a # (ys @ [p]))" by (simp add: dll_def)
  then have "chain h (p # xs @ [a])" and "chain h (a # ys @ [p])"
    using chain_append [of h "p # xs" a "ys @ [p]"] by auto
  then show ?thesis
    using chain_reverse_last [of h p xs a] by (cases ys) auto
qed

text \<open>A list is determined by its heap and head.\<close>

lemma chain_unique:
  "chain h (a # xs @ [p]) \<Longrightarrow> chain h (a # ys @ [p]) \<Longrightarrow> p \<notin> set xs \<Longrightarrow> p \<notin> set ys \<Longrightarrow> xs = ys"
proof (induction xs arbitrary: a ys)
  case Nil
  then show ?case by (cases ys) auto
next
  case (Cons x xs)
  then obtain y ys' where ys: "ys = y # ys'" by (cases ys) auto
  with Cons.prems have "x = y" by simp
  with Cons.IH [of y ys'] Cons.prems ys show ?case by simp
qed

lemma dll_unique: "dll h p xs \<Longrightarrow> dll h p ys \<Longrightarrow> xs = ys"
  unfolding dll_def by (auto intro: chain_unique [of h p xs p ys])

text \<open>What an operation does not touch stays a list.\<close>

lemma dll_cong:
  assumes "\<And>a. a \<in> set (p # xs) \<Longrightarrow> forward h' a = forward h a"
    and "\<And>a. a \<in> set (p # xs) \<Longrightarrow> reverse h' a = reverse h a"
  shows "dll h' p xs \<longleftrightarrow> dll h p xs"
proof -
  have "chain h' (p # xs @ [p]) \<longleftrightarrow> chain h (p # xs @ [p])"
  proof (rule chain_cong)
    fix a assume "a \<in> set (butlast (p # xs @ [p]))"
    then show "forward h' a = forward h a" using assms(1) by (simp add: butlast_append split: if_splits)
  next
    fix a assume "a \<in> set (tl (p # xs @ [p]))"
    then show "reverse h' a = reverse h a" using assms(2) by auto
  qed
  then show ?thesis by (simp add: dll_def)
qed

subsection \<open>What the operations do to the links\<close>

lemma forward_List_Attach [simp]:
  "forward (List_Attach a q h) = (forward h)(a := forward h q, q := a)"
  by (simp add: List_Attach_def Let_def)

lemma reverse_List_Attach [simp]:
  "reverse (List_Attach a q h) = (reverse h)(a := q, forward h q := a)"
  by (simp add: List_Attach_def Let_def)

lemma forward_List_Detach [simp]:
  "forward (snd (List_Detach a h)) = (forward h)(reverse h a := forward h a)"
  by (simp add: List_Detach_def Let_def)

lemma reverse_List_Detach [simp]:
  "reverse (snd (List_Detach a h)) = (reverse h)(forward h a := reverse h a)"
  by (simp add: List_Detach_def Let_def)

lemma fst_List_Detach [simp]: "fst (List_Detach a h) = a"
  by (simp add: List_Detach_def Let_def)

lemma more_List_ops [simp]:
  "link_heap.more (List_Attach a q h) = link_heap.more h"
  "link_heap.more (snd (List_Detach a h)) = link_heap.more h"
  "link_heap.more (List_Empty a h) = link_heap.more h"
  by (simp_all add: List_Attach_def List_Detach_def List_Empty_def Let_def)

lemma forward_List_Empty [simp]: "forward (List_Empty a h) = (forward h)(a := a)"
  by (simp add: List_Empty_def Let_def)

lemma reverse_List_Empty [simp]: "reverse (List_Empty a h) = (reverse h)(a := a)"
  by (simp add: List_Empty_def Let_def)

subsection \<open>The operations on the abstraction\<close>

lemma dll_List_Empty: "dll (List_Empty p h) p []"
  by simp

text \<open>
  The circle is cut at the place of the change: \<open>L @ [q]\<close> up to the entry before it,
  \<open>n # R\<close> from the entry after it. No link inside either half is touched.
\<close>

lemma dll_cut:
  assumes "distinct (p # xs @ ys)"
  obtains L q n R where "p # xs = L @ [q]" and "ys @ [p] = n # R" and "q = last (p # xs)"
    and "q \<notin> set L" and "q \<notin> set ys" and "n \<notin> set xs" and "n \<notin> set R"
    and "q \<in> set (p # xs)" and "n \<in> set (p # ys)"
proof -
  let ?L = "butlast (p # xs)" and ?q = "last (p # xs)"
    and ?n = "hd (ys @ [p])" and ?R = "tl (ys @ [p])"
  have L: "p # xs = ?L @ [?q]" by (metis append_butlast_last_id list.distinct(1))
  have R: "ys @ [p] = ?n # ?R" by (cases ys) auto
  have q: "?q \<in> set (p # xs)" by (metis last_in_set list.distinct(1))
  have "?q \<notin> set ?L" using assms by (intro distinct_last_notin_butlast) auto
  moreover have "?q \<notin> set ys" using assms q by auto
  moreover have "?n \<notin> set xs" and "?n \<notin> set ?R" and "?n \<in> set (p # ys)"
    using assms by (cases ys; auto)+
  ultimately show thesis using that [OF L R refl] q by blast
qed

lemma chain_halves:
  assumes "chain h' (L @ [q])" "chain h' (n # R)" "forward h' q = n" "reverse h' n = q"
  shows "chain h' (L @ q # n # R)"
  using assms by (subst chain_append) simp

lemma dll_List_Attach:
  assumes d: "dll h p (xs @ ys)" and new: "a \<notin> set (p # xs @ ys)"
  shows "dll (List_Attach a (last (p # xs)) h) p (xs @ a # ys)"
proof -
  have dist: "distinct (p # xs @ ys)" using d by (rule dll_distinct)
  obtain L q n R where cut: "p # xs = L @ [q]" "ys @ [p] = n # R" "q = last (p # xs)"
      "q \<notin> set L" "q \<notin> set ys" "n \<notin> set xs" "n \<notin> set R" "q \<in> set (p # xs)" "n \<in> set (p # ys)"
    using dll_cut [OF dist] .
  let ?h = "List_Attach a q h"
  have cyc: "p # (xs @ ys) @ [p] = L @ q # n # R" using cut(1,2) by (metis append.assoc append_Cons append_Nil)
  have "chain h (L @ q # n # R)" using d cyc by (simp add: dll_def)
  then have cl: "chain h (L @ [q])" and cr: "chain h (n # R)" and fq: "forward h q = n"
    using chain_append [of h L q "n # R"] by simp_all
  have tlL: "set (tl (L @ [q])) = set xs" by (simp flip: cut(1))
  have bR: "set (butlast (n # R)) = set ys" by (simp flip: cut(2))
  have "set (L @ [q]) = set (p # xs)" "set (n # R) = set (ys @ [p])" using cut(1,2) by metis+
  then have newL: "a \<notin> set L" "a \<noteq> q" and newR: "a \<notin> set R" "a \<noteq> n" using new by auto
  have left: "chain ?h (L @ [q])"
    using cut(4,6) newL newR new
    by (intro chain_cong [THEN iffD2, OF _ _ cl]) (auto simp: fq tlL simp del: tl_append2)
  have right: "chain ?h (n # R)"
    using cut(5,7) newL newR new
    by (intro chain_cong [THEN iffD2, OF _ _ cr]) (auto simp: fq bR simp del: butlast.simps)
  have "chain ?h ((L @ [q]) @ a # n # R)"
    using left right newL newR chain_append [of ?h L q "a # n # R"] by (simp add: fq)
  moreover have "p # (xs @ a # ys) @ [p] = (L @ [q]) @ a # n # R"
    using cut(1,2) by (metis append.assoc append_Cons)
  ultimately show ?thesis using dist new cut(3) by (auto simp: dll_def)
qed

lemma dll_List_Detach:
  assumes d: "dll h p (xs @ a # ys)"
  shows "dll (snd (List_Detach a h)) p (xs @ ys)"
proof -
  have dist: "distinct (p # xs @ a # ys)" using d by (rule dll_distinct)
  then have dist': "distinct (p # xs @ ys)" by auto
  obtain L q n R where cut: "p # xs = L @ [q]" "ys @ [p] = n # R" "q = last (p # xs)"
      "q \<notin> set L" "q \<notin> set ys" "n \<notin> set xs" "n \<notin> set R" "q \<in> set (p # xs)" "n \<in> set (p # ys)"
    using dll_cut [OF dist'] .
  let ?h = "snd (List_Detach a h)"
  have fa: "forward h a = n" and ra: "reverse h a = q" using dll_split [OF d] cut(2,3) by auto
  have "p # (xs @ a # ys) @ [p] = L @ q # a # n # R"
    using cut(1,2) by (metis append.assoc append_Cons append_Nil)
  then have "chain h (L @ q # a # n # R)" using d by (simp add: dll_def)
  then have cl: "chain h (L @ [q])" and cr: "chain h (n # R)"
    using chain_append [of h L q "a # n # R"] by simp_all
  have tlL: "set (tl (L @ [q])) = set xs" by (simp flip: cut(1))
  have bR: "set (butlast (n # R)) = set ys" by (simp flip: cut(2))
  have left: "chain ?h (L @ [q])"
    using cut(4,6) by (intro chain_cong [THEN iffD2, OF _ _ cl]) (auto simp: fa ra tlL simp del: tl_append2)
  have right: "chain ?h (n # R)"
    using cut(5,7) by (intro chain_cong [THEN iffD2, OF _ _ cr]) (auto simp: fa ra bR simp del: butlast.simps)
  have "chain ?h (L @ q # n # R)"
    using left right by (rule chain_halves) (simp_all add: fa ra)
  moreover have "p # (xs @ ys) @ [p] = L @ q # n # R"
    using cut(1,2) by (metis append.assoc append_Cons append_Nil)
  ultimately show ?thesis using dist by (auto simp: dll_def)
qed

lemma dll_List_Insert:
  assumes d: "dll h p xs" and new: "a \<notin> set (p # xs)"
  shows "dll (List_Insert a p h) p (xs @ [a])"
  using dll_List_Attach [of h p xs "[]" a] dll_reverse_head [OF d] d new
  by (simp add: List_Insert_def)

lemma dll_List_Remove_Cons:
  assumes d: "dll h p (a # xs)"
  shows "fst (List_Remove p h) = a" and "dll (snd (List_Remove p h)) p xs"
  using dll_forward_head [OF d] dll_List_Detach [of h p "[]" a xs] d
  by (simp_all add: List_Remove_def)

text \<open>Removing from an empty list returns the head itself and changes no link.\<close>

lemma dll_List_Remove_Nil:
  assumes d: "dll h p []"
  shows "List_Remove p h = (p, h)"
proof -
  have "forward h p = p" and "reverse h p = p" using d by auto
  then show ?thesis
    by (cases h) (simp add: List_Remove_def List_Detach_def Let_def fun_upd_idem)
qed

text \<open>Links outside the touched list are framed.\<close>

lemma dll_frame_Attach:
  assumes "dll h q zs" and "dll h p (xs @ ys)"
    and "set (q # zs) \<inter> set (p # xs @ ys) = {}" and "a \<notin> set (q # zs)"
  shows "dll (List_Attach a (last (p # xs)) h) q zs"
proof -
  have "forward h (last (p # xs)) = hd (ys @ [p])"
  proof (cases xs rule: rev_cases)
    case Nil
    then show ?thesis using dll_forward_head [OF assms(2)] by simp
  next
    case (snoc xs' x)
    then show ?thesis using dll_split [of h p xs' x ys] assms(2) by simp
  qed
  moreover have "last (p # xs) \<in> set (p # xs)" by (metis last_in_set list.distinct(1))
  moreover have "hd (ys @ [p]) \<in> set (p # ys)" by (cases ys) auto
  ultimately show ?thesis
    using assms by (intro dll_cong [THEN iffD2, OF _ _ assms(1)]) auto
qed

lemma dll_frame_Detach:
  assumes "dll h q zs" and d: "dll h p (xs @ a # ys)"
    and "set (q # zs) \<inter> set (p # xs @ a # ys) = {}"
  shows "dll (snd (List_Detach a h)) q zs"
proof -
  have "last (p # xs) \<in> set (p # xs)" by (metis last_in_set list.distinct(1))
  moreover have "hd (ys @ [p]) \<in> set (p # ys)" by (cases ys) auto
  ultimately show ?thesis
    using assms dll_split [OF d] by (intro dll_cong [THEN iffD2, OF _ _ assms(1)]) auto
qed

subsection \<open>The queue interface\<close>

text \<open>
  What the clients of a list used as a first-in first-out queue rely on; the head itself is
  returned by a removal from an empty queue.
\<close>

fun get_all :: "(addr \<Rightarrow> 'h \<Rightarrow> addr \<times> 'h) \<Rightarrow> addr \<Rightarrow> nat \<Rightarrow> 'h \<Rightarrow> addr list \<times> 'h" where
  "get_all get p 0 h = ([], h)"
| "get_all get p (Suc n) h =
     (let (a, h) = get p h; (as, h) = get_all get p n h in (a # as, h))"

locale fifo =
  fixes holds :: "'h \<Rightarrow> addr \<Rightarrow> addr list \<Rightarrow> bool"
    and put :: "addr \<Rightarrow> addr \<Rightarrow> 'h \<Rightarrow> 'h"
    and get :: "addr \<Rightarrow> 'h \<Rightarrow> addr \<times> 'h"
  assumes holds_distinct: "holds h p xs \<Longrightarrow> distinct (p # xs)"
    and holds_put: "holds h p xs \<Longrightarrow> a \<notin> set (p # xs) \<Longrightarrow> holds (put a p h) p (xs @ [a])"
    and get_Cons: "holds h p (a # xs) \<Longrightarrow> get p h = (b, h') \<Longrightarrow> b = a \<and> holds h' p xs"
    and get_Nil: "holds h p [] \<Longrightarrow> get p h = (p, h)"
begin

lemma get_all_prefix:
  "holds h p (xs @ ys) \<Longrightarrow> get_all get p (length xs) h = (as, h') \<Longrightarrow> as = xs \<and> holds h' p ys"
proof (induction xs arbitrary: h as h')
  case Nil
  then show ?case by simp
next
  case (Cons x xs)
  obtain b h1 where g: "get p h = (b, h1)" by (cases "get p h")
  obtain bs h2 where r: "get_all get p (length xs) h1 = (bs, h2)" by (cases "get_all get p (length xs) h1")
  have "b = x" and "holds h1 p (xs @ ys)" using get_Cons [of h p x "xs @ ys"] g Cons.prems(1) by auto
  moreover from this(2) r have "bs = xs \<and> holds h2 p ys" by (rule Cons.IH)
  ultimately show ?case using Cons.prems(2) g r by simp
qed

lemma get_all_drains:
  "holds h p xs \<Longrightarrow> get_all get p (length xs) h = (as, h') \<Longrightarrow> as = xs \<and> get p h' = (p, h')"
  using get_all_prefix [of h p xs "[]" as h'] by (auto intro: get_Nil)

end

interpretation dlist: fifo dll List_Insert List_Remove
proof
  fix h :: "'a link_heap_scheme" and p a b h' xs
  assume "dll h p (a # xs)" and "List_Remove p h = (b, h')"
  then show "b = a \<and> dll h' p xs" using dll_List_Remove_Cons by fastforce
qed (rule dll_distinct dll_List_Insert dll_List_Remove_Nil, assumption+)+

end
