(* ===== verification/MemRegion.thy ===== *)
theory MemRegion
  imports Prelude
begin

text \<open>
  The memory regions of \<^verbatim>\<open>tool/memory/src/armCA9/memRegion.c\<close> with the constants of
  \<^verbatim>\<open>tool/memory/armCA9/memRegionConstants.h\<close>: a fixed table of regions of the 32-bit
  address space, each handing out its pages from the bottom up. The table is the state;
  page numbers and addresses are 32-bit words as in the source.
\<close>

subsection \<open>The region table\<close>

record mem_LayoutItem =
  lay_pages :: u16
  lay_flags :: u16

record mem_Region =
  start :: u32
  layout :: "mem_LayoutItem list"
  next_page :: u32
  pages :: u16
  pageSize :: u16

definition LOG2_SECTION :: u16 where "LOG2_SECTION = 20"
definition LOG2_SMALL_PAGE :: u16 where "LOG2_SMALL_PAGE = 12"
definition MMU_FIRST_LEVEL_TABLE_SIZE :: u32 where "MMU_FIRST_LEVEL_TABLE_SIZE = 16384"

definition NULLCATCHER_START :: u32 where "NULLCATCHER_START = 0"
definition NULLCATCHER_PAGES :: u32 where "NULLCATCHER_PAGES = 4"
definition SYSLOG_START :: u32 where
  "SYSLOG_START = NULLCATCHER_START + push_bit (unat LOG2_SMALL_PAGE) NULLCATCHER_PAGES"
definition SYSLOG_PAGES :: u32 where "SYSLOG_PAGES = 256"
definition MMU_START :: u32 where
  "MMU_START = SYSLOG_START + push_bit (unat LOG2_SMALL_PAGE) SYSLOG_PAGES"
definition MMU_PAGES :: u32 where "MMU_PAGES = 100"
definition RTS_START :: u32 where
  "RTS_START = MMU_START + push_bit (unat LOG2_SMALL_PAGE) MMU_PAGES"
definition WORKSPACE_START :: u32 where "WORKSPACE_START = 0x0aa00000"
definition RTS_PAGES :: u32 where
  "RTS_PAGES = drop_bit (unat LOG2_SMALL_PAGE) WORKSPACE_START
                 - NULLCATCHER_PAGES - SYSLOG_PAGES - MMU_PAGES"
definition UNCACHED_START :: u32 where "UNCACHED_START = 0x25500000"
definition WORKSPACE_PAGES :: u32 where
  "WORKSPACE_PAGES = drop_bit (unat LOG2_SECTION) (UNCACHED_START - WORKSPACE_START)"
definition DDR_MEMORY_END :: u32 where "DDR_MEMORY_END = 0x40000000"
definition UNCACHED_PAGES :: u32 where
  "UNCACHED_PAGES = drop_bit (unat LOG2_SECTION) (DDR_MEMORY_END - UNCACHED_START)"
definition WORKSPACE_HOLDBACK_PAGES :: u32 where "WORKSPACE_HOLDBACK_PAGES = 16"
definition SOCKET_START :: u32 where "SOCKET_START = 0x40000000"
definition SOCKET_PAGES :: u32 where "SOCKET_PAGES = 0x101"
definition AXI0_TEST_START :: u32 where
  "AXI0_TEST_START = SOCKET_START + push_bit (unat LOG2_SECTION) SOCKET_PAGES"
definition BSI_START :: u32 where "BSI_START = 0x84000000"
definition AXI1_TEST_START :: u32 where
  "AXI1_TEST_START = BSI_START + push_bit (unat LOG2_SECTION) 1"

definition MEM_READ :: u16 where "MEM_READ = 1"
definition MEM_WRITE :: u16 where "MEM_WRITE = 2"
definition MEM_EXEC :: u16 where "MEM_EXEC = 4"
definition MEM_CACHED :: u16 where "MEM_CACHED = 8"
definition MEM_DEVICE :: u16 where "MEM_DEVICE = 16"
definition MEM_HANDSHAKE :: u16 where "MEM_HANDSHAKE = 32"
definition MEM_SHARED :: u16 where "MEM_SHARED = 64"
definition MEM_RESERVED :: u16 where "MEM_RESERVED = 0"
definition MEM_RWDATA :: u16 where "MEM_RWDATA = MEM_READ OR MEM_WRITE OR MEM_CACHED"
definition MEM_UNCACHED :: u16 where "MEM_UNCACHED = MEM_READ OR MEM_WRITE"
definition MEM_MMU :: u16 where "MEM_MMU = MEM_READ OR MEM_HANDSHAKE"
definition MEM_REGISTERS :: u16 where
  "MEM_REGISTERS = MEM_READ OR MEM_WRITE OR MEM_DEVICE OR MEM_SHARED"

text \<open>The layouts: each item is a run of pages; 0 pages stands for the rest of the region.\<close>

definition item :: "u16 \<Rightarrow> u16 \<Rightarrow> mem_LayoutItem" where
  "item n f = \<lparr>lay_pages = n, lay_flags = f\<rparr>"

definition page_span :: "u32 \<Rightarrow> u32 \<Rightarrow> u16" where
  "page_span lo hi = ucast (drop_bit (unat LOG2_SMALL_PAGE) (hi - lo))"

definition highregLayout :: "mem_LayoutItem list" where
  "highregLayout =
    [item (page_span 0xf8000000 0xf8001000 + page_span 0xf8001000 0xf8810000) MEM_REGISTERS,
     item (page_span 0xf8810000 0xf8900000) MEM_RESERVED,
     item (page_span 0xf8900000 0xf8f03000) MEM_REGISTERS,
     item (page_span 0xf8f03000 0xfc000000) MEM_RESERVED,
     item (page_span 0xfc000000 0xfe000000) MEM_REGISTERS,
     item (page_span 0xfe000000 0xfffc0000) MEM_RESERVED]"

definition rtsLayout :: "mem_LayoutItem list" where
  "rtsLayout = [item 0 (MEM_READ OR MEM_WRITE OR MEM_EXEC)]"

definition ocmLayout :: "mem_LayoutItem list" where
  "ocmLayout = [item 0 (MEM_READ OR MEM_WRITE OR MEM_CACHED OR MEM_SHARED)]"

definition deviceLayout :: "mem_LayoutItem list" where
  "deviceLayout = [item 0 MEM_REGISTERS]"

definition region :: "u32 \<Rightarrow> u16 \<Rightarrow> u32 \<Rightarrow> u32 \<Rightarrow> mem_LayoutItem list \<Rightarrow> mem_Region" where
  "region s ps n nxt l =
     \<lparr>start = s, layout = l, next_page = nxt, pages = ucast n, pageSize = ps\<rparr>"

definition mem_RegionTable :: "mem_Region list" where
  "mem_RegionTable =
    [region NULLCATCHER_START LOG2_SMALL_PAGE NULLCATCHER_PAGES 0 [item 0 MEM_RESERVED],
     region SYSLOG_START LOG2_SMALL_PAGE SYSLOG_PAGES 0 [item 0 MEM_RWDATA],
     region MMU_START LOG2_SMALL_PAGE MMU_PAGES
       (drop_bit (unat LOG2_SMALL_PAGE) MMU_FIRST_LEVEL_TABLE_SIZE) [item 0 MEM_MMU],
     region RTS_START LOG2_SMALL_PAGE RTS_PAGES 0 rtsLayout,
     region WORKSPACE_START LOG2_SECTION WORKSPACE_PAGES 0 [item 0 MEM_RWDATA],
     region UNCACHED_START LOG2_SECTION UNCACHED_PAGES 0 [item 0 MEM_UNCACHED],
     region SOCKET_START LOG2_SECTION SOCKET_PAGES 0 deviceLayout,
     region AXI0_TEST_START LOG2_SECTION 1 0 deviceLayout,
     region 0x80000000 LOG2_SECTION 1 0 deviceLayout,
     region BSI_START LOG2_SECTION 1 0 deviceLayout,
     region AXI1_TEST_START LOG2_SECTION 1 0 deviceLayout,
     region 0xa0000000 LOG2_SECTION 256 0 deviceLayout,
     region 0xb0000000 LOG2_SECTION 256 0 deviceLayout,
     region 0xe0000000 LOG2_SECTION 3 0 deviceLayout,
     region 0xe1000000 LOG2_SECTION 80 0 deviceLayout,
     region 0xf8000000 LOG2_SMALL_PAGE 32704 0 highregLayout,
     region 0xfffc0000 LOG2_SMALL_PAGE 64 0 ocmLayout]"

lemmas region_table_defs =
  mem_RegionTable_def region_def item_def page_span_def highregLayout_def rtsLayout_def ocmLayout_def deviceLayout_def
  NULLCATCHER_START_def NULLCATCHER_PAGES_def SYSLOG_START_def SYSLOG_PAGES_def MMU_START_def MMU_PAGES_def RTS_START_def
  RTS_PAGES_def WORKSPACE_START_def WORKSPACE_PAGES_def UNCACHED_START_def UNCACHED_PAGES_def DDR_MEMORY_END_def
  SOCKET_START_def SOCKET_PAGES_def AXI0_TEST_START_def BSI_START_def AXI1_TEST_START_def
  LOG2_SECTION_def LOG2_SMALL_PAGE_def MMU_FIRST_LEVEL_TABLE_SIZE_def

subsection \<open>Names\<close>

datatype mem_RegionName =
    MEM_REGION_SYSLOG | MEM_REGION_MMU | MEM_REGION_RTS | MEM_REGION_WORKSPACE
  | MEM_REGION_UNCACHED | MEM_REGION_SOCKET | MEM_REGION_AXI0_TEST | MEM_REGION_FW_VER_CTL
  | MEM_REGION_BSI | MEM_REGION_AXI1_TEST | MEM_REGION_USERDEV | MEM_REGION_USERPPI
  | MEM_REGION_IOP | MEM_REGION_STATIC | MEM_REGION_HIGHREG | MEM_REGION_OCM

fun nameMap :: "mem_RegionName \<Rightarrow> nat" where
  "nameMap MEM_REGION_SYSLOG = 1"
| "nameMap MEM_REGION_MMU = 2"
| "nameMap MEM_REGION_RTS = 3"
| "nameMap MEM_REGION_WORKSPACE = 4"
| "nameMap MEM_REGION_UNCACHED = 5"
| "nameMap MEM_REGION_SOCKET = 6"
| "nameMap MEM_REGION_AXI0_TEST = 7"
| "nameMap MEM_REGION_FW_VER_CTL = 8"
| "nameMap MEM_REGION_BSI = 9"
| "nameMap MEM_REGION_AXI1_TEST = 10"
| "nameMap MEM_REGION_USERDEV = 11"
| "nameMap MEM_REGION_USERPPI = 12"
| "nameMap MEM_REGION_IOP = 13"
| "nameMap MEM_REGION_STATIC = 14"
| "nameMap MEM_REGION_HIGHREG = 15"
| "nameMap MEM_REGION_OCM = 16"

subsection \<open>The operations\<close>

definition mem_Region_alloc ::
    "mem_RegionName \<Rightarrow> u32 \<Rightarrow> mem_Region list \<Rightarrow> u32 \<times> mem_Region list" where
  "mem_Region_alloc name numBytes tab =
     (let reg = tab ! nameMap name;
          ps = unat (pageSize reg);
          remainder = push_bit ps 1 - 1;
          request = drop_bit ps ((numBytes + remainder) AND NOT remainder);
          current = next_page reg;
          nxt = current + request
      in if nxt > ucast (pages reg) then (0, tab)
         else (start reg + push_bit ps current, tab[nameMap name := reg\<lparr>next_page := nxt\<rparr>]))"

definition mem_Region_undoAlloc ::
    "mem_RegionName \<Rightarrow> u32 \<Rightarrow> mem_Region list \<Rightarrow> mem_Region list" where
  "mem_Region_undoAlloc name allocPtr tab =
     (let reg = tab ! nameMap name;
          ps = unat (pageSize reg);
          request = signed_drop_bit ps ((start reg + push_bit ps (next_page reg)) - allocPtr)
      in tab[nameMap name := reg\<lparr>next_page := next_page reg - request\<rparr>])"

definition mem_Region_startAddress :: "mem_RegionName \<Rightarrow> mem_Region list \<Rightarrow> u32" where
  "mem_Region_startAddress name tab = start (tab ! nameMap name)"

definition mem_Region_remaining :: "mem_RegionName \<Rightarrow> mem_Region list \<Rightarrow> u32" where
  "mem_Region_remaining name tab =
     (let reg = tab ! nameMap name
      in push_bit (unat (pageSize reg)) (ucast (pages reg) - next_page reg))"

definition mem_Region_size :: "mem_RegionName \<Rightarrow> mem_Region list \<Rightarrow> u32" where
  "mem_Region_size name tab =
     (let reg = tab ! nameMap name in push_bit (unat (pageSize reg)) (ucast (pages reg)))"

definition mem_Region_pageSize :: "mem_RegionName \<Rightarrow> mem_Region list \<Rightarrow> u32" where
  "mem_Region_pageSize name tab =
     (let reg = tab ! nameMap name in push_bit (unat (pageSize reg)) 1)"

definition mem_Region_workspaceHoldback :: u32 where
  "mem_Region_workspaceHoldback = WORKSPACE_HOLDBACK_PAGES * push_bit (unat LOG2_SECTION) 1"

subsection \<open>Printing the configuration\<close>

text \<open>
  The output of \<open>mem_Region_printConfig\<close> as data: one line per region and one per run of
  pages of its layout. The walk over the layout follows the pointer \<open>lay\<close>; running past
  the end of the layout array is \<open>None\<close>.
\<close>

datatype config_line =
    RegionLine string u32 nat string u16 u32
  | RunLine int "string list"

definition regionString :: "string list" where
  "regionString =
    [''NULL-catcher'', ''SYSLOG'', ''MMU'', ''RTS'', ''WORKSPACE'', ''UNCACHED'', ''SOCKET'',
     ''AXI0_TEST'', ''FW_VER_CTL'', ''BSI'', ''AXI1_TEST'', ''USERDEV'', ''USERPPI'', ''IOP'',
     ''STATIC'', ''HIGHREG'', ''OCM'']"

definition flagString :: "string list" where
  "flagString =
    [''READ'', ''WRITE'', ''EXEC'', ''CACHED'', ''DEVICE'', ''HANDSHAKE'', ''SHARED'']"

definition flag_names :: "u16 \<Rightarrow> string list" where
  "flag_names flags =
     (if flags = MEM_RESERVED then [''RESERVED'']
      else [flagString ! pos. pos \<leftarrow> [0..<length flagString], bit flags pos])"

fun layout_runs :: "int \<Rightarrow> mem_LayoutItem list \<Rightarrow> config_line list option" where
  "layout_runs pagesLeft lay =
     (if pagesLeft > 0
      then (case lay of
              [] \<Rightarrow> None
            | l # ls \<Rightarrow>
                (let n = (if lay_pages l \<noteq> 0 then uint (lay_pages l) else pagesLeft)
                 in map_option (Cons (RunLine n (flag_names (lay_flags l)))) (layout_runs (pagesLeft - n) ls)))
      else Some [])"

declare layout_runs.simps [simp del]

definition size_units :: "nat \<Rightarrow> string \<times> nat" where
  "size_units shift =
     (if shift < 10 then ('''', shift)
      else if shift < 20 then (''K'', shift - 10)
      else if shift < 30 then (''M'', shift - 20)
      else (''G'', shift - 30))"

definition region_lines :: "nat \<Rightarrow> mem_Region \<Rightarrow> config_line list option" where
  "region_lines ir reg =
     (let (units, shift) = size_units (unat (pageSize reg))
      in map_option (Cons (RegionLine (regionString ! ir) (start reg) (2 ^ shift) units (pages reg) (next_page reg)))
           (layout_runs (uint (pages reg)) (layout reg)))"

fun print_regions :: "nat \<Rightarrow> mem_Region list \<Rightarrow> config_line list option" where
  "print_regions ir [] = Some []"
| "print_regions ir (reg # regs) =
     (case region_lines ir reg of
        None \<Rightarrow> None
      | Some ls \<Rightarrow> map_option ((@) ls) (print_regions (Suc ir) regs))"

definition mem_Region_printConfig :: "mem_Region list \<Rightarrow> config_line list option" where
  "mem_Region_printConfig tab = print_regions 0 tab"

subsection \<open>Well-formed tables\<close>

definition page_bytes :: "mem_Region \<Rightarrow> nat" where
  "page_bytes reg = 2 ^ unat (pageSize reg)"

definition region_ok :: "mem_Region \<Rightarrow> bool" where
  "region_ok reg \<longleftrightarrow> unat (next_page reg) \<le> unat (pages reg) \<and>
     LOG2_SMALL_PAGE \<le> pageSize reg \<and> unat (pageSize reg) < 32 \<and>
     0 < unat (start reg) \<and> unat (start reg) + unat (pages reg) * page_bytes reg \<le> 2 ^ 32 \<and>
     unat (pages reg) * page_bytes reg < 2 ^ 31"

definition table_ok :: "mem_Region list \<Rightarrow> bool" where
  "table_ok tab \<longleftrightarrow> length tab = 17 \<and> (\<forall>r \<in> set (tl tab). region_ok r)"

definition region_of :: "mem_RegionName \<Rightarrow> mem_Region list \<Rightarrow> mem_Region" where
  "region_of name tab = tab ! nameMap name"

text \<open>The bytes a region has handed out, and the pages a request needs.\<close>

definition taken :: "mem_RegionName \<Rightarrow> mem_Region list \<Rightarrow> nat set" where
  "taken name tab =
     (let r = region_of name tab
      in {unat (start r) ..< unat (start r) + unat (next_page r) * page_bytes r})"

definition pages_needed :: "mem_Region \<Rightarrow> u32 \<Rightarrow> nat" where
  "pages_needed reg n = (unat n + (page_bytes reg - 1)) div page_bytes reg"

text \<open>A request whose rounding up to a page does not overflow 32 bits.\<close>

definition request_ok :: "mem_RegionName \<Rightarrow> u32 \<Rightarrow> mem_Region list \<Rightarrow> bool" where
  "request_ok name n tab \<longleftrightarrow> 0 < n \<and> unat n + (page_bytes (region_of name tab) - 1) < 2 ^ 32"

lemma nameMap_range: "0 < nameMap name" "nameMap name < 17"
  by (cases name; simp)+

lemma table_okD:
  assumes "table_ok tab"
  shows "region_ok (region_of name tab)" and "nameMap name < length tab"
proof -
  from assms have l: "length tab = 17" by (simp add: table_ok_def)
  with nameMap_range [of name] show "nameMap name < length tab" by simp
  have "tab ! nameMap name = tl tab ! (nameMap name - 1)"
    using l nameMap_range [of name] by (cases tab) (auto simp: nth_Cons')
  also have "\<dots> \<in> set (tl tab)" using l nameMap_range [of name] by (intro nth_mem) auto
  finally show "region_ok (region_of name tab)"
    using assms by (simp add: table_ok_def region_of_def)
qed

lemma page_bytes_pos [simp]: "0 < page_bytes r"
  by (simp add: page_bytes_def)

lemma table_ok_update:
  "table_ok tab \<Longrightarrow> region_ok r \<Longrightarrow> table_ok (tab[nameMap name := r])"
proof -
  assume t: "table_ok tab" and r: "region_ok r"
  obtain i where i: "nameMap name = Suc i" using nameMap_range [of name] by (cases "nameMap name") auto
  have "tl (tab[Suc i := r]) = (tl tab)[i := r]" by (cases tab) auto
  with t r i show ?thesis
    by (auto simp: table_ok_def dest: set_update_subset_insert [THEN subsetD])
qed

lemma region_of_update:
  "table_ok tab \<Longrightarrow> region_of name (tab[nameMap name := r]) = r"
  using table_okD(2) by (simp add: region_of_def)

lemma nameMap_inj: "nameMap a = nameMap b \<Longrightarrow> a = b"
  by (cases a; cases b) simp_all

lemma region_of_other:
  "a \<noteq> b \<Longrightarrow> region_of a (tab[nameMap b := r]) = region_of a tab"
  by (metis nameMap_inj nth_list_update_neq region_of_def)

subsection \<open>The arithmetic of requests\<close>

lemma unat_page_mask:
  "k < 32 \<Longrightarrow> unat (push_bit k 1 - 1 :: u32) = 2 ^ k - 1"
  by (simp add: unat_pow2_minus_one)

lemma drop_bit_and_not_mask:
  "drop_bit k (w AND NOT (push_bit k 1 - 1)) = drop_bit k (w :: u32)"
  by (rule bit_eqI) (auto simp: bit_simps dest: bit_imp_le_length simp flip: mask_eq_decr_exp)

lemma unat_request:
  assumes "k < 32" and "unat n + (2 ^ k - 1) < 2 ^ 32"
  shows "unat (drop_bit k ((n + (push_bit k 1 - 1)) AND NOT (push_bit k 1 - 1)) :: u32)
         = (unat n + (2 ^ k - 1)) div 2 ^ k"
proof -
  have "unat (n + (push_bit k 1 - 1) :: u32) = unat n + (2 ^ k - 1)"
    using assms by (subst unat_add_lem [THEN iffD1]) (simp_all add: unat_pow2_minus_one)
  then show ?thesis
    unfolding drop_bit_and_not_mask unat_drop_bit_eq by (simp add: drop_bit_eq_div)
qed

subsection \<open>Allocation\<close>

text \<open>Every branch of \<open>mem_Region_alloc\<close> on natural numbers, for requests that do not overflow.\<close>

lemma alloc_cases:
  fixes tab name n
  defines "r \<equiv> region_of name tab"
  assumes ok: "table_ok tab" and req: "request_ok name n tab"
  shows "unat (next_page r) + pages_needed r n > unat (pages r) \<Longrightarrow>
           mem_Region_alloc name n tab = (0, tab)"
    and "unat (next_page r) + pages_needed r n \<le> unat (pages r) \<Longrightarrow>
           \<exists>p nxt. mem_Region_alloc name n tab = (p, tab[nameMap name := r\<lparr>next_page := nxt\<rparr>]) \<and>
             unat p = unat (start r) + unat (next_page r) * page_bytes r \<and>
             unat nxt = unat (next_page r) + pages_needed r n"
proof -
  let ?k = "unat (pageSize r)"
  have rok: "region_ok r" using table_okD(1) [OF ok] by (simp add: r_def)
  then have k: "?k < 32" and le: "unat (next_page r) \<le> unat (pages r)"
    and fit: "unat (start r) + unat (pages r) * 2 ^ ?k \<le> 2 ^ 32"
    by (simp_all add: region_ok_def page_bytes_def)
  let ?req = "drop_bit ?k ((n + (push_bit ?k 1 - 1)) AND NOT (push_bit ?k 1 - 1))"
  have need: "unat ?req = pages_needed r n"
    using unat_request [OF k] req by (simp add: request_ok_def pages_needed_def page_bytes_def r_def)
  have small: "12 \<le> ?k" using rok by (simp add: region_ok_def LOG2_SMALL_PAGE_def word_le_nat_alt)
  have "pages_needed r n \<le> (2 ^ 32 - 1) div 2 ^ ?k"
    using req unfolding request_ok_def pages_needed_def r_def page_bytes_def
    by (intro div_le_mono) simp
  also have "\<dots> \<le> (2 ^ 32 - 1) div 2 ^ 12"
    using power_increasing [OF small, of "2 :: nat"] by (intro div_le_mono2) simp_all
  finally have "pages_needed r n < 2 ^ 20" by simp
  moreover have "unat (pages r) < 2 ^ 16" using unsigned_less [of "pages r"] by simp
  ultimately have sum: "unat (next_page r + ?req) = unat (next_page r) + pages_needed r n"
    using le need by (subst unat_add_lem [THEN iffD1]) simp_all
  have ucast: "unat (ucast (pages r) :: u32) = unat (pages r)"
    by (rule unat_ucast_up) simp
  have alloc: "mem_Region_alloc name n tab =
     (if unat (pages r) < unat (next_page r) + pages_needed r n then (0, tab)
      else (start r + push_bit ?k (next_page r),
            tab[nameMap name := r\<lparr>next_page := next_page r + ?req\<rparr>]))"
    by (simp add: mem_Region_alloc_def Let_def region_of_def [symmetric] r_def [symmetric]
          word_less_nat_alt sum [simplified] ucast)
  show "mem_Region_alloc name n tab = (0, tab)"
    if "unat (next_page r) + pages_needed r n > unat (pages r)"
    using alloc that by simp
  show "\<exists>p nxt. mem_Region_alloc name n tab = (p, tab[nameMap name := r\<lparr>next_page := nxt\<rparr>]) \<and>
             unat p = unat (start r) + unat (next_page r) * page_bytes r \<and>
             unat nxt = unat (next_page r) + pages_needed r n"
    if fits: "unat (next_page r) + pages_needed r n \<le> unat (pages r)"
  proof -
    have "0 < unat n" using req by (simp add: request_ok_def word_less_nat_alt)
    then have "0 < pages_needed r n"
      using page_bytes_pos [of r] by (simp add: pages_needed_def div_greater_zero_iff)
    then have "unat (next_page r) < unat (pages r)" using fits by simp
    then have "unat (next_page r) * 2 ^ ?k < unat (pages r) * 2 ^ ?k" by simp
    then have lt: "unat (start r) + unat (next_page r) * 2 ^ ?k < 2 ^ 32" using fit by linarith
    then have "unat (push_bit ?k (next_page r)) = unat (next_page r) * 2 ^ ?k"
      by (simp add: unat_push_bit)
    then have p: "unat (start r + push_bit ?k (next_page r)) = unat (start r) + unat (next_page r) * page_bytes r"
      using lt by (subst unat_add_lem [THEN iffD1]) (simp_all add: page_bytes_def)
    have "mem_Region_alloc name n tab =
        (start r + push_bit ?k (next_page r), tab[nameMap name := r\<lparr>next_page := next_page r + ?req\<rparr>])"
      using alloc fits by simp
    then show ?thesis using p sum by blast
  qed
qed

text \<open>The block of addresses a pointer and a size in bytes stand for.\<close>

definition block :: "u32 \<Rightarrow> u32 \<Rightarrow> nat set" where
  "block p n = {unat p ..< unat p + unat n}"

lemma pages_needed_cover: "unat n \<le> pages_needed r n * page_bytes r"
proof -
  let ?P = "page_bytes r"
  have "unat n + (?P - 1) < (pages_needed r n + 1) * ?P"
    using dividend_less_div_times [of ?P "unat n + (?P - 1)"]
    by (simp add: pages_needed_def)
  then show ?thesis by simp
qed

lemma region_ok_advance:
  "region_ok r \<Longrightarrow> unat nxt \<le> unat (pages r) \<Longrightarrow> region_ok (r\<lparr>next_page := nxt\<rparr>)"
  by (simp add: region_ok_def page_bytes_def)

lemma alloc_step:
  assumes tab: "table_ok tab" and req: "request_ok name n tab"
  obtains (full) "mem_Region_alloc name n tab = (0, tab)"
      "unat (pages (region_of name tab)) < unat (next_page (region_of name tab)) + pages_needed (region_of name tab) n"
  | (fits) p tab' where "mem_Region_alloc name n tab = (p, tab')" "p \<noteq> 0" "table_ok tab'"
      "region_of name tab' = (region_of name tab)\<lparr>next_page := next_page (region_of name tab')\<rparr>"
      "unat (next_page (region_of name tab')) =
         unat (next_page (region_of name tab)) + pages_needed (region_of name tab) n"
      "unat (next_page (region_of name tab')) \<le> unat (pages (region_of name tab))"
      "unat p = unat (start (region_of name tab))
              + unat (next_page (region_of name tab)) * page_bytes (region_of name tab)"
      "\<And>other. other \<noteq> name \<Longrightarrow> region_of other tab' = region_of other tab"
proof (cases "unat (next_page (region_of name tab)) + pages_needed (region_of name tab) n
                > unat (pages (region_of name tab))")
  case True
  with alloc_cases(1) [OF tab req] show thesis by (intro full) auto
next
  case False
  let ?r = "region_of name tab"
  obtain p nxt where a: "mem_Region_alloc name n tab = (p, tab[nameMap name := ?r\<lparr>next_page := nxt\<rparr>])"
    and p: "unat p = unat (start ?r) + unat (next_page ?r) * page_bytes ?r"
    and nxt: "unat nxt = unat (next_page ?r) + pages_needed ?r n"
    using alloc_cases(2) [OF tab req] False by auto
  have rok: "region_ok ?r" using tab by (rule table_okD)
  then have rok': "region_ok (?r\<lparr>next_page := nxt\<rparr>)"
    using False nxt by (intro region_ok_advance) auto
  show thesis
  proof (rule fits [OF a])
    show "p \<noteq> 0" using p rok by (auto simp: region_ok_def)
    show "table_ok (tab[nameMap name := ?r\<lparr>next_page := nxt\<rparr>])"
      using tab rok' by (rule table_ok_update)
  qed (use tab nxt p False in \<open>simp_all add: region_of_update region_of_other\<close>)
qed

subsection \<open>The allocator interface\<close>

text \<open>
  What the clients of an allocator rely on: a successful allocation hands out bytes never
  handed out before. A pointer \<open>0\<close> is the failure.
\<close>

fun alloc_all :: "(u32 \<Rightarrow> 's \<Rightarrow> u32 \<times> 's) \<Rightarrow> u32 list \<Rightarrow> 's \<Rightarrow> (u32 \<times> u32) list \<times> 's" where
  "alloc_all alloc [] s = ([], s)"
| "alloc_all alloc (n # ns) s =
     (let (p, s) = alloc n s; (ps, s) = alloc_all alloc ns s in ((p, n) # ps, s))"

locale allocator =
  fixes valid :: "'s \<Rightarrow> bool"
    and handed_out :: "'s \<Rightarrow> nat set"
    and admissible :: "u32 \<Rightarrow> 's \<Rightarrow> bool"
    and alloc :: "u32 \<Rightarrow> 's \<Rightarrow> u32 \<times> 's"
  assumes alloc_valid: "valid s \<Longrightarrow> admissible n s \<Longrightarrow> alloc n s = (p, s') \<Longrightarrow> valid s'"
    and alloc_null: "valid s \<Longrightarrow> admissible n s \<Longrightarrow> alloc n s = (0, s') \<Longrightarrow> s' = s"
    and alloc_fresh: "valid s \<Longrightarrow> admissible n s \<Longrightarrow> alloc n s = (p, s') \<Longrightarrow> p \<noteq> 0 \<Longrightarrow>
          block p n \<inter> handed_out s = {} \<and> block p n \<union> handed_out s \<subseteq> handed_out s'"
    and alloc_admissible: "valid s \<Longrightarrow> admissible n s \<Longrightarrow> admissible m s \<Longrightarrow> alloc n s = (p, s') \<Longrightarrow>
          admissible m s'"
begin

lemma alloc_all_fresh:
  assumes "valid s" "\<forall>n \<in> set ns. admissible n s" "alloc_all alloc ns s = (ps, s')"
    and "i < length ps" "fst (ps ! i) \<noteq> 0"
  shows "block (fst (ps ! i)) (snd (ps ! i)) \<inter> handed_out s = {}"
  using assms
proof (induction ns arbitrary: s ps s' i)
  case Nil
  then show ?case by simp
next
  case (Cons n ns)
  obtain p s1 where a: "alloc n s = (p, s1)" by (cases "alloc n s")
  obtain qs s2 where b: "alloc_all alloc ns s1 = (qs, s2)" by (cases "alloc_all alloc ns s1")
  have ps: "ps = (p, n) # qs" using Cons.prems(3) a b by simp
  have v: "valid s1" using a Cons.prems(1,2) by (auto intro: alloc_valid)
  have adm: "\<forall>m \<in> set ns. admissible m s1" using a Cons.prems(1,2) by (auto intro: alloc_admissible)
  have grow: "handed_out s \<subseteq> handed_out s1"
    using a Cons.prems(1,2) alloc_null [of s n s1] alloc_fresh [of s n p s1] by (cases "p = 0") auto
  show ?case
  proof (cases i)
    case 0
    then show ?thesis using Cons.prems a ps alloc_fresh [of s n p s1] by auto
  next
    case (Suc j)
    then show ?thesis using Cons.IH [OF v adm b, of j] Cons.prems(4,5) ps grow by auto
  qed
qed

lemma alloc_all_disjoint:
  assumes "valid s" "\<forall>n \<in> set ns. admissible n s" "alloc_all alloc ns s = (ps, s')"
    and "i < j" "j < length ps" "fst (ps ! i) \<noteq> 0" "fst (ps ! j) \<noteq> 0"
  shows "block (fst (ps ! i)) (snd (ps ! i)) \<inter> block (fst (ps ! j)) (snd (ps ! j)) = {}"
  using assms
proof (induction ns arbitrary: s ps s' i j)
  case Nil
  then show ?case by simp
next
  case (Cons n ns)
  obtain p s1 where a: "alloc n s = (p, s1)" by (cases "alloc n s")
  obtain qs s2 where b: "alloc_all alloc ns s1 = (qs, s2)" by (cases "alloc_all alloc ns s1")
  have ps: "ps = (p, n) # qs" using Cons.prems(3) a b by simp
  have v: "valid s1" using a Cons.prems(1,2) by (auto intro: alloc_valid)
  have adm: "\<forall>m \<in> set ns. admissible m s1" using a Cons.prems(1,2) by (auto intro: alloc_admissible)
  obtain j' where j: "j = Suc j'" using Cons.prems(4) by (cases j) auto
  show ?case
  proof (cases i)
    case 0
    then have "block p n \<subseteq> handed_out s1"
      using Cons.prems a ps alloc_fresh [of s n p s1] by auto
    moreover have "block (fst (qs ! j')) (snd (qs ! j')) \<inter> handed_out s1 = {}"
      using alloc_all_fresh [OF v adm b, of j'] Cons.prems(5,7) ps j by simp
    ultimately show ?thesis using 0 j ps by auto
  next
    case (Suc i')
    then show ?thesis using Cons.IH [OF v adm b, of i' j'] Cons.prems(4-7) ps j by simp
  qed
qed

end

interpretation region: allocator table_ok "taken name" "request_ok name" "mem_Region_alloc name" for name
proof
  fix s s' n p
  assume ok: "table_ok s" and req: "request_ok name n s" and a: "mem_Region_alloc name n s = (p, s')"
  show "table_ok s'" by (rule alloc_step [OF ok req]) (use a ok in auto)
next
  fix s s' n
  assume ok: "table_ok s" and req: "request_ok name n s" and a: "mem_Region_alloc name n s = (0, s')"
  show "s' = s" by (rule alloc_step [OF ok req]) (use a in auto)
next
  fix s s' n m p
  assume ok: "table_ok s" and req: "request_ok name n s" "request_ok name m s"
    and a: "mem_Region_alloc name n s = (p, s')"
  show "request_ok name m s'"
  proof (rule alloc_step [OF ok req(1)])
    fix q t
    assume "mem_Region_alloc name n s = (q, t)"
      "region_of name t = (region_of name s)\<lparr>next_page := next_page (region_of name t)\<rparr>"
    then have "page_bytes (region_of name s') = page_bytes (region_of name s)"
      using a by (metis page_bytes_def mem_Region.select_convs(5) mem_Region.surjective mem_Region.update_convs(3) prod.inject)
    then show ?thesis using req by (simp add: request_ok_def)
  qed (use a req in auto)
next
  fix s s' n p
  assume ok: "table_ok s" and req: "request_ok name n s"
    and a: "mem_Region_alloc name n s = (p, s')" and p: "p \<noteq> 0"
  let ?r = "region_of name s"
  show "block p n \<inter> taken name s = {} \<and> block p n \<union> taken name s \<subseteq> taken name s'"
  proof (rule alloc_step [OF ok req])
    fix q t
    assume q: "mem_Region_alloc name n s = (q, t)"
      "region_of name t = ?r\<lparr>next_page := next_page (region_of name t)\<rparr>"
      "unat (next_page (region_of name t)) = unat (next_page ?r) + pages_needed ?r n"
      "unat q = unat (start ?r) + unat (next_page ?r) * page_bytes ?r"
    obtain nxt where t: "region_of name t = ?r\<lparr>next_page := nxt\<rparr>" using q(2) by metis
    then have "taken name t = {unat (start ?r) ..< unat (start ?r) + unat nxt * page_bytes ?r}"
      by (simp add: taken_def page_bytes_def)
    moreover have "unat nxt * page_bytes ?r = unat (next_page ?r) * page_bytes ?r + pages_needed ?r n * page_bytes ?r"
      using q(3) t by (simp add: algebra_simps)
    ultimately show ?thesis
      using q(1,4) a pages_needed_cover [of n ?r] by (auto simp: block_def taken_def Let_def)
  qed (use a p in auto)
qed

subsection \<open>Undoing an allocation\<close>

lemma unat_signed_drop_bit_small:
  fixes w :: u32
  assumes "unat w < 2 ^ 31"
  shows "unat (signed_drop_bit k w) = unat w div 2 ^ k"
proof -
  have "bit w 31 = bit (unat w) 31" by (simp add: bit_unsigned_iff)
  also have "\<dots> = odd (unat w div 2 ^ 31)" by (rule bit_iff_odd)
  finally have "\<not> bit w 31" using assms by simp
  then have "signed_drop_bit k w = drop_bit k w"
    by (intro bit_word_eqI) (auto simp: bit_signed_drop_bit_iff bit_simps dest: bit_imp_le_length)
  then show ?thesis by (simp only: unat_drop_bit_eq) (simp add: drop_bit_eq_div)
qed

lemma unat_end_difference:
  fixes s e :: u32
  assumes "unat s + a * 2 ^ k < 2 ^ 32" and "unat p = unat s + a * 2 ^ k"
    and "unat e = a + d" and "d * 2 ^ k < 2 ^ 31"
  shows "unat (s + push_bit k e - p) = d * 2 ^ k"
proof -
  have "p = of_nat (unat s + a * 2 ^ k)" using assms(2) by (metis of_nat_unat ucast_id)
  then have "p = s + of_nat a * 2 ^ k" by simp
  moreover have "e = of_nat (a + d)" using assms(3) by (metis of_nat_unat ucast_id)
  then have "push_bit k e = of_nat a * 2 ^ k + of_nat (d * 2 ^ k)"
    by (simp add: push_bit_eq_mult algebra_simps)
  ultimately have "s + push_bit k e - p = of_nat (d * 2 ^ k)" by simp
  then show ?thesis using assms(4) by (simp only: unsigned_of_nat of_nat_id) (simp add: take_bit_nat_eq_self)
qed

lemma undoAlloc_alloc:
  assumes tab: "table_ok tab" and req: "request_ok name n tab"
    and a: "mem_Region_alloc name n tab = (p, tab')" and p: "p \<noteq> 0"
  shows "mem_Region_undoAlloc name p tab' = tab"
proof -
  let ?r = "region_of name tab"
  let ?k = "unat (pageSize ?r)"
  have rok: "region_ok ?r" using tab by (rule table_okD)
  have fits: "unat (next_page ?r) + pages_needed ?r n \<le> unat (pages ?r)"
    using alloc_cases(1) [OF tab req] a p by force
  obtain nxt where tab': "tab' = tab[nameMap name := ?r\<lparr>next_page := nxt\<rparr>]"
    and up: "unat p = unat (start ?r) + unat (next_page ?r) * page_bytes ?r"
    and un: "unat nxt = unat (next_page ?r) + pages_needed ?r n"
    using alloc_cases(2) [OF tab req fits] a by auto
  have "pages_needed ?r n * 2 ^ ?k \<le> unat (pages ?r) * 2 ^ ?k"
    using fits by (intro mult_le_mono1) simp
  also have "\<dots> < 2 ^ 31" using rok by (simp add: region_ok_def page_bytes_def)
  finally have small: "pages_needed ?r n * 2 ^ ?k < 2 ^ 31" .
  have "unat p < 2 ^ 32" using unsigned_less [of p] by simp
  then have "unat (start ?r + push_bit ?k nxt - p) = pages_needed ?r n * 2 ^ ?k"
    using up un small by (intro unat_end_difference) (simp_all add: page_bytes_def)
  then have "unat (signed_drop_bit ?k (start ?r + push_bit ?k nxt - p)) = pages_needed ?r n"
    using small by (simp add: unat_signed_drop_bit_small)
  then have "nxt - signed_drop_bit ?k (start ?r + push_bit ?k nxt - p) = next_page ?r"
    using un by (simp add: word_unat_eq_iff unat_sub_if_size)
  then show ?thesis
    using table_okD(2) [OF tab, of name]
    by (simp add: mem_Region_undoAlloc_def Let_def tab' region_of_def)
qed

subsection \<open>Evaluating the initial table\<close>

lemmas region_constants =
  LOG2_SECTION_def LOG2_SMALL_PAGE_def MMU_FIRST_LEVEL_TABLE_SIZE_def NULLCATCHER_START_def
  NULLCATCHER_PAGES_def SYSLOG_START_def SYSLOG_PAGES_def MMU_START_def MMU_PAGES_def
  RTS_START_def WORKSPACE_START_def RTS_PAGES_def UNCACHED_START_def WORKSPACE_PAGES_def
  DDR_MEMORY_END_def UNCACHED_PAGES_def SOCKET_START_def SOCKET_PAGES_def
  AXI0_TEST_START_def BSI_START_def AXI1_TEST_START_def

lemmas layout_constants =
  MEM_READ_def MEM_WRITE_def MEM_EXEC_def MEM_CACHED_def MEM_DEVICE_def MEM_HANDSHAKE_def
  MEM_SHARED_def MEM_RESERVED_def MEM_RWDATA_def MEM_UNCACHED_def MEM_MMU_def MEM_REGISTERS_def
  item_def page_span_def highregLayout_def rtsLayout_def ocmLayout_def deviceLayout_def

definition sizes :: "mem_Region list \<Rightarrow> (u32 \<times> u16 \<times> u16 \<times> u32) list" where
  "sizes tab = map (\<lambda>r. (start r, pages r, pageSize r, next_page r)) tab"

lemma initial_sizes:
  "sizes mem_RegionTable =
    [(0, 4, 12, 0), (0x4000, 256, 12, 0), (0x104000, 100, 12, 4), (0x168000, 43160, 12, 0),
     (0x0aa00000, 427, 20, 0), (0x25500000, 427, 20, 0), (0x40000000, 257, 20, 0),
     (0x50100000, 1, 20, 0), (0x80000000, 1, 20, 0), (0x84000000, 1, 20, 0),
     (0x84100000, 1, 20, 0), (0xa0000000, 256, 20, 0), (0xb0000000, 256, 20, 0),
     (0xe0000000, 3, 20, 0), (0xe1000000, 80, 20, 0), (0xf8000000, 32704, 12, 0),
     (0xfffc0000, 64, 12, 0)]"
  by (simp add: sizes_def mem_RegionTable_def region_def region_constants)

lemma initial_table_valid: "table_ok mem_RegionTable"
  by (simp add: table_ok_def mem_RegionTable_def region_def region_constants region_ok_def page_bytes_def)

definition region_end :: "mem_Region \<Rightarrow> nat" where
  "region_end r = unat (start r) + unat (pages r) * page_bytes r"

lemma initial_regions_ordered:
  "sorted_wrt (\<lambda>r r'. region_end r \<le> unat (start r')) mem_RegionTable"
  by (simp add: region_end_def mem_RegionTable_def region_def region_constants page_bytes_def)

text \<open>Every layout walk ends at the region's end, inside the layout array.\<close>

fun runs_total :: "config_line list \<Rightarrow> int" where
  "runs_total [] = 0"
| "runs_total (RunLine n f # ls) = n + runs_total ls"
| "runs_total (RegionLine _ _ _ _ _ _ # ls) = runs_total ls"

lemma initial_layouts_exact:
  "map (\<lambda>r. map_option runs_total (layout_runs (uint (pages r)) (layout r))) mem_RegionTable =
   map (\<lambda>r. Some (uint (pages r))) mem_RegionTable"
  by (simp add: mem_RegionTable_def region_def region_constants layout_constants layout_runs.simps)

lemmas alloc_eval =
  mem_Region_alloc_def mem_RegionTable_def region_def region_constants Let_def

subsection \<open>Properties\<close>

text \<open>
  The table the system starts with is well formed: every named region lies inside the
  32-bit address space, the regions follow each other in increasing order without overlap,
  and the walk over every layout ends exactly at the end of its region.
\<close>

theorem initial_table_ok:
  "table_ok mem_RegionTable \<and>
   sorted_wrt (\<lambda>r r'. region_end r \<le> unat (start r')) mem_RegionTable \<and>
   map (\<lambda>r. map_option runs_total (layout_runs (uint (pages r)) (layout r))) mem_RegionTable =
   map (\<lambda>r. Some (uint (pages r))) mem_RegionTable"
  by (intro conjI initial_table_valid initial_regions_ordered initial_layouts_exact)

text \<open>
  C4: any sequence of requests to one region of a well-formed table hands out pairwise disjoint
  blocks of memory, whatever mixture of them succeeds, provided each request asks for at least one
  byte and its rounding up to pages does not wrap in 32 bits (\<open>request_ok\<close>).
\<close>

theorem region_blocks_disjoint:
  assumes "table_ok tab" and "\<forall>n \<in> set ns. request_ok name n tab"
    and "alloc_all (mem_Region_alloc name) ns tab = (ps, tab')"
    and "i < j" and "j < length ps" and "fst (ps ! i) \<noteq> 0" and "fst (ps ! j) \<noteq> 0"
  shows "block (fst (ps ! i)) (snd (ps ! i)) \<inter> block (fst (ps ! j)) (snd (ps ! j)) = {}"
  using assms by (rule region.alloc_all_disjoint)

theorem region_blocks_disjoint_witness:
  "block 0x0aa00000 5 \<inter> block 0x0ab00000 0x100001 = {}"
proof -
  define R where "R = alloc_all (mem_Region_alloc MEM_REGION_WORKSPACE) [5, 0x100001] mem_RegionTable"
  have ps: "fst R = [(0x0aa00000, 5), (0x0ab00000, 0x100001)]"
    unfolding R_def by (simp add: alloc_eval)
  have adm: "\<forall>n \<in> set [5, 0x100001]. request_ok MEM_REGION_WORKSPACE n mem_RegionTable"
    by (simp add: alloc_eval request_ok_def region_of_def page_bytes_def)
  have "alloc_all (mem_Region_alloc MEM_REGION_WORKSPACE) [5, 0x100001] mem_RegionTable = (fst R, snd R)"
    by (simp add: R_def)
  from region_blocks_disjoint [OF initial_table_valid adm this, of 0 1]
  show ?thesis by (simp add: ps)
qed

text \<open>
  \<open>mem_Region_undoAlloc\<close> with the pointer of the last successful allocation restores
  the table exactly.
\<close>

theorem undoAlloc_restores:
  assumes "table_ok tab" and "request_ok name n tab"
    and "mem_Region_alloc name n tab = (p, tab')" and "p \<noteq> 0"
  shows "mem_Region_undoAlloc name p tab' = tab"
  using assms by (rule undoAlloc_alloc)

theorem undoAlloc_restores_witness:
  "mem_Region_undoAlloc MEM_REGION_RTS 0x168000
     (snd (mem_Region_alloc MEM_REGION_RTS 0x2345 mem_RegionTable)) = mem_RegionTable"
proof -
  have p: "fst (mem_Region_alloc MEM_REGION_RTS 0x2345 mem_RegionTable) = 0x168000"
    by (simp add: alloc_eval)
  have "request_ok MEM_REGION_RTS 0x2345 mem_RegionTable"
    by (simp add: alloc_eval request_ok_def region_of_def page_bytes_def)
  from undoAlloc_restores [OF initial_table_valid this prod.collapse [symmetric]]
  show ?thesis using p by simp
qed

text \<open>
  Rounding a request up to whole pages is done in 32 bits: a request within one page of
  \<open>2 ^ 32\<close> wraps to zero pages and is granted without reserving anything.
\<close>

theorem alloc_overflow_reserves_nothing:
  assumes "table_ok tab" and "2 ^ 32 \<le> unat n + (page_bytes (region_of name tab) - 1)"
  shows "mem_Region_alloc name n tab =
     (start (region_of name tab) + push_bit (unat (pageSize (region_of name tab))) (next_page (region_of name tab)), tab)"
proof -
  let ?r = "region_of name tab"
  let ?k = "unat (pageSize ?r)"
  have rok: "region_ok ?r" using assms(1) by (rule table_okD)
  then have k: "?k < 32" by (simp add: region_ok_def)
  have m: "unat (push_bit ?k 1 - 1 :: u32) = 2 ^ ?k - 1" using k by (rule unat_page_mask)
  have n: "unat n < 2 ^ 32" using unsigned_less [of n] by simp
  have ovf: "2 ^ 32 \<le> unat n + (2 ^ ?k - 1)" using assms(2) by (simp add: page_bytes_def)
  have "unat (n + (push_bit ?k 1 - 1)) = unat n + (2 ^ ?k - 1) - 2 ^ 32"
    using ovf n by (subst unat_plus_if_size) (simp add: m word_size del: push_bit_of_1)
  also have "\<dots> < 2 ^ ?k" using n zero_less_power [of "2 :: nat" ?k] by linarith
  finally have "unat (drop_bit ?k (n + (push_bit ?k 1 - 1))) = 0"
    unfolding unat_drop_bit_eq by (simp add: drop_bit_eq_div)
  then have "drop_bit ?k ((n + (push_bit ?k 1 - 1)) AND NOT (push_bit ?k 1 - 1)) = 0"
    unfolding drop_bit_and_not_mask by (simp only: unat_eq_zero)
  moreover have "unat (ucast (pages ?r) :: u32) = unat (pages ?r)" by (rule unat_ucast_up) simp
  then have "\<not> ucast (pages ?r) < next_page ?r"
    using rok by (simp add: region_ok_def word_less_nat_alt)
  ultimately show ?thesis
    using table_okD(2) [OF assms(1), of name]
    by (simp add: mem_Region_alloc_def Let_def region_of_def del: push_bit_of_1)
qed

theorem alloc_overflow_reserves_nothing_witness:
  "mem_Region_alloc MEM_REGION_WORKSPACE 0xFFFFFFFF mem_RegionTable = (0x0aa00000, mem_RegionTable)"
proof -
  have "2 ^ 32 \<le> unat (0xFFFFFFFF :: u32) + (page_bytes (region_of MEM_REGION_WORKSPACE mem_RegionTable) - 1)"
    by (simp add: mem_RegionTable_def region_def region_constants region_of_def page_bytes_def)
  from alloc_overflow_reserves_nothing [OF initial_table_valid this]
  show ?thesis by (simp add: mem_RegionTable_def region_def region_constants region_of_def)
qed

end
