(* ===== verification/Pool.thy ===== *)
theory Pool
  imports DList MemRegion "HOL-Library.Multiset"
begin

text \<open>
  Pools of fixed-size buffers, \<^verbatim>\<open>tool/pool/src/Pool.c\<close>: one block of a memory region cut
  into entries, each a list link followed by the buffer, all kept on a free list whose head
  is the caller's pool handle. The state is the region table together with the heap of links.
\<close>

subsection \<open>The operations\<close>

definition sizeof_ListEntry :: u32 where "sizeof_ListEntry = 8"

text \<open>\<open>bzero\<close> clears the links that lie in the block.\<close>

definition bzero_links :: "addr \<Rightarrow> nat \<Rightarrow> link_heap \<Rightarrow> link_heap" where
  "bzero_links p n h =
     h\<lparr>forward := (\<lambda>a. if p \<le> a \<and> a < p + n then NIL else forward h a),
       reverse := (\<lambda>a. if p \<le> a \<and> a < p + n then NIL else reverse h a)\<rparr>"

function pool_fill :: "addr \<Rightarrow> u32 \<Rightarrow> u32 \<Rightarrow> addr \<Rightarrow> link_heap \<Rightarrow> link_heap" where
  "pool_fill nxt bsize remaining freelist h =
     (let h = List_Insert nxt freelist h;
          nxt = nxt + unat bsize;
          remaining = remaining - 1
      in if remaining \<noteq> 0 then pool_fill nxt bsize remaining freelist h else h)"
  by pat_completeness auto
termination
  by (relation "measure (\<lambda>(nxt, bsize, remaining, freelist, h). unat (remaining - 1))")
    (auto intro: unat_countdown)

declare pool_fill.simps [simp del]

definition pool_entry_size :: "u32 \<Rightarrow> u32" where
  "pool_entry_size max_size = push_bit 5 (drop_bit 5 ((max_size + sizeof_ListEntry) + 31))"

definition Pool_New ::
    "mem_RegionName \<Rightarrow> u32 \<Rightarrow> u32 \<Rightarrow> addr \<Rightarrow> mem_Region list \<times> link_heap
       \<Rightarrow> addr \<times> mem_Region list \<times> link_heap" where
  "Pool_New reg max_size max_entries pool = (\<lambda>(tab, h).
     let bsize = pool_entry_size max_size in
     if bsize = 0 then (NIL, tab, h) else
     let remaining = max_entries in
     if remaining = 0 then (NIL, tab, h) else
     let (nxt, tab) = mem_Region_alloc reg (bsize * remaining + 8) tab in
     if nxt = 0 then (NIL, tab, h) else
     let h = bzero_links (unat nxt) (unat (bsize * remaining + 8)) h;
         nxt = unat nxt + 8;
         h = List_Empty pool h
     in (pool, tab, pool_fill nxt bsize remaining pool h))"

definition Pool_Allocate :: "addr \<Rightarrow> 'a link_heap_scheme \<Rightarrow> addr \<times> 'a link_heap_scheme" where
  "Pool_Allocate pool h =
     (let (entry, h) = List_Remove pool h
      in (if entry \<noteq> List_Eol pool then entry + unat sizeof_ListEntry else NIL, h))"

definition Pool_Empty :: "addr \<Rightarrow> 'a link_heap_scheme \<Rightarrow> bool" where
  "Pool_Empty pool h \<longleftrightarrow> forward h pool = List_Eol pool"

definition Pool_Deallocate :: "addr \<Rightarrow> addr \<Rightarrow> 'a link_heap_scheme \<Rightarrow> 'a link_heap_scheme" where
  "Pool_Deallocate buffer pool h = List_Insert (buffer - unat sizeof_ListEntry) pool h"

subsection \<open>Building the free list\<close>

definition entry_addrs :: "addr \<Rightarrow> nat \<Rightarrow> nat \<Rightarrow> addr list" where
  "entry_addrs base sz n = map (\<lambda>i. base + i * sz) [0..<n]"

lemma length_entry_addrs [simp]: "length (entry_addrs base sz n) = n"
  by (simp add: entry_addrs_def)

lemma entry_addrs_Suc:
  "entry_addrs base sz (Suc n) = base # entry_addrs (base + sz) sz n"
  by (simp add: entry_addrs_def upt_conv_Cons map_Suc_upt [symmetric] algebra_simps del: upt_Suc)

lemma distinct_entry_addrs: "0 < sz \<Longrightarrow> distinct (entry_addrs base sz n)"
  by (auto simp: entry_addrs_def distinct_map inj_on_def)

lemma pool_fill_dll:
  assumes "0 < bsize" and "unat remaining = Suc n" and "dll h p xs"
    and "distinct (p # xs @ entry_addrs nxt (unat bsize) (Suc n))"
  shows "dll (pool_fill nxt bsize remaining p h) p (xs @ entry_addrs nxt (unat bsize) (Suc n))"
  using assms(2-)
proof (induction n arbitrary: nxt remaining h xs)
  case 0
  then have "remaining - 1 = 0" by (metis One_nat_def diff_self unat_1 word_unat_eq_iff)
  then show ?case
    using 0 dll_List_Insert [of h p xs nxt]
    by (simp add: pool_fill.simps [of nxt] Let_def entry_addrs_def)
next
  case (Suc n)
  have u: "unat (remaining - 1) = Suc n"
    using Suc.prems(1) by (metis diff_Suc_1 nat.distinct(1) unat_0 unat_minus_one)
  then have nz: "remaining - 1 \<noteq> 0" by (metis nat.distinct(1) unat_0)
  have "dll (List_Insert nxt p h) p (xs @ [nxt])"
    using Suc.prems(2,3) by (intro dll_List_Insert) (auto simp: entry_addrs_Suc)
  moreover have "distinct (p # (xs @ [nxt]) @ entry_addrs (nxt + unat bsize) (unat bsize) (Suc n))"
    using Suc.prems(3) by (simp add: entry_addrs_Suc [of nxt])
  ultimately have "dll (pool_fill (nxt + unat bsize) bsize (remaining - 1) p (List_Insert nxt p h)) p
      ((xs @ [nxt]) @ entry_addrs (nxt + unat bsize) (unat bsize) (Suc n))"
    using u by (intro Suc.IH)
  then show ?case using nz by (simp add: pool_fill.simps [of nxt] Let_def entry_addrs_Suc [of nxt])
qed

subsection \<open>Allocation and release\<close>

text \<open>
  The runs of a pool: \<open>pool_run pool entries (h, out)\<close> when \<open>h\<close> is the heap and \<open>out\<close> the
  buffers the clients hold, after any sequence of allocations and releases of held buffers.
\<close>

inductive pool_run :: "addr \<Rightarrow> addr list \<Rightarrow> 'a link_heap_scheme \<times> addr list \<Rightarrow> bool"
  for pool entries where
  start: "dll h pool entries \<Longrightarrow> pool_run pool entries (h, [])"
| alloc: "pool_run pool entries (h, out) \<Longrightarrow> Pool_Allocate pool h = (b, h') \<Longrightarrow>
     pool_run pool entries (h', if b = NIL then out else b # out)"
| release: "pool_run pool entries (h, out) \<Longrightarrow> b \<in> set out \<Longrightarrow>
     pool_run pool entries (Pool_Deallocate b pool h, remove1 b out)"

inductive_cases pool_runE: "pool_run pool entries (h, out)"

definition buffer_of :: "addr \<Rightarrow> addr" where "buffer_of entry = entry + 8"

lemma buffer_of_simps [simp]: "buffer_of a - 8 = a" "buffer_of a \<noteq> 0" "buffer_of a = buffer_of b \<longleftrightarrow> a = b"
  by (auto simp: buffer_of_def)

lemma inj_buffer_of: "inj buffer_of"
  by (simp add: inj_def)

lemma Pool_Allocate_Nil: "dll h pool [] \<Longrightarrow> Pool_Allocate pool h = (NIL, h)"
  by (simp add: Pool_Allocate_def dlist.get_Nil List_Eol_def)

lemma Pool_Allocate_Cons:
  assumes "dll h pool (a # free)" and "Pool_Allocate pool h = (b, h')"
  shows "b = buffer_of a \<and> dll h' pool free"
proof -
  obtain e g where r: "List_Remove pool h = (e, g)" by (cases "List_Remove pool h")
  have "e = a \<and> dll g pool free" using assms(1) r by (rule dlist.get_Cons)
  moreover have "a \<noteq> pool" using dll_distinct [OF assms(1)] by auto
  ultimately show ?thesis
    using assms(2) r by (auto simp: Pool_Allocate_def List_Eol_def sizeof_ListEntry_def buffer_of_def)
qed

text \<open>Free and held entries together are always the entries the pool was made with.\<close>

definition pool_inv :: "addr \<Rightarrow> addr list \<Rightarrow> 'a link_heap_scheme \<Rightarrow> addr list \<Rightarrow> bool" where
  "pool_inv pool entries h out \<longleftrightarrow>
     (\<exists>free. dll h pool free \<and>
        mset (map buffer_of free) + mset out = mset (map buffer_of entries) \<and> distinct (pool # entries))"

lemma pool_inv_run: "pool_run pool entries s \<Longrightarrow> pool_inv pool entries (fst s) (snd s)"
proof (induction rule: pool_run.induct)
  case (start h)
  then show ?case using dll_distinct [OF start] by (auto simp: pool_inv_def)
next
  case (alloc h out b h')
  then obtain free where f: "dll h pool free" "distinct (pool # entries)"
    "mset (map buffer_of free) + mset out = mset (map buffer_of entries)"
    by (auto simp: pool_inv_def)
  show ?case
  proof (cases free)
    case Nil
    then have "b = NIL" "h' = h" using f(1) alloc.hyps(2) by (simp_all add: Pool_Allocate_Nil)
    then show ?thesis using alloc.IH by simp
  next
    case (Cons a free')
    then have "b = buffer_of a" "dll h' pool free'"
      using f(1) alloc.hyps(2) Pool_Allocate_Cons by blast+
    then show ?thesis using f(2,3) Cons by (auto simp: pool_inv_def)
  qed
next
  case (release h out b)
  then obtain free where f: "dll h pool free" "distinct (pool # entries)"
    "mset (map buffer_of free) + mset out = mset (map buffer_of entries)"
    by (auto simp: pool_inv_def)
  have "b \<in># mset (map buffer_of free) + mset out" using release.hyps(2) by simp
  then obtain a where a: "b = buffer_of a" "a \<in> set entries" unfolding f(3) by auto
  have ms: "mset (map buffer_of (free @ [a])) + mset (remove1 b out) = mset (map buffer_of entries)"
    
  proof -
    have "add_mset b (mset (remove1 b out)) = mset out" using release.hyps(2) by simp
    from this [symmetric] show ?thesis using f(3) by (simp add: a(1) del: mset_remove1)
  qed
  have "distinct (map buffer_of entries)" using f(2) by (simp add: distinct_map inj_on_def)
  moreover have "mset (map buffer_of free @ out) = mset (map buffer_of entries)" using f(3) by simp
  ultimately have "distinct (map buffer_of free @ out)" by (metis mset_eq_imp_distinct_iff)
  then have "a \<notin> set free" using release.hyps(2) a(1) by auto
  then have "dll (Pool_Deallocate b pool h) pool (free @ [a])"
    using f(1,2) a dlist.holds_put [of h pool free a]
    by (auto simp: Pool_Deallocate_def sizeof_ListEntry_def)
  then show ?case using ms f(2) by (auto simp: pool_inv_def)
qed

lemma pool_inv_facts:
  assumes "pool_inv pool entries h out"
  shows "distinct out" "set out \<subseteq> set (map buffer_of entries)"
    "Pool_Empty pool h \<longleftrightarrow> length out = length entries"
proof -
  obtain free where f: "dll h pool free" "distinct (pool # entries)"
    "mset (map buffer_of free) + mset out = mset (map buffer_of entries)"
    using assms by (auto simp: pool_inv_def)
  have ms: "mset (map buffer_of free @ out) = mset (map buffer_of entries)" using f(3) by simp
  have "distinct (map buffer_of entries)" using f(2) by (simp add: distinct_map inj_on_def)
  then show "distinct out" using ms mset_eq_imp_distinct_iff distinct_append by metis
  show "set out \<subseteq> set (map buffer_of entries)" using mset_eq_setD [OF ms] by auto
  have "length free + length out = length entries" using mset_eq_length [OF ms] by simp
  moreover have "Pool_Empty pool h \<longleftrightarrow> free = []"
    using dll_forward_head [OF f(1)] dll_distinct [OF f(1)] by (cases free) (auto simp: Pool_Empty_def List_Eol_def)
  ultimately show "Pool_Empty pool h \<longleftrightarrow> length out = length entries" by auto
qed

lemma pool_inv_Allocate:
  assumes "pool_inv pool entries h out" and "Pool_Allocate pool h = (b, h')"
  shows "if length out = length entries then b = NIL else b \<in> set (map buffer_of entries) - set out"
proof -
  obtain free where f: "dll h pool free" "distinct (pool # entries)"
    "mset (map buffer_of free) + mset out = mset (map buffer_of entries)"
    using assms by (auto simp: pool_inv_def)
  have ms: "mset (map buffer_of free @ out) = mset (map buffer_of entries)" using f(3) by simp
  have len: "length free + length out = length entries" using mset_eq_length [OF ms] by simp
  have "distinct (map buffer_of entries)" using f(2) by (simp add: distinct_map inj_on_def)
  then have d: "distinct (map buffer_of free @ out)" using ms mset_eq_imp_distinct_iff by metis
  show ?thesis
  proof (cases free)
    case Nil
    then show ?thesis using f(1) assms(2) len by (simp add: Pool_Allocate_Nil)
  next
    case (Cons a free')
    then have "b = buffer_of a" using f(1) assms(2) Pool_Allocate_Cons by blast
    then show ?thesis using d len Cons mset_eq_setD [OF ms] by auto
  qed
qed

subsection \<open>Making a pool\<close>

lemma forward_bzero_links [simp]:
  "forward (bzero_links p n h) = (\<lambda>a. if p \<le> a \<and> a < p + n then NIL else forward h a)"
  by (simp add: bzero_links_def)

lemma unat_pool_entry_size:
  assumes "unat max_size + 39 < 2 ^ 32"
  shows "unat (pool_entry_size max_size) = (unat max_size + 39) div 32 * 32"
proof -
  have "unat (max_size + 8) = unat max_size + 8"
    using assms by (subst unat_add_lem [THEN iffD1]) simp_all
  then have s: "unat (max_size + 8 + 31) = unat max_size + 39"
    using assms by (subst unat_add_lem [THEN iffD1]) simp_all
  then have d: "unat (drop_bit 5 (max_size + 8 + 31)) = (unat max_size + 39) div 32"
    unfolding unat_drop_bit_eq by (simp only: s) (simp add: drop_bit_eq_div)
  have "(unat max_size + 39) div 32 * 32 \<le> unat max_size + 39" by simp
  then have "unat (drop_bit 5 (max_size + 8 + 31)) * 2 ^ 5 < 2 ^ LENGTH(32)"
    using assms by (simp only: d) simp
  then show ?thesis
    using unat_push_bit [of "drop_bit 5 (max_size + 8 + 31)" 5] d
    by (simp add: pool_entry_size_def sizeof_ListEntry_def)
qed

lemma pool_entry_size_bounds:
  assumes "unat max_size + 39 < 2 ^ 32"
  shows "unat max_size + 8 \<le> unat (pool_entry_size max_size)"
    "unat (pool_entry_size max_size) \<le> unat max_size + 39" "32 \<le> unat (pool_entry_size max_size)"
proof -
  show "unat max_size + 8 \<le> unat (pool_entry_size max_size)"
    unfolding unat_pool_entry_size [OF assms] using dividend_less_div_times [of 32 "unat max_size + 39"] by simp
  show "unat (pool_entry_size max_size) \<le> unat max_size + 39"
    unfolding unat_pool_entry_size [OF assms] by simp
  show "32 \<le> unat (pool_entry_size max_size)"
    unfolding unat_pool_entry_size [OF assms] by simp
qed

text \<open>The bytes of the buffer that belongs to the entry at \<open>a\<close>, in a pool of entry size \<open>sz\<close>.\<close>

definition buffer_bytes :: "nat \<Rightarrow> addr \<Rightarrow> nat set" where
  "buffer_bytes sz a = {buffer_of a ..< a + sz}"

lemma entry_blocks_disjoint:
  assumes "a \<in> set (entry_addrs base sz n)" "b \<in> set (entry_addrs base sz n)" "a \<noteq> b"
  shows "{a ..< a + sz} \<inter> {b ..< b + sz} = {}"
proof -
  obtain i j where ij: "a = base + i * sz" "b = base + j * sz" "i \<noteq> j"
    using assms by (auto simp: entry_addrs_def)
  have "i * sz + sz \<le> j * sz \<or> j * sz + sz \<le> i * sz"
    using ij(3) mult_le_mono1 [of "Suc i" j sz] mult_le_mono1 [of "Suc j" i sz] by (cases "i < j") auto
  then show ?thesis using ij by auto
qed

lemma entry_block_inside:
  assumes "a \<in> set (entry_addrs base sz n)"
  shows "{a ..< a + sz} \<subseteq> {base ..< base + n * sz}"
proof -
  obtain i where i: "i < n" "a = base + i * sz" using assms by (fastforce simp: entry_addrs_def)
  then have "Suc i * sz \<le> n * sz" by (intro mult_le_mono1) simp
  then show ?thesis using i(2) by auto
qed

lemma Pool_New_success:
  assumes new: "Pool_New reg max_size max_entries pool (tab, h) = (pool, tab', h')" and "pool \<noteq> NIL"
    and small: "unat max_size + 39 < 2 ^ 32"
  obtains p where "mem_Region_alloc reg (pool_entry_size max_size * max_entries + 8) tab = (p, tab')"
    "p \<noteq> 0" "max_entries \<noteq> 0"
    "pool \<notin> set (entry_addrs (unat p + 8) (unat (pool_entry_size max_size)) (unat max_entries)) \<Longrightarrow>
     dll h' pool (entry_addrs (unat p + 8) (unat (pool_entry_size max_size)) (unat max_entries))"
proof -
  let ?s = "pool_entry_size max_size"
  obtain p t where a: "mem_Region_alloc reg (?s * max_entries + 8) tab = (p, t)"
    by (cases "mem_Region_alloc reg (?s * max_entries + 8) tab")
  have s: "0 < ?s" using pool_entry_size_bounds(3) [OF small] by (simp add: word_less_nat_alt)
  have n: "max_entries \<noteq> 0" "p \<noteq> 0" "tab' = t"
    and h': "h' = pool_fill (unat p + 8) ?s max_entries pool
                    (List_Empty pool (bzero_links (unat p) (unat (?s * max_entries + 8)) h))"
    using new \<open>pool \<noteq> NIL\<close> s a by (auto simp: Pool_New_def Let_def split: if_splits)
  obtain m where m: "unat max_entries = Suc m"
    using n(1) by (metis not0_implies_Suc unat_eq_zero)
  have "0 < unat ?s" using s by (simp add: word_less_nat_alt)
  then have d: "distinct (entry_addrs (unat p + 8) (unat ?s) (unat max_entries))"
    by (rule distinct_entry_addrs)
  show thesis
  proof (rule that [OF _ n(2,1)])
    show "mem_Region_alloc reg (?s * max_entries + 8) tab = (p, tab')" using a n(3) by simp
  next
    assume out: "pool \<notin> set (entry_addrs (unat p + 8) (unat ?s) (unat max_entries))"
    have "dll h' pool ([] @ entry_addrs (unat p + 8) (unat ?s) (Suc m))"
      unfolding h' using s m d out by (intro pool_fill_dll) (simp_all add: m)
    then show "dll h' pool (entry_addrs (unat p + 8) (unat ?s) (unat max_entries))" by (simp add: m)
  qed
qed

lemma unat_pool_bytes:
  assumes "unat sz * unat n + 8 < 2 ^ 32"
  shows "unat (sz * n + 8 :: u32) = unat sz * unat n + 8"
proof -
  have "unat (sz * n) = unat sz * unat n"
    using assms by (subst unat_mult_lem [THEN iffD1]) simp_all
  then show ?thesis using assms by (subst unat_add_lem [THEN iffD1]) simp_all
qed

lemma block_of_Pool:
  assumes "unat sz * unat n + 8 < 2 ^ 32" and "a \<in> set (entry_addrs (unat p + 8) (unat sz) (unat n))"
  shows "{a ..< a + unat sz} \<subseteq> block p (sz * n + 8)"
  using entry_block_inside [OF assms(2)] unat_pool_bytes [OF assms(1)]
  by (auto simp: block_def mult.commute)

subsection \<open>Properties\<close>

text \<open>
  C21: provided the total size does not overflow 32 bits and the handle does not lie in the newly
  allocated memory, a successful \<open>Pool_New\<close> takes one block never handed out before and cuts
  it into exactly \<open>max_entries\<close> entries on the free list, which lie inside the block, do not
  overlap, and have at least \<open>max_size\<close> bytes of buffer each.
\<close>

theorem Pool_New_partitions_block:
  assumes "table_ok tab" and "request_ok reg (pool_entry_size max_size * max_entries + 8) tab"
    and "unat max_size + 39 < 2 ^ 32"
    and "unat (pool_entry_size max_size) * unat max_entries + 8 < 2 ^ 32"
    and "Pool_New reg max_size max_entries pool (tab, h) = (pool, tab', h')" and "pool \<noteq> NIL"
    and "pool \<notin> taken reg tab' - taken reg tab"
  shows "\<exists>p entries. dll h' pool entries \<and> length entries = unat max_entries \<and>
     (let blk = block p (pool_entry_size max_size * max_entries + 8); sz = unat (pool_entry_size max_size) in
        blk \<inter> taken reg tab = {} \<and> blk \<subseteq> taken reg tab' \<and>
        (\<forall>a \<in> set entries. {a ..< a + sz} \<subseteq> blk \<and> unat max_size \<le> card (buffer_bytes sz a)) \<and>
        (\<forall>a \<in> set entries. \<forall>b \<in> set entries. a \<noteq> b \<longrightarrow> {a ..< a + sz} \<inter> {b ..< b + sz} = {}))"
proof -
  let ?s = "pool_entry_size max_size"
  obtain p where a: "mem_Region_alloc reg (?s * max_entries + 8) tab = (p, tab')" and "p \<noteq> 0"
    and l: "pool \<notin> set (entry_addrs (unat p + 8) (unat ?s) (unat max_entries)) \<Longrightarrow>
     dll h' pool (entry_addrs (unat p + 8) (unat ?s) (unat max_entries))"
    using Pool_New_success [OF assms(5,6,3)] by metis
  let ?e = "entry_addrs (unat p + 8) (unat ?s) (unat max_entries)"
  let ?b = "block p (?s * max_entries + 8)"
  have fresh: "?b \<inter> taken reg tab = {}" "?b \<subseteq> taken reg tab'"
    using region.alloc_fresh [OF assms(1,2) a \<open>p \<noteq> 0\<close>] by auto
  have inside: "{a ..< a + unat ?s} \<subseteq> ?b" if "a \<in> set ?e" for a
    using block_of_Pool [OF assms(4) that] .
  have big: "unat max_size \<le> card (buffer_bytes (unat ?s) a)" for a
    using pool_entry_size_bounds(1) [OF assms(3)] by (simp add: buffer_bytes_def buffer_of_def)
  have "pool \<notin> set ?e"
    using inside [of pool] fresh assms(7) pool_entry_size_bounds(3) [OF assms(3)] by fastforce
  then have "dll h' pool ?e" by (rule l)
  then show ?thesis
    using fresh inside big entry_blocks_disjoint [of _ "unat p + 8" "unat ?s" "unat max_entries"]
    by (intro exI [of _ p] exI [of _ ?e]) (auto simp: Let_def)
qed

abbreviation (input) no_links :: link_heap where
  "no_links \<equiv> \<lparr>forward = (\<lambda>a. NIL), reverse = (\<lambda>a. NIL)\<rparr>"

lemma Pool_New_eval:
  "pool_entry_size max_size \<noteq> 0 \<Longrightarrow> max_entries \<noteq> 0 \<Longrightarrow>
   mem_Region_alloc reg (pool_entry_size max_size * max_entries + 8) tab = (p, tab') \<Longrightarrow> p \<noteq> 0 \<Longrightarrow>
   \<exists>h'. Pool_New reg max_size max_entries pool (tab, h) = (pool, tab', h')"
  by (simp add: Pool_New_def Let_def)

lemma workspace_72: "mem_Region_alloc MEM_REGION_WORKSPACE 72 mem_RegionTable =
    (0x0aa00000, mem_RegionTable[4 := (mem_RegionTable ! 4)\<lparr>next_page := 1\<rparr>])"
  by (simp add: alloc_eval)

theorem Pool_New_partitions_block_witness:
  "\<exists>h' p entries. Pool_New MEM_REGION_WORKSPACE 24 2 100 (mem_RegionTable, no_links) =
       (100, mem_RegionTable[4 := (mem_RegionTable ! 4)\<lparr>next_page := 1\<rparr>], h') \<and>
     dll h' 100 entries \<and> length entries = 2 \<and> (\<forall>a \<in> set entries. {a ..< a + 32} \<subseteq> block p 72)"
proof -
  let ?t = "mem_RegionTable[4 := (mem_RegionTable ! 4)\<lparr>next_page := 1\<rparr>]"
  have sz: "pool_entry_size 24 = 32" by (simp add: pool_entry_size_def sizeof_ListEntry_def)
  have req: "request_ok MEM_REGION_WORKSPACE (pool_entry_size 24 * 2 + 8) mem_RegionTable"
    by (simp add: sz alloc_eval request_ok_def region_of_def page_bytes_def)
  obtain h' where r: "Pool_New MEM_REGION_WORKSPACE 24 2 100 (mem_RegionTable, no_links) = (100, ?t, h')"
    using Pool_New_eval [of 24 2 MEM_REGION_WORKSPACE mem_RegionTable "0x0aa00000" ?t 100 no_links]
    by (auto simp: sz workspace_72)
  have "100 \<notin> taken MEM_REGION_WORKSPACE ?t - taken MEM_REGION_WORKSPACE mem_RegionTable"
    by (simp add: taken_def region_of_def mem_RegionTable_def region_def region_constants page_bytes_def)
  from Pool_New_partitions_block [OF initial_table_valid req _ _ r _ this]
  obtain p es where "dll h' 100 es" "length es = 2" "\<forall>a \<in> set es. {a ..< a + 32} \<subseteq> block p 72"
    unfolding sz Let_def by fastforce
  then show ?thesis using r by blast
qed

text \<open>
  C22: however allocations and releases are mixed, the buffers the clients hold are distinct
  buffers of the pool; \<open>Pool_Empty\<close> says exactly whether all of them are held, and the next
  allocation fails exactly then, or else returns a buffer nobody holds.
\<close>

theorem pool_conserves_buffers:
  assumes "pool_run pool entries (h, out)" and "Pool_Allocate pool h = (b, h')"
  shows "distinct out \<and> set out \<subseteq> set (map buffer_of entries) \<and>
    (Pool_Empty pool h \<longleftrightarrow> length out = length entries) \<and>
    (if length out = length entries then b = NIL else b \<in> set (map buffer_of entries) - set out)"
proof -
  have "pool_inv pool entries h out" using pool_inv_run [OF assms(1)] by simp
  from pool_inv_facts [OF this] pool_inv_Allocate [OF this assms(2)] show ?thesis by (intro conjI)
qed

definition ring2 :: link_heap where
  "ring2 = \<lparr>forward = (\<lambda>a. if a = 5 then 1000 else if a = 1000 then 2000 else 5),
            reverse = (\<lambda>a. if a = 5 then 2000 else if a = 1000 then 5 else 1000)\<rparr>"

theorem pool_conserves_buffers_witness:
  "\<not> Pool_Empty 5 (Pool_Deallocate 1008 5 (snd (Pool_Allocate 5 ring2)))"
proof -
  have "dll ring2 5 [1000, 2000]" by (simp add: dll_def ring2_def)
  then have "pool_run 5 [1000, 2000] (ring2, [])" by (rule pool_run.start)
  moreover have "Pool_Allocate 5 ring2 = (1008, snd (Pool_Allocate 5 ring2))"
    by (simp add: Pool_Allocate_def ring2_def List_Remove_def List_Detach_def List_Eol_def sizeof_ListEntry_def Let_def)
  ultimately have "pool_run 5 [1000, 2000] (snd (Pool_Allocate 5 ring2), [1008])"
    using pool_run.alloc [of 5 "[1000, 2000]" ring2 "[]" 1008] by simp
  then have "pool_run 5 [1000, 2000] (Pool_Deallocate 1008 5 (snd (Pool_Allocate 5 ring2)), remove1 1008 [1008])"
    by (rule pool_run.release) simp
  from pool_conserves_buffers [OF this prod.collapse [symmetric]] show ?thesis by simp
qed

text \<open>
  The number of bytes is multiplied out in 32 bits: when it overflows, \<open>Pool_New\<close> still
  succeeds on the short block, and the last buffer on the free list lies outside of it.
\<close>

theorem Pool_New_size_overflow:
  assumes "unat max_size + 39 < 2 ^ 32"
    and "2 ^ 32 \<le> unat (pool_entry_size max_size) * unat max_entries + 8"
    and "mem_Region_alloc reg (pool_entry_size max_size * max_entries + 8) tab = (p, tab')"
    and "Pool_New reg max_size max_entries pool (tab, h) = (pool, tab', h')" and "pool \<noteq> NIL"
    and "pool < unat p"
  shows "\<exists>free a. dll h' pool (free @ [a]) \<and>
     \<not> {a ..< a + unat (pool_entry_size max_size)} \<subseteq> block p (pool_entry_size max_size * max_entries + 8)"
proof -
  let ?s = "pool_entry_size max_size"
  let ?e = "entry_addrs (unat p + 8) (unat ?s)"
  obtain q where q: "mem_Region_alloc reg (?s * max_entries + 8) tab = (q, tab')" "max_entries \<noteq> 0"
    "pool \<notin> set (entry_addrs (unat q + 8) (unat ?s) (unat max_entries)) \<Longrightarrow>
     dll h' pool (entry_addrs (unat q + 8) (unat ?s) (unat max_entries))"
    using Pool_New_success [OF assms(4,5,1)] by metis
  then have pq: "q = p" using assms(3) by simp
  have out: "pool \<notin> set (?e n)" for n using assms(6) by (auto simp: entry_addrs_def)
  then have d: "dll h' pool (?e (unat max_entries))" using q(3) pq by simp
  obtain m where m: "unat max_entries = Suc m" using q(2) by (metis not0_implies_Suc unat_eq_zero)
  let ?a = "unat p + 8 + m * unat ?s"
  have e: "?e (unat max_entries) = ?e m @ [?a]" by (simp add: m entry_addrs_def)
  have "unat (?s * max_entries + 8) < 2 ^ 32" using unsigned_less [of "?s * max_entries + 8"] by simp
  then have "?a + unat ?s - 1 \<notin> block p (?s * max_entries + 8)"
    using assms(2) m by (auto simp: block_def algebra_simps)
  moreover have "?a + unat ?s - 1 \<in> {?a ..< ?a + unat ?s}"
    using pool_entry_size_bounds(3) [OF assms(1)] by auto
  ultimately have "\<not> {?a ..< ?a + unat ?s} \<subseteq> block p (?s * max_entries + 8)" by blast
  then show ?thesis using d e by metis
qed

theorem Pool_New_size_overflow_witness:
  "\<exists>h' free a. Pool_New MEM_REGION_WORKSPACE 0x7FFFFFF0 2 100 (mem_RegionTable, no_links) =
       (100, mem_RegionTable[4 := (mem_RegionTable ! 4)\<lparr>next_page := 1\<rparr>], h') \<and>
     dll h' 100 (free @ [a]) \<and> \<not> {a ..< a + 0x80000000} \<subseteq> block 0x0aa00000 8"
proof -
  let ?t = "mem_RegionTable[4 := (mem_RegionTable ! 4)\<lparr>next_page := 1\<rparr>]"
  have sz: "pool_entry_size 0x7FFFFFF0 = 0x80000000" by (simp add: pool_entry_size_def sizeof_ListEntry_def)
  have eight: "pool_entry_size 0x7FFFFFF0 * 2 + 8 = 8" unfolding sz by simp
  have a: "mem_Region_alloc MEM_REGION_WORKSPACE (pool_entry_size 0x7FFFFFF0 * 2 + 8) mem_RegionTable = (0x0aa00000, ?t)"
    unfolding eight by (simp add: alloc_eval)
  obtain h' where r: "Pool_New MEM_REGION_WORKSPACE 0x7FFFFFF0 2 100 (mem_RegionTable, no_links) = (100, ?t, h')"
    using Pool_New_eval [OF _ _ a, of 100 no_links] by (auto simp: sz)
  have "\<exists>free a. dll h' 100 (free @ [a]) \<and>
     \<not> {a ..< a + unat (pool_entry_size 0x7FFFFFF0)} \<subseteq> block 0x0aa00000 (pool_entry_size 0x7FFFFFF0 * 2 + 8)"
    by (rule Pool_New_size_overflow [OF _ _ a r]) (simp_all add: sz)
  then show ?thesis using r unfolding eight by (simp add: sz)
qed

end
