(* ===== verification/Hash.thy ===== *)
theory Hash
  imports Bytes
begin

text \<open>
  The hash functions of \<^verbatim>\<open>tool/hash/src/Hash.c\<close> (after Jenkins' lookup3). The three
  registers are a triple of 32-bit words; the macros \<^verbatim>\<open>mix\<close> and \<^verbatim>\<open>cleanup\<close> are functions on
  it. Memory read through a pointer is the list of what lies from that address on; reading
  past its end is \<open>None\<close>.
\<close>

subsection \<open>The macros\<close>

type_synonym regs = "u32 \<times> u32 \<times> u32"

definition rot :: "u32 \<Rightarrow> nat \<Rightarrow> u32" where
  "rot x k = push_bit k x OR drop_bit (32 - k) x"

text \<open>
  The six lines of \<^verbatim>\<open>mix\<close> are one pattern with the register names rotated,
  \<^verbatim>\<open>x -= z; x ^= rot(z,k); z += y\<close>; the seven lines of \<^verbatim>\<open>cleanup\<close> are
  \<^verbatim>\<open>x ^= y; x -= rot(y,k)\<close>.
\<close>

definition mix_line :: "nat \<Rightarrow> u32 \<Rightarrow> u32 \<Rightarrow> u32 \<Rightarrow> u32 \<times> u32" where
  "mix_line k x y z = (let x = x - z; x = x XOR rot z k; z = z + y in (x, z))"

definition mix :: "regs \<Rightarrow> regs" where
  "mix r = (let (a, b, c) = r;
      (a, c) = mix_line 4 a b c;
      (b, a) = mix_line 6 b c a;
      (c, b) = mix_line 8 c a b;
      (a, c) = mix_line 16 a b c;
      (b, a) = mix_line 19 b c a;
      (c, b) = mix_line 4 c a b
    in (a, b, c))"

definition cleanup_line :: "nat \<Rightarrow> u32 \<Rightarrow> u32 \<Rightarrow> u32" where
  "cleanup_line k x y = (let x = x XOR y in x - rot y k)"

definition cleanup :: "regs \<Rightarrow> regs" where
  "cleanup r = (let (a, b, c) = r;
      c = cleanup_line 14 c b;
      a = cleanup_line 11 a c;
      b = cleanup_line 25 b a;
      c = cleanup_line 16 c b;
      a = cleanup_line 4 a c;
      b = cleanup_line 14 b a;
      c = cleanup_line 24 c b
    in (a, b, c))"

definition MAGIC_NUMBER :: u32 where "MAGIC_NUMBER = 0xDEADBEEF"
definition REGISTERS_USED :: int where "REGISTERS_USED = 3"
definition HASH_SEED :: u32 where "HASH_SEED = 1771875"

text \<open>The value returned by all three functions: register 2 below register 1.\<close>

definition hash_result :: "regs \<Rightarrow> u64" where
  "hash_result r = (let (r0, r1, r2) = r in ucast r2 OR push_bit 32 (ucast r1))"

subsection \<open>Hashing a vector of words\<close>

text \<open>
  \<open>remaining\<close> is the signed 32-bit count of the source, \<open>next\<close> the words from the pointer on.
\<close>

fun hash_word_loop :: "int \<Rightarrow> u32 list \<Rightarrow> regs \<Rightarrow> (int \<times> u32 list \<times> regs) option" where
  "hash_word_loop remaining nxt (register0, register1, register2) =
     (if remaining > REGISTERS_USED
      then (case nxt of
              n0 # n1 # n2 # rest \<Rightarrow>
                hash_word_loop (remaining - REGISTERS_USED) rest
                  (mix (register0 + n0, register1 + n1, register2 + n2))
            | _ \<Rightarrow> None)
      else Some (remaining, nxt, (register0, register1, register2)))"

declare hash_word_loop.simps [simp del]

definition hash_word_switch :: "int \<Rightarrow> u32 list \<Rightarrow> regs \<Rightarrow> regs option" where
  "hash_word_switch remaining nxt r =
     (let (register0, register1, register2) = r in
      if remaining = 3 then
        (case nxt of n0 # n1 # n2 # _ \<Rightarrow> Some (register0 + n0, register1 + n1, register2 + n2) | _ \<Rightarrow> None)
      else if remaining = 2 then
        (case nxt of n0 # n1 # _ \<Rightarrow> Some (register0 + n0, register1 + n1, register2) | _ \<Rightarrow> None)
      else if remaining = 1 then
        (case nxt of n0 # _ \<Rightarrow> Some (register0 + n0, register1, register2) | _ \<Rightarrow> None)
      else Some (register0, register1, register2))"

definition HashWord :: "u32 list \<Rightarrow> u32 \<Rightarrow> u32 \<Rightarrow> u64 option" where
  "HashWord vector len seed =
     (let remaining = sint len;
          register2 = seed + MAGIC_NUMBER + push_bit 2 len;
          register1 = register2;
          register0 = register1
      in case hash_word_loop remaining vector (register0, register1, register2) of
           None \<Rightarrow> None
         | Some (remaining, nxt, r) \<Rightarrow>
             map_option (\<lambda>r. hash_result (cleanup r)) (hash_word_switch remaining nxt r))"

subsection \<open>Hashing a string\<close>

definition CONTINUE :: u32 where "CONTINUE = 0xFFFFFFFF"
definition HNONE :: u32 where "HNONE = 0x00000000"
definition HONE :: u32 where "HONE = 0x000000FF"
definition HTWO :: u32 where "HTWO = 0x0000FFFF"
definition HTHREE :: u32 where "HTHREE = 0x00FFFFFF"

definition parse_word :: "u32 \<Rightarrow> u32" where
  "parse_word w =
     (if w AND 0x000000FF = 0 then HNONE
      else if w AND 0x0000FF00 = 0 then HONE
      else if w AND 0x00FF0000 = 0 then HTWO
      else if w AND 0xFF000000 = 0 then HTHREE
      else CONTINUE)"

fun read_word :: "u8 list \<Rightarrow> (u32 \<times> u8 list) option" where
  "read_word (a # b # c # d # rest) = Some (le_word a b c d, rest)"
| "read_word _ = None"

lemma read_word_length: "read_word bs = Some (w, rest) \<Longrightarrow> length rest < length bs"
  by (cases bs rule: read_word.cases) auto

function hash_string_loop :: "u8 list \<Rightarrow> regs \<Rightarrow> regs option" where
  "hash_string_loop nxt (register0, register1, register2) =
     (case read_word nxt of None \<Rightarrow> None | Some (next_word, nxt1) \<Rightarrow>
        let next_mask = parse_word next_word; register0 = register0 + (next_mask AND next_word)
        in if next_mask \<noteq> CONTINUE then Some (register0, register1, register2)
        else case read_word nxt1 of None \<Rightarrow> None | Some (next_word, nxt2) \<Rightarrow>
        let next_mask = parse_word next_word; register1 = register1 + (next_mask AND next_word)
        in if next_mask \<noteq> CONTINUE then Some (register0, register1, register2)
        else case read_word nxt2 of None \<Rightarrow> None | Some (next_word, nxt3) \<Rightarrow>
        let next_mask = parse_word next_word; register2 = register2 + (next_mask AND next_word)
        in if next_mask \<noteq> CONTINUE then Some (register0, register1, register2)
        else hash_string_loop nxt3 (mix (register0, register1, register2)))"
  by pat_completeness auto
termination
  by (relation "measure (\<lambda>(nxt, r). length nxt)") (auto dest!: read_word_length)

declare hash_string_loop.simps [simp del]

definition HashString :: "u8 list \<Rightarrow> u32 \<Rightarrow> u64 option" where
  "HashString vector seed =
     (let register0 = seed + MAGIC_NUMBER; register1 = register0; register2 = register1
      in map_option (\<lambda>r. hash_result (cleanup r))
           (hash_string_loop vector (register0, register1, register2)))"

subsection \<open>Hashing a key and a word\<close>

definition Hash64_32 :: "u64 \<Rightarrow> u32 \<Rightarrow> u64" where
  "Hash64_32 parent child =
     (let register2 = MAGIC_NUMBER + (push_bit 2 3);
          register1 = register2;
          register0 = register1;
          register2 = register2 + ucast parent;
          register1 = register1 + ucast (drop_bit 32 parent);
          register0 = register0 + child
      in hash_result (cleanup (register0, register1, register2)))"

subsection \<open>The mixing steps are reversible\<close>

definition unmix_line :: "nat \<Rightarrow> u32 \<Rightarrow> u32 \<Rightarrow> u32 \<Rightarrow> u32 \<times> u32" where
  "unmix_line k x y z = (let z = z - y; x = x XOR rot z k; x = x + z in (x, z))"

definition unmix :: "regs \<Rightarrow> regs" where
  "unmix r = (let (a, b, c) = r;
      (c, b) = unmix_line 4 c a b;
      (b, a) = unmix_line 19 b c a;
      (a, c) = unmix_line 16 a b c;
      (c, b) = unmix_line 8 c a b;
      (b, a) = unmix_line 6 b c a;
      (a, c) = unmix_line 4 a b c
    in (a, b, c))"

definition uncleanup_line :: "nat \<Rightarrow> u32 \<Rightarrow> u32 \<Rightarrow> u32" where
  "uncleanup_line k x y = (x + rot y k) XOR y"

definition uncleanup :: "regs \<Rightarrow> regs" where
  "uncleanup r = (let (a, b, c) = r;
      c = uncleanup_line 24 c b;
      b = uncleanup_line 14 b a;
      a = uncleanup_line 4 a c;
      c = uncleanup_line 16 c b;
      b = uncleanup_line 25 b a;
      a = uncleanup_line 11 a c;
      c = uncleanup_line 14 c b
    in (a, b, c))"

lemma xor_cancel [simp]: "(x XOR y) XOR y = (x :: 'a::len word)"
  by (simp add: xor.assoc)

lemma unmix_line_mix_line: "mix_line k x y z = (x', z') \<Longrightarrow> unmix_line k x' y z' = (x, z)"
  by (auto simp: mix_line_def unmix_line_def Let_def)

lemma mix_line_unmix_line: "unmix_line k x y z = (x', z') \<Longrightarrow> mix_line k x' y z' = (x, z)"
  by (auto simp: mix_line_def unmix_line_def Let_def)

lemma cleanup_line_inverse [simp]:
  "uncleanup_line k (cleanup_line k x y) y = x" "cleanup_line k (uncleanup_line k x y) y = x"
  by (simp_all add: cleanup_line_def uncleanup_line_def Let_def)

lemma unmix_mix [simp]: "unmix (mix r) = r"
  by (cases r) (auto simp: mix_def unmix_def split: prod.splits dest!: unmix_line_mix_line)

lemma mix_unmix [simp]: "mix (unmix r) = r"
  by (cases r) (auto simp: mix_def unmix_def split: prod.splits dest!: mix_line_unmix_line)

lemma uncleanup_cleanup [simp]: "uncleanup (cleanup r) = r"
  by (cases r) (simp add: cleanup_def uncleanup_def Let_def)

lemma cleanup_uncleanup [simp]: "cleanup (uncleanup r) = r"
  by (cases r) (simp add: cleanup_def uncleanup_def Let_def)

lemma bij_mix: "bij mix"
  by (rule bij_betw_byWitness [where f' = unmix]) auto

lemma bij_cleanup: "bij cleanup"
  by (rule bij_betw_byWitness [where f' = uncleanup]) auto

subsection \<open>Joining and splitting 64-bit values\<close>

definition join64 :: "u32 \<Rightarrow> u32 \<Rightarrow> u64" where
  "join64 hi lo = ucast lo OR push_bit 32 (ucast hi)"

lemma low_join64 [simp]: "ucast (join64 hi lo) = lo"
  by (rule bit_word_eqI) (auto simp: join64_def bit_simps)

lemma high_join64 [simp]: "ucast (drop_bit 32 (join64 hi lo)) = hi"
  by (rule bit_word_eqI) (auto simp: join64_def bit_simps dest: bit_imp_le_length)

lemma join64_split [simp]: "join64 (ucast (drop_bit 32 p)) (ucast p) = p"
proof (rule bit_word_eqI)
  fix n assume "n < LENGTH(64)"
  then show "bit (join64 (ucast (drop_bit 32 p)) (ucast p)) n = bit p n"
    by (cases "n < 32") (auto simp: join64_def bit_simps)
qed

lemma join64_eq_iff: "join64 hi lo = p \<longleftrightarrow> hi = ucast (drop_bit 32 p) \<and> lo = ucast p"
  by (metis high_join64 low_join64 join64_split)

lemma hash_result_join: "hash_result (r0, r1, r2) = join64 r1 r2"
  by (simp add: hash_result_def join64_def)

subsection \<open>Every 64-bit key has equally many preimages\<close>

definition hash64_state :: "u64 \<times> u32 \<Rightarrow> regs" where
  "hash64_state = (\<lambda>(parent, child).
     (MAGIC_NUMBER + 12 + child, MAGIC_NUMBER + 12 + ucast (drop_bit 32 parent), MAGIC_NUMBER + 12 + ucast parent))"

lemma Hash64_32_state: "Hash64_32 parent child = hash_result (cleanup (hash64_state (parent, child)))"
  by (simp add: Hash64_32_def hash64_state_def Let_def)

lemma bij_hash64_state: "bij hash64_state"
proof (rule bij_betw_byWitness)
  let ?g = "\<lambda>(a, b, c). (join64 (b - (MAGIC_NUMBER + 12)) (c - (MAGIC_NUMBER + 12)), a - (MAGIC_NUMBER + 12))"
  show "\<forall>x \<in> UNIV. ?g (hash64_state x) = x" by (auto simp: hash64_state_def)
  show "\<forall>x \<in> UNIV. hash64_state (?g x) = x" by (auto simp: hash64_state_def)
qed auto

lemma hash64_preimages:
  "card {(parent, child). Hash64_32 parent child = h} = 2 ^ 32"
proof -
  let ?f = "cleanup \<circ> hash64_state"
  let ?S = "{(parent, child). Hash64_32 parent child = h}"
  let ?T = "range (\<lambda>r0 :: u32. (r0, ucast (drop_bit 32 h) :: u32, ucast h :: u32))"
  have bij: "bij ?f" using bij_hash64_state bij_cleanup by (rule bij_comp)
  have "?S = ?f -` ?T"
  proof (intro set_eqI)
    fix x :: "u64 \<times> u32"
    obtain r0 r1 r2 where r: "?f x = (r0, r1, r2)" by (cases "?f x")
    then have "x \<in> ?S \<longleftrightarrow> join64 r1 r2 = h"
      by (cases x) (simp add: Hash64_32_state hash_result_join)
    also have "\<dots> \<longleftrightarrow> ?f x \<in> ?T" unfolding r by (auto simp: join64_eq_iff)
    finally show "x \<in> ?S \<longleftrightarrow> x \<in> ?f -` ?T" by simp
  qed
  also have "card \<dots> = card ?T"
    using bij by (metis bij_betw_def card_vimage_inj subset_UNIV)
  also have "\<dots> = card (UNIV :: u32 set)"
    by (rule card_image) (auto simp: inj_on_def)
  finally show ?thesis by (simp add: card_word)
qed

subsection \<open>Loads and masks\<close>

lemma byte_masks:
  "(0x000000FF :: u32) = mask 8" "(0x0000FF00 :: u32) = push_bit 8 (mask 8)"
  "(0x00FF0000 :: u32) = push_bit 16 (mask 8)" "(0xFF000000 :: u32) = push_bit 24 (mask 8)"
  "(0x0000FFFF :: u32) = mask 16" "(0x00FFFFFF :: u32) = mask 24"
  by (simp_all add: mask_eq_exp_minus_1)

lemma ucast_byte_eq_0: "(ucast (b :: u8) :: u32) = 0 \<longleftrightarrow> b = 0"
  by (metis unsigned_eq_0_iff unat_ucast_up[where 'a=8 and 'b=32, simplified])

lemma push_byte_eq_0: "k \<le> 24 \<Longrightarrow> push_bit k (ucast (b :: u8) :: u32) = 0 \<longleftrightarrow> b = 0"
proof -
  assume k: "k \<le> 24"
  have "bit b n" if "push_bit k (ucast b :: u32) = 0" "bit b n" for n
    using that by simp
  moreover have "\<not> bit b n" if "push_bit k (ucast b :: u32) = 0" for n
  proof
    assume n: "bit b n"
    then have "n < 8" by (auto dest: bit_imp_le_length)
    with n k have "bit (push_bit k (ucast b) :: u32) (k + n)" by (simp add: bit_simps)
    with that show False by simp
  qed
  ultimately show ?thesis by (auto intro: bit_word_eqI)
qed

lemma le_word_masked:
  "le_word a b c d AND 0x000000FF = ucast a"
  "le_word a b c d AND 0x0000FF00 = push_bit 8 (ucast b)"
  "le_word a b c d AND 0x00FF0000 = push_bit 16 (ucast c)"
  "le_word a b c d AND 0xFF000000 = push_bit 24 (ucast d)"
  "0x0000FFFF AND le_word a b c d = le_word a b 0 0"
  "0x00FFFFFF AND le_word a b c d = le_word a b c 0"
  "0x000000FF AND le_word a b c d = le_word a 0 0 0"
  unfolding byte_masks
  by (rule bit_word_eqI; auto simp: bit_le_word bit_simps dest: bit_imp_le_length)+

lemma le_word_0 [simp]: "le_word 0 0 0 0 = 0"
  by (simp add: le_word_def)

lemma parse_le_word:
  "parse_word (le_word a b c d) =
     (if a = 0 then HNONE else if b = 0 then HONE else if c = 0 then HTWO
      else if d = 0 then HTHREE else CONTINUE)"
  by (simp add: parse_word_def le_word_masked ucast_byte_eq_0 push_byte_eq_0)

lemma CONTINUE_and [simp]: "CONTINUE AND w = w"
proof -
  have "CONTINUE = - 1" by (simp add: CONTINUE_def)
  then show ?thesis by (metis and.left_neutral)
qed

lemma mask_values [simp]:
  "HNONE \<noteq> CONTINUE" "HONE \<noteq> CONTINUE" "HTWO \<noteq> CONTINUE" "HTHREE \<noteq> CONTINUE" "HNONE AND w = 0"
  by (simp_all add: HNONE_def HONE_def HTWO_def HTHREE_def CONTINUE_def)

lemma masked_le_word:
  "HONE AND le_word a b c d = le_word a 0 0 0"
  "HTWO AND le_word a b c d = le_word a b 0 0"
  "HTHREE AND le_word a b c d = le_word a b c 0"
  by (simp_all add: HONE_def HTWO_def HTHREE_def le_word_masked)

subsection \<open>The reference: absorbing a list of words\<close>

fun absorb :: "u32 list \<Rightarrow> regs \<Rightarrow> regs" where
  "absorb (x # y # z # w # ws) (a, b, c) = absorb (w # ws) (mix (a + x, b + y, c + z))"
| "absorb [x, y, z] (a, b, c) = (a + x, b + y, c + z)"
| "absorb [x, y] (a, b, c) = (a + x, b + y, c)"
| "absorb [x] (a, b, c) = (a + x, b, c)"
| "absorb [] r = r"

definition start_regs :: "u32 \<Rightarrow> regs" where
  "start_regs x = (x, x, x)"

definition words_hash :: "u32 list \<Rightarrow> u32 \<Rightarrow> u64" where
  "words_hash ws init = hash_result (cleanup (absorb ws (start_regs init)))"

lemma hash_word_loop_stop:
  "n \<le> 3 \<Longrightarrow> hash_word_loop (int n) vec r = Some (int n, vec, r)"
  by (cases r) (simp add: hash_word_loop.simps REGISTERS_USED_def)

lemma hash_word_loop_step:
  "hash_word_loop (int (Suc (Suc (Suc (Suc m))))) (x # y # z # vec) (a, b, c) =
     hash_word_loop (int (Suc m)) vec (mix (a + x, b + y, c + z))"
  by (subst hash_word_loop.simps) (simp add: REGISTERS_USED_def)

lemma hash_word_loop_short:
  "length vec < 3 \<Longrightarrow> hash_word_loop (int (Suc (Suc (Suc (Suc m))))) vec (a, b, c) = None"
  by (subst hash_word_loop.simps) (auto simp: REGISTERS_USED_def split: list.split)

lemma switch_absorb:
  "n \<le> 3 \<Longrightarrow> n \<le> length vec \<Longrightarrow> hash_word_switch (int n) vec r = Some (absorb (take n vec) r)"
  by (cases r)
    (auto simp: hash_word_switch_def le_Suc_eq numeral_eq_Suc Suc_le_length_iff split: list.split)

lemma switch_short:
  "n \<le> 3 \<Longrightarrow> length vec < n \<Longrightarrow> hash_word_switch (int n) vec r = None"
  by (cases r) (auto simp: hash_word_switch_def le_Suc_eq numeral_eq_Suc split: list.split)

definition hash_word_body :: "int \<Rightarrow> u32 list \<Rightarrow> regs \<Rightarrow> regs option" where
  "hash_word_body n vec r =
     (case hash_word_loop n vec r of None \<Rightarrow> None
      | Some (remaining, nxt, r) \<Rightarrow> hash_word_switch remaining nxt r)"

lemma hash_word_body_absorb:
  "n \<le> length vec \<Longrightarrow> hash_word_body (int n) vec r = Some (absorb (take n vec) r)"
proof (induction n arbitrary: vec r rule: less_induct)
  case (less n)
  show ?case
  proof (cases "n \<le> 3")
    case True
    then show ?thesis
      using less.prems by (simp add: hash_word_body_def hash_word_loop_stop switch_absorb)
  next
    case False
    then obtain m where m: "n = Suc (Suc (Suc (Suc m)))" using nat_ge4D [of n] by auto
    then obtain x y z w ws where vec: "vec = x # y # z # w # ws"
      using less.prems length_ge4D [of vec] by auto
    obtain a b c where r: "r = (a, b, c)" by (cases r)
    have "hash_word_body (int (Suc m)) (w # ws) (mix (a + x, b + y, c + z))
        = Some (absorb (take (Suc m) (w # ws)) (mix (a + x, b + y, c + z)))"
      using less.prems by (intro less.IH) (simp_all add: m vec)
    then show ?thesis
      by (simp only: hash_word_body_def r vec m hash_word_loop_step) simp
  qed
qed

lemma hash_word_body_short:
  "length vec < n \<Longrightarrow> hash_word_body (int n) vec r = None"
proof (induction n arbitrary: vec r rule: less_induct)
  case (less n)
  show ?case
  proof (cases "n \<le> 3")
    case True
    then show ?thesis
      using less.prems by (simp add: hash_word_body_def hash_word_loop_stop switch_short)
  next
    case False
    then obtain m where m: "n = Suc (Suc (Suc (Suc m)))" using nat_ge4D [of n] by auto
    obtain a b c where r: "r = (a, b, c)" by (cases r)
    show ?thesis
    proof (cases "length vec < 3")
      case True
      then show ?thesis by (simp only: hash_word_body_def r m hash_word_loop_short) simp
    next
      case False
      then obtain x y z ws where vec: "vec = x # y # z # ws"
        by (cases vec rule: remdups_adj.cases; cases "tl (tl vec)") auto
      have "hash_word_body (int (Suc m)) ws (mix (a + x, b + y, c + z)) = None"
        using less.prems by (intro less.IH) (simp_all add: m vec)
      then show ?thesis by (simp only: hash_word_body_def r vec m hash_word_loop_step)
    qed
  qed
qed

lemma HashWord_body:
  assumes "unat len < 2 ^ 31"
  shows "HashWord vec len seed =
     map_option (\<lambda>r. hash_result (cleanup r))
       (hash_word_body (int (unat len)) vec (start_regs (seed + MAGIC_NUMBER + push_bit 2 len)))"
  unfolding HashWord_def sint_small [OF assms] hash_word_body_def start_regs_def Let_def
  by (cases "hash_word_loop (int (unat len)) vec
        (seed + MAGIC_NUMBER + push_bit 2 len, seed + MAGIC_NUMBER + push_bit 2 len,
         seed + MAGIC_NUMBER + push_bit 2 len)") (auto split: prod.split)

lemma HashWord_value:
  assumes "unat len < 2 ^ 31" and "unat len \<le> length vec"
  shows "HashWord vec len seed =
     Some (words_hash (take (unat len) vec) (seed + MAGIC_NUMBER + push_bit 2 len))"
  unfolding HashWord_body [OF assms(1)] hash_word_body_absorb [OF assms(2)] words_hash_def by simp

subsection \<open>The words of a string\<close>

text \<open>The bytes of a string, four at a time, filled up with at least one zero byte.\<close>

fun str_words :: "u8 list \<Rightarrow> u32 list" where
  "str_words (a # b # c # d # s) = le_word a b c d # str_words s"
| "str_words [a, b, c] = [le_word a b c 0]"
| "str_words [a, b] = [le_word a b 0 0]"
| "str_words [a] = [le_word a 0 0 0]"
| "str_words [] = [le_word 0 0 0 0]"

lemma str_words_nonempty: "\<exists>w ws. str_words s = w # ws"
  by (cases s rule: str_words.cases) auto

lemma length_str_words [size_simps]: "length (str_words s) = length s div 4 + 1"
  by (induction s rule: str_words.induct) auto

lemma read_full_word:
  assumes "0 \<notin> set s" and "4 \<le> length s"
  obtains a b c d s' where "s = a # b # c # d # s'"
    and "read_word (s @ 0 # pad) = Some (le_word a b c d, s' @ 0 # pad)"
    and "parse_word (le_word a b c d) = CONTINUE"
    and "str_words s = le_word a b c d # str_words s'"
proof -
  obtain a b c d s' where s: "s = a # b # c # d # s'" using length_ge4D [OF assms(2)] by auto
  show thesis by (rule that [OF s]) (use assms(1) in \<open>auto simp: s parse_le_word\<close>)
qed

lemma read_last_word:
  assumes "0 \<notin> set s" and "length s < 4" and "3 \<le> length s + length pad"
  obtains w rest where "read_word (s @ 0 # pad) = Some (w, rest)" and "parse_word w \<noteq> CONTINUE"
    and "str_words s = [parse_word w AND w]"
proof -
  consider "s = []" | a where "s = [a]" | a b where "s = [a, b]" | a b c where "s = [a, b, c]"
    using assms(2) by (cases s rule: str_words.cases) auto
  then show thesis
  proof cases
    case 1
    then obtain x y z p where "pad = x # y # z # p"
      using assms(3) by (auto simp: Suc_le_length_iff numeral_eq_Suc)
    then show thesis using 1 that by (auto simp: parse_le_word masked_le_word)
  next
    case 2
    then obtain x y p where "pad = x # y # p"
      using assms(3) by (auto simp: Suc_le_length_iff numeral_eq_Suc)
    then show thesis using 2 that assms(1) by (auto simp: parse_le_word masked_le_word)
  next
    case 3
    then obtain x p where "pad = x # p"
      using assms(3) by (auto simp: Suc_le_length_iff numeral_eq_Suc)
    then show thesis using 3 that assms(1) by (auto simp: parse_le_word masked_le_word)
  next
    case 4
    then show thesis using that assms(1) by (auto simp: parse_le_word masked_le_word)
  qed
qed

lemma hash_string_loop_absorb:
  "0 \<notin> set s \<Longrightarrow> 3 \<le> length s mod 4 + length pad \<Longrightarrow>
     hash_string_loop (s @ 0 # pad) (r0, r1, r2) = Some (absorb (str_words s) (r0, r1, r2))"
proof (induction s arbitrary: r0 r1 r2 rule: length_induct)
  case (1 s)
  note unfold = hash_string_loop.simps [of "s @ 0 # pad" r0 r1 r2]
  show ?case
  proof (cases "4 \<le> length s")
    case False
    then obtain w rest where "read_word (s @ 0 # pad) = Some (w, rest)" "parse_word w \<noteq> CONTINUE"
        "str_words s = [parse_word w AND w]"
      using read_last_word [of s pad] 1(2,3) by auto
    then show ?thesis by (simp add: unfold Let_def)
  next
    case True
    then obtain a b c d s1 where s: "s = a # b # c # d # s1"
      and rd: "read_word (s @ 0 # pad) = Some (le_word a b c d, s1 @ 0 # pad)"
      and pw: "parse_word (le_word a b c d) = CONTINUE"
      and sw: "str_words s = le_word a b c d # str_words s1"
      using read_full_word 1(2) by metis
    have z1: "0 \<notin> set s1" and p1: "3 \<le> length s1 mod 4 + length pad" using 1(2,3) s by auto
    show ?thesis
    proof (cases "4 \<le> length s1")
      case False
      then obtain w rest where "read_word (s1 @ 0 # pad) = Some (w, rest)" "parse_word w \<noteq> CONTINUE"
          "str_words s1 = [parse_word w AND w]"
        using read_last_word [of s1 pad] z1 p1 by auto
      then show ?thesis by (simp add: unfold rd pw sw Let_def)
    next
      case True
      then obtain e f g h s2 where s1: "s1 = e # f # g # h # s2"
        and rd1: "read_word (s1 @ 0 # pad) = Some (le_word e f g h, s2 @ 0 # pad)"
        and pw1: "parse_word (le_word e f g h) = CONTINUE"
        and sw1: "str_words s1 = le_word e f g h # str_words s2"
        using read_full_word z1 by metis
      have z2: "0 \<notin> set s2" and p2: "3 \<le> length s2 mod 4 + length pad" using z1 p1 s1 by auto
      show ?thesis
      proof (cases "4 \<le> length s2")
        case False
        then obtain w rest where "read_word (s2 @ 0 # pad) = Some (w, rest)" "parse_word w \<noteq> CONTINUE"
            "str_words s2 = [parse_word w AND w]"
          using read_last_word [of s2 pad] z2 p2 by auto
        then show ?thesis by (simp add: unfold rd pw sw rd1 pw1 sw1 Let_def)
      next
        case True
        then obtain i j k l s3 where s2: "s2 = i # j # k # l # s3"
          and rd2: "read_word (s2 @ 0 # pad) = Some (le_word i j k l, s3 @ 0 # pad)"
          and pw2: "parse_word (le_word i j k l) = CONTINUE"
          and sw2: "str_words s2 = le_word i j k l # str_words s3"
          using read_full_word z2 by metis
        have "0 \<notin> set s3" "3 \<le> length s3 mod 4 + length pad" "length s3 < length s"
          using z2 p2 s s1 s2 by auto
        then have "hash_string_loop (s3 @ 0 # pad) r = Some (absorb (str_words s3) r)" for r
          using 1(1) by (cases r) auto
        moreover obtain w ws where "str_words s3 = w # ws" using str_words_nonempty by blast
        ultimately show ?thesis
          by (simp add: unfold rd pw sw rd1 pw1 sw1 rd2 pw2 sw2 Let_def)
      qed
    qed
  qed
qed

lemma HashString_value:
  "0 \<notin> set s \<Longrightarrow> 3 \<le> length s mod 4 + length pad \<Longrightarrow>
     HashString (s @ 0 # pad) seed = Some (words_hash (str_words s) (seed + MAGIC_NUMBER))"
  by (simp add: HashString_def hash_string_loop_absorb words_hash_def start_regs_def Let_def)

lemma HashWord_short:
  "unat len < 2 ^ 31 \<Longrightarrow> length vec < unat len \<Longrightarrow> HashWord vec len seed = None"
  by (simp only: HashWord_body hash_word_body_short option.map)

subsection \<open>Properties\<close>

text \<open>
  The two mixing macros are permutations of the three registers, as the comment above
  \<^verbatim>\<open>mix\<close> claims ("mix 3 32-bit values reversibly"): no input information is lost in them.
\<close>

theorem mix_and_cleanup_reversible: "bij mix \<and> bij cleanup"
  using bij_mix bij_cleanup by (rule conjI)

text \<open>
  C24: \<open>Hash64_32\<close> spreads its inputs perfectly evenly: each of the \<open>2 ^ 64\<close> results is the
  hash of exactly \<open>2 ^ 32\<close> of the \<open>2 ^ 96\<close> pairs of a parent key and a child.
\<close>

theorem Hash64_32_uniform: "card {(parent, child). Hash64_32 parent child = h} = 2 ^ 32"
  by (rule hash64_preimages)

text \<open>
  \<open>HashWord\<close> reads exactly the \<open>len\<close> words it is given: with fewer words the read is out
  of bounds, and otherwise the result does not depend on what follows them.
\<close>

theorem HashWord_reads_exactly_its_words:
  assumes "unat len < 2 ^ 31"
  shows "(HashWord vec len seed = None \<longleftrightarrow> length vec < unat len) \<and>
         (unat len \<le> length vec \<longrightarrow>
            HashWord vec len seed = HashWord (take (unat len) vec) len seed)"
proof (cases "length vec < unat len")
  case True
  then show ?thesis using HashWord_short [OF assms] by simp
next
  case False
  then have "unat len \<le> length vec" "unat len \<le> length (take (unat len) vec)" by simp_all
  then show ?thesis
    using False HashWord_value [OF assms, of vec] HashWord_value [OF assms, of "take (unat len) vec"]
    by simp
qed

theorem HashWord_reads_exactly_its_words_witness:
  "HashWord [1, 2, 3, 4, 5] 4 9 = HashWord [1, 2, 3, 4] 4 9 \<and> HashWord [1, 2] 4 9 = None"
proof -
  have h: "unat (4 :: u32) < 2 ^ 31" by simp
  show ?thesis
    using HashWord_reads_exactly_its_words [OF h, of "[1, 2, 3, 4, 5]" 9]
      HashWord_reads_exactly_its_words [OF h, of "[1, 2]" 9]
    by simp
qed

text \<open>
  C23: hashing a C string is hashing the words it fills, padded with zero bytes: the result
  does not depend on the bytes after the terminator that the word-wise loop also reads, and
  it is the result of \<open>HashWord\<close> on those words with the length taken out of the seed. The
  loop always ends at the terminator; it needs the word holding the terminator to be readable.
\<close>

theorem HashString_is_HashWord:
  assumes "0 \<notin> set s" and "3 \<le> length s mod 4 + length pad" and "length s < 2 ^ 31"
  shows "HashString (s @ 0 # pad) seed \<noteq> None \<and>
         HashString (s @ 0 # pad) seed =
           HashWord (str_words s) (of_nat (length (str_words s)))
             (seed - push_bit 2 (of_nat (length (str_words s))))"
proof -
  let ?n = "length (str_words s)"
  have n: "?n < 2 ^ 31" using assms(3) by (simp add: size_simps)
  then have u: "unat (of_nat ?n :: u32) = ?n"
    by (simp only: unsigned_of_nat of_nat_id) (simp add: take_bit_nat_eq_self)
  have "HashWord (str_words s) (of_nat ?n) (seed - push_bit 2 (of_nat ?n)) =
      Some (words_hash (str_words s) (seed - push_bit 2 (of_nat ?n) + MAGIC_NUMBER + push_bit 2 (of_nat ?n)))"
    using HashWord_value [of "of_nat ?n" "str_words s"] n u by simp
  moreover have "seed - push_bit 2 (of_nat ?n) + MAGIC_NUMBER + push_bit 2 (of_nat ?n) = seed + MAGIC_NUMBER"
    by simp
  ultimately show ?thesis using HashString_value [OF assms(1,2)] by simp
qed

theorem HashString_is_HashWord_witness:
  "HashString ([97, 98, 99, 100, 101] @ 0 # [7, 7]) HASH_SEED =
     HashWord [le_word 97 98 99 100, le_word 101 0 0 0] 2 (HASH_SEED - push_bit 2 2)"
  using HashString_is_HashWord [of "[97, 98, 99, 100, 101]" "[7, 7]" HASH_SEED] by simp

end
