(* ===== verification/Kvt.thy ===== *)
theory Kvt
  imports DList Hash
begin

text \<open>
  The key-value table, \<^verbatim>\<open>tool/kvt/src/Kvt.c\<close>: a hash table of fixed capacity in one buffer.
  The buffer at \<open>t\<close> holds the \<open>Kvt\<close> structure (24 bytes, its free-list head at \<open>t + 16\<close>),
  the look-up table of \<open>2 ^ (n + 1)\<close> list heads, and the \<open>2 ^ n\<close> entries (24 bytes each on the
  32-bit target). Buckets are lists kept in increasing order of key.

  The state is the heap of links extended by the two payload fields of an entry and by the
  scalar fields of the \<open>Kvt\<close> structures. The two pointer walks are partial functions: a walk
  that never meets its end is \<open>None\<close>, so a result of an operation is also its termination.
\<close>

subsection \<open>Data\<close>

record kvt_fields =
  stride :: u32
  lut :: addr
  remaining :: u32
  next_kvp :: addr

record kv_heap = link_heap +
  kvp_key :: "addr \<Rightarrow> u64"
  kvp_value :: "addr \<Rightarrow> u32"
  kvt_at :: "addr \<Rightarrow> kvt_fields"

definition sizeof_ListHead :: nat where "sizeof_ListHead = 8"
definition sizeof_Kvp :: nat where "sizeof_Kvp = 24"
definition sizeof_Kvt :: nat where "sizeof_Kvt = 24"

definition freelist :: "addr \<Rightarrow> addr" where "freelist kvt = kvt + 16"

definition LOOKUP_HEAD :: "u64 \<Rightarrow> addr \<Rightarrow> kv_heap \<Rightarrow> addr" where
  "LOOKUP_HEAD key kvt h =
     unat (ucast key AND stride (kvt_at h kvt)) * sizeof_ListHead + lut (kvt_at h kvt)"

definition LNGTHOF_LUT :: "u32 \<Rightarrow> u32" where
  "LNGTHOF_LUT entries = push_bit (unat (entries + 1)) 1"

definition SIZEOF_LUT :: "u32 \<Rightarrow> u32" where
  "SIZEOF_LUT entries = LNGTHOF_LUT entries * of_nat sizeof_ListHead"

definition SIZEOF_BUF :: "u32 \<Rightarrow> u32" where
  "SIZEOF_BUF entries = push_bit (unat entries) 1 * of_nat sizeof_Kvp"

subsection \<open>The operations\<close>

definition KvtHash :: "u8 list \<Rightarrow> u64 option" where
  "KvtHash vector = HashString vector HASH_SEED"

definition KvtSizeof :: "u32 \<Rightarrow> u32" where
  "KvtSizeof max_entries = of_nat sizeof_Kvt + SIZEOF_LUT max_entries + SIZEOF_BUF max_entries"

text \<open>The loop of \<open>KvtConstruct\<close> that empties every list head of the look-up table.\<close>

function empty_lut :: "addr \<Rightarrow> u32 \<Rightarrow> kv_heap \<Rightarrow> kv_heap" where
  "empty_lut nxt remain h =
     (let h = List_Empty nxt h;
          nxt = nxt + sizeof_ListHead;
          remain = remain - 1
      in if remain \<noteq> 0 then empty_lut nxt remain h else h)"
  by pat_completeness auto
termination
  by (relation "measure (\<lambda>(nxt, remain, h). unat (remain - 1))") (auto intro: unat_countdown)

declare empty_lut.simps [simp del]

definition KvtConstruct :: "u32 \<Rightarrow> addr \<Rightarrow> kv_heap \<Rightarrow> addr \<times> kv_heap" where
  "KvtConstruct max_entries buffer h =
     (let kvt = buffer in
      if kvt = NIL then (NIL, h) else
      let h = List_Empty (freelist kvt) h;
          remain = push_bit (unat max_entries) 1;
          fields = (kvt_at h kvt)\<lparr>remaining := remain\<rparr>;
          remain = push_bit 1 remain;
          nxt = kvt + sizeof_Kvt;
          fields = fields\<lparr>lut := nxt, next_kvp := nxt + unat remain * sizeof_ListHead,
                          stride := remain - 1\<rparr>;
          h = h\<lparr>kvt_at := (kvt_at h)(kvt := fields)\<rparr>
      in (kvt, empty_lut nxt remain h))"

definition kvt_allocate :: "addr \<Rightarrow> kv_heap \<Rightarrow> addr \<times> kv_heap" where
  "kvt_allocate kvt h =
     (let fields = kvt_at h kvt;
          kvp = next_kvp fields
      in if remaining fields \<noteq> 0
         then (kvp, h\<lparr>kvt_at := (kvt_at h)(kvt :=
                 fields\<lparr>remaining := remaining fields - 1, next_kvp := kvp + sizeof_Kvp\<rparr>)\<rparr>)
         else let (kvp, h) = List_Remove (freelist kvt) h
              in (if kvp = List_Eol (freelist kvt) then NIL else kvp, h))"

partial_function (option) match_loop :: "u64 \<Rightarrow> addr \<Rightarrow> addr \<Rightarrow> kv_heap \<Rightarrow> addr option" where
  "match_loop this eol nxt h =
     (if nxt \<noteq> eol
      then if kvp_key h nxt = this then Some nxt else match_loop this eol (forward h nxt) h
      else Some NIL)"

definition kvt_match :: "u64 \<Rightarrow> addr \<Rightarrow> kv_heap \<Rightarrow> addr option" where
  "kvt_match this list h = match_loop this (List_Eol list) (List_Head list h) h"

partial_function (option) after_loop :: "u64 \<Rightarrow> addr \<Rightarrow> addr \<Rightarrow> kv_heap \<Rightarrow> addr option" where
  "after_loop this eol nxt h =
     (if nxt \<noteq> eol
      then if kvp_key h nxt = this then Some NIL
           else if kvp_key h nxt > this then Some (reverse h nxt)
           else after_loop this eol (forward h nxt) h
      else Some (reverse h nxt))"

definition kvt_after :: "u64 \<Rightarrow> addr \<Rightarrow> kv_heap \<Rightarrow> addr option" where
  "kvt_after this list h = after_loop this (List_Eol list) (List_Head list h) h"

definition KvtInsert :: "u64 \<Rightarrow> u32 \<Rightarrow> addr \<Rightarrow> kv_heap \<Rightarrow> (u32 \<times> kv_heap) option" where
  "KvtInsert this value kvt h =
     (let head = LOOKUP_HEAD this kvt h in
      case kvt_after this head h of
        None \<Rightarrow> None
      | Some after \<Rightarrow>
          if after = NIL then Some (0, h) else
          let (kvp, h) = kvt_allocate kvt h in
          if kvp = NIL then Some (0, h) else
          if value = 0 then Some (0, h) else
          let h = h\<lparr>kvp_value := (kvp_value h)(kvp := value)\<rparr>;
              h = h\<lparr>kvp_key := (kvp_key h)(kvp := this)\<rparr>
          in Some (value, List_Attach kvp after h))"

definition KvtLookup :: "u64 \<Rightarrow> addr \<Rightarrow> kv_heap \<Rightarrow> u32 option" where
  "KvtLookup this kvt h =
     (case kvt_match this (LOOKUP_HEAD this kvt h) h of
        None \<Rightarrow> None
      | Some kvp \<Rightarrow> Some (if kvp \<noteq> NIL then kvp_value h kvp else 0))"

definition KvtRename :: "u64 \<Rightarrow> u32 \<Rightarrow> addr \<Rightarrow> kv_heap \<Rightarrow> (u32 \<times> kv_heap) option" where
  "KvtRename this value kvt h =
     (case kvt_match this (LOOKUP_HEAD this kvt h) h of
        None \<Rightarrow> None
      | Some kvp \<Rightarrow>
          let h = (if kvp \<noteq> NIL then h\<lparr>kvp_value := (kvp_value h)(kvp := value)\<rparr> else h)
          in Some (if kvp \<noteq> NIL then kvp_value h kvp else 0, h))"

definition KvtRemove :: "u64 \<Rightarrow> addr \<Rightarrow> kv_heap \<Rightarrow> (u32 \<times> kv_heap) option" where
  "KvtRemove this kvt h =
     (case kvt_match this (LOOKUP_HEAD this kvt h) h of
        None \<Rightarrow> None
      | Some kvp \<Rightarrow>
          if kvp = NIL then Some (0, h) else
          let (_, h) = List_Detach kvp h;
              previous = kvp_value h kvp
          in Some (previous, List_Insert kvp (freelist kvt) h))"

declare match_loop.simps [code] after_loop.simps [code]

subsection \<open>Updates that touch no link\<close>

lemma dll_payload [simp]:
  "dll (h\<lparr>kvp_key := f\<rparr>) p xs = dll h p xs"
  "dll (h\<lparr>kvp_value := g\<rparr>) p xs = dll h p xs"
  "dll (h\<lparr>kvt_at := k\<rparr>) p xs = dll h p xs"
  by (rule dll_cong; simp)+

lemma payload_List_ops [simp]:
  "kvp_key (List_Attach a q h) = kvp_key h" "kvp_value (List_Attach a q h) = kvp_value h"
  "kvt_at (List_Attach a q h) = kvt_at h"
  "kvp_key (List_Empty a h) = kvp_key h" "kvp_value (List_Empty a h) = kvp_value h"
  "kvt_at (List_Empty a h) = kvt_at h"
  "kvp_key (snd (List_Detach a h)) = kvp_key h" "kvp_value (snd (List_Detach a h)) = kvp_value h"
  "kvt_at (snd (List_Detach a h)) = kvt_at h"
  by (simp_all add: List_Attach_def List_Empty_def List_Detach_def Let_def)

lemma payload_List_Insert [simp]:
  "kvp_key (List_Insert a q h) = kvp_key h" "kvp_value (List_Insert a q h) = kvp_value h"
  "kvt_at (List_Insert a q h) = kvt_at h"
  by (simp_all add: List_Insert_def)

subsection \<open>The layout of a table\<close>

definition bucket_head :: "addr \<Rightarrow> nat \<Rightarrow> addr" where
  "bucket_head t i = t + sizeof_Kvt + i * sizeof_ListHead"

definition kvp_base :: "addr \<Rightarrow> nat \<Rightarrow> addr" where
  "kvp_base t n = bucket_head t (2 ^ (n + 1))"

definition kvp_slot :: "addr \<Rightarrow> nat \<Rightarrow> nat \<Rightarrow> addr" where
  "kvp_slot t n j = kvp_base t n + j * sizeof_Kvp"

definition key_index :: "nat \<Rightarrow> u64 \<Rightarrow> nat" where
  "key_index n k = unat (ucast k AND (2 ^ (n + 1) - 1) :: u32)"

definition slots_below :: "addr \<Rightarrow> nat \<Rightarrow> nat \<Rightarrow> addr set" where
  "slots_below t n j = kvp_slot t n ` {..<j}"

lemma key_index_bound [intro, simp]: "key_index n k < 2 ^ (n + 1)"
  using unat_mask_bound [of "ucast k :: u32" "n + 1"] by (simp add: key_index_def mask_eq_exp_minus_1)

lemma key_index_bound' [intro, simp]: "key_index n k < 2 * 2 ^ n"
  using key_index_bound by simp

lemma bucket_head_eq_iff [simp]: "bucket_head t i = bucket_head t j \<longleftrightarrow> i = j"
  by (simp add: bucket_head_def sizeof_ListHead_def)

lemma bucket_head_freelist [simp]: "bucket_head t i \<noteq> freelist t" "freelist t \<noteq> bucket_head t i"
  by (simp_all add: bucket_head_def freelist_def sizeof_Kvt_def)

lemma kvp_slot_eq_iff [simp]: "kvp_slot t n i = kvp_slot t n j \<longleftrightarrow> i = j"
  by (simp add: kvp_slot_def sizeof_Kvp_def)

lemma kvp_slot_nonzero [simp]: "kvp_slot t n j \<noteq> 0" "0 < kvp_slot t n j"
  by (simp_all add: kvp_slot_def kvp_base_def bucket_head_def sizeof_Kvt_def)

lemma head_not_slot:
  "i < 2 ^ (n + 1) \<Longrightarrow> bucket_head t i \<notin> slots_below t n j" "freelist t \<notin> slots_below t n j"
  by (auto simp: slots_below_def kvp_slot_def kvp_base_def bucket_head_def freelist_def
      sizeof_Kvt_def sizeof_ListHead_def)

lemma slot_not_below [simp]: "kvp_slot t n j \<notin> slots_below t n j"
  by (auto simp: slots_below_def)

lemma slots_below_Suc: "slots_below t n (Suc j) = insert (kvp_slot t n j) (slots_below t n j)"
  by (simp add: slots_below_def lessThan_Suc)

lemma slots_below_mono: "i \<le> j \<Longrightarrow> slots_below t n i \<subseteq> slots_below t n j"
  by (auto simp: slots_below_def)

lemma zero_not_slot [simp]: "0 \<notin> slots_below t n j"
  by (auto simp: slots_below_def dest: sym)

subsection \<open>The invariant and the abstraction\<close>

text \<open>
  \<open>B i\<close> is bucket number \<open>i\<close>, \<open>F\<close> the free list, \<open>j\<close> the number of entries ever taken
  from the buffer. \<open>kvt_rep h t n m c\<close>: the table at \<open>t\<close> represents the map \<open>m\<close> and has
  room for \<open>c\<close> more entries.
\<close>

definition kvt_shape :: "kv_heap \<Rightarrow> addr \<Rightarrow> nat \<Rightarrow> nat \<Rightarrow> bool" where
  "kvt_shape h t n j \<longleftrightarrow> t \<noteq> NIL \<and> n \<le> 30 \<and> j \<le> 2 ^ n \<and>
     kvt_at h t = \<lparr>stride = 2 ^ (n + 1) - 1, lut = bucket_head t 0,
                   remaining = of_nat (2 ^ n - j), next_kvp = kvp_slot t n j\<rparr>"

definition bucket_ok :: "kv_heap \<Rightarrow> addr \<Rightarrow> nat \<Rightarrow> nat \<Rightarrow> addr list \<Rightarrow> bool" where
  "bucket_ok h t n i xs \<longleftrightarrow> dll h (bucket_head t i) xs \<and>
     sorted_wrt (\<lambda>a b. kvp_key h a < kvp_key h b) xs \<and>
     (\<forall>a \<in> set xs. key_index n (kvp_key h a) = i)"

definition kvt_inv :: "kv_heap \<Rightarrow> addr \<Rightarrow> nat \<Rightarrow> (nat \<Rightarrow> addr list) \<Rightarrow> addr list \<Rightarrow> nat \<Rightarrow> bool" where
  "kvt_inv h t n B F j \<longleftrightarrow> kvt_shape h t n j \<and> dll h (freelist t) F \<and> set F \<subseteq> slots_below t n j \<and>
     (\<forall>i < 2 ^ (n + 1). bucket_ok h t n i (B i) \<and> set (B i) \<subseteq> slots_below t n j \<and> set (B i) \<inter> set F = {}) \<and>
     (\<forall>i < 2 ^ (n + 1). \<forall>i' < 2 ^ (n + 1). i \<noteq> i' \<longrightarrow> set (B i) \<inter> set (B i') = {})"

definition contents :: "kv_heap \<Rightarrow> nat \<Rightarrow> (nat \<Rightarrow> addr list) \<Rightarrow> u64 \<Rightarrow> u32 option" where
  "contents h n B k = map_of (map (\<lambda>a. (kvp_key h a, kvp_value h a)) (B (key_index n k))) k"

definition kvt_rep :: "kv_heap \<Rightarrow> addr \<Rightarrow> nat \<Rightarrow> (u64 \<Rightarrow> u32 option) \<Rightarrow> nat \<Rightarrow> bool" where
  "kvt_rep h t n m c \<longleftrightarrow>
     (\<exists>B F j. kvt_inv h t n B F j \<and> m = contents h n B \<and> c = (2 ^ n - j) + length F)"

subsection \<open>The walks\<close>

lemma match_loop_dll:
  assumes "dll h p (xs @ ys)"
  shows "match_loop k p (hd (ys @ [p])) h =
     Some (case find (\<lambda>a. kvp_key h a = k) ys of Some a \<Rightarrow> a | None \<Rightarrow> NIL)"
  using assms
proof (induction ys arbitrary: xs)
  case Nil
  then show ?case by (simp add: match_loop.simps)
next
  case (Cons y ys)
  have "y \<noteq> p" using dll_distinct [OF Cons.prems] by auto
  moreover have "forward h y = hd (ys @ [p])" using dll_split [OF Cons.prems] by simp
  moreover have "match_loop k p (hd (ys @ [p])) h =
     Some (case find (\<lambda>a. kvp_key h a = k) ys of Some a \<Rightarrow> a | None \<Rightarrow> NIL)"
    using Cons.IH [of "xs @ [y]"] Cons.prems by simp
  ultimately show ?case by (simp add: match_loop.simps)
qed

lemma kvt_match_dll:
  "dll h p xs \<Longrightarrow> kvt_match k p h = Some (case find (\<lambda>a. kvp_key h a = k) xs of Some a \<Rightarrow> a | None \<Rightarrow> NIL)"
  using match_loop_dll [of h p "[]" xs k] dll_forward_head [of h p xs]
  by (simp add: kvt_match_def List_Eol_def List_Head_def)

lemma after_loop_dll:
  assumes "dll h p (xs @ ys)" and "sorted_wrt (\<lambda>a b. kvp_key h a < kvp_key h b) ys"
  shows "after_loop k p (hd (ys @ [p])) h =
     Some (if k \<in> kvp_key h ` set ys then NIL else last (p # xs @ takeWhile (\<lambda>a. kvp_key h a < k) ys))"
  using assms
proof (induction ys arbitrary: xs)
  case Nil
  then show ?case using dll_reverse_head [of h p xs] by (simp add: after_loop.simps)
next
  case (Cons y ys)
  have y: "y \<noteq> p" using dll_distinct [OF Cons.prems(1)] by auto
  have f: "forward h y = hd (ys @ [p])" and r: "reverse h y = last (p # xs)"
    using dll_split [OF Cons.prems(1)] by auto
  have IH: "after_loop k p (hd (ys @ [p])) h =
     Some (if k \<in> kvp_key h ` set ys then NIL else last (p # (xs @ [y]) @ takeWhile (\<lambda>a. kvp_key h a < k) ys))"
    using Cons.prems by (intro Cons.IH) auto
  have big: "k \<notin> kvp_key h ` set ys" if "k < kvp_key h y"
    using Cons.prems(2) that by (auto dest: less_trans)
  show ?case
    using y f r IH big by (subst after_loop.simps) (auto simp: not_less)
qed

lemma kvt_after_dll:
  "dll h p xs \<Longrightarrow> sorted_wrt (\<lambda>a b. kvp_key h a < kvp_key h b) xs \<Longrightarrow>
   kvt_after k p h = Some (if k \<in> kvp_key h ` set xs then NIL
                           else last (p # takeWhile (\<lambda>a. kvp_key h a < k) xs))"
  using after_loop_dll [of h p "[]" xs k] dll_forward_head [of h p xs]
  by (simp add: kvt_after_def List_Eol_def List_Head_def)

lemma map_of_find:
  "map_of (map (\<lambda>a. (key a, v a)) xs) k = map_option v (find (\<lambda>a. key a = k) xs)"
  by (induction xs) auto

subsection \<open>Looking up\<close>

lemma kvt_invD:
  assumes "kvt_inv h t n B F j"
  shows "kvt_shape h t n j" "dll h (freelist t) F" "set F \<subseteq> slots_below t n j"
    "i < 2 ^ (n + 1) \<Longrightarrow> bucket_ok h t n i (B i)"
    "i < 2 ^ (n + 1) \<Longrightarrow> set (B i) \<subseteq> slots_below t n j"
    "i < 2 ^ (n + 1) \<Longrightarrow> set (B i) \<inter> set F = {}"
    "i < 2 ^ (n + 1) \<Longrightarrow> i' < 2 ^ (n + 1) \<Longrightarrow> i \<noteq> i' \<Longrightarrow> set (B i) \<inter> set (B i') = {}"
  using assms unfolding kvt_inv_def by blast+

lemma LOOKUP_HEAD_shape: "kvt_shape h t n j \<Longrightarrow> LOOKUP_HEAD k t h = bucket_head t (key_index n k)"
  by (simp add: LOOKUP_HEAD_def kvt_shape_def bucket_head_def key_index_def)

lemma bucket_ok_dll: "bucket_ok h t n i xs \<Longrightarrow> dll h (bucket_head t i) xs"
  by (simp add: bucket_ok_def)

lemma kvt_match_inv:
  assumes "kvt_inv h t n B F j"
  shows "kvt_match k (LOOKUP_HEAD k t h) h =
    Some (case find (\<lambda>a. kvp_key h a = k) (B (key_index n k)) of Some a \<Rightarrow> a | None \<Rightarrow> NIL)"
  using kvt_match_dll [OF bucket_ok_dll [OF kvt_invD(4) [OF assms key_index_bound]], of k]
    LOOKUP_HEAD_shape [OF kvt_invD(1) [OF assms], of k] by simp

lemma find_bucket:
  assumes inv: "kvt_inv h t n B F j" and f: "find (\<lambda>a. kvp_key h a = k) (B (key_index n k)) = Some a"
  shows "a \<noteq> NIL" "a \<in> set (B (key_index n k))" "kvp_key h a = k" "contents h n B k = Some (kvp_value h a)"
proof -
  show a: "a \<in> set (B (key_index n k))" "kvp_key h a = k" using f by (auto simp: find_Some_iff)
  then show "a \<noteq> NIL" using kvt_invD(5) [OF inv key_index_bound, of k] zero_not_slot by (metis subsetD)
  show "contents h n B k = Some (kvp_value h a)" using f by (simp add: contents_def map_of_find)
qed

lemma find_bucket_None:
  "contents h n B k = None \<longleftrightarrow> find (\<lambda>a. kvp_key h a = k) (B (key_index n k)) = None"
  by (simp add: contents_def map_of_find)

lemma KvtLookup_rep:
  assumes "kvt_rep h t n m c"
  shows "KvtLookup k t h = Some (case m k of Some v \<Rightarrow> v | None \<Rightarrow> 0)"
proof -
  obtain B F j where inv: "kvt_inv h t n B F j" and m: "m = contents h n B"
    using assms by (auto simp: kvt_rep_def)
  show ?thesis
  proof (cases "find (\<lambda>a. kvp_key h a = k) (B (key_index n k))")
    case None
    then show ?thesis
      using kvt_match_inv [OF inv, of k] find_bucket_None [of h n B k] m by (simp add: KvtLookup_def)
  next
    case (Some a)
    then show ?thesis
      using kvt_match_inv [OF inv, of k] find_bucket [OF inv Some] m by (simp add: KvtLookup_def)
  qed
qed

subsection \<open>Renaming\<close>

lemma kvt_inv_value: "kvt_inv (h\<lparr>kvp_value := g\<rparr>) t n B F j = kvt_inv h t n B F j"
  by (simp add: kvt_inv_def kvt_shape_def bucket_ok_def)

lemma bucket_unique_key:
  assumes "bucket_ok h t n i xs" "a \<in> set xs" "b \<in> set xs" "kvp_key h a = kvp_key h b"
  shows "a = b"
proof -
  have "sorted_wrt (<) (map (kvp_key h) xs)" using assms(1) by (simp add: bucket_ok_def sorted_wrt_map)
  then have "distinct (map (kvp_key h) xs)" by (simp add: strict_sorted_iff)
  then show ?thesis using assms(2-4) by (auto simp: distinct_map inj_on_def)
qed

lemma contents_value_upd:
  assumes inv: "kvt_inv h t n B F j" and a: "a \<in> set (B (key_index n (kvp_key h a)))"
  shows "contents (h\<lparr>kvp_value := (kvp_value h)(a := v)\<rparr>) n B = (contents h n B)(kvp_key h a \<mapsto> v)"
proof
  fix k
  let ?f = "find (\<lambda>b. kvp_key h b = k) (B (key_index n k))"
  show "contents (h\<lparr>kvp_value := (kvp_value h)(a := v)\<rparr>) n B k = ((contents h n B)(kvp_key h a \<mapsto> v)) k"
  proof (cases ?f)
    case None
    moreover from this have "k \<noteq> kvp_key h a" using a by (auto simp: find_None_iff)
    ultimately show ?thesis by (simp add: contents_def map_of_find)
  next
    case (Some b)
    then have b: "b \<in> set (B (key_index n k))" "kvp_key h b = k" by (auto simp: find_Some_iff)
    have "b = a \<longleftrightarrow> k = kvp_key h a"
      using b a bucket_unique_key [OF kvt_invD(4) [OF inv key_index_bound], of b k a] by auto
    then show ?thesis using Some by (auto simp: contents_def map_of_find)
  qed
qed

lemma KvtRename_rep:
  assumes "kvt_rep h t n m c"
  obtains h' where "KvtRename k v t h = Some (if k \<in> dom m then v else 0, h')"
    "kvt_rep h' t n (if k \<in> dom m then m(k \<mapsto> v) else m) c"
proof -
  obtain B F j where inv: "kvt_inv h t n B F j" and m: "m = contents h n B" and c: "c = 2 ^ n - j + length F"
    using assms by (auto simp: kvt_rep_def)
  show thesis
  proof (cases "find (\<lambda>a. kvp_key h a = k) (B (key_index n k))")
    case None
    then have "k \<notin> dom m" using find_bucket_None [of h n B k] m by (simp add: domIff)
    then show ?thesis
      using kvt_match_inv [OF inv, of k] None assms by (intro that [of h]) (simp_all add: KvtRename_def)
  next
    case (Some a)
    let ?h = "h\<lparr>kvp_value := (kvp_value h)(a := v)\<rparr>"
    note a = find_bucket [OF inv Some]
    have "KvtRename k v t h = Some (v, ?h)"
      using kvt_match_inv [OF inv, of k] Some a by (simp add: KvtRename_def)
    moreover have "contents ?h n B = m(k \<mapsto> v)" using contents_value_upd [OF inv, of a v] a m by simp
    then have "kvt_rep ?h t n (m(k \<mapsto> v)) c"
      using inv c unfolding kvt_rep_def by (metis kvt_inv_value)
    moreover have "k \<in> dom m" using a m by auto
    ultimately show ?thesis by (intro that [of ?h]) simp_all
  qed
qed

subsection \<open>Changing a bucket\<close>

lemma inv_heads_disjoint:
  assumes "kvt_inv h t n B F j" "i < 2 ^ (n + 1)"
  shows "i' < 2 ^ (n + 1) \<Longrightarrow> i \<noteq> i' \<Longrightarrow>
      set (bucket_head t i # B i) \<inter> set (bucket_head t i' # B i') = {}"
    and "set (bucket_head t i # B i) \<inter> set (freelist t # F) = {}"
proof -
  note d = kvt_invD [OF assms(1)]
  show "set (bucket_head t i # B i) \<inter> set (bucket_head t i' # B i') = {}"
    if "i' < 2 ^ (n + 1)" "i \<noteq> i'"
    using d(5) [OF assms(2)] d(5) [OF that(1)] d(7) [OF assms(2) that(1,2)]
      head_not_slot(1) [OF assms(2), of t j] head_not_slot(1) [OF that(1), of t j] that by auto
  show "set (bucket_head t i # B i) \<inter> set (freelist t # F) = {}"
    using d(5,6) [OF assms(2)] d(3) head_not_slot(1) [OF assms(2), of t j] head_not_slot(2) [of t n j] by auto
qed

lemma bucket_ok_cong:
  assumes "dll h' (bucket_head t i) xs = dll h (bucket_head t i) xs"
    and "\<And>a. a \<in> set xs \<Longrightarrow> kvp_key h' a = kvp_key h a"
  shows "bucket_ok h' t n i xs = bucket_ok h t n i xs"
proof -
  have "sorted_wrt (\<lambda>a b. kvp_key h' a < kvp_key h' b) xs = sorted_wrt (\<lambda>a b. kvp_key h a < kvp_key h b) xs"
    by (auto simp: sorted_wrt_iff_nth_less assms(2))
  then show ?thesis using assms by (simp add: bucket_ok_def)
qed

lemma sorted_keys_insert:
  fixes f :: "addr \<Rightarrow> u64"
  assumes "sorted_wrt (\<lambda>x y. f x < f y) (xs @ ys)" "\<forall>b \<in> set xs. f b < k" "\<forall>b \<in> set ys. k < f b"
    and "a \<notin> set (xs @ ys)"
  shows "sorted_wrt (\<lambda>x y. (f(a := k)) x < (f(a := k)) y) (xs @ a # ys)"
proof -
  have "map (f(a := k)) (xs @ a # ys) = map f xs @ k # map f ys" using assms(4) by simp
  moreover have "sorted_wrt (<) (map f xs @ k # map f ys)"
    using assms(1-3) by (auto simp: sorted_wrt_append sorted_wrt_map)
  ultimately show ?thesis by (metis sorted_wrt_map)
qed

text \<open>A fresh entry is linked into a bucket between the smaller and the larger keys.\<close>

lemma kvt_inv_attach:
  fixes h :: kv_heap and k v a
  assumes inv: "kvt_inv h t n B F j" and a: "a \<in> slots_below t n j" "a \<notin> set F" "\<forall>i < 2 ^ (n + 1). a \<notin> set (B i)"
    and i: "i = key_index n k" and xy: "B i = xs @ ys"
    and lt: "\<forall>b \<in> set xs. kvp_key h b < k" and gt: "\<forall>b \<in> set ys. k < kvp_key h b"
  defines "h2 \<equiv> h\<lparr>kvp_value := (kvp_value h)(a := v), kvp_key := (kvp_key h)(a := k)\<rparr>"
  defines "h3 \<equiv> List_Attach a (last (bucket_head t i # xs)) h2"
  shows "kvt_inv h3 t n (B(i := xs @ a # ys)) F j"
proof -
  note d = kvt_invD [OF inv]
  have ib: "i < 2 ^ (n + 1)" using i by simp
  have b: "dll h2 (bucket_head t i) (xs @ ys)" "sorted_wrt (\<lambda>a b. kvp_key h a < kvp_key h b) (xs @ ys)"
      "\<forall>a \<in> set (xs @ ys). key_index n (kvp_key h a) = i"
    using d(4) [OF ib] xy by (simp_all add: bucket_ok_def h2_def)
  have new: "a \<notin> set (bucket_head t i # xs @ ys)" using a head_not_slot(1) [OF ib, of t j] xy ib by auto
  have anf: "a \<noteq> freelist t" using a(1) head_not_slot(2) [of t n j] by auto
  have shape: "kvt_shape h3 t n j" using d(1) by (simp add: kvt_shape_def h3_def h2_def)
  have free: "dll h3 (freelist t) F"
    unfolding h3_def using inv_heads_disjoint(2) [OF inv ib] xy d(2) a(2) anf
    by (intro dll_frame_Attach [OF _ b(1)]) (auto simp: h2_def)
  have bi: "bucket_ok h3 t n i (xs @ a # ys)"
    unfolding bucket_ok_def h3_def
  proof (intro conjI ballI)
    show "dll (List_Attach a (last (bucket_head t i # xs)) h2) (bucket_head t i) (xs @ a # ys)"
      using b(1) new by (rule dll_List_Attach)
    show "sorted_wrt (\<lambda>x y. kvp_key (List_Attach a (last (bucket_head t i # xs)) h2) x
            < kvp_key (List_Attach a (last (bucket_head t i # xs)) h2) y) (xs @ a # ys)"
      using sorted_keys_insert [OF b(2) lt gt, of a] new by (simp add: h2_def)
    fix b assume "b \<in> set (xs @ a # ys)"
    then show "key_index n (kvp_key (List_Attach a (last (bucket_head t i # xs)) h2) b) = i"
      using b(3) i by (auto simp: h2_def)
  qed
  have others: "bucket_ok h3 t n i' (B i')" if i': "i' < 2 ^ (n + 1)" "i' \<noteq> i" for i'
  proof -
    have "a \<notin> set (bucket_head t i' # B i')" using a(1,3) head_not_slot(1) [OF i'(1), of t j] i'(1) by auto
    moreover have "set (bucket_head t i' # B i') \<inter> set (bucket_head t i # xs @ ys) = {}"
      using inv_heads_disjoint(1) [OF inv i'(1) ib i'(2)] xy by simp
    moreover have "dll h2 (bucket_head t i') (B i')" using bucket_ok_dll [OF d(4) [OF i'(1)]] by (simp add: h2_def)
    ultimately have "dll h3 (bucket_head t i') (B i')"
      unfolding h3_def using b(1) by (intro dll_frame_Attach)
    moreover have "kvp_key h3 b = kvp_key h b" if "b \<in> set (B i')" for b
      using that a(3) i'(1) by (auto simp: h3_def h2_def)
    ultimately show ?thesis
      using bucket_ok_cong [of h3 t i' "B i'" h n] d(4) [OF i'(1)] bucket_ok_dll [OF d(4) [OF i'(1)]] by blast
  qed
  have set_i: "set (xs @ a # ys) = insert a (set (B i))" using xy by auto
  show ?thesis
    unfolding kvt_inv_def
  proof (intro conjI allI impI)
    fix i' assume i': "i' < (2::nat) ^ (n + 1)"
    show "bucket_ok h3 t n i' ((B(i := xs @ a # ys)) i')" using bi others [OF i'] by simp
    show "set ((B(i := xs @ a # ys)) i') \<subseteq> slots_below t n j" using d(5) [OF i'] a(1) set_i by auto
    show "set ((B(i := xs @ a # ys)) i') \<inter> set F = {}" using d(6) [OF i'] a(2) set_i by auto
    fix i'' assume i'': "i'' < (2::nat) ^ (n + 1)" "i' \<noteq> i''"
    show "set ((B(i := xs @ a # ys)) i') \<inter> set ((B(i := xs @ a # ys)) i'') = {}"
    proof (cases "i' = i \<or> i'' = i")
      case True
      then show ?thesis
        using d(7) [OF i' i''] a(3) [rule_format, OF i'] a(3) [rule_format, OF i''(1)] i''(2)
        by (elim disjE) (simp_all add: set_i del: set_append set_simps)
    qed (use d(7) [OF i' i''] in simp)
  qed (use shape free d(3) in auto)
qed

lemma contents_attach:
  fixes v :: u32
  assumes inv: "kvt_inv h t n B F j" and a: "\<forall>i < 2 ^ (n + 1). a \<notin> set (B i)"
    and xy: "B (key_index n k) = xs @ ys" and lt: "\<forall>b \<in> set xs. kvp_key h b < k"
  defines "h2 \<equiv> h\<lparr>kvp_value := (kvp_value h)(a := v), kvp_key := (kvp_key h)(a := k)\<rparr>"
  shows "contents (List_Attach a q h2) n (B(key_index n k := xs @ a # ys)) = (contents h n B)(k \<mapsto> v)"
proof
  fix k'
  let ?B = "B(key_index n k := xs @ a # ys)"
  have old: "kvp_key h2 b = kvp_key h b \<and> kvp_value h2 b = kvp_value h b" if "b \<in> set (B i)" "i < 2 ^ (n + 1)" for b i
    using that a by (auto simp: h2_def)
  have same: "map (\<lambda>b. (kvp_key h2 b, kvp_value h2 b)) zs = map (\<lambda>b. (kvp_key h b, kvp_value h b)) zs"
    if "set zs \<subseteq> set (B i)" "i < 2 ^ (n + 1)" for zs i
    using old that by (intro map_cong) auto
  have m: "map (\<lambda>b. (kvp_key h2 b, kvp_value h2 b)) (xs @ a # ys) =
      map (\<lambda>b. (kvp_key h b, kvp_value h b)) xs @ (k, v) # map (\<lambda>b. (kvp_key h b, kvp_value h b)) ys"
    using same [of xs "key_index n k"] same [of ys "key_index n k"] xy by (simp add: h2_def)
  have nx: "map_of (map (\<lambda>b. (kvp_key h b, kvp_value h b)) xs) k = None"
    using lt by (auto simp: map_of_eq_None_iff)
  show "contents (List_Attach a q h2) n ?B k' = ((contents h n B)(k \<mapsto> v)) k'"
  proof (cases "key_index n k' = key_index n k")
    case True
    then have "contents (List_Attach a q h2) n ?B k' =
        map_of (map (\<lambda>b. (kvp_key h b, kvp_value h b)) xs @ (k, v) # map (\<lambda>b. (kvp_key h b, kvp_value h b)) ys) k'"
      by (simp only: contents_def payload_List_ops True fun_upd_same m)
    then show ?thesis using True nx xy
      by (auto simp: contents_def map_add_def split: option.splits)
  next
    case False
    then have "k' \<noteq> k" by auto
    then show ?thesis using False
      by (simp only: contents_def payload_List_ops fun_upd_other same [OF subset_refl key_index_bound] not_False_eq_True)
  qed
qed

subsection \<open>Taking an entry\<close>

lemma kvt_inv_wider:
  assumes inv: "kvt_inv h t n B F j" and j: "j < 2 ^ n"
  shows "kvt_inv (h\<lparr>kvt_at := (kvt_at h)(t := (kvt_at h t)\<lparr>remaining := remaining (kvt_at h t) - 1,
           next_kvp := next_kvp (kvt_at h t) + sizeof_Kvp\<rparr>)\<rparr>) t n B F (Suc j)"
proof -
  note d = kvt_invD [OF inv]
  have sub: "slots_below t n j \<subseteq> slots_below t n (Suc j)" by (rule slots_below_mono) simp
  have "(2 ^ n - j :: nat) = Suc (2 ^ n - Suc j)" using j by simp
  then have "(of_nat (2 ^ n - j) :: u32) - 1 = of_nat (2 ^ n - Suc j)" by (metis add_diff_cancel_left' of_nat_Suc)
  then have "kvt_shape (h\<lparr>kvt_at := (kvt_at h)(t := (kvt_at h t)\<lparr>remaining := remaining (kvt_at h t) - 1,
           next_kvp := next_kvp (kvt_at h t) + sizeof_Kvp\<rparr>)\<rparr>) t n (Suc j)"
    using d(1) j by (simp add: kvt_shape_def kvp_slot_def)
  moreover have "bucket_ok (h\<lparr>kvt_at := f\<rparr>) t n i xs = bucket_ok h t n i xs" for f i xs
    by (simp add: bucket_ok_def)
  ultimately show ?thesis
    unfolding kvt_inv_def using d(2-7) sub by (intro conjI allI impI) (simp_all del: power_Suc, blast+)
qed

lemma kvt_allocate_none:
  assumes inv: "kvt_inv h t n B [] j" and j: "j = 2 ^ n"
  shows "kvt_allocate t h = (NIL, h)"
  using kvt_invD(1,2) [OF inv] j
  by (simp add: kvt_allocate_def Let_def kvt_shape_def dlist.get_Nil List_Eol_def)

lemma kvt_allocate_some:
  assumes inv: "kvt_inv h t n B F j" and c: "0 < (2 ^ n - j) + length F"
  obtains a h1 F' j' where "kvt_allocate t h = (a, h1)" "kvt_inv h1 t n B F' j'"
    "a \<in> slots_below t n j'" "a \<notin> set F'" "\<forall>i < 2 ^ (n + 1). a \<notin> set (B i)"
    "kvp_key h1 = kvp_key h" "kvp_value h1 = kvp_value h" "(2 ^ n - j) + length F = Suc ((2 ^ n - j') + length F')"
proof (cases "j = 2 ^ n")
  case False
  note d = kvt_invD [OF inv]
  have j: "j < 2 ^ n" using False d(1) by (simp add: kvt_shape_def)
  have "(2 ^ n - j :: nat) < 2 ^ 32"
    using d(1) power_strict_increasing [of n 32 "2 :: nat"] by (simp add: kvt_shape_def)
  moreover have "0 < 2 ^ n - j" using j by simp
  ultimately have "(of_nat (2 ^ n - j) :: u32) \<noteq> 0" by (intro of_nat_u32_nonzero)
  then have nz: "remaining (kvt_at h t) \<noteq> 0" using d(1) by (simp add: kvt_shape_def)
  have nx: "next_kvp (kvt_at h t) = kvp_slot t n j" using d(1) by (simp add: kvt_shape_def)
  have fresh: "kvp_slot t n j \<notin> slots_below t n j" by simp
  then have fb: "\<forall>i < 2 ^ (n + 1). kvp_slot t n j \<notin> set (B i)" using d(5) by blast
  show thesis
    by (rule that [OF _ kvt_inv_wider [OF inv j], of "kvp_slot t n j"])
      (use j nz nx d(3) fresh fb in \<open>auto simp: kvt_allocate_def Let_def slots_below_Suc\<close>)
next
  case True
  note d = kvt_invD [OF inv]
  obtain a F' where F: "F = a # F'" using c True by (cases F) auto
  obtain b h1 where r: "List_Remove (freelist t) h = (b, h1)" by (cases "List_Remove (freelist t) h")
  have b: "b = a" "dll h1 (freelist t) F'" using dlist.get_Cons d(2) r F by blast+
  have h1: "h1 = snd (List_Detach a h)"
    using r dll_forward_head [OF d(2)] F by (simp add: List_Remove_def)
  have rem: "remaining (kvt_at h t) = 0" using d(1) True by (simp add: kvt_shape_def)
  have "a \<noteq> freelist t" using dll_distinct [OF d(2)] F by auto
  then have al: "kvt_allocate t h = (a, h1)"
    using r b rem by (simp add: kvt_allocate_def Let_def List_Eol_def)
  have bk: "bucket_ok h1 t n i (B i)" if i: "i < 2 ^ (n + 1)" for i
  proof -
    have "dll h1 (bucket_head t i) (B i)"
      unfolding h1 using inv_heads_disjoint(2) [OF inv i] F d(2) bucket_ok_dll [OF d(4) [OF i]]
      by (intro dll_frame_Detach [of h _ _ "freelist t" "[]" a F']) auto
    then show ?thesis
      using bucket_ok_cong [of h1 t i "B i" h n] d(4) [OF i] bucket_ok_dll [OF d(4) [OF i]] by (simp add: h1)
  qed
  have "distinct F" using dll_distinct [OF d(2)] by simp
  then have "kvt_inv h1 t n B F' j"
    using inv b(2) bk F unfolding kvt_inv_def by (auto simp: h1 kvt_shape_def)
  then show thesis
    using al d(3,6) \<open>distinct F\<close> F by (intro that [of a h1 F' j]) (auto simp: h1)
qed

subsection \<open>Inserting\<close>

lemma contents_dom:
  "k \<in> dom (contents h n B) \<longleftrightarrow> k \<in> kvp_key h ` set (B (key_index n k))"
  by (auto simp: contents_def domIff map_of_find find_None_iff)

lemma KvtInsert_eval:
  assumes inv: "kvt_inv h t n B F j"
  shows "KvtInsert k v t h =
     (if k \<in> dom (contents h n B) then Some (0, h)
      else let (kvp, h) = kvt_allocate t h in
        if kvp = NIL then Some (0, h) else if v = 0 then Some (0, h)
        else Some (v, List_Attach kvp
           (last (bucket_head t (key_index n k) # takeWhile (\<lambda>a. kvp_key h a < k) (B (key_index n k))))
           (h\<lparr>kvp_value := (kvp_value h)(kvp := v), kvp_key := (kvp_key h)(kvp := k)\<rparr>)))"
proof -
  note d = kvt_invD [OF inv]
  let ?xs = "B (key_index n k)" and ?p = "bucket_head t (key_index n k)"
  have ok: "bucket_ok h t n (key_index n k) ?xs" using d(4) by simp
  have after: "kvt_after k (LOOKUP_HEAD k t h) h =
      Some (if k \<in> dom (contents h n B) then NIL else last (?p # takeWhile (\<lambda>a. kvp_key h a < k) ?xs))"
    using kvt_after_dll [of h ?p ?xs k] ok LOOKUP_HEAD_shape [OF d(1), of k]
    by (simp add: bucket_ok_def contents_dom)
  have "last (?p # takeWhile (\<lambda>a. kvp_key h a < k) ?xs) \<in> set (?p # ?xs)"
    by (metis last_in_set list.distinct(1) set_takeWhileD set_ConsD list.set_intros)
  moreover have "0 \<notin> set (?p # ?xs)"
    using d(5) [of "key_index n k"] zero_not_slot [of t n j] by (auto simp: bucket_head_def sizeof_Kvt_def)
  ultimately have nz: "last (?p # takeWhile (\<lambda>a. kvp_key h a < k) ?xs) \<noteq> 0" by metis
  show ?thesis
  proof (cases "k \<in> dom (contents h n B)")
    case True
    then show ?thesis using after by (simp add: KvtInsert_def Let_def)
  next
    case False
    obtain a h1 where al: "kvt_allocate t h = (a, h1)" by (cases "kvt_allocate t h")
    have keys: "kvp_key h1 = kvp_key h"
      using al by (auto simp: kvt_allocate_def Let_def List_Remove_def case_prod_beta split: if_splits)
    show ?thesis using after False nz al keys by (simp add: KvtInsert_def Let_def)
  qed
qed

lemma insert_split:
  assumes "sorted_wrt (\<lambda>a b. f a < (f b :: u64)) xs" "k \<notin> f ` set xs"
  shows "\<forall>b \<in> set (takeWhile (\<lambda>a. f a < k) xs). f b < k" "\<forall>b \<in> set (dropWhile (\<lambda>a. f a < k) xs). k < f b"
proof -
  show "\<forall>b \<in> set (takeWhile (\<lambda>a. f a < k) xs). f b < k" by (auto dest: set_takeWhileD)
  show "\<forall>b \<in> set (dropWhile (\<lambda>a. f a < k) xs). k < f b"
    using assms by (induction xs) (auto simp: not_less le_less dest: less_trans)
qed

lemma KvtInsert_rep:
  assumes rep: "kvt_rep h t n m c"
  obtains h' where
    "KvtInsert k v t h = Some (if k \<in> dom m \<or> c = 0 then 0 else v, h')"
    "kvt_rep h' t n (if k \<in> dom m \<or> c = 0 \<or> v = 0 then m else m(k \<mapsto> v))
       (if k \<in> dom m \<or> c = 0 then c else c - 1)"
proof -
  obtain B F j where inv: "kvt_inv h t n B F j" and m: "m = contents h n B" and c: "c = 2 ^ n - j + length F"
    using rep by (auto simp: kvt_rep_def)
  note d = kvt_invD [OF inv]
  note eval = KvtInsert_eval [OF inv, of k v, folded m]
  show thesis
  proof (cases "k \<in> dom m \<or> c = 0")
    case True
    have "KvtInsert k v t h = Some (0, h)"
    proof (cases "k \<in> dom m")
      case False
      then have "F = []" "j = 2 ^ n" using True c d(1) by (auto simp: kvt_shape_def)
      then show ?thesis using kvt_allocate_none [of h t n B j] inv eval by simp
    qed (simp add: eval)
    then show ?thesis using True rep by (intro that [of h]) auto
  next
    case False
    then have c0: "0 < 2 ^ n - j + length F" and k: "k \<notin> dom m" using c by auto
    obtain a h1 F' j' where al: "kvt_allocate t h = (a, h1)" "kvt_inv h1 t n B F' j'"
      "a \<in> slots_below t n j'" "a \<notin> set F'" "\<forall>i < 2 ^ (n + 1). a \<notin> set (B i)"
      "kvp_key h1 = kvp_key h" "kvp_value h1 = kvp_value h" "2 ^ n - j + length F = Suc (2 ^ n - j' + length F')"
      using kvt_allocate_some [OF inv c0] .
    have m1: "m = contents h1 n B" unfolding m by (intro ext) (simp add: contents_def al(6,7))
    have anz: "a \<noteq> NIL" using al(3) zero_not_slot by metis
    have c1: "c - 1 = 2 ^ n - j' + length F'" using c al(8) by simp
    show ?thesis
    proof (cases "v = 0")
      case True
      have "KvtInsert k v t h = Some (0, h1)" using eval k al(1) True by simp
      moreover have "kvt_rep h1 t n m (c - 1)" using al(2) m1 c1 unfolding kvt_rep_def by blast
      ultimately show ?thesis using False True by (intro that [of h1]) auto
    next
      case v: False
      let ?i = "key_index n k"
      let ?xs = "takeWhile (\<lambda>a. kvp_key h1 a < k) (B ?i)" and ?ys = "dropWhile (\<lambda>a. kvp_key h1 a < k) (B ?i)"
      let ?h2 = "h1\<lparr>kvp_value := (kvp_value h1)(a := v), kvp_key := (kvp_key h1)(a := k)\<rparr>"
      let ?h3 = "List_Attach a (last (bucket_head t ?i # ?xs)) ?h2"
      have ok: "sorted_wrt (\<lambda>a b. kvp_key h1 a < kvp_key h1 b) (B ?i)" "k \<notin> kvp_key h1 ` set (B ?i)"
        using kvt_invD(4) [OF al(2) key_index_bound, of k] k m1 contents_dom [of k h1 n B] by (auto simp: bucket_ok_def)
      have xy: "B ?i = ?xs @ ?ys" by simp
      have inv3: "kvt_inv ?h3 t n (B(?i := ?xs @ a # ?ys)) F' j'"
        using insert_split [OF ok] by (intro kvt_inv_attach [OF al(2-5) refl xy])
      have "contents ?h3 n (B(?i := ?xs @ a # ?ys)) = m(k \<mapsto> v)"
        unfolding m1 using insert_split(1) [OF ok] by (rule contents_attach [OF al(2,5) xy])
      then have "kvt_rep ?h3 t n (m(k \<mapsto> v)) (c - 1)" using inv3 c1 unfolding kvt_rep_def by metis
      moreover have "KvtInsert k v t h = Some (v, ?h3)" using eval k al(1,6) anz v by simp
      ultimately show ?thesis using False v by (intro that [of ?h3]) auto
    qed
  qed
qed

subsection \<open>Removing\<close>

lemma dll_frame_Insert:
  assumes "dll h q zs" "dll h p xs" "set (q # zs) \<inter> set (p # xs) = {}" "a \<notin> set (q # zs)"
  shows "dll (List_Insert a p h) q zs"
  using dll_frame_Attach [of h q zs p xs "[]" a] dll_reverse_head [OF assms(2)] assms
  by (simp add: List_Insert_def)

lemma kvt_inv_release:
  assumes inv: "kvt_inv h t n B F j" and i: "i < 2 ^ (n + 1)" and B: "B i = xs @ a # ys"
  shows "kvt_inv (List_Insert a (freelist t) (snd (List_Detach a h))) t n (B(i := xs @ ys)) (F @ [a]) j"
    (is "kvt_inv ?h3 t n ?B (F @ [a]) j")
proof -
  note d = kvt_invD [OF inv]
  let ?h1 = "snd (List_Detach a h)"
  have bi: "dll h (bucket_head t i) (xs @ a # ys)" using bucket_ok_dll [OF d(4) [OF i]] B by simp
  have dist: "distinct (bucket_head t i # xs @ a # ys)" using dll_distinct [OF bi] .
  have a: "a \<in> set (B i)" "a \<in> slots_below t n j" using d(5) [OF i] B by auto
  have F1: "dll ?h1 (freelist t) F"
    using inv_heads_disjoint(2) [OF inv i] B by (intro dll_frame_Detach [OF d(2) bi]) auto
  have aF: "a \<notin> set (freelist t # F)" using inv_heads_disjoint(2) [OF inv i] a(1) by auto
  have free: "dll ?h3 (freelist t) (F @ [a])" using F1 aF by (rule dlist.holds_put)
  have keys: "kvp_key ?h3 = kvp_key h" "kvt_at ?h3 = kvt_at h" by simp_all
  have bok: "bucket_ok ?h3 t n i' (?B i')" if i': "i' < 2 ^ (n + 1)" for i'
  proof (cases "i' = i")
    case True
    have "dll ?h1 (bucket_head t i) (xs @ ys)" using bi by (rule dll_List_Detach)
    then have "dll ?h3 (bucket_head t i) (xs @ ys)"
      using F1 inv_heads_disjoint(2) [OF inv i] B dist by (intro dll_frame_Insert) auto
    then show ?thesis using d(4) [OF i] B True by (auto simp: bucket_ok_def sorted_wrt_append)
  next
    case False
    have dis: "set (bucket_head t i' # B i') \<inter> set (bucket_head t i # xs @ a # ys) = {}"
      using inv_heads_disjoint(1) [OF inv i' i False] B by simp
    have "dll ?h1 (bucket_head t i') (B i')"
      using bucket_ok_dll [OF d(4) [OF i']] bi dis by (rule dll_frame_Detach)
    then have "dll ?h3 (bucket_head t i') (B i')"
      using F1 inv_heads_disjoint(2) [OF inv i'] dis by (intro dll_frame_Insert) auto
    then show ?thesis using d(4) [OF i'] False by (auto simp: bucket_ok_def)
  qed
  have set_i: "set (xs @ ys) = set (B i) - {a}" using dist B by auto
  show ?thesis
    unfolding kvt_inv_def
  proof (intro conjI allI impI)
    show "kvt_shape ?h3 t n j" using d(1) by (simp add: kvt_shape_def)
    show "set (F @ [a]) \<subseteq> slots_below t n j" using d(3) a(2) by auto
    fix i' assume i': "i' < (2::nat) ^ (n + 1)"
    show "set (?B i') \<subseteq> slots_below t n j" using d(5) [OF i'] d(5) [OF i] set_i by auto
    show "set (?B i') \<inter> set (F @ [a]) = {}"
      using d(6) [OF i'] d(6) [OF i] set_i d(7) [OF i' i] a(1) by auto
    fix i'' assume i'': "i'' < (2::nat) ^ (n + 1)" "i' \<noteq> i''"
    show "set (?B i') \<inter> set (?B i'') = {}" using d(7) [OF i' i''] set_i by auto
  qed (use free bok in auto)
qed

lemma contents_release:
  assumes ok: "bucket_ok h t n (key_index n (kvp_key h a)) (B (key_index n (kvp_key h a)))"
    and B: "B (key_index n (kvp_key h a)) = xs @ a # ys"
  shows "contents h n (B(key_index n (kvp_key h a) := xs @ ys)) = (contents h n B)(kvp_key h a := None)"
proof
  fix k
  let ?i = "key_index n (kvp_key h a)"
  have "sorted_wrt (<) (map (kvp_key h) (xs @ a # ys))"
    using ok unfolding B bucket_ok_def sorted_wrt_map by blast
  then have "distinct (map (kvp_key h) (xs @ a # ys))" by (simp only: strict_sorted_iff)
  then have "kvp_key h a \<notin> kvp_key h ` set (xs @ ys)" by auto
  then have none: "map_of (map (\<lambda>b. (kvp_key h b, kvp_value h b)) (xs @ ys)) (kvp_key h a) = None"
    by (auto simp: map_of_eq_None_iff)
  show "contents h n (B(?i := xs @ ys)) k = ((contents h n B)(kvp_key h a := None)) k"
    using none B by (auto simp: contents_def map_add_def split: option.splits)
qed

lemma KvtRemove_rep:
  assumes rep: "kvt_rep h t n m c"
  obtains h' where "KvtRemove k t h = Some (case m k of Some v \<Rightarrow> v | None \<Rightarrow> 0, h')"
    "kvt_rep h' t n (m(k := None)) (if k \<in> dom m then c + 1 else c)"
proof -
  obtain B F j where inv: "kvt_inv h t n B F j" and m: "m = contents h n B" and c: "c = 2 ^ n - j + length F"
    using rep by (auto simp: kvt_rep_def)
  show thesis
  proof (cases "find (\<lambda>a. kvp_key h a = k) (B (key_index n k))")
    case None
    then have "m k = None" using find_bucket_None [of h n B k] m by simp
    moreover from this have "m(k := None) = m" by auto
    ultimately show ?thesis
      using kvt_match_inv [OF inv, of k] None rep by (intro that [of h]) (simp_all add: KvtRemove_def domIff)
  next
    case (Some a)
    note a = find_bucket [OF inv Some]
    obtain xs ys where B: "B (key_index n k) = xs @ a # ys" using split_list [OF a(2)] by blast
    let ?h1 = "snd (List_Detach a h)" and ?h3 = "List_Insert a (freelist t) (snd (List_Detach a h))"
    let ?B = "B(key_index n k := xs @ ys)"
    have r: "KvtRemove k t h = Some (kvp_value h a, ?h3)"
      using kvt_match_inv [OF inv, of k] Some a(1) by (simp add: KvtRemove_def Let_def case_prod_beta)
    have "kvt_inv ?h3 t n ?B (F @ [a]) j" using kvt_inv_release [OF inv key_index_bound B] .
    moreover have "contents ?h3 n ?B = contents h n ?B" by (intro ext) (simp add: contents_def)
    moreover have "contents h n ?B = m(k := None)"
      using contents_release [of h t n a B xs ys] kvt_invD(4) [OF inv, of "key_index n k"] a(3) B m by simp
    ultimately have "kvt_rep ?h3 t n (m(k := None)) (c + 1)" using c unfolding kvt_rep_def by fastforce
    then show ?thesis using r a(4) m by (intro that [of ?h3]) (auto simp: domIff)
  qed
qed

subsection \<open>Construction\<close>

lemma empty_lut_payload [simp]:
  "kvp_key (empty_lut nxt r h) = kvp_key h" "kvp_value (empty_lut nxt r h) = kvp_value h"
  "kvt_at (empty_lut nxt r h) = kvt_at h"
  by (induction nxt r h rule: empty_lut.induct; subst empty_lut.simps; simp add: Let_def)+

lemma empty_lut_links:
  assumes "unat r = Suc l"
  shows "forward (empty_lut nxt r h) a = (if \<exists>i \<le> l. a = nxt + i * 8 then a else forward h a) \<and>
         reverse (empty_lut nxt r h) a = (if \<exists>i \<le> l. a = nxt + i * 8 then a else reverse h a)"
  using assms
proof (induction l arbitrary: nxt r h)
  case 0
  then have "r - 1 = 0" by (metis One_nat_def diff_self unat_1 word_unat_eq_iff)
  then show ?case by (simp add: empty_lut.simps [of nxt] Let_def)
next
  case (Suc l)
  have u: "unat (r - 1) = Suc l" using Suc.prems by (metis diff_Suc_1 nat.distinct(1) unat_0 unat_minus_one)
  then have nz: "r - 1 \<noteq> 0" by (metis nat.distinct(1) unat_0)
  have ex: "(\<exists>i \<le> Suc l. a = nxt + i * 8) \<longleftrightarrow> a = nxt \<or> (\<exists>i \<le> l. a = nxt + 8 + i * 8)"
  proof
    assume "\<exists>i \<le> Suc l. a = nxt + i * 8"
    then obtain i where i: "i \<le> Suc l" "a = nxt + i * 8" by blast
    then show "a = nxt \<or> (\<exists>i \<le> l. a = nxt + 8 + i * 8)"
      by (cases i) (auto intro!: exI [of _ "i - 1"])
  next
    assume "a = nxt \<or> (\<exists>i \<le> l. a = nxt + 8 + i * 8)"
    then show "\<exists>i \<le> Suc l. a = nxt + i * 8"
    proof
      assume "\<exists>i \<le> l. a = nxt + 8 + i * 8"
      then obtain i where "i \<le> l" "a = nxt + 8 + i * 8" by blast
      then show ?thesis by (intro exI [of _ "Suc i"]) simp
    qed auto
  qed
  show ?case
    unfolding ex using Suc.IH [OF u, of "nxt + 8" "List_Empty nxt h"] nz
    by (subst (1 2) empty_lut.simps) (auto simp: Let_def sizeof_ListHead_def)
qed

lemma KvtConstruct_rep:
  assumes t: "t \<noteq> NIL" and n: "unat max_entries = n" "n \<le> 30"
  obtains h' where "KvtConstruct max_entries t h = (t, h')" "kvt_rep h' t n Map.empty (2 ^ n)"
proof -
  let ?r = "push_bit 1 (push_bit n 1) :: u32"
  have r: "?r = 2 ^ (n + 1)" by (simp add: push_bit_eq_mult)
  have ur: "unat ?r = Suc (2 ^ (n + 1) - 1)"
    unfolding r using n(2) by (subst unat_pow2) simp_all
  let ?h1 = "List_Empty (freelist t) h"
  let ?f = "\<lparr>stride = 2 ^ (n + 1) - 1, lut = bucket_head t 0, remaining = 2 ^ n, next_kvp = kvp_slot t n 0\<rparr>"
  let ?h2 = "?h1\<lparr>kvt_at := (kvt_at ?h1)(t := ?f)\<rparr>"
  let ?h3 = "empty_lut (t + sizeof_Kvt) ?r ?h2"
  have f: "(kvt_at ?h1 t)\<lparr>remaining := push_bit n 1, lut := t + sizeof_Kvt,
      next_kvp := t + sizeof_Kvt + unat ?r * sizeof_ListHead, stride := ?r - 1\<rparr> = ?f"
    using ur r by (simp add: bucket_head_def kvp_slot_def kvp_base_def push_bit_eq_mult)
  have res: "KvtConstruct max_entries t h = (t, ?h3)"
    using t f n(1) by (simp add: KvtConstruct_def Let_def)
  have head: "bucket_head t i = t + sizeof_Kvt + i * 8" for i
    by (simp add: bucket_head_def sizeof_ListHead_def)
  have lt: "i \<le> 2 ^ (n + 1) - 1 \<longleftrightarrow> i < 2 ^ (n + 1)" for i :: nat by (auto simp: le_eq_less_or_eq)
  have links: "forward ?h3 a = (if \<exists>i < 2 ^ (n + 1). a = bucket_head t i then a else forward ?h2 a) \<and>
      reverse ?h3 a = (if \<exists>i < 2 ^ (n + 1). a = bucket_head t i then a else reverse ?h2 a)" for a
    using empty_lut_links [OF ur, of "t + sizeof_Kvt" ?h2 a] unfolding head lt .
  have buckets: "dll ?h3 (bucket_head t i) []" if "i < 2 ^ (n + 1)" for i
    using links [of "bucket_head t i"] that unfolding dll_Nil by (metis (mono_tags, lifting))
  have free: "dll ?h3 (freelist t) []"
    using links [of "freelist t"] unfolding dll_Nil by simp
  have "kvt_shape ?h3 t n 0" using t n(2) by (simp add: kvt_shape_def)
  then have "kvt_inv ?h3 t n (\<lambda>i. []) [] 0"
    using buckets free unfolding kvt_inv_def bucket_ok_def by simp
  moreover have "contents ?h3 n (\<lambda>i. []) = Map.empty" by (intro ext) (simp add: contents_def)
  ultimately have "kvt_rep ?h3 t n Map.empty (2 ^ n)" unfolding kvt_rep_def by fastforce
  with res show thesis by (rule that)
qed

subsection \<open>The bytes a table owns\<close>

definition kvt_span :: "addr \<Rightarrow> nat \<Rightarrow> addr set" where
  "kvt_span t n = {t ..< t + sizeof_Kvt + 2 ^ (n + 1) * sizeof_ListHead + 2 ^ n * sizeof_Kvp}"

definition agree_on :: "addr set \<Rightarrow> kv_heap \<Rightarrow> kv_heap \<Rightarrow> bool" where
  "agree_on A h h' \<longleftrightarrow> (\<forall>a \<in> A. forward h' a = forward h a \<and> reverse h' a = reverse h a \<and>
     kvp_key h' a = kvp_key h a \<and> kvp_value h' a = kvp_value h a \<and> kvt_at h' a = kvt_at h a)"

lemma span_members:
  "t \<in> kvt_span t n" "freelist t \<in> kvt_span t n"
  "i < 2 ^ (n + 1) \<Longrightarrow> bucket_head t i \<in> kvt_span t n"
  "j \<le> 2 ^ n \<Longrightarrow> slots_below t n j \<subseteq> kvt_span t n"
proof -
  show "t \<in> kvt_span t n" "freelist t \<in> kvt_span t n"
    by (simp_all add: kvt_span_def freelist_def sizeof_Kvt_def)
  show "bucket_head t i \<in> kvt_span t n" if "i < 2 ^ (n + 1)"
    using that by (auto simp: kvt_span_def bucket_head_def sizeof_ListHead_def)
  show "slots_below t n j \<subseteq> kvt_span t n" if "j \<le> 2 ^ n"
    using that by (auto simp: kvt_span_def slots_below_def kvp_slot_def kvp_base_def bucket_head_def sizeof_Kvp_def)
qed

lemma inv_in_span:
  assumes "kvt_inv h t n B F j"
  shows "set (freelist t # F) \<subseteq> kvt_span t n"
    "i < 2 ^ (n + 1) \<Longrightarrow> set (bucket_head t i # B i) \<subseteq> kvt_span t n"
proof -
  note d = kvt_invD [OF assms]
  have "j \<le> 2 ^ n" using d(1) by (simp add: kvt_shape_def)
  then have s: "slots_below t n j \<subseteq> kvt_span t n" by (rule span_members)
  show "set (freelist t # F) \<subseteq> kvt_span t n" using d(3) s span_members(2) by auto
  show "set (bucket_head t i # B i) \<subseteq> kvt_span t n" if "i < 2 ^ (n + 1)"
    using d(5) [OF that] s span_members(3) [OF that] by auto
qed

text \<open>
  What the operations change, field by field: links only in the list heads and the entries,
  keys and values only in the entries, and the scalars of this one table.
\<close>

definition kvt_links :: "addr \<Rightarrow> nat \<Rightarrow> addr set" where
  "kvt_links t n = insert (freelist t) (bucket_head t ` {..<2 ^ (n + 1)} \<union> slots_below t n (2 ^ n))"

definition cells_agree :: "addr \<Rightarrow> nat \<Rightarrow> kv_heap \<Rightarrow> kv_heap \<Rightarrow> bool" where
  "cells_agree t n h h' \<longleftrightarrow> (\<forall>a.
     (a \<notin> kvt_links t n \<longrightarrow> forward h' a = forward h a \<and> reverse h' a = reverse h a) \<and>
     (a \<notin> slots_below t n (2 ^ n) \<longrightarrow> kvp_key h' a = kvp_key h a \<and> kvp_value h' a = kvp_value h a) \<and>
     (a \<noteq> t \<longrightarrow> kvt_at h' a = kvt_at h a))"

lemma kvt_links_span: "kvt_links t n \<subseteq> kvt_span t n"
  unfolding kvt_links_def
  using span_members(2) [of t n] span_members(3) [of _ n t] span_members(4) [of "2 ^ n" n t, OF order_refl]
  by blast

lemma cells_agree_on: "cells_agree t n h h' \<Longrightarrow> agree_on (- kvt_span t n) h h'"
  using kvt_links_span [of t n] span_members(1) [of t n] span_members(4) [of "2 ^ n" n t, OF order_refl]
  unfolding cells_agree_def agree_on_def by blast

lemma inv_in_links:
  assumes "kvt_inv h t n B F j"
  shows "set (freelist t # F) \<subseteq> kvt_links t n"
    "i < 2 ^ (n + 1) \<Longrightarrow> set (bucket_head t i # B i) \<subseteq> kvt_links t n"
    "i < 2 ^ (n + 1) \<Longrightarrow> set (B i) \<subseteq> slots_below t n (2 ^ n)"
proof -
  note d = kvt_invD [OF assms]
  have "j \<le> 2 ^ n" using d(1) by (simp add: kvt_shape_def)
  then have s: "slots_below t n j \<subseteq> slots_below t n (2 ^ n)" by (rule slots_below_mono)
  show "set (freelist t # F) \<subseteq> kvt_links t n" using d(3) s by (auto simp: kvt_links_def)
  show b: "set (B i) \<subseteq> slots_below t n (2 ^ n)" if "i < 2 ^ (n + 1)" for i using d(5) [OF that] s by blast
  show "set (bucket_head t i # B i) \<subseteq> kvt_links t n" if "i < 2 ^ (n + 1)"
    using b [OF that] that by (auto simp: kvt_links_def)
qed

text \<open>A table only depends on its own bytes.\<close>

lemma kvt_rep_cong:
  assumes rep: "kvt_rep h t n m c" and ag: "agree_on (kvt_span t n) h h'"
  shows "kvt_rep h' t n m c"
proof -
  obtain B F j where inv: "kvt_inv h t n B F j" and m: "m = contents h n B" and c: "c = 2 ^ n - j + length F"
    using rep by (auto simp: kvt_rep_def)
  note d = kvt_invD [OF inv]
  note sp = inv_in_span [OF inv]
  have shape: "kvt_shape h' t n j"
    using d(1) ag span_members(1) [of t n] by (simp add: kvt_shape_def agree_on_def)
  have free: "dll h' (freelist t) F"
    using d(2) sp(1) ag unfolding agree_on_def by (subst dll_cong [of _ _ _ h]) auto
  have keys: "kvp_key h' a = kvp_key h a \<and> kvp_value h' a = kvp_value h a"
    if "a \<in> set (B i)" "i < 2 ^ (n + 1)" for a i
    using that sp(2) [of i] ag unfolding agree_on_def by auto
  have "bucket_ok h' t n i (B i)" if i: "i < 2 ^ (n + 1)" for i
  proof -
    have "dll h' (bucket_head t i) (B i)"
      using bucket_ok_dll [OF d(4) [OF i]] sp(2) [OF i] ag unfolding agree_on_def
      by (subst dll_cong [of _ _ _ h]) auto
    then show ?thesis
      using bucket_ok_cong [of h' t i "B i" h n] keys [OF _ i] d(4) [OF i] bucket_ok_dll [OF d(4) [OF i]] by blast
  qed
  then have "kvt_inv h' t n B F j" using inv shape free unfolding kvt_inv_def by blast
  moreover have "contents h' n B = m"
    unfolding m contents_def using keys key_index_bound
    by (intro ext arg_cong2 [of _ _ _ _ map_of] map_cong) auto
  ultimately show ?thesis using c unfolding kvt_rep_def by metis
qed

lemma dll_links_inside:
  assumes d: "dll h p xs" and a: "a \<in> set (p # xs)"
  shows "forward h a \<in> set (p # xs)" "reverse h a \<in> set (p # xs)"
proof -
  have "forward h a \<in> set (p # xs) \<and> reverse h a \<in> set (p # xs)"
  proof (cases "a = p")
    case True
    then show ?thesis
      using dll_forward_head [OF d] dll_reverse_head [OF d] by (cases xs) (auto simp: last_in_set)
  next
    case False
    then obtain ys zs where xs: "xs = ys @ a # zs" using a by (auto dest: split_list)
    have "forward h a = hd (zs @ [p])" "reverse h a = last (p # ys)"
      using dll_split d unfolding xs by blast+
    moreover have "hd (zs @ [p]) \<in> set (p # zs)" by (cases zs) auto
    moreover have "last (p # ys) \<in> set (p # ys)" by (metis last_in_set list.distinct(1))
    ultimately show ?thesis using xs by auto
  qed
  then show "forward h a \<in> set (p # xs)" "reverse h a \<in> set (p # xs)" by auto
qed

lemma cells_refl [simp]: "cells_agree t n h h"
  by (simp add: cells_agree_def)

lemma cells_trans: "cells_agree t n h h' \<Longrightarrow> cells_agree t n h' h'' \<Longrightarrow> cells_agree t n h h''"
  by (simp add: cells_agree_def)

lemma cells_Attach:
  "a \<in> kvt_links t n \<Longrightarrow> q \<in> kvt_links t n \<Longrightarrow> forward h q \<in> kvt_links t n \<Longrightarrow>
   cells_agree t n h (List_Attach a q h)"
  by (auto simp: cells_agree_def)

lemma cells_Detach:
  "forward h a \<in> kvt_links t n \<Longrightarrow> reverse h a \<in> kvt_links t n \<Longrightarrow>
   cells_agree t n h (snd (List_Detach a h))"
  by (auto simp: cells_agree_def)

lemma kvt_allocate_cells:
  assumes inv: "kvt_inv h t n B F j"
  shows "cells_agree t n h (snd (kvt_allocate t h))"
proof -
  note d = kvt_invD [OF inv]
  let ?a = "forward h (freelist t)"
  have a: "?a \<in> set (freelist t # F)" by (rule dll_links_inside(1) [OF d(2)]) simp
  then have "forward h ?a \<in> kvt_links t n" "reverse h ?a \<in> kvt_links t n"
    using dll_links_inside [OF d(2) a] inv_in_links(1) [OF inv] by blast+
  then have "cells_agree t n h (snd (List_Remove (freelist t) h))"
    unfolding List_Remove_def by (intro cells_Detach) auto
  moreover have "cells_agree t n h (h\<lparr>kvt_at := (kvt_at h)(t := x)\<rparr>)" for x
    by (simp add: cells_agree_def)
  ultimately show ?thesis by (simp add: kvt_allocate_def Let_def case_prod_beta)
qed

lemma KvtInsert_cells:
  assumes inv: "kvt_inv h t n B F j" and r: "KvtInsert k v t h = Some (x, h')"
  shows "cells_agree t n h h'"
proof (cases "k \<in> dom (contents h n B) \<or> 2 ^ n - j + length F = 0 \<or> v = 0")
  case True
  have full: "kvt_allocate t h = (NIL, h)" if "2 ^ n - j + length F = 0"
  proof -
    have "F = []" "j = 2 ^ n" using that kvt_invD(1) [OF inv] by (auto simp: kvt_shape_def)
    then show ?thesis using kvt_allocate_none inv by blast
  qed
  obtain a h1 where al: "kvt_allocate t h = (a, h1)" by (cases "kvt_allocate t h")
  have "h' = h \<or> h' = h1"
    using True r full al unfolding KvtInsert_eval [OF inv] by (elim disjE) (auto split: if_splits)
  then have "h' = h \<or> h' = snd (kvt_allocate t h)" using al by simp
  then show ?thesis using kvt_allocate_cells [OF inv] by auto
next
  case False
  then have c: "0 < 2 ^ n - j + length F" and k: "k \<notin> dom (contents h n B)" and v: "v \<noteq> 0" by auto
  obtain a h1 F' j' where al: "kvt_allocate t h = (a, h1)" "kvt_inv h1 t n B F' j'"
      "a \<in> slots_below t n j'" "a \<notin> set F'" "\<forall>i < 2 ^ (n + 1). a \<notin> set (B i)"
      "kvp_key h1 = kvp_key h" "kvp_value h1 = kvp_value h" "2 ^ n - j + length F = Suc (2 ^ n - j' + length F')"
    using kvt_allocate_some [OF inv c] .
  let ?i = "key_index n k"
  let ?h2 = "h1\<lparr>kvp_value := (kvp_value h1)(a := v), kvp_key := (kvp_key h1)(a := k)\<rparr>"
  let ?q = "last (bucket_head t ?i # takeWhile (\<lambda>a. kvp_key h a < k) (B ?i))"
  have j': "j' \<le> 2 ^ n" using kvt_invD(1) [OF al(2)] by (simp add: kvt_shape_def)
  have a0: "a \<in> slots_below t n (2 ^ n)" using slots_below_mono [OF j', of t n] al(3) by blast
  then have a: "a \<in> kvt_links t n" "a \<noteq> NIL" using zero_not_slot [of t n "2 ^ n"] unfolding kvt_links_def by (blast, metis)
  have q: "?q \<in> set (bucket_head t ?i # B ?i)"
    by (metis last_in_set list.distinct(1) set_takeWhileD set_ConsD list.set_intros)
  have "dll h1 (bucket_head t ?i) (B ?i)" using bucket_ok_dll [OF kvt_invD(4) [OF al(2)]] by simp
  from dll_links_inside(1) [OF this q] have fq: "forward h1 ?q \<in> kvt_links t n"
    using inv_in_links(2) [OF al(2), of ?i] by auto
  have q': "?q \<in> kvt_links t n" using q inv_in_links(2) [OF al(2), of ?i] by auto
  have h': "h' = List_Attach a ?q ?h2"
    using r k v al(1,6) a(2) unfolding KvtInsert_eval [OF inv] by (auto simp: Let_def simp del: last.simps)
  have "cells_agree t n h1 ?h2" using a0 by (auto simp: cells_agree_def)
  moreover have "cells_agree t n ?h2 h'"
    unfolding h' using a(1) q' fq by (intro cells_Attach) auto
  moreover have "cells_agree t n h h1" using kvt_allocate_cells [OF inv] al(1) by simp
  ultimately show ?thesis by (blast intro: cells_trans)
qed

lemma KvtRename_cells:
  assumes inv: "kvt_inv h t n B F j" and r: "KvtRename k v t h = Some (x, h')"
  shows "cells_agree t n h h'"
proof (cases "find (\<lambda>a. kvp_key h a = k) (B (key_index n k))")
  case None
  then show ?thesis using r kvt_match_inv [OF inv, of k] by (simp add: KvtRename_def)
next
  case (Some a)
  have "a \<in> slots_below t n (2 ^ n)"
    using find_bucket(2) [OF inv Some] inv_in_links(3) [OF inv key_index_bound, of k] by auto
  then show ?thesis
    using r kvt_match_inv [OF inv, of k] Some find_bucket(1) [OF inv Some]
    by (auto simp: KvtRename_def Let_def cells_agree_def)
qed

lemma KvtRemove_cells:
  assumes inv: "kvt_inv h t n B F j" and r: "KvtRemove k t h = Some (x, h')"
  shows "cells_agree t n h h'"
proof (cases "find (\<lambda>a. kvp_key h a = k) (B (key_index n k))")
  case None
  then show ?thesis using r kvt_match_inv [OF inv, of k] by (simp add: KvtRemove_def)
next
  case (Some a)
  let ?i = "key_index n k" and ?h1 = "snd (List_Detach a h)"
  note f = find_bucket [OF inv Some]
  have bi: "dll h (bucket_head t ?i) (B ?i)" using bucket_ok_dll [OF kvt_invD(4) [OF inv]] by simp
  have a: "a \<in> set (bucket_head t ?i # B ?i)" using f(2) by simp
  have sp: "set (bucket_head t ?i # B ?i) \<subseteq> kvt_links t n" using inv_in_links(2) [OF inv] by simp
  have 1: "cells_agree t n h ?h1"
    using dll_links_inside [OF bi a] sp by (intro cells_Detach) auto
  have F1: "dll ?h1 (freelist t) F"
    using kvt_inv_release split_list [OF f(2)] bi kvt_invD(2) [OF inv] inv_heads_disjoint(2) [OF inv key_index_bound, of k]
    by (metis dll_frame_Detach inf_commute)
  have rv: "reverse ?h1 (freelist t) \<in> set (freelist t # F)"
    by (rule dll_links_inside(2) [OF F1]) simp
  have fr: "forward ?h1 (reverse ?h1 (freelist t)) \<in> set (freelist t # F)"
    by (rule dll_links_inside(1) [OF F1 rv])
  have "cells_agree t n ?h1 (List_Insert a (freelist t) ?h1)"
    unfolding List_Insert_def using rv fr inv_in_links(1) [OF inv] a sp by (intro cells_Attach) auto
  moreover have "h' = List_Insert a (freelist t) ?h1"
    using r kvt_match_inv [OF inv, of k] Some f(1) by (simp add: KvtRemove_def Let_def case_prod_beta)
  ultimately show ?thesis using 1 cells_trans by blast
qed

lemma KvtConstruct_cells:
  assumes "KvtConstruct max_entries t h = (x, h')" "unat max_entries = n" "n \<le> 30"
  shows "cells_agree t n h h'"
proof -
  let ?r = "push_bit 1 (push_bit n 1) :: u32"
  have r: "?r = 2 ^ (n + 1)" by (simp add: push_bit_eq_mult)
  have ur: "unat ?r = Suc (2 ^ (n + 1) - 1)"
    unfolding r using assms(3) by (subst unat_pow2) simp_all
  have in_links: "t + sizeof_Kvt + i * 8 \<in> kvt_links t n" if "i \<le> 2 ^ (n + 1) - 1" for i
  proof -
    have "i < 2 ^ (n + 1)" using that by (rule le_less_trans) simp
    then have "bucket_head t i \<in> kvt_links t n" by (simp add: kvt_links_def)
    then show ?thesis by (simp add: bucket_head_def sizeof_ListHead_def)
  qed
  have fl: "freelist t \<in> kvt_links t n" by (simp add: kvt_links_def)
  show ?thesis
    using assms fl empty_lut_links [OF ur, of "t + sizeof_Kvt"] in_links
    by (auto simp: cells_agree_def KvtConstruct_def Let_def split: if_splits)
qed

lemma KvtConstruct_frame:
  assumes "KvtConstruct max_entries t h = (x, h')" "unat max_entries = n" "n \<le> 30"
  shows "agree_on (- kvt_span t n) h h'"
  by (rule cells_agree_on [OF KvtConstruct_cells [OF assms]])


subsection \<open>The table interface\<close>

text \<open>
  What the clients of a table rely on: the operations act on a map of bounded capacity.
  Commands and their abstract meaning first; a command's result is what the code returns.
\<close>

datatype kv_cmd = Ins u64 u32 | Look u64 | Ren u64 u32 | Rem u64

fun kv_spec :: "kv_cmd \<Rightarrow> (u64 \<Rightarrow> u32 option) \<times> nat \<Rightarrow> u32 \<times> (u64 \<Rightarrow> u32 option) \<times> nat" where
  "kv_spec (Ins k v) (m, c) =
     (if k \<in> dom m \<or> c = 0 then (0, m, c)
      else if v = 0 then (0, m, c - 1) else (v, m(k \<mapsto> v), c - 1))"
| "kv_spec (Look k) (m, c) = (case m k of Some v \<Rightarrow> v | None \<Rightarrow> 0, m, c)"
| "kv_spec (Ren k v) (m, c) = (if k \<in> dom m then (v, m(k \<mapsto> v), c) else (0, m, c))"
| "kv_spec (Rem k) (m, c) =
     (case m k of Some v \<Rightarrow> (v, m(k := None), c + 1) | None \<Rightarrow> (0, m, c))"

fun kv_spec_run :: "kv_cmd list \<Rightarrow> (u64 \<Rightarrow> u32 option) \<times> nat \<Rightarrow> u32 list \<times> (u64 \<Rightarrow> u32 option) \<times> nat" where
  "kv_spec_run [] s = ([], s)"
| "kv_spec_run (x # xs) s =
     (let (r, s) = kv_spec x s; (rs, s) = kv_spec_run xs s in (r # rs, s))"

fun kv_step :: "addr \<Rightarrow> kv_cmd \<Rightarrow> kv_heap \<Rightarrow> (u32 \<times> kv_heap) option" where
  "kv_step t (Ins k v) h = KvtInsert k v t h"
| "kv_step t (Look k) h = map_option (\<lambda>v. (v, h)) (KvtLookup k t h)"
| "kv_step t (Ren k v) h = KvtRename k v t h"
| "kv_step t (Rem k) h = KvtRemove k t h"

fun run_cmds :: "('c \<Rightarrow> 'h \<Rightarrow> ('r \<times> 'h) option) \<Rightarrow> 'c list \<Rightarrow> 'h \<Rightarrow> ('r list \<times> 'h) option" where
  "run_cmds step [] h = Some ([], h)"
| "run_cmds step (x # xs) h =
     (case step x h of None \<Rightarrow> None
      | Some (r, h) \<Rightarrow> map_option (\<lambda>(rs, h). (r # rs, h)) (run_cmds step xs h))"

locale kv_table =
  fixes rep :: "'h \<Rightarrow> (u64 \<Rightarrow> u32 option) \<Rightarrow> nat \<Rightarrow> bool"
    and step :: "kv_cmd \<Rightarrow> 'h \<Rightarrow> (u32 \<times> 'h) option"
  assumes step_rep: "rep h m c \<Longrightarrow> kv_spec x (m, c) = (r, m', c') \<Longrightarrow>
    \<exists>h'. step x h = Some (r, h') \<and> rep h' m' c'"
begin

lemma run_refines:
  "rep h m c \<Longrightarrow> kv_spec_run xs (m, c) = (rs, m', c') \<Longrightarrow>
   \<exists>h'. run_cmds step xs h = Some (rs, h') \<and> rep h' m' c'"
proof (induction xs arbitrary: h m c rs)
  case Nil
  then show ?case by simp
next
  case (Cons x xs)
  obtain r m1 c1 where s1: "kv_spec x (m, c) = (r, m1, c1)" by (cases "kv_spec x (m, c)") auto
  obtain rs' where s2: "kv_spec_run xs (m1, c1) = (rs', m', c')" "rs = r # rs'"
    using Cons.prems(2) s1 by (auto split: prod.splits)
  obtain h1 where h1: "step x h = Some (r, h1)" "rep h1 m1 c1" using step_rep Cons.prems(1) s1 by blast
  obtain h' where "run_cmds step xs h1 = Some (rs', h')" "rep h' m' c'"
    using Cons.IH [OF h1(2) s2(1)] by blast
  then show ?case using h1(1) s2(2) by simp
qed

end

interpretation kvt: kv_table "\<lambda>h m c. kvt_rep h t n m c" "kv_step t" for t n
proof
  fix h m c x r m' c'
  assume rep: "kvt_rep h t n m c" and spec: "kv_spec x (m, c) = (r, m', c')"
  show "\<exists>h'. kv_step t x h = Some (r, h') \<and> kvt_rep h' t n m' c'"
  proof (cases x)
    case (Ins k v)
    obtain h' where "KvtInsert k v t h = Some (if k \<in> dom m \<or> c = 0 then 0 else v, h')"
      "kvt_rep h' t n (if k \<in> dom m \<or> c = 0 \<or> v = 0 then m else m(k \<mapsto> v)) (if k \<in> dom m \<or> c = 0 then c else c - 1)"
      by (rule KvtInsert_rep [OF rep, of k v])
    then show ?thesis using spec Ins by (intro exI [of _ h']) (auto split: if_splits)
  next
    case (Look k)
    show ?thesis using KvtLookup_rep [OF rep, of k] rep spec Look by auto
  next
    case (Ren k v)
    obtain h' where "KvtRename k v t h = Some (if k \<in> dom m then v else 0, h')"
      "kvt_rep h' t n (if k \<in> dom m then m(k \<mapsto> v) else m) c"
      by (rule KvtRename_rep [OF rep, of k v])
    then show ?thesis using spec Ren by (intro exI [of _ h']) (auto split: if_splits)
  next
    case (Rem k)
    have upd: "m k = None \<Longrightarrow> m(k := None) = m" by auto
    obtain h' where "KvtRemove k t h = Some (case m k of Some v \<Rightarrow> v | None \<Rightarrow> 0, h')"
      "kvt_rep h' t n (m(k := None)) (if k \<in> dom m then c + 1 else c)"
      by (rule KvtRemove_rep [OF rep, of k])
    then show ?thesis using spec Rem upd by (intro exI [of _ h']) (auto simp: domIff split: option.splits)
  qed
qed

text \<open>
  The documentation rules out the value 0 for \<open>KvtInsert\<close> and \<open>KvtRename\<close>. Without it,
  stored entries and free entries always add up to the capacity.
\<close>

definition no_zero :: "kv_cmd \<Rightarrow> bool" where
  "no_zero x \<longleftrightarrow> (case x of Ins k v \<Rightarrow> v \<noteq> 0 | Ren k v \<Rightarrow> v \<noteq> 0 | _ \<Rightarrow> True)"

lemma kv_spec_capacity:
  assumes "finite (dom m)" "no_zero x" "kv_spec x (m, c) = (r, m', c')"
  shows "finite (dom m') \<and> card (dom m') + c' = card (dom m) + c"
proof (cases x)
  case (Ins k v)
  then show ?thesis using assms by (auto simp: no_zero_def card_insert_if domIff split: if_splits)
next
  case (Ren k v)
  then show ?thesis using assms insert_absorb [of k "dom m"] by (auto split: if_splits)
next
  case (Rem k)
  show ?thesis
  proof (cases "m k")
    case (Some v)
    then have "k \<in> dom m" by auto
    then have "card (dom m) = Suc (card (dom m - {k}))" using assms(1) by (metis card_Suc_Diff1)
    then show ?thesis using assms Rem Some by auto
  qed (use assms Rem in auto)
qed (use assms in auto)

lemma kv_spec_run_capacity:
  "finite (dom m) \<Longrightarrow> list_all no_zero xs \<Longrightarrow> kv_spec_run xs (m, c) = (rs, m', c') \<Longrightarrow>
   finite (dom m') \<and> card (dom m') + c' = card (dom m) + c"
proof (induction xs arbitrary: m c rs)
  case Nil
  then show ?case by simp
next
  case (Cons x xs)
  obtain r m1 c1 where s1: "kv_spec x (m, c) = (r, m1, c1)" by (cases "kv_spec x (m, c)") auto
  obtain rs' where s2: "kv_spec_run xs (m1, c1) = (rs', m', c')"
    using Cons.prems(3) s1 by (auto split: prod.splits)
  show ?case
    using kv_spec_capacity [OF Cons.prems(1) _ s1] Cons.IH [OF _ _ s2] Cons.prems(2) by auto
qed

text \<open>
  The documented table: a finite map of at most \<open>cap\<close> keys, as the comments at the end of
  \<^verbatim>\<open>Kvt.c\<close> describe it. An insertion of a new key succeeds while fewer than \<open>cap\<close> keys are
  stored, and a renaming answers the value it replaces.
\<close>

fun kv_doc :: "nat \<Rightarrow> kv_cmd \<Rightarrow> (u64 \<Rightarrow> u32 option) \<Rightarrow> u32 \<times> (u64 \<Rightarrow> u32 option)" where
  "kv_doc cap (Ins k v) m =
     (if v = 0 \<or> k \<in> dom m \<or> card (dom m) \<ge> cap then (0, m) else (v, m(k \<mapsto> v)))"
| "kv_doc cap (Look k) m = (case m k of Some v \<Rightarrow> v | None \<Rightarrow> 0, m)"
| "kv_doc cap (Ren k v) m = (case m k of Some old \<Rightarrow> (old, m(k \<mapsto> v)) | None \<Rightarrow> (0, m))"
| "kv_doc cap (Rem k) m = (case m k of Some v \<Rightarrow> (v, m(k := None)) | None \<Rightarrow> (0, m))"

fun kv_doc_run :: "nat \<Rightarrow> kv_cmd list \<Rightarrow> (u64 \<Rightarrow> u32 option) \<Rightarrow> u32 list \<times> (u64 \<Rightarrow> u32 option)" where
  "kv_doc_run cap [] m = ([], m)"
| "kv_doc_run cap (x # xs) m =
     (let (r, m) = kv_doc cap x m; (rs, m) = kv_doc_run cap xs m in (r # rs, m))"

text \<open>
  The one difference between the documented answers and the code's: where a key is renamed,
  the code answers the new value.
\<close>

fun coded_answer :: "kv_cmd \<Rightarrow> u32 \<Rightarrow> u32" where
  "coded_answer (Ren k v) r = (if r = 0 then 0 else v)"
| "coded_answer (Ins k v) r = r"
| "coded_answer (Look k) r = r"
| "coded_answer (Rem k) r = r"

definition coded_answers :: "nat \<Rightarrow> kv_cmd list \<Rightarrow> u32 list" where
  "coded_answers cap xs = map2 coded_answer xs (fst (kv_doc_run cap xs Map.empty))"

lemma kv_spec_doc:
  assumes "finite (dom m)" "0 \<notin> ran m" "no_zero x" "card (dom m) + c = cap"
    and "kv_spec x (m, c) = (r, m', c')" and "kv_doc cap x m = (d, m'')"
  shows "r = coded_answer x d \<and> m'' = m' \<and> 0 \<notin> ran m'"
proof (cases x)
  case (Ins k v)
  then show ?thesis using assms by (auto simp: no_zero_def domIff split: if_splits)
next
  case (Look k)
  then show ?thesis using assms by auto
next
  case (Ren k v)
  have "m k \<noteq> Some 0" using assms(2) by (auto simp: ran_def)
  then show ?thesis using assms Ren by (auto simp: no_zero_def ran_def split: if_splits option.splits)
next
  case (Rem k)
  then show ?thesis using assms by (auto simp: ran_def split: option.splits if_splits)
qed

lemma kv_spec_run_doc:
  assumes "finite (dom m)" "0 \<notin> ran m" "list_all no_zero xs" "card (dom m) + c = cap"
  shows "fst (kv_spec_run xs (m, c)) = map2 coded_answer xs (fst (kv_doc_run cap xs m)) \<and>
     fst (snd (kv_spec_run xs (m, c))) = snd (kv_doc_run cap xs m)"
  using assms
proof (induction xs arbitrary: m c)
  case Nil
  then show ?case by simp
next
  case (Cons x xs)
  obtain r m1 c1 where s1: "kv_spec x (m, c) = (r, m1, c1)" by (cases "kv_spec x (m, c)") auto
  obtain d m2 where d1: "kv_doc cap x m = (d, m2)" by (cases "kv_doc cap x m") auto
  have step: "r = coded_answer x d" "m2 = m1" "0 \<notin> ran m1"
    using kv_spec_doc [OF Cons.prems(1,2) _ Cons.prems(4) s1 d1] Cons.prems(3) by auto
  have cap: "finite (dom m1)" "card (dom m1) + c1 = cap"
    using kv_spec_capacity [OF Cons.prems(1) _ s1] Cons.prems(3,4) by auto
  show ?case
    using Cons.IH [OF cap(1) step(3) _ cap(2)] Cons.prems(3) s1 d1 step(1,2)
    by (auto split: prod.splits)
qed

lemma kv_spec_run_coded:
  assumes "list_all no_zero xs"
  shows "fst (kv_spec_run xs (Map.empty, cap)) = coded_answers cap xs"
    "fst (snd (kv_spec_run xs (Map.empty, cap))) = snd (kv_doc_run cap xs Map.empty)"
  using kv_spec_run_doc [of Map.empty xs cap cap] assms by (simp_all add: coded_answers_def)

lemma zero_inserts_spec:
  "m k = None \<Longrightarrow> i \<le> c \<Longrightarrow> kv_spec_run (replicate i (Ins k 0)) (m, c) = (replicate i 0, m, c - i)"
proof (induction i arbitrary: c)
  case (Suc i)
  then show ?case using Suc.IH [of "c - 1"] by (auto simp: domIff)
qed simp

lemma kv_step_cells:
  assumes "kvt_rep h t n m c" "kv_step t x h = Some (r, h')"
  shows "cells_agree t n h h'"
proof -
  obtain B F j where "kvt_inv h t n B F j" using assms(1) by (auto simp: kvt_rep_def)
  then show ?thesis
    using assms(2) KvtInsert_cells KvtRename_cells KvtRemove_cells by (cases x) auto
qed

lemma kv_run_cells:
  "kvt_rep h t n m c \<Longrightarrow> run_cmds (kv_step t) cmds h = Some (rs, h') \<Longrightarrow> cells_agree t n h h'"
proof (induction cmds arbitrary: h m c rs)
  case Nil
  then show ?case by simp
next
  case (Cons x xs)
  obtain r h1 rs1 where s: "kv_step t x h = Some (r, h1)" "run_cmds (kv_step t) xs h1 = Some (rs1, h')"
    using Cons.prems(2) by (auto split: option.splits)
  obtain r' m1 c1 where spec: "kv_spec x (m, c) = (r', m1, c1)" by (cases "kv_spec x (m, c)") auto
  have "kvt_rep h1 t n m1 c1" using kvt.step_rep [OF Cons.prems(1) spec] s(1) by auto
  then have "cells_agree t n h1 h'" using s(2) by (rule Cons.IH)
  then show ?case using kv_step_cells [OF Cons.prems(1) s(1)] cells_trans by blast
qed

lemma kv_step_frame:
  "kvt_rep h t n m c \<Longrightarrow> kv_step t x h = Some (r, h') \<Longrightarrow> agree_on (- kvt_span t n) h h'"
  by (blast intro: cells_agree_on kv_step_cells)

text \<open>
  Commands for two tables, in any order: \<open>True\<close> marks those for the table at \<open>t\<close>,
  \<open>False\<close> those for the table at \<open>u\<close>.
\<close>

definition pair_step :: "addr \<Rightarrow> addr \<Rightarrow> bool \<times> kv_cmd \<Rightarrow> kv_heap \<Rightarrow> (u32 \<times> kv_heap) option" where
  "pair_step t u = (\<lambda>(b, x). kv_step (if b then t else u) x)"

definition own_commands :: "bool \<Rightarrow> (bool \<times> kv_cmd) list \<Rightarrow> kv_cmd list" where
  "own_commands b xs = map snd (filter (\<lambda>c. fst c = b) xs)"

definition own_answers :: "bool \<Rightarrow> (bool \<times> kv_cmd) list \<Rightarrow> u32 list \<Rightarrow> u32 list" where
  "own_answers b xs rs = map snd (filter (\<lambda>c. fst (fst c) = b) (zip xs rs))"

lemma own_simps [simp]:
  "own_commands b [] = []" "own_answers b [] rs = []"
  "own_commands b (x # xs) = (if fst x = b then [snd x] else []) @ own_commands b xs"
  "own_answers b (x # xs) (r # rs) = (if fst x = b then [r] else []) @ own_answers b xs rs"
  by (simp_all add: own_commands_def own_answers_def)

lemma pair_run:
  assumes "kvt_rep h t n m c" "kvt_rep h u k m2 c2" "kvt_span t n \<inter> kvt_span u k = {}"
  shows "\<exists>rs h'. run_cmds (pair_step t u) xs h = Some (rs, h') \<and> length rs = length xs \<and>
     own_answers True xs rs = fst (kv_spec_run (own_commands True xs) (m, c)) \<and>
     own_answers False xs rs = fst (kv_spec_run (own_commands False xs) (m2, c2))"
  using assms(1,2)
proof (induction xs arbitrary: h m c m2 c2)
  case Nil
  then show ?case by simp
next
  case (Cons x xs)
  obtain b y where x: "x = (b, y)" by (cases x)
  show ?case
  proof (cases b)
    case True
    obtain r m' c' where sp: "kv_spec y (m, c) = (r, m', c')" by (cases "kv_spec y (m, c)") auto
    obtain h1 where h1: "kv_step t y h = Some (r, h1)" "kvt_rep h1 t n m' c'"
      using kvt.step_rep [OF Cons.prems(1) sp] by blast
    have "kvt_rep h1 u k m2 c2" using kv_step_frame [OF Cons.prems(1) h1(1)] assms(3)
      by (intro kvt_rep_cong [OF Cons.prems(2)]) (auto simp: agree_on_def)
    then show ?thesis using Cons.IH [OF h1(2)] h1(1) sp x True
      by (fastforce simp: pair_step_def split: prod.splits)
  next
    case False
    obtain r m' c' where sp: "kv_spec y (m2, c2) = (r, m', c')" by (cases "kv_spec y (m2, c2)") auto
    obtain h1 where h1: "kv_step u y h = Some (r, h1)" "kvt_rep h1 u k m' c'"
      using kvt.step_rep [OF Cons.prems(2) sp] by blast
    have "kvt_rep h1 t n m c" using kv_step_frame [OF Cons.prems(2) h1(1)] assms(3)
      by (intro kvt_rep_cong [OF Cons.prems(1)]) (auto simp: agree_on_def)
    then show ?thesis using Cons.IH [OF _ h1(2)] h1(1) sp x False
      by (fastforce simp: pair_step_def split: prod.splits)
  qed
qed

lemma KvtSizeof_value:
  assumes "unat max_entries = n" "n \<le> 26"
  shows "unat (KvtSizeof max_entries) = sizeof_Kvt + 2 ^ (n + 1) * sizeof_ListHead + 2 ^ n * sizeof_Kvp"
proof -
  have "unat (max_entries + 1) = n + 1"
    using assms by (subst unat_add_lem [THEN iffD1]) simp_all
  then have "KvtSizeof max_entries = of_nat (24 + 2 ^ (n + 1) * 8 + 2 ^ n * 24)"
    using assms(1) by (simp add: KvtSizeof_def SIZEOF_LUT_def SIZEOF_BUF_def LNGTHOF_LUT_def push_bit_eq_mult
        sizeof_Kvt_def sizeof_ListHead_def sizeof_Kvp_def)
  moreover have "(2::nat) ^ n \<le> 2 ^ 26" using assms(2) by (intro power_increasing) simp_all
  then have "(24 + 2 ^ (n + 1) * 8 + 2 ^ n * 24 :: nat) < 2 ^ 32" by simp
  ultimately show ?thesis
    using unat_of_nat_u32 by (simp only: sizeof_Kvt_def sizeof_ListHead_def sizeof_Kvp_def)
qed

lemma KvtConstruct_repD:
  assumes "t \<noteq> NIL" "unat max_entries = n" "n \<le> 30" "KvtConstruct max_entries t h = (t', h1)"
  shows "kvt_rep h1 t n Map.empty (2 ^ n)"
  by (rule KvtConstruct_rep [OF assms(1-3), of h]) (use assms(4) in auto)

lemma kvt_run:
  assumes "kvt_rep h t n m c"
  obtains h' where "run_cmds (kv_step t) cmds h = Some (fst (kv_spec_run cmds (m, c)), h')"
    "kvt_rep h' t n (fst (snd (kv_spec_run cmds (m, c)))) (snd (snd (kv_spec_run cmds (m, c))))"
proof -
  obtain rs m' c' where s: "kv_spec_run cmds (m, c) = (rs, m', c')" by (cases "kv_spec_run cmds (m, c)") auto
  show thesis using kvt.run_refines [OF assms s] s that by auto
qed

subsection \<open>Properties\<close>

text \<open>
  C1: from its construction on, the table answers any sequence of insertions, look-ups,
  renamings and removals that keeps to the documentation (no value is 0) as the documented
  finite map of capacity \<open>2 ^ max_entries\<close> does, except that the renaming of a stored key
  answers the new value where the documentation promises the previous one. No operation loops.
\<close>

theorem Kvt_refines_bounded_map:
  assumes "t \<noteq> NIL" and "unat max_entries = n" and "n \<le> 30"
    and "KvtConstruct max_entries t h = (t', h')" and "list_all no_zero cmds"
  shows "t' = t \<and>
    map_option fst (run_cmds (kv_step t) cmds h') =
      Some (map2 coded_answer cmds (fst (kv_doc_run (2 ^ n) cmds Map.empty)))"
proof -
  obtain h1 where h1: "KvtConstruct max_entries t h = (t, h1)" "kvt_rep h1 t n Map.empty (2 ^ n)"
    using KvtConstruct_rep [OF assms(1-3)] .
  obtain h2 where "run_cmds (kv_step t) cmds h1 = Some (fst (kv_spec_run cmds (Map.empty, 2 ^ n)), h2)"
    using kvt_run [OF h1(2)] by blast
  then show ?thesis
    using h1(1) assms(4) kv_spec_run_coded(1) [OF assms(5)] by (simp add: coded_answers_def)
qed

abbreviation (input) kv_empty_heap :: kv_heap where
  "kv_empty_heap \<equiv> \<lparr>forward = (\<lambda>a. NIL), reverse = (\<lambda>a. NIL), kvp_key = (\<lambda>a. 0), kvp_value = (\<lambda>a. 0),
     kvt_at = (\<lambda>a. \<lparr>stride = 0, lut = NIL, remaining = 0, next_kvp = NIL\<rparr>)\<rparr>"

definition kvt_sample :: "kv_cmd list" where
  "kvt_sample = [Ins 5 7, Ins 5 8, Look 5, Ren 5 6, Ins 9 1, Ins 3 2, Rem 5, Look 5, Ins 3 2]"

lemma kvt_sample_answers: "coded_answers (2 ^ 1) kvt_sample = [7, 0, 7, 6, 1, 0, 6, 0, 2]"
  by (simp add: kvt_sample_def coded_answers_def)

theorem Kvt_refines_bounded_map_witness:
  "map_option fst (run_cmds (kv_step 64) kvt_sample (snd (KvtConstruct 1 64 kv_empty_heap)))
     = Some [7, 0, 7, 6, 1, 0, 6, 0, 2]"
proof -
  have n: "unat (1 :: u32) = 1" by simp
  have nz: "list_all no_zero kvt_sample" by (simp add: kvt_sample_def no_zero_def)
  have "map_option fst (run_cmds (kv_step 64) kvt_sample (snd (KvtConstruct 1 64 kv_empty_heap)))
     = Some (coded_answers (2 ^ 1) kvt_sample)"
    unfolding coded_answers_def
    by (rule Kvt_refines_bounded_map [OF _ n _ prod.collapse [symmetric] nz, THEN conjunct2]) simp_all
  then show ?thesis unfolding kvt_sample_answers .
qed

text \<open>
  C2: two tables in disjoint bytes never affect each other: in any interleaving of commands
  for both, whatever they hold, each table gives the answers it gives for its own commands alone.
\<close>

theorem Kvt_tables_independent:
  assumes "t \<noteq> NIL" "u \<noteq> NIL" and "unat i = n" "n \<le> 30" and "unat j = k" "k \<le> 30"
    and "kvt_span t n \<inter> kvt_span u k = {}"
    and "KvtConstruct i t h = (t', h1)" and "KvtConstruct j u h1 = (u', h2)"
    and "list_all (\<lambda>c. no_zero (snd c)) cmds"
  shows "\<exists>rs h3. run_cmds (pair_step t u) cmds h2 = Some (rs, h3) \<and> length rs = length cmds \<and>
     own_answers True cmds rs = coded_answers (2 ^ n) (own_commands True cmds) \<and>
     own_answers False cmds rs = coded_answers (2 ^ k) (own_commands False cmds)"
proof -
  have r1: "kvt_rep h1 t n Map.empty (2 ^ n)"
    using assms(1,3,4,8) by (rule KvtConstruct_repD)
  have r2: "kvt_rep h2 u k Map.empty (2 ^ k)"
    using assms(2,5,6,9) by (rule KvtConstruct_repD)
  have "agree_on (- kvt_span u k) h1 h2" using KvtConstruct_frame [OF assms(9,5,6)] .
  then have "kvt_rep h2 t n Map.empty (2 ^ n)"
    using assms(7) by (intro kvt_rep_cong [OF r1]) (auto simp: agree_on_def)
  moreover have "list_all no_zero (own_commands b cmds)" for b
    using assms(10) by (auto simp: own_commands_def list_all_iff)
  ultimately show ?thesis
    using pair_run [OF _ r2 assms(7), of Map.empty "2 ^ n" cmds] kv_spec_run_coded(1) by metis
qed

definition pair_sample :: "(bool \<times> kv_cmd) list" where
  "pair_sample = [(True, Ins 5 7), (False, Ins 5 8), (True, Look 5), (False, Rem 5), (True, Look 5)]"

theorem Kvt_tables_independent_witness:
  "\<exists>rs h. run_cmds (pair_step 64 1000) pair_sample
        (snd (KvtConstruct 1 1000 (snd (KvtConstruct 1 64 kv_empty_heap)))) = Some (rs, h) \<and>
     own_answers True pair_sample rs = [7, 7, 7] \<and> own_answers False pair_sample rs = [8, 8]"
proof -
  have n: "unat (1 :: u32) = 1" by simp
  have dis: "kvt_span 64 1 \<inter> kvt_span 1000 1 = {}"
    by (auto simp: kvt_span_def sizeof_Kvt_def sizeof_ListHead_def sizeof_Kvp_def)
  have nz: "list_all (\<lambda>c. no_zero (snd c)) pair_sample" by (simp add: pair_sample_def no_zero_def)
  have "coded_answers (2 ^ 1) (own_commands True pair_sample) = [7, 7, 7]"
    "coded_answers (2 ^ 1) (own_commands False pair_sample) = [8, 8]"
    by (simp_all add: pair_sample_def coded_answers_def)
  then show ?thesis
    using Kvt_tables_independent [OF _ _ n _ n _ dis prod.collapse [symmetric] prod.collapse [symmetric] nz]
    by simp metis
qed

text \<open>
  While no zero value is inserted, a table of \<open>2 ^ n\<close> entries really holds \<open>2 ^ n\<close>
  keys: a new key is accepted exactly while fewer keys are stored.
\<close>

theorem KvtInsert_full_capacity:
  assumes "t \<noteq> NIL" and "unat max_entries = n" and "n \<le> 30"
    and "KvtConstruct max_entries t h = (t', h1)"
    and "list_all no_zero cmds" and "run_cmds (kv_step t) cmds h1 = Some (rs, h2)"
    and "kv_spec_run cmds (Map.empty, 2 ^ n) = (rs', m, c)" and "k \<notin> dom m" and "v \<noteq> 0"
  shows "map_option fst (KvtInsert k v t h2) = Some (if card (dom m) < 2 ^ n then v else 0)"
proof -
  have r1: "kvt_rep h1 t n Map.empty (2 ^ n)"
    using assms(1-4) by (rule KvtConstruct_repD)
  have "kvt_rep h2 t n m c" using kvt.run_refines [OF r1 assms(7)] assms(6) by auto
  moreover have "card (dom m) + c = 2 ^ n" using kv_spec_run_capacity [OF _ assms(5,7)] by simp
  ultimately show ?thesis
    using assms(8) by (elim KvtInsert_rep [of h2 t n m c k v thesis for thesis]) auto
qed

theorem KvtInsert_full_capacity_witness:
  "\<exists>h. run_cmds (kv_step 64) [Ins 5 7, Ins 9 1] (snd (KvtConstruct 1 64 kv_empty_heap)) = Some ([7, 1], h) \<and>
     map_option fst (KvtInsert 3 2 64 h) = Some 0"
proof -
  let ?h1 = "snd (KvtConstruct 1 64 kv_empty_heap)"
  have n: "unat (1 :: u32) = 1" by simp
  have spec: "kv_spec_run [Ins 5 7, Ins 9 1] (Map.empty, 2 ^ 1) = ([7, 1], [5 \<mapsto> 7, 9 \<mapsto> 1], 0)" by simp
  have r1: "kvt_rep ?h1 64 1 Map.empty (2 ^ 1)"
    by (rule KvtConstruct_repD [OF _ n _ prod.collapse [symmetric]]) simp_all
  obtain h where h: "run_cmds (kv_step 64) [Ins 5 7, Ins 9 1] ?h1 = Some ([7, 1], h)"
    using kvt.run_refines [OF r1 spec] by blast
  have "map_option fst (KvtInsert 3 2 64 h) =
      Some (if card (dom [5 \<mapsto> 7, 9 \<mapsto> (1 :: u32)] :: u64 set) < 2 ^ 1 then 2 else 0)"
    by (rule KvtInsert_full_capacity [OF _ n _ prod.collapse [symmetric] _ h spec]) (simp_all add: no_zero_def)
  then show ?thesis using h by simp
qed

text \<open>
  \<open>KvtInsert\<close> takes an entry before it checks the value: every insertion of the value
  \<open>0\<close> is refused but loses an entry for good, until the table is full without holding anything.
\<close>

theorem KvtInsert_zero_leaks:
  assumes "t \<noteq> NIL" and "unat max_entries = n" and "n \<le> 30"
    and "KvtConstruct max_entries t h = (t', h1)"
  shows "\<exists>h2. run_cmds (kv_step t) (replicate (2 ^ n) (Ins k 0)) h1 = Some (replicate (2 ^ n) 0, h2) \<and>
     map_option fst (KvtInsert k' v t h2) = Some 0 \<and> KvtLookup k'' t h2 = Some 0"
proof -
  have r1: "kvt_rep h1 t n Map.empty (2 ^ n)"
    using assms(1-4) by (rule KvtConstruct_repD)
  have "kv_spec_run (replicate (2 ^ n) (Ins k 0)) (Map.empty, 2 ^ n) = (replicate (2 ^ n) 0, Map.empty, 0)"
    using zero_inserts_spec [of Map.empty k "2 ^ n" "2 ^ n"] by simp
  then obtain h2 where h2: "run_cmds (kv_step t) (replicate (2 ^ n) (Ins k 0)) h1 = Some (replicate (2 ^ n) 0, h2)"
    "kvt_rep h2 t n Map.empty 0"
    using kvt.run_refines [OF r1] by blast
  have "map_option fst (KvtInsert k' v t h2) = Some 0"
    by (rule KvtInsert_rep [OF h2(2), of k' v]) auto
  moreover have "KvtLookup k'' t h2 = Some 0" using KvtLookup_rep [OF h2(2), of k''] by simp
  ultimately show ?thesis using h2(1) by blast
qed

theorem KvtInsert_zero_leaks_witness:
  "\<exists>h2. run_cmds (kv_step 64) [Ins 1 0, Ins 1 0] (snd (KvtConstruct 1 64 kv_empty_heap)) = Some ([0, 0], h2) \<and>
     map_option fst (KvtInsert 3 2 64 h2) = Some 0 \<and> KvtLookup 3 64 h2 = Some 0"
proof -
  have n: "unat (1 :: u32) = 1" by simp
  have two: "replicate (2 ^ 1) x = [x, x]" for x :: 'a by (simp add: numeral_2_eq_2)
  show ?thesis
    by (rule KvtInsert_zero_leaks [OF _ n _ prod.collapse [symmetric], unfolded two]) simp_all
qed

text \<open>
  \<open>KvtRename\<close> of a stored key returns the new value; the value it replaces, which the
  documentation promises, is never returned.
\<close>

theorem KvtRename_returns_new_value:
  assumes "kvt_rep h t n m c" and "m k = Some old"
  shows "\<exists>h'. KvtRename k v t h = Some (v, h') \<and> kvt_rep h' t n (m(k \<mapsto> v)) c"
  by (rule KvtRename_rep [OF assms(1), of k v]) (use assms(2) in \<open>auto simp: domIff\<close>)

theorem KvtRename_returns_new_value_witness:
  "\<exists>h h'. run_cmds (kv_step 64) [Ins 5 7] (snd (KvtConstruct 1 64 kv_empty_heap)) = Some ([7], h) \<and>
     KvtRename 5 8 64 h = Some (8, h')"
proof -
  let ?h1 = "snd (KvtConstruct 1 64 kv_empty_heap)"
  have n: "unat (1 :: u32) = 1" by simp
  have r1: "kvt_rep ?h1 64 1 Map.empty (2 ^ 1)"
    by (rule KvtConstruct_repD [OF _ n _ prod.collapse [symmetric]]) simp_all
  have spec: "kv_spec_run [Ins 5 7] (Map.empty, 2 ^ 1) = ([7], [5 \<mapsto> 7], 1)" by simp
  obtain h where h: "run_cmds (kv_step 64) [Ins 5 7] ?h1 = Some ([7], h)" "kvt_rep h 64 1 [5 \<mapsto> 7] 1"
    using kvt.run_refines [OF r1 spec] by blast
  then show ?thesis using KvtRename_returns_new_value [OF h(2), of 5 7 8] by auto
qed

text \<open>
  The bytes two states differ in, with the offsets and widths the fields have in the
  structures \<open>Kvp\<close> (two links of 4 bytes, a key of 8, a value of 4, padded to 24) and \<open>Kvt\<close>
  (four words before the free list).
\<close>

definition changed_bytes :: "kv_heap \<Rightarrow> kv_heap \<Rightarrow> addr set" where
  "changed_bytes h h' = (\<Union>a.
     (if forward h' a = forward h a then {} else {a ..< a + 4}) \<union>
     (if reverse h' a = reverse h a then {} else {a + 4 ..< a + 8}) \<union>
     (if kvp_key h' a = kvp_key h a then {} else {a + 8 ..< a + 16}) \<union>
     (if kvp_value h' a = kvp_value h a then {} else {a + 16 ..< a + 20}) \<union>
     (if kvt_at h' a = kvt_at h a then {} else {a ..< a + 16}))"

lemma slot_bytes:
  "i < 2 ^ n \<Longrightarrow> {kvp_slot t n i ..< kvp_slot t n i + sizeof_Kvp} \<subseteq> kvt_span t n"
proof -
  assume "i < 2 ^ n"
  then have "i * 24 + 24 \<le> 2 ^ n * 24" using mult_le_mono1 [of "Suc i" "2 ^ n" 24] by simp
  then show ?thesis
    by (auto simp: kvt_span_def kvp_slot_def kvp_base_def bucket_head_def sizeof_Kvp_def)
qed

lemma array_elements_disjoint:
  fixes b w :: nat
  assumes "i \<noteq> j"
  shows "{b + i * w ..< b + i * w + w} \<inter> {b + j * w ..< b + j * w + w} = {}"
proof -
  have le: "{b + i * w ..< b + i * w + w} \<inter> {b + j * w ..< b + j * w + w} = {}" if "i < j" for i j
    using mult_le_mono1 [of "Suc i" j w] that by auto
  show ?thesis using le [of i j] le [of j i] assms by (cases "i < j") (auto simp: Int_commute)
qed

text \<open>
  The objects of one table occupy pairwise disjoint bytes, so that addressing their fields by
  the start of the object loses nothing.
\<close>

lemma kvt_objects_disjoint:
  assumes "i < 2 ^ (n + 1)"
  shows "{t ..< t + 16} \<inter> {freelist t ..< freelist t + 8} = {}"
    "{t ..< t + sizeof_Kvt} \<inter> {bucket_head t i ..< bucket_head t i + sizeof_ListHead} = {}"
    "{t ..< t + sizeof_Kvt} \<inter> {kvp_slot t n j ..< kvp_slot t n j + sizeof_Kvp} = {}"
    "{bucket_head t i ..< bucket_head t i + sizeof_ListHead} \<inter> {kvp_slot t n j ..< kvp_slot t n j + sizeof_Kvp} = {}"
    "i \<noteq> i' \<Longrightarrow> {bucket_head t i ..< bucket_head t i + sizeof_ListHead} \<inter>
       {bucket_head t i' ..< bucket_head t i' + sizeof_ListHead} = {}"
    "j \<noteq> j' \<Longrightarrow> {kvp_slot t n j ..< kvp_slot t n j + sizeof_Kvp} \<inter>
       {kvp_slot t n j' ..< kvp_slot t n j' + sizeof_Kvp} = {}"
proof -
  have "i * 8 + 8 \<le> 2 ^ (n + 1) * 8" using assms mult_le_mono1 [of "Suc i" "2 ^ (n + 1)" 8] by simp
  then show "{bucket_head t i ..< bucket_head t i + sizeof_ListHead} \<inter>
      {kvp_slot t n j ..< kvp_slot t n j + sizeof_Kvp} = {}"
    by (auto simp: kvp_slot_def kvp_base_def bucket_head_def sizeof_ListHead_def)
  show "i \<noteq> i' \<Longrightarrow> {bucket_head t i ..< bucket_head t i + sizeof_ListHead} \<inter>
       {bucket_head t i' ..< bucket_head t i' + sizeof_ListHead} = {}"
    unfolding bucket_head_def by (rule array_elements_disjoint)
  show "j \<noteq> j' \<Longrightarrow> {kvp_slot t n j ..< kvp_slot t n j + sizeof_Kvp} \<inter>
       {kvp_slot t n j' ..< kvp_slot t n j' + sizeof_Kvp} = {}"
    unfolding kvp_slot_def by (rule array_elements_disjoint)
qed (auto simp: freelist_def bucket_head_def kvp_slot_def kvp_base_def sizeof_Kvt_def)

lemma link_bytes:
  assumes "a \<in> kvt_links t n"
  shows "{a ..< a + 8} \<subseteq> kvt_span t n"
proof -
  consider "a = freelist t" | i where "i < 2 ^ (n + 1)" "a = bucket_head t i" | i where "i < 2 ^ n" "a = kvp_slot t n i"
    using assms by (auto simp: kvt_links_def slots_below_def)
  then show ?thesis
  proof cases
    case 1
    then show ?thesis by (auto simp: kvt_span_def freelist_def sizeof_Kvt_def)
  next
    case 2
    then have "i * 8 + 8 \<le> 2 ^ (n + 1) * 8" using mult_le_mono1 [of "Suc i" "2 ^ (n + 1)" 8] by simp
    then show ?thesis using 2(2) by (auto simp: kvt_span_def bucket_head_def sizeof_ListHead_def)
  next
    case 3
    then show ?thesis using slot_bytes [of i n t] by (auto simp: sizeof_Kvp_def subset_iff)
  qed
qed

lemma changed_bytes_span:
  assumes "cells_agree t n h h'"
  shows "changed_bytes h h' \<subseteq> kvt_span t n"
proof -
  have l: "a \<in> kvt_links t n" if "forward h' a \<noteq> forward h a \<or> reverse h' a \<noteq> reverse h a" for a
    using that assms unfolding cells_agree_def by blast
  have s: "{a + 8 ..< a + 20} \<subseteq> kvt_span t n" if k: "kvp_key h' a \<noteq> kvp_key h a \<or> kvp_value h' a \<noteq> kvp_value h a" for a
  proof -
    have "a \<in> slots_below t n (2 ^ n)" using k assms unfolding cells_agree_def by blast
    then obtain i where "i < 2 ^ n" "a = kvp_slot t n i" by (auto simp: slots_below_def)
    then show ?thesis using slot_bytes [of i n t] by (auto simp: sizeof_Kvp_def subset_iff)
  qed
  have k: "a = t" if "kvt_at h' a \<noteq> kvt_at h a" for a using that assms unfolding cells_agree_def by blast
  have f: "{t ..< t + 16} \<subseteq> kvt_span t n" by (auto simp: kvt_span_def sizeof_Kvt_def)
  have "(if forward h' a = forward h a then {} else {a ..< a + 4}) \<subseteq> kvt_span t n"
    "(if reverse h' a = reverse h a then {} else {a + 4 ..< a + 8}) \<subseteq> kvt_span t n" for a
    using l [of a] link_bytes [of a t n] by (auto simp: subset_iff)
  moreover have "(if kvp_key h' a = kvp_key h a then {} else {a + 8 ..< a + 16}) \<subseteq> kvt_span t n"
    "(if kvp_value h' a = kvp_value h a then {} else {a + 16 ..< a + 20}) \<subseteq> kvt_span t n" for a
    using s [of a] by (auto simp: subset_iff)
  moreover have "(if kvt_at h' a = kvt_at h a then {} else {a ..< a + 16}) \<subseteq> kvt_span t n" for a
    using k [of a] f by (metis empty_subsetI)
  ultimately show ?thesis unfolding changed_bytes_def by (intro UN_least Un_least)
qed

lemma full_table_slots:
  assumes rep: "kvt_rep h t n m c" and full: "card (dom m) = 2 ^ n" and i: "i < 2 ^ n"
  shows "m (kvp_key h (kvp_slot t n i)) = Some (kvp_value h (kvp_slot t n i))"
proof -
  obtain B F j where inv: "kvt_inv h t n B F j" and m: "m = contents h n B"
    using rep by (auto simp: kvt_rep_def)
  let ?U = "\<Union>i < 2 ^ (n + 1). set (B i)" and ?S = "slots_below t n (2 ^ n)"
  have U: "?U \<subseteq> ?S" using inv_in_links(3) [OF inv] by blast
  have S: "finite ?S" "card ?S \<le> 2 ^ n"
    using card_image_le [of "{..<2 ^ n}" "kvp_slot t n"] by (simp_all add: slots_below_def)
  have "dom m \<subseteq> kvp_key h ` ?U"
  proof
    fix k assume "k \<in> dom m"
    then obtain a where "a \<in> set (B (key_index n k))" "kvp_key h a = k"
      unfolding m contents_def map_of_find by (auto simp: find_Some_iff) (metis nth_mem)
    then show "k \<in> kvp_key h ` ?U" using key_index_bound [of n k] by blast
  qed
  then have "2 ^ n \<le> card (kvp_key h ` ?U)"
    using full card_mono [of "kvp_key h ` ?U"] finite_subset [OF U S(1)] by (metis finite_imageI)
  also have "\<dots> \<le> card ?U" using finite_subset [OF U S(1)] by (rule card_image_le)
  finally have "?U = ?S" using card_subset_eq [OF S(1) U] card_mono [OF S(1) U] S(2) by linarith
  moreover have "kvp_slot t n i \<in> ?S" using i by (simp add: slots_below_def)
  ultimately obtain b where b: "b < 2 ^ (n + 1)" "kvp_slot t n i \<in> set (B b)" by blast
  let ?a = "kvp_slot t n i"
  have ok: "bucket_ok h t n b (B b)" using kvt_invD(4) [OF inv b(1)] .
  then have kb: "key_index n (kvp_key h ?a) = b" using b(2) by (auto simp: bucket_ok_def)
  have "distinct (map (kvp_key h) (B b))"
    using ok strict_sorted_imp_sorted strict_sorted_iff [of "map (kvp_key h) (B b)"]
    by (simp add: bucket_ok_def sorted_wrt_map)
  then have "map_of (map (\<lambda>a. (kvp_key h a, kvp_value h a)) (B b)) (kvp_key h ?a) = Some (kvp_value h ?a)"
    using b(2) by (intro map_of_is_SomeI) (auto simp: comp_def)
  then show ?thesis unfolding m contents_def kb .
qed

text \<open>
  C3: the buffer \<open>KvtSizeof\<close> asks for is what the table uses: construction and all commands
  change only bytes of it, and once \<open>2 ^ max_entries\<close> keys are stored, the 24 bytes that end
  exactly where the buffer ends are one of the stored entries.
\<close>

theorem Kvt_stays_in_buffer:
  assumes "unat max_entries = n" and "n \<le> 26" and "t \<noteq> NIL"
    and "KvtConstruct max_entries t h = (t', h1)" and "list_all no_zero cmds"
    and "run_cmds (kv_step t) cmds h1 = Some (rs, h2)" and "m = snd (kv_doc_run (2 ^ n) cmds Map.empty)"
    and "last_kvp = t + unat (KvtSizeof max_entries) - 24"
  shows "changed_bytes h h2 \<subseteq> {t ..< t + unat (KvtSizeof max_entries)} \<and>
     (card (dom m) = 2 ^ n \<longrightarrow> m (kvp_key h2 last_kvp) = Some (kvp_value h2 last_kvp))"
proof -
  have n: "n \<le> 30" using assms(2) by simp
  have r1: "kvt_rep h1 t n Map.empty (2 ^ n)"
    using assms(3,1) n assms(4) by (rule KvtConstruct_repD)
  have ag: "cells_agree t n h h2"
    using KvtConstruct_cells [OF assms(4,1) n] kv_run_cells [OF r1 assms(6)] by (rule cells_trans)
  have size: "unat (KvtSizeof max_entries) = sizeof_Kvt + 2 ^ (n + 1) * sizeof_ListHead + 2 ^ n * sizeof_Kvp"
    by (rule KvtSizeof_value [OF assms(1,2)])
  obtain h' c where h': "run_cmds (kv_step t) cmds h1 = Some (fst (kv_spec_run cmds (Map.empty, 2 ^ n)), h')"
    "kvt_rep h' t n (fst (snd (kv_spec_run cmds (Map.empty, 2 ^ n)))) c"
    by (rule kvt_run [OF r1])
  then have r2: "kvt_rep h2 t n m c" using assms(6,7) kv_spec_run_coded(2) [OF assms(5)] by simp
  obtain N where N: "(2 :: nat) ^ n = Suc N" by (metis nat.exhaust power_not_zero zero_neq_numeral)
  have "last_kvp = kvp_slot t n (2 ^ n - 1)"
    unfolding assms(8) size kvp_slot_def kvp_base_def bucket_head_def sizeof_Kvp_def N by simp
  then have "m (kvp_key h2 last_kvp) = Some (kvp_value h2 last_kvp)" if "card (dom m) = 2 ^ n"
    using full_table_slots [OF r2 that, of "2 ^ n - 1"] by simp
  then show ?thesis using changed_bytes_span [OF ag] unfolding size by (auto simp: kvt_span_def add.assoc)
qed

theorem Kvt_stays_in_buffer_witness:
  "KvtSizeof 1 = 104 \<and>
   (\<exists>rs h2. run_cmds (kv_step 64) [Ins 5 7, Ins 6 7] (snd (KvtConstruct 1 64 kv_empty_heap)) = Some (rs, h2) \<and>
      changed_bytes kv_empty_heap h2 \<subseteq> {64 ..< 168} \<and> kvp_value h2 144 = 7)"
proof -
  let ?h1 = "snd (KvtConstruct 1 64 kv_empty_heap)" and ?m = "[5 \<mapsto> 7, 6 \<mapsto> 7] :: u64 \<Rightarrow> u32 option"
  have n: "unat (1 :: u32) = 1" by simp
  have s: "KvtSizeof 1 = 104"
    by (simp add: KvtSizeof_def SIZEOF_LUT_def SIZEOF_BUF_def LNGTHOF_LUT_def sizeof_Kvt_def sizeof_ListHead_def sizeof_Kvp_def)
  have r1: "kvt_rep ?h1 64 1 Map.empty (2 ^ 1)"
    by (rule KvtConstruct_repD [OF _ n _ prod.collapse [symmetric]]) simp_all
  have nz: "list_all no_zero [Ins 5 7, Ins 6 7]" by (simp add: no_zero_def)
  have m: "?m = snd (kv_doc_run (2 ^ 1) [Ins 5 7, Ins 6 7] Map.empty)" by simp
  obtain rs h2 where run: "run_cmds (kv_step 64) [Ins 5 7, Ins 6 7] ?h1 = Some (rs, h2)"
    using kvt_run [OF r1] by blast
  from Kvt_stays_in_buffer [OF n _ _ prod.collapse [symmetric] nz run m refl]
  have c: "changed_bytes kv_empty_heap h2 \<subseteq> {64 ..< 168} \<and> ?m (kvp_key h2 144) = Some (kvp_value h2 144)"
    by (simp add: s)
  moreover have "kvp_value h2 144 = 7" using conjunct2 [OF c] by (auto split: if_splits)
  ultimately show ?thesis using s run by blast
qed

end
