(* ===== verification/ShelfRecords.thy ===== *)
theory ShelfRecords
  imports Bytes
begin

text \<open>
  The multirecord area of the shelf FRU information, the byte-level half of
  \<^verbatim>\<open>service/shelf_fru/src/shelf_ip_info.c\<close>: finding, removing and adding the SLAC shelf IP
  record in a buffer. A record is a header of 5 bytes (id, format with the end-of-list bit,
  data length, data checksum, header checksum) followed by its data. Pointers into the buffer
  are offsets; a read or write past the buffer, the use of an uninitialised variable and a
  copy between overlapping areas are \<open>None\<close>. Offsets never leave the buffer, so they do not
  wrap and are natural numbers; sizes are kept at 32 bits.
\<close>

subsection \<open>Data\<close>

record shelf_ip_info =
  vlan :: u32
  ingress :: u32
  group_base :: u32
  group_end :: u32
  subnet_mask :: u32
  gateway :: u32

definition SLAC_OEM_MANUFACTURER_ID :: "u8 list" where
  "SLAC_OEM_MANUFACTURER_ID = [0x50, 0x9D, 0x00]"

definition SLAC_SHELF_IP_INFO_RECORD_ID :: u8 where "SLAC_SHELF_IP_INFO_RECORD_ID = 1"
definition PICMG_OEM_RECORD_ID :: u8 where "PICMG_OEM_RECORD_ID = 0xC0"
definition sizeof_ipmi_header :: nat where "sizeof_ipmi_header = 5"
definition sizeof_picmg_header :: nat where "sizeof_picmg_header = 10"
definition sizeof_shelf_ip_info :: nat where "sizeof_shelf_ip_info = 24"

text \<open>The fields of a \<^verbatim>\<open>picmg_multirecord_header\<close> by their offsets.\<close>

definition record_id :: nat where "record_id = 0"
definition eol_format :: nat where "eol_format = 1"
definition record_len :: nat where "record_len = 2"
definition record_chk :: nat where "record_chk = 3"
definition header_chk :: nat where "header_chk = 4"
definition manufacturer_id :: nat where "manufacturer_id = 5"
definition picmg_record_id :: nat where "picmg_record_id = 8"
definition picmg_format_version :: nat where "picmg_format_version = 9"

lemmas field_defs =
  record_id_def eol_format_def record_len_def record_chk_def header_chk_def manufacturer_id_def
  picmg_record_id_def picmg_format_version_def sizeof_ipmi_header_def sizeof_picmg_header_def
  sizeof_shelf_ip_info_def SLAC_OEM_MANUFACTURER_ID_def SLAC_SHELF_IP_INFO_RECORD_ID_def
  PICMG_OEM_RECORD_ID_def

definition info_bytes :: "shelf_ip_info \<Rightarrow> u8 list" where
  "info_bytes i = le_bytes (vlan i) @ le_bytes (ingress i) @ le_bytes (group_base i) @
     le_bytes (group_end i) @ le_bytes (subnet_mask i) @ le_bytes (gateway i)"

definition word_at :: "u8 list \<Rightarrow> nat \<Rightarrow> u32 option" where
  "word_at buf off = do {
     a \<leftarrow> rd buf off; b \<leftarrow> rd buf (off + 1); c \<leftarrow> rd buf (off + 2); d \<leftarrow> rd buf (off + 3);
     Some (le_word a b c d) }"

definition read_info :: "u8 list \<Rightarrow> nat \<Rightarrow> shelf_ip_info option" where
  "read_info buf off = do {
     v \<leftarrow> word_at buf off; i \<leftarrow> word_at buf (off + 4); b \<leftarrow> word_at buf (off + 8);
     e \<leftarrow> word_at buf (off + 12); m \<leftarrow> word_at buf (off + 16); g \<leftarrow> word_at buf (off + 20);
     Some \<lparr>vlan = v, ingress = i, group_base = b, group_end = e, subnet_mask = m, gateway = g\<rparr> }"

subsection \<open>The operations\<close>

definition is_slac_shelf_ip_record :: "u8 list \<Rightarrow> nat \<Rightarrow> bool option" where
  "is_slac_shelf_ip_record buf hdr = do {
     i \<leftarrow> rd buf (hdr + record_id);
     if i = PICMG_OEM_RECORD_ID then do {
       m \<leftarrow> mem_read buf (hdr + manufacturer_id) 3;
       if m = SLAC_OEM_MANUFACTURER_ID then do {
         p \<leftarrow> rd buf (hdr + picmg_record_id);
         Some (p = SLAC_SHELF_IP_INFO_RECORD_ID)
       } else Some False
     } else Some False }"

text \<open>\<open>Some None\<close> is the returned \<^verbatim>\<open>NULL\<close>, \<open>Some (Some offset)\<close> the pointer into the buffer.\<close>

function find_loop :: "u8 list \<Rightarrow> nat \<Rightarrow> nat \<Rightarrow> nat option option" where
  "find_loop buf buf_size off =
     (if off < buf_size then do {
        slac \<leftarrow> is_slac_shelf_ip_record buf off;
        if slac then Some (Some off) else do {
          e \<leftarrow> rd buf (off + eol_format);
          if e AND 0x80 \<noteq> 0 then Some None else do {
            l \<leftarrow> rd buf (off + record_len);
            find_loop buf buf_size (off + (unat l + sizeof_ipmi_header)) } } }
      else Some None)"
  by pat_completeness auto
termination
  by (relation "measure (\<lambda>(buf, buf_size, off). buf_size - off)") (auto simp: sizeof_ipmi_header_def)

declare find_loop.simps [simp del]

definition find_shelf_ip_info_record :: "u8 list \<Rightarrow> u16 \<Rightarrow> nat option option" where
  "find_shelf_ip_info_record buf buf_size = find_loop buf (unat buf_size) 0"

text \<open>
  The loop of \<open>remove_slac_shelf_ip_record\<close> over its local variables; it returns the buffer,
  \<open>prv_offset\<close> (\<open>None\<close> while uninitialised), \<open>move\<close>, \<open>new_end\<close> and \<open>new_buf_size\<close>.
\<close>

function remove_loop ::
    "u8 list \<Rightarrow> u32 \<Rightarrow> nat \<Rightarrow> nat \<Rightarrow> nat option \<Rightarrow> bool \<Rightarrow> u32 \<Rightarrow>
       (u8 list \<times> nat option \<times> bool \<times> bool \<times> u32) option" where
  "remove_loop buf buf_size cur dst prv move new_size =
     (if cur < unat buf_size then do {
        l \<leftarrow> rd buf (cur + record_len);
        let record_size = unat l + sizeof_ipmi_header in do {
        slac \<leftarrow> is_slac_shelf_ip_record buf cur;
        if slac then do {
          e \<leftarrow> rd buf (cur + eol_format);
          if e AND 0x80 \<noteq> 0 then Some (buf, prv, True, True, buf_size - of_nat record_size)
          else remove_loop buf buf_size (cur + record_size) cur (Some cur) True
                 (buf_size - of_nat record_size)
        } else if move then do {
          buf \<leftarrow> mem_copy buf dst cur record_size;
          remove_loop buf buf_size (cur + record_size) (dst + record_size) prv move new_size
        } else do {
          e \<leftarrow> rd buf (cur + eol_format);
          if e AND 0x80 \<noteq> 0 then Some (buf, prv, move, False, new_size)
          else remove_loop buf buf_size (cur + record_size) dst (Some cur) move new_size
        } } }
      else Some (buf, prv, move, False, new_size))"
  by pat_completeness auto
termination
  by (relation "measure (\<lambda>(buf, buf_size, cur, dst, prv, move, new_size). unat buf_size - cur)")
    (auto simp: sizeof_ipmi_header_def)

declare remove_loop.simps [simp del]

definition remove_slac_shelf_ip_record :: "u8 list \<Rightarrow> u32 \<Rightarrow> (int \<times> u8 list \<times> u32) option" where
  "remove_slac_shelf_ip_record buf buf_size = do {
     (buf, prv, move, new_end, new_size) \<leftarrow> remove_loop buf buf_size 0 0 None False buf_size;
     buf \<leftarrow> (if new_end then do {
               p \<leftarrow> prv;
               e \<leftarrow> rd buf (p + eol_format);
               buf \<leftarrow> wr buf (p + eol_format) (e OR 0x80);
               c \<leftarrow> rd buf (p + header_chk);
               wr buf (p + header_chk) (c - 0x80) }
             else Some buf);
     Some (if new_end \<or> move then 0 else 1, buf, new_size) }"

text \<open>The first loop of \<open>add_slac_shelf_ip_info\<close>: it returns \<open>cur_offset\<close> and \<open>hdr\<close>.\<close>

function add_loop :: "u8 list \<Rightarrow> u32 \<Rightarrow> nat \<Rightarrow> nat option \<Rightarrow> (nat \<times> nat option) option" where
  "add_loop buf buf_size cur hdr =
     (if cur < unat buf_size then do {
        e \<leftarrow> rd buf (cur + eol_format);
        if e AND 0x80 \<noteq> 0 then Some (cur, Some cur)
        else do {
          l \<leftarrow> rd buf (cur + record_len);
          add_loop buf buf_size (cur + (unat l + sizeof_ipmi_header)) (Some cur) } }
      else Some (cur, hdr))"
  by pat_completeness auto
termination
  by (relation "measure (\<lambda>(buf, buf_size, cur, hdr). unat buf_size - cur)")
    (auto simp: sizeof_ipmi_header_def)

declare add_loop.simps [simp del]

text \<open>The checksum loops: an \<^verbatim>\<open>int\<close> sum, then \<^verbatim>\<open>0x100 - (chk & 0xff)\<close> stored as a byte.\<close>

definition chk_byte :: "u8 list \<Rightarrow> u8" where
  "chk_byte bs = (let chk = fold (\<lambda>b chk. chk + uint b) bs 0 in word_of_int (0x100 - (chk AND 0xff)))"

definition add_slac_shelf_ip_info :: "shelf_ip_info \<Rightarrow> u8 list \<Rightarrow> u32 \<Rightarrow> (u8 list \<times> u32) option" where
  "add_slac_shelf_ip_info info buf buf_size = do {
     (cur, hdr) \<leftarrow> add_loop buf buf_size 0 None;
     h \<leftarrow> hdr;
     e \<leftarrow> rd buf (h + eol_format);
     buf \<leftarrow> wr buf (h + eol_format) (e AND 0x7f);
     c \<leftarrow> rd buf (h + header_chk);
     buf \<leftarrow> wr buf (h + header_chk) (c + 0x80);
     l \<leftarrow> rd buf (h + record_len);
     let cur = cur + (unat l + sizeof_ipmi_header) in do {
     buf \<leftarrow> mem_put buf (cur + sizeof_picmg_header) (info_bytes info);
     buf \<leftarrow> mem_put buf (cur + manufacturer_id) SLAC_OEM_MANUFACTURER_ID;
     buf \<leftarrow> wr buf (cur + picmg_record_id) 0x01;
     buf \<leftarrow> wr buf (cur + picmg_format_version) 0x00;
     buf \<leftarrow> wr buf (cur + record_id) PICMG_OEM_RECORD_ID;
     buf \<leftarrow> wr buf (cur + eol_format) 0x82;
     buf \<leftarrow> wr buf (cur + record_len)
              (of_nat (sizeof_shelf_ip_info + (sizeof_picmg_header - sizeof_ipmi_header)));
     len \<leftarrow> rd buf (cur + record_len);
     record_data \<leftarrow> mem_read buf (cur + sizeof_ipmi_header) (unat len);
     buf \<leftarrow> wr buf (cur + record_chk) (chk_byte record_data);
     header \<leftarrow> mem_read buf cur 4;
     buf \<leftarrow> wr buf (cur + header_chk) (chk_byte header);
     Some (buf, buf_size + of_nat (sizeof_picmg_header + sizeof_shelf_ip_info)) } }"

subsection \<open>Well-formed areas\<close>

definition is_rec :: "u8 list \<Rightarrow> bool" where
  "is_rec r \<longleftrightarrow> 5 \<le> length r \<and> length r = unat (r ! 2) + 5 \<and> (r ! 0 = 0xC0 \<longrightarrow> 9 \<le> length r)"

definition eol :: "u8 list \<Rightarrow> bool" where "eol r \<longleftrightarrow> r ! 1 AND 0x80 \<noteq> 0"

definition slac :: "u8 list \<Rightarrow> bool" where
  "slac r \<longleftrightarrow> r ! 0 = 0xC0 \<and> take 3 (drop 5 r) = [0x50, 0x9D, 0x00] \<and> r ! 8 = 1"

text \<open>A list of records, the last of which and no other carries the end-of-list bit.\<close>

definition is_area :: "u8 list list \<Rightarrow> bool" where
  "is_area rs \<longleftrightarrow> rs \<noteq> [] \<and> list_all is_rec rs \<and> list_all (\<lambda>r. \<not> eol r) (butlast rs) \<and> eol (last rs)"

definition header_ok :: "u8 list \<Rightarrow> bool" where "header_ok r \<longleftrightarrow> byte_sum (take 5 r) = 0"
definition data_ok :: "u8 list \<Rightarrow> bool" where "data_ok r \<longleftrightarrow> byte_sum (r ! 3 # drop 5 r) = 0"

definition clear_eol :: "u8 list \<Rightarrow> u8 list" where
  "clear_eol r = r[1 := r ! 1 AND 0x7f, 4 := r ! 4 + 0x80]"

definition set_eol :: "u8 list \<Rightarrow> u8 list" where
  "set_eol r = r[1 := r ! 1 OR 0x80, 4 := r ! 4 - 0x80]"

definition slac_record :: "shelf_ip_info \<Rightarrow> u8 list" where
  "slac_record info =
     (let data = [0x50, 0x9D, 0x00, 0x01, 0x00] @ info_bytes info;
          header = [0xC0, 0x82, 29, chk_byte data]
      in header @ chk_byte header # data)"

lemma is_recD: "is_rec r \<Longrightarrow> 5 \<le> length r" "is_rec r \<Longrightarrow> length r = unat (r ! 2) + 5"
  "is_rec r \<Longrightarrow> r ! 0 = 0xC0 \<Longrightarrow> 9 \<le> length r"
  by (simp_all add: is_rec_def)

lemma length_info_bytes [simp]: "length (info_bytes i) = 24"
  by (simp add: info_bytes_def)

lemma length_slac_record [simp]: "length (slac_record i) = 34"
  by (simp add: slac_record_def Let_def)

lemma length_clear_eol [simp]: "length (clear_eol r) = length r" "length (set_eol r) = length r"
  by (simp_all add: clear_eol_def set_eol_def)

lemma slac_record_is_rec [simp]: "is_rec (slac_record i)" "eol (slac_record i)" "slac (slac_record i)"
  by (simp_all add: is_rec_def eol_def slac_def slac_record_def Let_def)

lemma is_rec_clear_eol [simp]: "is_rec (clear_eol r) = is_rec r" "slac (clear_eol r) = slac r"
  by (simp_all add: is_rec_def clear_eol_def slac_def)

lemma eol_clear_eol: "is_rec r \<Longrightarrow> \<not> eol (clear_eol r)"
  by (simp add: eol_def clear_eol_def is_rec_def and.assoc)

lemma is_rec_set_eol [simp]: "is_rec (set_eol r) = is_rec r" "slac (set_eol r) = slac r"
  by (simp_all add: is_rec_def set_eol_def slac_def)

lemma bit7: "(e :: u8) AND 0x80 \<noteq> 0 \<longleftrightarrow> bit e 7"
  using bit_iff_and_push_bit_not_eq_0 [of e 7] by simp

lemma bits_0x80: "(0x80 :: u8) = push_bit 7 1" "(0x7f :: u8) = mask 7"
  by (simp_all add: mask_eq_exp_minus_1)

lemma set_bit7: "\<not> bit (e :: u8) 7 \<Longrightarrow> e OR 0x80 = e + 0x80"
  using word_plus_and_or [of e "0x80"] bit7 [of e] by (metis add_0)

lemma clear_set_bit7: "bit (e :: u8) 7 \<Longrightarrow> (e AND 0x7f) OR 0x80 = e"
  unfolding bits_0x80
  by (rule bit_word_eqI) (auto simp: bit_simps bit_1_iff less_Suc_eq numeral_eq_Suc simp del: push_bit_of_1)

lemma set_clear_bit7: "\<not> bit (e :: u8) 7 \<Longrightarrow> (e OR 0x80) AND 0x7f = e"
  unfolding bits_0x80
  by (rule bit_word_eqI) (auto simp: bit_simps bit_1_iff less_Suc_eq numeral_eq_Suc simp del: push_bit_of_1)

lemma clear_bit7: "bit (e :: u8) 7 \<Longrightarrow> e AND 0x7f = e - 0x80"
proof -
  assume b: "bit e 7"
  have "\<not> bit (e AND 0x7f) 7" unfolding bits_0x80 by (simp add: bit_simps)
  then have "(e AND 0x7f) OR 0x80 = (e AND 0x7f) + 0x80" by (rule set_bit7)
  then show ?thesis using clear_set_bit7 [OF b] by (simp add: eq_diff_eq)
qed

lemma not_bit7_clear: "\<not> bit ((e :: u8) AND 0x7f) 7"
  unfolding bits_0x80 by (simp add: bit_simps)

lemma record_split: "5 \<le> length r \<Longrightarrow> \<exists>a b c d e ds. r = a # b # c # d # e # ds"
  by (auto simp: Suc_le_length_iff numeral_eq_Suc)

lemma set_clear_eol: "is_rec r \<Longrightarrow> eol r \<Longrightarrow> set_eol (clear_eol r) = r"
proof -
  assume r: "is_rec r" "eol r"
  obtain a b c d e ds where "r = a # b # c # d # e # ds" using record_split is_recD(1) [OF r(1)] by blast
  then show ?thesis using r(2) clear_set_bit7 [of b] by (simp add: set_eol_def clear_eol_def eol_def bit7)
qed

lemma header_ok_eol:
  "is_rec r \<Longrightarrow> eol r \<Longrightarrow> header_ok (clear_eol r) = header_ok r"
  "is_rec r \<Longrightarrow> \<not> eol r \<Longrightarrow> header_ok (set_eol r) = header_ok r"
proof -
  assume r: "is_rec r"
  obtain a b c d e ds where s: "r = a # b # c # d # e # ds" using record_split is_recD(1) [OF r] by blast
  show "eol r \<Longrightarrow> header_ok (clear_eol r) = header_ok r"
    using s clear_bit7 [of b] by (simp add: header_ok_def clear_eol_def eol_def bit7)
  show "\<not> eol r \<Longrightarrow> header_ok (set_eol r) = header_ok r"
    using s set_bit7 [of b] by (simp add: header_ok_def set_eol_def eol_def bit7)
qed

lemma data_ok_eol: "is_rec r \<Longrightarrow> data_ok (clear_eol r) = data_ok r" "is_rec r \<Longrightarrow> data_ok (set_eol r) = data_ok r"
proof -
  assume r: "is_rec r"
  obtain a b c d e ds where s: "r = a # b # c # d # e # ds" using record_split is_recD(1) [OF r] by blast
  then show "data_ok (clear_eol r) = data_ok r" "data_ok (set_eol r) = data_ok r"
    by (simp_all add: data_ok_def clear_eol_def set_eol_def)
qed

text \<open>The byte the checksum loops compute makes the sum of the block zero.\<close>

lemma fold_sum: "fold (\<lambda>b chk. chk + uint b) bs c = c + (\<Sum>b \<leftarrow> bs. uint b)"
  by (induction bs arbitrary: c) simp_all

lemma word_of_sum: "word_of_int (\<Sum>b \<leftarrow> bs. uint b) = byte_sum (bs :: u8 list)"
  by (induction bs) simp_all

lemma chk_byte_value: "chk_byte bs = - byte_sum bs"
proof -
  define s where "s = (\<Sum>b \<leftarrow> bs. uint b)"
  have "(0xff :: int) = mask 8" by (simp add: mask_eq_exp_minus_1)
  then have "s AND 0xff = take_bit 8 s" by (simp only: take_bit_eq_mask)
  then have "(word_of_int (s AND 0xff) :: u8) = word_of_int s"
    by (simp add: word_of_int_eq_iff)
  then have "(word_of_int (0x100 - (s AND 0xff)) :: u8) = - word_of_int s"
    by (simp only: of_int_diff) simp
  then show ?thesis using word_of_sum [of bs] by (simp add: chk_byte_def fold_sum Let_def s_def)
qed

lemma slac_record_checksums: "header_ok (slac_record i)" "data_ok (slac_record i)"
  by (simp_all add: header_ok_def data_ok_def slac_record_def Let_def chk_byte_value)

subsection \<open>Finding\<close>

lemma is_slac_at:
  assumes "is_rec r"
  shows "is_slac_shelf_ip_record (pre @ r @ post) (length pre) = Some (slac r)"
proof -
  note r = is_recD [OF assms]
  have r0: "rd (pre @ r @ post) (length pre + 0) = Some (r ! 0)" using r(1) by (intro rd_cong_prefix) auto
  show ?thesis
  proof (cases "r ! 0 = 0xC0")
    case True
    then have len: "9 \<le> length r" using r(3) by simp
    have m: "mem_read (pre @ r @ post) (length pre + 5) 3 = Some (take 3 (drop 5 r))"
      using len by (simp add: mem_read_def)
    have r8: "rd (pre @ r @ post) (length pre + 8) = Some (r ! 8)" using len by (intro rd_cong_prefix) simp
    show ?thesis using r0 True m r8 by (auto simp: is_slac_shelf_ip_record_def field_defs slac_def)
  qed (use r0 in \<open>simp add: is_slac_shelf_ip_record_def field_defs slac_def\<close>)
qed

lemma rec_reads:
  assumes "is_rec r"
  shows "rd (pre @ r @ post) (length pre + eol_format) = Some (r ! 1)"
    "rd (pre @ r @ post) (length pre + record_len) = Some (r ! 2)"
    "rd (pre @ r @ post) (length pre + header_chk) = Some (r ! 4)"
proof -
  have "1 < length r" "2 < length r" "4 < length r" using is_recD(1) [OF assms] by auto
  then show "rd (pre @ r @ post) (length pre + eol_format) = Some (r ! 1)"
    "rd (pre @ r @ post) (length pre + record_len) = Some (r ! 2)"
    "rd (pre @ r @ post) (length pre + header_chk) = Some (r ! 4)"
    unfolding field_defs by (simp_all only: rd_cong_prefix)
qed

lemma rec_size:
  assumes "is_rec r"
  shows "unat (r ! 2) + sizeof_ipmi_header = length r" "0 < length r"
  using is_recD [OF assms] by (auto simp: sizeof_ipmi_header_def)

lemma is_area_Cons:
  "is_area (r # rs) \<longleftrightarrow> is_rec r \<and> (if rs = [] then eol r else \<not> eol r \<and> is_area rs)"
  by (auto simp: is_area_def)

lemma find_loop_area:
  assumes "is_area rs" and "length (pre @ concat rs) \<le> buf_size"
  shows "find_loop (pre @ concat rs @ slack) buf_size (length pre) =
    Some (if list_ex slac rs then Some (length (pre @ concat (takeWhile (\<lambda>r. \<not> slac r) rs))) else None)"
  using assms
proof (induction rs arbitrary: pre)
  case Nil
  then show ?case by (simp add: is_area_def)
next
  case (Cons r rs)
  have r: "is_rec r" using Cons.prems(1) by (simp add: is_area_Cons)
  note reads = rec_reads [OF r, of pre "concat rs @ slack"] is_slac_at [OF r, of pre "concat rs @ slack"]
    rec_size [OF r]
  have lt: "length pre < buf_size" using Cons.prems(2) is_recD(1) [OF r] by simp
  show ?case
  proof (cases "slac r")
    case True
    then show ?thesis using lt reads by (subst find_loop.simps) simp
  next
    case nslac: False
    show ?thesis
    proof (cases "eol r")
      case True
      then have "rs = []" using Cons.prems(1) by (simp add: is_area_Cons split: if_splits)
      then show ?thesis using lt reads True nslac by (subst find_loop.simps) (simp add: eol_def)
    next
      case False
      then have area: "is_area rs" using Cons.prems(1) by (auto simp: is_area_Cons split: if_splits)
      have "find_loop (pre @ concat (r # rs) @ slack) buf_size (length pre) =
          find_loop ((pre @ r) @ concat rs @ slack) buf_size (length (pre @ r))"
        using lt reads False nslac by (subst find_loop.simps) (simp add: eol_def)
      also have "\<dots> = Some (if list_ex slac rs
          then Some (length ((pre @ r) @ concat (takeWhile (\<lambda>r. \<not> slac r) rs))) else None)"
        using Cons.prems(2) by (intro Cons.IH [OF area]) simp
      finally show ?thesis using nslac by simp
    qed
  qed
qed

lemma find_area:
  assumes "is_area rs" and "length (concat rs) \<le> unat buf_size"
  shows "find_shelf_ip_info_record (concat rs @ slack) buf_size =
    Some (if list_ex slac rs then Some (length (concat (takeWhile (\<lambda>r. \<not> slac r) rs))) else None)"
  using find_loop_area [OF assms(1), of "[]" "unat buf_size" slack] assms(2)
  by (simp add: find_shelf_ip_info_record_def)

subsection \<open>Adding\<close>

lemma add_loop_area:
  assumes "is_area rs" and "length (pre @ concat rs) \<le> unat buf_size"
  shows "add_loop (pre @ concat rs @ slack) buf_size (length pre) hdr =
    Some (length (pre @ concat (butlast rs)), Some (length (pre @ concat (butlast rs))))"
  using assms
proof (induction rs arbitrary: pre hdr)
  case Nil
  then show ?case by (simp add: is_area_def)
next
  case (Cons r rs)
  have r: "is_rec r" using Cons.prems(1) by (simp add: is_area_Cons)
  note reads = rec_reads [OF r, of pre "concat rs @ slack"] rec_size [OF r]
  have lt: "length pre < unat buf_size" using Cons.prems(2) is_recD(1) [OF r] by simp
  show ?case
  proof (cases "eol r")
    case True
    then have "rs = []" using Cons.prems(1) by (simp add: is_area_Cons split: if_splits)
    then show ?thesis using lt reads True by (subst add_loop.simps) (simp add: eol_def)
  next
    case False
    then have area: "is_area rs" "rs \<noteq> []" using Cons.prems(1) by (auto simp: is_area_Cons split: if_splits)
    have "add_loop (pre @ concat (r # rs) @ slack) buf_size (length pre) hdr =
        add_loop ((pre @ r) @ concat rs @ slack) buf_size (length (pre @ r)) (Some (length pre))"
      using lt reads False by (subst add_loop.simps) (simp add: eol_def)
    also have "\<dots> = Some (length ((pre @ r) @ concat (butlast rs)), Some (length ((pre @ r) @ concat (butlast rs))))"
      using Cons.prems(2) by (intro Cons.IH [OF area(1)]) simp
    finally show ?thesis using area(2) by simp
  qed
qed

lemma length_10E:
  assumes "length xs = 10"
  obtains b0 b1 b2 b3 b4 b5 b6 b7 b8 b9 where "xs = [b0,b1,b2,b3,b4,b5,b6,b7,b8,b9]"
proof -
  obtain b0 b1 b2 b3 b4 ys where xs: "xs = [b0,b1,b2,b3,b4] @ ys" "length ys = 5"
    using assms by (auto simp: length_Suc_conv numeral_eq_Suc)
  moreover obtain b5 b6 b7 b8 b9 where "ys = [b5,b6,b7,b8,b9]"
    using xs(2) by (auto simp: length_Suc_conv numeral_eq_Suc)
  ultimately show thesis using that by simp
qed

text \<open>Writing the new record over 34 bytes that follow \<open>P\<close>.\<close>

definition write_slac :: "shelf_ip_info \<Rightarrow> nat \<Rightarrow> u8 list \<Rightarrow> u8 list option" where
  "write_slac info cur buf = do {
     buf \<leftarrow> mem_put buf (cur + sizeof_picmg_header) (info_bytes info);
     buf \<leftarrow> mem_put buf (cur + manufacturer_id) SLAC_OEM_MANUFACTURER_ID;
     buf \<leftarrow> wr buf (cur + picmg_record_id) 0x01;
     buf \<leftarrow> wr buf (cur + picmg_format_version) 0x00;
     buf \<leftarrow> wr buf (cur + record_id) PICMG_OEM_RECORD_ID;
     buf \<leftarrow> wr buf (cur + eol_format) 0x82;
     buf \<leftarrow> wr buf (cur + record_len)
              (of_nat (sizeof_shelf_ip_info + (sizeof_picmg_header - sizeof_ipmi_header)));
     len \<leftarrow> rd buf (cur + record_len);
     record_data \<leftarrow> mem_read buf (cur + sizeof_ipmi_header) (unat len);
     buf \<leftarrow> wr buf (cur + record_chk) (chk_byte record_data);
     header \<leftarrow> mem_read buf cur 4;
     wr buf (cur + header_chk) (chk_byte header) }"

lemma write_slac_value:
  assumes "length gap = 34"
  shows "write_slac info (length P) (P @ gap @ rest) = Some (P @ slac_record info @ rest)"
proof -
  obtain b0 b1 b2 b3 b4 b5 b6 b7 b8 b9 tl where gap: "gap = [b0,b1,b2,b3,b4,b5,b6,b7,b8,b9] @ tl"
    and tl: "length tl = 24"
  proof -
    have "gap = take 10 gap @ drop 10 gap" by simp
    moreover have "length (take 10 gap) = 10" using assms by simp
    then obtain b0 b1 b2 b3 b4 b5 b6 b7 b8 b9 where "take 10 gap = [b0,b1,b2,b3,b4,b5,b6,b7,b8,b9]"
      by (rule length_10E)
    ultimately show thesis using assms that [of b0 b1 b2 b3 b4 b5 b6 b7 b8 b9 "drop 10 gap"] by simp
  qed
  have info: "mem_put (P @ gap @ rest) (length P + 10) (info_bytes info) =
      Some (P @ [b0,b1,b2,b3,b4,b5,b6,b7,b8,b9] @ info_bytes info @ rest)"
    by (simp add: mem_put_def gap tl)
  let ?I = "info_bytes info"
  have wrh: "wr (P @ hd @ X) (length P + i) v = Some (P @ hd[i := v] @ X)"
    if "length hd = 10" "i < 10" for hd X i v
    using that by (intro wr_prefix) simp
  have mfr: "mem_put (P @ [b0,b1,b2,b3,b4,b5,b6,b7,b8,b9] @ X) (length P + 5) [0x50,0x9D,0] =
      Some (P @ [b0,b1,b2,b3,b4,0x50,0x9D,0,b8,b9] @ X)" for X
    by (simp add: mem_put_def)
  define h1 :: "u8 list" where "h1 = [b0,b1,b2,b3,b4,0x50,0x9D,0,b8,b9]"
  define h2 where "h2 = h1[8 := 1, 9 := 0, 0 := 0xC0, 1 := 0x82, 2 := 29]"
  have h2: "h2 = [0xC0, 0x82, 29, b3, b4, 0x50, 0x9D, 0, 1, 0]" by (simp add: h2_def h1_def)
  define data where "data = [0x50, 0x9D, 0x00, 0x01, 0x00] @ ?I"
  have h1': "length h1 = 10" "length h2 = 10" by (simp_all add: h1_def h2_def)
  have len: "rd (P @ h2 @ ?I @ rest) (length P + 2) = Some 29"
    using h1' rd_cong_prefix [of 2 h2 P "?I @ rest"] by (simp add: h2)
  have dat: "mem_read (P @ h2 @ ?I @ rest) (length P + 5) 29 = Some data"
    by (simp add: mem_read_def h2 data_def)
  define h3 where "h3 = h2[3 := chk_byte data]"
  have hdr: "mem_read (P @ h3 @ ?I @ rest) (length P) 4 = Some [0xC0, 0x82, 29, chk_byte data]"
    by (simp add: mem_read_def h3_def h2)
  have fin: "P @ h3[4 := chk_byte [0xC0, 0x82, 29, chk_byte data]] @ ?I @ rest = P @ slac_record info @ rest"
    by (simp add: h3_def h2 slac_record_def Let_def data_def)
  have h3': "length h3 = 10" by (simp add: h3_def h1')
  have u29: "unat (29 :: u8) = 29" "(of_nat (24 + (10 - 5)) :: u8) = 29" by simp_all
  have ten: "0 < (10::nat)" "1 < (10::nat)" "2 < (10::nat)" "3 < (10::nat)" "4 < (10::nat)"
    "8 < (10::nat)" "9 < (10::nat)" by simp_all
  show ?thesis
    unfolding write_slac_def field_defs
    by (simp only: gap append_assoc info [unfolded gap append_assoc] mfr h1_def [symmetric] bind.simps
        wrh length_list_update h1' h3' ten u29 h2_def [symmetric] len dat h3_def [symmetric] hdr fin
        add_0_right wrh [of _ 0, unfolded add_0_right])
qed

lemma add_area:
  assumes area: "is_area rs" and size: "length (concat rs) \<le> unat buf_size" and gap: "length gap = 34"
  shows "add_slac_shelf_ip_info info (concat rs @ gap @ rest) buf_size =
    Some (concat (butlast rs @ [clear_eol (last rs), slac_record info]) @ rest, buf_size + 34)"
proof -
  let ?P = "concat (butlast rs)" and ?l = "last rs"
  have ne: "rs \<noteq> []" using area by (simp add: is_area_def)
  have rs: "rs = butlast rs @ [?l]" using ne by simp
  then have cat: "concat rs = ?P @ ?l" by (metis append_Nil2 concat.simps concat_append)
  have l: "is_rec ?l" using area ne by (simp add: is_area_def list_all_iff)
  note len = is_recD(1) [OF l]
  have loop: "add_loop (?P @ ?l @ gap @ rest) buf_size 0 None = Some (length ?P, Some (length ?P))"
    using add_loop_area [OF area, of "[]" buf_size "gap @ rest" None] size by (simp add: cat)
  define l1 where "l1 = ?l[1 := ?l ! 1 AND 0x7f]"
  have l1: "l1 ! 4 = ?l ! 4" "length l1 = length ?l" "l1[4 := ?l ! 4 + 0x80] = clear_eol ?l"
    by (simp_all add: l1_def clear_eol_def)
  have w1: "wr (?P @ ?l @ gap @ rest) (length ?P + 1) (?l ! 1 AND 0x7f) = Some (?P @ l1 @ gap @ rest)"
    unfolding l1_def using len by (intro wr_prefix) simp
  have r4: "rd (?P @ l1 @ gap @ rest) (length ?P + 4) = Some (?l ! 4)"
    using len l1 rd_cong_prefix [of 4 l1 ?P "gap @ rest"] by simp
  have w4: "wr (?P @ l1 @ gap @ rest) (length ?P + 4) (?l ! 4 + 0x80) = Some (?P @ clear_eol ?l @ gap @ rest)"
    using len l1 wr_prefix [of 4 l1 ?P "gap @ rest"] by simp
  have c: "is_rec (clear_eol ?l)" using l by simp
  have "unat (?l ! 2) + sizeof_ipmi_header = length ?l" using rec_size [OF l] by simp
  moreover have "clear_eol ?l ! 2 = ?l ! 2" by (simp add: clear_eol_def)
  ultimately have cur: "length ?P + (unat (clear_eol ?l ! 2) + sizeof_ipmi_header) = length (?P @ clear_eol ?l)"
    by simp
  have "add_slac_shelf_ip_info info (concat rs @ gap @ rest) buf_size =
     Option.bind (write_slac info (length (?P @ clear_eol ?l)) ((?P @ clear_eol ?l) @ gap @ rest))
       (\<lambda>buf. Some (buf, buf_size + 34))"
    using loop rec_reads [OF l, of ?P "gap @ rest"] rec_reads(2) [OF c, of ?P "gap @ rest"] w1 r4 w4 cur
    unfolding add_slac_shelf_ip_info_def write_slac_def Let_def
    by (simp add: cat eol_format_def header_chk_def sizeof_picmg_header_def sizeof_shelf_ip_info_def
        del: append_assoc) (simp add: append_assoc)
  then show ?thesis
    using write_slac_value [OF gap, of info "?P @ clear_eol ?l" rest] by simp
qed

subsection \<open>Removing\<close>

lemma remove_loop_skip:
  assumes "list_all is_rec as" "list_all (\<lambda>r. \<not> slac r \<and> \<not> eol r) as"
    and "length (pre @ concat as) \<le> unat buf_size"
  shows "remove_loop (pre @ concat as @ post) buf_size (length pre) dst prv False ns =
    remove_loop (pre @ concat as @ post) buf_size (length (pre @ concat as)) dst
      (if as = [] then prv else Some (length (pre @ concat (butlast as)))) False ns"
  using assms
proof (induction "as" arbitrary: pre prv)
  case Nil
  then show ?case by simp
next
  case (Cons r rs)
  have r: "is_rec r" "\<not> slac r" "\<not> eol r" using Cons.prems by auto
  note reads = rec_reads [OF r(1), of pre "concat rs @ post"] rec_size [OF r(1)]
    is_slac_at [OF r(1), of pre "concat rs @ post"]
  have lt: "length pre < unat buf_size" using Cons.prems(3) is_recD(1) [OF r(1)] by simp
  have "remove_loop (pre @ concat (r # rs) @ post) buf_size (length pre) dst prv False ns =
      remove_loop ((pre @ r) @ concat rs @ post) buf_size (length (pre @ r)) dst (Some (length pre)) False ns"
    using lt reads r by (subst remove_loop.simps) (simp add: eol_def Let_def)
  also have "\<dots> = remove_loop ((pre @ r) @ concat rs @ post) buf_size (length ((pre @ r) @ concat rs)) dst
      (if rs = [] then Some (length pre) else Some (length ((pre @ r) @ concat (butlast rs)))) False ns"
    using Cons.prems by (intro Cons.IH) simp_all
  finally show ?case by (cases "rs = []") simp_all
qed

lemma remove_loop_stop:
  assumes "is_rec r" "\<not> slac r" "eol r" "length pre < unat buf_size"
  shows "remove_loop (pre @ r @ post) buf_size (length pre) dst prv False ns =
    Some (pre @ r @ post, prv, False, False, ns)"
  using assms rec_reads [OF assms(1), of pre post] is_slac_at [OF assms(1), of pre post]
  by (subst remove_loop.simps) (simp add: eol_def Let_def)

lemma remove_loop_found:
  assumes "is_rec s" "slac s" "length pre < unat buf_size"
  shows "remove_loop (pre @ s @ post) buf_size (length pre) dst prv move ns =
    (if eol s then Some (pre @ s @ post, prv, True, True, buf_size - of_nat (length s))
     else remove_loop (pre @ s @ post) buf_size (length pre + length s) (length pre) (Some (length pre)) True
            (buf_size - of_nat (length s)))"
  using assms rec_reads [OF assms(1), of pre post] is_slac_at [OF assms(1), of pre post] rec_size [OF assms(1)]
  by (subst remove_loop.simps) (simp add: eol_def Let_def)

lemma remove_loop_move:
  assumes "list_all is_rec bs" "list_all (\<lambda>r. \<not> slac r) bs" "gap \<noteq> []"
    and "unat buf_size = length (P @ gap @ concat bs)"
  shows "\<exists>gap'. length gap' = length gap \<and>
    remove_loop (P @ gap @ concat bs @ post) buf_size (length P + length gap) (length P) prv True ns =
      (if list_all (\<lambda>b. length b \<le> length gap) bs
       then Some (P @ concat bs @ gap' @ post, prv, True, False, ns) else None)"
  using assms
proof (induction bs arbitrary: P gap)
  case Nil
  then show ?case by (intro exI [of _ gap]) (subst remove_loop.simps, simp)
next
  case (Cons b bs)
  have b: "is_rec b" "\<not> slac b" using Cons.prems by auto
  note reads = rec_reads [OF b(1), of "P @ gap" "concat bs @ post"] rec_size [OF b(1)]
    is_slac_at [OF b(1), of "P @ gap" "concat bs @ post"]
  have lt: "length P + length gap < unat buf_size" using Cons.prems(4) rec_size(2) [OF b(1)] by auto
  have step: "remove_loop (P @ gap @ concat (b # bs) @ post) buf_size (length P + length gap) (length P) prv True ns =
      Option.bind (mem_copy (P @ gap @ b @ concat bs @ post) (length P) (length P + length gap) (length b))
        (\<lambda>buf. remove_loop buf buf_size (length P + length gap + length b) (length P + length b) prv True ns)"
    using lt reads b by (subst remove_loop.simps) (simp add: Let_def)
  show ?case
  proof (cases "length b \<le> length gap")
    case True
    let ?gap = "drop (length b) (gap @ b)"
    have copy: "mem_copy (P @ gap @ b @ concat bs @ post) (length P) (length P + length gap) (length b) =
        Some ((P @ b) @ ?gap @ concat bs @ post)"
      using mem_copy_down [OF True, of P "concat bs @ post"] by simp
    have len: "length ?gap = length gap" using True by simp
    have size: "unat buf_size = length ((P @ b) @ ?gap @ concat bs)" using Cons.prems(4) len by simp
    have "?gap \<noteq> []" using len Cons.prems(3) by (metis length_0_conv)
    then obtain gap' where "length gap' = length ?gap"
      "remove_loop ((P @ b) @ ?gap @ concat bs @ post) buf_size (length (P @ b) + length ?gap) (length (P @ b)) prv True ns =
        (if list_all (\<lambda>b. length b \<le> length ?gap) bs
         then Some ((P @ b) @ concat bs @ gap' @ post, prv, True, False, ns) else None)"
      using Cons.IH [OF _ _ _ size] Cons.prems(1,2) by auto
    then show ?thesis
      using True unfolding step copy len by (intro exI [of _ gap']) (simp add: ac_simps)
  next
    case False
    then have "mem_copy (P @ gap @ b @ concat bs @ post) (length P) (length P + length gap) (length b) = None"
      by (intro mem_copy_overlap) auto
    then show ?thesis unfolding step using False by (intro exI [of _ gap]) simp
  qed
qed

lemma is_area_split:
  assumes "is_area (as @ s # bs)"
  shows "list_all is_rec as" "is_rec s" "list_all is_rec bs" "list_all (\<lambda>r. \<not> eol r) as"
    "bs = [] \<longleftrightarrow> eol s" "bs \<noteq> [] \<Longrightarrow> is_area bs"
proof -
  show "list_all is_rec as" "is_rec s" "list_all is_rec bs" using assms by (simp_all add: is_area_def)
  show "list_all (\<lambda>r. \<not> eol r) as" using assms by (simp add: is_area_def butlast_append)
  show "bs = [] \<longleftrightarrow> eol s" using assms by (cases "bs = []") (auto simp: is_area_def butlast_append)
  show "bs \<noteq> [] \<Longrightarrow> is_area bs" using assms by (auto simp: is_area_def butlast_append)
qed

lemma remove_absent:
  assumes area: "is_area rs" and none: "list_all (\<lambda>r. \<not> slac r) rs" and size: "length (concat rs) \<le> unat buf_size"
  shows "remove_slac_shelf_ip_record (concat rs @ slack) buf_size = Some (1, concat rs @ slack, buf_size)"
proof -
  have rs: "rs = butlast rs @ [last rs]" using area by (simp add: is_area_def)
  have cat: "concat rs = concat (butlast rs) @ last rs"
    by (subst rs, subst concat_append) simp
  have l: "is_rec (last rs)" "\<not> slac (last rs)" "eol (last rs)"
    using area none by (auto simp: is_area_def list_all_iff)
  have sub: "\<forall>r \<in> set (butlast rs). r \<in> set rs" by (auto dest: in_set_butlastD)
  have b: "list_all is_rec (butlast rs)" "list_all (\<lambda>r. \<not> slac r \<and> \<not> eol r) (butlast rs)"
    using area none sub by (auto simp: is_area_def list_all_iff)
  have lt: "length (concat (butlast rs)) < unat buf_size" using size is_recD(1) [OF l(1)] by (simp add: cat)
  have "remove_loop (concat rs @ slack) buf_size 0 0 None False buf_size =
      Some (concat rs @ slack, if butlast rs = [] then None else Some (length (concat (butlast (butlast rs)))), False, False, buf_size)"
    using remove_loop_skip [OF b, of "[]" buf_size "last rs @ slack" 0 None buf_size] lt
      remove_loop_stop [OF l lt, of slack] by (simp add: cat)
  then show ?thesis by (simp add: remove_slac_shelf_ip_record_def)
qed

lemma remove_last:
  assumes area: "is_area (as @ [s])" and ns: "list_all (\<lambda>r. \<not> slac r) as" and s: "slac s"
    and size: "length (concat (as @ [s])) \<le> unat buf_size"
  shows "remove_slac_shelf_ip_record (concat (as @ [s]) @ slack) buf_size =
    (if as = [] then None
     else Some (0, concat (butlast as @ [set_eol (last as)]) @ s @ slack, buf_size - of_nat (length s)))"
proof -
  note sp = is_area_split [OF area]
  have b: "list_all (\<lambda>r. \<not> slac r \<and> \<not> eol r) as" using ns sp(4) by (auto simp: list_all_iff)
  have lt: "length (concat as) < unat buf_size" using size is_recD(1) [OF sp(2)] by simp
  have loop: "remove_loop (concat as @ s @ slack) buf_size 0 0 None False buf_size =
      Some (concat as @ s @ slack, if as = [] then None else Some (length (concat (butlast as))), True, True,
            buf_size - of_nat (length s))"
    using remove_loop_skip [OF sp(1) b, of "[]" buf_size "s @ slack" 0 None buf_size] lt sp(5)
      remove_loop_found [OF sp(2) s lt, of slack] by simp
  show ?thesis
  proof (cases "as = []")
    case True
    then show ?thesis using loop by (simp add: remove_slac_shelf_ip_record_def)
  next
    case False
    let ?P = "concat (butlast as)" and ?l = "last as"
    have "as = butlast as @ [?l]" using False by simp
    then have cat: "concat as = ?P @ ?l" by (metis append_Nil2 concat.simps concat_append)
    have l: "is_rec ?l" using sp(1) False by (auto simp: list_all_iff)
    note len = is_recD(1) [OF l]
    define l1 where "l1 = ?l[1 := ?l ! 1 OR 0x80]"
    have l1: "l1 ! 4 = ?l ! 4" "length l1 = length ?l" "l1[4 := ?l ! 4 - 0x80] = set_eol ?l"
      by (simp_all add: l1_def set_eol_def)
    have w1: "wr (?P @ ?l @ s @ slack) (length ?P + eol_format) (?l ! 1 OR 0x80) = Some (?P @ l1 @ s @ slack)"
      unfolding l1_def eol_format_def using len by (intro wr_prefix) simp
    have r4: "rd (?P @ l1 @ s @ slack) (length ?P + header_chk) = Some (?l ! 4)"
      using len l1 rd_cong_prefix [of 4 l1 ?P "s @ slack"] by (simp add: header_chk_def)
    have w4: "wr (?P @ l1 @ s @ slack) (length ?P + header_chk) (?l ! 4 - 0x80) = Some (?P @ set_eol ?l @ s @ slack)"
      using len l1 wr_prefix [of 4 l1 ?P "s @ slack"] by (simp add: header_chk_def)
    show ?thesis
      using loop False rec_reads(1) [OF l, of ?P "s @ slack"] w1 r4 w4
      by (simp add: remove_slac_shelf_ip_record_def cat)
  qed
qed

lemma remove_middle:
  assumes area: "is_area (as @ s # bs)" and ns: "list_all (\<lambda>r. \<not> slac r) as" "list_all (\<lambda>r. \<not> slac r) bs"
    and s: "slac s" and bs: "bs \<noteq> []" and size: "length (concat (as @ s # bs)) = unat buf_size"
  shows "\<exists>gap. length gap = length s \<and>
    remove_slac_shelf_ip_record (concat (as @ s # bs) @ slack) buf_size =
    (if list_all (\<lambda>b. length b \<le> length s) bs
     then Some (0, concat (as @ bs) @ gap @ slack, buf_size - of_nat (length s)) else None)"
proof -
  note sp = is_area_split [OF area]
  have b: "list_all (\<lambda>r. \<not> slac r \<and> \<not> eol r) as" using ns sp(4) by (auto simp: list_all_iff)
  have lt: "length (concat as) < unat buf_size" using size is_recD(1) [OF sp(2)] by simp
  have sne: "s \<noteq> []" using is_recD(1) [OF sp(2)] by auto
  have "\<not> eol s" using sp(5) bs by simp
  then have loop: "remove_loop (concat as @ s @ concat bs @ slack) buf_size 0 0 None False buf_size =
      remove_loop (concat as @ s @ concat bs @ slack) buf_size (length (concat as) + length s) (length (concat as))
        (Some (length (concat as))) True (buf_size - of_nat (length s))"
    using remove_loop_skip [OF sp(1) b, of "[]" buf_size "s @ concat bs @ slack" 0 None buf_size] lt
      remove_loop_found [OF sp(2) s lt, of "concat bs @ slack"] by simp
  have len: "unat buf_size = length (concat as @ s @ concat bs)" using size by simp
  obtain gap where "length gap = length s"
    "remove_loop (concat as @ s @ concat bs @ slack) buf_size (length (concat as) + length s) (length (concat as))
        (Some (length (concat as))) True (buf_size - of_nat (length s)) =
      (if list_all (\<lambda>b. length b \<le> length s) bs
       then Some (concat as @ concat bs @ gap @ slack, Some (length (concat as)), True, False, buf_size - of_nat (length s))
       else None)"
    using remove_loop_move [OF sp(3) ns(2) sne len] by blast
  then show ?thesis
    using loop by (intro exI [of _ gap]) (simp add: remove_slac_shelf_ip_record_def)
qed

subsection \<open>Reading the information back\<close>

lemma word_at_bytes: "word_at (P @ le_bytes w @ rest) (length P) = Some w"
  by (simp add: word_at_def le_bytes_def rd_def nth_append)

lemma read_info_bytes: "read_info (P @ info_bytes i @ rest) (length P) = Some i"
proof -
  have w: "word_at (P @ X @ le_bytes w @ Y) (length P + length X) = Some w" for X Y w
    using word_at_bytes [of "P @ X" w Y] by simp
  let ?v = "le_bytes (vlan i)" and ?g = "le_bytes (ingress i)" and ?b = "le_bytes (group_base i)"
    and ?e = "le_bytes (group_end i)" and ?m = "le_bytes (subnet_mask i)" and ?w = "le_bytes (gateway i)"
  note r = w [of "[]" "vlan i" "?g @ ?b @ ?e @ ?m @ ?w @ rest"]
    w [of ?v "ingress i" "?b @ ?e @ ?m @ ?w @ rest"]
    w [of "?v @ ?g" "group_base i" "?e @ ?m @ ?w @ rest"]
    w [of "?v @ ?g @ ?b" "group_end i" "?m @ ?w @ rest"]
    w [of "?v @ ?g @ ?b @ ?e" "subnet_mask i" "?w @ rest"]
    w [of "?v @ ?g @ ?b @ ?e @ ?m" "gateway i" rest]
  show ?thesis using r by (simp add: read_info_def info_bytes_def)
qed

lemma read_info_slac_record: "read_info (P @ slac_record i @ rest) (length P + sizeof_picmg_header) = Some i"
proof -
  obtain H where H: "slac_record i = H @ info_bytes i" "length H = 10"
    using that [of "take 10 (slac_record i)"] by (simp add: slac_record_def Let_def)
  show ?thesis using read_info_bytes [of "P @ H" i rest] H(2)
    unfolding H(1) sizeof_picmg_header_def by simp
qed

lemma added_area:
  assumes "is_area rs"
  shows "is_area (butlast rs @ [clear_eol (last rs), slac_record i])"
proof -
  have "rs \<noteq> []" "is_rec (last rs)" using assms by (auto simp: is_area_def list_all_iff)
  moreover have "\<forall>r \<in> set (butlast rs). r \<in> set rs" by (auto dest: in_set_butlastD)
  ultimately show ?thesis
    using assms eol_clear_eol by (auto simp: is_area_def list_all_iff butlast_append)
qed

lemma concat_last:
  "rs \<noteq> [] \<Longrightarrow> length (concat (butlast rs @ [clear_eol (last rs)])) = length (concat rs)"
  by (subst (5) append_butlast_last_id [symmetric]) (simp_all del: append_butlast_last_id)

lemma add_places_record:
  assumes area: "is_area rs" and size: "length (concat rs) \<le> unat buf_size" and gap: "length gap = 34"
  obtains buf' where "add_slac_shelf_ip_info info (concat rs @ gap @ rest) buf_size = Some (buf', buf_size + 34)"
    "buf' = concat (butlast rs @ [clear_eol (last rs), slac_record info]) @ rest"
    "buf' = concat (butlast rs @ [clear_eol (last rs)]) @ slac_record info @ rest"
  using add_area [OF assms, of info rest] that by simp

lemma takeWhile_added:
  assumes "list_all (\<lambda>r. \<not> slac r) rs" "is_area rs"
  shows "takeWhile (\<lambda>r. \<not> slac r) (butlast rs @ [clear_eol (last rs), slac_record i]) = butlast rs @ [clear_eol (last rs)]"
proof -
  have "rs \<noteq> []" using assms(2) by (auto simp: is_area_def)
  then have "list_all (\<lambda>r. \<not> slac r) (butlast rs @ [clear_eol (last rs)])"
    using assms(1) by (auto simp: list_all_iff dest: in_set_butlastD)
  then have "takeWhile (\<lambda>r. \<not> slac r) ((butlast rs @ [clear_eol (last rs)]) @ [slac_record i]) =
      (butlast rs @ [clear_eol (last rs)]) @ takeWhile (\<lambda>r. \<not> slac r) [slac_record i]"
    by (intro takeWhile_append2) (auto simp: list_all_iff)
  then show ?thesis by simp
qed

subsection \<open>Properties\<close>

text \<open>
  After \<open>add_slac_shelf_ip_info\<close> on a well-formed area without a SLAC record,
  \<open>find_shelf_ip_info_record\<close> returns exactly the place behind the old records, and the data
  read there is the information that was added.
\<close>

theorem add_then_find:
  assumes "is_area rs" and "list_all (\<lambda>r. \<not> slac r) rs" and "length (concat rs) \<le> unat buf_size"
    and "length gap = 34" and "unat buf_size + 34 < 2 ^ 16"
  shows "\<exists>buf'. add_slac_shelf_ip_info info (concat rs @ gap @ rest) buf_size = Some (buf', buf_size + 34) \<and>
     find_shelf_ip_info_record buf' (ucast (buf_size + 34)) = Some (Some (length (concat rs))) \<and>
     read_info buf' (length (concat rs) + sizeof_picmg_header) = Some info"
proof -
  let ?rs = "butlast rs @ [clear_eol (last rs), slac_record info]"
  obtain buf' where b: "add_slac_shelf_ip_info info (concat rs @ gap @ rest) buf_size = Some (buf', buf_size + 34)"
    "buf' = concat ?rs @ rest" "buf' = concat (butlast rs @ [clear_eol (last rs)]) @ slac_record info @ rest"
    using add_places_record [OF assms(1,3,4)] .
  have ne: "rs \<noteq> []" using assms(1) by (auto simp: is_area_def)
  have u: "unat (buf_size + 34) = unat buf_size + 34"
    using assms(5) by (subst unat_add_lem [THEN iffD1]) simp_all
  then have u16: "unat (ucast (buf_size + 34) :: u16) = unat buf_size + 34"
    using assms(5) by (simp add: unsigned_ucast_eq take_bit_nat_eq_self)
  have "length (concat ?rs) = length (concat rs) + 34"
    using concat_last [OF ne] by simp
  then have le: "length (concat ?rs) \<le> unat (ucast (buf_size + 34) :: u16)"
    unfolding u16 using assms(3) by simp
  have ex: "list_ex slac ?rs" by simp
  have "find_shelf_ip_info_record buf' (ucast (buf_size + 34)) = Some (Some (length (concat rs)))"
    unfolding b(2) find_area [OF added_area [OF assms(1)] le] takeWhile_added [OF assms(2,1)]
    using ex concat_last [OF ne] by simp
  moreover have "read_info buf' (length (concat rs) + sizeof_picmg_header) = Some info"
    unfolding b(3) concat_last [OF ne, symmetric] by (rule read_info_slac_record)
  ultimately show ?thesis using b(1) by blast
qed

definition sample_area :: "u8 list list" where
  "sample_area = [[1, 0, 1, 249, 5, 7], [0xC0, 0x80, 5, 0, 187, 1, 2, 3, 4, 246]]"

definition sample_info :: shelf_ip_info where
  "sample_info = \<lparr>vlan = 0x80000005, ingress = 3, group_base = 0x0100000A, group_end = 0x0900000A,
     subnet_mask = 0x00FFFFFF, gateway = 0\<rparr>"

lemma sample_area_ok:
  "is_area sample_area" "list_all (\<lambda>r. \<not> slac r) sample_area" "length (concat sample_area) = 16"
  "list_all header_ok sample_area" "list_all data_ok sample_area"
  by (simp_all add: sample_area_def is_area_def is_rec_def eol_def slac_def header_ok_def data_ok_def)

theorem add_then_find_witness:
  "\<exists>buf'. add_slac_shelf_ip_info sample_info (concat sample_area @ replicate 34 0 @ [1, 2, 3]) 16 = Some (buf', 16 + 34) \<and>
     find_shelf_ip_info_record buf' (ucast (16 + 34 :: u32)) = Some (Some 16) \<and>
     read_info buf' 26 = Some sample_info"
  using add_then_find [OF sample_area_ok(1,2), of 16 "replicate 34 0" sample_info "[1, 2, 3]"] sample_area_ok(3)
  by (simp add: sizeof_picmg_header_def)

text \<open>
  C26: \<open>add_slac_shelf_ip_info\<close> keeps the area well formed and its checksums right: the old
  last record loses its end-of-list bit with its header checksum adjusted, the new record
  ends the list, and both checksums of every record still sum to zero.
\<close>

theorem add_keeps_area_valid:
  assumes "is_area rs" and "list_all header_ok rs" and "list_all data_ok rs"
    and "length (concat rs) \<le> unat buf_size" and "length gap = 34"
  shows "\<exists>rs'. add_slac_shelf_ip_info info (concat rs @ gap @ rest) buf_size = Some (concat rs' @ rest, buf_size + 34) \<and>
     is_area rs' \<and> list_all header_ok rs' \<and> list_all data_ok rs' \<and>
     butlast (butlast rs') = butlast rs \<and> length rs' = Suc (length rs)"
proof -
  let ?rs = "butlast rs @ [clear_eol (last rs), slac_record info]"
  have ne: "rs \<noteq> []" and l: "is_rec (last rs)" "eol (last rs)"
    using assms(1) by (auto simp: is_area_def list_all_iff)
  have sub: "\<forall>r \<in> set (butlast rs). r \<in> set rs" by (auto dest: in_set_butlastD)
  have "list_all header_ok ?rs" "list_all data_ok ?rs"
    using assms(2,3) ne sub header_ok_eol(1) [OF l] data_ok_eol(1) [OF l(1)]
    by (auto simp: list_all_iff slac_record_checksums)
  moreover have "butlast (butlast ?rs) = butlast rs" by (simp add: butlast_append)
  ultimately show ?thesis
    using add_area [OF assms(1,4,5), of info rest] added_area [OF assms(1)] ne
    by (intro exI [of _ ?rs]) simp
qed

theorem add_keeps_area_valid_witness:
  "\<exists>rs'. add_slac_shelf_ip_info sample_info (concat sample_area @ replicate 34 0 @ [1, 2, 3]) 16 =
       Some (concat rs' @ [1, 2, 3], 16 + 34) \<and> is_area rs' \<and> list_all header_ok rs'"
  using add_keeps_area_valid [OF sample_area_ok(1,4,5), of 16 "replicate 34 0" sample_info "[1, 2, 3]"] sample_area_ok(3)
  by auto

text \<open>
  C27: removing the record that was just added restores every byte of the old area and its size.
\<close>

theorem remove_undoes_add:
  assumes "is_area rs" and "list_all (\<lambda>r. \<not> slac r) rs" and "length (concat rs) \<le> unat buf_size"
    and "length gap = 34" and "unat buf_size + 34 < 2 ^ 32"
  shows "\<exists>buf' junk. add_slac_shelf_ip_info info (concat rs @ gap @ rest) buf_size = Some (buf', buf_size + 34) \<and>
     remove_slac_shelf_ip_record buf' (buf_size + 34) = Some (0, concat rs @ junk @ rest, buf_size) \<and> length junk = 34"
proof -
  let ?os = "butlast rs @ [clear_eol (last rs)]"
  have ne: "rs \<noteq> []" and l: "is_rec (last rs)" "eol (last rs)"
    using assms(1) by (auto simp: is_area_def list_all_iff)
  have area: "is_area (?os @ [slac_record info])" using added_area [OF assms(1), of info] by simp
  have ns: "list_all (\<lambda>r. \<not> slac r) ?os"
    using assms(2) ne by (auto simp: list_all_iff dest: in_set_butlastD)
  have u: "unat (buf_size + 34) = unat buf_size + 34"
    using assms(5) by (subst unat_add_lem [THEN iffD1]) simp_all
  have le: "length (concat (?os @ [slac_record info])) \<le> unat (buf_size + 34)"
    unfolding u using assms(3) concat_last [OF ne] by simp
  have restored: "butlast ?os @ [set_eol (last ?os)] = rs" using ne set_clear_eol [OF l] by simp
  have "remove_slac_shelf_ip_record (concat (?os @ [slac_record info]) @ rest) (buf_size + 34) =
      Some (0, concat rs @ slac_record info @ rest, buf_size + 34 - of_nat 34)"
    using remove_last [OF area ns slac_record_is_rec(3) le, of rest] unfolding restored by simp
  then show ?thesis
    using add_area [OF assms(1,3,4), of info rest]
    by (intro exI [of _ "concat (?os @ [slac_record info]) @ rest"] exI [of _ "slac_record info"]) simp
qed

theorem remove_undoes_add_witness:
  "\<exists>buf' junk. add_slac_shelf_ip_info sample_info (concat sample_area @ replicate 34 0 @ [1, 2, 3]) 16 = Some (buf', 16 + 34) \<and>
     remove_slac_shelf_ip_record buf' (16 + 34) = Some (0, concat sample_area @ junk @ [1, 2, 3], 16) \<and> length junk = 34"
  using remove_undoes_add [OF sample_area_ok(1,2), of 16 "replicate 34 0" sample_info "[1, 2, 3]"] sample_area_ok(3)
  by simp

text \<open>
  What \<open>remove_slac_shelf_ip_record\<close> does to an area with one SLAC record \<open>s\<close>. The record
  goes, the others stay in order, and the end-of-list bit is moved when \<open>s\<close> carried it.
  The result is undefined exactly when \<open>s\<close> is the only record (the uninitialised
  \<open>prv_offset\<close> is used) or a later record is longer than \<open>s\<close> (\<^verbatim>\<open>memcpy\<close> on overlapping areas).
\<close>

theorem remove_outcome:
  assumes "is_area (as @ s # bs)" and "slac s"
    and "list_all (\<lambda>r. \<not> slac r) as" and "list_all (\<lambda>r. \<not> slac r) bs"
    and "length (concat (as @ s # bs)) = unat buf_size"
  shows "map_option (\<lambda>(ret, buf, size). (ret, take (unat size) buf, size))
       (remove_slac_shelf_ip_record (concat (as @ s # bs) @ slack) buf_size) =
    (if as @ bs = [] \<or> \<not> list_all (\<lambda>b. length b \<le> length s) bs then None
     else let rs = (if bs = [] then butlast as @ [set_eol (last as)] else as @ bs)
          in Some (0, concat rs, of_nat (length (concat rs))))"
proof -
  have size: "buf_size - of_nat (length s) = of_nat (length (concat (as @ bs)))"
  proof -
    have "buf_size = of_nat (length (concat (as @ s # bs)))" using assms(5) by (metis of_nat_unat ucast_id)
    then show ?thesis by simp
  qed
  have "length (concat (as @ bs)) < 2 ^ 32"
  proof -
    have "length (concat (as @ bs)) \<le> unat buf_size" using assms(5) by simp
    also have "\<dots> < 2 ^ 32" using unsigned_less [of buf_size, where 'a = nat] by simp
    finally show ?thesis .
  qed
  then have usize: "unat (of_nat (length (concat (as @ bs))) :: u32) = length (concat (as @ bs))"
    by (rule unat_of_nat_u32)
  show ?thesis
  proof (cases "bs = []")
    case True
    have le: "length (concat (as @ [s])) \<le> unat buf_size" and area: "is_area (as @ [s])"
      using assms(1,5) True by simp_all
    have len: "length (concat (butlast as @ [set_eol (last as)])) = length (concat as)" if "as \<noteq> []"
      using that by (subst (4) append_butlast_last_id [symmetric]) (simp_all del: append_butlast_last_id)
    show ?thesis
      using remove_last [OF area assms(3,2) le, of slack] True size usize len
      by (auto simp: Let_def)
  next
    case False
    show ?thesis
      using remove_middle [OF assms(1,3,4,2) False assms(5), of slack] False size usize
      by (auto simp: Let_def)
  qed
qed

definition sample_slac :: "u8 list" where
  "sample_slac = [0xC0, 0, 5, 0, 0, 0x50, 0x9D, 0, 1, 0]"

theorem remove_outcome_witness:
  "remove_slac_shelf_ip_record ([0xC0, 0x80, 5, 0, 0, 0x50, 0x9D, 0, 1, 0] @ [9, 9]) 10 = None \<and>
   map_option (\<lambda>(ret, buf, size). (ret, take (unat size) buf, size))
     (remove_slac_shelf_ip_record (concat (sample_slac # sample_area) @ [9, 9]) 26) =
   Some (0, concat sample_area, 16)"
proof -
  let ?e = "[0xC0, 0x80, 5, 0, 0, 0x50, 0x9D, 0, 1, 0] :: u8 list"
  have "is_area ([] @ ?e # [])" "slac ?e"
    by (simp_all add: is_area_def is_rec_def eol_def slac_def)
  from remove_outcome [OF this, of 10 "[9, 9]"]
  have 1: "remove_slac_shelf_ip_record (?e @ [9, 9]) 10 = None" by simp
  have "is_area ([] @ sample_slac # sample_area)" "slac sample_slac" "length sample_slac = 10"
    "list_all (\<lambda>b. length b \<le> 10) sample_area" "sample_area \<noteq> []"
    using sample_area_ok(1)
    by (simp_all add: is_area_def is_rec_def eol_def slac_def sample_slac_def sample_area_def)
  with remove_outcome [OF this(1,2), of 26 "[9, 9]"] sample_area_ok(2,3) 1 show ?thesis by simp
qed

end
