(* ===== verification/ShelfIpmi.thy ===== *)
theory ShelfIpmi
  imports ShelfRecords
begin

text \<open>
  The dialogue with the shelf manager, the IPMI half of
  \<^verbatim>\<open>service/shelf_fru/src/shelf_ip_info.c\<close>: opening the connection, the FRU lock, chunked
  reads and writes of the multirecord area. The FreeIPMI library is a parameter \<open>api\<close>: its
  calls are functions on an abstract context \<open>'c\<close> and its command numbers are fields. The
  state carries the context and, for the proofs, the log of what was sent.

  A result is \<open>None\<close> for undefined behaviour (an access outside of an object, the use of a
  byte no one wrote), \<open>Some (None, s)\<close> for the C return value \<open>-1\<close> and \<open>Some (Some x, s)\<close> for
  the return value \<open>0\<close> with the outputs \<open>x\<close>.
\<close>

subsection \<open>The library interface\<close>

record 'c ipmi_api =
  ipmi_ctx_create :: "'c \<Rightarrow> bool \<times> 'c"
  ipmi_ctx_open_outofband :: "string \<Rightarrow> 'c \<Rightarrow> bool \<times> 'c"
  ipmi_cmd_raw_ipmb :: "u8 \<Rightarrow> u8 list \<Rightarrow> 'c \<Rightarrow> bool \<times> u8 list \<times> 'c"
  IPMI_NET_FN_APP_RQ :: u8
  IPMI_NET_FN_STORAGE_RQ :: u8
  IPMI_NET_FN_GROUP_EXTENSION_RQ :: u8
  IPMI_CMD_COLD_RESET :: u8
  IPMI_CMD_GET_FRU_INVENTORY_AREA_INFO :: u8
  IPMI_CMD_READ_FRU_DATA :: u8

datatype bus_event = Opened string | Request u8 "u8 list" | Closed

record 'c bus =
  world :: 'c
  sent :: "bus_event list"

text \<open>One raw command: error flag, the response bytes that fit the caller's buffer.\<close>

definition send_raw :: "'c ipmi_api \<Rightarrow> u8 \<Rightarrow> u8 list \<Rightarrow> nat \<Rightarrow> 'c bus \<Rightarrow> bool \<times> u8 list \<times> 'c bus" where
  "send_raw api netfn rq cap s =
     (let (err, rs, c) = ipmi_cmd_raw_ipmb api netfn rq (world s)
      in (err, take cap rs, s\<lparr>world := c, sent := sent s @ [Request netfn rq]\<rparr>))"

text \<open>A response received into a buffer of \<open>n\<close> zero bytes.\<close>

definition overlay_zero :: "nat \<Rightarrow> u8 list \<Rightarrow> u8 list" where
  "overlay_zero n rs = take n rs @ replicate (n - length rs) 0"

definition on_ok :: "('a option \<times> 's) option \<Rightarrow> ('a \<Rightarrow> 's \<Rightarrow> ('b option \<times> 's) option) \<Rightarrow> ('b option \<times> 's) option" where
  "on_ok m f = (case m of None \<Rightarrow> None | Some (None, s) \<Rightarrow> Some (None, s) | Some (Some x, s) \<Rightarrow> f x s)"

lemma on_ok_simps [simp]:
  "on_ok None f = None" "on_ok (Some (None, s)) f = Some (None, s)" "on_ok (Some (Some x, s)) f = f x s"
  by (simp_all add: on_ok_def)

subsection \<open>Constants\<close>

definition PICMG_CMD_FRU_INVENTORY_DEVICE_LOCK_CONTROL :: u8 where
  "PICMG_CMD_FRU_INVENTORY_DEVICE_LOCK_CONTROL = 0x1f"
definition PICMG_CMD_FRU_INVENTORY_DEVICE_WRITE :: u8 where
  "PICMG_CMD_FRU_INVENTORY_DEVICE_WRITE = 0x20"
definition PICMG_DEFINING_BODY_ID :: u8 where "PICMG_DEFINING_BODY_ID = 0"
definition SHELF_FRU_INFORMATION_FRU_ID :: u8 where "SHELF_FRU_INFORMATION_FRU_ID = 254"

datatype lock_op = OP_TIMESTAMP | OP_LOCK | OP_DISCARD | OP_COMMIT

fun op_code :: "lock_op \<Rightarrow> u8" where
  "op_code OP_TIMESTAMP = 0"
| "op_code OP_LOCK = 1"
| "op_code OP_DISCARD = 2"
| "op_code OP_COMMIT = 3"

text \<open>The request structures as the bytes that are sent.\<close>

definition lock_rq :: "lock_op \<Rightarrow> u16 \<Rightarrow> u8 list" where
  "lock_rq operation lock_id =
     [PICMG_CMD_FRU_INVENTORY_DEVICE_LOCK_CONTROL, PICMG_DEFINING_BODY_ID, SHELF_FRU_INFORMATION_FRU_ID,
      op_code operation] @ le_bytes16 lock_id"

definition read_rq :: "'c ipmi_api \<Rightarrow> u16 \<Rightarrow> u8 \<Rightarrow> u8 list" where
  "read_rq api offset count =
     [IPMI_CMD_READ_FRU_DATA api, SHELF_FRU_INFORMATION_FRU_ID] @ le_bytes16 offset @ [count]"

definition write_rq :: "u16 \<Rightarrow> u16 \<Rightarrow> u8 list \<Rightarrow> u8 list" where
  "write_rq lock_id offset data =
     [PICMG_CMD_FRU_INVENTORY_DEVICE_WRITE, PICMG_DEFINING_BODY_ID, SHELF_FRU_INFORMATION_FRU_ID] @
     le_bytes16 lock_id @ le_bytes16 offset @ data"

subsection \<open>The operations\<close>

definition close_lan :: "'c bus \<Rightarrow> 'c bus" where
  "close_lan s = s\<lparr>sent := sent s @ [Closed]\<rparr>"

text \<open>\<open>open_lan\<close> returns whether it has a context (a pointer other than \<^verbatim>\<open>NULL\<close>).\<close>

definition open_lan :: "'c ipmi_api \<Rightarrow> string \<Rightarrow> 'c bus \<Rightarrow> bool \<times> 'c bus" where
  "open_lan api hostname s =
     (let (created, c) = ipmi_ctx_create api (world s);
          s = s\<lparr>world := c\<rparr>
      in if \<not> created then (False, close_lan s)
         else let (opened, c) = ipmi_ctx_open_outofband api hostname (world s);
                  s = s\<lparr>world := c, sent := sent s @ [Opened hostname]\<rparr>
              in if \<not> opened then (False, close_lan s) else (True, s))"

definition reset_shelf_manager :: "'c ipmi_api \<Rightarrow> 'c bus \<Rightarrow> (unit option \<times> 'c bus) option" where
  "reset_shelf_manager api s =
     (let (err, rs, s) = send_raw api (IPMI_NET_FN_APP_RQ api) [IPMI_CMD_COLD_RESET api] 5 s
      in if err then Some (None, s)
         else do { c \<leftarrow> rd rs 1; if c \<noteq> 0 then Some (None, s) else Some (Some (), s) })"

definition get_shelf_fru_info_size :: "'c ipmi_api \<Rightarrow> 'c bus \<Rightarrow> (u32 option \<times> 'c bus) option" where
  "get_shelf_fru_info_size api s =
     (let (err, rs, s) = send_raw api (IPMI_NET_FN_STORAGE_RQ api)
            [IPMI_CMD_GET_FRU_INVENTORY_AREA_INFO api, SHELF_FRU_INFORMATION_FRU_ID] 5 s;
          rs = overlay_zero 5 rs
      in if err \<or> rs ! 1 \<noteq> 0 then Some (None, s)
         else Some (Some (ucast (le_half (rs ! 2) (rs ! 3))), s))"

text \<open>The outputs are the lock id and the timestamp; the response structure starts uninitialised.\<close>

definition get_shelf_fru_info_lock ::
    "'c ipmi_api \<Rightarrow> lock_op \<Rightarrow> u16 \<Rightarrow> 'c bus \<Rightarrow> ((u16 \<times> u32) option \<times> 'c bus) option" where
  "get_shelf_fru_info_lock api operation lock_id s =
     (let (err, rs, s) = send_raw api (IPMI_NET_FN_GROUP_EXTENSION_RQ api) (lock_rq operation lock_id) 9 s
      in if err then Some (None, s)
         else do {
           c \<leftarrow> rd rs 1;
           if c \<noteq> 0 then Some (None, s)
           else do {
             timestamp \<leftarrow> word_at rs 5;
             lo \<leftarrow> rd rs 3; hi \<leftarrow> rd rs 4;
             Some (Some (le_half lo hi, timestamp), s) } })"

text \<open>
  \<open>dest\<close> is the object that is read into and \<open>dst\<close> the offset in it; the number of bytes
  copied is the count of the response.
\<close>

definition read_shelf_fru_data ::
    "'c ipmi_api \<Rightarrow> u16 \<Rightarrow> u8 \<Rightarrow> u8 list \<Rightarrow> nat \<Rightarrow> 'c bus \<Rightarrow> (u8 list option \<times> 'c bus) option" where
  "read_shelf_fru_data api offset count dest dst s =
     (let (err, rs, s) = send_raw api (IPMI_NET_FN_STORAGE_RQ api) (read_rq api offset count) 255 s;
          buf = overlay_zero 255 rs
      in if err \<or> buf ! 1 \<noteq> 0 then Some (None, s)
         else do {
           data \<leftarrow> mem_read buf 3 (unat (buf ! 2));
           dest \<leftarrow> mem_put dest dst data;
           Some (Some dest, s) })"

definition write_shelf_fru_data ::
    "'c ipmi_api \<Rightarrow> u16 \<Rightarrow> u16 \<Rightarrow> u8 \<Rightarrow> u8 list \<Rightarrow> nat \<Rightarrow> 'c bus \<Rightarrow> (unit option \<times> 'c bus) option" where
  "write_shelf_fru_data api lock_id offset count src pos s = do {
     data \<leftarrow> mem_read src pos (unat count);
     if 255 < 7 + unat count then None else
     let (err, rs, s) = send_raw api (IPMI_NET_FN_GROUP_EXTENSION_RQ api) (write_rq lock_id offset data) 4 s
     in if err then Some (None, s)
        else do { c \<leftarrow> rd rs 1; if c \<noteq> 0 then Some (None, s) else Some (Some (), s) } }"

definition multirecord_area_offset :: nat where "multirecord_area_offset = 5"

text \<open>The read loop; it returns the buffer and \<open>dst_offset\<close>.\<close>

function fetch_loop ::
    "'c ipmi_api \<Rightarrow> nat \<Rightarrow> nat \<Rightarrow> nat \<Rightarrow> u8 list \<Rightarrow> 'c bus \<Rightarrow> ((u8 list \<times> nat) option \<times> 'c bus) option" where
  "fetch_loop api fru_size src_offset dst_offset buffer s =
     (if src_offset < fru_size then
        let to_read = (if src_offset + 16 < fru_size then 16 else fru_size - src_offset)
        in on_ok (read_shelf_fru_data api (of_nat src_offset) (of_nat to_read) buffer dst_offset s)
             (\<lambda>buffer s. fetch_loop api fru_size (src_offset + to_read) (dst_offset + to_read) buffer s)
      else Some (Some (buffer, dst_offset), s))"
  by pat_completeness auto
termination
  by (relation "measure (\<lambda>(api, fru_size, src_offset, dst_offset, buffer, s). fru_size - src_offset)") auto

declare fetch_loop.simps [simp del]

definition fetch_shelf_fru_multirecord_area ::
    "'c ipmi_api \<Rightarrow> u8 list \<Rightarrow> 'c bus \<Rightarrow> ((u8 list \<times> u32) option \<times> 'c bus) option" where
  "fetch_shelf_fru_multirecord_area api buffer s =
     on_ok (get_shelf_fru_info_size api s) (\<lambda>fru_size s.
     on_ok (read_shelf_fru_data api 0 8 (replicate 9 0) 0 s) (\<lambda>hdr s.
     on_ok (fetch_loop api (unat fru_size) (unat (hdr ! multirecord_area_offset) * 8) 0 buffer s)
       (\<lambda>(buffer, dst_offset) s. Some (Some (buffer, of_nat dst_offset), s))))"

function write_loop ::
    "'c ipmi_api \<Rightarrow> u16 \<Rightarrow> nat \<Rightarrow> nat \<Rightarrow> nat \<Rightarrow> u8 list \<Rightarrow> 'c bus \<Rightarrow> (unit option \<times> 'c bus) option" where
  "write_loop api lock_id buf_size src_offset dst_offset buf s =
     (if src_offset < buf_size then
        let to_write = (if src_offset + 16 < buf_size then 16 else buf_size - src_offset)
        in on_ok (write_shelf_fru_data api lock_id (of_nat dst_offset) (of_nat to_write) buf src_offset s)
             (\<lambda>_ s. write_loop api lock_id buf_size (src_offset + to_write) (dst_offset + to_write) buf s)
      else Some (Some (), s))"
  by pat_completeness auto
termination
  by (relation "measure (\<lambda>(api, lock_id, buf_size, src_offset, dst_offset, buf, s). buf_size - src_offset)") auto

declare write_loop.simps [simp del]

definition write_shelf_fru_multirecord_area ::
    "'c ipmi_api \<Rightarrow> u32 \<Rightarrow> u8 list \<Rightarrow> u32 \<Rightarrow> 'c bus \<Rightarrow> (unit option \<times> 'c bus) option" where
  "write_shelf_fru_multirecord_area api read_timestamp buf buf_size s =
     on_ok (read_shelf_fru_data api 0 8 (replicate 8 0) 0 s) (\<lambda>hdr s.
     on_ok (get_shelf_fru_info_lock api OP_LOCK 0 s) (\<lambda>(lock_id, timestamp) s.
     if timestamp \<noteq> read_timestamp
     then (case get_shelf_fru_info_lock api OP_DISCARD lock_id s of
             None \<Rightarrow> None | Some (_, s) \<Rightarrow> Some (None, s))
     else on_ok (write_loop api lock_id (unat buf_size) 0 (unat (hdr ! multirecord_area_offset) * 8) buf s) (\<lambda>_ s.
          on_ok (get_shelf_fru_info_lock api OP_COMMIT lock_id s) (\<lambda>_ s. Some (Some (), s)))))"

subsection \<open>The log of one call\<close>

lemma send_raw_sent [simp]:
  "sent (snd (snd (send_raw api netfn rq cap s))) = sent s @ [Request netfn rq]"
  by (simp add: send_raw_def case_prod_beta)

abbreviation (input) lock_event :: "'c ipmi_api \<Rightarrow> lock_op \<Rightarrow> u16 \<Rightarrow> bus_event" where
  "lock_event api operation lock_id \<equiv> Request (IPMI_NET_FN_GROUP_EXTENSION_RQ api) (lock_rq operation lock_id)"

abbreviation (input) read_event :: "'c ipmi_api \<Rightarrow> u16 \<Rightarrow> u8 \<Rightarrow> bus_event" where
  "read_event api offset count \<equiv> Request (IPMI_NET_FN_STORAGE_RQ api) (read_rq api offset count)"

abbreviation (input) write_event :: "'c ipmi_api \<Rightarrow> u16 \<Rightarrow> u16 \<Rightarrow> u8 list \<Rightarrow> bus_event" where
  "write_event api lock_id offset data \<equiv>
     Request (IPMI_NET_FN_GROUP_EXTENSION_RQ api) (write_rq lock_id offset data)"

lemma size_sent:
  "get_shelf_fru_info_size api s = Some (r, s') \<Longrightarrow>
   sent s' = sent s @ [Request (IPMI_NET_FN_STORAGE_RQ api)
      [IPMI_CMD_GET_FRU_INVENTORY_AREA_INFO api, SHELF_FRU_INFORMATION_FRU_ID]]"
  using send_raw_sent [of api "IPMI_NET_FN_STORAGE_RQ api"
      "[IPMI_CMD_GET_FRU_INVENTORY_AREA_INFO api, SHELF_FRU_INFORMATION_FRU_ID]" 5 s]
  by (auto simp: get_shelf_fru_info_size_def Let_def case_prod_beta split: if_splits)

lemma lock_sent:
  "get_shelf_fru_info_lock api oper lock_id s = Some (r, s') \<Longrightarrow> sent s' = sent s @ [lock_event api oper lock_id]"
  using send_raw_sent [of api "IPMI_NET_FN_GROUP_EXTENSION_RQ api" "lock_rq oper lock_id" 9 s]
  by (auto simp: get_shelf_fru_info_lock_def Let_def case_prod_beta bind_eq_Some_conv split: if_splits)

lemma read_sent:
  "read_shelf_fru_data api offset count dest dst s = Some (r, s') \<Longrightarrow>
   sent s' = sent s @ [read_event api offset count]"
  using send_raw_sent [of api "IPMI_NET_FN_STORAGE_RQ api" "read_rq api offset count" 255 s]
  by (auto simp: read_shelf_fru_data_def Let_def case_prod_beta bind_eq_Some_conv split: if_splits)

lemma read_length:
  "read_shelf_fru_data api offset count dest dst s = Some (Some dest', s') \<Longrightarrow> length dest' = length dest"
  by (auto simp: read_shelf_fru_data_def Let_def case_prod_beta bind_eq_Some_conv mem_put_length split: if_splits)

lemma write_sent:
  assumes "write_shelf_fru_data api lock_id offset count src pos s = Some (r, s')"
  shows "sent s' = sent s @ [write_event api lock_id offset (take (unat count) (drop pos src))] \<and>
    pos + unat count \<le> length src"
proof -
  let ?d = "take (unat count) (drop pos src)"
  note send_raw_sent [of api "IPMI_NET_FN_GROUP_EXTENSION_RQ api" "write_rq lock_id offset ?d" 4 s]
  then show ?thesis
    using assms by (auto simp: write_shelf_fru_data_def Let_def case_prod_beta bind_eq_Some_conv mem_read_def
        split: if_splits)
qed

subsection \<open>Chunked writing\<close>

text \<open>The pieces of at most 16 bytes the write loop sends, with their offsets.\<close>

function chunks :: "nat \<Rightarrow> u8 list \<Rightarrow> (nat \<times> u8 list) list" where
  "chunks off bs = (if bs = [] then [] else (off, take 16 bs) # chunks (off + length (take 16 bs)) (drop 16 bs))"
  by pat_completeness auto
termination
  by (relation "measure (\<lambda>(off, bs). length bs)") auto

declare chunks.simps [simp del]

lemma chunks_concat: "concat (map snd (chunks off bs)) = bs"
proof (induction off bs rule: chunks.induct)
  case (1 off bs)
  then show ?case by (subst chunks.simps) auto
qed

lemma chunks_Nil [simp]: "chunks off [] = []"
  by (simp add: chunks.simps)

text \<open>The same as an explicit list: piece \<open>i\<close> starts at byte \<open>16 * i\<close>.\<close>

definition piece_count :: "nat \<Rightarrow> nat" where "piece_count len = (len + 15) div 16"

lemma chunks_map: "chunks off bs = map (\<lambda>i. (off + 16 * i, take 16 (drop (16 * i) bs))) [0 ..< piece_count (length bs)]"
proof (induction off bs rule: chunks.induct)
  case (1 off bs)
  show ?case
  proof (cases "bs = []")
    case True
    then show ?thesis by (simp add: piece_count_def)
  next
    case False
    then have len: "0 < length bs" by simp
    let ?n = "piece_count (length (drop 16 bs))"
    have n: "piece_count (length bs) = Suc ?n"
    proof (cases "length bs \<le> 16")
      case True
      then have "(length bs + 15) div 16 = 1" using len by (intro div_nat_eqI) (simp_all del: length_greater_0_conv)
      then show ?thesis using True by (simp add: piece_count_def)
    next
      case False
      then have "length bs + 15 = length bs - 16 + 15 + 16" by simp
      then have "(length bs + 15) div 16 = Suc ((length bs - 16 + 15) div 16)" by (metis div_add_self2 zero_neq_numeral Suc_eq_plus1)
      then show ?thesis by (simp add: piece_count_def)
    qed
    have "map (\<lambda>i. (off + 16 * i, take 16 (drop (16 * i) bs))) [0 ..< Suc ?n] =
        (off, take 16 bs) # map (\<lambda>i. (off + 16 + 16 * i, take 16 (drop (16 * i) (drop 16 bs)))) [0 ..< ?n]"
      unfolding upt_conv_Cons [OF zero_less_Suc] map_Suc_upt [symmetric] by (simp add: add.commute)
    moreover have "chunks (off + length (take 16 bs)) (drop 16 bs) =
        map (\<lambda>i. (off + 16 + 16 * i, take 16 (drop (16 * i) (drop 16 bs)))) [0 ..< ?n]"
      using 1 [OF False] by (cases "length bs < 16") (simp_all add: piece_count_def)
    ultimately show ?thesis using False n by (subst chunks.simps) simp
  qed
qed

text \<open>The requests that write \<open>area\<close> to the device at \<open>off\<close>.\<close>

definition area_writes :: "'c ipmi_api \<Rightarrow> u16 \<Rightarrow> nat \<Rightarrow> u8 list \<Rightarrow> bus_event list" where
  "area_writes api lock_id off area =
     map (\<lambda>i. write_event api lock_id (of_nat (off + 16 * i)) (take 16 (drop (16 * i) area))) [0 ..< piece_count (length area)]"

lemma chunks_writes: "map (\<lambda>(off, bs). write_event api lock_id (of_nat off) bs) (chunks off area) = area_writes api lock_id off area"
  by (simp add: chunks_map area_writes_def)

lemma write_loop_sent_prefix:
  assumes "write_loop api lock_id len src_off dst_off buf s = Some (r, s')" and "len \<le> length buf"
  shows "\<exists>ws rest. chunks dst_off (take (len - src_off) (drop src_off buf)) = ws @ rest \<and>
    sent s' = sent s @ map (\<lambda>(off, bs). write_event api lock_id (of_nat off) bs) ws \<and> (if r = None then ws \<noteq> [] else rest = [])"
  using assms
proof (induction "len - src_off" arbitrary: src_off dst_off s rule: less_induct)
  case less
  show ?case
  proof (cases "src_off < len")
    case False
    then show ?thesis using less.prems
      by (intro exI [of _ "[]"]) (auto simp: write_loop.simps [of api lock_id len])
  next
    case True
    define n where "n = (if src_off + 16 < len then 16 else len - src_off)"
    let ?rest = "take (len - src_off) (drop src_off buf)"
    have n: "n = length (take 16 ?rest)" "0 < n" "n \<le> 16" using True less.prems(2) by (auto simp: n_def)
    have un: "unat (of_nat n :: u8) = n" using n(3) by (simp add: unsigned_of_nat take_bit_nat_eq_self)
    have t: "take n (drop src_off buf) = take 16 ?rest" using True by (auto simp: n_def)
    have d: "take (len - (src_off + n)) (drop (src_off + n) buf) = drop 16 ?rest"
      by (cases "src_off + 16 < len") (simp_all add: n_def drop_take add.commute)
    have ne: "?rest \<noteq> []" using True less.prems(2) by simp
    have ch: "chunks dst_off ?rest = (dst_off, take 16 ?rest) # chunks (dst_off + n) (drop 16 ?rest)"
      unfolding n(1) using ne by (subst chunks.simps) (simp only: if_False)
    have lt: "len - (src_off + n) < len - src_off" using True n(2) by simp
    have step: "on_ok (write_shelf_fru_data api lock_id (of_nat dst_off) (of_nat n) buf src_off s)
        (\<lambda>_ s. write_loop api lock_id len (src_off + n) (dst_off + n) buf s) = Some (r, s')"
      using less.prems(1) True by (subst (asm) write_loop.simps) (simp only: Let_def if_True n_def)
    then obtain w s1 where w: "write_shelf_fru_data api lock_id (of_nat dst_off) (of_nat n) buf src_off s = Some (w, s1)"
      by (auto simp: on_ok_def split: option.splits)
    have s1: "sent s1 = sent s @ [write_event api lock_id (of_nat dst_off) (take 16 ?rest)]"
      using write_sent [OF w] un t by simp
    show ?thesis
    proof (cases w)
      case None
      then show ?thesis using step w s1 ch
        by (intro exI [of _ "[(dst_off, take 16 ?rest)]"] exI [of _ "chunks (dst_off + n) (drop 16 ?rest)"]) auto
    next
      case (Some u)
      then have l: "write_loop api lock_id len (src_off + n) (dst_off + n) buf s1 = Some (r, s')"
        using step w by simp
      obtain ws rest where "chunks (dst_off + n) (drop 16 ?rest) = ws @ rest"
        "sent s' = sent s1 @ map (\<lambda>(off, bs). write_event api lock_id (of_nat off) bs) ws"
        "if r = None then ws \<noteq> [] else rest = []"
        using less.hyps [OF lt l less.prems(2)] unfolding d by blast
      then show ?thesis using s1 ch
        by (intro exI [of _ "(dst_off, take 16 ?rest) # ws"] exI [of _ rest]) (auto split: if_splits)
    qed
  qed
qed

subsection \<open>Fetching from a device that answers as specified\<close>

text \<open>
  The documented answers of a FRU device that holds the bytes \<open>mem\<close>: its size, and for a
  read inside the memory a completion code of zero, the requested count and the bytes.
\<close>

definition device_holds :: "'c ipmi_api \<Rightarrow> u8 list \<Rightarrow> bool" where
  "device_holds api mem \<longleftrightarrow> length mem < 2 ^ 16 \<and>
     (\<forall>c. \<exists>x w c'. ipmi_cmd_raw_ipmb api (IPMI_NET_FN_STORAGE_RQ api)
         [IPMI_CMD_GET_FRU_INVENTORY_AREA_INFO api, SHELF_FRU_INFORMATION_FRU_ID] c =
         (False, [x, 0] @ le_bytes16 (of_nat (length mem)) @ [w], c')) \<and>
     (\<forall>off cnt c. unat off + unat cnt \<le> length mem \<longrightarrow>
        (\<exists>x c'. ipmi_cmd_raw_ipmb api (IPMI_NET_FN_STORAGE_RQ api) (read_rq api off cnt) c =
           (False, [x, 0, cnt] @ take (unat cnt) (drop (unat off) mem), c')))"

lemma device_size:
  assumes "device_holds api mem"
  shows "\<exists>s'. get_shelf_fru_info_size api s = Some (Some (of_nat (length mem)), s')"
proof -
  obtain x w c' where r: "ipmi_cmd_raw_ipmb api (IPMI_NET_FN_STORAGE_RQ api)
      [IPMI_CMD_GET_FRU_INVENTORY_AREA_INFO api, SHELF_FRU_INFORMATION_FRU_ID] (world s) =
      (False, [x, 0] @ le_bytes16 (of_nat (length mem)) @ [w], c')"
    using assms unfolding device_holds_def by blast
  have "length mem < 2 ^ 16" using assms by (simp add: device_holds_def)
  then have "(ucast (of_nat (length mem) :: u16) :: u32) = of_nat (length mem)"
    by (simp add: word_unat_eq_iff unsigned_ucast_eq unsigned_of_nat take_bit_nat_eq_self)
  then show ?thesis
    using r by (simp add: get_shelf_fru_info_size_def send_raw_def overlay_zero_def le_bytes16_def)
qed

lemma device_read:
  assumes dev: "device_holds api mem" and in_mem: "unat off + unat cnt \<le> length mem"
    and small: "unat cnt \<le> 252" and room: "dst + unat cnt \<le> length dest"
  shows "\<exists>s'. read_shelf_fru_data api off cnt dest dst s =
    Some (Some (take dst dest @ take (unat cnt) (drop (unat off) mem) @ drop (dst + unat cnt) dest), s')"
proof -
  obtain x c' where r: "ipmi_cmd_raw_ipmb api (IPMI_NET_FN_STORAGE_RQ api) (read_rq api off cnt) (world s) =
      (False, [x, 0, cnt] @ take (unat cnt) (drop (unat off) mem), c')"
    using dev in_mem unfolding device_holds_def by blast
  let ?d = "take (unat cnt) (drop (unat off) mem)"
  have len: "length ?d = unat cnt" using in_mem by simp
  have o: "overlay_zero 255 (take 255 ([x, 0, cnt] @ ?d)) = [x, 0, cnt] @ ?d @ replicate (252 - unat cnt) 0"
    using small len by (simp add: overlay_zero_def)
  have "mem_read ([x, 0, cnt] @ ?d @ replicate (252 - unat cnt) 0) 3 (unat cnt) = Some ?d"
    using small len by (simp add: mem_read_def)
  moreover have "mem_put dest dst ?d = Some (take dst dest @ ?d @ drop (dst + unat cnt) dest)"
    using room len by (simp add: mem_put_def)
  ultimately show ?thesis
    using r o by (simp add: read_shelf_fru_data_def send_raw_def)
qed

lemma fetch_loop_device:
  assumes dev: "device_holds api mem" and "src \<le> length mem"
    and "dst + (length mem - src) \<le> length buffer"
  shows "\<exists>s'. fetch_loop api (length mem) src dst buffer s =
    Some (Some (take dst buffer @ drop src mem @ drop (dst + (length mem - src)) buffer, dst + (length mem - src)), s')"
  using assms(2-)
proof (induction "length mem - src" arbitrary: src dst buffer s rule: less_induct)
  case less
  show ?case
  proof (cases "src < length mem")
    case False
    then show ?thesis using less.prems by (simp add: fetch_loop.simps)
  next
    case True
    define n where "n = (if src + 16 < length mem then 16 else length mem - src)"
    have n: "0 < n" "n \<le> 16" "src + n \<le> length mem" using True by (auto simp: n_def)
    have mem: "length mem < 2 ^ 16" using dev by (simp add: device_holds_def)
    have un: "unat (of_nat n :: u8) = n" using n(2) by (simp add: unsigned_of_nat take_bit_nat_eq_self)
    have us: "unat (of_nat src :: u16) = src" using True mem by (simp add: unsigned_of_nat take_bit_nat_eq_self)
    let ?b = "take dst buffer @ take n (drop src mem) @ drop (dst + n) buffer"
    have dn: "dst + n \<le> length buffer" using n(3) less.prems by linarith
    obtain s1 where r: "read_shelf_fru_data api (of_nat src) (of_nat n) buffer dst s = Some (Some ?b, s1)"
      using device_read [OF dev, of "of_nat src" "of_nat n" dst buffer s] n dn un us by auto
    have lb: "length ?b = length buffer" using n(3) less.prems by simp
    have lt: "length mem - (src + n) < length mem - src" using True n(1) by simp
    have room: "dst + n + (length mem - (src + n)) \<le> length ?b" using less.prems n(3) unfolding lb by simp
    obtain s' where l: "fetch_loop api (length mem) (src + n) (dst + n) ?b s1 =
        Some (Some (take (dst + n) ?b @ drop (src + n) mem @ drop (dst + n + (length mem - (src + n))) ?b,
                    dst + n + (length mem - (src + n))), s')"
      using less.hyps [OF lt n(3) room, of s1] by blast
    have t: "take (dst + n) ?b = take dst buffer @ take n (drop src mem)" using n(3) less.prems by simp
    have d: "drop (dst + n + (length mem - (src + n))) ?b = drop (dst + (length mem - src)) buffer"
      using n(3) less.prems by (simp add: add.commute)
    have m: "take n (drop src mem) @ drop (src + n) mem = drop src mem"
      by (metis add.commute append_take_drop_id drop_drop)
    have "fetch_loop api (length mem) src dst buffer s =
        fetch_loop api (length mem) (src + n) (dst + n) ?b s1"
      using True r by (subst fetch_loop.simps) (simp add: Let_def flip: n_def)
    then show ?thesis using l m less.prems(1) unfolding t d append_assoc by (simp add: n(3))
  qed
qed

subsection \<open>A simulated shelf manager\<close>

text \<open>A shelf manager for concrete runs: its context is the memory, its timestamp is fixed.\<close>

definition sim_answer :: "u32 \<Rightarrow> u8 \<Rightarrow> u8 list \<Rightarrow> u8 list \<Rightarrow> bool \<times> u8 list \<times> u8 list" where
  "sim_answer ts netfn rq mem =
     (if netfn = 0x0A then
        if rq ! 0 = 0x10 then (False, [0x10, 0] @ le_bytes16 (of_nat (length mem)) @ [0], mem)
        else (False, [0x11, 0, rq ! 4] @ take (unat (rq ! 4)) (drop (unat (le_half (rq ! 2) (rq ! 3))) mem), mem)
      else if netfn = 0x2C then
        if rq ! 0 = 0x1F then (False, [0x1F, 0, 0, 1, 0] @ le_bytes ts, mem)
        else (let off = unat (le_half (rq ! 5) (rq ! 6)); data = drop 7 rq
              in (False, [0x20, 0, 0, of_nat (length data)], take off mem @ data @ drop (off + length data) mem))
      else (False, [0x02, 0], mem))"

definition sim_api :: "u32 \<Rightarrow> u8 list ipmi_api" where
  "sim_api ts = \<lparr>ipmi_ctx_create = (\<lambda>c. (True, c)), ipmi_ctx_open_outofband = (\<lambda>host c. (True, c)),
     ipmi_cmd_raw_ipmb = sim_answer ts, IPMI_NET_FN_APP_RQ = 0x06, IPMI_NET_FN_STORAGE_RQ = 0x0A,
     IPMI_NET_FN_GROUP_EXTENSION_RQ = 0x2C, IPMI_CMD_COLD_RESET = 0x02,
     IPMI_CMD_GET_FRU_INVENTORY_AREA_INFO = 0x10, IPMI_CMD_READ_FRU_DATA = 0x11\<rparr>"

abbreviation (input) sim_start :: "u8 list \<Rightarrow> u8 list bus" where
  "sim_start mem \<equiv> \<lparr>world = mem, sent = []\<rparr>"

lemmas sim_eval =
  sim_api_def sim_answer_def send_raw_def lock_rq_def read_rq_def write_rq_def le_bytes16_def le_bytes_def
  le_half_def overlay_zero_def rd_def word_at_def le_word_def mem_read_def mem_put_def
  PICMG_CMD_FRU_INVENTORY_DEVICE_LOCK_CONTROL_def PICMG_CMD_FRU_INVENTORY_DEVICE_WRITE_def
  PICMG_DEFINING_BODY_ID_def SHELF_FRU_INFORMATION_FRU_ID_def multirecord_area_offset_def

text \<open>A FRU memory: the common header with the multirecord area at byte 8, and the sample area.\<close>

definition sample_fru :: "u8 list" where
  "sample_fru = [1, 0, 0, 0, 0, 1, 0, 254] @ concat sample_area"

lemma sample_fru_value:
  "sample_fru = [1, 0, 0, 0, 0, 1, 0, 254, 1, 0, 1, 249, 5, 7, 192, 128, 5, 0, 187, 1, 2, 3, 4, 246]"
  by (simp add: sample_fru_def sample_area_def)

lemma write_loop_Nil [simp]: "write_loop api lock_id 0 0 dst buf s = Some (Some (), s)"
  by (simp add: write_loop.simps)

lemma multirecord_fetch:
  assumes dev: "device_holds api mem" and hdr: "8 \<le> length mem" "unat (mem ! 5) * 8 \<le> length mem"
    and room: "length mem - unat (mem ! 5) * 8 \<le> length buffer"
  shows "\<exists>s'. fetch_shelf_fru_multirecord_area api buffer s =
    Some (Some (drop (unat (mem ! 5) * 8) mem @ drop (length mem - unat (mem ! 5) * 8) buffer,
                of_nat (length mem - unat (mem ! 5) * 8)), s')"
proof -
  have mem: "length mem < 2 ^ 16" using dev by (simp add: device_holds_def)
  then have un: "unat (of_nat (length mem) :: u32) = length mem" by (intro unat_of_nat_u32) simp
  obtain s1 where s1: "get_shelf_fru_info_size api s = Some (Some (of_nat (length mem)), s1)"
    using device_size [OF dev] by blast
  have "\<exists>s2. read_shelf_fru_data api 0 8 (replicate 9 0) 0 s1 = Some (Some (take 8 mem @ [0]), s2)"
    using device_read [OF dev, of 0 8 0 "replicate 9 0" s1] hdr(1) by simp
  then obtain s2 where s2: "read_shelf_fru_data api 0 8 (replicate 9 0) 0 s1 = Some (Some (take 8 mem @ [0]), s2)" ..
  have h5: "(take 8 mem @ [0]) ! multirecord_area_offset = mem ! 5"
    using hdr(1) by (simp add: multirecord_area_offset_def nth_append)
  obtain s3 where "fetch_loop api (length mem) (unat (mem ! 5) * 8) 0 buffer s2 =
      Some (Some (drop (unat (mem ! 5) * 8) mem @ drop (length mem - unat (mem ! 5) * 8) buffer,
                  length mem - unat (mem ! 5) * 8), s3)"
    using fetch_loop_device [OF dev hdr(2), of 0 buffer s2] room by auto
  then show ?thesis
    using s1 s2 by (simp add: fetch_shelf_fru_multirecord_area_def un h5)
qed

lemma write_area_steps:
  assumes "read_shelf_fru_data api 0 8 (replicate 8 0) 0 s = Some (Some hdr, s1)"
    and "get_shelf_fru_info_lock api OP_LOCK 0 s1 = Some (Some (lock_id, ts), s2)"
  shows "write_shelf_fru_multirecord_area api read_ts buf buf_size s =
    (if ts \<noteq> read_ts
     then (case get_shelf_fru_info_lock api OP_DISCARD lock_id s2 of
             None \<Rightarrow> None | Some (_, s) \<Rightarrow> Some (None, s))
     else on_ok (write_loop api lock_id (unat buf_size) 0 (unat (hdr ! multirecord_area_offset) * 8) buf s2) (\<lambda>_ s.
          on_ok (get_shelf_fru_info_lock api OP_COMMIT lock_id s) (\<lambda>_ s. Some (Some (), s))))"
    "sent s2 = sent s @ [read_event api 0 8, lock_event api OP_LOCK 0]"
  using assms read_sent [OF assms(1)] lock_sent [OF assms(2)]
  by (simp_all add: write_shelf_fru_multirecord_area_def)

lemma write_area_success:
  assumes "write_shelf_fru_multirecord_area api read_ts buf buf_size s = Some (Some (), s')"
  obtains hdr lock_id s1 s2 s3 x where
    "read_shelf_fru_data api 0 8 (replicate 8 0) 0 s = Some (Some hdr, s1)"
    "get_shelf_fru_info_lock api OP_LOCK 0 s1 = Some (Some (lock_id, read_ts), s2)"
    "write_loop api lock_id (unat buf_size) 0 (unat (hdr ! multirecord_area_offset) * 8) buf s2 = Some (Some (), s3)"
    "get_shelf_fru_info_lock api OP_COMMIT lock_id s3 = Some (Some x, s')"
proof -
  have "\<exists>hdr s1. read_shelf_fru_data api 0 8 (replicate 8 0) 0 s = Some (Some hdr, s1)"
    using assms by (auto simp: write_shelf_fru_multirecord_area_def on_ok_def split: option.splits)
  then obtain hdr s1 where r: "read_shelf_fru_data api 0 8 (replicate 8 0) 0 s = Some (Some hdr, s1)" by blast
  have "\<exists>lock_id ts s2. get_shelf_fru_info_lock api OP_LOCK 0 s1 = Some (Some (lock_id, ts), s2)"
    using assms r by (auto simp: write_shelf_fru_multirecord_area_def on_ok_def split: option.splits)
  then obtain lock_id ts s2 where l: "get_shelf_fru_info_lock api OP_LOCK 0 s1 = Some (Some (lock_id, ts), s2)" by blast
  note e = assms [unfolded write_area_steps(1) [OF r l]]
  have ts: "ts = read_ts" using e by (auto split: if_splits option.splits)
  have "\<exists>s3. write_loop api lock_id (unat buf_size) 0 (unat (hdr ! multirecord_area_offset) * 8) buf s2 = Some (Some (), s3)"
    using e ts by (auto simp: on_ok_def split: option.splits)
  then obtain s3 where w: "write_loop api lock_id (unat buf_size) 0 (unat (hdr ! multirecord_area_offset) * 8) buf s2 = Some (Some (), s3)" ..
  have "\<exists>x. get_shelf_fru_info_lock api OP_COMMIT lock_id s3 = Some (Some x, s')"
    using e ts w by (auto simp: on_ok_def split: option.splits)
  then show thesis using that r l ts w by blast
qed

subsection \<open>Properties\<close>

lemma write_area_log:
  assumes r: "read_shelf_fru_data api 0 8 (replicate 8 0) 0 s = Some (Some hdr, s1)"
    and l: "get_shelf_fru_info_lock api OP_LOCK 0 s1 = Some (Some (lock_id, ts), s2)"
    and w: "write_shelf_fru_multirecord_area api read_ts buf buf_size s = Some (Some (), s')"
    and len: "unat buf_size \<le> length buf"
  shows "ts = read_ts \<and> sent s' = sent s @ [read_event api 0 8, lock_event api OP_LOCK 0] @
     area_writes api lock_id (unat (hdr ! multirecord_area_offset) * 8) (take (unat buf_size) buf) @
     [lock_event api OP_COMMIT lock_id]"
proof -
  obtain s3 x where st: "ts = read_ts"
    "write_loop api lock_id (unat buf_size) 0 (unat (hdr ! multirecord_area_offset) * 8) buf s2 = Some (Some (), s3)"
    "get_shelf_fru_info_lock api OP_COMMIT lock_id s3 = Some (Some x, s')"
    using write_area_success [OF w] r l by (metis (no_types, lifting) Pair_inject option.inject)
  show ?thesis
    using write_loop_sent_prefix [OF st(2) len] write_area_steps(2) [OF r l] lock_sent [OF st(3)] st(1)
    by (auto simp: chunks_writes [symmetric])
qed


text \<open>
  C33: when the timestamp the lock returns differs from the one of the read, nothing is
  written: the lock is discarded and the call fails.
\<close>

theorem write_area_stale_discards:
  assumes "read_shelf_fru_data api 0 8 (replicate 8 0) 0 s = Some (Some hdr, s1)"
    and "get_shelf_fru_info_lock api OP_LOCK 0 s1 = Some (Some (lock_id, ts), s2)" and "ts \<noteq> read_ts"
    and "write_shelf_fru_multirecord_area api read_ts buf buf_size s = Some (r, s')"
  shows "r = None \<and>
    sent s' = sent s @ [read_event api 0 8, lock_event api OP_LOCK 0, lock_event api OP_DISCARD lock_id]"
proof -
  obtain x where d: "get_shelf_fru_info_lock api OP_DISCARD lock_id s2 = Some (x, s')" and r: "r = None"
    using assms(3,4) unfolding write_area_steps(1) [OF assms(1,2)] by (auto split: option.splits)
  then show ?thesis using write_area_steps(2) [OF assms(1,2)] lock_sent [OF d] by simp
qed

text \<open>The device's answer to a request in the context \<open>c\<close>, and whether it takes or refuses it.\<close>

fun answer :: "'c ipmi_api \<Rightarrow> bus_event \<Rightarrow> 'c \<Rightarrow> bool \<times> u8 list \<times> 'c" where
  "answer api (Request netfn rq) c = ipmi_cmd_raw_ipmb api netfn rq c"
| "answer api _ c = (False, [], c)"

definition taken :: "bool \<times> u8 list \<times> 'c \<Rightarrow> 'c \<Rightarrow> bool" where
  "taken a c \<longleftrightarrow> (\<exists>rs. a = (False, rs, c) \<and> 2 \<le> length rs \<and> rs ! 1 = 0)"

definition refused :: "bool \<times> u8 list \<times> 'c \<Rightarrow> 'c \<Rightarrow> bool" where
  "refused a c \<longleftrightarrow> (\<exists>err rs. a = (err, rs, c) \<and> (err \<or> 2 \<le> length rs \<and> rs ! 1 \<noteq> 0))"

lemma write_answer:
  assumes "pos + n \<le> length src" and "n \<le> 16" and "e = write_event api lock_id off (take n (drop pos src))"
  shows "taken (answer api e (world s)) c \<Longrightarrow>
      write_shelf_fru_data api lock_id off (of_nat n) src pos s = Some (Some (), s\<lparr>world := c, sent := sent s @ [e]\<rparr>)"
    and "refused (answer api e (world s)) c \<Longrightarrow>
      write_shelf_fru_data api lock_id off (of_nat n) src pos s = Some (None, s\<lparr>world := c, sent := sent s @ [e]\<rparr>)"
proof -
  have un: "unat (of_nat n :: u8) = n" using assms(2) by (simp add: unsigned_of_nat take_bit_nat_eq_self)
  have rd: "mem_read src pos n = Some (take n (drop pos src))" using assms(1) by (simp add: mem_read_def)
  have c1: "rd (take 4 rs) (Suc 0) = Some (rs ! Suc 0)" if "2 \<le> length rs" for rs :: "u8 list" using that by (simp add: rd_def)
  show "write_shelf_fru_data api lock_id off (of_nat n) src pos s = Some (Some (), s\<lparr>world := c, sent := sent s @ [e]\<rparr>)"
    if "taken (answer api e (world s)) c"
    using that assms(2,3) by (auto simp: taken_def write_shelf_fru_data_def un rd send_raw_def c1)
  show "write_shelf_fru_data api lock_id off (of_nat n) src pos s = Some (None, s\<lparr>world := c, sent := sent s @ [e]\<rparr>)"
    if "refused (answer api e (world s)) c"
    using that assms(2,3) by (auto simp: refused_def write_shelf_fru_data_def un rd send_raw_def c1)
qed

lemma piece_less: "k < piece_count len \<longleftrightarrow> 16 * k < len"
proof -
  have "k < (len + 15) div 16 \<longleftrightarrow> Suc k * 16 \<le> len + 15"
    unfolding Suc_le_eq [symmetric] by (rule less_eq_div_iff_mult_less_eq) simp
  then show ?thesis by (simp add: piece_count_def) linarith
qed

lemma write_loop_piece:
  assumes len: "len \<le> length buf" and k: "16 * k < len"
  defines "n \<equiv> if 16 * k + 16 < len then 16 else len - 16 * k"
  shows "16 * k + n \<le> length buf" and "n \<le> 16"
    and "area_writes api lock_id off (take len buf) ! k = write_event api lock_id (of_nat (off + 16 * k)) (take n (drop (16 * k) buf))"
    and "write_loop api lock_id len (16 * k) (off + 16 * k) buf s =
      on_ok (write_shelf_fru_data api lock_id (of_nat (off + 16 * k)) (of_nat n) buf (16 * k) s)
        (\<lambda>_ s. write_loop api lock_id len (16 * k + n) (off + 16 * k + n) buf s)"
proof -
  show "16 * k + n \<le> length buf" "n \<le> 16" using len k by (auto simp: n_def)
  have "take 16 (drop (16 * k) (take len buf)) = take n (drop (16 * k) buf)"
    using k by (cases "16 * k + 16 < len") (simp_all add: n_def drop_take)
  then show "area_writes api lock_id off (take len buf) ! k = write_event api lock_id (of_nat (off + 16 * k)) (take n (drop (16 * k) buf))"
    using len k piece_less [of k len] by (simp add: area_writes_def min_absorb2)
  show "write_loop api lock_id len (16 * k) (off + 16 * k) buf s =
      on_ok (write_shelf_fru_data api lock_id (of_nat (off + 16 * k)) (of_nat n) buf (16 * k) s)
        (\<lambda>_ s. write_loop api lock_id len (16 * k + n) (off + 16 * k + n) buf s)"
    using k by (subst write_loop.simps) (simp only: Let_def if_True n_def)
qed

lemma write_loop_refused:
  assumes len: "len \<le> length buf" and es: "es = area_writes api lock_id off (take len buf)" and j: "j < length es"
    and ok: "\<And>i. i < j \<Longrightarrow> taken (answer api (es ! i) (ctx i)) (ctx (Suc i))" and bad: "refused (answer api (es ! j) (ctx j)) (ctx (Suc j))"
  shows "k \<le> j \<Longrightarrow> world s = ctx k \<Longrightarrow> write_loop api lock_id len (16 * k) (off + 16 * k) buf s =
    Some (None, s\<lparr>world := ctx (Suc j), sent := sent s @ drop k (take (Suc j) es)\<rparr>)"
proof (induction "j - k" arbitrary: k s)
  have pc: "16 * i < len" if "i \<le> j" for i
    using that j len piece_less [of i len] by (simp add: es area_writes_def min_absorb2)
  case (0 k s)
  then have kj: "k = j" by simp
  note p = write_loop_piece [OF len pc [OF 0(2)]]
  from write_answer(2) [OF p(1,2) p(3) [of api lock_id off], of s "ctx (Suc j)"] bad
  have "write_shelf_fru_data api lock_id (of_nat (off + 16 * k)) (of_nat (if 16 * k + 16 < len then 16 else len - 16 * k)) buf (16 * k) s =
      Some (None, s\<lparr>world := ctx (Suc j), sent := sent s @ [es ! j]\<rparr>)"
    using 0(3) by (simp only: kj es)
  moreover have "drop k (take (Suc j) es) = [es ! j]" using j by (simp add: kj take_Suc_conv_app_nth)
  ultimately show ?case unfolding p(4) [of api lock_id off s] by simp
next
  have pc: "16 * i < len" if "i \<le> j" for i
    using that j len piece_less [of i len] by (simp add: es area_writes_def min_absorb2)
  case (Suc d k s)
  then have kj: "k < j" "k \<le> j" by simp_all
  have full: "16 * k + 16 < len" using pc [of "Suc k"] kj(1) by simp
  note p = write_loop_piece [OF len pc [OF kj(2)], unfolded if_P [OF full]]
  let ?s = "s\<lparr>world := ctx (Suc k), sent := sent s @ [es ! k]\<rparr>"
  from write_answer(1) [OF p(1,2) p(3) [of api lock_id off], of s "ctx (Suc k)"] ok [OF kj(1)]
  have "write_shelf_fru_data api lock_id (of_nat (off + 16 * k)) (of_nat 16) buf (16 * k) s = Some (Some (), ?s)"
    using Suc.prems(2) by (simp only: es)
  then have "write_loop api lock_id len (16 * k) (off + 16 * k) buf s = write_loop api lock_id len (16 * Suc k) (off + 16 * Suc k) buf ?s"
    unfolding p(4) [of api lock_id off s] by (simp add: add.commute add.left_commute)
  also have "\<dots> = Some (None, ?s\<lparr>world := ctx (Suc j), sent := sent ?s @ drop (Suc k) (take (Suc j) es)\<rparr>)"
    using Suc.hyps(2) kj(1) by (intro Suc.hyps(1)) simp_all
  also have "[es ! k] @ drop (Suc k) (take (Suc j) es) = drop k (take (Suc j) es)"
    using kj(1) j Cons_nth_drop_Suc [of k "take (Suc j) es"] by simp
  then have "sent ?s @ drop (Suc k) (take (Suc j) es) = sent s @ drop k (take (Suc j) es)" by simp
  finally show ?case by simp
qed


text \<open>
  C30: from a FRU device that answers as specified, \<open>fetch_shelf_fru_multirecord_area\<close>
  fetches exactly the bytes from the multirecord area to the end of the FRU memory, in any
  buffer that has room for them, and leaves the rest of the buffer alone.
\<close>

theorem fetch_reads_area:
  assumes "device_holds api mem" and "8 \<le> length mem" and "unat (mem ! 5) * 8 \<le> length mem"
    and "length mem - unat (mem ! 5) * 8 \<le> length buffer"
  shows "\<exists>s'. fetch_shelf_fru_multirecord_area api buffer s =
    Some (Some (drop (unat (mem ! 5) * 8) mem @ drop (length mem - unat (mem ! 5) * 8) buffer,
                of_nat (length mem - unat (mem ! 5) * 8)), s')"
  using assms by (rule multirecord_fetch)

text \<open>
  The number of bytes copied is the one the response claims, not the one requested: a
  response to the header read that claims more than 9 bytes overruns the header buffer.
\<close>

theorem fetch_trusts_response_count:
  assumes "get_shelf_fru_info_size api s = Some (Some n, s1)"
    and "ipmi_cmd_raw_ipmb api (IPMI_NET_FN_STORAGE_RQ api) (read_rq api 0 8) (world s1) = (False, x # 0 # c # data, w)"
    and "9 < unat c"
  shows "fetch_shelf_fru_multirecord_area api buffer s = None"
proof -
  let ?buf = "overlay_zero 255 (take 255 (x # 0 # c # data))"
  have b: "?buf ! 1 = 0" "?buf ! 2 = c" "length ?buf = 255" by (simp_all add: overlay_zero_def)
  have "mem_put (replicate 9 0) 0 d = None" if "mem_read ?buf 3 (unat c) = Some d" for d
    using that assms(3) by (auto simp: mem_read_def mem_put_def split: if_splits)
  then have "read_shelf_fru_data api 0 8 (replicate 9 0) 0 s1 = None"
    using assms(2) b by (cases "mem_read ?buf 3 (unat c)") (simp_all add: read_shelf_fru_data_def send_raw_def)
  then show ?thesis using assms(1) by (simp add: fetch_shelf_fru_multirecord_area_def)
qed

lemma sim_write:
  "\<exists>s'. write_shelf_fru_multirecord_area (sim_api 7) 7 [9, 8, 7] 3 (sim_start sample_fru) = Some (Some (), s')"
  by (simp add: write_shelf_fru_multirecord_area_def read_shelf_fru_data_def get_shelf_fru_info_lock_def
      write_shelf_fru_data_def write_loop.simps sample_fru_value sim_eval)

lemma sim_steps:
  "\<exists>s1. read_shelf_fru_data (sim_api 7) 0 8 (replicate 8 0) 0 (sim_start sample_fru) =
       Some (Some [1, 0, 0, 0, 0, 1, 0, 254], s1) \<and>
     (\<exists>s2. get_shelf_fru_info_lock (sim_api 7) OP_LOCK 0 s1 = Some (Some (1, 7), s2) \<and>
       (\<exists>s3. get_shelf_fru_info_lock (sim_api 7) OP_DISCARD 1 s2 = Some (Some (1, 7), s3)))"
  by (simp add: read_shelf_fru_data_def get_shelf_fru_info_lock_def sample_fru_value sim_eval)


theorem write_area_stale_discards_witness:
  "\<exists>s'. write_shelf_fru_multirecord_area (sim_api 7) 6 [9, 8, 7] 3 (sim_start sample_fru) = Some (None, s') \<and>
     sent s' = [read_event (sim_api 7) 0 8, lock_event (sim_api 7) OP_LOCK 0, lock_event (sim_api 7) OP_DISCARD 1]"
proof -
  obtain s1 s2 s3 where st: "read_shelf_fru_data (sim_api 7) 0 8 (replicate 8 0) 0 (sim_start sample_fru) =
       Some (Some [1, 0, 0, 0, 0, 1, 0, 254], s1)"
    "get_shelf_fru_info_lock (sim_api 7) OP_LOCK 0 s1 = Some (Some (1, 7), s2)"
    "get_shelf_fru_info_lock (sim_api 7) OP_DISCARD 1 s2 = Some (Some (1, 7), s3)"
    using sim_steps by blast
  have "write_shelf_fru_multirecord_area (sim_api 7) 6 [9, 8, 7] 3 (sim_start sample_fru) = Some (None, s3)"
    using write_area_steps(1) [OF st(1,2)] st(3) by simp
  with write_area_stale_discards [OF st(1,2) _ this] show ?thesis by auto
qed

text \<open>A shelf manager that refuses every write.\<close>

definition stuck_api :: "u32 \<Rightarrow> u8 list ipmi_api" where
  "stuck_api ts = (sim_api ts)\<lparr>ipmi_cmd_raw_ipmb :=
     (\<lambda>netfn rq mem. if netfn = 0x2C \<and> rq ! 0 = 0x20 then (False, [0x20, 0xC3], mem)
                     else sim_answer ts netfn rq mem)\<rparr>"

lemma stuck_steps:
  "\<exists>s1. read_shelf_fru_data (stuck_api 7) 0 8 (replicate 8 0) 0 (sim_start sample_fru) =
       Some (Some [1, 0, 0, 0, 0, 1, 0, 254], s1) \<and>
     (\<exists>s2. get_shelf_fru_info_lock (stuck_api 7) OP_LOCK 0 s1 = Some (Some (1, 7), s2))"
  by (simp add: read_shelf_fru_data_def get_shelf_fru_info_lock_def sample_fru_value stuck_api_def sim_eval)


text \<open>A read-only device for concrete runs: the memory does not depend on the context.\<close>

definition rom_api :: "u8 list \<Rightarrow> unit ipmi_api" where
  "rom_api mem = \<lparr>ipmi_ctx_create = (\<lambda>c. (True, c)), ipmi_ctx_open_outofband = (\<lambda>host c. (True, c)),
     ipmi_cmd_raw_ipmb = (\<lambda>netfn rq c. let (err, rs, _) = sim_answer 0 netfn rq mem in (err, rs, c)),
     IPMI_NET_FN_APP_RQ = 0x06, IPMI_NET_FN_STORAGE_RQ = 0x0A, IPMI_NET_FN_GROUP_EXTENSION_RQ = 0x2C,
     IPMI_CMD_COLD_RESET = 0x02, IPMI_CMD_GET_FRU_INVENTORY_AREA_INFO = 0x10, IPMI_CMD_READ_FRU_DATA = 0x11\<rparr>"

lemma rom_device: "length mem < 2 ^ 16 \<Longrightarrow> device_holds (rom_api mem) mem"
  by (auto simp: device_holds_def rom_api_def sim_answer_def read_rq_def le_bytes16_def Let_def)

theorem fetch_reads_area_witness:
  "\<exists>s'. fetch_shelf_fru_multirecord_area (rom_api sample_fru) (replicate 20 0xEE) \<lparr>world = (), sent = []\<rparr> =
    Some (Some (concat sample_area @ replicate 4 0xEE, 16), s')"
proof -
  have len: "length sample_fru = 24" "sample_fru ! 5 = 1" "drop 8 sample_fru = concat sample_area"
    by (simp_all add: sample_fru_value) (simp add: sample_area_def)
  then have "device_holds (rom_api sample_fru) sample_fru" by (intro rom_device) simp
  from fetch_reads_area [OF this, of "replicate 20 0xEE" "\<lparr>world = (), sent = []\<rparr>"] show ?thesis
    by (simp add: len)
qed

text \<open>A device that claims 200 bytes in every response.\<close>

definition liar_api :: "unit ipmi_api" where
  "liar_api = (rom_api [])\<lparr>ipmi_cmd_raw_ipmb := (\<lambda>netfn rq c. (False, [rq ! 0, 0, 200, 0, 0], c))\<rparr>"

theorem fetch_trusts_response_count_witness:
  "fetch_shelf_fru_multirecord_area liar_api (replicate 300 0) \<lparr>world = (), sent = []\<rparr> = None"
proof -
  obtain s1 where s1: "get_shelf_fru_info_size liar_api \<lparr>world = (), sent = []\<rparr> = Some (Some 200, s1)"
    by (simp add: get_shelf_fru_info_size_def liar_api_def rom_api_def sim_eval)
  have "ipmi_cmd_raw_ipmb liar_api (IPMI_NET_FN_STORAGE_RQ liar_api) (read_rq liar_api 0 8) (world s1) =
      (False, read_rq liar_api 0 8 ! 0 # 0 # 200 # [0, 0], world s1)"
    by (simp add: liar_api_def)
  from fetch_trusts_response_count [OF s1 this] show ?thesis by simp
qed

end
