(* ===== verification/ShelfInfo.thy ===== *)
theory ShelfInfo
  imports ShelfIpmi
begin

text \<open>
  The three commands on the shelf IP information: setting, deleting and displaying it
  (\<^verbatim>\<open>service/shelf_fru/src/shelf_ip_info.c\<close>), and the command line of the setting program
  (\<^verbatim>\<open>set_shelf_ip_info.c\<close>). A command's result is its exit code with the final state of the
  bus; \<open>None\<close> is undefined behaviour. What the commands print at higher verbosity is left out.
\<close>

subsection \<open>Arguments\<close>

record set_args =
  dest :: string
  dest_type :: bool
  a_vlan :: u32
  vlan_valid :: bool
  a_untagged :: u32
  untagged_valid :: bool
  a_tagged :: u32
  tagged_valid :: bool
  a_violation :: u32
  violation_valid :: bool
  a_group_base :: u32
  group_base_valid :: bool
  a_group_end :: u32
  group_end_valid :: bool
  a_subnet_mask :: u32
  subnet_mask_valid :: bool
  a_gateway :: u32
  gateway_valid :: bool
  dry_run :: bool
  force :: bool

definition no_args :: set_args where
  "no_args = \<lparr>dest = '''', dest_type = False, a_vlan = 0, vlan_valid = False, a_untagged = 0,
     untagged_valid = False, a_tagged = 0, tagged_valid = False, a_violation = 0,
     violation_valid = False, a_group_base = 0, group_base_valid = False, a_group_end = 0,
     group_end_valid = False, a_subnet_mask = 0, subnet_mask_valid = False, a_gateway = 0,
     gateway_valid = False, dry_run = False, force = False\<rparr>"

text \<open>
  One option of the command line, as \<^verbatim>\<open>getopt_long\<close> delivers it: its letter and its argument.
  A \<^verbatim>\<open>long\<close> is taken as 32 bits wide, as on the 32-bit hosts the repository builds for.
  \<open>strtol\<close> (\<open>None\<close> when it consumes nothing) and \<open>inet_pton\<close> (\<open>None\<close> when it returns 0) are
  parameters. \<open>None\<close> is the exit with status 1; the second component is the verbosity.
\<close>

definition flag_arg :: "(string \<Rightarrow> u32 option) \<Rightarrow> string option \<Rightarrow> u32 option" where
  "flag_arg strtol optarg =
     (case optarg of None \<Rightarrow> Some 0
      | Some a \<Rightarrow> (case strtol a of None \<Rightarrow> None
                 | Some lint \<Rightarrow> if lint > 1 then None else Some (lint AND 1)))"

definition addr_arg :: "(string \<Rightarrow> u32 option) \<Rightarrow> string option \<Rightarrow> u32 option" where
  "addr_arg inet_pton optarg = (case optarg of None \<Rightarrow> Some 0 | Some a \<Rightarrow> inet_pton a)"

definition set_option ::
    "(string \<Rightarrow> u32 option) \<Rightarrow> (string \<Rightarrow> u32 option) \<Rightarrow> char \<times> string option \<Rightarrow>
       set_args \<times> u32 \<Rightarrow> (set_args \<times> u32) option" where
  "set_option strtol inet_pton opt st =
     (let (c, optarg) = opt; (args, verbose) = st in
      if c = CHR ''s'' then
        map_option (\<lambda>a. (args\<lparr>dest := take 19 a, dest_type := True\<rparr>, verbose)) optarg
      else if c = CHR ''i'' then
        (case optarg of None \<Rightarrow> Some (args\<lparr>a_vlan := 0, vlan_valid := True\<rparr>, verbose)
         | Some a \<Rightarrow> (case strtol a of None \<Rightarrow> None
             | Some lint \<Rightarrow> if lint > 0xFFF then None
                 else Some (args\<lparr>a_vlan := lint OR 0x80000000, vlan_valid := True\<rparr>, verbose)))
      else if c = CHR ''u'' then
        map_option (\<lambda>v. (args\<lparr>a_untagged := v, untagged_valid := True\<rparr>, verbose)) (flag_arg strtol optarg)
      else if c = CHR ''t'' then
        map_option (\<lambda>v. (args\<lparr>a_tagged := v, tagged_valid := True\<rparr>, verbose)) (flag_arg strtol optarg)
      else if c = CHR ''x'' then
        map_option (\<lambda>v. (args\<lparr>a_violation := v, violation_valid := True\<rparr>, verbose)) (flag_arg strtol optarg)
      else if c = CHR ''b'' then
        map_option (\<lambda>v. (args\<lparr>a_group_base := v, group_base_valid := True\<rparr>, verbose)) (addr_arg inet_pton optarg)
      else if c = CHR ''e'' then
        map_option (\<lambda>v. (args\<lparr>a_group_end := v, group_end_valid := True\<rparr>, verbose)) (addr_arg inet_pton optarg)
      else if c = CHR ''g'' then
        map_option (\<lambda>v. (args\<lparr>a_gateway := v, gateway_valid := True\<rparr>, verbose)) (addr_arg inet_pton optarg)
      else if c = CHR ''m'' then
        map_option (\<lambda>v. (args\<lparr>a_subnet_mask := v, subnet_mask_valid := True\<rparr>, verbose)) (addr_arg inet_pton optarg)
      else if c = CHR ''d'' then Some (args\<lparr>dry_run := True\<rparr>, verbose)
      else if c = CHR ''f'' then Some (args\<lparr>force := True\<rparr>, verbose)
      else if c = CHR ''v'' then
        (case optarg of None \<Rightarrow> Some (args, 1) | Some a \<Rightarrow> map_option (\<lambda>l. (args, l)) (strtol a))
      else None)"

fun set_options ::
    "(string \<Rightarrow> u32 option) \<Rightarrow> (string \<Rightarrow> u32 option) \<Rightarrow> (char \<times> string option) list \<Rightarrow>
       set_args \<times> u32 \<Rightarrow> (set_args \<times> u32) option" where
  "set_options strtol inet_pton [] st = Some st"
| "set_options strtol inet_pton (opt # opts) st =
     Option.bind (set_option strtol inet_pton opt st) (set_options strtol inet_pton opts)"

text \<open>\<open>extra\<close>: whether arguments are left over after the options.\<close>

definition get_args ::
    "(string \<Rightarrow> u32 option) \<Rightarrow> (string \<Rightarrow> u32 option) \<Rightarrow> (char \<times> string option) list \<Rightarrow> bool \<Rightarrow>
       (set_args \<times> u32) option" where
  "get_args strtol inet_pton opts extra = do {
     (args, verbose) \<leftarrow> set_options strtol inet_pton opts (no_args, 0);
     if \<not> dest_type args \<or> extra then None else Some (args, verbose) }"

subsection \<open>The new information\<close>

definition ntohl :: "u32 \<Rightarrow> u32" where
  "ntohl w = le_word (ucast (drop_bit 24 w)) (ucast (drop_bit 16 w)) (ucast (drop_bit 8 w)) (ucast w)"

definition apply_args :: "set_args \<Rightarrow> shelf_ip_info \<Rightarrow> shelf_ip_info" where
  "apply_args args w =
     (let w = (if vlan_valid args then w\<lparr>vlan := a_vlan args\<rparr> else w);
          w = (if untagged_valid args then w\<lparr>ingress := (ingress w AND 0x6) OR a_untagged args\<rparr> else w);
          w = (if tagged_valid args then w\<lparr>ingress := (ingress w AND 0x5) OR push_bit 1 (a_tagged args)\<rparr> else w);
          w = (if violation_valid args then w\<lparr>ingress := (ingress w AND 0x3) OR push_bit 2 (a_violation args)\<rparr> else w);
          w = (if group_base_valid args then w\<lparr>group_base := a_group_base args\<rparr> else w);
          w = (if group_end_valid args then w\<lparr>group_end := a_group_end args\<rparr> else w);
          w = (if subnet_mask_valid args then w\<lparr>subnet_mask := a_subnet_mask args\<rparr> else w)
      in if gateway_valid args then w\<lparr>gateway := a_gateway args\<rparr> else w)"

datatype set_error =
    GROUP_BASE_LOWEST | GROUP_BASE_BROADCAST | GROUP_NETWORKS_DIFFER | GROUP_BASE_ABOVE_END
  | GATEWAY_NETWORK | GATEWAY_RANGE

definition check_info :: "shelf_ip_info \<Rightarrow> set_error option" where
  "check_info w =
     (if group_base w AND NOT (subnet_mask w) = 0 \<and> group_base w \<noteq> 0 then Some GROUP_BASE_LOWEST
      else if group_base w OR subnet_mask w = 0xFFFFFFFF then Some GROUP_BASE_BROADCAST
      else if group_base w AND subnet_mask w \<noteq> group_end w AND subnet_mask w then Some GROUP_NETWORKS_DIFFER
      else if ntohl (group_base w) > ntohl (group_end w) then Some GROUP_BASE_ABOVE_END
      else if gateway w AND subnet_mask w \<noteq> group_base w AND subnet_mask w \<and> ntohl (gateway w) \<noteq> 0
        then Some GATEWAY_NETWORK
      else if ntohl (gateway w) \<noteq> 0 \<and>
              (ntohl (gateway w) < ntohl (group_base w) \<or> ntohl (gateway w) > ntohl (group_end w))
        then Some GATEWAY_RANGE
      else None)"

definition zero_info :: shelf_ip_info where
  "zero_info = \<lparr>vlan = 0, ingress = 0, group_base = 0, group_end = 0, subnet_mask = 0, gateway = 0\<rparr>"

definition incomplete :: "set_args \<Rightarrow> bool" where
  "incomplete args \<longleftrightarrow> \<not> vlan_valid args \<or> \<not> untagged_valid args \<or> \<not> tagged_valid args \<or>
     \<not> violation_valid args \<or> \<not> group_base_valid args \<or> \<not> group_end_valid args \<or> \<not> subnet_mask_valid args"

definition any_valid :: "set_args \<Rightarrow> bool" where
  "any_valid args \<longleftrightarrow> vlan_valid args \<or> untagged_valid args \<or> tagged_valid args \<or> violation_valid args \<or>
     group_base_valid args \<or> group_end_valid args \<or> subnet_mask_valid args \<or> gateway_valid args"

subsection \<open>The commands\<close>

text \<open>
  \<open>set_shelf_ip_info\<close> from the validation on. \<open>initial\<close> is the local \<^verbatim>\<open>initial_copy\<close>.
\<close>

definition set_tail ::
    "'c ipmi_api \<Rightarrow> set_args \<Rightarrow> shelf_ip_info \<Rightarrow> shelf_ip_info \<Rightarrow> u32 \<Rightarrow> u8 list \<Rightarrow> u32 \<Rightarrow> 'c bus \<Rightarrow>
       (int \<times> 'c bus) option" where
  "set_tail api args initial working read_timestamp buf mra_size s =
     (let w = apply_args args working in
      if check_info w \<noteq> None then Some (1, close_lan s)
      else if \<not> force args \<and> initial = w then Some (1, close_lan s)
      else do {
        (_, buf, mra_size) \<leftarrow> remove_slac_shelf_ip_record buf mra_size;
        (buf, mra_size) \<leftarrow> add_slac_shelf_ip_info w buf mra_size;
        if dry_run args then Some (0, close_lan s)
        else case write_shelf_fru_multirecord_area api read_timestamp buf mra_size s of
            None \<Rightarrow> None
          | Some (None, s) \<Rightarrow> Some (2, close_lan s)
          | Some (Some _, s) \<Rightarrow> Some (0, close_lan s) })"

text \<open>
  \<open>buf\<close> and \<open>garbage\<close> are what the uninitialised locals \<^verbatim>\<open>buf\<close> and \<^verbatim>\<open>initial_copy\<close> happen to
  hold on entry.
\<close>

definition set_shelf_ip_info ::
    "'c ipmi_api \<Rightarrow> set_args \<Rightarrow> u8 list \<Rightarrow> shelf_ip_info \<Rightarrow> 'c bus \<Rightarrow> (int \<times> 'c bus) option" where
  "set_shelf_ip_info api args buf garbage s =
     (let (opened, s) = open_lan api (dest args) s in
      if \<not> opened then Some (2, s) else
      case get_shelf_fru_info_lock api OP_TIMESTAMP 0 s of
        None \<Rightarrow> None
      | Some (None, s) \<Rightarrow> Some (2, close_lan s)
      | Some (Some (lock_id, read_timestamp), s) \<Rightarrow>
     (case fetch_shelf_fru_multirecord_area api buf s of
        None \<Rightarrow> None
      | Some (None, s) \<Rightarrow> Some (2, close_lan s)
      | Some (Some (buf, mra_size), s) \<Rightarrow> do {
          record_header \<leftarrow> find_shelf_ip_info_record buf (ucast mra_size);
          case record_header of
            None \<Rightarrow>
              if incomplete args \<and> \<not> force args then Some (1, close_lan s)
              else set_tail api args garbage zero_info read_timestamp buf mra_size s
          | Some off \<Rightarrow>
              if \<not> force args \<and> \<not> any_valid args then Some (1, s)
              else do {
                info \<leftarrow> read_info buf (off + sizeof_picmg_header);
                set_tail api args info info read_timestamp buf mra_size s } }))"

definition delete_shelf_ip_info ::
    "'c ipmi_api \<Rightarrow> string \<Rightarrow> bool \<Rightarrow> u8 list \<Rightarrow> 'c bus \<Rightarrow> (int \<times> 'c bus) option" where
  "delete_shelf_ip_info api shelf dryrun buf s =
     (let (opened, s) = open_lan api shelf s in
      if \<not> opened then Some (-1, s) else
      case get_shelf_fru_info_lock api OP_TIMESTAMP 0 s of
        None \<Rightarrow> None
      | Some (None, s) \<Rightarrow> Some (2, close_lan s)
      | Some (Some (lock_id, read_timestamp), s) \<Rightarrow>
     (case fetch_shelf_fru_multirecord_area api buf s of
        None \<Rightarrow> None
      | Some (None, s) \<Rightarrow> Some (2, close_lan s)
      | Some (Some (buf, mra_size), s) \<Rightarrow> do {
          (absent, buf, mra_size) \<leftarrow> remove_slac_shelf_ip_record buf mra_size;
          if absent \<noteq> 0 then Some (1, close_lan s)
          else if dryrun then Some (0, close_lan s)
          else case write_shelf_fru_multirecord_area api read_timestamp buf mra_size s of
              None \<Rightarrow> None
            | Some (None, s) \<Rightarrow> Some (2, close_lan s)
            | Some (Some _, s) \<Rightarrow>
                (case reset_shelf_manager api s of None \<Rightarrow> None | Some (_, s) \<Rightarrow> Some (0, close_lan s)) }))"

text \<open>What is displayed: the raw area on request, then the information.\<close>

datatype display = DumpArea "u8 list" | DumpInfo shelf_ip_info | DumpRaw shelf_ip_info

definition display_shelf_ip_info ::
    "'c ipmi_api \<Rightarrow> string \<Rightarrow> bool \<Rightarrow> bool \<Rightarrow> u8 list \<Rightarrow> 'c bus \<Rightarrow> (int \<times> display list \<times> 'c bus) option" where
  "display_shelf_ip_info api shelf mr_area raw buf s =
     (let (opened, s) = open_lan api shelf s in
      if \<not> opened then Some (2, [], s) else
      case get_shelf_fru_info_lock api OP_TIMESTAMP 0 s of
        None \<Rightarrow> None
      | Some (None, s) \<Rightarrow> Some (2, [], close_lan s)
      | Some (Some (lock_id, read_timestamp), s) \<Rightarrow>
     (case fetch_shelf_fru_multirecord_area api buf s of
        None \<Rightarrow> None
      | Some (None, s) \<Rightarrow> Some (2, [], close_lan s)
      | Some (Some (buf, mra_size), s) \<Rightarrow> do {
          area \<leftarrow> (if mr_area then map_option (\<lambda>bs. [DumpArea bs]) (mem_read buf 0 (unat mra_size)) else Some []);
          record_header \<leftarrow> find_shelf_ip_info_record buf (ucast mra_size);
          case record_header of
            None \<Rightarrow> Some (1, area, close_lan s)
          | Some off \<Rightarrow> do {
              info \<leftarrow> read_info buf (off + sizeof_picmg_header);
              Some (0, area @ [DumpInfo info] @ (if raw then [DumpRaw info] else []), close_lan s) } }))"

text \<open>The values the two dumps print.\<close>

definition dump_slac_shelf_ip_record :: "(u32 \<Rightarrow> string) \<Rightarrow> shelf_ip_info \<Rightarrow> u32 list \<times> string list" where
  "dump_slac_shelf_ip_record inet_ntop info =
     ([vlan info AND 0xfff, drop_bit 31 (vlan info AND 0x80000000), ingress info AND 0x1,
       drop_bit 1 (ingress info AND 0x2), drop_bit 2 (ingress info AND 0x4)],
      map inet_ntop [group_base info, group_end info, subnet_mask info, gateway info])"

definition dump_slac_shelf_ip_record_raw :: "shelf_ip_info \<Rightarrow> u32 list" where
  "dump_slac_shelf_ip_record_raw info =
     [vlan info, ingress info, group_base info, group_end info, subnet_mask info, gateway info]"

subsection \<open>Requests that do not write\<close>

fun is_write :: "bus_event \<Rightarrow> bool" where
  "is_write (Request netfn rq) \<longleftrightarrow> rq ! 0 = PICMG_CMD_FRU_INVENTORY_DEVICE_WRITE \<and> rq ! 1 = PICMG_DEFINING_BODY_ID"
| "is_write _ \<longleftrightarrow> False"

fun is_query :: "bus_event \<Rightarrow> bool" where
  "is_query (Request netfn rq) \<longleftrightarrow> \<not> is_write (Request netfn rq)"
| "is_query _ \<longleftrightarrow> False"

definition quiet :: "'c bus \<Rightarrow> 'c bus \<Rightarrow> bool" where
  "quiet s s' \<longleftrightarrow> (\<exists>es. sent s' = sent s @ es \<and> list_all (\<lambda>e. \<not> is_write e) es)"

definition asks :: "'c bus \<Rightarrow> 'c bus \<Rightarrow> bool" where
  "asks s s' \<longleftrightarrow> (\<exists>es. sent s' = sent s @ es \<and> list_all is_query es)"

lemmas frame_bytes =
  PICMG_CMD_FRU_INVENTORY_DEVICE_LOCK_CONTROL_def PICMG_CMD_FRU_INVENTORY_DEVICE_WRITE_def
  PICMG_DEFINING_BODY_ID_def SHELF_FRU_INFORMATION_FRU_ID_def

lemma is_write_events [simp]:
  "\<not> is_write (Request n (lock_rq oper lock_id))" "\<not> is_write (Request n (read_rq api off cnt))"
  "\<not> is_write (Request n [c, SHELF_FRU_INFORMATION_FRU_ID])" "is_write (Request n (write_rq lock_id off16 data))"
  by (simp_all add: lock_rq_def read_rq_def write_rq_def frame_bytes)

declare is_write.simps(1) [simp del]

lemma quiet_refl [simp]: "quiet s s"
  by (simp add: quiet_def)

lemma quiet_trans [trans]: "quiet s s' \<Longrightarrow> quiet s' s'' \<Longrightarrow> quiet s s''"
  by (auto simp: quiet_def)

lemma quiet_close [simp]: "quiet s (close_lan s)"
  by (simp add: quiet_def close_lan_def)

lemma quiet_open: "open_lan api host s = (b, s') \<Longrightarrow> quiet s s'"
  by (auto simp: open_lan_def close_lan_def quiet_def Let_def case_prod_beta split: if_splits)

lemma asks_refl [simp]: "asks s s"
  by (simp add: asks_def)

lemma asks_trans: "asks s s' \<Longrightarrow> asks s' s'' \<Longrightarrow> asks s s''"
  by (auto simp: asks_def)

lemma asks_quiet: "asks s s' \<Longrightarrow> quiet s s'"
proof -
  have "is_query e \<Longrightarrow> \<not> is_write e" for e by (cases e) simp_all
  then show "asks s s' \<Longrightarrow> quiet s s'" by (auto simp: asks_def quiet_def list_all_iff)
qed

lemma asks_last:
  assumes "asks s s'" and "sent s \<noteq> []" and "last (sent s) \<noteq> Closed"
  shows "sent s' \<noteq> [] \<and> last (sent s') \<noteq> Closed"
proof -
  obtain es where es: "sent s' = sent s @ es" "list_all is_query es" using assms(1) by (auto simp: asks_def)
  show ?thesis
  proof (cases "es = []")
    case True
    then show ?thesis using assms es by simp
  next
    case False
    then have "is_query (last es)" using es(2) by (simp add: list_all_iff)
    then show ?thesis using es(1) False by (auto simp: last_append)
  qed
qed

lemma asks_lock: "get_shelf_fru_info_lock api oper lock_id s = Some (r, s') \<Longrightarrow> asks s s'"
  using lock_sent [of api oper lock_id s r s'] by (simp add: asks_def)

lemma asks_read: "read_shelf_fru_data api off cnt buf dst s = Some (r, s') \<Longrightarrow> asks s s'"
  using read_sent [of api off cnt buf dst s r s'] by (simp add: asks_def)

lemma asks_size: "get_shelf_fru_info_size api s = Some (r, s') \<Longrightarrow> asks s s'"
  using size_sent [of api s r s'] by (simp add: asks_def)

lemma on_ok_Some:
  "on_ok m f = Some (r, s') \<Longrightarrow>
   (m = Some (None, s') \<and> r = None) \<or> (\<exists>x s. m = Some (Some x, s) \<and> f x s = Some (r, s'))"
  by (auto simp: on_ok_def split: option.splits)

lemma asks_fetch_loop: "fetch_loop api len src dst buf s = Some (r, s') \<Longrightarrow> asks s s'"
proof (induction "len - src" arbitrary: src dst buf s rule: less_induct)
  case less
  show ?case
  proof (cases "src < len")
    case False
    then show ?thesis using less.prems by (simp add: fetch_loop.simps)
  next
    case True
    define n where "n = (if src + 16 < len then 16 else len - src)"
    have n: "len - (src + n) < len - src" using True by (auto simp: n_def)
    have "on_ok (read_shelf_fru_data api (of_nat src) (of_nat n) buf dst s)
        (\<lambda>buf s. fetch_loop api len (src + n) (dst + n) buf s) = Some (r, s')"
      using less.prems True by (subst (asm) fetch_loop.simps) (simp only: Let_def if_True n_def)
    from on_ok_Some [OF this] show ?thesis
      using asks_read less.hyps [OF n] asks_trans by blast
  qed
qed

lemma asks_on_ok:
  assumes "on_ok m f = Some (r, b)" "\<And>x c. m = Some (x, c) \<Longrightarrow> asks a c"
    "\<And>x c. f x c = Some (r, b) \<Longrightarrow> asks c b"
  shows "asks a b"
  using on_ok_Some [OF assms(1)] assms(2,3) asks_trans by blast

lemma asks_fetch:
  assumes "fetch_shelf_fru_multirecord_area api buf s = Some (r, s')"
  shows "asks s s'"
proof -
  have "on_ok (get_shelf_fru_info_size api s) (\<lambda>fru_size s.
     on_ok (read_shelf_fru_data api 0 8 (replicate 9 0) 0 s) (\<lambda>hdr s.
     on_ok (fetch_loop api (unat fru_size) (unat (hdr ! multirecord_area_offset) * 8) 0 buf s)
       (\<lambda>(buffer, dst_offset) s. Some (Some (buffer, of_nat dst_offset), s)))) = Some (r, s')"
    using assms unfolding fetch_shelf_fru_multirecord_area_def .
  then show ?thesis
  proof (rule asks_on_ok, goal_cases)
    case (1 x c)
    then show ?case by (rule asks_size)
  next
    case (2 n c)
    then show ?case
    proof (rule asks_on_ok, goal_cases)
      case (1 x c')
      then show ?case by (rule asks_read)
    next
      case (2 hdr c')
      then show ?case
        by (rule asks_on_ok) (auto intro: asks_fetch_loop split: prod.splits)
    qed
  qed
qed

subsection \<open>The paths through \<open>set_shelf_ip_info\<close>\<close>

lemma set_tail_cases:
  assumes "set_tail api args initial working ts buf mra_size s = Some (r, s')"
  obtains (refused) "r = 1" "s' = close_lan s"
  | (dry) "r = 0" "dry_run args" "s' = close_lan s"
  | (written) x buf1 size1 buf2 size2 w s1 where "\<not> dry_run args" "s' = close_lan s1"
      "check_info (apply_args args working) = None" "r = (if w = None then 2 else 0)"
      "remove_slac_shelf_ip_record buf mra_size = Some (x, buf1, size1)"
      "add_slac_shelf_ip_info (apply_args args working) buf1 size1 = Some (buf2, size2)"
      "write_shelf_fru_multirecord_area api ts buf2 size2 s = Some (w, s1)"
proof (cases "check_info (apply_args args working) \<noteq> None \<or> \<not> force args \<and> initial = apply_args args working")
  case True
  then show thesis using assms refused by (auto simp: set_tail_def Let_def split: if_splits)
next
  case False
  then obtain x buf1 size1 buf2 size2 where rm: "remove_slac_shelf_ip_record buf mra_size = Some (x, buf1, size1)"
    and ad: "add_slac_shelf_ip_info (apply_args args working) buf1 size1 = Some (buf2, size2)"
    using assms by (auto simp: set_tail_def Let_def bind_eq_Some_conv split: if_splits)
  show thesis
  proof (cases "dry_run args")
    case True
    then show ?thesis using assms False rm ad dry by (auto simp: set_tail_def Let_def)
  next
    case nodry: False
    then obtain w s1 where "write_shelf_fru_multirecord_area api ts buf2 size2 s = Some (w, s1)"
      using assms False rm ad by (auto simp: set_tail_def Let_def split: option.splits)
    then show ?thesis
      using assms False rm ad nodry written [of s1 w x buf1 size1 buf2 size2]
      by (cases w) (auto simp: set_tail_def Let_def)
  qed
qed

lemma set_cases:
  assumes "set_shelf_ip_info api args buf garbage s = Some (r, s')"
  obtains (no_connection) "r = 2" "quiet s s'" "open_lan api (dest args) s = (False, s')"
  | (refused) s1 where "r = 1 \<or> r = 2" "quiet s s1" "s' = close_lan s1"
  | (unchanged) "r = 1" "quiet s s'" "\<not> force args" "\<not> any_valid args"
  | (tail) s1 ts buf1 size1 initial working where "quiet s s1"
      "set_tail api args initial working ts buf1 size1 s1 = Some (r, s')"
proof -
  obtain opened s1 where o: "open_lan api (dest args) s = (opened, s1)" by (cases "open_lan api (dest args) s")
  have q1: "quiet s s1" using quiet_open [OF o] .
  show thesis
  proof (cases opened)
    case False
    then show ?thesis using assms o q1 no_connection by (simp add: set_shelf_ip_info_def Let_def)
  next
    case True
    then obtain l s2 where l: "get_shelf_fru_info_lock api OP_TIMESTAMP 0 s1 = Some (l, s2)"
      using assms o by (auto simp: set_shelf_ip_info_def Let_def split: option.splits)
    have q2: "quiet s s2" using q1 asks_quiet [OF asks_lock [OF l]] by (rule quiet_trans)
    show ?thesis
    proof (cases l)
      case None
      then show ?thesis using assms o l True q2 refused [of s2] by (simp add: set_shelf_ip_info_def Let_def)
    next
      case (Some y)
      obtain lock_id ts where y: "y = (lock_id, ts)" by (cases y)
      obtain f s3 where f: "fetch_shelf_fru_multirecord_area api buf s2 = Some (f, s3)"
        using assms o l True Some y by (auto simp: set_shelf_ip_info_def Let_def split: option.splits)
      have q3: "quiet s s3" using q2 asks_quiet [OF asks_fetch [OF f]] by (rule quiet_trans)
      show ?thesis
      proof (cases f)
        case None
        then show ?thesis using assms o l f True Some y q3 refused [of s3]
          by (simp add: set_shelf_ip_info_def Let_def)
      next
        case (Some z)
        obtain buf1 size1 where z: "z = (buf1, size1)" by (cases z)
        have e: "Option.bind (find_shelf_ip_info_record buf1 (ucast size1)) (\<lambda>record_header.
            case record_header of
              None \<Rightarrow>
                if incomplete args \<and> \<not> force args then Some (1, close_lan s3)
                else set_tail api args garbage zero_info ts buf1 size1 s3
            | Some off \<Rightarrow>
                if \<not> force args \<and> \<not> any_valid args then Some (1, s3)
                else do {
                  info \<leftarrow> read_info buf1 (off + sizeof_picmg_header);
                  set_tail api args info info ts buf1 size1 s3 }) = Some (r, s')"
          using assms o l f True \<open>l = Some y\<close> y Some z by (simp add: set_shelf_ip_info_def Let_def)
        then obtain rec where "find_shelf_ip_info_record buf1 (ucast size1) = Some rec"
          by (auto simp: bind_eq_Some_conv)
        then show ?thesis
          using e refused [of s3] unchanged tail [OF q3] q3
          by (cases rec) (auto simp: bind_eq_Some_conv split: if_splits)
      qed
    qed
  qed
qed


subsection \<open>From the area that was read to the area that is written\<close>

lemma set_after_fetch:
  assumes "open_lan api (dest args) s = (True, s1)"
    and "get_shelf_fru_info_lock api OP_TIMESTAMP 0 s1 = Some (Some (lock_id, ts), s2)"
    and "fetch_shelf_fru_multirecord_area api buf s2 = Some (Some (buf1, size1), s3)"
    and "find_shelf_ip_info_record buf1 (ucast size1) = Some rec"
  shows "set_shelf_ip_info api args buf garbage s =
    (case rec of
       None \<Rightarrow>
         if incomplete args \<and> \<not> force args then Some (1, close_lan s3)
         else set_tail api args garbage zero_info ts buf1 size1 s3
     | Some off \<Rightarrow>
         if \<not> force args \<and> \<not> any_valid args then Some (1, s3)
         else do {
           info \<leftarrow> read_info buf1 (off + sizeof_picmg_header);
           set_tail api args info info ts buf1 size1 s3 })"
  using assms by (simp add: set_shelf_ip_info_def)

lemma fetch_keeps_open:
  assumes "open_lan api host s = (True, s1)"
    and "get_shelf_fru_info_lock api OP_TIMESTAMP 0 s1 = Some (l, s2)"
    and "fetch_shelf_fru_multirecord_area api buf s2 = Some (f, s3)"
  shows "last (sent s3) \<noteq> Closed"
proof -
  have "sent s1 \<noteq> [] \<and> last (sent s1) \<noteq> Closed"
    using assms(1) by (auto simp: open_lan_def Let_def case_prod_beta split: if_splits)
  then show ?thesis using asks_last [OF asks_trans [OF asks_lock [OF assms(2)] asks_fetch [OF assms(3)]]] by blast
qed

lemma last_close_lan [simp]: "last (sent (close_lan s)) = Closed"
  by (simp add: close_lan_def)

lemma open_lan_fails: "open_lan api host s = (False, s') \<Longrightarrow> last (sent s') = Closed"
  by (auto simp: open_lan_def Let_def case_prod_beta split: if_splits)

text \<open>
  C28: a run of \<open>set_shelf_ip_info\<close> that ends with exit code 1 (a refused request) or that is a
  dry run sends no request that writes to the FRU device.
\<close>

theorem set_refused_writes_nothing:
  assumes "set_shelf_ip_info api args buf garbage s = Some (r, s')" and "r = 1 \<or> dry_run args"
  shows "\<exists>es. sent s' = sent s @ es \<and> list_all (\<lambda>e. \<not> is_write e) es"
proof -
  have "quiet s s'"
  proof (cases rule: set_cases [OF assms(1)])
    case 1
    then show ?thesis by simp
  next
    case (2 s1)
    then show ?thesis using quiet_trans [OF _ quiet_close] by simp
  next
    case 3
    then show ?thesis by simp
  next
    case (4 s1 ts buf1 size1 initial working)
    show ?thesis
      by (cases rule: set_tail_cases [OF 4(2)]) (use 4(1) assms(2) quiet_trans [OF _ quiet_close] in \<open>auto split: if_splits\<close>)
  qed
  then show ?thesis by (simp add: quiet_def)
qed

text \<open>
  Whatever the device answers, a run of \<open>set_shelf_ip_info\<close> that changes something or is
  forced ends by closing the connection, on every error path too.
\<close>

theorem set_closes_connection:
  assumes "set_shelf_ip_info api args buf garbage s = Some (r, s')" and "force args \<or> any_valid args"
  shows "last (sent s') = Closed"
proof (cases rule: set_cases [OF assms(1)])
  case 1
  then show ?thesis using open_lan_fails by blast
next
  case (2 s1)
  then show ?thesis by simp
next
  case 3
  then show ?thesis using assms(2) by simp
next
  case (4 s1 ts buf1 size1 initial working)
  show ?thesis by (cases rule: set_tail_cases [OF 4(2)]) auto
qed

text \<open>
  A request that leaves every parameter of an existing record unchanged is refused with
  exit code 1, but on that path the connection is left open.
\<close>

theorem set_unchanged_leaks_connection:
  assumes "open_lan api (dest args) s = (True, s1)"
    and "get_shelf_fru_info_lock api OP_TIMESTAMP 0 s1 = Some (Some (lock_id, ts), s2)"
    and "fetch_shelf_fru_multirecord_area api buf s2 = Some (Some (buf1, size1), s3)"
    and "find_shelf_ip_info_record buf1 (ucast size1) = Some (Some off)"
    and "\<not> force args" and "\<not> any_valid args"
  shows "set_shelf_ip_info api args buf garbage s = Some (1, s3) \<and> last (sent s3) \<noteq> Closed"
  using set_after_fetch [OF assms(1-4)] fetch_keeps_open [OF assms(1-3)] assms(5,6) by simp



subsection \<open>What the checks ensure\<close>

lemma bit_ntohl: "bit (ntohl w) n \<longleftrightarrow> n < 32 \<and> bit w (8 * (3 - n div 8) + n mod 8)"
proof (cases "n < 32")
  case True
  define k where "k = n mod 8"
  have k: "k < 8" by (simp add: k_def)
  have "n = 8 * (n div 8) + k" by (simp add: k_def)
  moreover have "n div 8 = 0 \<or> n div 8 = 1 \<or> n div 8 = 2 \<or> n div 8 = 3" using True by linarith
  ultimately consider "n = k" "n div 8 = 0" | "n = 8 + k" "n div 8 = 1" | "n = 16 + k" "n div 8 = 2"
    | "n = 24 + k" "n div 8 = 3"
    by fastforce
  then have "bit (ntohl w) n \<longleftrightarrow> bit w (8 * (3 - n div 8) + k)"
    by cases (use k in \<open>auto simp: ntohl_def bit_le_word bit_ucast_iff bit_drop_bit_eq ac_simps\<close>)
  then show ?thesis using True by (simp add: k_def)
next
  case False
  then show ?thesis using bit_imp_le_length [of "ntohl w" n] by auto
qed

lemma ntohl_and: "ntohl (a AND b) = ntohl a AND ntohl b"
  by (rule bit_word_eqI) (auto simp: bit_ntohl bit_and_iff)

lemma drop_bit_le: "(a :: u32) \<le> b \<Longrightarrow> drop_bit k a \<le> drop_bit k b"
  by (simp add: word_le_nat_alt unat_drop_bit_eq drop_bit_eq_div [where 'a = nat] div_le_mono)

lemma same_network:
  assumes "(base :: u32) \<le> a" and "a \<le> end" and "base AND NOT (mask k) = end AND NOT (mask k)"
  shows "a AND NOT (mask k) = base AND NOT (mask k)"
proof -
  have inj: "drop_bit k x = drop_bit k y" if "push_bit k (drop_bit k x) = push_bit k (drop_bit k y)" for x y :: u32
  proof (rule bit_word_eqI)
    fix n
    assume "n < LENGTH(32)"
    show "bit (drop_bit k x) n = bit (drop_bit k y) n"
    proof (cases "k + n < 32")
      case True
      then show ?thesis using arg_cong [OF that, of "\<lambda>w. bit w (k + n)"] by (simp add: bit_push_bit_iff)
    next
      case False
      then show ?thesis using bit_imp_le_length [of x "k + n"] bit_imp_le_length [of y "k + n"]
        by (auto simp: bit_drop_bit_eq)
    qed
  qed
  have "drop_bit k base = drop_bit k end" using assms(3) inj by (simp add: and_not_mask)
  then have "drop_bit k a = drop_bit k base"
    using drop_bit_le [OF assms(1), of k] drop_bit_le [OF assms(2), of k] by simp
  then show ?thesis by (simp add: and_not_mask)
qed


lemma ntohl_not: "ntohl (NOT a) = NOT (ntohl a)"
proof (rule bit_word_eqI)
  fix n
  assume "n < LENGTH(32)"
  moreover from this have "n div 8 < 4" "n mod 8 < 8" by (auto simp: less_mult_imp_div_less)
  then have "8 * (3 - n div 8) + n mod 8 < 32" by linarith
  ultimately show "bit (ntohl (NOT a)) n = bit (NOT (ntohl a)) n" by (simp add: bit_ntohl bit_not_iff)
qed

lemma ntohl_0 [simp]: "ntohl 0 = 0"
  by (rule bit_word_eqI) (simp add: bit_ntohl)

lemma ntohl_eq_0: "ntohl w = 0 \<longleftrightarrow> w = 0"
proof
  assume z: "ntohl w = 0"
  show "w = 0"
  proof (rule bit_word_eqI)
    fix n
    assume n: "n < LENGTH(32)"
    define m where "m = 8 * (3 - n div 8) + n mod 8"
    have q: "n div 8 < 4" "n mod 8 < 8" using n by (auto simp: less_mult_imp_div_less)
    then have m: "m div 8 = 3 - n div 8" "m mod 8 = n mod 8" "m < 32"
      by (auto simp: m_def)
    then have "8 * (3 - m div 8) + m mod 8 = n" using q mult_div_mod_eq [of 8 n] by simp
    then show "bit w n = bit 0 n" using m(3) arg_cong [OF z, of "\<lambda>x. bit x m"] by (simp add: bit_ntohl)
  qed
qed simp

lemma and_le: "(x :: u32) AND y \<le> x"
  by (metis word_and_le2)

lemma ntohl_or: "ntohl (a OR b) = ntohl a OR ntohl b"
  by (rule bit_word_eqI) (auto simp: bit_ntohl bit_or_iff)

text \<open>A group that ends at the broadcast address 10.0.0.255 of its network passes.\<close>

lemma broadcast_end_passes:
  "check_info (sample_info\<lparr>group_end := 0xFF00000A\<rparr>) = None"
  "ntohl (0xFF00000A :: u32) = ntohl (group_base sample_info) OR mask 8"
  by (simp_all add: sample_info_def check_info_def ntohl_def le_word_def mask_eq_exp_minus_1)

text \<open>
  C31: what the checks ensure, for a contiguous subnet mask with \<open>k\<close> host bits: every address
  from the group base to the group end is in the network of the base; unless the base is 0,
  which is let through, none of them is the network address; the base is not the broadcast
  address of the network; and a gateway other than 0 lies in the block. Nothing is said of the
  group end being the broadcast address, which passes.
\<close>

theorem checked_group_in_network:
  assumes "check_info w = None" and "ntohl (subnet_mask w) = NOT (mask k)"
    and "ntohl (group_base w) \<le> a" and "a \<le> ntohl (group_end w)"
  shows "a AND NOT (mask k) = ntohl (group_base w) AND NOT (mask k) \<and>
    (group_base w = 0 \<or> a AND mask k \<noteq> 0) \<and> ntohl (group_base w) AND mask k \<noteq> mask k \<and>
    (gateway w = 0 \<or> ntohl (group_base w) \<le> ntohl (gateway w) \<and> ntohl (gateway w) \<le> ntohl (group_end w))"
proof -
  have c: "group_base w AND NOT (subnet_mask w) = 0 \<Longrightarrow> group_base w = 0"
    "group_base w AND subnet_mask w = group_end w AND subnet_mask w"
    "ntohl (gateway w) = 0 \<or> ntohl (group_base w) \<le> ntohl (gateway w) \<and> ntohl (gateway w) \<le> ntohl (group_end w)"
    and b: "group_base w OR subnet_mask w \<noteq> 0xFFFFFFFF"
    using assms(1) by (auto simp: check_info_def split: if_splits)
  have "ntohl (group_base w) AND mask k \<noteq> mask k"
  proof
    assume all: "ntohl (group_base w) AND mask k = mask k"
    have ones: "ntohl (group_base w) OR NOT (mask k) = - 1"
    proof (rule bit_word_eqI)
      fix n
      assume "n < LENGTH(32)"
      then show "bit (ntohl (group_base w) OR NOT (mask k)) n = bit (- 1 :: u32) n"
        using arg_cong [OF all, of "\<lambda>x. bit x n"] by (auto simp: bit_simps)
    qed
    have "ntohl (NOT (group_base w OR subnet_mask w)) = 0"
      using ones by (simp only: ntohl_not ntohl_or assms(2)) simp
    then have "NOT (group_base w OR subnet_mask w) = 0" by (simp only: ntohl_eq_0)
    then have "group_base w OR subnet_mask w = - 1" by (metis bit.compl_one bit.double_compl)
    then show False using b by simp
  qed
  note base = this
  have net: "ntohl (group_base w) AND NOT (mask k) = ntohl (group_end w) AND NOT (mask k)"
    using arg_cong [OF c(2), of ntohl] by (simp add: ntohl_and assms(2))
  have same: "a AND NOT (mask k) = ntohl (group_base w) AND NOT (mask k)"
    by (rule same_network [OF assms(3,4) net])
  have "a AND mask k \<noteq> 0" if "group_base w \<noteq> 0"
  proof
    assume z: "a AND mask k = 0"
    have "a = (a AND NOT (mask k)) OR (a AND mask k)" by (rule bit_word_eqI) (auto simp: bit_simps)
    then have "a \<le> ntohl (group_base w)" using z same and_le by simp
    then have "a = ntohl (group_base w)" using assms(3) by simp
    then have "ntohl (group_base w AND NOT (subnet_mask w)) = 0"
      using z by (simp add: ntohl_and ntohl_not assms(2))
    then show False using that c(1) by (simp add: ntohl_eq_0)
  qed
  then show ?thesis using same c(3) base by (auto simp: ntohl_eq_0)
qed

theorem checked_group_in_network_witness:
  "ntohl 0x0500000A AND NOT (mask 8) = 0x0A000000 \<and> ntohl 0x0500000A AND mask 8 \<noteq> (0 :: u32)"
proof -
  have "check_info sample_info = None" "ntohl (subnet_mask sample_info) = NOT (mask 8)"
    "ntohl (group_base sample_info) \<le> ntohl 0x0500000A" "ntohl 0x0500000A \<le> ntohl (group_end sample_info)"
    "ntohl (group_base sample_info) AND NOT (mask 8) = 0x0A000000" "group_base sample_info \<noteq> 0"
    by (simp_all add: sample_info_def check_info_def ntohl_def le_word_def mask_eq_exp_minus_1)
  from checked_group_in_network [OF this(1-4)] this(5,6) show ?thesis by simp
qed


subsection \<open>Concrete runs\<close>

definition sample_args :: set_args where
  "sample_args = no_args\<lparr>dest := ''shm'', dest_type := True, a_vlan := 0x80000005, vlan_valid := True,
     a_untagged := 1, untagged_valid := True, a_tagged := 1, tagged_valid := True, violation_valid := True,
     a_group_base := 0x0100000A, group_base_valid := True, a_group_end := 0x0900000A, group_end_valid := True,
     a_subnet_mask := 0x00FFFFFF, subnet_mask_valid := True\<rparr>"

lemma sample_args_apply:
  "apply_args sample_args zero_info = sample_info" "check_info sample_info = None"
  "\<not> dry_run sample_args" "\<not> force sample_args" "any_valid sample_args" "\<not> incomplete sample_args"
  "zero_info \<noteq> sample_info"
  by (simp_all add: sample_args_def no_args_def zero_info_def sample_info_def apply_args_def check_info_def
      any_valid_def incomplete_def ntohl_def le_word_def)

abbreviation (input) rom_start :: "unit bus" where
  "rom_start \<equiv> \<lparr>world = (), sent = []\<rparr>"

lemma rom_open: "\<exists>s1. open_lan (rom_api mem) host rom_start = (True, s1) \<and>
   get_shelf_fru_info_lock (rom_api mem) OP_TIMESTAMP 0 s1 =
     Some (Some (1, 0), s1\<lparr>sent := sent s1 @ [lock_event (rom_api mem) OP_TIMESTAMP 0]\<rparr>)"
  by (simp add: open_lan_def get_shelf_fru_info_lock_def rom_api_def sim_eval)

text \<open>An area whose records end with the sample's SLAC record.\<close>

definition taken_area :: "u8 list list" where
  "taken_area = butlast sample_area @ [clear_eol (last sample_area), slac_record sample_info]"

definition taken_fru :: "u8 list" where
  "taken_fru = [1, 0, 0, 0, 0, 1, 0, 254] @ concat taken_area"

lemma taken_area_ok: "is_area taken_area" "length (concat taken_area) = 50" "list_ex slac taken_area"
  "length (concat (takeWhile (\<lambda>r. \<not> slac r) taken_area)) = 16"
  using added_area [OF sample_area_ok(1), of sample_info]
    takeWhile_added [OF sample_area_ok(2,1), of sample_info] concat_last [of sample_area]
    sample_area_ok(3) by (simp_all add: taken_area_def sample_area_def)

lemma rom_fetch:
  assumes "length area < 1000"
  shows "\<exists>s3. fetch_shelf_fru_multirecord_area (rom_api ([1, 0, 0, 0, 0, 1, 0, 254] @ area)) (replicate 1000 0) s =
    Some (Some (area @ replicate (1000 - length area) 0, of_nat (length area)), s3)"
proof -
  let ?mem = "[1, 0, 0, 0, 0, 1, 0, 254] @ area"
  have "device_holds (rom_api ?mem) ?mem" by (rule rom_device) (use assms in simp)
  from multirecord_fetch [OF this, of "replicate 1000 0" s] assms show ?thesis by simp
qed


lemma rom_write_data:
  assumes "pos + unat count \<le> length src" and "unat count \<le> 16"
  shows "\<exists>s'. write_shelf_fru_data (rom_api mem) lock_id off count src pos s = Some (Some (), s')"
  using assms by (simp add: write_shelf_fru_data_def rom_api_def sim_eval Let_def)

lemma rom_write_loop:
  "n \<le> length buf \<Longrightarrow> \<exists>s'. write_loop (rom_api mem) lock_id n src dst buf s = Some (Some (), s')"
proof (induction "n - src" arbitrary: src dst s rule: less_induct)
  case less
  show ?case
  proof (cases "src < n")
    case False
    then show ?thesis by (simp add: write_loop.simps)
  next
    case True
    define k where "k = (if src + 16 < n then 16 else n - src)"
    have k: "0 < k" "k \<le> 16" "src + k \<le> n" using True by (auto simp: k_def)
    then have "unat (of_nat k :: u8) = k" by (simp add: unat_of_nat take_bit_nat_eq_self)
    then obtain s1 where "write_shelf_fru_data (rom_api mem) lock_id (of_nat dst) (of_nat k) buf src s = Some (Some (), s1)"
      using rom_write_data [of src "of_nat k" buf mem lock_id "of_nat dst" s] k less.prems by auto
    moreover obtain s2 where "write_loop (rom_api mem) lock_id n (src + k) (dst + k) buf s1 = Some (Some (), s2)"
      using less.hyps [of "src + k"] k True less.prems by fastforce
    ultimately show ?thesis using True by (subst write_loop.simps) (simp add: Let_def k_def)
  qed
qed

lemma rom_write:
  assumes "unat size1 \<le> length buf" and "8 \<le> length mem"
  shows "\<exists>s'. write_shelf_fru_multirecord_area (rom_api mem) 0 buf size1 s = Some (Some (), s')"
proof -
  have lock: "get_shelf_fru_info_lock (rom_api mem) oper l s = Some (Some (1, 0),
      s\<lparr>sent := sent s @ [lock_event (rom_api mem) oper l]\<rparr>)" for oper l and s :: "unit bus"
    by (simp add: get_shelf_fru_info_lock_def rom_api_def sim_eval)
  obtain hdr s1 where r: "read_shelf_fru_data (rom_api mem) 0 8 (replicate 8 0) 0 s = Some (Some hdr, s1)"
    using assms(2) by (auto simp: read_shelf_fru_data_def rom_api_def sim_eval)
  obtain s3 where w: "write_loop (rom_api mem) 1 (unat size1) 0 (unat (hdr ! multirecord_area_offset) * 8) buf
      (s1\<lparr>sent := sent s1 @ [lock_event (rom_api mem) OP_LOCK 0]\<rparr>) = Some (Some (), s3)"
    using rom_write_loop [OF assms(1)] by blast
  show ?thesis by (simp add: write_shelf_fru_multirecord_area_def r lock w)
qed

lemma sample_run:
  "\<exists>s1 s2 s3 s'. open_lan (rom_api sample_fru) (dest sample_args) rom_start = (True, s1) \<and>
     get_shelf_fru_info_lock (rom_api sample_fru) OP_TIMESTAMP 0 s1 = Some (Some (1, 0), s2) \<and>
     fetch_shelf_fru_multirecord_area (rom_api sample_fru) (replicate 1000 0) s2 =
       Some (Some (concat sample_area @ replicate 34 0 @ replicate 950 0, 16), s3) \<and>
     set_shelf_ip_info (rom_api sample_fru) sample_args (replicate 1000 0) zero_info rom_start = Some (0, s')"
proof -
  obtain s1 s2 where s12: "open_lan (rom_api sample_fru) (dest sample_args) rom_start = (True, s1)"
    "get_shelf_fru_info_lock (rom_api sample_fru) OP_TIMESTAMP 0 s1 = Some (Some (1, 0), s2)"
    using rom_open by metis
  obtain s3 where "fetch_shelf_fru_multirecord_area (rom_api sample_fru) (replicate 1000 0) s2 =
       Some (Some (concat sample_area @ replicate 984 0, 16), s3)"
    using rom_fetch [of "concat sample_area" s2] sample_area_ok(3) by (auto simp: sample_fru_def)
  then have s3: "fetch_shelf_fru_multirecord_area (rom_api sample_fru) (replicate 1000 0) s2 =
       Some (Some (concat sample_area @ replicate 34 0 @ replicate 950 0, 16), s3)"
    by (simp add: replicate_add [symmetric])
  have none: "find_shelf_ip_info_record (concat sample_area @ replicate 34 0 @ replicate 950 0) (ucast (16 :: u32)) = Some None"
    using find_area [OF sample_area_ok(1), of 16 "replicate 34 0 @ replicate 950 0"] sample_area_ok(2,3)
    by (auto simp: list_all_iff list_ex_iff)
  have rm: "remove_slac_shelf_ip_record (concat sample_area @ replicate 34 0 @ replicate 950 0) 16 =
      Some (1, concat sample_area @ replicate 34 0 @ replicate 950 0, 16)"
    using remove_absent [OF sample_area_ok(1,2)] sample_area_ok(3) by simp
  obtain buf2 where ad: "add_slac_shelf_ip_info sample_info (concat sample_area @ replicate 34 0 @ replicate 950 0) 16 =
      Some (buf2, 50)" "50 \<le> length buf2"
    using add_area [OF sample_area_ok(1), of 16 "replicate 34 0" sample_info "replicate 950 0"] sample_area_ok(3) by simp
  obtain s4 where "write_shelf_fru_multirecord_area (rom_api sample_fru) 0 buf2 50 s3 = Some (Some (), s4)"
    using rom_write [of 50 buf2 sample_fru s3] ad(2) by (auto simp: sample_fru_def)
  then have "set_shelf_ip_info (rom_api sample_fru) sample_args (replicate 1000 0) zero_info rom_start = Some (0, close_lan s4)"
    unfolding set_after_fetch [OF s12 s3 none, of zero_info] using sample_args_apply rm ad(1)
    by (simp add: set_tail_def)
  then show ?thesis using s12 s3 by blast
qed


theorem set_closes_connection_witness:
  "\<exists>s'. set_shelf_ip_info (rom_api sample_fru) sample_args (replicate 1000 0) zero_info rom_start = Some (0, s') \<and>
     last (sent s') = Closed"
  using sample_run set_closes_connection sample_args_apply(5) by metis

lemma taken_run:
  "\<exists>s1 s2 s3. open_lan (rom_api taken_fru) (dest no_args) rom_start = (True, s1) \<and>
     get_shelf_fru_info_lock (rom_api taken_fru) OP_TIMESTAMP 0 s1 = Some (Some (1, 0), s2) \<and>
     fetch_shelf_fru_multirecord_area (rom_api taken_fru) (replicate 1000 0) s2 =
       Some (Some (concat taken_area @ replicate 950 0, 50), s3) \<and>
     find_shelf_ip_info_record (concat taken_area @ replicate 950 0) (ucast (50 :: u32)) = Some (Some 16)"
proof -
  obtain s1 s2 where s12: "open_lan (rom_api taken_fru) (dest no_args) rom_start = (True, s1)"
    "get_shelf_fru_info_lock (rom_api taken_fru) OP_TIMESTAMP 0 s1 = Some (Some (1, 0), s2)"
    using rom_open by metis
  moreover obtain s3 where "fetch_shelf_fru_multirecord_area (rom_api taken_fru) (replicate 1000 0) s2 =
       Some (Some (concat taken_area @ replicate 950 0, 50), s3)"
    using rom_fetch [of "concat taken_area" s2] taken_area_ok(2) by (auto simp: taken_fru_def)
  moreover have "find_shelf_ip_info_record (concat taken_area @ replicate 950 0) (ucast (50 :: u32)) = Some (Some 16)"
    using find_area [OF taken_area_ok(1), of 50 "replicate 950 0"] taken_area_ok(2-4) by simp
  ultimately show ?thesis by blast
qed

theorem set_unchanged_leaks_connection_witness:
  "\<exists>s3. set_shelf_ip_info (rom_api taken_fru) no_args (replicate 1000 0) zero_info rom_start = Some (1, s3) \<and>
     last (sent s3) \<noteq> Closed"
proof -
  have "\<not> force no_args" "\<not> any_valid no_args" by (simp_all add: no_args_def any_valid_def)
  then show ?thesis using taken_run set_unchanged_leaks_connection by metis
qed

theorem set_refused_writes_nothing_witness:
  "\<exists>s' es. set_shelf_ip_info (rom_api taken_fru) no_args (replicate 1000 0) zero_info rom_start = Some (1, s') \<and>
     sent s' = es \<and> list_all (\<lambda>e. \<not> is_write e) es"
proof -
  obtain s1 s2 s3 where st: "open_lan (rom_api taken_fru) (dest no_args) rom_start = (True, s1)"
     "get_shelf_fru_info_lock (rom_api taken_fru) OP_TIMESTAMP 0 s1 = Some (Some (1, 0), s2)"
     "fetch_shelf_fru_multirecord_area (rom_api taken_fru) (replicate 1000 0) s2 =
       Some (Some (concat taken_area @ replicate 950 0, 50), s3)"
     "find_shelf_ip_info_record (concat taken_area @ replicate 950 0) (ucast (50 :: u32)) = Some (Some 16)"
    using taken_run by metis
  have "set_shelf_ip_info (rom_api taken_fru) no_args (replicate 1000 0) zero_info rom_start = Some (1, s3)"
    using set_after_fetch [OF st] by (simp add: no_args_def any_valid_def)
  from set_refused_writes_nothing [OF this] this show ?thesis by auto
qed

end
