(* ===== verification/Mmu.thy ===== *)
theory Mmu
  imports MemRegion "HOL-Library.Monad_Syntax"
begin

text \<open>
  The translation tables of the ARM Cortex A9 memory management unit
  (\<^verbatim>\<open>tool/memory/src/armCA9/memMmu.c\<close>, constants of \<^verbatim>\<open>tool/memory/armCA9/memConstants.h\<close>):
  the bit layout of the entries, filling page tables, splitting sections into small pages
  and changing the attributes of a range of addresses. Virtual addresses are 32-bit words
  that wrap around; pointers to table entries are addresses of the memory \<open>words\<close>.
  The registers the code sets through inline assembler are fields of the state; cache and
  TLB maintenance has no effect on it.
\<close>

subsection \<open>Entries\<close>

definition STTE_TYPE_PAGE_TABLE :: u32 where "STTE_TYPE_PAGE_TABLE = 1"
definition STTE_TYPE_SECTION :: u32 where "STTE_TYPE_SECTION = 2"
definition STTE_TYPE_FAULT :: u32 where "STTE_TYPE_FAULT = 0"
definition PTTE_TYPE_SMALL_PAGE :: u32 where "PTTE_TYPE_SMALL_PAGE = 1"
definition PTTE_TYPE_FAULT :: u32 where "PTTE_TYPE_FAULT = 0"
definition STTE_TYPE_MASK :: u32 where "STTE_TYPE_MASK = 3"
definition STTE_TABLE_MASK :: u32 where "STTE_TABLE_MASK = 0xfffffc00"
definition MEMORY_DOMAIN :: u32 where "MEMORY_DOMAIN = 15"
definition SECTION_SIZE :: u32 where "SECTION_SIZE = 0x100000"
definition SMALL_PAGE_SIZE :: u32 where "SMALL_PAGE_SIZE = 0x1000"
definition SMALL_PAGE_MASK :: u32 where "SMALL_PAGE_MASK = 0xff"
definition PAGES_PER_SECTION :: nat where "PAGES_PER_SECTION = 256"

lemmas tte_consts =
  STTE_TYPE_PAGE_TABLE_def STTE_TYPE_SECTION_def STTE_TYPE_FAULT_def PTTE_TYPE_SMALL_PAGE_def
  PTTE_TYPE_FAULT_def STTE_TYPE_MASK_def STTE_TABLE_MASK_def MEMORY_DOMAIN_def

lemmas size_consts = SECTION_SIZE_def SMALL_PAGE_SIZE_def SMALL_PAGE_MASK_def PAGES_PER_SECTION_def

lemmas flag_consts =
  MEM_READ_def MEM_WRITE_def MEM_EXEC_def MEM_CACHED_def MEM_DEVICE_def MEM_HANDSHAKE_def MEM_SHARED_def

record PropParts =
  p_xn :: u32
  p_s :: u32
  p_ap2 :: u32
  p_ap1 :: u32
  p_access :: u32
  p_tex :: u32
  p_cb :: u32
  p_stype :: u32
  p_ptype :: u32

text \<open>The TEX and CB constants are 0, 0, 2, 1 and 0, 1, 0, 3, 0 in the order of the source.\<close>

definition flagsToPropParts :: "u16 \<Rightarrow> PropParts" where
  "flagsToPropParts flags =
     (if flags AND (MEM_READ OR MEM_WRITE) = 0
      then \<lparr>p_xn = 0, p_s = 0, p_ap2 = 0, p_ap1 = 0, p_access = 0, p_tex = 0, p_cb = 0,
            p_stype = STTE_TYPE_FAULT, p_ptype = PTTE_TYPE_FAULT\<rparr>
      else let ap2 = (if flags AND MEM_WRITE \<noteq> 0 then 0 else 1) in
        if flags AND MEM_HANDSHAKE \<noteq> 0
        then \<lparr>p_xn = 1, p_s = 0, p_ap2 = ap2, p_ap1 = 1, p_access = 1, p_tex = 0, p_cb = 0,
              p_stype = STTE_TYPE_SECTION, p_ptype = PTTE_TYPE_SMALL_PAGE\<rparr>
        else if flags AND MEM_DEVICE \<noteq> 0
        then \<lparr>p_xn = 1, p_s = 0, p_ap2 = ap2, p_ap1 = 1, p_access = 1,
              p_tex = (if flags AND MEM_SHARED \<noteq> 0 then 0 else 2),
              p_cb = (if flags AND MEM_SHARED \<noteq> 0 then 1 else 0),
              p_stype = STTE_TYPE_SECTION, p_ptype = PTTE_TYPE_SMALL_PAGE\<rparr>
        else \<lparr>p_xn = (if flags AND MEM_EXEC \<noteq> 0 then 0 else 1),
              p_s = (if flags AND MEM_SHARED \<noteq> 0 then 1 else 0), p_ap2 = ap2, p_ap1 = 1, p_access = 1,
              p_tex = 1, p_cb = (if flags AND MEM_CACHED \<noteq> 0 then 3 else 0),
              p_stype = STTE_TYPE_SECTION, p_ptype = PTTE_TYPE_SMALL_PAGE\<rparr>)"

definition sectionNum :: "u32 \<Rightarrow> nat" where "sectionNum v = unat (drop_bit 20 v)"
definition sectionFloor :: "u32 \<Rightarrow> u32" where "sectionFloor v = v AND NOT (SECTION_SIZE - 1)"
definition sectionCeil :: "u32 \<Rightarrow> u32" where "sectionCeil v = sectionFloor (v + SECTION_SIZE - 1)"
definition sectionAligned :: "u32 \<Rightarrow> bool" where "sectionAligned v \<longleftrightarrow> v = sectionFloor v"

definition pageNum :: "u32 \<Rightarrow> nat" where "pageNum v = unat (drop_bit 12 v AND SMALL_PAGE_MASK)"
definition pageFloor :: "u32 \<Rightarrow> u32" where "pageFloor v = v AND NOT (SMALL_PAGE_SIZE - 1)"
definition pageCeil :: "u32 \<Rightarrow> u32" where "pageCeil v = pageFloor (v + SMALL_PAGE_SIZE - 1)"
definition pageAligned :: "u32 \<Rightarrow> bool" where "pageAligned v \<longleftrightarrow> v = pageFloor v"

text \<open>The page table an entry refers to, \<open>NIL\<close> for an entry of another type.\<close>

definition getPageTable :: "u32 \<Rightarrow> addr" where
  "getPageTable stte =
     (if stte AND STTE_TYPE_MASK = STTE_TYPE_PAGE_TABLE then unat (stte AND STTE_TABLE_MASK) else NIL)"

definition sectionPropertyBits :: "PropParts \<Rightarrow> u32" where
  "sectionPropertyBits parts =
     push_bit 4 (p_xn parts) OR push_bit 16 (p_s parts) OR push_bit 15 (p_ap2 parts) OR
     push_bit 11 (p_ap1 parts) OR push_bit 10 (p_access parts) OR push_bit 12 (p_tex parts) OR
     push_bit 2 (p_cb parts) OR p_stype parts"

definition decodeSectionProperties :: "u32 \<Rightarrow> PropParts" where
  "decodeSectionProperties stte =
     (let stype = stte AND STTE_TYPE_MASK
      in \<lparr>p_xn = drop_bit 4 stte AND 1, p_s = drop_bit 16 stte AND 1, p_ap2 = drop_bit 15 stte AND 1,
          p_ap1 = drop_bit 11 stte AND 1, p_access = 1, p_tex = drop_bit 12 stte AND 7,
          p_cb = drop_bit 2 stte AND 3, p_stype = stype,
          p_ptype = (if stype = STTE_TYPE_FAULT then PTTE_TYPE_FAULT else PTTE_TYPE_SMALL_PAGE)\<rparr>)"

definition sectionTte :: "u32 \<Rightarrow> u32 \<Rightarrow> u32" where
  "sectionTte sectVaddr sectProps = sectVaddr OR push_bit 5 MEMORY_DOMAIN OR sectProps"

definition pageTableRefTte :: "addr \<Rightarrow> u32" where
  "pageTableRefTte pageTable = sectionTte (of_nat pageTable) STTE_TYPE_PAGE_TABLE"

definition pagePropertyBits :: "PropParts \<Rightarrow> u32" where
  "pagePropertyBits parts =
     p_xn parts OR push_bit 10 (p_s parts) OR push_bit 9 (p_ap2 parts) OR push_bit 5 (p_ap1 parts) OR
     push_bit 4 (p_access parts) OR push_bit 6 (p_tex parts) OR push_bit 2 (p_cb parts) OR
     push_bit 1 (p_ptype parts)"

subsection \<open>Reading entries\<close>

datatype PageType = RESERVED | SECTION | SMALL_PAGE

record Props =
  ap :: u32
  tex :: u32
  cb :: u32
  xn :: u32
  shared :: u32
  ptype :: PageType

definition makeProps :: "u32 \<Rightarrow> nat \<Rightarrow> Props" where
  "makeProps tte tableLevel =
     (if tableLevel = 1 \<and> tte AND 2 = 2
      then \<lparr>ap = drop_bit 14 tte AND 2 OR drop_bit 11 tte AND 1, tex = drop_bit 12 tte AND 7,
            cb = drop_bit 2 tte AND 3, xn = drop_bit 4 tte AND 1, shared = drop_bit 16 tte AND 1,
            ptype = SECTION\<rparr>
      else if tableLevel = 2 \<and> tte AND 2 \<noteq> 0
      then \<lparr>ap = drop_bit 8 tte AND 2 OR drop_bit 5 tte AND 1, tex = drop_bit 6 tte AND 7,
            cb = drop_bit 2 tte AND 3, xn = tte AND 1, shared = drop_bit 10 tte AND 1,
            ptype = SMALL_PAGE\<rparr>
      else \<lparr>ap = 0, tex = 0, cb = 0, xn = 0, shared = 0, ptype = RESERVED\<rparr>)"

subsection \<open>Filling page tables\<close>

record mmu =
  words :: "addr \<Rightarrow> u32"
  dacr :: u32
  ttbr0 :: u32
  sctlr :: u32

definition store :: "addr \<Rightarrow> u32 \<Rightarrow> mmu \<Rightarrow> mmu" where
  "store p w s = s\<lparr>words := (words s)(p := w)\<rparr>"

partial_function (option) page_loop :: "addr \<Rightarrow> u32 \<Rightarrow> u32 \<Rightarrow> u32 \<Rightarrow> mmu \<Rightarrow> mmu option" where
  "page_loop nextTte propBits nextVaddr endVaddr s =
     (if nextVaddr \<noteq> endVaddr
      then page_loop (nextTte + 4) propBits (nextVaddr + SMALL_PAGE_SIZE) endVaddr
             (store nextTte (nextVaddr OR propBits) s)
      else Some s)"

definition setPageTable :: "addr \<Rightarrow> u32 \<Rightarrow> u32 \<Rightarrow> u32 \<Rightarrow> mmu \<Rightarrow> mmu option" where
  "setPageTable nextTte propBits nextVaddr endVaddr s =
     (if \<not> pageAligned nextVaddr \<or> \<not> pageAligned endVaddr then Some s
      else page_loop nextTte propBits nextVaddr endVaddr s)"

subsection \<open>Access to the live tables\<close>

definition openMmu :: "mmu \<Rightarrow> u32 \<times> mmu" where
  "openMmu s = (dacr s, s\<lparr>dacr := - 1\<rparr>)"

definition closeMmu :: "u32 \<Rightarrow> mmu \<Rightarrow> mmu" where
  "closeMmu d s = s\<lparr>dacr := d\<rparr>"

definition getSectionTable :: "mmu \<Rightarrow> addr" where
  "getSectionTable s = unat (ttbr0 s AND NOT 0x3fff)"

definition open_if :: "bool \<Rightarrow> mmu \<Rightarrow> u32 \<times> mmu" where
  "open_if mmuActive s = (if mmuActive then openMmu s else (0, s))"

definition close_if :: "bool \<Rightarrow> u32 \<Rightarrow> mmu \<Rightarrow> mmu" where
  "close_if mmuActive oldDacr s = (if mmuActive then closeMmu oldDacr s else s)"

subsection \<open>Splitting sections into pages\<close>

text \<open>
  The two loops of \<open>mem_explode_core\<close>. The second one advances \<open>nextSectionTte\<close> only where it
  writes an entry, and \<open>nextPageTte\<close> in every round, as the source does.
\<close>

partial_function (option) explode_count :: "addr \<Rightarrow> u32 \<Rightarrow> u32 \<Rightarrow> u32 \<Rightarrow> mmu \<Rightarrow> u32 option" where
  "explode_count nextSectionTte nextVaddr endVaddr npages s =
     (if nextVaddr \<noteq> endVaddr
      then explode_count (nextSectionTte + 4) (nextVaddr + SECTION_SIZE) endVaddr
             (if getPageTable (words s nextSectionTte) = NIL then npages + of_nat PAGES_PER_SECTION else npages) s
      else Some npages)"

partial_function (option) explode_loop :: "addr \<Rightarrow> addr \<Rightarrow> u32 \<Rightarrow> u32 \<Rightarrow> mmu \<Rightarrow> mmu option" where
  "explode_loop nextSectionTte nextPageTte nextVaddr endVaddr s =
     (if nextVaddr \<noteq> endVaddr
      then let stte = words s nextSectionTte in
        if getPageTable stte = NIL
        then do {
          s1 \<leftarrow> setPageTable nextPageTte (pagePropertyBits (decodeSectionProperties stte))
                 nextVaddr (nextVaddr + SECTION_SIZE) s;
          explode_loop (nextSectionTte + 4) (nextPageTte + 4 * PAGES_PER_SECTION) (nextVaddr + SECTION_SIZE) endVaddr
            (store nextSectionTte (sectionTte (of_nat nextPageTte) STTE_TYPE_PAGE_TABLE) s1) }
        else explode_loop nextSectionTte (nextPageTte + 4 * PAGES_PER_SECTION) (nextVaddr + SECTION_SIZE) endVaddr s
      else Some s)"

text \<open>
  \<open>alloc\<close> is the allocator of the MMU region, a function of the request and the region table.
  The result is the returned truth value with the new region table and state.
\<close>

definition mem_explode_core ::
    "(u32 \<Rightarrow> 'r \<Rightarrow> u32 \<times> 'r) \<Rightarrow> u32 \<Rightarrow> u32 \<Rightarrow> addr \<Rightarrow> bool \<Rightarrow> 'r \<Rightarrow> mmu \<Rightarrow> (bool \<times> 'r \<times> mmu) option" where
  "mem_explode_core alloc startVaddr endVaddr sectTable mmuActive tab s =
     (let startSectionTte = sectTable + 4 * sectionNum startVaddr in
      if startVaddr = endVaddr then Some (True, tab, s)
      else let startVaddr = sectionFloor startVaddr; endVaddr = sectionCeil endVaddr in do {
        npages \<leftarrow> explode_count startSectionTte startVaddr endVaddr 0 s;
        if npages = 0 then Some (True, tab, s)
        else let (nextPageTte, tab) = alloc (npages * 4) tab in
          if nextPageTte = 0 then Some (False, tab, s)
          else let (oldDacr, s) = open_if mmuActive s in do {
            s \<leftarrow> explode_loop startSectionTte (unat nextPageTte) startVaddr endVaddr s;
            Some (True, tab, close_if mmuActive oldDacr s) } })"

definition mem_explode ::
    "u32 \<Rightarrow> u32 \<Rightarrow> mem_Region list \<Rightarrow> mmu \<Rightarrow> (bool \<times> mem_Region list \<times> mmu) option" where
  "mem_explode startVaddr endVaddr tab s =
     mem_explode_core (mem_Region_alloc MEM_REGION_MMU) startVaddr endVaddr (getSectionTable s) True tab s"

subsection \<open>Changing attributes\<close>

partial_function (option) flags_loop :: "addr \<Rightarrow> u32 \<Rightarrow> u32 \<Rightarrow> u32 \<Rightarrow> u32 \<Rightarrow> mmu \<Rightarrow> mmu option" where
  "flags_loop nextSectionTte pageProps sectProps nextVaddr endVaddr s =
     (if nextVaddr \<noteq> endVaddr
      then let pageTable = getPageTable (words s nextSectionTte);
               nextnext = nextVaddr + SECTION_SIZE in do {
        s1 \<leftarrow> (if pageTable \<noteq> NIL then setPageTable pageTable pageProps nextVaddr nextnext s
               else Some (store nextSectionTte (sectionTte nextVaddr sectProps) s));
        flags_loop (nextSectionTte + 4) pageProps sectProps nextnext endVaddr s1 }
      else Some s)"

definition mem_setFlags_core :: "u32 \<Rightarrow> u32 \<Rightarrow> u16 \<Rightarrow> bool \<Rightarrow> addr \<Rightarrow> mmu \<Rightarrow> mmu option" where
  "mem_setFlags_core startVaddr endVaddr flags mmuActive sectionTable s =
     (if startVaddr = endVaddr then Some s
      else let (oldDacr, s) = open_if mmuActive s;
               parts = flagsToPropParts flags;
               pageProps = pagePropertyBits parts;
               pageTable = getPageTable (words s (sectionTable + 4 * sectionNum startVaddr)) in
      if sectionNum startVaddr = sectionNum (endVaddr - 1) \<and> pageTable \<noteq> NIL
      then do {
        s \<leftarrow> setPageTable (pageTable + 4 * pageNum startVaddr) pageProps (pageFloor startVaddr) (pageCeil endVaddr) s;
        Some (close_if mmuActive oldDacr s) }
      else let sectProps = sectionPropertyBits parts in do {
        (startVaddr, s) \<leftarrow>
          (if pageTable \<noteq> NIL
           then do {
             s \<leftarrow> setPageTable (pageTable + 4 * pageNum startVaddr) pageProps (pageFloor startVaddr)
                    (sectionCeil startVaddr) s;
             Some (sectionCeil startVaddr, s) }
           else Some (startVaddr, s));
        (endVaddr, s) \<leftarrow>
          (let pageTable = getPageTable (words s (sectionTable + 4 * sectionNum (endVaddr - 1))) in
           if pageTable \<noteq> NIL
           then do {
             s \<leftarrow> setPageTable pageTable pageProps (sectionFloor (endVaddr - 1)) (pageCeil endVaddr) s;
             Some (sectionFloor (endVaddr - 1), s) }
           else Some (endVaddr, s));
        let startVaddr = sectionFloor startVaddr; endVaddr = sectionCeil endVaddr in do {
          s \<leftarrow> flags_loop (sectionTable + 4 * sectionNum startVaddr) pageProps sectProps startVaddr endVaddr s;
          Some (close_if mmuActive oldDacr s) } })"

definition mem_setFlags :: "u32 \<Rightarrow> u32 \<Rightarrow> u16 \<Rightarrow> mmu \<Rightarrow> mmu option" where
  "mem_setFlags startVaddr endVaddr flags s =
     mem_setFlags_core startVaddr endVaddr flags True (getSectionTable s) s"


subsection \<open>Addresses as numbers\<close>

lemma floor_masks: "NOT (SECTION_SIZE - 1) = NOT (mask 20)" "NOT (SMALL_PAGE_SIZE - 1) = NOT (mask 12)"
  by (simp_all add: size_consts mask_eq_exp_minus_1)

lemma floor_nat:
  "sectionFloor (of_nat x) = of_nat (x div 2 ^ 20 * 2 ^ 20)" "pageFloor (of_nat x) = of_nat (x div 2 ^ 12 * 2 ^ 12)"
  unfolding sectionFloor_def pageFloor_def floor_masks by (rule floor_of_nat)+

lemma exp_step: "(e + 2 ^ k) div 2 ^ k = Suc (e div 2 ^ k)" for e :: nat
  using div_add_self2 [of "2 ^ k" e] by simp

lemma ceil_nat:
  "sectionCeil (of_nat (Suc e)) = of_nat (Suc (e div 2 ^ 20) * 2 ^ 20)"
  "pageCeil (of_nat (Suc e)) = of_nat (Suc (e div 2 ^ 12) * 2 ^ 12)"
proof -
  have "sectionCeil (of_nat (Suc e)) = sectionFloor (of_nat (e + 2 ^ 20))"
    by (simp add: sectionCeil_def size_consts add.commute)
  then show "sectionCeil (of_nat (Suc e)) = of_nat (Suc (e div 2 ^ 20) * 2 ^ 20)"
    unfolding floor_nat by (simp only: exp_step)
  have "pageCeil (of_nat (Suc e)) = pageFloor (of_nat (e + 2 ^ 12))"
    by (simp add: pageCeil_def size_consts add.commute)
  then show "pageCeil (of_nat (Suc e)) = of_nat (Suc (e div 2 ^ 12) * 2 ^ 12)"
    unfolding floor_nat by (simp only: exp_step)
qed

lemma num_nat:
  assumes "x < 2 ^ 32"
  shows "sectionNum (of_nat x) = x div 2 ^ 20" "pageNum (of_nat x) = x div 2 ^ 12 mod 2 ^ 8"
proof -
  have u: "unat (of_nat x :: u32) = x" using assms by (rule unat_of_nat_u32)
  show "sectionNum (of_nat x) = x div 2 ^ 20"
    unfolding sectionNum_def unat_drop_bit_eq u by (rule drop_bit_eq_div)
  have "SMALL_PAGE_MASK = mask 8" by (simp add: size_consts mask_eq_exp_minus_1)
  then have "pageNum (of_nat x) = take_bit 8 (drop_bit 12 x)"
    using unsigned_take_bit_eq [of 8 "drop_bit 12 (of_nat x :: u32)", where 'a = nat] u
    by (simp add: pageNum_def take_bit_eq_mask unat_drop_bit_eq del: drop_bit_of_nat)
  then show "pageNum (of_nat x) = x div 2 ^ 12 mod 2 ^ 8"
    by (simp only: take_bit_eq_mod drop_bit_eq_div)
qed

lemma page_aligned_nat [simp]: "pageAligned (of_nat (x * 2 ^ 12))"
  using floor_nat(2) [of "x * 2 ^ 12"] by (simp add: pageAligned_def)

lemma section_size_nat: "SECTION_SIZE = of_nat (2 ^ 20)" "SMALL_PAGE_SIZE = of_nat (2 ^ 12)"
  by (simp_all add: size_consts)

subsection \<open>Filling\<close>

text \<open>\<open>n\<close> consecutive entries from address \<open>p\<close> set to the values of \<open>f\<close>.\<close>

definition fill :: "addr \<Rightarrow> nat \<Rightarrow> (nat \<Rightarrow> u32) \<Rightarrow> mmu \<Rightarrow> mmu" where
  "fill p n f s = s\<lparr>words := (\<lambda>a. if p \<le> a \<and> a < p + 4 * n \<and> 4 dvd (a - p) then f ((a - p) div 4) else words s a)\<rparr>"

lemma fill_at [simp]: "words (fill p n f s) (p + 4 * i) = (if i < n then f i else words s (p + 4 * i))"
  by (simp add: fill_def)

lemma fill_other [frame_simps]: "a < p \<or> p + 4 * n \<le> a \<Longrightarrow> words (fill p n f s) a = words s a"
  by (auto simp: fill_def)

lemma fill_regs [simp]: "dacr (fill p n f s) = dacr s" "ttbr0 (fill p n f s) = ttbr0 s" "sctlr (fill p n f s) = sctlr s"
  by (simp_all add: fill_def)

lemma store_regs [simp]: "dacr (store p w s) = dacr s" "ttbr0 (store p w s) = ttbr0 s" "sctlr (store p w s) = sctlr s"
  by (simp_all add: store_def)

lemma store_words [simp]: "words (store p w s) a = (if a = p then w else words s a)"
  by (simp add: store_def)

lemma fill_0 [simp]: "fill p 0 f s = s"
proof -
  have "(\<lambda>a. if p \<le> a \<and> a < p + 4 * 0 \<and> 4 dvd (a - p) then f ((a - p) div 4) else words s a) = words s"
    by (rule ext) auto
  then show ?thesis by (simp add: fill_def)
qed

lemma fill_Suc: "fill (p + 4) n (\<lambda>i. f (Suc i)) (store p (f 0) s) = fill p (Suc n) f s"
proof -
  have d: "p + 4 \<le> a \<and> 4 dvd (a - (p + 4)) \<and> (a - p) div 4 = Suc ((a - (p + 4)) div 4)"
    if "4 dvd (a - p)" "p \<le> a" "a \<noteq> p" for a
  proof -
    note order = that(2,3)
    obtain k where "a - p = 4 * k" using \<open>4 dvd (a - p)\<close> ..
    then have "a = p + 4 * Suc (k - 1)" using order by (cases k) simp_all
    then obtain j where "a = p + 4 * Suc j" ..
    then show ?thesis by simp
  qed
  have d': "4 dvd (a - p)" if "4 dvd (a - (p + 4))" "p + 4 \<le> a" for a
  proof -
    obtain k where "a - (p + 4) = 4 * k" using \<open>4 dvd (a - (p + 4))\<close> ..
    then have "a - p = 4 * Suc k" using that(2) by simp
    then show ?thesis by (rule dvdI)
  qed
  have "words (fill (p + 4) n (\<lambda>i. f (Suc i)) (store p (f 0) s)) a = words (fill p (Suc n) f s) a" for a
  proof (cases "a = p")
    case True
    then show ?thesis by (simp add: fill_def)
  next
    case False
    show ?thesis
    proof (cases "4 dvd (a - p) \<and> p \<le> a")
      case True
      then show ?thesis using d [of a] False by (simp add: fill_def)
    next
      case no: False
      then have "\<not> (p + 4 \<le> a \<and> 4 dvd (a - (p + 4)))" using d' [of a] by fastforce
      then show ?thesis using no False by (auto simp: fill_def)
    qed
  qed
  then show ?thesis by (intro mmu.equality) (auto simp: fun_eq_iff)
qed


lemma page_loop_fill:
  "n < 2 ^ 20 \<Longrightarrow> page_loop p props v (v + of_nat (n * 2 ^ 12)) s =
     Some (fill p n (\<lambda>i. (v + of_nat (i * 2 ^ 12)) OR props) s)"
proof (induction n arbitrary: p v s)
  case 0
  then show ?case by (simp add: page_loop.simps)
next
  case (Suc n)
  have "(of_nat (Suc n * 2 ^ 12) :: u32) \<noteq> 0" using Suc.prems by (intro of_nat_u32_nonzero) simp_all
  then have "v \<noteq> v + of_nat (Suc n * 2 ^ 12)" by simp
  then have "page_loop p props v (v + of_nat (Suc n * 2 ^ 12)) s =
      page_loop (p + 4) props (v + SMALL_PAGE_SIZE) (v + of_nat (Suc n * 2 ^ 12)) (store p (v OR props) s)"
    by (subst page_loop.simps) simp
  also have "v + of_nat (Suc n * 2 ^ 12) = (v + SMALL_PAGE_SIZE) + of_nat (n * 2 ^ 12)"
    unfolding section_size_nat by (simp add: algebra_simps)
  also have "page_loop (p + 4) props (v + SMALL_PAGE_SIZE) ((v + SMALL_PAGE_SIZE) + of_nat (n * 2 ^ 12)) (store p (v OR props) s) =
      Some (fill (p + 4) n (\<lambda>i. ((v + SMALL_PAGE_SIZE) + of_nat (i * 2 ^ 12)) OR props) (store p (v OR props) s))"
    using Suc by simp
  also have "(\<lambda>i. ((v + SMALL_PAGE_SIZE) + of_nat (i * 2 ^ 12)) OR props) = (\<lambda>i. (v + of_nat (Suc i * 2 ^ 12)) OR props)"
    unfolding section_size_nat by (simp add: fun_eq_iff algebra_simps)
  finally show ?case
    using fill_Suc [of p n "\<lambda>i. (v + of_nat (i * 2 ^ 12)) OR props" s] by (simp add: size_consts algebra_simps)
qed

text \<open>The same between addresses given as numbers.\<close>

lemma setPageTable_fill:
  assumes "a \<le> b" and "b - a < 2 ^ 20"
  shows "setPageTable p props (of_nat (a * 2 ^ 12)) (of_nat (b * 2 ^ 12)) s =
    Some (fill p (b - a) (\<lambda>i. of_nat ((a + i) * 2 ^ 12) OR props) s)"
proof -
  have b: "(of_nat (b * 2 ^ 12) :: u32) = of_nat (a * 2 ^ 12) + of_nat ((b - a) * 2 ^ 12)"
    using assms(1) by (metis add_diff_inverse_nat add_mult_distrib not_less of_nat_add)
  have "setPageTable p props (of_nat (a * 2 ^ 12)) (of_nat (b * 2 ^ 12)) s =
      page_loop p props (of_nat (a * 2 ^ 12)) (of_nat (b * 2 ^ 12)) s"
    unfolding setPageTable_def by (simp only: page_aligned_nat) simp
  then show ?thesis
    unfolding b page_loop_fill [OF assms(2)] by (simp only: add_mult_distrib of_nat_add)
qed

subsection \<open>The tables as an array of pages\<close>

text \<open>
  Section \<open>k\<close> of the address space, page \<open>x\<close> of it: the first-level entry, the page table it
  refers to, and the entry that determines the translation of the page.
\<close>

definition stte :: "addr \<Rightarrow> mmu \<Rightarrow> nat \<Rightarrow> u32" where
  "stte base s k = words s (base + 4 * k)"

definition paged :: "addr \<Rightarrow> mmu \<Rightarrow> nat \<Rightarrow> bool" where
  "paged base s k \<longleftrightarrow> stte base s k AND STTE_TYPE_MASK = STTE_TYPE_PAGE_TABLE"

definition table_at :: "addr \<Rightarrow> mmu \<Rightarrow> nat \<Rightarrow> addr" where
  "table_at base s k = unat (stte base s k AND STTE_TABLE_MASK)"

definition entry :: "addr \<Rightarrow> mmu \<Rightarrow> nat \<Rightarrow> nat \<Rightarrow> u32" where
  "entry base s k x = (if paged base s k then words s (table_at base s k + 4 * x) else stte base s k)"

text \<open>Every page table has its own memory, outside of the first-level table.\<close>

definition tables_ok :: "addr \<Rightarrow> mmu \<Rightarrow> bool" where
  "tables_ok base s \<longleftrightarrow> (\<forall>k < 4096. paged base s k \<longrightarrow>
     table_at base s k \<noteq> NIL \<and> (table_at base s k + 1024 \<le> base \<or> base + 16384 \<le> table_at base s k) \<and>
     (\<forall>j < 4096. j \<noteq> k \<and> paged base s j \<longrightarrow> table_at base s j \<noteq> table_at base s k))"

lemma getPageTable_at:
  "getPageTable (words s (base + 4 * k)) = (if paged base s k then table_at base s k else NIL)"
  by (simp add: getPageTable_def paged_def table_at_def stte_def)

lemma table_mask: "STTE_TABLE_MASK = NOT (mask 10)"
  by (simp add: tte_consts mask_eq_exp_minus_1)

lemma table_at_aligned: "1024 dvd table_at base s k"
proof -
  have "stte base s k AND STTE_TABLE_MASK = of_nat (unat (stte base s k) div 2 ^ 10 * 2 ^ 10)"
    unfolding table_mask using floor_of_nat [of "unat (stte base s k)" 10, where 'a = 32] by simp
  moreover have "unat (stte base s k) div 2 ^ 10 * 2 ^ 10 < 2 ^ 32"
    using div_times_less_eq_dividend [of "unat (stte base s k)" "2 ^ 10"] unsigned_less [of "stte base s k", where 'a = nat]
    by simp
  ultimately have "table_at base s k = unat (stte base s k) div 2 ^ 10 * 2 ^ 10"
    by (simp only: table_at_def unat_of_nat_u32)
  then show ?thesis by simp
qed

lemma tables_okD:
  assumes "tables_ok base s" and "k < 4096" and "paged base s k"
  shows "table_at base s k \<noteq> NIL"
    and "table_at base s k + 1024 \<le> base \<or> base + 16384 \<le> table_at base s k"
    and "j < 4096 \<Longrightarrow> j \<noteq> k \<Longrightarrow> paged base s j \<Longrightarrow>
      table_at base s j + 1024 \<le> table_at base s k \<or> table_at base s k + 1024 \<le> table_at base s j"
proof -
  show "table_at base s k \<noteq> NIL"
    and "table_at base s k + 1024 \<le> base \<or> base + 16384 \<le> table_at base s k"
    using assms by (auto simp: tables_ok_def)
  assume "j < 4096" "j \<noteq> k" "paged base s j"
  then have "table_at base s j \<noteq> table_at base s k" using assms by (auto simp: tables_ok_def)
  moreover obtain a b where "table_at base s j = 1024 * a" "table_at base s k = 1024 * b"
    using table_at_aligned [of base s j] table_at_aligned [of base s k] by (auto elim!: dvdE)
  ultimately show "table_at base s j + 1024 \<le> table_at base s k \<or> table_at base s k + 1024 \<le> table_at base s j"
    by (cases "a < b") auto
qed


subsection \<open>Setting the attributes of a set of pages\<close>

definition new_entry :: "u16 \<Rightarrow> bool \<Rightarrow> nat \<Rightarrow> nat \<Rightarrow> u32" where
  "new_entry flags pg k x =
     (if pg then of_nat ((256 * k + x) * 2 ^ 12) OR pagePropertyBits (flagsToPropParts flags)
      else sectionTte (of_nat (k * 2 ^ 20)) (sectionPropertyBits (flagsToPropParts flags)))"

text \<open>The pages of \<open>A\<close> get the attributes \<open>flags\<close> and nothing else changes.\<close>

definition sets :: "addr \<Rightarrow> u16 \<Rightarrow> (nat \<times> nat) set \<Rightarrow> mmu \<Rightarrow> mmu \<Rightarrow> bool" where
  "sets base flags A s s' \<longleftrightarrow>
     (\<forall>k < 4096. paged base s' k = paged base s k \<and> (paged base s k \<longrightarrow> stte base s' k = stte base s k) \<and>
        (\<forall>x < 256. entry base s' k x = (if (k, x) \<in> A then new_entry flags (paged base s k) k x else entry base s k x))) \<and>
     dacr s' = dacr s \<and> ttbr0 s' = ttbr0 s \<and> sctlr s' = sctlr s"

lemma sets_empty [simp]: "sets base flags {} s s"
  by (simp add: sets_def)

lemma sets_trans: "sets base flags A s s' \<Longrightarrow> sets base flags B s' s'' \<Longrightarrow> sets base flags (A \<union> B) s s''"
  by (auto simp: sets_def)

lemma sets_cong:
  assumes "sets base flags A s s'" and "\<And>k x. k < 4096 \<Longrightarrow> x < 256 \<Longrightarrow> (k, x) \<in> A \<longleftrightarrow> (k, x) \<in> B"
  shows "sets base flags B s s'"
  using assms by (simp add: sets_def)

lemma sets_paged:
  assumes "sets base flags A s s'" and "k < 4096"
  shows "paged base s' k = paged base s k" and "paged base s k \<Longrightarrow> table_at base s' k = table_at base s k"
  using assms by (simp_all add: sets_def table_at_def)

lemma sets_tables_ok: "sets base flags A s s' \<Longrightarrow> tables_ok base s \<Longrightarrow> tables_ok base s'"
  unfolding tables_ok_def using sets_paged by metis

lemma fill_table:
  assumes ok: "tables_ok base s" and k: "k < 4096" "paged base s k" and pq: "p \<le> q" "q \<le> 256"
    and s': "s' = fill (table_at base s k + 4 * p) (q - p) (\<lambda>i. f (p + i)) s"
  shows "j < 4096 \<Longrightarrow> stte base s' j = stte base s j"
    and "j < 4096 \<Longrightarrow> x < 256 \<Longrightarrow> entry base s' j x = (if j = k \<and> p \<le> x \<and> x < q then f x else entry base s j x)"
proof -
  let ?t = "table_at base s k"
  have other: "words s' a = words s a" if "a < ?t \<or> ?t + 1024 \<le> a" for a
    unfolding s' using that pq by (intro fill_other) auto
  show stte: "stte base s' j = stte base s j" if "j < 4096" for j
    unfolding stte_def using tables_okD(2) [OF ok k] that by (intro other) auto
  then have eq: "paged base s' j = paged base s j" "table_at base s' j = table_at base s j" if "j < 4096" for j
    using that by (simp_all add: paged_def table_at_def)
  show "entry base s' j x = (if j = k \<and> p \<le> x \<and> x < q then f x else entry base s j x)" if j: "j < 4096" "x < 256"
  proof (cases "paged base s j")
    case False
    then show ?thesis using j k eq stte by (auto simp: entry_def)
  next
    case True
    show ?thesis
    proof (cases "j = k")
      case True
      have "words s' (?t + 4 * x) = (if p \<le> x \<and> x < q then f x else words s (?t + 4 * x))"
      proof (cases "p \<le> x")
        case True
        then obtain i where i: "x = p + i" by (auto simp: le_iff_add)
        then have "words s' (?t + 4 * x) = words s' ((?t + 4 * p) + 4 * i)" by (simp add: add.assoc)
        also have "\<dots> = (if i < q - p then f (p + i) else words s ((?t + 4 * p) + 4 * i))"
          unfolding s' by (rule fill_at)
        finally show ?thesis using i by (auto simp: algebra_simps)
      next
        case False
        then show ?thesis unfolding s' by (subst fill_other) auto
      qed
      then show ?thesis using True k eq by (simp add: entry_def)
    next
      case False
      then have "table_at base s j + 1024 \<le> ?t \<or> ?t + 1024 \<le> table_at base s j"
        using tables_okD(3) [OF ok k j(1)] \<open>paged base s j\<close> by simp
      then have "words s' (table_at base s j + 4 * x) = words s (table_at base s j + 4 * x)"
        using j(2) by (intro other) auto
      then show ?thesis using False \<open>paged base s j\<close> j eq by (simp add: entry_def)
    qed
  qed
qed

lemma set_pages:
  assumes "tables_ok base s" and "k < 4096" "paged base s k" and "p \<le> q" "q \<le> 256"
  shows "\<exists>s'. setPageTable (table_at base s k + 4 * p) (pagePropertyBits (flagsToPropParts flags))
      (of_nat ((256 * k + p) * 2 ^ 12)) (of_nat ((256 * k + q) * 2 ^ 12)) s = Some s' \<and>
    sets base flags ({k} \<times> {p..<q}) s s'"
proof -
  define s' where "s' = fill (table_at base s k + 4 * p) (q - p)
    (\<lambda>i. of_nat ((256 * k + (p + i)) * 2 ^ 12) OR pagePropertyBits (flagsToPropParts flags)) s"
  have "setPageTable (table_at base s k + 4 * p) (pagePropertyBits (flagsToPropParts flags))
      (of_nat ((256 * k + p) * 2 ^ 12)) (of_nat ((256 * k + q) * 2 ^ 12)) s = Some s'"
    using setPageTable_fill [of "256 * k + p" "256 * k + q" "table_at base s k + 4 * p"] assms(4,5)
    by (simp add: s'_def add.assoc)
  moreover note fill = fill_table [OF assms s'_def]
  have "sets base flags ({k} \<times> {p..<q}) s s'"
    using fill assms(3) by (auto simp: sets_def new_entry_def paged_def s'_def)
  ultimately show ?thesis by blast
qed


lemma new_section_not_paged:
  "sectionTte (of_nat (k * 2 ^ 20)) (sectionPropertyBits (flagsToPropParts flags)) AND STTE_TYPE_MASK \<noteq> STTE_TYPE_PAGE_TABLE"
proof -
  have "\<not> bit (sectionTte (of_nat (k * 2 ^ 20)) (sectionPropertyBits (flagsToPropParts flags))) 0"
  proof -
    have "(of_nat (k * 2 ^ 20) :: u32) = push_bit 20 (of_nat k)" by (simp add: push_bit_eq_mult)
    then have "\<not> bit (of_nat (k * 2 ^ 20) :: u32) 0" by (simp only: bit_push_bit_iff) simp
    then show ?thesis
      by (auto simp: sectionTte_def sectionPropertyBits_def flagsToPropParts_def tte_consts Let_def bit_or_iff
          bit_push_bit_iff split: if_splits)
  qed
  then have "\<not> bit (sectionTte (of_nat (k * 2 ^ 20)) (sectionPropertyBits (flagsToPropParts flags)) AND STTE_TYPE_MASK) 0"
    by (simp add: bit_and_iff)
  moreover have "bit STTE_TYPE_PAGE_TABLE 0" by (simp add: tte_consts)
  ultimately show ?thesis by metis
qed

lemma set_section:
  assumes ok: "tables_ok base s" and k: "k < 4096" "\<not> paged base s k"
  shows "sets base flags ({k} \<times> {..<256}) s
    (store (base + 4 * k) (sectionTte (of_nat (k * 2 ^ 20)) (sectionPropertyBits (flagsToPropParts flags))) s)"
    (is "sets _ _ _ _ ?s'")
proof -
  have other: "words ?s' (base + 4 * j) = words s (base + 4 * j)" if "j \<noteq> k" for j using that by simp
  have np: "\<not> paged base ?s' k" using new_section_not_paged by (simp add: paged_def stte_def)
  have st: "stte base ?s' j = stte base s j" if "j \<noteq> k" for j using that by (simp add: stte_def)
  then have pg: "paged base ?s' j = paged base s j" for j using np k by (cases "j = k") (simp_all add: paged_def)
  have st': "stte base ?s' j = stte base s j" if "paged base s j" for j using that st k by metis
  have "entry base ?s' j x = (if j = k then new_entry flags False k x else entry base s j x)" if "j < 4096" "x < 256" for j x
  proof (cases "paged base s j")
    case True
    then have jk: "j \<noteq> k" using k by blast
    have "table_at base s j + 4 * x \<noteq> base + 4 * k"
      using tables_okD(2) [OF ok that(1) True] that(2) k(1) by linarith
    then show ?thesis using True jk pg st by (simp add: entry_def table_at_def)
  next
    case False
    then show ?thesis using pg st by (simp add: entry_def new_entry_def stte_def)
  qed
  then show ?thesis using pg st' k(2) by (auto simp: sets_def)
qed

lemma section_nat: "(of_nat (256 * k * 2 ^ 12) :: u32) = of_nat (k * 2 ^ 20)"
  by simp

lemma flags_loop_sets:
  assumes "tables_ok base s" and "i \<le> j" "j \<le> 4096" "j - i < 4096"
  shows "\<exists>s'. flags_loop (base + 4 * i) (pagePropertyBits (flagsToPropParts flags))
      (sectionPropertyBits (flagsToPropParts flags)) (of_nat (i * 2 ^ 20)) (of_nat (j * 2 ^ 20)) s = Some s' \<and>
    sets base flags ({i..<j} \<times> {..<256}) s s'"
  using assms
proof (induction "j - i" arbitrary: i s)
  case 0
  then show ?case by (intro exI [of _ s]) (simp add: flags_loop.simps)
next
  case (Suc n)
  then have lt: "i < j" "i < 4096" by simp_all
  have "(of_nat (j * 2 ^ 20) :: u32) - of_nat (i * 2 ^ 20) = of_nat ((j - i) * 2 ^ 20)"
    using lt by (simp add: of_nat_diff algebra_simps)
  moreover have "(of_nat ((j - i) * 2 ^ 20) :: u32) \<noteq> 0"
    using lt Suc.prems(4) by (intro of_nat_u32_nonzero) simp_all
  ultimately have ne: "(of_nat (i * 2 ^ 20) :: u32) \<noteq> of_nat (j * 2 ^ 20)" by (metis diff_self)
  have nxt: "(of_nat (i * 2 ^ 20) :: u32) + SECTION_SIZE = of_nat (Suc i * 2 ^ 20)"
    unfolding section_size_nat by simp
  have "\<exists>s1. (if getPageTable (words s (base + 4 * i)) \<noteq> NIL
        then setPageTable (getPageTable (words s (base + 4 * i))) (pagePropertyBits (flagsToPropParts flags))
               (of_nat (i * 2 ^ 20)) (of_nat (Suc i * 2 ^ 20)) s
        else Some (store (base + 4 * i) (sectionTte (of_nat (i * 2 ^ 20)) (sectionPropertyBits (flagsToPropParts flags))) s)) = Some s1 \<and>
      sets base flags ({i} \<times> {..<256}) s s1"
  proof (cases "paged base s i")
    case True
    then have "table_at base s i \<noteq> NIL" using tables_okD(1) [OF Suc.prems(1) lt(2)] by simp
    moreover have "(of_nat ((256 * i + 256) * 2 ^ 12) :: u32) = of_nat (Suc i * 2 ^ 20)"
      "(of_nat ((256 * i + 0) * 2 ^ 12) :: u32) = of_nat (i * 2 ^ 20)" by simp_all
    ultimately show ?thesis
      using set_pages [OF Suc.prems(1) lt(2) True le0 order_refl, of flags] True
      unfolding getPageTable_at by (simp only: lessThan_atLeast0 if_True mult_0_right add_0_right not_False_eq_True)
  next
    case False
    then show ?thesis using set_section [OF Suc.prems(1) lt(2) False] by (simp add: getPageTable_at)
  qed
  then obtain s1 where s1: "(if getPageTable (words s (base + 4 * i)) \<noteq> NIL
        then setPageTable (getPageTable (words s (base + 4 * i))) (pagePropertyBits (flagsToPropParts flags))
               (of_nat (i * 2 ^ 20)) (of_nat (Suc i * 2 ^ 20)) s
        else Some (store (base + 4 * i) (sectionTte (of_nat (i * 2 ^ 20)) (sectionPropertyBits (flagsToPropParts flags))) s)) = Some s1"
    "sets base flags ({i} \<times> {..<256}) s s1"
    by blast
  obtain s' where s': "flags_loop (base + 4 * Suc i) (pagePropertyBits (flagsToPropParts flags))
      (sectionPropertyBits (flagsToPropParts flags)) (of_nat (Suc i * 2 ^ 20)) (of_nat (j * 2 ^ 20)) s1 = Some s'"
    "sets base flags ({Suc i..<j} \<times> {..<256}) s1 s'"
  proof -
    have "n = j - Suc i" "Suc i \<le> j" "j - Suc i < 4096" using Suc.hyps(2) Suc.prems lt by simp_all
    from Suc.hyps(1) [OF this(1) sets_tables_ok [OF s1(2) Suc.prems(1)] this(2) Suc.prems(3) this(3)] that
    show thesis by blast
  qed
  have "flags_loop (base + 4 * i) (pagePropertyBits (flagsToPropParts flags))
      (sectionPropertyBits (flagsToPropParts flags)) (of_nat (i * 2 ^ 20)) (of_nat (j * 2 ^ 20)) s = Some s'"
    using ne s'(1) s1(1) by (subst flags_loop.simps) (simp only: Let_def nxt if_True bind.simps, simp add: algebra_simps)
  moreover have "sets base flags ({i..<j} \<times> {..<256}) s s'"
    by (rule sets_cong [OF sets_trans [OF s1(2) s'(2)]]) (use lt in auto)
  ultimately show ?case by blast
qed


text \<open>The pages a call of \<open>mem_setFlags_core\<close> on the bytes from \<open>first\<close> to \<open>last\<close> is about.\<close>

definition affected :: "addr \<Rightarrow> mmu \<Rightarrow> nat \<Rightarrow> nat \<Rightarrow> (nat \<times> nat) set" where
  "affected base s fst_byte last_byte =
     {(k, x). if paged base s k then fst_byte div 2 ^ 12 \<le> 256 * k + x \<and> 256 * k + x \<le> last_byte div 2 ^ 12
              else fst_byte div 2 ^ 20 \<le> k \<and> k \<le> last_byte div 2 ^ 20}"

lemma page_section: "(n :: nat) div 2 ^ 12 = 256 * (n div 2 ^ 20) + n div 2 ^ 12 mod 2 ^ 8"
proof -
  have "n div 2 ^ 20 = n div 2 ^ 12 div 2 ^ 8" by (simp add: div_mult2_eq [symmetric])
  then show ?thesis using mult_div_mod_eq [of "2 ^ 8" "n div 2 ^ 12"] by simp
qed

lemma trim_front:
  assumes ok: "tables_ok base s" and S: "S < 2 ^ 32"
  shows "\<exists>v i s1 A. (if getPageTable (words s (base + 4 * sectionNum (of_nat S))) \<noteq> NIL
      then do {
        s \<leftarrow> setPageTable (getPageTable (words s (base + 4 * sectionNum (of_nat S))) + 4 * pageNum (of_nat S))
               (pagePropertyBits (flagsToPropParts flags)) (pageFloor (of_nat S)) (sectionCeil (of_nat S)) s;
        Some (sectionCeil (of_nat S), s) }
      else Some (of_nat S, s)) = Some (v, s1) \<and>
    sectionFloor v = of_nat (i * 2 ^ 20) \<and> sets base flags A s s1 \<and> i \<in> {S div 2 ^ 20, Suc (S div 2 ^ 20)} \<and>
    (i \<noteq> S div 2 ^ 20 \<longrightarrow> paged base s (S div 2 ^ 20)) \<and>
    (i = S div 2 ^ 20 \<longrightarrow> paged base s (S div 2 ^ 20) \<longrightarrow> S div 2 ^ 12 mod 2 ^ 8 = 0) \<and>
    A = (if i = S div 2 ^ 20 then {} else {S div 2 ^ 20} \<times> {S div 2 ^ 12 mod 2 ^ 8..<256})"
proof -
  define a p where ap: "a = S div 2 ^ 20" "p = S div 2 ^ 12 mod 2 ^ 8"
  have a: "a < 4096" using S by (simp add: ap less_mult_imp_div_less)
  have p256: "p \<le> 256" by (simp add: ap)
  note folded = num_nat [OF S, folded ap] page_section [of S, folded ap]
  show ?thesis
  proof (cases "paged base s a")
    case False
    then show ?thesis
      unfolding folded(1,2) getPageTable_at ap [symmetric]
      by (intro exI [of _ "of_nat S"] exI [of _ a] exI [of _ s] exI [of _ "{}"]) (simp add: floor_nat ap)
  next
    case True
    have nil: "table_at base s a \<noteq> NIL" using tables_okD(1) [OF ok a True] .
    have floor: "pageFloor (of_nat S) = of_nat ((256 * a + p) * 2 ^ 12)"
      unfolding floor_nat folded(3) ..
    show ?thesis
    proof (cases "S mod 2 ^ 20 = 0")
      case True
      then have S': "S = a * 2 ^ 20" using div_mult_mod_eq [of S "2 ^ 20"] by (simp add: ap)
      have ceil: "sectionCeil (of_nat S) = of_nat (a * 2 ^ 20)"
      proof (cases S)
        case 0
        then show ?thesis by (simp add: sectionCeil_def sectionFloor_def size_consts ap)
      next
        case (Suc e)
        have "Suc (e div 2 ^ 20) = a"
          using True Suc unfolding ap by (metis Suc_eq_plus1 mod_Suc_eq_mod_add3 div_Suc)
        then show ?thesis unfolding Suc ceil_nat by simp
      qed
      have p: "p = 0"
        using folded(3) S' by simp
      obtain s1 where s1: "setPageTable (table_at base s a + 4 * 0) (pagePropertyBits (flagsToPropParts flags))
          (of_nat ((256 * a + 0) * 2 ^ 12)) (of_nat ((256 * a + 0) * 2 ^ 12)) s = Some s1" "sets base flags ({a} \<times> {0..<0}) s s1"
        using set_pages [OF ok a \<open>paged base s a\<close>, of 0 0 flags] by auto
      have eq: "(of_nat (a * 2 ^ 20) :: u32) = of_nat ((256 * a + 0) * 2 ^ 12)" by simp
      have "setPageTable (table_at base s a + 4 * p) (pagePropertyBits (flagsToPropParts flags))
          (pageFloor (of_nat S)) (sectionCeil (of_nat S)) s = Some s1"
        unfolding floor ceil p eq by (rule s1(1))
      moreover have "sectionFloor (sectionCeil (of_nat S)) = of_nat (a * 2 ^ 20)"
        unfolding ceil floor_nat by simp
      ultimately show ?thesis
        unfolding folded(1,2) getPageTable_at ap [symmetric] using nil \<open>paged base s a\<close> s1(2) p
        by (intro exI [of _ "sectionCeil (of_nat S)"] exI [of _ a] exI [of _ s1] exI [of _ "{}"]) simp
    next
      case False
      then obtain e where e: "S = Suc e" "e div 2 ^ 20 = a"
        by (cases S) (auto simp: div_Suc ap)
      have ceil: "sectionCeil (of_nat S) = of_nat (Suc a * 2 ^ 20)"
        unfolding e(1) ceil_nat using e by simp
      obtain s1 where s1: "setPageTable (table_at base s a + 4 * p) (pagePropertyBits (flagsToPropParts flags))
          (of_nat ((256 * a + p) * 2 ^ 12)) (of_nat ((256 * a + 256) * 2 ^ 12)) s = Some s1"
        "sets base flags ({a} \<times> {p..<256}) s s1"
        using set_pages [OF ok a True p256, of flags] by auto
      have eq: "(of_nat (Suc a * 2 ^ 20) :: u32) = of_nat ((256 * a + 256) * 2 ^ 12)" by simp
      have "setPageTable (table_at base s a + 4 * p) (pagePropertyBits (flagsToPropParts flags))
          (pageFloor (of_nat S)) (sectionCeil (of_nat S)) s = Some s1"
        unfolding floor ceil eq by (rule s1(1))
      moreover have "sectionFloor (sectionCeil (of_nat S)) = of_nat (Suc a * 2 ^ 20)"
        unfolding ceil floor_nat using nonzero_mult_div_cancel_right [of "2 ^ 20 :: nat" "Suc a"] by simp
      ultimately show ?thesis
        unfolding folded(1,2) getPageTable_at ap [symmetric] using nil True s1(2)
        by (intro exI [of _ "sectionCeil (of_nat S)"] exI [of _ "Suc a"] exI [of _ s1]
            exI [of _ "{a} \<times> {p..<256}"]) simp
    qed
  qed
qed

lemma trim_back:
  assumes ok: "tables_ok base s" and E: "E < 2 ^ 32"
  shows "\<exists>v j s1 A. (let pageTable = getPageTable (words s (base + 4 * sectionNum (of_nat E)))
      in if pageTable \<noteq> NIL
      then do {
        s \<leftarrow> setPageTable pageTable (pagePropertyBits (flagsToPropParts flags))
               (sectionFloor (of_nat E)) (pageCeil (of_nat (Suc E))) s;
        Some (sectionFloor (of_nat E), s) }
      else Some (of_nat (Suc E), s)) = Some (v, s1) \<and>
    sectionCeil v = of_nat (j * 2 ^ 20) \<and> sets base flags A s s1 \<and>
    j = (if paged base s (E div 2 ^ 20) then E div 2 ^ 20 else Suc (E div 2 ^ 20)) \<and>
    A = (if j = E div 2 ^ 20 then {E div 2 ^ 20} \<times> {0..<Suc (E div 2 ^ 12 mod 2 ^ 8)} else {})"
proof -
  define b q where bq: "b = E div 2 ^ 20" "q = E div 2 ^ 12 mod 2 ^ 8"
  have b: "b < 4096" using E by (simp add: bq less_mult_imp_div_less)
  have q: "Suc q \<le> 256" by (simp add: bq Suc_le_eq)
  note folded = num_nat [OF E, folded bq] page_section [of E, folded bq]
  show ?thesis
  proof (cases "paged base s b")
    case False
    then show ?thesis
      unfolding folded(1,2) getPageTable_at bq [symmetric]
      by (intro exI [of _ "of_nat (Suc E)"] exI [of _ "Suc b"] exI [of _ s] exI [of _ "{}"])
         (simp add: ceil_nat [simplified] bq)
  next
    case True
    have nil: "table_at base s b \<noteq> NIL" using tables_okD(1) [OF ok b True] .
    obtain s1 where s1: "setPageTable (table_at base s b + 4 * 0) (pagePropertyBits (flagsToPropParts flags))
        (of_nat ((256 * b + 0) * 2 ^ 12)) (of_nat ((256 * b + Suc q) * 2 ^ 12)) s = Some s1"
      "sets base flags ({b} \<times> {0..<Suc q}) s s1"
      using set_pages [OF ok b True le0 q, of flags] by auto
    have floor: "sectionFloor (of_nat E) = of_nat ((256 * b + 0) * 2 ^ 12)"
      unfolding floor_nat bq [symmetric] by simp
    have ceil: "pageCeil (of_nat (Suc E)) = of_nat ((256 * b + Suc q) * 2 ^ 12)"
      unfolding ceil_nat folded(3) by simp
    have ceil_floor: "sectionCeil (of_nat ((256 * b + 0) * 2 ^ 12)) = of_nat (b * 2 ^ 20)"
    proof (cases b)
      case 0
      then show ?thesis by (simp add: sectionCeil_def sectionFloor_def size_consts)
    next
      case (Suc d)
      have "(256 * b + 0) * 2 ^ 12 = Suc (d * 2 ^ 20 + (2 ^ 20 - 1))" by (simp add: Suc)
      moreover have "(d * 2 ^ 20 + (2 ^ 20 - 1)) div 2 ^ 20 = d" by simp
      ultimately show ?thesis unfolding Suc by (simp only: ceil_nat)
    qed
    show ?thesis
      unfolding folded(1,2) getPageTable_at floor ceil bq [symmetric] Let_def using nil True s1 ceil_floor
      by (intro exI [of _ "of_nat ((256 * b + 0) * 2 ^ 12)"] exI [of _ b] exI [of _ s1]
          exI [of _ "{b} \<times> {0..<Suc q}"]) simp
  qed
qed


lemma dacr_frame [simp]:
  "stte base (s\<lparr>dacr := d\<rparr>) k = stte base s k" "paged base (s\<lparr>dacr := d\<rparr>) k = paged base s k"
  "table_at base (s\<lparr>dacr := d\<rparr>) k = table_at base s k" "entry base (s\<lparr>dacr := d\<rparr>) k x = entry base s k x"
  "tables_ok base (s\<lparr>dacr := d\<rparr>) = tables_ok base s" "affected base (s\<lparr>dacr := d\<rparr>) i j = affected base s i j"
  by (simp_all add: stte_def paged_def table_at_def entry_def tables_ok_def affected_def)

lemma open_close:
  assumes "open_if active s = (d, s0)"
  shows "words s0 = words s" "tables_ok base s0 = tables_ok base s" "paged base s0 k = paged base s k"
    "sets base flags A s0 s1 \<Longrightarrow> sets base flags A s (close_if active d s1)"
  using assms by (auto simp: open_if_def openMmu_def close_if_def closeMmu_def sets_def split: if_splits)

lemma cell_le:
  fixes a k p x :: nat
  assumes "x < 256" and "p < 256"
  shows "256 * a + p \<le> 256 * k + x \<longleftrightarrow> a < k \<or> a = k \<and> p \<le> x"
proof (cases a k rule: linorder_cases)
  case less
  then have "a + 1 \<le> k" by simp
  then have "256 * (a + 1) \<le> 256 * k" by (rule mult_le_mono2)
  then show ?thesis using assms less by simp
next
  case equal
  then show ?thesis by simp
next
  case greater
  then have "k + 1 \<le> a" by simp
  then have "256 * (k + 1) \<le> 256 * a" by (rule mult_le_mono2)
  then show ?thesis using assms greater by simp
qed

lemma affected_one_section:
  assumes "S \<le> E" and "S div 2 ^ 20 = E div 2 ^ 20" and "paged base s (E div 2 ^ 20)"
    and "k < 4096" and "x < 256" and "E < 2 ^ 32"
  shows "(k, x) \<in> affected base s S E \<longleftrightarrow> k = E div 2 ^ 20 \<and> S div 2 ^ 12 mod 2 ^ 8 \<le> x \<and> x < Suc (E div 2 ^ 12 mod 2 ^ 8)"
proof -
  define b p q where bpq: "b = E div 2 ^ 20" "p = S div 2 ^ 12 mod 2 ^ 8" "q = E div 2 ^ 12 mod 2 ^ 8"
  have pg: "S div 2 ^ 12 = 256 * b + p" "E div 2 ^ 12 = 256 * b + q" "p < 256" "q < 256"
    using page_section [of S] page_section [of E] assms(2) by (simp_all add: bpq)
  have "256 * b + p \<le> 256 * k + x \<and> 256 * k + x \<le> 256 * b + q \<longleftrightarrow> k = b \<and> p \<le> x \<and> x < Suc q"
    using cell_le [OF assms(5) pg(3)] cell_le [OF pg(4) assms(5)] by auto
  then show ?thesis using assms(2,3) unfolding bpq [symmetric] unfolding affected_def pg by (auto simp: bpq)
qed

lemma affected_sections:
  assumes "S \<le> E" and "k < 4096" and "x < 256"
    and i: "i \<in> {S div 2 ^ 20, Suc (S div 2 ^ 20)}" "i \<noteq> S div 2 ^ 20 \<Longrightarrow> paged base s (S div 2 ^ 20)"
      "i = S div 2 ^ 20 \<Longrightarrow> paged base s (S div 2 ^ 20) \<Longrightarrow> S div 2 ^ 12 mod 2 ^ 8 = 0"
    and j: "j = (if paged base s (E div 2 ^ 20) then E div 2 ^ 20 else Suc (E div 2 ^ 20))"
    and ij: "i \<le> E div 2 ^ 20"
  shows "(k, x) \<in> affected base s S E \<longleftrightarrow>
    (i \<noteq> S div 2 ^ 20 \<and> k = S div 2 ^ 20 \<and> S div 2 ^ 12 mod 2 ^ 8 \<le> x) \<or>
    (j = E div 2 ^ 20 \<and> k = E div 2 ^ 20 \<and> x < Suc (E div 2 ^ 12 mod 2 ^ 8)) \<or> (i \<le> k \<and> k < j)"
proof -
  define a b p q where abpq: "a = S div 2 ^ 20" "b = E div 2 ^ 20" "p = S div 2 ^ 12 mod 2 ^ 8" "q = E div 2 ^ 12 mod 2 ^ 8"
  have pg: "S div 2 ^ 12 = 256 * a + p" "E div 2 ^ 12 = 256 * b + q" "p < 256" "q < 256"
    using page_section [of S] page_section [of E] by (simp_all add: abpq)
  have ab: "a \<le> b" unfolding abpq using assms(1) by (rule div_le_mono)
  have lo: "256 * a + p \<le> 256 * k + x \<longleftrightarrow> a < k \<or> a = k \<and> p \<le> x" by (rule cell_le [OF assms(3) pg(3)])
  have hi: "256 * k + x \<le> 256 * b + q \<longleftrightarrow> k < b \<or> k = b \<and> x \<le> q" by (rule cell_le [OF pg(4) assms(3)])
  have "(k, x) \<in> affected base s S E \<longleftrightarrow>
      (if paged base s k then (a < k \<or> a = k \<and> p \<le> x) \<and> (k < b \<or> k = b \<and> x \<le> q) else a \<le> k \<and> k \<le> b)"
    unfolding affected_def pg abpq [symmetric] by (simp add: lo hi)
  then show ?thesis
    using i j ij ab unfolding abpq [symmetric] by (cases "paged base s k"; cases "k = a"; cases "k = b") (auto simp: less_Suc_eq_le)
qed


lemma setFlags_sets:
  assumes ok: "tables_ok base s" and ne: "startVaddr \<noteq> endVaddr"
    and SE: "S = unat startVaddr" "E = unat (endVaddr - 1)" "S \<le> E"
    and range: "E div 2 ^ 20 - S div 2 ^ 20 < 4095"
  shows "\<exists>s'. mem_setFlags_core startVaddr endVaddr flags mmuActive base s = Some s' \<and>
    sets base flags (affected base s S E) s s'"
proof -
  let ?a = "S div 2 ^ 20" and ?b = "E div 2 ^ 20" and ?p = "S div 2 ^ 12 mod 2 ^ 8" and ?q = "E div 2 ^ 12 mod 2 ^ 8"
  have S: "S < 2 ^ 32" "startVaddr = of_nat S" and E: "E < 2 ^ 32" "endVaddr - 1 = of_nat E"
    unfolding SE using unsigned_less [of startVaddr, where 'a = nat] unsigned_less [of "endVaddr - 1", where 'a = nat] by simp_all
  have last_end: "endVaddr = of_nat (Suc E)" using E(2) by (metis add.commute diff_add_cancel of_nat_Suc)
  obtain d s0 where d: "open_if mmuActive s = (d, s0)" by (cases "open_if mmuActive s")
  have ok0: "tables_ok base s0" using ok open_close(2) [OF d] by simp
  have pgd: "paged base s0 k = paged base s k" for k by (rule open_close(3) [OF d])
  have ab: "?a \<le> ?b" using SE(3) by (rule div_le_mono)
  have b: "?b < 4096" using E(1) by (simp add: less_mult_imp_div_less)
  show ?thesis
  proof (cases "?a = ?b \<and> paged base s0 ?b")
    case True
    have "sectionFloor (of_nat E) = of_nat (256 * ?b * 2 ^ 12)" "256 * ?b + ?q = E div 2 ^ 12"
      unfolding floor_nat using page_section [of E] by simp_all
    obtain s1 where s1: "setPageTable (table_at base s0 ?b + 4 * ?p) (pagePropertyBits (flagsToPropParts flags))
        (of_nat ((256 * ?b + ?p) * 2 ^ 12)) (of_nat ((256 * ?b + Suc ?q) * 2 ^ 12)) s0 = Some s1"
      "sets base flags ({?b} \<times> {?p..<Suc ?q}) s0 s1"
    proof -
      have "?p \<le> Suc ?q" "Suc ?q \<le> 256"
        using page_section [of S] page_section [of E] True div_le_mono [OF SE(3), of "2 ^ 12"]
        by (simp_all add: Suc_le_eq)
      from set_pages [OF ok0 b conjunct2 [OF True] this] that show thesis by blast
    qed
    have "pageFloor (of_nat S) = of_nat ((256 * ?b + ?p) * 2 ^ 12)"
      unfolding floor_nat using page_section [of S] True by simp
    moreover have "256 * ?b + Suc ?q = Suc (E div 2 ^ 12)" using page_section [of E] by simp
    then have "pageCeil (of_nat (Suc E)) = of_nat ((256 * ?b + Suc ?q) * 2 ^ 12)"
      unfolding ceil_nat by simp
    moreover have "table_at base s0 ?b \<noteq> NIL" using tables_okD(1) [OF ok0 b] True by simp
    ultimately have "mem_setFlags_core startVaddr endVaddr flags mmuActive base s = Some (close_if mmuActive d s1)"
      unfolding mem_setFlags_core_def d Let_def E(2) S(2)
      using ne last_end S(2) s1(1) True num_nat [OF S(1)] num_nat [OF E(1)]
      by (simp add: getPageTable_at)
    moreover have "sets base flags (affected base s S E) s0 s1"
      by (rule sets_cong [OF s1(2)]) (use affected_one_section [OF SE(3) conjunct1 [OF True], of base s] True pgd E(1) in auto)
    ultimately show ?thesis using open_close(4) [OF d] by blast
  next
    case False
    obtain v i s1 A where front: "(if getPageTable (words s0 (base + 4 * sectionNum (of_nat S))) \<noteq> NIL
        then do {
          s \<leftarrow> setPageTable (getPageTable (words s0 (base + 4 * sectionNum (of_nat S))) + 4 * pageNum (of_nat S))
                 (pagePropertyBits (flagsToPropParts flags)) (pageFloor (of_nat S)) (sectionCeil (of_nat S)) s0;
          Some (sectionCeil (of_nat S), s) }
        else Some (of_nat S, s0)) = Some (v, s1)"
      "sectionFloor v = of_nat (i * 2 ^ 20)" "sets base flags A s0 s1" "i \<in> {?a, Suc ?a}"
      "i \<noteq> ?a \<longrightarrow> paged base s0 ?a" "i = ?a \<longrightarrow> paged base s0 ?a \<longrightarrow> ?p = 0"
      "A = (if i = ?a then {} else {?a} \<times> {?p..<256})"
      using trim_front [OF ok0 S(1), of flags] by (elim exE conjE) (rule that)
    have ok1: "tables_ok base s1" using sets_tables_ok [OF front(3) ok0] .
    have pg1: "paged base s1 k = paged base s k" if "k < 4096" for k using sets_paged(1) [OF front(3) that] pgd by simp
    obtain w j s2 B where rear: "(let pageTable = getPageTable (words s1 (base + 4 * sectionNum (of_nat E)))
        in if pageTable \<noteq> NIL
        then do {
          s \<leftarrow> setPageTable pageTable (pagePropertyBits (flagsToPropParts flags))
                 (sectionFloor (of_nat E)) (pageCeil (of_nat (Suc E))) s1;
          Some (sectionFloor (of_nat E), s) }
        else Some (of_nat (Suc E), s1)) = Some (w, s2)"
      "sectionCeil w = of_nat (j * 2 ^ 20)" "sets base flags B s1 s2"
      "j = (if paged base s1 ?b then ?b else Suc ?b)"
      "B = (if j = ?b then {?b} \<times> {0..<Suc ?q} else {})"
      using trim_back [OF ok1 E(1), of flags] by (elim exE conjE) (rule that)
    have ok2: "tables_ok base s2" using sets_tables_ok [OF rear(3) ok1] .
    have ib: "i \<le> ?b"
      using False front(4,5) ab by (cases "?a = ?b") auto
    have ij: "i \<le> j" "j \<le> 4096" "j - i < 4096"
    proof -
      define a' b' where ab': "a' = ?a" "b' = ?b"
      have "a' \<le> i" "i \<le> b'" "j = b' \<or> j = Suc b'" "b' < 4096" "b' - a' < 4095" "a' \<le> b'"
        using ib rear(4) b front(4) range ab unfolding ab' by auto
      then show "i \<le> j" "j \<le> 4096" "j - i < 4096" by auto
    qed
    obtain s3 where loop: "flags_loop (base + 4 * i) (pagePropertyBits (flagsToPropParts flags))
        (sectionPropertyBits (flagsToPropParts flags)) (of_nat (i * 2 ^ 20)) (of_nat (j * 2 ^ 20)) s2 = Some s3"
      "sets base flags ({i..<j} \<times> {..<256}) s2 s3"
      using flags_loop_sets [OF ok2 ij, of flags] by blast
    have num_i: "sectionNum (of_nat (i * 2 ^ 20)) = i"
    proof -
      have "i * 2 ^ 20 < 2 ^ 32" using ib b by simp
      then show ?thesis by (simp only: num_nat) simp
    qed
    have one: "\<not> (sectionNum (of_nat S) = sectionNum (of_nat E) \<and> getPageTable (words s0 (base + 4 * sectionNum (of_nat S))) \<noteq> NIL)"
      using False unfolding num_nat [OF S(1)] num_nat [OF E(1)] getPageTable_at by auto
    have distinct: "(of_nat S :: u32) \<noteq> of_nat (Suc E)" using ne S(2) last_end by simp
    have E2: "of_nat (Suc E) - 1 = (of_nat E :: u32)" by simp
    have "mem_setFlags_core startVaddr endVaddr flags mmuActive base s = Some (close_if mmuActive d s3)"
      by (simp only: mem_setFlags_core_def S(2) last_end E2 distinct one if_False Let_def d prod.case
          front(1) rear(1) [unfolded Let_def] bind.simps front(2) rear(2) num_i loop(1))
    moreover have "sets base flags (affected base s S E) s0 s3"
    proof (rule sets_cong [OF sets_trans [OF sets_trans [OF front(3) rear(3)] loop(2)]])
      fix k x :: nat
      assume kx: "k < 4096" "x < 256"
      have "(k, x) \<in> affected base s S E \<longleftrightarrow> (i \<noteq> ?a \<and> k = ?a \<and> ?p \<le> x) \<or>
          (j = ?b \<and> k = ?b \<and> x < Suc ?q) \<or> (i \<le> k \<and> k < j)"
        using affected_sections [OF SE(3) kx front(4), of base s j] front(5,6) rear(4) ib pgd pg1 [OF b] by auto
      then show "(k, x) \<in> A \<union> B \<union> {i..<j} \<times> {..<256} \<longleftrightarrow> (k, x) \<in> affected base s S E"
        using kx front(7) rear(5) by auto
    qed
    ultimately show ?thesis using open_close(4) [OF d] by blast
  qed
qed


subsection \<open>What the hardware sees\<close>

text \<open>The attributes and the physical address the tables give to a virtual address.\<close>

definition in_paged :: "addr \<Rightarrow> mmu \<Rightarrow> u32 \<Rightarrow> bool" where
  "in_paged base s v \<longleftrightarrow> paged base s (unat v div 2 ^ 20)"

definition tte_of :: "addr \<Rightarrow> mmu \<Rightarrow> u32 \<Rightarrow> u32" where
  "tte_of base s v = entry base s (unat v div 2 ^ 20) (unat v div 2 ^ 12 mod 2 ^ 8)"

definition attributes :: "addr \<Rightarrow> mmu \<Rightarrow> u32 \<Rightarrow> Props" where
  "attributes base s v = makeProps (tte_of base s v) (if in_paged base s v then 2 else 1)"

definition physical :: "addr \<Rightarrow> mmu \<Rightarrow> u32 \<Rightarrow> u32" where
  "physical base s v =
     (if in_paged base s v then (tte_of base s v AND NOT (mask 12)) OR (v AND mask 12)
      else (tte_of base s v AND NOT (mask 20)) OR (v AND mask 20))"

text \<open>The attributes a set of flags stands for.\<close>

definition flag_props :: "u16 \<Rightarrow> PageType \<Rightarrow> Props" where
  "flag_props flags kind =
     (let dev = flags AND MEM_DEVICE \<noteq> 0; hs = flags AND MEM_HANDSHAKE \<noteq> 0; sh = flags AND MEM_SHARED \<noteq> 0 in
      if flags AND (MEM_READ OR MEM_WRITE) = 0
      then \<lparr>ap = 0, tex = 0, cb = 0, xn = 0, shared = 0, ptype = RESERVED\<rparr>
      else \<lparr>ap = (if flags AND MEM_WRITE \<noteq> 0 then 1 else 3),
            tex = (if hs then 0 else if dev then if sh then 0 else 2 else 1),
            cb = (if hs then 0 else if dev then if sh then 1 else 0 else if flags AND MEM_CACHED \<noteq> 0 then 3 else 0),
            xn = (if \<not> hs \<and> \<not> dev \<and> flags AND MEM_EXEC \<noteq> 0 then 0 else 1),
            shared = (if \<not> hs \<and> \<not> dev \<and> sh then 1 else 0), ptype = kind\<rparr>)"

lemma low_field:
  fixes w c m :: u32
  assumes "take_bit n w = 0" and "take_bit (n - k) m = m"
  shows "drop_bit k (w OR c) AND m = drop_bit k c AND m"
proof (rule bit_word_eqI)
  fix i
  have "\<not> bit w (k + i)" if "bit m i"
  proof -
    have "i < n - k" using assms(2) that by (metis bit_take_bit_iff)
    then have "k + i < n" by simp
    then show ?thesis using assms(1) by (metis bit_take_bit_iff bit_0_eq bot_apply bot_bool_def)
  qed
  then show "bit (drop_bit k (w OR c) AND m) i = bit (drop_bit k c AND m) i"
    by (auto simp: bit_and_iff bit_drop_bit_eq bit_or_iff)
qed

lemma low_field_0:
  fixes w c m :: u32
  shows "take_bit n w = 0 \<Longrightarrow> take_bit n m = m \<Longrightarrow> (w OR c) AND m = c AND m"
  using low_field [of n w 0 m c] by simp

lemma low_bits_0: "take_bit k (of_nat (n * 2 ^ k) :: u32) = 0"
proof -
  have "(of_nat (n * 2 ^ k) :: u32) = push_bit k (of_nat n)" by (simp add: push_bit_eq_mult)
  then show ?thesis by (metis take_bit_push_bit cancel_comm_monoid_add_class.diff_cancel push_bit_of_0 take_bit_0)
qed

text \<open>Parts that fit their fields, and the two ways to read them back.\<close>

definition parts_ok :: "PropParts \<Rightarrow> bool" where
  "parts_ok p \<longleftrightarrow> take_bit 1 (p_xn p) = p_xn p \<and> take_bit 1 (p_s p) = p_s p \<and> take_bit 1 (p_ap2 p) = p_ap2 p \<and>
     take_bit 1 (p_ap1 p) = p_ap1 p \<and> take_bit 1 (p_access p) = p_access p \<and> take_bit 3 (p_tex p) = p_tex p \<and>
     take_bit 2 (p_cb p) = p_cb p \<and> take_bit 2 (p_stype p) = p_stype p \<and> take_bit 1 (p_ptype p) = p_ptype p"

lemma bit_field:
  assumes "take_bit n x = (x :: u32)" and "m + n \<le> 32"
  shows "bit (push_bit m x) i \<longleftrightarrow> m \<le> i \<and> i < m + n \<and> bit x (i - m)"
proof -
  have "bit x (i - m) \<Longrightarrow> i - m < n" using assms(1) by (metis bit_take_bit_iff)
  then show ?thesis using assms(2) unfolding bit_push_bit_iff by auto
qed

lemma bit_field_1: "take_bit 1 x = (x :: u32) \<Longrightarrow> m + 1 \<le> 32 \<Longrightarrow> bit (push_bit m x) i \<longleftrightarrow> i = m \<and> bit x 0"
  using bit_field [of 1 x m i] by auto

lemma bit_field_0: "take_bit n x = (x :: u32) \<Longrightarrow> n \<le> 32 \<Longrightarrow> bit x i \<longleftrightarrow> i < n \<and> bit x i"
  using bit_field [of n x 0 i] by auto

lemma bit_masks:
  "bit (1 :: u32) i \<longleftrightarrow> i = 0" "bit (2 :: u32) i \<longleftrightarrow> i = 1" "bit (3 :: u32) i \<longleftrightarrow> i < 2" "bit (7 :: u32) i \<longleftrightarrow> i < 3"
proof -
  have m: "(2 :: u32) = push_bit 1 1" "(3 :: u32) = mask 2" "(7 :: u32) = mask 3" by (simp_all add: mask_eq_exp_minus_1)
  show "bit (1 :: u32) i \<longleftrightarrow> i = 0" by (simp add: bit_1_iff)
  show "bit (2 :: u32) i \<longleftrightarrow> i = 1" unfolding m(1) bit_push_bit_iff by (auto simp: bit_1_iff)
  show "bit (3 :: u32) i \<longleftrightarrow> i < 2" unfolding m(2) bit_mask_iff by auto
  show "bit (7 :: u32) i \<longleftrightarrow> i < 3" unfolding m(3) bit_mask_iff by auto
qed

lemma bit_page:
  assumes "parts_ok p"
  shows "bit (pagePropertyBits p) i \<longleftrightarrow> i = 0 \<and> bit (p_xn p) 0 \<or> i = 10 \<and> bit (p_s p) 0 \<or>
    i = 9 \<and> bit (p_ap2 p) 0 \<or> i = 5 \<and> bit (p_ap1 p) 0 \<or> i = 4 \<and> bit (p_access p) 0 \<or>
    (6 \<le> i \<and> i < 9 \<and> bit (p_tex p) (i - 6)) \<or> (2 \<le> i \<and> i < 4 \<and> bit (p_cb p) (i - 2)) \<or> i = 1 \<and> bit (p_ptype p) 0"
proof -
  note b = assms [unfolded parts_ok_def]
  have x: "bit (p_xn p) i \<longleftrightarrow> i = 0 \<and> bit (p_xn p) 0" using bit_field_1 [of "p_xn p" 0 i] b by simp
  have f: "bit (push_bit 10 (p_s p)) i \<longleftrightarrow> i = 10 \<and> bit (p_s p) 0" "bit (push_bit 9 (p_ap2 p)) i \<longleftrightarrow> i = 9 \<and> bit (p_ap2 p) 0"
    "bit (push_bit 5 (p_ap1 p)) i \<longleftrightarrow> i = 5 \<and> bit (p_ap1 p) 0" "bit (push_bit 4 (p_access p)) i \<longleftrightarrow> i = 4 \<and> bit (p_access p) 0"
    "bit (push_bit 1 (p_ptype p)) i \<longleftrightarrow> i = 1 \<and> bit (p_ptype p) 0"
    using b by (intro bit_field_1; simp)+
  have g: "bit (push_bit 6 (p_tex p)) i \<longleftrightarrow> 6 \<le> i \<and> i < 9 \<and> bit (p_tex p) (i - 6)"
    "bit (push_bit 2 (p_cb p)) i \<longleftrightarrow> 2 \<le> i \<and> i < 4 \<and> bit (p_cb p) (i - 2)"
    using b bit_field [of 3 "p_tex p" 6 i] bit_field [of 2 "p_cb p" 2 i] by simp_all
  show ?thesis unfolding pagePropertyBits_def bit_or_iff f g using x by blast
qed


lemma low_bit_0: "take_bit n (w :: u32) = 0 \<Longrightarrow> i < n \<Longrightarrow> \<not> bit w i"
  by (metis bit_take_bit_iff bit_0_eq bot_apply bot_bool_def)

lemma page_fields:
  assumes "parts_ok p" and "take_bit 12 w = 0"
  shows "drop_bit 8 (w OR pagePropertyBits p) AND 2 = push_bit 1 (p_ap2 p)"
    "drop_bit 5 (w OR pagePropertyBits p) AND 1 = p_ap1 p"
    "drop_bit 6 (w OR pagePropertyBits p) AND 7 = p_tex p"
    "drop_bit 2 (w OR pagePropertyBits p) AND 3 = p_cb p"
    "(w OR pagePropertyBits p) AND 1 = p_xn p"
    "drop_bit 10 (w OR pagePropertyBits p) AND 1 = p_s p"
    "(w OR pagePropertyBits p) AND 2 = push_bit 1 (p_ptype p)"
proof -
  note b = assms(1) [unfolded parts_ok_def]
  note w = low_bit_0 [OF assms(2)]
  note u = bit_and_iff bit_drop_bit_eq comp_def bit_or_iff bit_masks bit_page [OF assms(1)]
  have one: "bit (push_bit 1 (p_ap2 p)) i \<longleftrightarrow> i = 1 \<and> bit (p_ap2 p) 0" "bit (push_bit 1 (p_ptype p)) i \<longleftrightarrow> i = 1 \<and> bit (p_ptype p) 0"
    "bit (p_ap1 p) i \<longleftrightarrow> i = 0 \<and> bit (p_ap1 p) 0" "bit (p_xn p) i \<longleftrightarrow> i = 0 \<and> bit (p_xn p) 0"
    "bit (p_s p) i \<longleftrightarrow> i = 0 \<and> bit (p_s p) 0" for i
    using b bit_field_1 [of "p_ap2 p" 1 i] bit_field_1 [of "p_ptype p" 1 i] bit_field_1 [of "p_ap1 p" 0 i]
      bit_field_1 [of "p_xn p" 0 i] bit_field_1 [of "p_s p" 0 i] by simp_all
  have more: "bit (p_tex p) i \<Longrightarrow> i < 3" "bit (p_cb p) i \<Longrightarrow> i < 2" for i
    using b bit_field_0 [of 3 "p_tex p" i] bit_field_0 [of 2 "p_cb p" i] by simp_all
  show "drop_bit 8 (w OR pagePropertyBits p) AND 2 = push_bit 1 (p_ap2 p)"
    by (rule bit_word_eqI, rename_tac i, unfold u one(1), case_tac "i = 1") (auto simp: w)
  show "drop_bit 5 (w OR pagePropertyBits p) AND 1 = p_ap1 p"
    by (rule bit_word_eqI, rename_tac i, subst one(3), unfold u, case_tac "i = 0") (auto simp: w)
  show "drop_bit 6 (w OR pagePropertyBits p) AND 7 = p_tex p"
    by (rule bit_word_eqI, rename_tac i, unfold u, case_tac "i < 3") (use more in \<open>auto simp: w\<close>)
  show "drop_bit 2 (w OR pagePropertyBits p) AND 3 = p_cb p"
    by (rule bit_word_eqI, rename_tac i, unfold u, case_tac "i < 2") (use more in \<open>auto simp: w\<close>)
  show "(w OR pagePropertyBits p) AND 1 = p_xn p"
    by (rule bit_word_eqI, rename_tac i, subst one(4), unfold u, case_tac "i = 0") (auto simp: w)
  show "drop_bit 10 (w OR pagePropertyBits p) AND 1 = p_s p"
    by (rule bit_word_eqI, rename_tac i, subst one(5), unfold u, case_tac "i = 0") (auto simp: w)
  show "(w OR pagePropertyBits p) AND 2 = push_bit 1 (p_ptype p)"
    by (rule bit_word_eqI, rename_tac i, unfold u one(2), case_tac "i = 1") (auto simp: w)
qed


lemma bit_section:
  assumes "parts_ok p"
  shows "bit (push_bit 5 MEMORY_DOMAIN OR sectionPropertyBits p) i \<longleftrightarrow> (5 \<le> i \<and> i < 9) \<or> i = 4 \<and> bit (p_xn p) 0 \<or>
    i = 16 \<and> bit (p_s p) 0 \<or> i = 15 \<and> bit (p_ap2 p) 0 \<or> i = 11 \<and> bit (p_ap1 p) 0 \<or> i = 10 \<and> bit (p_access p) 0 \<or>
    (12 \<le> i \<and> i < 15 \<and> bit (p_tex p) (i - 12)) \<or> (2 \<le> i \<and> i < 4 \<and> bit (p_cb p) (i - 2)) \<or> i < 2 \<and> bit (p_stype p) i"
proof -
  note b = assms [unfolded parts_ok_def]
  have x: "bit (p_stype p) i \<longleftrightarrow> i < 2 \<and> bit (p_stype p) i" using bit_field_0 [of 2 "p_stype p" i] b by simp
  have d: "bit (push_bit 5 MEMORY_DOMAIN) i \<longleftrightarrow> 5 \<le> i \<and> i < 9"
  proof -
    have m: "MEMORY_DOMAIN = mask 4" by (simp add: tte_consts mask_eq_exp_minus_1)
    show ?thesis unfolding m bit_push_bit_iff bit_mask_iff by auto
  qed
  have f: "bit (push_bit 16 (p_s p)) i \<longleftrightarrow> i = 16 \<and> bit (p_s p) 0" "bit (push_bit 15 (p_ap2 p)) i \<longleftrightarrow> i = 15 \<and> bit (p_ap2 p) 0"
    "bit (push_bit 11 (p_ap1 p)) i \<longleftrightarrow> i = 11 \<and> bit (p_ap1 p) 0" "bit (push_bit 10 (p_access p)) i \<longleftrightarrow> i = 10 \<and> bit (p_access p) 0"
    "bit (push_bit 4 (p_xn p)) i \<longleftrightarrow> i = 4 \<and> bit (p_xn p) 0"
    using b by (intro bit_field_1; simp)+
  have g: "bit (push_bit 12 (p_tex p)) i \<longleftrightarrow> 12 \<le> i \<and> i < 15 \<and> bit (p_tex p) (i - 12)"
    "bit (push_bit 2 (p_cb p)) i \<longleftrightarrow> 2 \<le> i \<and> i < 4 \<and> bit (p_cb p) (i - 2)"
    using b bit_field [of 3 "p_tex p" 12 i] bit_field [of 2 "p_cb p" 2 i] by simp_all
  show ?thesis unfolding sectionPropertyBits_def bit_or_iff f g d using x by blast
qed

lemma section_fields:
  assumes "parts_ok p" and "take_bit 20 w = 0"
  shows "drop_bit 14 (sectionTte w (sectionPropertyBits p)) AND 2 = push_bit 1 (p_ap2 p)"
    "drop_bit 11 (sectionTte w (sectionPropertyBits p)) AND 1 = p_ap1 p"
    "drop_bit 12 (sectionTte w (sectionPropertyBits p)) AND 7 = p_tex p"
    "drop_bit 2 (sectionTte w (sectionPropertyBits p)) AND 3 = p_cb p"
    "drop_bit 4 (sectionTte w (sectionPropertyBits p)) AND 1 = p_xn p"
    "drop_bit 16 (sectionTte w (sectionPropertyBits p)) AND 1 = p_s p"
    "sectionTte w (sectionPropertyBits p) AND 3 = p_stype p"
proof -
  note b = assms(1) [unfolded parts_ok_def]
  note w = low_bit_0 [OF assms(2)]
  have t: "bit (sectionTte w (sectionPropertyBits p)) i \<longleftrightarrow> bit w i \<or> bit (push_bit 5 MEMORY_DOMAIN OR sectionPropertyBits p) i" for i
    by (simp add: sectionTte_def bit_or_iff)
  note u = bit_and_iff bit_drop_bit_eq comp_def t bit_masks bit_section [OF assms(1)]
  have one: "bit (push_bit 1 (p_ap2 p)) i \<longleftrightarrow> i = 1 \<and> bit (p_ap2 p) 0"
    "bit (p_ap1 p) i \<longleftrightarrow> i = 0 \<and> bit (p_ap1 p) 0" "bit (p_xn p) i \<longleftrightarrow> i = 0 \<and> bit (p_xn p) 0"
    "bit (p_s p) i \<longleftrightarrow> i = 0 \<and> bit (p_s p) 0" for i
    using b bit_field_1 [of "p_ap2 p" 1 i] bit_field_1 [of "p_ap1 p" 0 i]
      bit_field_1 [of "p_xn p" 0 i] bit_field_1 [of "p_s p" 0 i] by simp_all
  have more: "bit (p_tex p) i \<Longrightarrow> i < 3" "bit (p_cb p) i \<Longrightarrow> i < 2" "bit (p_stype p) i \<Longrightarrow> i < 2" for i
    using b bit_field_0 [of 3 "p_tex p" i] bit_field_0 [of 2 "p_cb p" i] bit_field_0 [of 2 "p_stype p" i] by simp_all
  show "drop_bit 14 (sectionTte w (sectionPropertyBits p)) AND 2 = push_bit 1 (p_ap2 p)"
    by (rule bit_word_eqI, rename_tac i, unfold u one(1), case_tac "i = 1") (auto simp: w)
  show "drop_bit 11 (sectionTte w (sectionPropertyBits p)) AND 1 = p_ap1 p"
    by (rule bit_word_eqI, rename_tac i, subst one(2), unfold u, case_tac "i = 0") (auto simp: w)
  show "drop_bit 12 (sectionTte w (sectionPropertyBits p)) AND 7 = p_tex p"
    by (rule bit_word_eqI, rename_tac i, unfold u, case_tac "i < 3") (use more in \<open>auto simp: w\<close>)
  show "drop_bit 2 (sectionTte w (sectionPropertyBits p)) AND 3 = p_cb p"
    by (rule bit_word_eqI, rename_tac i, unfold u, case_tac "i < 2") (use more in \<open>auto simp: w\<close>)
  show "drop_bit 4 (sectionTte w (sectionPropertyBits p)) AND 1 = p_xn p"
    by (rule bit_word_eqI, rename_tac i, subst one(3), unfold u, case_tac "i = 0") (auto simp: w)
  show "drop_bit 16 (sectionTte w (sectionPropertyBits p)) AND 1 = p_s p"
    by (rule bit_word_eqI, rename_tac i, subst one(4), unfold u, case_tac "i = 0") (auto simp: w)
  show "sectionTte w (sectionPropertyBits p) AND 3 = p_stype p"
    by (rule bit_word_eqI, rename_tac i, unfold u, case_tac "i < 2") (use more in \<open>auto simp: w\<close>)
qed

text \<open>The attributes that parts stand for.\<close>

definition parts_props :: "PropParts \<Rightarrow> PageType \<Rightarrow> Props" where
  "parts_props p kind =
     \<lparr>ap = push_bit 1 (p_ap2 p) OR p_ap1 p, tex = p_tex p, cb = p_cb p, xn = p_xn p, shared = p_s p, ptype = kind\<rparr>"

definition reserved_props :: Props where
  "reserved_props = \<lparr>ap = 0, tex = 0, cb = 0, xn = 0, shared = 0, ptype = RESERVED\<rparr>"

lemma makeProps_parts_page:
  assumes "parts_ok p" and "take_bit 12 w = 0"
  shows "makeProps (w OR pagePropertyBits p) 2 = (if p_ptype p = 0 then reserved_props else parts_props p SMALL_PAGE)"
proof -
  have "p_ptype p = 0 \<or> p_ptype p = 1" using assms(1) unfolding parts_ok_def
    by (metis take_bit_eq_mod power_one_right mod_2_eq_odd of_bool_def)
  then show ?thesis
    unfolding makeProps_def page_fields [OF assms] by (auto simp: parts_props_def reserved_props_def)
qed

lemma makeProps_parts_section:
  assumes "parts_ok p" and "take_bit 20 w = 0" and "p_stype p = 0 \<or> p_stype p = 2"
  shows "makeProps (sectionTte w (sectionPropertyBits p)) 1 = (if p_stype p = 0 then reserved_props else parts_props p SECTION)"
proof -
  have "sectionTte w (sectionPropertyBits p) AND 2 = (sectionTte w (sectionPropertyBits p) AND 3) AND 2"
    by (simp add: and.assoc)
  also have "\<dots> = p_stype p AND 2" by (simp only: section_fields [OF assms(1,2)])
  also have "\<dots> = p_stype p" using assms(3) by auto
  finally have ty: "sectionTte w (sectionPropertyBits p) AND 2 = p_stype p" .
  show ?thesis using assms(3)
    unfolding makeProps_def section_fields [OF assms(1,2)] ty by (auto simp: parts_props_def reserved_props_def)
qed

lemma flags_parts:
  "parts_ok (flagsToPropParts flags)"
  "p_stype (flagsToPropParts flags) = (if flags AND (MEM_READ OR MEM_WRITE) = 0 then 0 else 2)"
  "p_ptype (flagsToPropParts flags) = (if flags AND (MEM_READ OR MEM_WRITE) = 0 then 0 else 1)"
  "flags AND (MEM_READ OR MEM_WRITE) \<noteq> 0 \<Longrightarrow> parts_props (flagsToPropParts flags) kind = flag_props flags kind"
  "flags AND (MEM_READ OR MEM_WRITE) = 0 \<Longrightarrow> flag_props flags kind = reserved_props"
proof -
  define none w h d sh e c where flags: "none \<longleftrightarrow> flags AND (MEM_READ OR MEM_WRITE) = 0" "w \<longleftrightarrow> flags AND MEM_WRITE \<noteq> 0"
    "h \<longleftrightarrow> flags AND MEM_HANDSHAKE \<noteq> 0" "d \<longleftrightarrow> flags AND MEM_DEVICE \<noteq> 0" "sh \<longleftrightarrow> flags AND MEM_SHARED \<noteq> 0"
    "e \<longleftrightarrow> flags AND MEM_EXEC \<noteq> 0" "c \<longleftrightarrow> flags AND MEM_CACHED \<noteq> 0"
  note unfolded = parts_ok_def flagsToPropParts_def [of flags, unfolded Let_def, folded flags]
    flag_props_def [of flags, unfolded Let_def, folded flags] parts_props_def reserved_props_def
  show "parts_ok (flagsToPropParts flags)"
    unfolding unfolded by (cases none; cases h; cases d; cases sh) (simp_all add: tte_consts)
  show "p_stype (flagsToPropParts flags) = (if flags AND (MEM_READ OR MEM_WRITE) = 0 then 0 else 2)"
    "p_ptype (flagsToPropParts flags) = (if flags AND (MEM_READ OR MEM_WRITE) = 0 then 0 else 1)"
    unfolding flags(1) [symmetric] unfolded by (simp_all add: tte_consts)
  show "parts_props (flagsToPropParts flags) kind = flag_props flags kind" if "flags AND (MEM_READ OR MEM_WRITE) \<noteq> 0"
    using that unfolding flags(1) [symmetric] unfolded
    by (cases h; cases d; cases sh; cases w; cases e) simp_all
  show "flag_props flags kind = reserved_props" if "flags AND (MEM_READ OR MEM_WRITE) = 0"
    using that unfolding flags(1) [symmetric] unfolded by simp
qed


lemma makeProps_flags:
  "makeProps (of_nat (n * 2 ^ 12) OR pagePropertyBits (flagsToPropParts flags)) 2 = flag_props flags SMALL_PAGE"
  "makeProps (sectionTte (of_nat (n * 2 ^ 20)) (sectionPropertyBits (flagsToPropParts flags))) 1 = flag_props flags SECTION"
  using makeProps_parts_page [OF flags_parts(1) low_bits_0 [of 12 n], of flags]
    makeProps_parts_section [OF flags_parts(1) low_bits_0 [of 20 n], of flags]
  by (cases "flags AND (MEM_READ OR MEM_WRITE) = 0"; simp add: flags_parts(2-5))+

text \<open>The first-level and page-level addresses of new entries.\<close>

lemma high_part:
  fixes w c :: u32
  assumes "take_bit k w = 0" and "\<And>i. bit c i \<Longrightarrow> i < k"
  shows "(w OR c) AND NOT (mask k) = w"
  by (rule bit_word_eqI) (use low_bit_0 [OF assms(1)] assms(2) in \<open>auto simp: bit_and_iff bit_or_iff bit_not_iff bit_mask_iff\<close>)

lemma page_entry_address:
  "parts_ok p \<Longrightarrow> (of_nat (n * 2 ^ 12) OR pagePropertyBits p) AND NOT (mask 12) = of_nat (n * 2 ^ 12)"
  by (rule high_part [OF low_bits_0]) (auto simp: bit_page)

lemma section_entry_address:
  "parts_ok p \<Longrightarrow> sectionTte (of_nat (n * 2 ^ 20)) (sectionPropertyBits p) AND NOT (mask 20) = of_nat (n * 2 ^ 20)"
  unfolding sectionTte_def or.assoc by (rule high_part [OF low_bits_0]) (auto simp: bit_section)

lemmas new_entry_address = page_entry_address [OF flags_parts(1)] section_entry_address [OF flags_parts(1)]

lemma address_cell:
  "(v :: u32) AND NOT (mask 12) = of_nat ((256 * (unat v div 2 ^ 20) + unat v div 2 ^ 12 mod 2 ^ 8) * 2 ^ 12)"
  "v AND NOT (mask 20) = of_nat (unat v div 2 ^ 20 * 2 ^ 20)"
  "unat v div 2 ^ 20 < 4096" "unat v div 2 ^ 12 mod 2 ^ 8 < 256"
proof -
  have v: "v = of_nat (unat v)" by simp
  show "v AND NOT (mask 12) = of_nat ((256 * (unat v div 2 ^ 20) + unat v div 2 ^ 12 mod 2 ^ 8) * 2 ^ 12)"
    by (subst v, subst floor_of_nat, subst page_section) (rule refl)
  show "v AND NOT (mask 20) = of_nat (unat v div 2 ^ 20 * 2 ^ 20)"
    by (subst v, rule floor_of_nat)
  show "unat v div 2 ^ 20 < 4096" "unat v div 2 ^ 12 mod 2 ^ 8 < 256"
    using unsigned_less [of v, where 'a = nat] by (simp_all add: less_mult_imp_div_less)
qed

lemma split_address: "((v :: u32) AND NOT (mask k)) OR (v AND mask k) = v"
  by (rule bit_word_eqI) (auto simp: bit_and_iff bit_or_iff bit_not_iff bit_mask_iff)

lemma sets_attributes:
  assumes "sets base flags A s s'"
  defines "touched \<equiv> \<lambda>v. (unat v div 2 ^ 20, unat v div 2 ^ 12 mod 2 ^ 8) \<in> A"
  shows "attributes base s' v =
      (if touched v then flag_props flags (if in_paged base s v then SMALL_PAGE else SECTION) else attributes base s v)"
    and "physical base s' v = (if touched v then v else physical base s v)"
proof -
  let ?k = "unat v div 2 ^ 20" and ?x = "unat v div 2 ^ 12 mod 2 ^ 8"
  have e: "entry base s' ?k ?x = (if touched v then new_entry flags (paged base s ?k) ?k ?x else entry base s ?k ?x)"
    "paged base s' ?k = paged base s ?k"
    using assms(1) address_cell(3,4) [of v] by (simp_all add: sets_def touched_def)
  have new: "makeProps (new_entry flags True k x) 2 = flag_props flags SMALL_PAGE"
    "makeProps (new_entry flags False k x) 1 = flag_props flags SECTION" for k x
    by (simp_all only: new_entry_def if_True if_False makeProps_flags)
  show "attributes base s' v =
      (if touched v then flag_props flags (if in_paged base s v then SMALL_PAGE else SECTION) else attributes base s v)"
    unfolding attributes_def tte_of_def in_paged_def e
    by (cases "touched v"; cases "paged base s ?k") (simp_all only: if_True if_False new)
  show "physical base s' v = (if touched v then v else physical base s v)"
    unfolding physical_def tte_of_def in_paged_def e
    by (cases "touched v"; cases "paged base s ?k"; simp only: if_True if_False new_entry_def new_entry_address;
        simp only: address_cell(1,2) [of v, symmetric] split_address)
qed

text \<open>
  C6: on well-formed translation tables \<open>mem_setFlags\<close> gives exactly the touched addresses the
  attributes of the flags and maps them to themselves, and leaves the translation and the
  attributes of every other address, the shape of the tables and the access register alone.
  The touched addresses are the pages that meet the range where a section has small pages,
  and whole sections elsewhere.
\<close>

theorem setFlags_attributes:
  assumes "tables_ok base s" and "startVaddr \<noteq> endVaddr" and "startVaddr \<le> endVaddr - 1"
    and "unat (endVaddr - 1) div 2 ^ 20 - unat startVaddr div 2 ^ 20 < 4095"
  shows "\<exists>s'. mem_setFlags_core startVaddr endVaddr flags mmuActive base s = Some s' \<and> tables_ok base s' \<and>
    dacr s' = dacr s \<and>
    (\<forall>v. let touched = (if in_paged base s v
            then drop_bit 12 startVaddr \<le> drop_bit 12 v \<and> drop_bit 12 v \<le> drop_bit 12 (endVaddr - 1)
            else drop_bit 20 startVaddr \<le> drop_bit 20 v \<and> drop_bit 20 v \<le> drop_bit 20 (endVaddr - 1))
         in attributes base s' v =
              (if touched then flag_props flags (if in_paged base s v then SMALL_PAGE else SECTION) else attributes base s v) \<and>
            physical base s' v = (if touched then v else physical base s v))"
proof -
  obtain s' where s': "mem_setFlags_core startVaddr endVaddr flags mmuActive base s = Some s'"
    "sets base flags (affected base s (unat startVaddr) (unat (endVaddr - 1))) s s'"
    using setFlags_sets [OF assms(1,2) refl refl _ assms(4)] assms(3) by (auto simp: word_le_nat_alt)
  have page: "drop_bit 12 a \<le> drop_bit 12 b \<longleftrightarrow> unat a div 2 ^ 12 \<le> unat b div 2 ^ 12"
    "drop_bit 20 a \<le> drop_bit 20 b \<longleftrightarrow> unat a div 2 ^ 20 \<le> unat b div 2 ^ 20" for a b :: u32
    unfolding word_le_nat_alt unat_drop_bit_eq unfolding drop_bit_eq_div by (rule refl)+
  have cell: "(unat v div 2 ^ 20, unat v div 2 ^ 12 mod 2 ^ 8) \<in> affected base s (unat startVaddr) (unat (endVaddr - 1)) \<longleftrightarrow>
      (if in_paged base s v
       then drop_bit 12 startVaddr \<le> drop_bit 12 v \<and> drop_bit 12 v \<le> drop_bit 12 (endVaddr - 1)
       else drop_bit 20 startVaddr \<le> drop_bit 20 v \<and> drop_bit 20 v \<le> drop_bit 20 (endVaddr - 1))" for v
    unfolding affected_def mem_Collect_eq prod.case page_section [of "unat v", symmetric] page in_paged_def by (rule refl)
  have "dacr s' = dacr s" using s'(2) by (simp add: sets_def)
  moreover note sets_attributes [OF s'(2), unfolded cell]
  ultimately show ?thesis
    using s'(1) sets_tables_ok [OF s'(2) assms(1)] unfolding Let_def by blast
qed


subsection \<open>Splitting sections\<close>

lemma section_step: "(of_nat (i * 2 ^ 20) :: u32) + SECTION_SIZE = of_nat (Suc i * 2 ^ 20)"
  unfolding section_size_nat by simp

lemma section_ends_differ:
  assumes "i < j" and "j - i < 4096"
  shows "(of_nat (i * 2 ^ 20) :: u32) \<noteq> of_nat (j * 2 ^ 20)"
proof -
  have "(of_nat (j * 2 ^ 20) :: u32) - of_nat (i * 2 ^ 20) = of_nat ((j - i) * 2 ^ 20)"
    using assms(1) by (simp add: of_nat_diff algebra_simps)
  moreover have "(of_nat ((j - i) * 2 ^ 20) :: u32) \<noteq> 0"
    using assms by (intro of_nat_u32_nonzero) simp_all
  ultimately show ?thesis by (metis diff_self)
qed

lemma explode_count_value:
  assumes "i \<le> j" and "j - i < 4096"
  shows "explode_count (base + 4 * i) (of_nat (i * 2 ^ 20)) (of_nat (j * 2 ^ 20)) n s =
    Some (n + of_nat (256 * card {k. i \<le> k \<and> k < j \<and> getPageTable (words s (base + 4 * k)) = NIL}))"
  using assms
proof (induction "j - i" arbitrary: i n)
  case 0
  then have ij: "i = j" by simp
  have none: "{k. j \<le> k \<and> k < j \<and> getPageTable (words s (base + 4 * k)) = NIL} = {}" by auto
  show ?case unfolding ij none by (simp add: explode_count.simps)
next
  case (Suc d)
  then have lt: "i < j" by simp
  let ?free = "\<lambda>i. {k. i \<le> k \<and> k < j \<and> getPageTable (words s (base + 4 * k)) = NIL}"
  have free: "?free i = (if getPageTable (words s (base + 4 * i)) = NIL then insert i (?free (Suc i)) else ?free (Suc i))"
    using lt by (auto simp: Suc_le_eq order.order_iff_strict)
  have fin: "finite (?free (Suc i))" "i \<notin> ?free (Suc i)" by simp_all
  have "explode_count (base + 4 * i) (of_nat (i * 2 ^ 20)) (of_nat (j * 2 ^ 20)) n s =
      explode_count (base + 4 * Suc i) (of_nat (Suc i * 2 ^ 20)) (of_nat (j * 2 ^ 20))
        (if getPageTable (words s (base + 4 * i)) = NIL then n + of_nat PAGES_PER_SECTION else n) s"
    using section_ends_differ [OF lt Suc.prems(2)]
    by (subst explode_count.simps) (simp only: section_step, simp add: algebra_simps)
  then show ?case
    using Suc.hyps(1) [of "Suc i"] Suc.hyps(2) Suc.prems lt unfolding free
    by (auto simp: fin PAGES_PER_SECTION_def algebra_simps)
qed

text \<open>Sections \<open>i\<close> to \<open>j\<close> have become page tables at \<open>p\<close>, everything else is as before.\<close>

definition exploded :: "addr \<Rightarrow> nat \<Rightarrow> nat \<Rightarrow> addr \<Rightarrow> mmu \<Rightarrow> mmu \<Rightarrow> bool" where
  "exploded base i j p s s' \<longleftrightarrow>
     (\<forall>k. i \<le> k \<and> k < j \<longrightarrow>
        stte base s' k = sectionTte (of_nat (p + 1024 * (k - i))) STTE_TYPE_PAGE_TABLE \<and>
        (\<forall>x < 256. words s' (p + 1024 * (k - i) + 4 * x) =
           of_nat ((256 * k + x) * 2 ^ 12) OR pagePropertyBits (decodeSectionProperties (stte base s k)))) \<and>
     (\<forall>a. (a < p \<or> p + 1024 * (j - i) \<le> a) \<and> (a < base + 4 * i \<or> base + 4 * j \<le> a) \<longrightarrow> words s' a = words s a) \<and>
     dacr s' = dacr s \<and> ttbr0 s' = ttbr0 s \<and> sctlr s' = sctlr s"

lemma explode_loop_stuck:
  assumes "i \<le> j" and "j - i < 4096" and "getPageTable (words s q) \<noteq> NIL"
  shows "explode_loop q p (of_nat (i * 2 ^ 20)) (of_nat (j * 2 ^ 20)) s = Some s"
  using assms
proof (induction "j - i" arbitrary: i p)
  case 0
  then show ?case by (simp add: explode_loop.simps)
next
  case (Suc d)
  then have lt: "i < j" by simp
  have "explode_loop q p (of_nat (i * 2 ^ 20)) (of_nat (j * 2 ^ 20)) s =
      explode_loop q (p + 4 * PAGES_PER_SECTION) (of_nat (Suc i * 2 ^ 20)) (of_nat (j * 2 ^ 20)) s"
    using section_ends_differ [OF lt Suc.prems(2)] Suc.prems(3)
    by (subst explode_loop.simps) (simp only: section_step, simp)
  then show ?case using Suc.hyps(1) [of "Suc i"] Suc.hyps(2) Suc.prems lt by simp
qed


lemma explode_loop_exploded:
  assumes "i \<le> m" "m \<le> j" "j \<le> 4096" "j - i < 4096"
    and free: "\<forall>k. i \<le> k \<and> k < m \<longrightarrow> getPageTable (stte base s k) = NIL"
    and stop: "m < j \<Longrightarrow> getPageTable (stte base s m) \<noteq> NIL"
    and block: "p + 1024 * (m - i) \<le> base \<or> base + 16384 \<le> p"
  shows "\<exists>s'. explode_loop (base + 4 * i) p (of_nat (i * 2 ^ 20)) (of_nat (j * 2 ^ 20)) s = Some s' \<and>
    exploded base i m p s s'"
  using assms
proof (induction "m - i" arbitrary: i p s)
  case 0
  then have im: "i = m" by simp
  have "explode_loop (base + 4 * i) p (of_nat (i * 2 ^ 20)) (of_nat (j * 2 ^ 20)) s = Some s"
  proof (cases "m < j")
    case True
    then show ?thesis using explode_loop_stuck [of i j s "base + 4 * i" p] 0 im by (simp add: stte_def)
  next
    case False
    then have "j = i" using 0 im by simp
    then show ?thesis by (simp add: explode_loop.simps)
  qed
  then show ?case using im by (auto simp: exploded_def)
next
  case (Suc d)
  then have lt: "i < m" "i < j" "i < 4096" by simp_all
  let ?pr = "pagePropertyBits (decodeSectionProperties (stte base s i))"
  define s0 where "s0 = fill p 256 (\<lambda>x. of_nat ((256 * i + x) * 2 ^ 12) OR ?pr) s"
  define s1 where "s1 = store (base + 4 * i) (sectionTte (of_nat p) STTE_TYPE_PAGE_TABLE) s0"
  have "setPageTable p ?pr (of_nat (256 * i * 2 ^ 12)) (of_nat ((256 * i + 256) * 2 ^ 12)) s = Some s0"
    using setPageTable_fill [of "256 * i" "256 * i + 256" p ?pr s] by (simp add: s0_def)
  moreover have "(of_nat (256 * i * 2 ^ 12) :: u32) = of_nat (i * 2 ^ 20)"
    "(of_nat ((256 * i + 256) * 2 ^ 12) :: u32) = of_nat (Suc i * 2 ^ 20)" by simp_all
  ultimately have set: "setPageTable p ?pr (of_nat (i * 2 ^ 20)) (of_nat (Suc i * 2 ^ 20)) s = Some s0" by (simp only:)
  have "getPageTable (words s (base + 4 * i)) = NIL" using Suc.prems(5) lt by (simp add: stte_def)
  then have step: "explode_loop (base + 4 * i) p (of_nat (i * 2 ^ 20)) (of_nat (j * 2 ^ 20)) s =
      explode_loop (base + 4 * Suc i) (p + 1024) (of_nat (Suc i * 2 ^ 20)) (of_nat (j * 2 ^ 20)) s1"
    using section_ends_differ [OF lt(2) Suc.prems(4)] set
    by (subst explode_loop.simps)
       (simp only: section_step Let_def if_True simp_thms set [unfolded stte_def] bind.simps,
        simp add: s1_def PAGES_PER_SECTION_def algebra_simps)
  have far: "p + 1024 \<le> base \<or> base + 16384 \<le> p" using Suc.prems(7) lt(1) by auto
  have keep: "words s1 a = words s a" if "a < p \<or> p + 1024 \<le> a" "a \<noteq> base + 4 * i" for a
    using that by (simp add: s1_def s0_def fill_other)
  have st: "stte base s1 k = stte base s k" if "k \<noteq> i" "k < 4096" for k
    unfolding stte_def using that far by (intro keep) auto
  have st_i: "stte base s1 i = sectionTte (of_nat p) STTE_TYPE_PAGE_TABLE" by (simp add: s1_def stte_def)
  have new: "words s1 (p + 4 * x) = of_nat ((256 * i + x) * 2 ^ 12) OR ?pr" if "x < 256" for x
    using that far lt(3) by (auto simp: s1_def s0_def simp del: of_nat_mult)
  have "\<exists>s'. explode_loop (base + 4 * Suc i) (p + 1024) (of_nat (Suc i * 2 ^ 20)) (of_nat (j * 2 ^ 20)) s1 = Some s' \<and>
      exploded base (Suc i) m (p + 1024) s1 s'"
  proof (rule Suc.hyps(1))
    show "d = m - Suc i" "Suc i \<le> m" "m \<le> j" "j \<le> 4096" "j - Suc i < 4096"
      using Suc.hyps(2) Suc.prems lt by simp_all
    show "\<forall>k. Suc i \<le> k \<and> k < m \<longrightarrow> getPageTable (stte base s1 k) = NIL"
      using Suc.prems(2,3,5) st by simp
    show "getPageTable (stte base s1 m) \<noteq> NIL" if "m < j"
      using Suc.prems(3,6) st that lt(1) by simp
    show "p + 1024 + 1024 * (m - Suc i) \<le> base \<or> base + 16384 \<le> p + 1024"
      using Suc.prems(7) lt(1) by auto
  qed
  then obtain s' where s': "explode_loop (base + 4 * Suc i) (p + 1024) (of_nat (Suc i * 2 ^ 20)) (of_nat (j * 2 ^ 20)) s1 = Some s'"
    "exploded base (Suc i) m (p + 1024) s1 s'" by blast
  note later = s'(2) [unfolded exploded_def]
  have outside: "words s' a = words s1 a" if "a < p + 1024 \<or> p + 1024 * (m - i) \<le> a" "a < base + 4 * Suc i \<or> base + 4 * m \<le> a" for a
  proof -
    have "p + 1024 + 1024 * (m - Suc i) = p + 1024 * (m - i)" using lt(1) by simp
    then show ?thesis using conjunct1 [OF conjunct2 [OF later]] that by (simp only:)
  qed
  have "stte base s' k = sectionTte (of_nat (p + 1024 * (k - i))) STTE_TYPE_PAGE_TABLE \<and>
        (\<forall>x < 256. words s' (p + 1024 * (k - i) + 4 * x) =
           of_nat ((256 * k + x) * 2 ^ 12) OR pagePropertyBits (decodeSectionProperties (stte base s k)))"
    if k: "i \<le> k" "k < m" for k
  proof (cases "k = i")
    case True
    have "stte base s' i = stte base s1 i"
      unfolding stte_def using Suc.prems(7) lt by (intro outside) auto
    moreover have "words s' (p + 4 * x) = words s1 (p + 4 * x)" if "x < 256" for x
      using Suc.prems(2,3,7) lt that by (intro outside) auto
    ultimately show ?thesis using True st_i new by simp
  next
    case False
    have "p + 1024 + 1024 * (k - Suc i) = p + 1024 * (k - i)" "stte base s1 k = stte base s k"
      using k False Suc.prems(2,3) by (auto intro: st)
    then show ?thesis using later k False by (metis Suc_leI le_neq_implies_less)
  qed
  moreover have "words s' a = words s a"
    if "a < p \<or> p + 1024 * (m - i) \<le> a" "a < base + 4 * i \<or> base + 4 * m \<le> a" for a
  proof -
    have "p + 1024 \<le> p + 1024 * (m - i)" using lt(1) by simp
    then have "words s' a = words s1 a" using that by (intro outside) auto
    also have "\<dots> = words s a" using that lt(1) by (intro keep) auto
    finally show ?thesis .
  qed
  moreover have "dacr s' = dacr s" "ttbr0 s' = ttbr0 s" "sctlr s' = sctlr s"
    using later by (simp_all add: s1_def s0_def)
  ultimately have "exploded base i m p s s'" unfolding exploded_def by blast
  then show ?case using step s'(1) by auto
qed


text \<open>The same attributes for pages instead of a section.\<close>

definition as_page :: "Props \<Rightarrow> Props" where
  "as_page ps = (if ptype ps = SECTION then ps\<lparr>ptype := SMALL_PAGE\<rparr> else ps)"

lemma decode_parts:
  "parts_ok (decodeSectionProperties t)"
proof -
  have m: "take_bit 1 (x AND 1) = x AND 1" "take_bit 2 (x AND 3) = x AND 3" "take_bit 3 (x AND 7) = x AND 7" for x :: u32
    by (simp_all add: take_bit_eq_mask mask_eq_exp_minus_1 and.assoc)
  show ?thesis
    unfolding parts_ok_def decodeSectionProperties_def Let_def STTE_TYPE_MASK_def
    by (simp only: PropParts.simps m) (simp add: tte_consts)
qed

lemma decode_attributes:
  assumes "t AND 3 = 0 \<or> t AND 3 = (2 :: u32)"
  shows "makeProps (of_nat (n * 2 ^ 12) OR pagePropertyBits (decodeSectionProperties t)) 2 = as_page (makeProps t 1)"
proof -
  have a2: "t AND 2 = (t AND 3) AND 2" by (simp add: and.assoc)
  have ap: "push_bit 1 (drop_bit 15 t AND 1) = drop_bit 14 t AND 2"
  proof (rule bit_word_eqI)
    fix i
    show "bit (push_bit 1 (drop_bit 15 t AND 1)) i = bit (drop_bit 14 t AND 2) i"
      unfolding bit_push_bit_iff bit_and_iff bit_drop_bit_eq comp_def bit_masks by auto
  qed
  note pg = makeProps_parts_page [OF decode_parts low_bits_0 [of 12 n], of t]
  show ?thesis
  proof (cases "t AND 3 = 0")
    case True
    then have "p_ptype (decodeSectionProperties t) = 0" by (simp add: decodeSectionProperties_def tte_consts)
    moreover have "t AND 2 \<noteq> 2" unfolding a2 True by simp
    ultimately show ?thesis
      unfolding pg by (simp add: makeProps_def as_page_def reserved_props_def)
  next
    case False
    then have "p_ptype (decodeSectionProperties t) = 1" by (simp add: decodeSectionProperties_def tte_consts)
    then have left: "makeProps (of_nat (n * 2 ^ 12) OR pagePropertyBits (decodeSectionProperties t)) 2 =
        parts_props (decodeSectionProperties t) SMALL_PAGE"
      unfolding pg by simp
    have "t AND 2 = 2" unfolding a2 using False assms by auto
    then have right: "makeProps t 1 = parts_props (decodeSectionProperties t) SECTION"
      by (simp only: makeProps_def parts_props_def decodeSectionProperties_def Let_def PropParts.simps ap simp_thms if_True)
    show ?thesis unfolding left right by (simp add: as_page_def parts_props_def)
  qed
qed

text \<open>A first-level entry that maps section \<open>k\<close> to itself (or faults), and unused memory for \<open>n\<close> page tables.\<close>

definition identity_section :: "nat \<Rightarrow> u32 \<Rightarrow> bool" where
  "identity_section k t \<longleftrightarrow> (t AND 3 = 0 \<or> t AND 3 = 2) \<and> t AND NOT (mask 20) = of_nat (k * 2 ^ 20)"

definition fresh_tables :: "addr \<Rightarrow> mmu \<Rightarrow> addr \<Rightarrow> nat \<Rightarrow> bool" where
  "fresh_tables base s p n \<longleftrightarrow> p \<noteq> NIL \<and> 1024 dvd p \<and> p + 1024 * n \<le> 2 ^ 32 \<and>
     (p + 1024 * n \<le> base \<or> base + 16384 \<le> p) \<and>
     (\<forall>k < 4096. paged base s k \<longrightarrow> table_at base s k + 1024 \<le> p \<or> p + 1024 * n \<le> table_at base s k)"

lemma table_ref:
  assumes "1024 dvd q" and "q < 2 ^ 32"
  shows "sectionTte (of_nat q) STTE_TYPE_PAGE_TABLE AND STTE_TYPE_MASK = STTE_TYPE_PAGE_TABLE"
    and "unat (sectionTte (of_nat q) STTE_TYPE_PAGE_TABLE AND STTE_TABLE_MASK) = q"
proof -
  obtain n where q: "q = n * 2 ^ 10" using assms(1) by (auto elim!: dvdE)
  note low = low_bits_0 [of 10 n]
  show "sectionTte (of_nat q) STTE_TYPE_PAGE_TABLE AND STTE_TYPE_MASK = STTE_TYPE_PAGE_TABLE"
    unfolding sectionTte_def q or.assoc STTE_TYPE_MASK_def
    by (subst low_field_0 [OF low]) (simp_all add: tte_consts take_bit_eq_mask mask_eq_exp_minus_1)
  have "sectionTte (of_nat q) STTE_TYPE_PAGE_TABLE AND STTE_TABLE_MASK = of_nat q"
  proof (rule bit_word_eqI)
    fix i
    have c: "bit (push_bit 5 MEMORY_DOMAIN OR STTE_TYPE_PAGE_TABLE) i \<Longrightarrow> i < 10"
    proof -
      have "push_bit 5 MEMORY_DOMAIN OR STTE_TYPE_PAGE_TABLE = take_bit 10 (push_bit 5 MEMORY_DOMAIN OR STTE_TYPE_PAGE_TABLE)"
        by (simp add: tte_consts take_bit_eq_mask mask_eq_exp_minus_1)
      then show "bit (push_bit 5 MEMORY_DOMAIN OR STTE_TYPE_PAGE_TABLE) i \<Longrightarrow> i < 10" by (metis bit_take_bit_iff)
    qed
    show "bit (sectionTte (of_nat q) STTE_TYPE_PAGE_TABLE AND STTE_TABLE_MASK) i = bit (of_nat q :: u32) i"
      if "i < LENGTH(32)"
      using c low_bit_0 [OF low, of i] that unfolding sectionTte_def or.assoc table_mask q
      by (auto simp: bit_and_iff bit_or_iff bit_not_iff bit_mask_iff simp del: of_nat_mult)
  qed
  then show "unat (sectionTte (of_nat q) STTE_TYPE_PAGE_TABLE AND STTE_TABLE_MASK) = q"
    using assms(2) by (simp only: unat_of_nat_u32)
qed


lemma exploded_entries:
  assumes ok: "tables_ok base s" and ex: "exploded base i j p s s'" and ij: "i \<le> j" "j \<le> 4096"
    and free: "\<forall>k. i \<le> k \<and> k < j \<longrightarrow> \<not> paged base s k" and fresh: "fresh_tables base s p (j - i)"
    and k: "k < 4096"
  shows "paged base s' k \<longleftrightarrow> paged base s k \<or> i \<le> k \<and> k < j"
    and "i \<le> k \<Longrightarrow> k < j \<Longrightarrow> table_at base s' k = p + 1024 * (k - i)"
    and "\<not> (i \<le> k \<and> k < j) \<Longrightarrow> stte base s' k = stte base s k"
    and "x < 256 \<Longrightarrow> entry base s' k x =
      (if i \<le> k \<and> k < j then of_nat ((256 * k + x) * 2 ^ 12) OR pagePropertyBits (decodeSectionProperties (entry base s k x))
       else entry base s k x)"
proof -
  note ex' = ex [unfolded exploded_def] and fr = fresh [unfolded fresh_tables_def]
  have outside: "words s' a = words s a" if "a < p \<or> p + 1024 * (j - i) \<le> a" "a < base + 4 * i \<or> base + 4 * j \<le> a" for a
    using ex' that by blast
  have inside: "paged base s' k \<and> table_at base s' k = p + 1024 * (k - i)" if "i \<le> k" "k < j"
  proof -
    have le: "1024 * (k - i) + 1024 \<le> 1024 * (j - i)" using that by linarith
    have q: "1024 dvd p + 1024 * (k - i)" "p + 1024 * (k - i) < 2 ^ 32"
    proof -
      show "1024 dvd p + 1024 * (k - i)" using fr by (intro dvd_add) simp_all
      have "p + 1024 * (j - i) \<le> 2 ^ 32" using fr by blast
      then show "p + 1024 * (k - i) < 2 ^ 32" using le by linarith
    qed
    have "stte base s' k = sectionTte (of_nat (p + 1024 * (k - i))) STTE_TYPE_PAGE_TABLE" using ex' that by blast
    then show ?thesis unfolding paged_def table_at_def using table_ref [OF q] by simp
  qed
  then show "i \<le> k \<Longrightarrow> k < j \<Longrightarrow> table_at base s' k = p + 1024 * (k - i)" by blast
  have st: "stte base s' k = stte base s k" if "\<not> (i \<le> k \<and> k < j)"
    unfolding stte_def using that fr k by (intro outside) auto
  then show "\<not> (i \<le> k \<and> k < j) \<Longrightarrow> stte base s' k = stte base s k" .
  show pg: "paged base s' k \<longleftrightarrow> paged base s k \<or> i \<le> k \<and> k < j"
    using inside st by (cases "i \<le> k \<and> k < j") (auto simp: paged_def)
  show "entry base s' k x =
      (if i \<le> k \<and> k < j then of_nat ((256 * k + x) * 2 ^ 12) OR pagePropertyBits (decodeSectionProperties (entry base s k x))
       else entry base s k x)" if x: "x < 256"
  proof (cases "i \<le> k \<and> k < j")
    case True
    then have "entry base s' k x = words s' (p + 1024 * (k - i) + 4 * x)" using inside by (simp add: entry_def)
    also have "\<dots> = of_nat ((256 * k + x) * 2 ^ 12) OR pagePropertyBits (decodeSectionProperties (stte base s k))"
      using ex' True x by blast
    also have "stte base s k = entry base s k x" using free True by (simp add: entry_def)
    finally show ?thesis using True by simp
  next
    case False
    show ?thesis
    proof (cases "paged base s k")
      case pk: True
      have t: "table_at base s' k = table_at base s k" using st [OF False] by (simp add: table_at_def)
      have "words s' (table_at base s k + 4 * x) = words s (table_at base s k + 4 * x)"
      proof (rule outside)
        show "table_at base s k + 4 * x < p \<or> p + 1024 * (j - i) \<le> table_at base s k + 4 * x"
          using fr k pk x by fastforce
        show "table_at base s k + 4 * x < base + 4 * i \<or> base + 4 * j \<le> table_at base s k + 4 * x"
          using tables_okD(2) [OF ok k pk] x ij by auto
      qed
      then show ?thesis using False pk pg t by (auto simp: entry_def)
    next
      case np: False
      then show ?thesis using False pg st by (auto simp: entry_def)
    qed
  qed
qed

lemma exploded_tables_ok:
  assumes ok: "tables_ok base s" and ex: "exploded base i j p s s'" and ij: "i \<le> j" "j \<le> 4096"
    and free: "\<forall>k. i \<le> k \<and> k < j \<longrightarrow> \<not> paged base s k" and fresh: "fresh_tables base s p (j - i)"
  shows "tables_ok base s'"
proof -
  note e = exploded_entries [OF assms]
  have t: "table_at base s' k = (if i \<le> k \<and> k < j then p + 1024 * (k - i) else table_at base s k)" if "k < 4096" for k
    using e(2,3) [OF that] by (auto simp: table_at_def)
  have le: "p + 1024 * (k - i) + 1024 \<le> p + 1024 * (j - i)" if "i \<le> k" "k < j" for k
    using that by linarith
  note fr = fresh [unfolded fresh_tables_def]
  have block: "p + 1024 * (j - i) \<le> base \<or> base + 16384 \<le> p" using fr by blast
  have apart: "table_at base s k + 1024 \<le> p \<or> p + 1024 * (j - i) \<le> table_at base s k"
    if "k < 4096" "paged base s k" for k
    using fr that by blast
  show ?thesis
    unfolding tables_ok_def
  proof (intro allI impI conjI)
    fix k
    assume k: "k < 4096" "paged base s' k"
    then have old: "paged base s k" if "\<not> (i \<le> k \<and> k < j)" using e(1) that by blast
    show "table_at base s' k \<noteq> NIL"
      using t [OF k(1)] fr tables_okD(1) [OF ok k(1)] old by auto
    show "table_at base s' k + 1024 \<le> base \<or> base + 16384 \<le> table_at base s' k"
    proof (cases "i \<le> k \<and> k < j")
      case True
      then show ?thesis using t [OF k(1)] block le [of k] by auto
    next
      case False
      then show ?thesis using t [OF k(1)] tables_okD(2) [OF ok k(1) old] by auto
    qed
    fix l
    assume l: "l < 4096" "l \<noteq> k \<and> paged base s' l"
    then have old_l: "paged base s l" if "\<not> (i \<le> l \<and> l < j)" using e(1) that by blast
    show "table_at base s' l \<noteq> table_at base s' k"
    proof (cases "i \<le> k \<and> k < j"; cases "i \<le> l \<and> l < j")
      assume "i \<le> k \<and> k < j" "i \<le> l \<and> l < j"
      then show ?thesis using t [OF k(1)] t [OF l(1)] l(2) by auto
    next
      assume a: "i \<le> k \<and> k < j" "\<not> (i \<le> l \<and> l < j)"
      then show ?thesis using t [OF k(1)] t [OF l(1)] apart [OF l(1) old_l] le [of k] by auto
    next
      assume a: "\<not> (i \<le> k \<and> k < j)" "i \<le> l \<and> l < j"
      then show ?thesis using t [OF k(1)] t [OF l(1)] apart [OF k(1) old] le [of l] by auto
    next
      assume a: "\<not> (i \<le> k \<and> k < j)" "\<not> (i \<le> l \<and> l < j)"
      then show ?thesis using t [OF k(1)] t [OF l(1)] old old_l ok k(1) l by (auto simp: tables_ok_def)
    qed
  qed
qed


lemma explode_core_steps:
  assumes ne: "startVaddr \<noteq> endVaddr" and ord: "startVaddr \<le> endVaddr - 1"
    and a: "a = unat startVaddr div 2 ^ 20" and j: "j = Suc (unat (endVaddr - 1) div 2 ^ 20)" and range: "j - a < 4096"
  shows "mem_explode_core alloc startVaddr endVaddr base mmuActive tab s =
    (let c = of_nat (256 * card {k. a \<le> k \<and> k < j \<and> getPageTable (words s (base + 4 * k)) = NIL}) in
     if c = 0 then Some (True, tab, s)
     else let (q, tab) = alloc (c * 4) tab in
       if q = 0 then Some (False, tab, s)
       else let (d, s0) = open_if mmuActive s in do {
         s1 \<leftarrow> explode_loop (base + 4 * a) (unat q) (of_nat (a * 2 ^ 20)) (of_nat (j * 2 ^ 20)) s0;
         Some (True, tab, close_if mmuActive d s1) })"
    and "a < j" "j \<le> 4096"
proof -
  define S E where SE: "S = unat startVaddr" "E = unat (endVaddr - 1)"
  have S: "S < 2 ^ 32" "startVaddr = of_nat S" and E: "E < 2 ^ 32" "endVaddr - 1 = of_nat E"
    unfolding SE using unsigned_less [of startVaddr, where 'a = nat] unsigned_less [of "endVaddr - 1", where 'a = nat] by simp_all
  have last_end: "endVaddr = of_nat (Suc E)" using E(2) by (metis add.commute diff_add_cancel of_nat_Suc)
  have "S \<le> E" using ord by (simp add: SE word_le_nat_alt)
  then have "S div 2 ^ 20 \<le> E div 2 ^ 20" by (rule div_le_mono)
  then show aj: "a < j" unfolding a j SE [symmetric] by simp
  show "j \<le> 4096" unfolding j SE [symmetric] using E(1) by (simp add: Suc_le_eq less_mult_imp_div_less)
  have floors: "sectionFloor startVaddr = of_nat (a * 2 ^ 20)" "sectionCeil endVaddr = of_nat (j * 2 ^ 20)"
    "sectionNum startVaddr = a"
    unfolding S(2) last_end floor_nat ceil_nat num_nat [OF S(1)] by (simp_all add: a j SE)
  have cnt: "explode_count (base + 4 * a) (of_nat (a * 2 ^ 20)) (of_nat (j * 2 ^ 20)) 0 s =
      Some (of_nat (256 * card {k. a \<le> k \<and> k < j \<and> getPageTable (words s (base + 4 * k)) = NIL}))"
    using explode_count_value [of a j base 0 s] aj range by simp
  show "mem_explode_core alloc startVaddr endVaddr base mmuActive tab s =
    (let c = of_nat (256 * card {k. a \<le> k \<and> k < j \<and> getPageTable (words s (base + 4 * k)) = NIL}) in
     if c = 0 then Some (True, tab, s)
     else let (q, tab) = alloc (c * 4) tab in
       if q = 0 then Some (False, tab, s)
       else let (d, s0) = open_if mmuActive s in do {
         s1 \<leftarrow> explode_loop (base + 4 * a) (unat q) (of_nat (a * 2 ^ 20)) (of_nat (j * 2 ^ 20)) s0;
         Some (True, tab, close_if mmuActive d s1) })"
    unfolding mem_explode_core_def Let_def floors using ne by (simp only: if_False cnt bind.simps)
qed

text \<open>
  C7: \<open>mem_explode\<close> on sections none of which has a page table yet, with fresh memory from the
  allocator: it succeeds, afterwards exactly the sections of the range have small pages in
  addition, every address is translated as before, and its attributes are the same ones for
  a small page.
\<close>

theorem explode_keeps_translation:
  assumes "tables_ok base s" and "startVaddr \<noteq> endVaddr" and "startVaddr \<le> endVaddr - 1"
    and "a = unat startVaddr div 2 ^ 20" and "j = Suc (unat (endVaddr - 1) div 2 ^ 20)" and "j - a < 4096"
    and "\<forall>k. a \<le> k \<and> k < j \<longrightarrow> identity_section k (stte base s k)"
    and "alloc (of_nat (1024 * (j - a))) tab = (q, tab')" and "fresh_tables base s (unat q) (j - a)"
  shows "\<exists>s'. mem_explode_core alloc startVaddr endVaddr base mmuActive tab s = Some (True, tab', s') \<and>
    tables_ok base s' \<and> dacr s' = dacr s \<and>
    (\<forall>v. in_paged base s' v = (in_paged base s v \<or> a \<le> sectionNum v \<and> sectionNum v < j) \<and>
         physical base s' v = physical base s v \<and>
         attributes base s' v = (if a \<le> sectionNum v \<and> sectionNum v < j then as_page (attributes base s v) else attributes base s v))"
proof -
  note steps = explode_core_steps [OF assms(2-6)]
  have free: "\<forall>k. a \<le> k \<and> k < j \<longrightarrow> \<not> paged base s k"
    using assms(7) by (auto simp: identity_section_def paged_def tte_consts)
  then have nil: "getPageTable (words s (base + 4 * k)) = NIL" if "a \<le> k" "k < j" for k
    using that by (simp add: getPageTable_at)
  have all_free: "{k. a \<le> k \<and> k < j \<and> getPageTable (words s (base + 4 * k)) = NIL} = {a..<j}"
    using nil by auto
  have c1: "(of_nat (256 * (j - a)) :: u32) \<noteq> 0"
    by (rule of_nat_u32_nonzero) (use steps(2) assms(6) in simp_all)
  have "(of_nat (256 * n) :: u32) * 4 = of_nat (1024 * n)" for n by simp
  then have c2: "(of_nat (256 * (j - a)) :: u32) * 4 = of_nat (1024 * (j - a))" .
  have q: "q \<noteq> 0" using assms(9) by (auto simp: fresh_tables_def)
  obtain d s0 where d: "open_if mmuActive s = (d, s0)" by (cases "open_if mmuActive s")
  have words0: "words s0 = words s" using open_close(1) [OF d] .
  have free0: "\<forall>k. a \<le> k \<and> k < j \<longrightarrow> getPageTable (stte base s0 k) = NIL"
    using nil by (simp add: stte_def words0)
  have block: "unat q + 1024 * (j - a) \<le> base \<or> base + 16384 \<le> unat q"
    using assms(9) [unfolded fresh_tables_def] by blast
  have loop: "\<exists>s1. explode_loop (base + 4 * a) (unat q) (of_nat (a * 2 ^ 20)) (of_nat (j * 2 ^ 20)) s0 = Some s1 \<and>
      exploded base a j (unat q) s0 s1"
    by (rule explode_loop_exploded [OF less_imp_le [OF steps(2)] order_refl steps(3) assms(6) free0 _ block])
      (rule notE [OF less_irrefl], assumption)
  obtain s1 where s1: "explode_loop (base + 4 * a) (unat q) (of_nat (a * 2 ^ 20)) (of_nat (j * 2 ^ 20)) s0 = Some s1"
    "exploded base a j (unat q) s0 s1"
    using loop by blast
  let ?s' = "close_if mmuActive d s1"
  have frame: "words ?s' = words s1" "dacr ?s' = dacr s" "ttbr0 ?s' = ttbr0 s" "sctlr ?s' = sctlr s"
    using s1(2) d by (auto simp: close_if_def closeMmu_def open_if_def openMmu_def exploded_def split: if_splits)
  have ex: "exploded base a j (unat q) s ?s'"
    using s1(2) frame by (auto simp: exploded_def stte_def words0)
  note ent = exploded_entries [OF assms(1) ex less_imp_le [OF steps(2)] steps(3) free assms(9)]
  have run: "mem_explode_core alloc startVaddr endVaddr base mmuActive tab s = Some (True, tab', ?s')"
    unfolding steps(1) all_free card_atLeastLessThan Let_def c2 assms(8) using c1 q
    by (simp only: if_False prod.case d s1(1) bind.simps)
  have num: "sectionNum v = unat v div 2 ^ 20" for v :: u32
    unfolding sectionNum_def unat_drop_bit_eq by (rule drop_bit_eq_div)
  have "in_paged base ?s' v = (in_paged base s v \<or> a \<le> sectionNum v \<and> sectionNum v < j) \<and>
      physical base ?s' v = physical base s v \<and>
      attributes base ?s' v = (if a \<le> sectionNum v \<and> sectionNum v < j then as_page (attributes base s v) else attributes base s v)" for v
  proof -
    let ?k = "unat v div 2 ^ 20" and ?x = "unat v div 2 ^ 12 mod 2 ^ 8"
    note kx = address_cell(3,4) [of v]
    note e = ent(1) [OF kx(1)] ent(4) [OF kx]
    show ?thesis
    proof (cases "a \<le> ?k \<and> ?k < j")
      case False
      then show ?thesis
        using e by (auto simp: in_paged_def physical_def attributes_def tte_of_def num)
    next
      case True
      then have np: "\<not> paged base s ?k" and id: "identity_section ?k (entry base s ?k ?x)"
        using free assms(7) by (auto simp: entry_def)
      have "in_paged base ?s' v" "\<not> in_paged base s v" using e(1) True np by (simp_all add: in_paged_def)
      moreover have tte: "tte_of base ?s' v =
          of_nat ((256 * ?k + ?x) * 2 ^ 12) OR pagePropertyBits (decodeSectionProperties (tte_of base s v))"
        unfolding tte_of_def e(2) using True by simp
      moreover have "tte_of base s v AND NOT (mask 20) = v AND NOT (mask 20)"
        using id unfolding tte_of_def identity_section_def address_cell(2) by blast
      moreover have "makeProps (tte_of base ?s' v) 2 = as_page (makeProps (tte_of base s v) 1)"
        unfolding tte using id by (intro decode_attributes) (simp add: tte_of_def identity_section_def)
      ultimately show ?thesis
        using True page_entry_address [OF decode_parts, of "256 * ?k + ?x"]
        by (simp only: physical_def attributes_def if_True if_False num address_cell(1) [of v, symmetric] split_address simp_thms)
    qed
  qed
  then show ?thesis
    using run exploded_tables_ok [OF assms(1) ex less_imp_le [OF steps(2)] steps(3) free assms(9)] frame by blast
qed


text \<open>
  C8: when the first section of the range already has small pages, \<open>mem_explode\<close> changes no
  translation table, yet it reports success, even if other sections of the range have none: the
  second loop does not advance past a section that has a page table. If it gets the 1 KB that it
  asks for per section without a table, this memory stays allocated although nothing uses it.
\<close>

theorem explode_skips:
  assumes "startVaddr \<noteq> endVaddr" and "startVaddr \<le> endVaddr - 1"
    and "a = unat startVaddr div 2 ^ 20" and "j = Suc (unat (endVaddr - 1) div 2 ^ 20)" and "j - a < 4096"
    and "getPageTable (words s (base + 4 * a)) \<noteq> NIL"
    and "a < k" and "k < j" and "getPageTable (words s (base + 4 * k)) = NIL"
    and "alloc (of_nat (1024 * card {k. a \<le> k \<and> k < j \<and> getPageTable (words s (base + 4 * k)) = NIL})) tab =
      (mem, tab')" and "mem \<noteq> 0"
  shows "mem_explode_core alloc startVaddr endVaddr base mmuActive tab s = Some (True, tab', s)"
proof -
  note steps = explode_core_steps [OF assms(1-5)]
  let ?free = "{k. a \<le> k \<and> k < j \<and> getPageTable (words s (base + 4 * k)) = NIL}"
  have sub: "?free \<subseteq> {a..<j}" by auto
  have "?free \<noteq> {}" using assms(7-9) by auto
  moreover have "finite ?free" "card ?free \<le> card {a..<j}"
    using finite_subset [OF sub] card_mono [OF _ sub] by simp_all
  ultimately have "0 < 256 * card ?free" "256 * card ?free < 2 ^ 32"
    using assms(5) by (simp_all add: card_gt_0_iff)
  then have c: "(of_nat (256 * card ?free) :: u32) \<noteq> 0" by (rule of_nat_u32_nonzero)
  have "(of_nat (256 * card ?free) * 4 :: u32) = of_nat (1024 * card ?free)" by simp
  then have q: "alloc (of_nat (256 * card ?free) * 4) tab = (mem, tab')" using assms(10) by simp
  obtain d s0 where d: "open_if mmuActive s = (d, s0)" by (cases "open_if mmuActive s")
  then have restored: "words s0 = words s" "close_if mmuActive d s0 = s"
    by (auto simp: open_if_def openMmu_def close_if_def closeMmu_def split: if_splits)
  have "getPageTable (words s0 (base + 4 * a)) \<noteq> NIL" unfolding restored(1) by (rule assms(6))
  then have loop: "explode_loop (base + 4 * a) (unat mem) (of_nat (a * 2 ^ 20)) (of_nat (j * 2 ^ 20)) s0 = Some s0"
    by (rule explode_loop_stuck [OF less_imp_le [OF steps(2)] assms(5)])
  show "mem_explode_core alloc startVaddr endVaddr base mmuActive tab s = Some (True, tab', s)"
    unfolding steps(1) Let_def q if_not_P [OF c] prod.case if_not_P [OF assms(11)] d loop bind.simps restored(2) by (rule refl)
qed

subsection \<open>Concrete tables\<close>

text \<open>
  A first-level table at 0x4000 whose section 1 is mapped to itself and whose section 2 has a
  page table at 0x8000; all other entries fault.
\<close>

definition small_table :: mmu where
  "small_table = \<lparr>words = (\<lambda>a. if a = 0x4004 then 0x100002 else if a = 0x4008 then 0x8001 else 0),
     dacr = 0x40000000, ttbr0 = 0x4000, sctlr = 0\<rparr>"

lemma small_table_paged: "paged 0x4000 small_table k \<longleftrightarrow> k = 2"
  by (auto simp: paged_def stte_def small_table_def tte_consts)

lemma small_table_ok: "tables_ok 0x4000 small_table"
  unfolding tables_ok_def small_table_paged by (simp add: table_at_def stte_def small_table_def tte_consts)

lemma setFlags_attributes_witness:
  "attributes 0x4000 (the (mem_setFlags_core 0x180000 0x200800 MEM_RWDATA True 0x4000 small_table)) 0x200123 =
     flag_props MEM_RWDATA SMALL_PAGE"
proof -
  obtain s' where "mem_setFlags_core 0x180000 0x200800 MEM_RWDATA True 0x4000 small_table = Some s'"
    "attributes 0x4000 s' 0x200123 = flag_props MEM_RWDATA SMALL_PAGE"
    using setFlags_attributes [OF small_table_ok, of "0x180000" "0x200800" MEM_RWDATA True]
    by (force simp: Let_def in_paged_def small_table_paged)
  then show ?thesis by simp
qed

lemma explode_keeps_translation_witness:
  "\<exists>s'. mem_explode_core (\<lambda>n t. (0x8400, t)) 0x100000 0x180000 0x4000 True () small_table = Some (True, (), s') \<and>
     in_paged 0x4000 s' 0x123456 \<and> physical 0x4000 s' 0x123456 = physical 0x4000 small_table 0x123456"
proof -
  have fresh: "fresh_tables 0x4000 small_table (unat (0x8400 :: u32)) (2 - 1)"
    by (auto simp: fresh_tables_def small_table_paged table_at_def stte_def small_table_def tte_consts)
  have id: "\<forall>k. 1 \<le> k \<and> k < 2 \<longrightarrow> identity_section k (stte 0x4000 small_table k)"
  proof (intro allI impI)
    fix k :: nat
    assume "1 \<le> k \<and> k < 2"
    then have "k = 1" by simp
    then show "identity_section k (stte 0x4000 small_table k)"
      by (simp add: identity_section_def stte_def small_table_def mask_eq_exp_minus_1)
  qed
  have in1: "(1::nat) = unat (0x100000 :: u32) div 2 ^ 20" "2 = Suc (unat (0x180000 - 1 :: u32) div 2 ^ 20)"
    "(2 - 1 :: nat) < 4096" "1 \<le> sectionNum 0x123456 \<and> sectionNum 0x123456 < 2"
    by (simp_all add: sectionNum_def)
  have range: "(0x100000 :: u32) \<noteq> 0x180000" "(0x100000 :: u32) \<le> 0x180000 - 1" by simp_all
  obtain s' where "mem_explode_core (\<lambda>n t. (0x8400, t)) 0x100000 0x180000 0x4000 True () small_table = Some (True, (), s')"
    and v: "\<forall>v. in_paged 0x4000 s' v = (in_paged 0x4000 small_table v \<or> 1 \<le> sectionNum v \<and> sectionNum v < 2) \<and>
      physical 0x4000 s' v = physical 0x4000 small_table v \<and>
      attributes 0x4000 s' v = (if 1 \<le> sectionNum v \<and> sectionNum v < 2 then as_page (attributes 0x4000 small_table v)
        else attributes 0x4000 small_table v)"
    using explode_keeps_translation [OF small_table_ok range in1(1-3) id _ fresh, of "\<lambda>n t. (0x8400, t)" "()" "()" True, OF refl] by blast
  moreover have "in_paged 0x4000 s' 0x123456 \<and> physical 0x4000 s' 0x123456 = physical 0x4000 small_table 0x123456"
    using spec [OF v, of "0x123456"] in1(4) by blast
  ultimately show ?thesis by blast
qed

lemma explode_skips_witness:
  "mem_explode_core (\<lambda>n t. (0x8400, n)) 0x200000 0x400000 0x4000 True 0 small_table =
     Some (True, 1024, small_table)"
proof (rule explode_skips)
  show "(0x200000 :: u32) \<noteq> 0x400000" "(0x200000 :: u32) \<le> 0x400000 - 1" "(4 :: nat) - 2 < 4096"
    "(2::nat) = unat (0x200000 :: u32) div 2 ^ 20" "4 = Suc (unat (0x400000 - 1 :: u32) div 2 ^ 20)"
    by simp_all
  show tables: "getPageTable (words small_table (0x4000 + 4 * 2)) \<noteq> NIL" "getPageTable (words small_table (0x4000 + 4 * 3)) = NIL"
    by (simp_all add: small_table_def getPageTable_def tte_consts)
  have "k = 3" if "2 \<le> k" "k < 4" "getPageTable (words small_table (0x4000 + 4 * k)) = NIL" for k
  proof -
    have "k = 2 \<or> k = 3" using that(1,2) by linarith
    then show ?thesis using that(3) tables(1) by blast
  qed
  then have "{k. 2 \<le> k \<and> k < 4 \<and> getPageTable (words small_table (0x4000 + 4 * k)) = NIL} = {3}"
    using tables(2) by auto
  then show "(0x8400, of_nat (1024 * card {k. 2 \<le> k \<and> k < 4 \<and> getPageTable (words small_table (0x4000 + 4 * k)) = NIL})) =
      (0x8400 :: u32, 1024 :: u32)" by simp
qed simp_all

end
