(* ===== verification/MmuSetup.thy ===== *)
theory MmuSetup
  imports Mmu
begin

text \<open>
  Building the translation tables after a reset and printing them
  (\<^verbatim>\<open>mem_setupMmuTable\<close>, \<^verbatim>\<open>mem_startMmuAndCachesAfterReset\<close> and \<^verbatim>\<open>mem_printMmuTable\<close> of
  \<^verbatim>\<open>tool/memory/src/armCA9/memMmu.c\<close>). The theorem: for a well-formed region table the new
  tables map every address to itself, with the attributes that the layout of its region
  gives, and fault in the gaps between the regions.
\<close>

subsection \<open>Registers\<close>

definition ENABLE_ACCESS_FLAGS :: u32 where "ENABLE_ACCESS_FLAGS = push_bit 29 1"
definition ENABLE_ALIGNMENT_FAULTS :: u32 where "ENABLE_ALIGNMENT_FAULTS = push_bit 1 1"
definition ENABLE_ALL_CACHES :: u32 where "ENABLE_ALL_CACHES = push_bit 12 1 OR push_bit 2 1"
definition ENABLE_BRANCH_PREDICTION :: u32 where "ENABLE_BRANCH_PREDICTION = push_bit 11 1"
definition ENABLE_MMU :: u32 where "ENABLE_MMU = 1"
definition DOMAIN_CLIENT :: u32 where "DOMAIN_CLIENT = 1"

lemmas control_consts =
  ENABLE_ACCESS_FLAGS_def ENABLE_ALIGNMENT_FAULTS_def ENABLE_ALL_CACHES_def ENABLE_BRANCH_PREDICTION_def
  ENABLE_MMU_def DOMAIN_CLIENT_def

text \<open>The flags argument is ignored, as the comment in the source explains.\<close>

definition setTtbr0WithFlags :: "addr \<Rightarrow> u16 \<Rightarrow> mmu \<Rightarrow> mmu" where
  "setTtbr0WithFlags firstLevelTable flags s = s\<lparr>ttbr0 := of_nat firstLevelTable\<rparr>"

definition mem_startMmuAndCachesAfterReset :: "addr \<Rightarrow> mmu \<Rightarrow> mmu" where
  "mem_startMmuAndCachesAfterReset tableBase s =
     (let sctrl = (sctlr s AND NOT ENABLE_ALIGNMENT_FAULTS) OR (ENABLE_ACCESS_FLAGS OR ENABLE_BRANCH_PREDICTION);
          s = s\<lparr>sctlr := sctrl\<rparr>;
          s = s\<lparr>dacr := push_bit (unat (push_bit 1 MEMORY_DOMAIN)) DOMAIN_CLIENT\<rparr>;
          s = setTtbr0WithFlags tableBase MEM_MMU s
      in s\<lparr>sctlr := sctrl OR (ENABLE_MMU OR ENABLE_ALL_CACHES)\<rparr>)"

subsection \<open>Building the tables\<close>

record MmuInfo =
  nextSectionTte :: addr
  nextPageTte :: addr
  nextVaddr :: u32
  pageTablesStart :: u32
  pageTablesEnd :: u32

definition small_pages :: "mem_Region list \<Rightarrow> u32" where
  "small_pages regionTable =
     sum_list (map (\<lambda>reg. if pageSize reg = LOG2_SMALL_PAGE then ucast (pages reg) else 0) regionTable)"

definition allocatePageTables ::
    "(u32 \<Rightarrow> 'r \<Rightarrow> u32 \<times> 'r) \<Rightarrow> mem_Region list \<Rightarrow> MmuInfo \<Rightarrow> 'r \<Rightarrow> MmuInfo \<times> 'r" where
  "allocatePageTables alloc regionTable info tab =
     (let bytes = small_pages regionTable * 4;
          (p, tab) = alloc bytes tab
      in (info\<lparr>nextPageTte := unat p, pageTablesStart := p, pageTablesEnd := p + bytes\<rparr>, tab))"

text \<open>Writing the next first-level entry.\<close>

definition put_section :: "u32 \<Rightarrow> MmuInfo \<times> mmu \<Rightarrow> MmuInfo \<times> mmu" where
  "put_section w = (\<lambda>(info, s). (info\<lparr>nextSectionTte := nextSectionTte info + 4\<rparr>, store (nextSectionTte info) w s))"

partial_function (option) reserved_loop :: "u32 \<Rightarrow> MmuInfo \<Rightarrow> mmu \<Rightarrow> (MmuInfo \<times> mmu) option" where
  "reserved_loop regStart info s =
     (if nextVaddr info \<noteq> regStart
      then let (info, s) = put_section (sectionTte (nextVaddr info) STTE_TYPE_FAULT) (info, s)
           in reserved_loop regStart (info\<lparr>nextVaddr := nextVaddr info + SECTION_SIZE\<rparr>) s
      else Some (info, s))"

definition makeReserved :: "u32 \<Rightarrow> MmuInfo \<Rightarrow> mmu \<Rightarrow> (MmuInfo \<times> mmu) option" where
  "makeReserved regStart info s =
     (if \<not> sectionAligned (nextVaddr info) \<or> \<not> sectionAligned regStart then Some (info, s)
      else reserved_loop regStart info s)"

primrec sections_run :: "nat \<Rightarrow> u32 \<Rightarrow> MmuInfo \<Rightarrow> mmu \<Rightarrow> MmuInfo \<times> mmu" where
  "sections_run 0 propbits info s = (info, s)"
| "sections_run (Suc n) propbits info s =
     (let (info, s) = put_section (sectionTte (nextVaddr info) propbits) (info, s)
      in sections_run n propbits (info\<lparr>nextVaddr := nextVaddr info + SECTION_SIZE\<rparr>) s)"

text \<open>The walks over a layout: \<open>None\<close> when the pointer \<open>lay\<close> runs past the layout.\<close>

fun sections_walk :: "u32 \<Rightarrow> mem_LayoutItem list \<Rightarrow> MmuInfo \<Rightarrow> mmu \<Rightarrow> (MmuInfo \<times> mmu) option" where
  "sections_walk sectionsLeft lays info s =
     (if sectionsLeft = 0 then Some (info, s)
      else case lays of
        [] \<Rightarrow> None
      | lay # lays \<Rightarrow>
          let sections = (if lay_pages lay \<noteq> 0 then ucast (lay_pages lay) else sectionsLeft);
              (info, s) = sections_run (unat sections) (sectionPropertyBits (flagsToPropParts (lay_flags lay))) info s
          in sections_walk (sectionsLeft - sections) lays info s)"

definition makeSections :: "mem_Region \<Rightarrow> MmuInfo \<Rightarrow> mmu \<Rightarrow> (MmuInfo \<times> mmu) option" where
  "makeSections reg info s = sections_walk (ucast (pages reg)) (layout reg) info s"

fun pages_walk :: "u32 \<Rightarrow> mem_LayoutItem list \<Rightarrow> MmuInfo \<Rightarrow> mmu \<Rightarrow> (MmuInfo \<times> mmu) option" where
  "pages_walk pagesLeft lays info s =
     (if pagesLeft = 0 then Some (info, s)
      else case lays of
        [] \<Rightarrow> None
      | lay # lays \<Rightarrow>
          let n = (if lay_pages lay \<noteq> 0 then ucast (lay_pages lay) else pagesLeft);
              endVaddr = nextVaddr info + push_bit 12 n in do {
            s \<leftarrow> setPageTable (nextPageTte info) (pagePropertyBits (flagsToPropParts (lay_flags lay))) (nextVaddr info) endVaddr s;
            pages_walk (pagesLeft - n) lays
              (info\<lparr>nextPageTte := nextPageTte info + 4 * unat n, nextVaddr := endVaddr\<rparr>) s })"

partial_function (option) refs_loop :: "addr \<Rightarrow> u32 \<Rightarrow> u32 \<Rightarrow> MmuInfo \<Rightarrow> mmu \<Rightarrow> (MmuInfo \<times> mmu) option" where
  "refs_loop pageTableAddr v endVaddr info s =
     (if v \<noteq> endVaddr
      then let (info, s) = (if sectionAligned v then put_section (pageTableRefTte pageTableAddr) (info, s) else (info, s))
           in refs_loop (pageTableAddr + 4) (v + SMALL_PAGE_SIZE) endVaddr info s
      else Some (info, s))"

definition makePageTables :: "mem_Region \<Rightarrow> MmuInfo \<Rightarrow> mmu \<Rightarrow> (MmuInfo \<times> mmu) option" where
  "makePageTables reg info s =
     (let pageTableAddr = nextPageTte info in do {
        (info, s) \<leftarrow> pages_walk (ucast (pages reg)) (layout reg) info s;
        refs_loop pageTableAddr (start reg) (start reg + push_bit 12 (ucast (pages reg))) info s })"

fun entries_walk :: "mem_Region list \<Rightarrow> MmuInfo \<Rightarrow> mmu \<Rightarrow> (MmuInfo \<times> mmu) option" where
  "entries_walk [] info s = Some (info, s)"
| "entries_walk (reg # regs) info s = do {
     (info, s) \<leftarrow> (if start reg > nextVaddr info then makeReserved (start reg) info s else Some (info, s));
     (info, s) \<leftarrow> (if pageSize reg = LOG2_SMALL_PAGE then makePageTables reg info s else makeSections reg info s);
     entries_walk regs info s }"

definition makeTableEntries :: "mem_Region list \<Rightarrow> MmuInfo \<Rightarrow> mmu \<Rightarrow> (MmuInfo \<times> mmu) option" where
  "makeTableEntries regionTable info s = do {
     (info, s) \<leftarrow> entries_walk regionTable info s;
     if nextVaddr info \<noteq> 0 then makeReserved 0 info s else Some (info, s) }"

definition mem_setupMmuTable_core ::
    "addr \<Rightarrow> mem_Region list \<Rightarrow> (u32 \<Rightarrow> 'r \<Rightarrow> u32 \<times> 'r) \<Rightarrow> 'r \<Rightarrow> mmu \<Rightarrow> (bool \<times> 'r \<times> mmu) option" where
  "mem_setupMmuTable_core firstLevelTable regionTable alloc tab s =
     (let info = \<lparr>nextSectionTte = firstLevelTable, nextPageTte = NIL, nextVaddr = 0,
                  pageTablesStart = 0, pageTablesEnd = 0\<rparr>;
          (info, tab) = allocatePageTables alloc regionTable info tab in
      if nextPageTte info = NIL then Some (False, tab, s)
      else do {
        (info, s) \<leftarrow> makeTableEntries regionTable info s;
        Some (True, tab, mem_startMmuAndCachesAfterReset firstLevelTable s) })"

definition mem_setupMmuTable :: "mem_Region list \<Rightarrow> mmu \<Rightarrow> (bool \<times> mem_Region list \<times> mmu) option" where
  "mem_setupMmuTable tab s =
     mem_setupMmuTable_core (unat MMU_START) tab (mem_Region_alloc MEM_REGION_MMU) tab s"

subsection \<open>Printing the tables\<close>

text \<open>The printed lines as data, and whether the walk stopped at an entry that is not the identity.\<close>

datatype mmu_line =
    NotIdentity u32 u32
  | EntryLine u32 u32 u32 Props

definition printPageTable_step :: "u32 \<Rightarrow> u32 \<Rightarrow> mmu \<Rightarrow> nat \<Rightarrow> Props option \<Rightarrow> mmu_line list \<times> Props option \<times> bool" where
  "printPageTable_step sectionBase sectTte s i prev =
     (let w = words s (unat (sectTte AND 0xfffffc00) + 4 * i);
          addrIn = sectionBase + push_bit 12 (of_nat i);
          addrOut = w AND 0xfffff000;
          cur = makeProps w 2 in
      if addrIn \<noteq> addrOut then ([NotIdentity addrIn addrOut], prev, False)
      else if Some cur \<noteq> prev
        then ([EntryLine addrIn addrOut (drop_bit 5 sectTte AND 15) cur], Some cur, True)
      else ([], prev, True))"

text \<open>The loop over the entries \<open>is\<close>, which ends at the first \<open>False\<close>.\<close>

fun print_loop :: "(nat \<Rightarrow> Props option \<Rightarrow> mmu_line list \<times> Props option \<times> bool) \<Rightarrow> nat list \<Rightarrow> Props option \<Rightarrow>
    mmu_line list \<times> Props option \<times> bool" where
  "print_loop f [] prev = ([], prev, True)"
| "print_loop f (i # is) prev =
     (let (out, prev, go) = f i prev in
      if go then let (out', prev, go) = print_loop f is prev in (out @ out', prev, go)
      else (out, prev, False))"

definition printPageTable :: "u32 \<Rightarrow> u32 \<Rightarrow> mmu \<Rightarrow> Props option \<Rightarrow> mmu_line list \<times> Props option" where
  "printPageTable sectionBase sectTte s prev =
     (let (out, prev, go) = print_loop (printPageTable_step sectionBase sectTte s) [0..<256] prev in (out, prev))"

definition printMmu_step :: "addr \<Rightarrow> mmu \<Rightarrow> nat \<Rightarrow> Props option \<Rightarrow> mmu_line list \<times> Props option \<times> bool" where
  "printMmu_step table s i prev =
     (let w = words s (table + 4 * i);
          addrIn = push_bit 20 (of_nat i);
          addrOut = w AND 0xfff00000;
          cur = makeProps w 1 in
      if w AND 3 = 1 then let (out, prev) = printPageTable addrIn w s prev in (out, prev, True)
      else if addrIn \<noteq> addrOut then ([NotIdentity addrIn addrOut], prev, False)
      else if Some cur \<noteq> prev then ([EntryLine addrIn addrOut (drop_bit 5 w AND 0xf) cur], Some cur, True)
      else ([], prev, True))"

definition mem_printMmuTable :: "addr \<Rightarrow> mmu \<Rightarrow> mmu_line list" where
  "mem_printMmuTable table s = fst (print_loop (printMmu_step table s) [0..<4096] None)"


subsection \<open>What a region table asks for\<close>

text \<open>
  The region table as a function of the 4 KB pages of the address space: the flags of a page
  and whether its region has small pages. Pages outside of every region are reserved.
\<close>

fun layout_flags :: "nat \<Rightarrow> mem_LayoutItem list \<Rightarrow> nat \<Rightarrow> u16" where
  "layout_flags left [] i = MEM_RESERVED"
| "layout_flags left (lay # lays) i =
     (let n = (if lay_pages lay \<noteq> 0 then unat (lay_pages lay) else left)
      in if i < n then lay_flags lay else layout_flags (left - n) lays (i - n))"

definition is_small :: "mem_Region \<Rightarrow> bool" where
  "is_small reg \<longleftrightarrow> pageSize reg = LOG2_SMALL_PAGE"

definition unit_pages :: "mem_Region \<Rightarrow> nat" where
  "unit_pages reg = (if is_small reg then 1 else 256)"

definition first_page :: "mem_Region \<Rightarrow> nat" where
  "first_page reg = unat (start reg) div 2 ^ 12"

definition end_page :: "mem_Region \<Rightarrow> nat" where
  "end_page reg = first_page reg + unat (pages reg) * unit_pages reg"

fun planned :: "mem_Region list \<Rightarrow> nat \<Rightarrow> u16 \<times> bool" where
  "planned [] n = (MEM_RESERVED, False)"
| "planned (reg # regs) n =
     (if first_page reg \<le> n \<and> n < end_page reg
      then (layout_flags (unat (pages reg)) (layout reg) ((n - first_page reg) div unit_pages reg), is_small reg)
      else planned regs n)"

text \<open>
  A table that can be turned into translation tables: regions in the order of their
  addresses, layouts that cover their regions, and section boundaries at every change
  between sections, small pages and gaps. The first argument is the first page that may
  be used.
\<close>

fun layout_covers :: "nat \<Rightarrow> mem_LayoutItem list \<Rightarrow> bool" where
  "layout_covers left [] = (left = 0)"
| "layout_covers left (lay # lays) =
     (left = 0 \<or> lay_pages lay = 0 \<or> unat (lay_pages lay) \<le> left \<and> layout_covers (left - unat (lay_pages lay)) lays)"

fun regions_ok :: "nat \<Rightarrow> mem_Region list \<Rightarrow> bool" where
  "regions_ok n [] = (0 < n \<and> n \<le> 2 ^ 20 \<and> 256 dvd n)"
| "regions_ok n (reg # regs) =
     (start reg = of_nat (first_page reg * 2 ^ 12) \<and> n \<le> first_page reg \<and>
      (n = first_page reg \<or> 256 dvd n \<and> 256 dvd first_page reg) \<and> (is_small reg \<or> 256 dvd first_page reg) \<and>
      layout_covers (unat (pages reg)) (layout reg) \<and> end_page reg \<le> 2 ^ 20 \<and> regions_ok (end_page reg) regs)"

text \<open>The number of small pages below page \<open>n\<close>.\<close>

primrec small_below :: "(nat \<Rightarrow> u16 \<times> bool) \<Rightarrow> nat \<Rightarrow> nat" where
  "small_below F 0 = 0"
| "small_below F (Suc n) = small_below F n + (if snd (F n) then 1 else 0)"

text \<open>Sections are uniform: either all their pages are small, or all are alike.\<close>

definition alike :: "u16 \<times> bool \<Rightarrow> u16 \<times> bool \<Rightarrow> bool" where
  "alike a b \<longleftrightarrow> snd a = snd b \<and> (snd b \<or> a = b)"

definition uniform :: "(nat \<Rightarrow> u16 \<times> bool) \<Rightarrow> bool" where
  "uniform F \<longleftrightarrow> (\<forall>k x. x < 256 \<longrightarrow> alike (F (256 * k)) (F (256 * k + x)))"

lemma regions_ok_bound: "regions_ok n regs \<Longrightarrow> n \<le> 2 ^ 20"
  by (cases regs) (auto simp: end_page_def intro: le_trans)

lemma planned_below: "regions_ok n regs \<Longrightarrow> m < n \<Longrightarrow> planned regs m = (MEM_RESERVED, False)"
proof (induction regs arbitrary: n)
  case (Cons reg regs)
  then have "m < first_page reg" "m < end_page reg" by (auto simp: end_page_def)
  then show ?case using Cons by auto
qed simp

text \<open>The induction over the regions: what holds for a region's own pages and its successors.\<close>

lemma planned_here: "first_page reg \<le> n \<Longrightarrow> n < end_page reg \<Longrightarrow>
    planned (reg # regs) n = (layout_flags (unat (pages reg)) (layout reg) ((n - first_page reg) div unit_pages reg), is_small reg)"
  by simp

lemma planned_later: "end_page reg \<le> n \<Longrightarrow> planned (reg # regs) n = planned regs n"
  by simp

lemma planned_gap: "regions_ok n (reg # regs) \<Longrightarrow> m < first_page reg \<Longrightarrow> planned (reg # regs) m = (MEM_RESERVED, False)"
  by (auto simp: end_page_def intro!: planned_below [of "end_page reg"])

lemma end_page_aligned: "regions_ok n (reg # regs) \<Longrightarrow> \<not> is_small reg \<Longrightarrow> 256 dvd end_page reg"
  by (simp add: end_page_def unit_pages_def)

lemma section_of:
  fixes n :: nat
  shows "256 dvd f \<Longrightarrow> f \<le> n \<Longrightarrow> f \<le> n div 256 * 256" "256 dvd e \<Longrightarrow> n < e \<Longrightarrow> n div 256 * 256 < e"
  by (auto elim!: dvdE)

lemma same_section: "n div 256 * 256 \<le> m \<Longrightarrow> m \<le> n \<Longrightarrow> m div 256 * 256 = n div 256 * (256 :: nat)"
  by (metis div_le_mono div_mult_self_is_m le_antisym zero_less_numeral)

lemma section_offset:
  fixes n :: nat
  assumes "256 * c \<le> n"
  shows "(n div 256 * 256 - 256 * c) div 256 = (n - 256 * c) div 256"
proof -
  obtain d where n: "n = 256 * c + d" using assms by (auto simp: le_iff_add)
  have "n div 256 * 256 = 256 * c + d div 256 * 256" by (simp add: n)
  then show ?thesis unfolding n by simp
qed

lemma planned_uniform:
  assumes "regions_ok n regs" and "n \<le> m" and "\<not> 256 dvd n \<longrightarrow> b"
    and "\<forall>i. n div 256 * 256 \<le> i \<and> i < n \<longrightarrow> snd (F i) = b" and "\<forall>i \<ge> n. F i = planned regs i"
  shows "alike (F (m div 256 * 256)) (F m)"
  using assms
proof (induction regs arbitrary: n b)
  case Nil
  have "n \<le> m div 256 * 256" using Nil section_of(1) by simp
  then show ?case using Nil by (simp add: alike_def)
next
  case (Cons reg regs)
  let ?f = "first_page reg" and ?e = "end_page reg" and ?k = "m div 256 * 256"
  have small: "snd (F i) = is_small reg" if "?f \<le> i" "i < ?e" for i
    using Cons.prems(1,5) that planned_here [of reg i regs] by auto
  consider "m < ?f" | "?f \<le> m" "m < ?e" | "?e \<le> m" by linarith
  then show ?case
  proof cases
    case 1
    then have al: "256 dvd n" using Cons.prems by auto
    then have "n \<le> ?k" using section_of(1) Cons.prems(2) by blast
    moreover have "?k \<le> m" by simp
    moreover from this have "?k < ?f" using 1 by (rule le_less_trans)
    ultimately have "F ?k = (MEM_RESERVED, False)" "F m = (MEM_RESERVED, False)"
      using Cons.prems(2,5) planned_gap [OF Cons.prems(1), of ?k] planned_gap [OF Cons.prems(1), of m] 1 by simp_all
    then show ?thesis by (simp add: alike_def)
  next
    case 2
    show ?thesis
    proof (cases "?f \<le> ?k")
      case True
      then have sm: "snd (F m) = is_small reg" "snd (F ?k) = is_small reg"
        using small [of m] small [of ?k] 2 by (metis div_times_less_eq_dividend le_less_trans)+
      have km: "?k < ?e" "n \<le> ?k" "n \<le> m"
        using 2(2) True Cons.prems(1,2) by (auto intro: le_less_trans [OF div_times_less_eq_dividend])
      have "F ?k = F m" if ns: "\<not> is_small reg"
      proof -
        obtain c where c: "?f = 256 * c" using Cons.prems(1) ns by (auto elim: dvdE)
        have "(?k - ?f) div 256 = (m - ?f) div 256"
          unfolding c by (rule section_offset) (use 2 c in simp)
        then show ?thesis
          using planned_here [of reg m regs] planned_here [of reg ?k regs] 2 True km Cons.prems(5) ns
          by (simp add: unit_pages_def)
      qed
      then show ?thesis using sm by (auto simp: alike_def)
    next
      case False
      then have "\<not> 256 dvd ?f" using 2(1) section_of(1) by blast
      then have nf: "n = ?f" "is_small reg" "\<not> 256 dvd n" using Cons.prems(1) by auto
      have "n div 256 * 256 = ?k" using same_section [of m n] False nf(1) 2(1) by simp
      then have "snd (F ?k) = b" using Cons.prems(4) False nf(1) by simp
      then show ?thesis using small [of m] 2 nf Cons.prems(3) by (simp add: alike_def)
    qed
  next
    case 3
    show ?thesis
    proof (rule Cons.IH)
      show "regions_ok ?e regs" "?e \<le> m" "\<forall>i \<ge> ?e. F i = planned regs i"
        using Cons.prems(1,5) 3 by (auto simp: end_page_def)
      show "\<not> 256 dvd ?e \<longrightarrow> is_small reg" using end_page_aligned [OF Cons.prems(1)] by blast
      show "\<forall>i. ?e div 256 * 256 \<le> i \<and> i < ?e \<longrightarrow> snd (F i) = is_small reg"
      proof (intro allI impI)
        fix i
        assume i: "?e div 256 * 256 \<le> i \<and> i < ?e"
        then have ne: "\<not> 256 dvd ?e" by (auto elim!: dvdE)
        then have sm: "is_small reg" using end_page_aligned [OF Cons.prems(1)] by blast
        show "snd (F i) = is_small reg"
        proof (cases "?f \<le> i")
          case True
          then show ?thesis using small i by blast
        next
          case False
          then have "\<not> 256 dvd ?f"
            using i section_of(1) [of ?f ?e] by (auto simp: end_page_def)
          then have nf: "n = ?f" "\<not> 256 dvd n" using Cons.prems(1) by auto
          moreover have "n div 256 * 256 = ?e div 256 * 256"
            using same_section [of ?e ?f] False i nf(1) by (simp add: end_page_def)
          ultimately show ?thesis using Cons.prems(3,4) sm i False by auto
        qed
      qed
    qed
  qed
qed

lemma uniform_planned:
  assumes "regions_ok 0 regs"
  shows "uniform (planned regs)"
  unfolding uniform_def
proof (intro allI impI)
  fix k x :: nat
  assume "x < 256"
  then have "(256 * k + x) div 256 * 256 = 256 * k" by simp
  then show "alike (planned regs (256 * k)) (planned regs (256 * k + x))"
    using planned_uniform [OF assms le0 _ _ allI, of True "planned regs" "256 * k + x"] by (simp add: mult.commute)
qed


subsection \<open>Counting small pages\<close>

lemma small_below_all: "\<forall>i. n \<le> i \<and> i < n + d \<longrightarrow> snd (F i) \<Longrightarrow> small_below F (n + d) = small_below F n + d"
  by (induction d) auto

lemma small_below_none: "\<forall>i. n \<le> i \<and> i < n + d \<longrightarrow> \<not> snd (F i) \<Longrightarrow> small_below F (n + d) = small_below F n"
  by (induction d) auto

lemma small_below_mono: "m \<le> n \<Longrightarrow> small_below F m \<le> small_below F n"
proof (induction n)
  case (Suc n)
  then show ?case by (cases "m = Suc n") auto
qed simp

lemma small_below_le: "small_below F n \<le> n"
  by (induction n) auto

lemma small_below_section:
  assumes "uniform F" and "x \<le> 256"
  shows "small_below F (256 * k + x) = small_below F (256 * k) + (if snd (F (256 * k)) then x else 0)"
proof -
  have same: "snd (F i) \<longleftrightarrow> snd (F (256 * k))" if i: "256 * k \<le> i \<and> i < 256 * k + x" for i
  proof -
    obtain d where "i = 256 * k + d" using i by (auto simp: le_iff_add)
    moreover from this have "d < 256" using i assms(2) by simp
    ultimately show ?thesis using assms(1) unfolding uniform_def alike_def by blast
  qed
  show ?thesis
  proof (cases "snd (F (256 * k))")
    case True
    then have "small_below F (256 * k + x) = small_below F (256 * k) + x"
      using same by (intro small_below_all) blast
    then show ?thesis using True by simp
  next
    case False
    then have "small_below F (256 * k + x) = small_below F (256 * k)"
      using same by (intro small_below_none) blast
    then show ?thesis using False by simp
  qed
qed

lemma small_below_aligned: "uniform F \<Longrightarrow> 256 dvd small_below F (256 * k)"
proof (induction k)
  case (Suc k)
  then show ?case using small_below_section [of F 256 k] by (auto simp: add.commute)
qed simp

definition small_total :: "mem_Region list \<Rightarrow> nat" where
  "small_total regs = sum_list (map (\<lambda>reg. if is_small reg then unat (pages reg) else 0) regs)"

lemma small_pages_total: "small_pages regs = of_nat (small_total regs)"
  by (induction regs) (auto simp: small_pages_def small_total_def is_small_def)

lemma small_below_total:
  "regions_ok n regs \<Longrightarrow> \<forall>i \<ge> n. F i = planned regs i \<Longrightarrow> small_below F (2 ^ 20) = small_below F n + small_total regs"
proof (induction regs arbitrary: n)
  case Nil
  then show ?case
    using small_below_none [of n "2 ^ 20 - n" F] by (simp add: small_total_def)
next
  case (Cons reg regs)
  let ?f = "first_page reg" and ?e = "end_page reg"
  have nf: "n \<le> ?f" and fe: "?f \<le> ?e" using Cons.prems(1) by (simp_all add: end_page_def)
  have "\<not> snd (F i)" if "n \<le> i" "i < ?f" for i
    using planned_gap [OF Cons.prems(1) that(2)] Cons.prems(2) that(1) by simp
  then have "small_below F ?f = small_below F n"
    using small_below_none [of n "?f - n" F] nf by simp
  moreover have "snd (F i) = is_small reg" if "?f \<le> i" "i < ?e" for i
    using planned_here [OF that, of regs] Cons.prems(2) nf that(1) by simp
  then have "small_below F (?f + unat (pages reg) * unit_pages reg) =
      small_below F ?f + (if is_small reg then unat (pages reg) else 0)"
    using small_below_none [of ?f "unat (pages reg) * unit_pages reg" F] small_below_all [of ?f "unat (pages reg)" F]
    by (cases "is_small reg") (simp_all add: end_page_def unit_pages_def)
  then have "small_below F ?e = small_below F ?f + (if is_small reg then unat (pages reg) else 0)"
    by (simp only: end_page_def)
  moreover have "\<forall>i \<ge> ?e. F i = planned regs i" using Cons.prems(2) nf fe by auto
  then have "small_below F (2 ^ 20) = small_below F ?e + small_total regs"
    using Cons.prems(1) by (intro Cons.IH) simp_all
  ultimately show ?case by (simp add: small_total_def)
qed

subsection \<open>The tables under construction\<close>

text \<open>
  The entry of small page \<open>n\<close> lies at \<open>slot F q n\<close>. The page entries below page \<open>n\<close> and the
  first-level entries below section \<open>k\<close> are in place.
\<close>

definition slot :: "(nat \<Rightarrow> u16 \<times> bool) \<Rightarrow> addr \<Rightarrow> nat \<Rightarrow> addr" where
  "slot F q n = q + 4 * small_below F n"

definition pages_done :: "(nat \<Rightarrow> u16 \<times> bool) \<Rightarrow> addr \<Rightarrow> nat \<Rightarrow> mmu \<Rightarrow> bool" where
  "pages_done F q n s \<longleftrightarrow> (\<forall>m < n. snd (F m) \<longrightarrow>
     words s (slot F q m) = of_nat (m * 2 ^ 12) OR pagePropertyBits (flagsToPropParts (fst (F m))))"

definition first_level :: "(nat \<Rightarrow> u16 \<times> bool) \<Rightarrow> addr \<Rightarrow> nat \<Rightarrow> u32" where
  "first_level F q k =
     (if snd (F (256 * k)) then pageTableRefTte (slot F q (256 * k))
      else sectionTte (of_nat (k * 2 ^ 20)) (sectionPropertyBits (flagsToPropParts (fst (F (256 * k))))))"

definition sections_done :: "(nat \<Rightarrow> u16 \<times> bool) \<Rightarrow> addr \<Rightarrow> addr \<Rightarrow> nat \<Rightarrow> mmu \<Rightarrow> bool" where
  "sections_done F q base j s \<longleftrightarrow> (\<forall>k < j. stte base s k = first_level F q k)"

text \<open>The memory for the page tables does not meet the first-level table.\<close>

definition room :: "(nat \<Rightarrow> u16 \<times> bool) \<Rightarrow> addr \<Rightarrow> addr \<Rightarrow> bool" where
  "room F q base \<longleftrightarrow> q + 4 * small_below F (2 ^ 20) \<le> base \<or> base + 16384 \<le> q"

lemma slot_less:
  assumes "m < n" and "snd (F m)"
  shows "slot F q m + 4 \<le> slot F q n"
  using small_below_mono [of "Suc m" n F] assms by (simp add: slot_def)

lemma slot_bounds: "m < 2 ^ 20 \<Longrightarrow> snd (F m) \<Longrightarrow> q \<le> slot F q m \<and> slot F q m + 4 \<le> q + 4 * small_below F (2 ^ 20)"
  using slot_less [of m "2 ^ 20" F q] by (simp add: slot_def)

lemma put_section_pages:
  assumes "room F q base" and "pages_done F q n s" and "n \<le> 2 ^ 20" and "k < 4096"
  shows "pages_done F q n (store (base + 4 * k) w s)"
  unfolding pages_done_def
proof (intro allI impI)
  fix m
  assume m: "m < n" "snd (F m)"
  then have "slot F q m \<noteq> base + 4 * k"
    using slot_bounds [of m F q] assms(1,3,4) by (auto simp: room_def)
  then show "words (store (base + 4 * k) w s) (slot F q m) = of_nat (m * 2 ^ 12) OR pagePropertyBits (flagsToPropParts (fst (F m)))"
    using assms(2) m by (simp add: pages_done_def)
qed

lemma put_section_sections:
  "sections_done F q base j s \<Longrightarrow> w = first_level F q j \<Longrightarrow> sections_done F q base (Suc j) (store (base + 4 * j) w s)"
  by (auto simp: sections_done_def stte_def less_Suc_eq)

lemma fill_pages:
  assumes "room F q base" and "pages_done F q n s" and "n + d \<le> 2 ^ 20"
    and F: "\<forall>i < d. F (n + i) = (flags, True)"
    and s': "s' = fill (slot F q n) d (\<lambda>i. of_nat ((n + i) * 2 ^ 12) OR pagePropertyBits (flagsToPropParts flags)) s"
  shows "slot F q (n + d) = slot F q n + 4 * d" and "pages_done F q (n + d) s'"
    and "j \<le> 4096 \<Longrightarrow> sections_done F q base j s' = sections_done F q base j s"
proof -
  have slots: "slot F q (n + i) = slot F q n + 4 * i" if "i \<le> d" for i
  proof -
    have "snd (F m)" if m: "n \<le> m \<and> m < n + i" for m
    proof -
      have "m = n + (m - n)" "m - n < d" using m \<open>i \<le> d\<close> by auto
      then show ?thesis using F by (metis snd_conv)
    qed
    then show ?thesis using small_below_all [of n i F] by (simp add: slot_def)
  qed
  then show "slot F q (n + d) = slot F q n + 4 * d" by blast
  show "pages_done F q (n + d) s'"
    unfolding pages_done_def
  proof (intro allI impI)
    fix m
    assume m: "m < n + d" "snd (F m)"
    show "words s' (slot F q m) = of_nat (m * 2 ^ 12) OR pagePropertyBits (flagsToPropParts (fst (F m)))"
    proof (cases "m < n")
      case True
      then have "words s' (slot F q m) = words s (slot F q m)"
        unfolding s' using slot_less [of m n F q] m(2) by (intro fill_other) simp
      then show ?thesis using assms(2) True m(2) by (simp add: pages_done_def)
    next
      case False
      then obtain i where i: "m = n + i" "i < d" using m(1) by (auto simp: not_less le_iff_add)
      then have "words s' (slot F q m) = words s' (slot F q n + 4 * i)" using slots [of i] by simp
      also have "\<dots> = of_nat ((n + i) * 2 ^ 12) OR pagePropertyBits (flagsToPropParts flags)"
        unfolding s' using i(2) by (simp only: fill_at if_True)
      finally show ?thesis using F i by simp
    qed
  qed
  have "q \<le> slot F q n" "slot F q n + 4 * d \<le> q + 4 * small_below F (2 ^ 20)"
    using slots [of d] small_below_mono [OF assms(3), of F] by (simp_all add: slot_def)
  then have "stte base s' k = stte base s k" if "k < 4096" for k
    unfolding stte_def s' using that assms(1) by (intro fill_other) (auto simp: room_def)
  then show "j \<le> 4096 \<Longrightarrow> sections_done F q base j s' = sections_done F q base j s"
    by (simp add: sections_done_def)
qed


subsection \<open>The walks over the layouts\<close>

text \<open>The number of units a layout item stands for.\<close>

definition item_units :: "nat \<Rightarrow> mem_LayoutItem \<Rightarrow> nat" where
  "item_units left lay = (if lay_pages lay \<noteq> 0 then unat (lay_pages lay) else left)"

lemma item_units:
  assumes "layout_covers left (lay # lays)" and "0 < left" and "left < 2 ^ 16"
  shows "item_units left lay \<le> left" and "layout_covers (left - item_units left lay) lays"
    and "(if lay_pages lay \<noteq> 0 then ucast (lay_pages lay) else (of_nat left :: u32)) = of_nat (item_units left lay)"
    and "(of_nat left :: u32) - of_nat (item_units left lay) = of_nat (left - item_units left lay)"
    and "unat (of_nat (item_units left lay) :: u32) = item_units left lay"
    and "layout_flags left (lay # lays) i =
      (if i < item_units left lay then lay_flags lay else layout_flags (left - item_units left lay) lays (i - item_units left lay))"
proof -
  have zero: "layout_covers 0 lays" by (cases lays) simp_all
  show le: "item_units left lay \<le> left"
    using assms by (auto simp: item_units_def)
  show "layout_covers (left - item_units left lay) lays"
    using assms zero by (auto simp: item_units_def)
  show "(if lay_pages lay \<noteq> 0 then ucast (lay_pages lay) else (of_nat left :: u32)) = of_nat (item_units left lay)"
    by (simp add: item_units_def)
  show "(of_nat left :: u32) - of_nat (item_units left lay) = of_nat (left - item_units left lay)"
    using le by simp
  show "unat (of_nat (item_units left lay) :: u32) = item_units left lay"
    using le assms(3) by (intro unat_of_nat_u32) simp
  show "layout_flags left (lay # lays) i =
      (if i < item_units left lay then lay_flags lay else layout_flags (left - item_units left lay) lays (i - item_units left lay))"
    by (simp add: item_units_def Let_def)
qed

lemma pages_walk_done:
  assumes "room F q base" and "j \<le> 4096"
  shows "layout_covers left lays \<Longrightarrow> left < 2 ^ 16 \<Longrightarrow> n + left \<le> 2 ^ 20 \<Longrightarrow>
    \<forall>i < left. F (n + i) = (layout_flags left lays i, True) \<Longrightarrow>
    nextVaddr info = of_nat (n * 2 ^ 12) \<Longrightarrow> nextPageTte info = slot F q n \<Longrightarrow>
    pages_done F q n s \<Longrightarrow> sections_done F q base j s \<Longrightarrow>
    \<exists>info' s'. pages_walk (of_nat left) lays info s = Some (info', s') \<and>
      nextVaddr info' = of_nat ((n + left) * 2 ^ 12) \<and> nextPageTte info' = slot F q (n + left) \<and>
      nextSectionTte info' = nextSectionTte info \<and> pages_done F q (n + left) s' \<and> sections_done F q base j s'"
proof (induction lays arbitrary: left n info s)
  case Nil
  then show ?case by (subst pages_walk.simps) simp
next
  case (Cons lay lays)
  show ?case
  proof (cases "left = 0")
    case True
    then show ?thesis using Cons.prems by (subst pages_walk.simps) simp
  next
    case False
    define d where "d = item_units left lay"
    note u = item_units [OF Cons.prems(1) _ Cons.prems(2), folded d_def]
    have pos: "0 < left" using False by simp
    define s1 where "s1 = fill (slot F q n) d
      (\<lambda>i. of_nat ((n + i) * 2 ^ 12) OR pagePropertyBits (flagsToPropParts (lay_flags lay))) s"
    have "nextVaddr info + push_bit 12 (of_nat d) = of_nat ((n + d) * 2 ^ 12)"
      unfolding Cons.prems(5) by (simp add: push_bit_eq_mult algebra_simps)
    moreover have "setPageTable (slot F q n) (pagePropertyBits (flagsToPropParts (lay_flags lay)))
        (of_nat (n * 2 ^ 12)) (of_nat ((n + d) * 2 ^ 12)) s = Some s1"
      using setPageTable_fill [of n "n + d" "slot F q n"] u(1) [OF pos] Cons.prems(2) by (simp add: s1_def)
    moreover have "(of_nat left :: u32) \<noteq> 0" by (rule of_nat_u32_nonzero) (use pos Cons.prems(2) in simp_all)
    ultimately have step: "pages_walk (of_nat left) (lay # lays) info s =
        pages_walk (of_nat (left - d)) lays
          (info\<lparr>nextPageTte := slot F q n + 4 * d, nextVaddr := of_nat ((n + d) * 2 ^ 12)\<rparr>) s1"
      by (subst pages_walk.simps)
         (simp only: u(3-5) [OF pos] Let_def list.case if_False Cons.prems(5,6) bind.simps)
    have "\<forall>i < d. F (n + i) = (lay_flags lay, True)"
      using Cons.prems(4) u(1) [OF pos] u(6) [OF pos] by simp
    note f = fill_pages [OF assms(1) Cons.prems(7) _ this s1_def]
    have bound: "n + d \<le> 2 ^ 20" using Cons.prems(3) u(1) [OF pos] by simp
    have "\<forall>i < left - d. F (n + d + i) = (layout_flags (left - d) lays i, True)"
      using Cons.prems(4) u(6) [OF pos] by (auto simp: add.assoc dest!: spec [of _ "d + _"])
    then have "\<exists>info' s'. pages_walk (of_nat (left - d)) lays
          (info\<lparr>nextPageTte := slot F q n + 4 * d, nextVaddr := of_nat ((n + d) * 2 ^ 12)\<rparr>) s1 = Some (info', s') \<and>
        nextVaddr info' = of_nat ((n + d + (left - d)) * 2 ^ 12) \<and> nextPageTte info' = slot F q (n + d + (left - d)) \<and>
        nextSectionTte info' = nextSectionTte info \<and>
        pages_done F q (n + d + (left - d)) s' \<and> sections_done F q base j s'"
      using Cons.IH [of "left - d" "n + d" "info\<lparr>nextPageTte := slot F q n + 4 * d, nextVaddr := of_nat ((n + d) * 2 ^ 12)\<rparr>" s1]
        u(1,2) [OF pos] f [OF bound] Cons.prems(2,3,8) assms(2) by simp
    moreover have "n + d + (left - d) = n + left" using u(1) [OF pos] by simp
    ultimately show ?thesis unfolding step by simp
  qed
qed

lemma page_ends_differ:
  assumes "i < j" and "j - i < 2 ^ 20"
  shows "(of_nat (i * 2 ^ 12) :: u32) \<noteq> of_nat (j * 2 ^ 12)"
proof -
  have "(of_nat (j * 2 ^ 12) :: u32) - of_nat (i * 2 ^ 12) = of_nat ((j - i) * 2 ^ 12)"
    using assms(1) by (simp add: of_nat_diff algebra_simps)
  moreover have "(of_nat ((j - i) * 2 ^ 12) :: u32) \<noteq> 0"
    using assms by (intro of_nat_u32_nonzero) simp_all
  ultimately show ?thesis by (metis diff_self)
qed

lemma section_aligned_page:
  assumes "n < 2 ^ 20"
  shows "sectionAligned (of_nat (n * 2 ^ 12)) \<longleftrightarrow> 256 dvd n"
proof -
  have "n * 2 ^ 12 div 2 ^ 20 * 2 ^ 20 = n div 256 * 256 * 2 ^ 12"
    using div_mult2_eq [of "n * 2 ^ 12" "2 ^ 12" "256"] by simp
  then have "sectionAligned (of_nat (n * 2 ^ 12)) \<longleftrightarrow> (of_nat (n * 2 ^ 12) :: u32) = of_nat (n div 256 * 256 * 2 ^ 12)"
    unfolding sectionAligned_def floor_nat by (simp only:)
  also have "\<dots> \<longleftrightarrow> n * 2 ^ 12 = n div 256 * 256 * 2 ^ 12"
  proof
    assume "(of_nat (n * 2 ^ 12) :: u32) = of_nat (n div 256 * 256 * 2 ^ 12)"
    moreover have "n * 2 ^ 12 < 2 ^ 32" "n div 256 * 256 * 2 ^ 12 < 2 ^ 32"
      using assms div_times_less_eq_dividend [of n 256] by simp_all
    ultimately show "n * 2 ^ 12 = n div 256 * 256 * 2 ^ 12" by (metis unat_of_nat_u32)
  next
    assume "n * 2 ^ 12 = n div 256 * 256 * 2 ^ 12"
    then show "(of_nat (n * 2 ^ 12) :: u32) = of_nat (n div 256 * 256 * 2 ^ 12)" by (rule arg_cong)
  qed
  also have "\<dots> \<longleftrightarrow> n = n div 256 * 256" by (simp add: mult.commute)
  also have "\<dots> \<longleftrightarrow> 256 dvd n" by (metis dvd_div_mult_self dvd_triv_right)
  finally show ?thesis .
qed


text \<open>The number of sections begun before page \<open>n\<close>.\<close>

abbreviation begun :: "nat \<Rightarrow> nat" where "begun n \<equiv> (n + 255) div 256"

lemma begun_Suc: "begun (Suc n) = (if 256 dvd n then Suc (begun n) else begun n)"
proof (cases "256 dvd n")
  case True
  then show ?thesis by (auto elim!: dvdE)
next
  case False
  obtain k d where n: "n = 256 * k + d" "d < 256" using mult_div_mod_eq [of 256 n] by (metis mod_less_divisor zero_less_numeral)
  then have "0 < d" using False by (cases d) auto
  then have "(256 * k + d + 255) div 256 = Suc k" "(256 * k + d + 256) div 256 = Suc k" using n(2) by simp_all
  then show ?thesis using False n(1) by (simp add: add.commute add.left_commute)
qed

lemma refs_loop_done:
  assumes "room F q base" and "e \<le> 2 ^ 20"
  shows "i \<le> e \<Longrightarrow> e - i < 2 ^ 20 \<Longrightarrow> \<forall>m. i \<le> m \<and> m < e \<longrightarrow> snd (F m) \<Longrightarrow>
    nextSectionTte info = base + 4 * begun i \<Longrightarrow> sections_done F q base (begun i) s \<Longrightarrow> pages_done F q e s \<Longrightarrow>
    \<exists>info' s'. refs_loop (slot F q i) (of_nat (i * 2 ^ 12)) (of_nat (e * 2 ^ 12)) info s = Some (info', s') \<and>
      nextVaddr info' = nextVaddr info \<and> nextPageTte info' = nextPageTte info \<and>
      nextSectionTte info' = base + 4 * begun e \<and> sections_done F q base (begun e) s' \<and> pages_done F q e s'"
proof (induction "e - i" arbitrary: i info s)
  case 0
  then show ?case by (subst refs_loop.simps) simp
next
  case (Suc d)
  then have lt: "i < e" by simp
  have next_i: "slot F q i + 4 = slot F q (Suc i)" "(of_nat (i * 2 ^ 12) :: u32) + SMALL_PAGE_SIZE = of_nat (Suc i * 2 ^ 12)"
    using Suc.prems(3) lt by (simp_all add: slot_def section_size_nat)
  note ne = page_ends_differ [OF lt Suc.prems(2)]
  have al: "sectionAligned (of_nat (i * 2 ^ 12)) \<longleftrightarrow> 256 dvd i"
    using lt assms(2) by (intro section_aligned_page) simp
  define st where "st = (if 256 dvd i then put_section (pageTableRefTte (slot F q i)) (info, s) else (info, s))"
  obtain info1 s1 where st1: "st = (info1, s1)" by (cases st)
  have step: "refs_loop (slot F q i) (of_nat (i * 2 ^ 12)) (of_nat (e * 2 ^ 12)) info s =
      refs_loop (slot F q (Suc i)) (of_nat (Suc i * 2 ^ 12)) (of_nat (e * 2 ^ 12)) info1 s1"
    by (subst refs_loop.simps) (simp only: ne al next_i st_def [symmetric] st1 Let_def prod.case simp_thms if_True)
  have "nextVaddr info1 = nextVaddr info \<and> nextPageTte info1 = nextPageTte info \<and>
      nextSectionTte info1 = base + 4 * begun (Suc i) \<and> sections_done F q base (begun (Suc i)) s1 \<and> pages_done F q e s1"
  proof (cases "256 dvd i")
    case False
    then have same: "begun (Suc i) = begun i" unfolding begun_Suc by (rule if_not_P)
    show ?thesis unfolding same using False st1 Suc.prems by (simp add: st_def)
  next
    case True
    then obtain k where k: "i = 256 * k" ..
    then have b: "begun i = k" "begun (Suc i) = Suc k" "k < 4096" using lt assms(2) by simp_all
    have w: "pageTableRefTte (slot F q i) = first_level F q k"
      using Suc.prems(3) lt k by (simp add: first_level_def)
    have "info1 = info\<lparr>nextSectionTte := base + 4 * Suc k\<rparr>" "s1 = store (base + 4 * k) (first_level F q k) s"
      using st1 Suc.prems(4) True w b by (auto simp: st_def put_section_def add.commute)
    then show ?thesis
      using put_section_pages [OF assms(1) Suc.prems(6) assms(2) b(3)]
        put_section_sections [of F q base k s "first_level F q k"] Suc.prems(5) unfolding b by simp
  qed
  moreover have "d = e - Suc i" "Suc i \<le> e" "e - Suc i < 2 ^ 20" "\<forall>m. Suc i \<le> m \<and> m < e \<longrightarrow> snd (F m)"
    using Suc.hyps(2) Suc.prems(2,3) lt by simp_all
  ultimately show ?case
    unfolding step using Suc.hyps(1) [of "Suc i" info1 s1] by simp
qed

text \<open>Section entries: one section, a run of them, and the gap before a region.\<close>

definition ready :: "(nat \<Rightarrow> u16 \<times> bool) \<Rightarrow> addr \<Rightarrow> addr \<Rightarrow> nat \<Rightarrow> MmuInfo \<Rightarrow> mmu \<Rightarrow> bool" where
  "ready F q base n info s \<longleftrightarrow>
     nextVaddr info = of_nat (n * 2 ^ 12) \<and> nextPageTte info = slot F q n \<and> nextSectionTte info = base + 4 * begun n \<and>
     pages_done F q n s \<and> sections_done F q base (begun n) s"

lemma section_put:
  assumes "uniform F" and "room F q base" and "ready F q base (256 * k) info s" and "k < 4096"
    and "F (256 * k) = (flags, False)"
    and "put_section (sectionTte (nextVaddr info) (sectionPropertyBits (flagsToPropParts flags))) (info, s) = (info', s')"
  shows "ready F q base (256 * Suc k) (info'\<lparr>nextVaddr := nextVaddr info' + SECTION_SIZE\<rparr>) s'"
proof -
  note r = assms(3) [unfolded ready_def]
  have b: "begun (256 * k) = k" "begun (256 * Suc k) = Suc k" by simp_all
  have v: "(of_nat (256 * k * 2 ^ 12) :: u32) = of_nat (k * 2 ^ 20)" for k by (rule section_nat)
  have "small_below F (256 * Suc k) = small_below F (256 * k)"
    using small_below_section [OF assms(1), of 256 k] assms(5) by (simp add: add.commute)
  then have sl: "slot F q (256 * Suc k) = slot F q (256 * k)" by (simp add: slot_def)
  have w: "sectionTte (nextVaddr info) (sectionPropertyBits (flagsToPropParts flags)) = first_level F q k"
    using r assms(5) v [of k] by (simp only: first_level_def snd_conv fst_conv if_False)
  have "info' = info\<lparr>nextSectionTte := base + 4 * Suc k\<rparr>" "s' = store (base + 4 * k) (first_level F q k) s"
    using assms(6) r unfolding w b by (auto simp: put_section_def)
  moreover have "pages_done F q (256 * Suc k) (store (base + 4 * k) (first_level F q k) s)"
    unfolding pages_done_def
  proof (intro allI impI)
    fix m
    assume m: "m < 256 * Suc k" "snd (F m)"
    have "m < 256 * k"
    proof (rule ccontr)
      assume "\<not> m < 256 * k"
      then have "m = 256 * k + (m - 256 * k)" "m - 256 * k < 256" using m(1) by simp_all
      then show False using assms(1,5) m(2) unfolding uniform_def alike_def by (metis snd_conv)
    qed
    then show "words (store (base + 4 * k) (first_level F q k) s) (slot F q m) =
        of_nat (m * 2 ^ 12) OR pagePropertyBits (flagsToPropParts (fst (F m)))"
      using put_section_pages [OF assms(2) _ _ assms(4), of "256 * k" s] r assms(4) m(2)
      by (simp add: pages_done_def)
  qed
  moreover have "sections_done F q base (Suc k) (store (base + 4 * k) (first_level F q k) s)"
    using r unfolding b by (intro put_section_sections) simp_all
  moreover have "nextVaddr info + SECTION_SIZE = of_nat (256 * Suc k * 2 ^ 12)"
    using r v [of k] v [of "Suc k"] section_step [of k] by (simp only:)
  ultimately show ?thesis
    using r unfolding ready_def b sl by simp
qed


lemma sections_run_done:
  assumes "uniform F" and "room F q base"
  shows "ready F q base (256 * k) info s \<Longrightarrow> k + c \<le> 4096 \<Longrightarrow> \<forall>i < c. F (256 * (k + i)) = (flags, False) \<Longrightarrow>
    sections_run c (sectionPropertyBits (flagsToPropParts flags)) info s = (info', s') \<Longrightarrow>
    ready F q base (256 * (k + c)) info' s'"
proof (induction c arbitrary: k info s)
  case (Suc c)
  obtain info1 s1 where p: "put_section (sectionTte (nextVaddr info) (sectionPropertyBits (flagsToPropParts flags))) (info, s) = (info1, s1)"
    by fastforce
  have "ready F q base (256 * Suc k) (info1\<lparr>nextVaddr := nextVaddr info1 + SECTION_SIZE\<rparr>) s1"
    using Suc.prems(2,3) by (intro section_put [OF assms Suc.prems(1) _ _ p]) auto
  moreover have "nextVaddr info1 = nextVaddr info" using p by (auto simp: put_section_def)
  moreover have "\<forall>i < c. F (256 * (Suc k + i)) = (flags, False)"
  proof (intro allI impI)
    fix i
    assume "i < c"
    then show "F (256 * (Suc k + i)) = (flags, False)" using spec [OF Suc.prems(3), of "Suc i"] by simp
  qed
  ultimately have "ready F q base (256 * (Suc k + c)) info' s'"
    using Suc.prems(2,4) p by (intro Suc.IH) simp_all
  then show ?case by simp
qed simp

lemma sections_walk_done:
  assumes "uniform F" and "room F q base"
  shows "layout_covers left lays \<Longrightarrow> left < 2 ^ 16 \<Longrightarrow> k + left \<le> 4096 \<Longrightarrow>
    \<forall>i < left. F (256 * (k + i)) = (layout_flags left lays i, False) \<Longrightarrow> ready F q base (256 * k) info s \<Longrightarrow>
    \<exists>info' s'. sections_walk (of_nat left) lays info s = Some (info', s') \<and> ready F q base (256 * (k + left)) info' s'"
proof (induction lays arbitrary: left k info s)
  case Nil
  then show ?case by (subst sections_walk.simps) simp
next
  case (Cons lay lays)
  show ?case
  proof (cases "left = 0")
    case True
    then show ?thesis using Cons.prems by (subst sections_walk.simps) simp
  next
    case False
    define d where "d = item_units left lay"
    note u = item_units [OF Cons.prems(1) _ Cons.prems(2), folded d_def]
    have pos: "0 < left" using False by simp
    obtain info1 s1 where run: "sections_run d (sectionPropertyBits (flagsToPropParts (lay_flags lay))) info s = (info1, s1)"
      by fastforce
    have "(of_nat left :: u32) \<noteq> 0" by (rule of_nat_u32_nonzero) (use pos Cons.prems(2) in simp_all)
    then have step: "sections_walk (of_nat left) (lay # lays) info s = sections_walk (of_nat (left - d)) lays info1 s1"
      by (subst sections_walk.simps)
         (simp only: u(3-5) [OF pos] Let_def list.case if_False run prod.case)
    have "\<forall>i < d. F (256 * (k + i)) = (lay_flags lay, False)"
      using Cons.prems(4) u(1) [OF pos] u(6) [OF pos] by simp
    then have "ready F q base (256 * (k + d)) info1 s1"
      using Cons.prems(3,5) u(1) [OF pos] run by (intro sections_run_done [OF assms]) simp_all
    moreover have "\<forall>i < left - d. F (256 * (k + d + i)) = (layout_flags (left - d) lays i, False)"
    proof (intro allI impI)
      fix i
      assume i: "i < left - d"
      have "F (256 * (k + (d + i))) = (layout_flags left (lay # lays) (d + i), False)"
        by (rule mp [OF spec [OF Cons.prems(4)]]) (use i in simp)
      then show "F (256 * (k + d + i)) = (layout_flags (left - d) lays i, False)"
        unfolding u(6) [OF pos, of "d + i"] by (simp add: add.assoc)
    qed
    ultimately have "\<exists>info' s'. sections_walk (of_nat (left - d)) lays info1 s1 = Some (info', s') \<and>
        ready F q base (256 * (k + d + (left - d))) info' s'"
      using u(1,2) [OF pos] Cons.prems(2,3) by (intro Cons.IH) simp_all
    moreover have "k + d + (left - d) = k + left" using u(1) [OF pos] by simp
    ultimately show ?thesis unfolding step by simp
  qed
qed

lemma reserved_bits: "STTE_TYPE_FAULT = sectionPropertyBits (flagsToPropParts MEM_RESERVED)"
  by (simp add: sectionPropertyBits_def flagsToPropParts_def tte_consts MEM_RESERVED_def)

lemma reserved_loop_done:
  assumes "uniform F" and "room F q base" and "j \<le> 4096"
  shows "k \<le> j \<Longrightarrow> j - k < 4096 \<Longrightarrow> \<forall>i. k \<le> i \<and> i < j \<longrightarrow> F (256 * i) = (MEM_RESERVED, False) \<Longrightarrow>
    ready F q base (256 * k) info s \<Longrightarrow>
    \<exists>info' s'. reserved_loop (of_nat (j * 2 ^ 20)) info s = Some (info', s') \<and> ready F q base (256 * j) info' s'"
proof (induction "j - k" arbitrary: k info s)
  case 0
  then have "nextVaddr info = of_nat (256 * j * 2 ^ 12)" by (simp add: ready_def)
  then have "nextVaddr info = of_nat (j * 2 ^ 20)" unfolding section_nat .
  then show ?case using 0 by (subst reserved_loop.simps) simp
next
  case (Suc d)
  then have lt: "k < j" by simp
  obtain info1 s1 where p: "put_section (sectionTte (nextVaddr info) (sectionPropertyBits (flagsToPropParts MEM_RESERVED))) (info, s) = (info1, s1)"
    by fastforce
  have v: "nextVaddr info = of_nat (k * 2 ^ 20)" using Suc.prems(4) unfolding ready_def section_nat by blast
  have step: "reserved_loop (of_nat (j * 2 ^ 20)) info s =
      reserved_loop (of_nat (j * 2 ^ 20)) (info1\<lparr>nextVaddr := nextVaddr info1 + SECTION_SIZE\<rparr>) s1"
    using section_ends_differ [OF lt Suc.prems(2)]
    by (subst reserved_loop.simps) (simp only: reserved_bits p [unfolded v] Let_def prod.case v simp_thms if_True)
  have "ready F q base (256 * Suc k) (info1\<lparr>nextVaddr := nextVaddr info1 + SECTION_SIZE\<rparr>) s1"
    using Suc.prems(3) lt assms(3) by (intro section_put [OF assms(1,2) Suc.prems(4) _ _ p]) auto
  then show ?case
    unfolding step using Suc.hyps(1) [of "Suc k"] Suc.hyps(2) Suc.prems(2,3) lt by simp
qed

lemma makeReserved_done:
  assumes "uniform F" and "room F q base"
    and "k < j" and "j \<le> 4096" and "j - k < 4096" and "\<forall>i. k \<le> i \<and> i < j \<longrightarrow> F (256 * i) = (MEM_RESERVED, False)"
    and "ready F q base (256 * k) info s"
  shows "\<exists>info' s'. makeReserved (of_nat (256 * j * 2 ^ 12)) info s = Some (info', s') \<and> ready F q base (256 * j) info' s'"
proof -
  have al: "sectionAligned (of_nat (i * 2 ^ 20))" for i
  proof -
    have "i * 2 ^ 20 div 2 ^ 20 = i" by simp
    then show ?thesis unfolding sectionAligned_def floor_nat by (simp only:)
  qed
  have v: "nextVaddr info = of_nat (k * 2 ^ 20)" using assms(7) unfolding ready_def section_nat by blast
  show ?thesis
    using reserved_loop_done [OF assms(1,2,4) less_imp_le [OF assms(3)] assms(5-7)]
    unfolding makeReserved_def section_nat v by (simp only: al simp_thms if_False)
qed


subsection \<open>The regions in turn\<close>

lemma first_page_bound: "first_page reg < 2 ^ 20"
proof -
  have "unat (start reg) < 2 ^ 20 * 2 ^ 12" using unsigned_less [of "start reg", where 'a = nat] by simp
  then show ?thesis unfolding first_page_def by (rule less_mult_imp_div_less)
qed

lemma gap_done:
  assumes "uniform F" and "room F q base" and "regions_ok n (reg # regs)" and "\<forall>i \<ge> n. F i = planned (reg # regs) i"
    and "ready F q base n info s"
  shows "\<exists>info' s'. (if start reg > nextVaddr info then makeReserved (start reg) info s else Some (info, s)) = Some (info', s') \<and>
    ready F q base (first_page reg) info' s'"
proof -
  let ?f = "first_page reg"
  have nf: "n \<le> ?f" "n = ?f \<or> 256 dvd n \<and> 256 dvd ?f" and st: "start reg = of_nat (?f * 2 ^ 12)"
    using assms(3) by auto
  have fb: "?f < 2 ^ 20" by (rule first_page_bound)
  have lt: "?f * 2 ^ 12 < 2 ^ 32" "n * 2 ^ 12 < 2 ^ 32" using fb nf(1) by simp_all
  have v: "nextVaddr info = of_nat (n * 2 ^ 12)" using assms(5) unfolding ready_def by blast
  have "start reg > nextVaddr info \<longleftrightarrow> n * 2 ^ 12 < ?f * 2 ^ 12"
    unfolding st v word_less_nat_alt by (simp only: unat_of_nat_u32 lt)
  also have "\<dots> \<longleftrightarrow> n < ?f" by simp
  finally have gap: "start reg > nextVaddr info \<longleftrightarrow> n < ?f" .
  show ?thesis
  proof (cases "n < ?f")
    case False
    then have "n = ?f" using nf(1) by simp
    then show ?thesis using False gap assms(5) by simp
  next
    case True
    then obtain k j where kj: "n = 256 * k" "?f = 256 * j" using nf(2) by (auto elim!: dvdE)
    have "F (256 * i) = (MEM_RESERVED, False)" if "k \<le> i \<and> i < j" for i
      using planned_gap [OF assms(3), of "256 * i"] assms(4) that kj by simp
    then have "\<exists>info' s'. makeReserved (of_nat (256 * j * 2 ^ 12)) info s = Some (info', s') \<and> ready F q base (256 * j) info' s'"
      using True fb assms(5) kj by (intro makeReserved_done [OF assms(1,2), of k]) auto
    then show ?thesis using gap True unfolding st kj(2) by (simp only: if_True)
  qed
qed

lemma pages_done_here:
  assumes "room F q base" and "regions_ok n (reg # regs)" and "\<forall>i \<ge> n. F i = planned (reg # regs) i"
    and "is_small reg" and "ready F q base (first_page reg) info s"
  shows "\<exists>info' s'. makePageTables reg info s = Some (info', s') \<and> ready F q base (end_page reg) info' s'"
proof -
  let ?f = "first_page reg" and ?e = "end_page reg" and ?l = "unat (pages reg)"
  have ok: "layout_covers ?l (layout reg)" "?e \<le> 2 ^ 20" "n \<le> ?f" "start reg = of_nat (?f * 2 ^ 12)" using assms(2) by auto
  have e: "?e = ?f + ?l" using assms(4) by (simp add: end_page_def unit_pages_def)
  have l: "?l < 2 ^ 16" using unsigned_less [of "pages reg", where 'a = nat] by simp
  have F: "F (?f + i) = (layout_flags ?l (layout reg) i, True)" if "i < ?l" for i
    using planned_here [of reg "?f + i" regs] assms(3,4) that ok(3) e by (simp add: unit_pages_def)
  have b: "begun ?f \<le> 4096" using ok(2) e by simp
  have r: "nextVaddr info = of_nat (?f * 2 ^ 12)" "nextPageTte info = slot F q ?f" "nextSectionTte info = base + 4 * begun ?f"
    "pages_done F q ?f s" "sections_done F q base (begun ?f) s"
    using assms(5) unfolding ready_def by blast+
  have bound: "?f + ?l \<le> 2 ^ 20" using ok(2) e by simp
  obtain info1 s1 where w: "pages_walk (of_nat ?l) (layout reg) info s = Some (info1, s1)"
    "nextVaddr info1 = of_nat ((?f + ?l) * 2 ^ 12)" "nextPageTte info1 = slot F q (?f + ?l)"
    "nextSectionTte info1 = nextSectionTte info" "pages_done F q (?f + ?l) s1" "sections_done F q base (begun ?f) s1"
    using pages_walk_done [OF assms(1) b ok(1) l bound _ r(1,2,4,5)] F by blast
  have "snd (F m)" if m: "?f \<le> m \<and> m < ?e" for m
  proof -
    have "m = ?f + (m - ?f)" "m - ?f < ?l" using m e by auto
    then show ?thesis using F by (metis snd_conv)
  qed
  moreover have "?f \<le> ?e" "?e - ?f < 2 ^ 20" using e l by simp_all
  moreover have "nextSectionTte info1 = base + 4 * begun ?f" using w(4) r(3) by simp
  ultimately obtain info2 s2 where v: "refs_loop (slot F q ?f) (of_nat (?f * 2 ^ 12)) (of_nat (?e * 2 ^ 12)) info1 s1 = Some (info2, s2)"
    "nextVaddr info2 = nextVaddr info1" "nextPageTte info2 = nextPageTte info1" "nextSectionTte info2 = base + 4 * begun ?e"
    "sections_done F q base (begun ?e) s2" "pages_done F q ?e s2"
    using refs_loop_done [OF assms(1) ok(2), of ?f info1 s1] w(5,6) e by auto
  have l_word: "ucast (pages reg) = (of_nat ?l :: u32)" by simp
  have ends: "(of_nat (?f * 2 ^ 12) :: u32) + push_bit 12 (of_nat ?l) = of_nat (?e * 2 ^ 12)"
    unfolding e by (simp add: push_bit_eq_mult algebra_simps)
  have "makePageTables reg info s = Some (info2, s2)"
    unfolding makePageTables_def Let_def l_word w(1) ok(4) r(2) bind.simps prod.case ends by (rule v(1))
  moreover have "ready F q base ?e info2 s2"
    using v(2-6) w(2,3) unfolding ready_def e by simp
  ultimately show ?thesis by blast
qed

lemma sections_done_here:
  assumes "uniform F" and "room F q base" and "regions_ok n (reg # regs)" and "\<forall>i \<ge> n. F i = planned (reg # regs) i"
    and "\<not> is_small reg" and "ready F q base (first_page reg) info s"
  shows "\<exists>info' s'. makeSections reg info s = Some (info', s') \<and> ready F q base (end_page reg) info' s'"
proof -
  let ?f = "first_page reg" and ?e = "end_page reg" and ?l = "unat (pages reg)"
  have ok: "layout_covers ?l (layout reg)" "?e \<le> 2 ^ 20" "n \<le> ?f" using assms(3) by auto
  obtain k where k: "?f = 256 * k" using assms(3,5) by (auto elim: dvdE)
  then have e: "?e = 256 * (k + ?l)" using assms(5) by (simp add: end_page_def unit_pages_def)
  have l: "?l < 2 ^ 16" using unsigned_less [of "pages reg", where 'a = nat] by simp
  have F: "\<forall>i < ?l. F (256 * (k + i)) = (layout_flags ?l (layout reg) i, False)"
  proof (intro allI impI)
    fix i
    assume i: "i < ?l"
    then have "F (256 * (k + i)) = planned (reg # regs) (256 * (k + i))" using assms(4) ok(3) k by simp
    then show "F (256 * (k + i)) = (layout_flags ?l (layout reg) i, False)"
      using planned_here [of reg "256 * (k + i)" regs] i k e assms(5) by (simp add: unit_pages_def)
  qed
  have bound: "k + ?l \<le> 4096" using ok(2) e by simp
  have "ready F q base (256 * k) info s" using assms(6) k by simp
  from sections_walk_done [OF assms(1,2) ok(1) l bound F this] show ?thesis
    unfolding makeSections_def e by simp
qed

lemma entries_walk_done:
  assumes "uniform F" and "room F q base"
  shows "regions_ok n regs \<Longrightarrow> \<forall>i \<ge> n. F i = planned regs i \<Longrightarrow> ready F q base n info s \<Longrightarrow>
    \<exists>info' s' m. entries_walk regs info s = Some (info', s') \<and> ready F q base m info' s' \<and>
      0 < m \<and> m \<le> 2 ^ 20 \<and> 256 dvd m \<and> (\<forall>i \<ge> m. F i = (MEM_RESERVED, False))"
proof (induction regs arbitrary: n info s)
  case Nil
  then show ?case by auto
next
  case (Cons reg regs)
  obtain info1 s1 where a: "(if start reg > nextVaddr info then makeReserved (start reg) info s else Some (info, s)) = Some (info1, s1)"
    "ready F q base (first_page reg) info1 s1"
    using gap_done [OF assms Cons.prems] by blast
  obtain info2 s2 where b: "(if pageSize reg = LOG2_SMALL_PAGE then makePageTables reg info1 s1 else makeSections reg info1 s1) = Some (info2, s2)"
    "ready F q base (end_page reg) info2 s2"
    using pages_done_here [OF assms(2) Cons.prems(1,2) _ a(2)] sections_done_here [OF assms Cons.prems(1,2) _ a(2)]
    unfolding is_small_def by (cases "pageSize reg = LOG2_SMALL_PAGE") auto
  have "n \<le> end_page reg" using Cons.prems(1) by (simp add: end_page_def)
  then have "\<forall>i \<ge> end_page reg. F i = planned regs i" using Cons.prems(2) by simp
  moreover have "regions_ok (end_page reg) regs" using Cons.prems(1) by simp
  ultimately have "\<exists>info' s' m. entries_walk regs info2 s2 = Some (info', s') \<and> ready F q base m info' s' \<and>
      0 < m \<and> m \<le> 2 ^ 20 \<and> 256 dvd m \<and> (\<forall>i \<ge> m. F i = (MEM_RESERVED, False))"
    using b(2) by (intro Cons.IH)
  moreover have "entries_walk (reg # regs) info s = entries_walk regs info2 s2"
    by (simp add: a(1) b(1))
  ultimately show ?case by (simp only:)
qed

lemma makeTableEntries_done:
  assumes "regions_ok 0 regs" and "room (planned regs) q base"
    and "nextVaddr info = 0" and "nextPageTte info = q" and "nextSectionTte info = base"
  shows "\<exists>info' s'. makeTableEntries regs info s = Some (info', s') \<and>
    pages_done (planned regs) q (2 ^ 20) s' \<and> sections_done (planned regs) q base 4096 s'"
proof -
  let ?F = "planned regs"
  note u = uniform_planned [OF assms(1)]
  have "ready ?F q base 0 info s"
    using assms(3-5) by (simp add: ready_def slot_def pages_done_def sections_done_def)
  then obtain info1 s1 m where w: "entries_walk regs info s = Some (info1, s1)" "ready ?F q base m info1 s1"
    "0 < m" "m \<le> 2 ^ 20" "256 dvd m" "\<forall>i \<ge> m. ?F i = (MEM_RESERVED, False)"
    using entries_walk_done [OF u assms(2,1)] by blast
  obtain k where k: "m = 256 * k" using w(5) ..
  have v: "nextVaddr info1 = of_nat (m * 2 ^ 12)" using w(2) unfolding ready_def by blast
  have full: "pages_done ?F q (2 ^ 20) s' \<and> sections_done ?F q base 4096 s'" if "ready ?F q base (256 * 4096) info' s'" for info' s'
    using that by (simp add: ready_def)
  show ?thesis
  proof (cases "k = 4096")
    case True
    then have "nextVaddr info1 = 0" using v k by simp
    then show ?thesis using w(1,2) full True k unfolding makeTableEntries_def by simp
  next
    case False
    then have k': "k < 4096" "0 < k" using w(3,4) k by simp_all
    have "nextVaddr info1 \<noteq> 0" unfolding v k using k' by (intro of_nat_u32_nonzero) simp_all
    moreover have zero: "(of_nat (256 * 4096 * 2 ^ 12) :: u32) = 0" by simp
    have "\<exists>info' s'. makeReserved 0 info1 s1 = Some (info', s') \<and> ready ?F q base (256 * 4096) info' s'"
      unfolding zero [symmetric] using k' w(2,6) k by (intro makeReserved_done [OF u assms(2), of k]) auto
    ultimately show ?thesis using w(1) full unfolding makeTableEntries_def by auto
  qed
qed


subsection \<open>The finished tables\<close>

lemma first_level_type:
  assumes "1024 dvd slot F q (256 * k)" and "slot F q (256 * k) < 2 ^ 32"
  shows "first_level F q k AND STTE_TYPE_MASK = STTE_TYPE_PAGE_TABLE \<longleftrightarrow> snd (F (256 * k))"
    and "snd (F (256 * k)) \<Longrightarrow> unat (first_level F q k AND STTE_TABLE_MASK) = slot F q (256 * k)"
  using table_ref [OF assms] new_section_not_paged by (simp_all add: first_level_def pageTableRefTte_def)

lemma new_cell:
  assumes "entry base s (unat v div 2 ^ 20) (unat v div 2 ^ 12 mod 2 ^ 8) =
    new_entry flags (in_paged base s v) (unat v div 2 ^ 20) (unat v div 2 ^ 12 mod 2 ^ 8)"
  shows "attributes base s v = flag_props flags (if in_paged base s v then SMALL_PAGE else SECTION)"
    and "physical base s v = v"
  unfolding attributes_def physical_def tte_of_def assms
  by (cases "in_paged base s v"; simp only: if_True if_False new_entry_def makeProps_flags new_entry_address;
      simp only: address_cell(1,2) [of v, symmetric] split_address)+

lemma finished_tables:
  assumes u: "uniform F" and room: "room F q base" and q: "q \<noteq> NIL" "1024 dvd q" "q + 4 * small_below F (2 ^ 20) \<le> 2 ^ 32"
    and pages: "pages_done F q (2 ^ 20) s" and sections: "sections_done F q base 4096 s"
  shows "k < 4096 \<Longrightarrow> paged base s k = snd (F (256 * k))"
    and "k < 4096 \<Longrightarrow> x < 256 \<Longrightarrow> entry base s k x = new_entry (fst (F (256 * k + x))) (paged base s k) k x"
    and "tables_ok base s"
proof -
  have al: "1024 dvd slot F q (256 * k)" for k
    using q(2) small_below_aligned [OF u, of k] by (auto simp: slot_def intro!: dvd_add elim!: dvdE)
  have step: "slot F q (256 * k + x) = slot F q (256 * k) + 4 * x" if "snd (F (256 * k))" "x \<le> 256" for k x
    using small_below_section [OF u that(2), of k] that(1) by (simp add: slot_def)
  have whole: "slot F q (256 * k) + 1024 \<le> slot F q (256 * j)" if "snd (F (256 * k))" "k < j" for k j
    using step [OF that(1), of 256] small_below_mono [of "256 * k + 256" "256 * j" F] that(2) by (simp add: slot_def)
  have top: "slot F q (256 * 4096) = q + 4 * small_below F (2 ^ 20)" by (simp add: slot_def)
  have fits: "q \<le> slot F q (256 * k)" "slot F q (256 * k) + 1024 \<le> q + 4 * small_below F (2 ^ 20)" "slot F q (256 * k) < 2 ^ 32"
    if "snd (F (256 * k))" "k < 4096" for k
    using whole [OF that] q(3) unfolding top by (simp_all add: slot_def)
  have st: "stte base s k = first_level F q k" if "k < 4096" for k
    using sections that by (simp add: sections_done_def)
  have paged: "paged base s k = snd (F (256 * k))" if k: "k < 4096" for k
  proof (cases "snd (F (256 * k))")
    case True
    then show ?thesis using first_level_type(1) [OF al fits(3)] k by (simp add: paged_def st)
  next
    case False
    then show ?thesis using new_section_not_paged k by (simp add: paged_def st first_level_def)
  qed
  then show "k < 4096 \<Longrightarrow> paged base s k = snd (F (256 * k))" .
  have table: "table_at base s k = slot F q (256 * k)" if "k < 4096" "snd (F (256 * k))" for k
    using first_level_type(2) [OF al fits(3)] that by (simp add: table_at_def st)
  show "entry base s k x = new_entry (fst (F (256 * k + x))) (paged base s k) k x" if k: "k < 4096" and x: "x < 256"
  proof -
    have a: "alike (F (256 * k)) (F (256 * k + x))" using u x unfolding uniform_def by blast
    show ?thesis
    proof (cases "snd (F (256 * k))")
      case True
      have "words s (slot F q (256 * k + x)) =
          of_nat ((256 * k + x) * 2 ^ 12) OR pagePropertyBits (flagsToPropParts (fst (F (256 * k + x))))"
        using pages a True k x unfolding pages_done_def alike_def by simp
      then show ?thesis
        using True paged [OF k] table [OF k] step [of k x] x by (simp add: entry_def new_entry_def)
    next
      case False
      then have "F (256 * k) = F (256 * k + x)" using a unfolding alike_def by auto
      then show ?thesis using False paged [OF k] st [OF k] by (simp add: entry_def new_entry_def first_level_def)
    qed
  qed
  show "tables_ok base s"
    unfolding tables_ok_def
  proof (intro allI impI conjI)
    fix k
    assume k: "k < 4096" "paged base s k"
    then have sm: "snd (F (256 * k))" using paged by blast
    note fk = fits [OF sm k(1)]
    show "table_at base s k \<noteq> NIL" using fk(1) q(1) table [OF k(1) sm] by simp
    show "table_at base s k + 1024 \<le> base \<or> base + 16384 \<le> table_at base s k"
      using fk room table [OF k(1) sm] by (auto simp: room_def)
    fix j
    assume j: "j < 4096" "j \<noteq> k \<and> paged base s j"
    then have sj: "snd (F (256 * j))" using paged by blast
    show "table_at base s j \<noteq> table_at base s k"
      using whole [OF sm, of j] whole [OF sj, of k] table [OF k(1) sm] table [OF j(1) sj] j(2)
      by (cases "j < k") auto
  qed
qed

text \<open>
  C5: for a region table in address order whose layouts cover the regions,
  \<open>mem_setupMmuTable\<close> with enough fresh memory from the allocator succeeds and leaves the MMU
  switched on with tables that map every address to itself: an address of a region has the
  attributes of the flags its layout gives to the page, in 4 KB pages or 1 MB sections as the
  region asks for, and every address outside of the regions faults.
\<close>

theorem setup_maps_regions:
  assumes "regions_ok 0 regs" and "alloc (of_nat (4 * small_total regs)) tab = (q, tab')"
    and "q \<noteq> 0" and "1024 dvd unat q" and "unat q + 4 * small_total regs \<le> 2 ^ 32"
    and "unat q + 4 * small_total regs \<le> base \<or> base + 16384 \<le> unat q"
  shows "\<exists>s'. mem_setupMmuTable_core base regs alloc tab s = Some (True, tab', s') \<and> tables_ok base s' \<and>
    ttbr0 s' = of_nat base \<and> sctlr s' AND ENABLE_MMU = ENABLE_MMU \<and>
    (\<forall>v. physical base s' v = v \<and>
         attributes base s' v =
           (let (flags, small) = planned regs (unat v div 2 ^ 12) in flag_props flags (if small then SMALL_PAGE else SECTION)))"
proof -
  let ?F = "planned regs"
  note u = uniform_planned [OF assms(1)]
  have total: "small_below ?F (2 ^ 20) = small_total regs" using small_below_total [OF assms(1), of ?F] by simp
  have room: "room ?F (unat q) base" using assms(6) unfolding room_def total .
  let ?info = "\<lparr>nextSectionTte = base, nextPageTte = unat q, nextVaddr = 0, pageTablesStart = q,
    pageTablesEnd = q + of_nat (4 * small_total regs)\<rparr>"
  obtain info1 s1 where mk: "makeTableEntries regs ?info s = Some (info1, s1)"
    "pages_done ?F (unat q) (2 ^ 20) s1" "sections_done ?F (unat q) base 4096 s1"
    using makeTableEntries_done [OF assms(1) room, of ?info s] by auto
  define s' where "s' = mem_startMmuAndCachesAfterReset base s1"
  have regs': "words s' = words s1" "ttbr0 s' = of_nat base" "sctlr s' AND ENABLE_MMU = ENABLE_MMU"
    by (simp_all add: s'_def mem_startMmuAndCachesAfterReset_def setTtbr0WithFlags_def Let_def control_consts
        bit.conj_disj_distrib2)
  have "pages_done ?F (unat q) (2 ^ 20) s'" "sections_done ?F (unat q) base 4096 s'"
    using mk(2,3) unfolding pages_done_def sections_done_def stte_def regs'(1) by blast+
  moreover have "unat q \<noteq> NIL" using assms(3) by (simp add: unat_eq_zero)
  ultimately have fin: "paged base s' k = snd (?F (256 * k))" "x < 256 \<Longrightarrow> entry base s' k x = new_entry (fst (?F (256 * k + x))) (paged base s' k) k x"
    "tables_ok base s'" if "k < 4096" for k x
    using finished_tables [OF u room _ assms(4) _ \<open>pages_done ?F (unat q) (2 ^ 20) s'\<close> \<open>sections_done ?F (unat q) base 4096 s'\<close>]
      assms(5) that unfolding total by blast+
  have bytes: "small_pages regs * 4 = of_nat (4 * small_total regs)" unfolding small_pages_total by simp
  have "mem_setupMmuTable_core base regs alloc tab s = Some (True, tab', s')"
    unfolding mem_setupMmuTable_core_def allocatePageTables_def Let_def bytes assms(2)
    using assms(3) mk(1) by (simp add: s'_def unat_eq_zero)
  moreover have "physical base s' v = v \<and>
      attributes base s' v =
        (let (flags, small) = ?F (unat v div 2 ^ 12) in flag_props flags (if small then SMALL_PAGE else SECTION))" for v
  proof -
    note kx = address_cell(3,4) [of v] and n = page_section [of "unat v", symmetric]
    have "alike (?F (256 * (unat v div 2 ^ 20))) (?F (256 * (unat v div 2 ^ 20) + unat v div 2 ^ 12 mod 2 ^ 8))"
      using u kx(2) unfolding uniform_def by simp
    then have small: "in_paged base s' v = snd (?F (unat v div 2 ^ 12))"
      unfolding in_paged_def fin(1) [OF kx(1)] n alike_def by blast
    have "entry base s' (unat v div 2 ^ 20) (unat v div 2 ^ 12 mod 2 ^ 8) =
        new_entry (fst (?F (unat v div 2 ^ 12))) (in_paged base s' v) (unat v div 2 ^ 20) (unat v div 2 ^ 12 mod 2 ^ 8)"
      using fin(2) [OF kx(1), of "unat v div 2 ^ 12 mod 2 ^ 8"] kx(2) unfolding in_paged_def n by (simp only:)
    from new_cell [OF this] show ?thesis unfolding small by (simp add: case_prod_unfold)
  qed
  moreover have "tables_ok base s'" using fin(3) [of 0] by simp
  ultimately show ?thesis using regs'(2,3) by blast
qed


text \<open>The region table of the repository meets the conditions; its small pages need 305152 bytes.\<close>

lemmas plan_defs = first_page_def end_page_def unit_pages_def is_small_def

lemma region_table_ok: "regions_ok 0 mem_RegionTable"
  by (simp add: region_table_defs plan_defs)

lemma region_table_pages: "small_total mem_RegionTable = 76288"
  by (simp add: small_total_def region_table_defs plan_defs)

lemma region_table_alloc: "fst (mem_Region_alloc MEM_REGION_MMU 305152 mem_RegionTable) = 0x108000"
  by (simp add: mem_Region_alloc_def Let_def region_table_defs)

lemma setup_maps_regions_witness:
  "\<exists>tab s. mem_setupMmuTable mem_RegionTable small_table = Some (True, tab, s) \<and>
     physical 0x104000 s 0xb0000010 = 0xb0000010 \<and> attributes 0x104000 s 0xb0000010 = flag_props MEM_REGISTERS SECTION"
proof -
  obtain tab where a: "mem_Region_alloc MEM_REGION_MMU (of_nat (4 * small_total mem_RegionTable)) mem_RegionTable = (0x108000, tab)"
    using region_table_alloc by (cases "mem_Region_alloc MEM_REGION_MMU 305152 mem_RegionTable") (simp add: region_table_pages)
  have base: "unat MMU_START = 0x104000" by (simp add: region_table_defs)
  obtain s where s: "mem_setupMmuTable mem_RegionTable small_table = Some (True, tab, s)"
    and v: "\<forall>v. physical 0x104000 s v = v \<and> attributes 0x104000 s v =
      (let (flags, small) = planned mem_RegionTable (unat v div 2 ^ 12) in flag_props flags (if small then SMALL_PAGE else SECTION))"
    using setup_maps_regions [where alloc = "mem_Region_alloc MEM_REGION_MMU", OF region_table_ok a, of "0x104000" small_table]
    unfolding mem_setupMmuTable_def base by (auto simp: region_table_pages)
  have "planned mem_RegionTable (unat (0xb0000010 :: u32) div 2 ^ 12) = (MEM_REGISTERS, False)"
    by (simp add: region_table_defs plan_defs)
  then show ?thesis using s spec [OF v, of "0xb0000010"] by auto
qed


subsection \<open>What the printed lines show\<close>

text \<open>The properties the lines give to an address: those of the last line at or below it.\<close>

fun shown :: "mmu_line list \<Rightarrow> u32 \<Rightarrow> Props option \<Rightarrow> Props option" where
  "shown [] v d = d"
| "shown (EntryLine addrIn addrOut dm p # lines) v d = shown lines v (if addrIn \<le> v then Some p else d)"
| "shown (NotIdentity addrIn addrOut # lines) v d = shown lines v d"

lemma shown_append: "shown (xs @ ys) v d = shown ys v (shown xs v d)"
  by (induction xs v d rule: shown.induct) auto

text \<open>Lines printed for the addresses from \<open>lo\<close> up to \<open>hi\<close>, with the properties before and after.\<close>

definition block_shown :: "(u32 \<Rightarrow> Props) \<Rightarrow> nat \<Rightarrow> nat \<Rightarrow> Props option \<Rightarrow> mmu_line list \<Rightarrow> Props option \<Rightarrow> bool" where
  "block_shown attr lo hi prev out prev' \<longleftrightarrow>
     (\<forall>l \<in> set out. \<exists>a d p. l = EntryLine a a d p) \<and>
     (\<forall>v d. unat v < lo \<longrightarrow> shown out v d = d) \<and>
     (\<forall>v. lo \<le> unat v \<and> unat v < hi \<longrightarrow> shown out v prev = Some (attr v)) \<and>
     (\<forall>v. hi \<le> unat v \<longrightarrow> shown out v prev = prev')"

lemma block_shown_nil: "block_shown attr lo lo prev [] prev"
  by (auto simp: block_shown_def)

lemma block_shown_append:
  assumes "block_shown attr lo mid p out q" and "block_shown attr mid hi q out' r" and "lo \<le> mid" and "mid \<le> hi"
  shows "block_shown attr lo hi p (out @ out') r"
proof -
  note a = assms(1) [unfolded block_shown_def] and b = assms(2) [unfolded block_shown_def]
  have "shown (out @ out') v p = Some (attr v)" if "lo \<le> unat v" "unat v < hi" for v
  proof (cases "unat v < mid")
    case True
    then have "shown out v p = Some (attr v)" using a that(1) by blast
    then show ?thesis unfolding shown_append using b True by simp
  next
    case False
    then have "shown out v p = q" "shown out' v q = Some (attr v)" using a b that(2) by simp_all
    then show ?thesis by (simp add: shown_append)
  qed
  moreover have "shown (out @ out') v p = r" if "hi \<le> unat v" for v
    using a b that assms(4) by (simp add: shown_append)
  moreover have "shown (out @ out') v d = d" if "unat v < lo" for v d
    using a b that assms(3) by (simp add: shown_append)
  moreover have "\<forall>l \<in> set (out @ out'). \<exists>a d p. l = EntryLine a a d p" using a b by auto
  ultimately show ?thesis unfolding block_shown_def by blast
qed

lemma block_shown_one:
  assumes "unat a = lo" and "lo < hi" and "\<forall>v. lo \<le> unat v \<and> unat v < hi \<longrightarrow> attr v = c"
  shows "block_shown attr lo hi prev (if Some c \<noteq> prev then [EntryLine a a d c] else []) (Some c)"
proof -
  have "a \<le> v \<longleftrightarrow> lo \<le> unat v" for v using assms(1) by (simp add: word_le_nat_alt)
  then show ?thesis using assms(2,3) by (auto simp: block_shown_def)
qed

text \<open>The loop, given that each of its rounds prints its own block of \<open>n\<close> addresses.\<close>

lemma print_loop_block:
  "\<forall>i. i0 \<le> i \<and> i < i0 + m \<longrightarrow> (\<forall>p. \<exists>out p'. f i p = (out, p', True) \<and> block_shown attr (b + i * n) (b + Suc i * n) p out p') \<Longrightarrow>
   \<exists>out p'. print_loop f [i0 ..< i0 + m] p = (out, p', True) \<and> block_shown attr (b + i0 * n) (b + (i0 + m) * n) p out p'"
proof (induction m arbitrary: i0 p)
  case 0
  then show ?case by (simp add: block_shown_nil)
next
  case (Suc m)
  have "\<exists>out p'. f i0 p = (out, p', True) \<and> block_shown attr (b + i0 * n) (b + Suc i0 * n) p out p'"
    using Suc.prems by simp
  then obtain out p1 where a: "f i0 p = (out, p1, True)" "block_shown attr (b + i0 * n) (b + Suc i0 * n) p out p1" by blast
  have "\<exists>out p'. print_loop f [Suc i0 ..< Suc i0 + m] p1 = (out, p', True) \<and>
      block_shown attr (b + Suc i0 * n) (b + (Suc i0 + m) * n) p1 out p'"
    using Suc.prems by (intro Suc.IH) simp
  then obtain out' p' where r: "print_loop f [Suc i0 ..< Suc i0 + m] p1 = (out', p', True)"
    "block_shown attr (b + Suc i0 * n) (b + (Suc i0 + m) * n) p1 out' p'" by blast
  have "[i0 ..< i0 + Suc m] = i0 # [Suc i0 ..< Suc i0 + m]" by (simp add: upt_conv_Cons)
  moreover have "block_shown attr (b + i0 * n) (b + (i0 + Suc m) * n) p (out @ out') p'"
    using block_shown_append [OF a(2) r(2)] by simp
  ultimately show ?case using a(1) r(1) by simp
qed

lemma cell_of:
  assumes "unat v div 2 ^ 12 = 256 * k + x" and "x < 256"
  shows "unat v div 2 ^ 20 = k" and "unat v div 2 ^ 12 mod 2 ^ 8 = x"
  using assms div_mult2_eq [of "unat v" "2 ^ 12" 256] by simp_all

lemma identity_entries:
  assumes "\<forall>v. physical base s v = v" and "k < 4096" and "x < 256"
  shows "paged base s k \<Longrightarrow> entry base s k x AND 0xfffff000 = of_nat ((256 * k + x) * 2 ^ 12)"
    and "\<not> paged base s k \<Longrightarrow> stte base s k AND 0xfff00000 = of_nat (k * 2 ^ 20)"
proof -
  have masks: "0xfffff000 = NOT (mask 12 :: u32)" "0xfff00000 = NOT (mask 20 :: u32)" by (simp_all add: mask_eq_exp_minus_1)
  define v where "v = (of_nat ((256 * k + x) * 2 ^ 12) :: u32)"
  have "unat v = (256 * k + x) * 2 ^ 12" unfolding v_def by (rule unat_of_nat_u32) (use assms(2,3) in simp)
  then have "unat v div 2 ^ 12 = 256 * k + x" by simp
  note c = cell_of [OF this assms(3)]
  have p: "physical base s v = v" using assms(1) by blast
  have out: "((w AND NOT (mask n)) OR (v AND mask n)) AND NOT (mask n) = w AND NOT (mask n)" for w :: u32 and n
    by (rule bit_word_eqI) (auto simp: bit_and_iff bit_or_iff bit_not_iff bit_mask_iff)
  show "entry base s k x AND 0xfffff000 = of_nat ((256 * k + x) * 2 ^ 12)" if "paged base s k"
  proof -
    have "(entry base s k x AND NOT (mask 12)) OR (v AND mask 12) = v"
      using p that unfolding physical_def in_paged_def tte_of_def c by (simp only: if_True)
    then have "entry base s k x AND NOT (mask 12) = v AND NOT (mask 12)" using out [of "entry base s k x" 12] by (simp only:)
    then show ?thesis unfolding masks address_cell(1) c .
  qed
  show "stte base s k AND 0xfff00000 = of_nat (k * 2 ^ 20)" if "\<not> paged base s k"
  proof -
    have "(stte base s k AND NOT (mask 20)) OR (v AND mask 20) = v"
      using p that unfolding physical_def in_paged_def tte_of_def c by (simp only: if_False entry_def)
    then have "stte base s k AND NOT (mask 20) = v AND NOT (mask 20)" using out [of "stte base s k" 20] by (simp only:)
    then show ?thesis unfolding masks address_cell(2) c .
  qed
qed

lemma page_block:
  assumes "\<forall>v. physical base s v = v" and "k < 4096" and "x < 256" and "paged base s k"
  shows "\<exists>out p'. printPageTable_step (of_nat (k * 2 ^ 20)) (stte base s k) s x p = (out, p', True) \<and>
    block_shown (attributes base s) (k * 2 ^ 20 + x * 2 ^ 12) (k * 2 ^ 20 + Suc x * 2 ^ 12) p out p'"
proof -
  define a where "a = (of_nat ((256 * k + x) * 2 ^ 12) :: u32)"
  have ua: "unat a = k * 2 ^ 20 + x * 2 ^ 12"
  proof -
    have "unat a = (256 * k + x) * 2 ^ 12" unfolding a_def by (rule unat_of_nat_u32) (use assms(2,3) in simp)
    then show ?thesis by simp
  qed
  have "(0xfffffc00 :: u32) = STTE_TABLE_MASK" by (simp add: tte_consts)
  then have w: "words s (unat (stte base s k AND 0xfffffc00) + 4 * x) = entry base s k x"
    using assms(4) by (simp add: entry_def table_at_def)
  have addr: "of_nat (k * 2 ^ 20) + push_bit 12 (of_nat x) = a"
    unfolding a_def by (simp add: push_bit_eq_mult algebra_simps)
  have out: "entry base s k x AND 0xfffff000 = a" unfolding a_def by (rule identity_entries(1) [OF assms])
  have "attributes base s v = makeProps (entry base s k x) 2"
    if v: "k * 2 ^ 20 + x * 2 ^ 12 \<le> unat v" "unat v < k * 2 ^ 20 + Suc x * 2 ^ 12" for v
  proof -
    have "unat v div 2 ^ 12 = 256 * k + x"
      by (rule div_nat_eqI) (use v in simp_all)
    note c = cell_of [OF this assms(3)]
    show ?thesis unfolding attributes_def tte_of_def in_paged_def c using assms(4) by simp
  qed
  then show ?thesis
    unfolding printPageTable_step_def Let_def w addr out
    using block_shown_one [OF ua, of "k * 2 ^ 20 + Suc x * 2 ^ 12" "attributes base s" "makeProps (entry base s k x) 2" p]
    by (auto split: if_splits)
qed


lemma section_block:
  assumes "\<forall>v. physical base s v = v" and "k < 4096"
  shows "\<exists>out p'. printMmu_step base s k p = (out, p', True) \<and>
    block_shown (attributes base s) (0 + k * 2 ^ 20) (0 + Suc k * 2 ^ 20) p out p'"
proof -
  define a where "a = (of_nat (k * 2 ^ 20) :: u32)"
  have ua: "unat a = 0 + k * 2 ^ 20" unfolding a_def add_0 by (rule unat_of_nat_u32) (use assms(2) in simp)
  have w: "words s (base + 4 * k) = stte base s k" by (simp add: stte_def)
  have addr: "push_bit 20 (of_nat k) = a" unfolding a_def by (simp add: push_bit_eq_mult)
  have pg: "stte base s k AND 3 = 1 \<longleftrightarrow> paged base s k" by (simp add: paged_def tte_consts)
  show ?thesis
  proof (cases "paged base s k")
    case True
    have "\<exists>out p'. print_loop (printPageTable_step a (stte base s k) s) [0 ..< 0 + 256] p = (out, p', True) \<and>
        block_shown (attributes base s) (k * 2 ^ 20 + 0 * 2 ^ 12) (k * 2 ^ 20 + (0 + 256) * 2 ^ 12) p out p'"
      unfolding a_def using page_block [OF assms _ True] by (intro print_loop_block) simp
    then show ?thesis
      using True unfolding printMmu_step_def printPageTable_def Let_def w addr pg
      by (auto simp: algebra_simps)
  next
    case False
    have out: "stte base s k AND 0xfff00000 = a"
      unfolding a_def by (rule identity_entries(2) [OF assms _ False, of 0]) simp
    have "attributes base s v = makeProps (stte base s k) 1"
      if v: "0 + k * 2 ^ 20 \<le> unat v" "unat v < 0 + Suc k * 2 ^ 20" for v
    proof -
      have "unat v div 2 ^ 20 = k" by (rule div_nat_eqI) (use v in simp_all)
      then show ?thesis unfolding attributes_def tte_of_def in_paged_def using False by (simp add: entry_def)
    qed
    then show ?thesis
      using False block_shown_one [OF ua, of "0 + Suc k * 2 ^ 20" "attributes base s" "makeProps (stte base s k) 1" p]
      unfolding printMmu_step_def Let_def w addr pg out by (auto split: if_splits)
  qed
qed

text \<open>
  C9: for tables that map every address to itself, \<open>mem_printMmuTable\<close> complains about no entry,
  and its lines determine the attributes of every address: they are those of the last line
  whose address is not above it.
\<close>

theorem print_shows_attributes:
  assumes "\<forall>v. physical base s v = v"
  shows "(\<forall>l \<in> set (mem_printMmuTable base s). \<exists>a d p. l = EntryLine a a d p) \<and>
    (\<forall>v. shown (mem_printMmuTable base s) v None = Some (attributes base s v))"
proof -
  have "\<exists>out p'. print_loop (printMmu_step base s) [0 ..< 0 + 4096] None = (out, p', True) \<and>
      block_shown (attributes base s) (0 + 0 * 2 ^ 20) (0 + (0 + 4096) * 2 ^ 20) None out p'"
    using section_block [OF assms] by (intro print_loop_block) simp
  then obtain p' where "block_shown (attributes base s) (0 + 0 * 2 ^ 20) (0 + (0 + 4096) * 2 ^ 20) None (mem_printMmuTable base s) p'"
    unfolding mem_printMmuTable_def by auto
  note b = this [unfolded block_shown_def]
  have "shown (mem_printMmuTable base s) v None = Some (attributes base s v)" for v
  proof -
    have "unat v < 0 + (0 + 4096) * 2 ^ 20" using unsigned_less [of v, where 'a = nat] by simp
    then show ?thesis using b by simp
  qed
  then show ?thesis using b by blast
qed

text \<open>A first-level table at address 0 of faulting identity entries.\<close>

definition fault_table :: mmu where
  "fault_table = \<lparr>words = (\<lambda>a. of_nat (a div 4 * 2 ^ 20)), dacr = 0, ttbr0 = 0, sctlr = 0\<rparr>"

lemma print_shows_attributes_witness:
  "shown (mem_printMmuTable 0 fault_table) 0x1234 None = Some (attributes 0 fault_table 0x1234)"
proof -
  have st: "stte 0 fault_table k = of_nat (k * 2 ^ 20)" for k by (simp add: stte_def fault_table_def)
  have mask: "STTE_TYPE_MASK = mask 2" by (simp add: tte_consts mask_eq_exp_minus_1)
  have "stte 0 fault_table k AND STTE_TYPE_MASK = 0" for k
    unfolding mask by (rule bit_word_eqI) (use low_bit_0 [OF low_bits_0 [of 20 k]] in \<open>auto simp: st bit_and_iff bit_mask_iff simp del: of_nat_mult\<close>)
  then have "\<not> paged 0 fault_table k" for k by (simp add: paged_def tte_consts)
  then have "physical 0 fault_table v = v" for v
    unfolding physical_def in_paged_def tte_of_def entry_def st address_cell(2) [symmetric]
    by (simp only: if_False and.assoc and.idem split_address)
  then show ?thesis using print_shows_attributes by blast
qed

end
