(* ===== verification/Elf.thy ===== *)
theory Elf
  imports Bytes
begin

text \<open>
  ELF objects in memory (\<^verbatim>\<open>tool/elf/include/baseTypes.h\<close>, \<^verbatim>\<open>Object.h\<close>, \<^verbatim>\<open>GnuHasher.h\<close>,
  \<^verbatim>\<open>SysvHasher.h\<close>, structure layouts and constants of \<^verbatim>\<open>elf32.h\<close>). Memory maps 32-bit addresses to bytes;
  pointers are addresses and their arithmetic wraps. A loop that does not end and a division
  by zero are \<open>None\<close>. The theorem: a look-up in a well-formed GNU hash table finds exactly the
  defined symbols of the table.
\<close>

subsection \<open>Memory\<close>

type_synonym ram = "u32 \<Rightarrow> u8"

definition ld8 :: "ram \<Rightarrow> u32 \<Rightarrow> u32" where "ld8 m a = ucast (m a)"
definition ld16 :: "ram \<Rightarrow> u32 \<Rightarrow> u32" where "ld16 m a = ucast (le_half (m a) (m (a + 1)))"
definition ld32 :: "ram \<Rightarrow> u32 \<Rightarrow> u32" where "ld32 m a = le_word (m a) (m (a + 1)) (m (a + 2)) (m (a + 3))"

definition st32 :: "u32 \<Rightarrow> u32 \<Rightarrow> ram \<Rightarrow> ram" where
  "st32 a w m = m(a := ucast w, a + 1 := ucast (drop_bit 8 w), a + 2 := ucast (drop_bit 16 w), a + 3 := ucast (drop_bit 24 w))"

subsection \<open>Headers\<close>

definition ELF :: u32 where "ELF = push_bit 16 9"
definition ELF_OK :: u32 where "ELF_OK = 0"
definition ELF_BAD_MAGIC :: u32 where "ELF_BAD_MAGIC = 0x0001 OR ELF"
definition ELF_NOT_32BIT :: u32 where "ELF_NOT_32BIT = 0x0002 OR ELF"
definition ELF_BAD_VERSION :: u32 where "ELF_BAD_VERSION = 0x0004 OR ELF"
definition ELF_BAD_OBJECT_TYPE :: u32 where "ELF_BAD_OBJECT_TYPE = 0x0008 OR ELF"
definition ELF_BAD_HEADER_SIZE :: u32 where "ELF_BAD_HEADER_SIZE = 0x0010 OR ELF"
definition ELF_NO_PROGRAM_HEADERS :: u32 where "ELF_NO_PROGRAM_HEADERS = 0x0020 OR ELF"
definition ELF_NO_DYNAMIC_SECTION :: u32 where "ELF_NO_DYNAMIC_SECTION = 0x0040 OR ELF"
definition ELF_NO_DYNAMIC_SYMBOLS :: u32 where "ELF_NO_DYNAMIC_SYMBOLS = 0x0080 OR ELF"
definition ELF_NO_DYNAMIC_STRINGS :: u32 where "ELF_NO_DYNAMIC_STRINGS = 0x0100 OR ELF"
definition ELF_NO_HASH_TABLE :: u32 where "ELF_NO_HASH_TABLE = 0x0200 OR ELF"
definition ELF_NO_LOADABLE_SEGMENTS :: u32 where "ELF_NO_LOADABLE_SEGMENTS = 0x0400 OR ELF"

lemmas elf_status =
  ELF_def ELF_OK_def ELF_BAD_MAGIC_def ELF_NOT_32BIT_def ELF_BAD_VERSION_def ELF_BAD_OBJECT_TYPE_def
  ELF_BAD_HEADER_SIZE_def ELF_NO_PROGRAM_HEADERS_def ELF_NO_DYNAMIC_SECTION_def ELF_NO_DYNAMIC_SYMBOLS_def
  ELF_NO_DYNAMIC_STRINGS_def ELF_NO_HASH_TABLE_def ELF_NO_LOADABLE_SEGMENTS_def

definition elf_Header_type :: "ram \<Rightarrow> u32 \<Rightarrow> u32" where "elf_Header_type m hdr = ld16 m (hdr + 16)"
definition elf_Header_entry :: "ram \<Rightarrow> u32 \<Rightarrow> u32" where "elf_Header_entry m hdr = ld32 m (hdr + 24)"
definition elf_Header_offPhdr :: "ram \<Rightarrow> u32 \<Rightarrow> u32" where "elf_Header_offPhdr m hdr = ld32 m (hdr + 28)"
definition elf_Header_size :: "ram \<Rightarrow> u32 \<Rightarrow> u32" where "elf_Header_size m hdr = ld16 m (hdr + 40)"
definition elf_Header_numPhdr :: "ram \<Rightarrow> u32 \<Rightarrow> u32" where "elf_Header_numPhdr m hdr = ld16 m (hdr + 44)"

definition elf_Header_addrPhdr :: "ram \<Rightarrow> u32 \<Rightarrow> u32" where
  "elf_Header_addrPhdr m hdr = hdr + elf_Header_offPhdr m hdr"

definition flag_if :: "bool \<Rightarrow> u32 \<Rightarrow> u32" where
  "flag_if b f = (if b then f else 0)"

definition elf_Header_check :: "ram \<Rightarrow> u32 \<Rightarrow> u32" where
  "elf_Header_check m hdr =
     flag_if (ld8 m hdr \<noteq> 0x7f \<or> ld8 m (hdr + 1) \<noteq> 0x45 \<or> ld8 m (hdr + 2) \<noteq> 0x4c \<or> ld8 m (hdr + 3) \<noteq> 0x46) ELF_BAD_MAGIC OR
     flag_if (ld8 m (hdr + 4) \<noteq> 1) ELF_NOT_32BIT OR
     flag_if (ld8 m (hdr + 6) \<noteq> 1) ELF_BAD_VERSION OR
     flag_if (elf_Header_type m hdr \<noteq> 2 \<and> elf_Header_type m hdr \<noteq> 3) ELF_BAD_OBJECT_TYPE OR
     flag_if (elf_Header_size m hdr \<noteq> 52) ELF_BAD_HEADER_SIZE OR
     flag_if (elf_Header_numPhdr m hdr \<le> 0) ELF_NO_PROGRAM_HEADERS OR
     flag_if (elf_Header_offPhdr m hdr < elf_Header_size m hdr) ELF_NO_PROGRAM_HEADERS"

definition elf_Pheader_type :: "ram \<Rightarrow> u32 \<Rightarrow> u32" where "elf_Pheader_type m phdr = ld32 m phdr"
definition elf_Pheader_virtAddr :: "ram \<Rightarrow> u32 \<Rightarrow> u32" where "elf_Pheader_virtAddr m phdr = ld32 m (phdr + 8)"
definition elf_Pheader_memSize :: "ram \<Rightarrow> u32 \<Rightarrow> u32" where "elf_Pheader_memSize m phdr = ld32 m (phdr + 20)"
definition elf_Pheader_flags :: "ram \<Rightarrow> u32 \<Rightarrow> u32" where "elf_Pheader_flags m phdr = ld32 m (phdr + 24)"
definition elf_Pheader_isLoadable :: "ram \<Rightarrow> u32 \<Rightarrow> bool" where "elf_Pheader_isLoadable m phdr \<longleftrightarrow> elf_Pheader_type m phdr = 1"
definition elf_Pheader_isDynamic :: "ram \<Rightarrow> u32 \<Rightarrow> bool" where "elf_Pheader_isDynamic m phdr \<longleftrightarrow> elf_Pheader_type m phdr = 2"
definition elf_Pheader_isExidx :: "ram \<Rightarrow> u32 \<Rightarrow> bool" where "elf_Pheader_isExidx m phdr \<longleftrightarrow> elf_Pheader_type m phdr = 0x70000001"
definition elf_Pheader_isExecutable :: "ram \<Rightarrow> u32 \<Rightarrow> bool" where "elf_Pheader_isExecutable m phdr \<longleftrightarrow> 0 \<noteq> 1 AND elf_Pheader_flags m phdr"
definition elf_Pheader_segAddr :: "ram \<Rightarrow> u32 \<Rightarrow> u32 \<Rightarrow> u32" where
  "elf_Pheader_segAddr m phdr baseAddr = baseAddr + elf_Pheader_virtAddr m phdr"

subsection \<open>The dynamic section\<close>

definition DT_NULL :: u32 where "DT_NULL = 0"
definition DT_NEEDED :: u32 where "DT_NEEDED = 1"
definition DT_PLTRELSZ :: u32 where "DT_PLTRELSZ = 2"
definition DT_HASH :: u32 where "DT_HASH = 4"
definition DT_STRTAB :: u32 where "DT_STRTAB = 5"
definition DT_SYMTAB :: u32 where "DT_SYMTAB = 6"
definition DT_REL :: u32 where "DT_REL = 17"
definition DT_RELSZ :: u32 where "DT_RELSZ = 18"
definition DT_JMPREL :: u32 where "DT_JMPREL = 23"
definition DT_INIT_ARRAY :: u32 where "DT_INIT_ARRAY = 25"
definition DT_INIT_ARRAYSZ :: u32 where "DT_INIT_ARRAYSZ = 27"
definition DT_GNU_HASH :: u32 where "DT_GNU_HASH = 0x6ffffef5"

lemmas dyn_tags =
  DT_NULL_def DT_NEEDED_def DT_PLTRELSZ_def DT_HASH_def DT_STRTAB_def DT_SYMTAB_def DT_REL_def DT_RELSZ_def
  DT_JMPREL_def DT_INIT_ARRAY_def DT_INIT_ARRAYSZ_def DT_GNU_HASH_def

definition elf_Dynamic_tag :: "ram \<Rightarrow> u32 \<Rightarrow> u32" where "elf_Dynamic_tag m dyn = ld32 m dyn"
definition elf_Dynamic_isSentinel :: "ram \<Rightarrow> u32 \<Rightarrow> bool" where "elf_Dynamic_isSentinel m dyn \<longleftrightarrow> elf_Dynamic_tag m dyn = DT_NULL"
definition elf_Dynamic_value :: "ram \<Rightarrow> u32 \<Rightarrow> u32" where "elf_Dynamic_value m dyn = ld32 m (dyn + 4)"
definition elf_Dynamic_ptr :: "ram \<Rightarrow> u32 \<Rightarrow> u32 \<Rightarrow> u32" where "elf_Dynamic_ptr m dyn base = ld32 m (dyn + 4) + base"

text \<open>The look-ups of an address or a count in an entry of one tag; 0 for the other tags.\<close>

definition dyn_addr :: "u32 \<Rightarrow> ram \<Rightarrow> u32 \<Rightarrow> u32 \<Rightarrow> u32" where
  "dyn_addr tag m dyn base = (if elf_Dynamic_tag m dyn = tag then elf_Dynamic_ptr m dyn base else 0)"

definition dyn_count :: "u32 \<Rightarrow> u32 \<Rightarrow> ram \<Rightarrow> u32 \<Rightarrow> u32" where
  "dyn_count tag bytes m dyn = (if elf_Dynamic_tag m dyn = tag then elf_Dynamic_value m dyn div bytes else 0)"

definition elf_Dynamic_symtabAddr :: "ram \<Rightarrow> u32 \<Rightarrow> u32 \<Rightarrow> u32" where "elf_Dynamic_symtabAddr = dyn_addr DT_SYMTAB"
definition elf_Dynamic_stringtabAddr :: "ram \<Rightarrow> u32 \<Rightarrow> u32 \<Rightarrow> u32" where "elf_Dynamic_stringtabAddr = dyn_addr DT_STRTAB"
definition elf_Dynamic_sysvHashtabAddr :: "ram \<Rightarrow> u32 \<Rightarrow> u32 \<Rightarrow> u32" where "elf_Dynamic_sysvHashtabAddr = dyn_addr DT_HASH"
definition elf_Dynamic_gnuHashtabAddr :: "ram \<Rightarrow> u32 \<Rightarrow> u32 \<Rightarrow> u32" where "elf_Dynamic_gnuHashtabAddr = dyn_addr DT_GNU_HASH"
definition elf_Dynamic_reltabAddr :: "ram \<Rightarrow> u32 \<Rightarrow> u32 \<Rightarrow> u32" where "elf_Dynamic_reltabAddr = dyn_addr DT_REL"
definition elf_Dynamic_pltReltabAddr :: "ram \<Rightarrow> u32 \<Rightarrow> u32 \<Rightarrow> u32" where "elf_Dynamic_pltReltabAddr = dyn_addr DT_JMPREL"
definition elf_Dynamic_inittabAddr :: "ram \<Rightarrow> u32 \<Rightarrow> u32 \<Rightarrow> u32" where "elf_Dynamic_inittabAddr = dyn_addr DT_INIT_ARRAY"
definition elf_Dynamic_needed :: "ram \<Rightarrow> u32 \<Rightarrow> u32 \<Rightarrow> u32" where "elf_Dynamic_needed = dyn_addr DT_NEEDED"
definition elf_Dynamic_numRels :: "ram \<Rightarrow> u32 \<Rightarrow> u32" where "elf_Dynamic_numRels = dyn_count DT_RELSZ 8"
definition elf_Dynamic_numPltRels :: "ram \<Rightarrow> u32 \<Rightarrow> u32" where "elf_Dynamic_numPltRels = dyn_count DT_PLTRELSZ 8"
definition elf_Dynamic_numInits :: "ram \<Rightarrow> u32 \<Rightarrow> u32" where "elf_Dynamic_numInits = dyn_count DT_INIT_ARRAYSZ 4"

subsection \<open>Symbols and relocations\<close>

definition STT_FUNC :: u32 where "STT_FUNC = 2"
definition STB_WEAK :: u32 where "STB_WEAK = 2"
definition SHN_UNDEF :: u32 where "SHN_UNDEF = 0"
definition SHN_ABS :: u32 where "SHN_ABS = 0xfff1"

definition symbol_at :: "u32 \<Rightarrow> u32 \<Rightarrow> u32" where "symbol_at symtab i = symtab + 16 * i"

definition elf_Symbol_nameIndex :: "ram \<Rightarrow> u32 \<Rightarrow> u32" where "elf_Symbol_nameIndex m sy = ld32 m sy"
definition elf_Symbol_value :: "ram \<Rightarrow> u32 \<Rightarrow> u32" where "elf_Symbol_value m sy = ld32 m (sy + 4)"
definition elf_Symbol_type :: "ram \<Rightarrow> u32 \<Rightarrow> u32" where "elf_Symbol_type m sy = ld8 m (sy + 12) AND 0xf"
definition elf_Symbol_binding :: "ram \<Rightarrow> u32 \<Rightarrow> u32" where "elf_Symbol_binding m sy = drop_bit 4 (ld8 m (sy + 12))"
definition elf_Symbol_section :: "ram \<Rightarrow> u32 \<Rightarrow> u32" where "elf_Symbol_section m sy = ld16 m (sy + 14)"
definition elf_Symbol_isAbsolute :: "ram \<Rightarrow> u32 \<Rightarrow> bool" where "elf_Symbol_isAbsolute m sy \<longleftrightarrow> elf_Symbol_section m sy = SHN_ABS"
definition elf_Symbol_isDefinition :: "ram \<Rightarrow> u32 \<Rightarrow> bool" where "elf_Symbol_isDefinition m sy \<longleftrightarrow> elf_Symbol_section m sy \<noteq> SHN_UNDEF"
definition elf_Symbol_isWeak :: "ram \<Rightarrow> u32 \<Rightarrow> bool" where "elf_Symbol_isWeak m sy \<longleftrightarrow> elf_Symbol_binding m sy = STB_WEAK"
definition elf_Symbol_name :: "ram \<Rightarrow> u32 \<Rightarrow> u32 \<Rightarrow> u32" where "elf_Symbol_name m sy stringtabAddr = stringtabAddr + elf_Symbol_nameIndex m sy"

partial_function (option) elf_stringeq :: "ram \<Rightarrow> u32 \<Rightarrow> u32 \<Rightarrow> bool option" where
  "elf_stringeq m c d = (if m c = m d \<and> m c \<noteq> 0 then elf_stringeq m (c + 1) (d + 1) else Some (m c = m d))"

definition elf_Symbol_nameMatches :: "ram \<Rightarrow> u32 \<Rightarrow> u32 \<Rightarrow> u32 \<Rightarrow> bool option" where
  "elf_Symbol_nameMatches m sy target stringtabAddr = elf_stringeq m (elf_Symbol_name m sy stringtabAddr) target"

definition elf_Rel_target :: "ram \<Rightarrow> u32 \<Rightarrow> u32 \<Rightarrow> u32" where "elf_Rel_target m rel base = ld32 m rel + base"
definition elf_Rel_symbolIndex :: "ram \<Rightarrow> u32 \<Rightarrow> u32" where "elf_Rel_symbolIndex m rel = drop_bit 8 (ld32 m (rel + 4))"
definition elf_Rel_type :: "ram \<Rightarrow> u32 \<Rightarrow> u32" where "elf_Rel_type m rel = ld32 m (rel + 4) AND 0xff"

subsection \<open>Hash tables\<close>

record elf_GnuHasher =
  nbuckets :: u32
  symndx :: u32
  maskwords :: u32
  shift2 :: u32
  bloom :: u32
  buckets :: u32
  hashes :: u32
  g_stringtab :: u32
  g_symtab :: u32

definition elf_GnuHasher_init :: "ram \<Rightarrow> u32 \<Rightarrow> u32 \<Rightarrow> u32 \<Rightarrow> elf_GnuHasher" where
  "elf_GnuHasher_init m hashtabAddr symtabAddr stringtabAddr =
     (let nb = ld32 m hashtabAddr; mw = ld32 m (hashtabAddr + 8); bl = hashtabAddr + 16; bu = bl + 4 * mw
      in \<lparr>nbuckets = nb, symndx = ld32 m (hashtabAddr + 4), maskwords = mw, shift2 = ld32 m (hashtabAddr + 12),
          bloom = bl, buckets = bu, hashes = bu + 4 * nb, g_stringtab = stringtabAddr, g_symtab = symtabAddr\<rparr>)"

partial_function (option) gnu_hash_loop :: "ram \<Rightarrow> u32 \<Rightarrow> u32 \<Rightarrow> u32 option" where
  "gnu_hash_loop m name h = (if m name \<noteq> 0 then gnu_hash_loop m (name + 1) (h * 33 + ucast (m name)) else Some h)"

definition elf_GnuHasher_hash :: "ram \<Rightarrow> u32 \<Rightarrow> u32 option" where
  "elf_GnuHasher_hash m name = gnu_hash_loop m name 5381"

partial_function (option) gnu_chain :: "ram \<Rightarrow> u32 \<Rightarrow> u32 \<Rightarrow> u32 \<Rightarrow> u32 \<Rightarrow> u32 \<Rightarrow> u32 option" where
  "gnu_chain m stringtab h name symbol hash =
     (if h = ld32 m hash AND NOT 1
      then do {
        eq \<leftarrow> elf_Symbol_nameMatches m symbol name stringtab;
        if eq \<and> elf_Symbol_isDefinition m symbol then Some symbol
        else if ld32 m hash AND 1 \<noteq> 0 then Some 0
        else gnu_chain m stringtab h name (symbol + 16) (hash + 4) }
      else if ld32 m hash AND 1 \<noteq> 0 then Some 0
      else gnu_chain m stringtab h name (symbol + 16) (hash + 4))"

definition gnu_bloom_bits :: "elf_GnuHasher \<Rightarrow> u32 \<Rightarrow> u32" where
  "gnu_bloom_bits hsh h1 = push_bit (unat (h1 AND 0x1f)) 1 OR push_bit (unat (drop_bit (unat (shift2 hsh)) h1 AND 0x1f)) 1"

definition gnu_bloom_word :: "ram \<Rightarrow> elf_GnuHasher \<Rightarrow> u32 \<Rightarrow> u32" where
  "gnu_bloom_word m hsh h1 = ld32 m (bloom hsh + 4 * (drop_bit 5 h1 AND (maskwords hsh - 1)))"

definition elf_GnuHasher_lookup :: "ram \<Rightarrow> elf_GnuHasher \<Rightarrow> u32 \<Rightarrow> u32 \<Rightarrow> u32 option" where
  "elf_GnuHasher_lookup m hsh hashValue name =
     (if gnu_bloom_word m hsh hashValue AND gnu_bloom_bits hsh hashValue \<noteq> gnu_bloom_bits hsh hashValue then Some 0
      else if nbuckets hsh = 0 then None
      else let b = ld32 m (buckets hsh + 4 * (hashValue mod nbuckets hsh)) in
        if 0 = b then Some 0
        else gnu_chain m (g_stringtab hsh) (hashValue AND NOT 1) name
               (symbol_at (g_symtab hsh) b) (hashes hsh + 4 * b - 4 * symndx hsh))"

record elf_SysvHasher =
  nbucket :: u32
  nchain :: u32
  bucket :: u32
  chain :: u32
  nsym :: u32
  s_stringtab :: u32
  s_symtab :: u32

definition elf_SysvHasher_maxSymIndex :: "ram \<Rightarrow> u32 \<Rightarrow> u32 \<Rightarrow> u32" where
  "elf_SysvHasher_maxSymIndex m indexes nindexes =
     fold (\<lambda>i mx. if ld32 m (indexes + 4 * of_nat i) > mx then ld32 m (indexes + 4 * of_nat i) else mx) [0 ..< unat nindexes] 0"

definition elf_SysvHasher_init :: "ram \<Rightarrow> u32 \<Rightarrow> u32 \<Rightarrow> u32 \<Rightarrow> elf_SysvHasher" where
  "elf_SysvHasher_init m hashtabAddr symtabAddr stringtabAddr =
     (let nb = ld32 m hashtabAddr; nc = ld32 m (hashtabAddr + 4); bu = hashtabAddr + 8
      in \<lparr>nbucket = nb, nchain = nc, bucket = bu, chain = bu + 4 * nb,
          nsym = 1 + elf_SysvHasher_maxSymIndex m bu (nb + nc), s_stringtab = stringtabAddr, s_symtab = symtabAddr\<rparr>)"

definition sysv_hash_step :: "u32 \<Rightarrow> u8 \<Rightarrow> u32" where
  "sysv_hash_step h c =
     (let h = push_bit 4 h + ucast c; g = h AND 0xf0000000;
          h = (if g \<noteq> 0 then h XOR drop_bit 24 g else h)
      in h AND NOT g)"

partial_function (option) sysv_hash_loop :: "ram \<Rightarrow> u32 \<Rightarrow> u32 \<Rightarrow> u32 option" where
  "sysv_hash_loop m symbol h =
     (if m symbol \<noteq> 0 then sysv_hash_loop m (symbol + 1) (sysv_hash_step h (m symbol)) else Some h)"

definition elf_SysvHasher_hash :: "ram \<Rightarrow> u32 \<Rightarrow> u32 option" where
  "elf_SysvHasher_hash m symbol = sysv_hash_loop m symbol 0"

partial_function (option) sysv_chain :: "ram \<Rightarrow> elf_SysvHasher \<Rightarrow> u32 \<Rightarrow> u32 \<Rightarrow> u32 option" where
  "sysv_chain m hsh name isym =
     (if isym = 0 then Some 0
      else do {
        eq \<leftarrow> elf_Symbol_nameMatches m (symbol_at (s_symtab hsh) isym) name (s_stringtab hsh);
        if eq \<and> elf_Symbol_isDefinition m (symbol_at (s_symtab hsh) isym) then Some (symbol_at (s_symtab hsh) isym)
        else sysv_chain m hsh name (ld32 m (chain hsh + 4 * isym)) })"

definition elf_SysvHasher_lookup :: "ram \<Rightarrow> elf_SysvHasher \<Rightarrow> u32 \<Rightarrow> u32 \<Rightarrow> u32 option" where
  "elf_SysvHasher_lookup m hsh hashValue name =
     (if nbucket hsh = 0 then None
      else sysv_chain m hsh name (ld32 m (bucket hsh + 4 * (hashValue mod nbucket hsh))))"

subsection \<open>Objects\<close>

record elf_Object =
  header :: u32
  phdrtab :: u32
  numPhdr :: u32
  dyntab :: u32
  dynSymboltab :: u32
  dynStringtab :: u32
  sysvHashtab :: u32
  gnuHashtab :: u32
  baseAddress :: u32
  inittab :: u32
  numInits :: u32
  reltab :: u32
  numRels :: u32
  pltReltab :: u32
  numPltRels :: u32
  exidx :: u32
  exidxSize :: u32
  sysvHasher :: elf_SysvHasher
  gnuHasher :: elf_GnuHasher

definition no_SysvHasher :: elf_SysvHasher where
  "no_SysvHasher = \<lparr>nbucket = 0, nchain = 0, bucket = 0, chain = 0, nsym = 0, s_stringtab = 0, s_symtab = 0\<rparr>"

definition no_GnuHasher :: elf_GnuHasher where
  "no_GnuHasher = \<lparr>nbuckets = 0, symndx = 0, maskwords = 0, shift2 = 0, bloom = 0, buckets = 0, hashes = 0,
     g_stringtab = 0, g_symtab = 0\<rparr>"

definition empty_Object :: "u32 \<Rightarrow> elf_Object" where
  "empty_Object headerAddr =
     \<lparr>header = headerAddr, phdrtab = 0, numPhdr = 0, dyntab = 0, dynSymboltab = 0, dynStringtab = 0, sysvHashtab = 0,
      gnuHashtab = 0, baseAddress = 0, inittab = 0, numInits = 0, reltab = 0, numRels = 0, pltReltab = 0, numPltRels = 0,
      exidx = 0, exidxSize = 0, sysvHasher = no_SysvHasher, gnuHasher = no_GnuHasher\<rparr>"

text \<open>The scan of the program headers: whether a segment is loadable, the lowest address, and the
  last dynamic and EXIDX headers.\<close>

record phdr_scan =
  loadable :: bool
  lowVaddr :: u32
  dynamic_ph :: u32
  exidx_ph :: u32

definition phdr_at :: "u32 \<Rightarrow> nat \<Rightarrow> u32" where "phdr_at tab i = tab + 32 * of_nat i"

definition phdr_step :: "ram \<Rightarrow> u32 \<Rightarrow> phdr_scan \<Rightarrow> phdr_scan" where
  "phdr_step m phdr st =
     (if elf_Pheader_isLoadable m phdr
      then st\<lparr>loadable := True,
              lowVaddr := (if elf_Pheader_virtAddr m phdr < lowVaddr st then elf_Pheader_virtAddr m phdr else lowVaddr st)\<rparr>
      else if elf_Pheader_isDynamic m phdr then st\<lparr>dynamic_ph := phdr\<rparr>
      else if elf_Pheader_isExidx m phdr then st\<lparr>exidx_ph := phdr\<rparr>
      else st)"

definition scan_phdrs :: "ram \<Rightarrow> u32 \<Rightarrow> u32 \<Rightarrow> phdr_scan" where
  "scan_phdrs m tab n =
     fold (\<lambda>i. phdr_step m (phdr_at tab i)) [0 ..< unat n]
       \<lparr>loadable = False, lowVaddr = 0xffffffff, dynamic_ph = 0, exidx_ph = 0\<rparr>"

text \<open>A field is replaced when the entry gives a value other than 0.\<close>

definition or_old :: "u32 \<Rightarrow> u32 \<Rightarrow> u32" where
  "or_old new old = (if new \<noteq> 0 then new else old)"

partial_function (option) scan_dynamic :: "ram \<Rightarrow> u32 \<Rightarrow> elf_Object \<Rightarrow> elf_Object option" where
  "scan_dynamic m dyn obj =
     (if \<not> elf_Dynamic_isSentinel m dyn
      then let base = baseAddress obj in
        scan_dynamic m (dyn + 8)
          (obj\<lparr>dynSymboltab := or_old (elf_Dynamic_symtabAddr m dyn base) (dynSymboltab obj),
               dynStringtab := or_old (elf_Dynamic_stringtabAddr m dyn base) (dynStringtab obj),
               sysvHashtab := or_old (elf_Dynamic_sysvHashtabAddr m dyn base) (sysvHashtab obj),
               gnuHashtab := or_old (elf_Dynamic_gnuHashtabAddr m dyn base) (gnuHashtab obj),
               reltab := or_old (elf_Dynamic_reltabAddr m dyn base) (reltab obj),
               pltReltab := or_old (elf_Dynamic_pltReltabAddr m dyn base) (pltReltab obj),
               inittab := or_old (elf_Dynamic_inittabAddr m dyn base) (inittab obj),
               numRels := or_old (elf_Dynamic_numRels m dyn) (numRels obj),
               numPltRels := or_old (elf_Dynamic_numPltRels m dyn) (numPltRels obj),
               numInits := or_old (elf_Dynamic_numInits m dyn) (numInits obj)\<rparr>)
      else Some obj)"

definition set_segments :: "ram \<Rightarrow> u32 \<Rightarrow> u32 \<Rightarrow> phdr_scan \<Rightarrow> elf_Object \<Rightarrow> elf_Object" where
  "set_segments m n tab sc obj =
     (let base = header obj - lowVaddr sc in
      obj\<lparr>numPhdr := n, phdrtab := tab, baseAddress := base,
          exidx := (if exidx_ph sc \<noteq> 0 then elf_Pheader_segAddr m (exidx_ph sc) base else 0),
          exidxSize := (if exidx_ph sc \<noteq> 0 then elf_Pheader_memSize m (exidx_ph sc) else 0)\<rparr>)"

definition missing_tables :: "elf_Object \<Rightarrow> u32" where
  "missing_tables obj =
     flag_if (dynSymboltab obj = 0) ELF_NO_DYNAMIC_SYMBOLS OR
     flag_if (dynStringtab obj = 0) ELF_NO_DYNAMIC_STRINGS OR
     flag_if (sysvHashtab obj = 0 \<and> gnuHashtab obj = 0) ELF_NO_HASH_TABLE"

definition set_hashers :: "ram \<Rightarrow> elf_Object \<Rightarrow> elf_Object" where
  "set_hashers m obj =
     obj\<lparr>sysvHasher := (if sysvHashtab obj \<noteq> 0
                        then elf_SysvHasher_init m (sysvHashtab obj) (dynSymboltab obj) (dynStringtab obj) else sysvHasher obj),
         gnuHasher := (if gnuHashtab obj \<noteq> 0
                       then elf_GnuHasher_init m (gnuHashtab obj) (dynSymboltab obj) (dynStringtab obj) else gnuHasher obj)\<rparr>"

definition missing_segments :: "phdr_scan \<Rightarrow> u32" where
  "missing_segments sc =
     flag_if (\<not> loadable sc) ELF_NO_LOADABLE_SEGMENTS OR flag_if (dynamic_ph sc = 0) ELF_NO_DYNAMIC_SECTION"

definition elf_Object_init :: "ram \<Rightarrow> u32 \<Rightarrow> (u32 \<times> elf_Object) option" where
  "elf_Object_init m headerAddr =
     (if elf_Header_check m headerAddr \<noteq> ELF_OK then Some (elf_Header_check m headerAddr, empty_Object headerAddr)
      else let n = elf_Header_numPhdr m headerAddr; tab = elf_Header_addrPhdr m headerAddr; sc = scan_phdrs m tab n;
        obj = set_segments m n tab sc (empty_Object headerAddr) in
      if missing_segments sc \<noteq> ELF_OK then Some (missing_segments sc, obj)
      else let dyn = baseAddress obj + elf_Pheader_virtAddr m (dynamic_ph sc) in do {
        obj \<leftarrow> scan_dynamic m dyn (obj\<lparr>dyntab := dyn\<rparr>);
        if missing_tables obj \<noteq> ELF_OK then Some (missing_tables obj, obj)
        else Some (ELF_OK, set_hashers m obj) })"

definition elf_Object_hash :: "ram \<Rightarrow> elf_Object \<Rightarrow> u32 \<Rightarrow> u32 option" where
  "elf_Object_hash m obj name = (if gnuHashtab obj \<noteq> 0 then elf_GnuHasher_hash m name else elf_SysvHasher_hash m name)"

definition elf_Object_lookup :: "ram \<Rightarrow> elf_Object \<Rightarrow> u32 \<Rightarrow> u32 \<Rightarrow> u32 option" where
  "elf_Object_lookup m obj hashValue name =
     (if gnuHashtab obj \<noteq> 0 then elf_GnuHasher_lookup m (gnuHasher obj) hashValue name
      else elf_SysvHasher_lookup m (sysvHasher obj) hashValue name)"

definition elf_Object_getSymbolValue :: "ram \<Rightarrow> elf_Object \<Rightarrow> u32 \<Rightarrow> u32" where
  "elf_Object_getSymbolValue m obj sy =
     (if elf_Symbol_isAbsolute m sy then elf_Symbol_value m sy else elf_Symbol_value m sy + baseAddress obj)"


subsection \<open>Strings\<close>

text \<open>A terminated string in memory.\<close>

fun cstr :: "ram \<Rightarrow> u32 \<Rightarrow> u8 list \<Rightarrow> bool" where
  "cstr m p [] = (m p = 0)"
| "cstr m p (c # cs) = (c \<noteq> 0 \<and> m p = c \<and> cstr m (p + 1) cs)"

lemma elf_stringeq_cstr: "cstr m c xs \<Longrightarrow> cstr m d ys \<Longrightarrow> elf_stringeq m c d = Some (xs = ys)"
proof (induction xs arbitrary: c d ys)
  case Nil
  then show ?case by (cases ys) (simp_all add: elf_stringeq.simps)
next
  case (Cons x xs)
  then show ?case by (cases ys) (simp_all add: elf_stringeq.simps)
qed

definition gnu_hash :: "u8 list \<Rightarrow> u32" where
  "gnu_hash = foldl (\<lambda>h c. h * 33 + ucast c) 5381"

lemma gnu_hash_loop_cstr: "cstr m p xs \<Longrightarrow> gnu_hash_loop m p h = Some (foldl (\<lambda>h c. h * 33 + ucast c) h xs)"
  by (induction xs arbitrary: p h) (auto simp: gnu_hash_loop.simps)

lemma elf_GnuHasher_hash_cstr: "cstr m p xs \<Longrightarrow> elf_GnuHasher_hash m p = Some (gnu_hash xs)"
  by (simp add: elf_GnuHasher_hash_def gnu_hash_def gnu_hash_loop_cstr)

definition sysv_hash :: "u8 list \<Rightarrow> u32" where
  "sysv_hash = foldl sysv_hash_step 0"

lemma sysv_hash_loop_cstr: "cstr m p xs \<Longrightarrow> sysv_hash_loop m p h = Some (foldl sysv_hash_step h xs)"
  by (induction xs arbitrary: p h) (auto simp: sysv_hash_loop.simps)

lemma elf_SysvHasher_hash_cstr: "cstr m p xs \<Longrightarrow> elf_SysvHasher_hash m p = Some (sysv_hash xs)"
  by (simp add: elf_SysvHasher_hash_def sysv_hash_def sysv_hash_loop_cstr)

subsection \<open>Look-ups find the defined symbols\<close>

text \<open>
  The hashed part of a symbol table: symbol \<open>symndx + i\<close> has the name \<open>names ! i\<close>, and the
  hash table is consistent with the names: hash words, Bloom filter, and buckets that are
  runs of symbols, each ended by an odd hash word.
\<close>

definition gnu_sym :: "elf_GnuHasher \<Rightarrow> nat \<Rightarrow> u32" where
  "gnu_sym hsh i = symbol_at (g_symtab hsh) (symndx hsh + of_nat i)"

definition gnu_word :: "ram \<Rightarrow> elf_GnuHasher \<Rightarrow> nat \<Rightarrow> u32" where
  "gnu_word m hsh i = ld32 m (hashes hsh + 4 * of_nat i)"

definition gnu_bucket :: "ram \<Rightarrow> elf_GnuHasher \<Rightarrow> u32 \<Rightarrow> u32" where
  "gnu_bucket m hsh h = ld32 m (buckets hsh + 4 * (h mod nbuckets hsh))"

definition gnu_symbols :: "ram \<Rightarrow> elf_GnuHasher \<Rightarrow> u8 list list \<Rightarrow> bool" where
  "gnu_symbols m hsh names \<longleftrightarrow>
     (\<forall>i < length names. cstr m (elf_Symbol_name m (gnu_sym hsh i) (g_stringtab hsh)) (names ! i) \<and>
        gnu_word m hsh i AND NOT 1 = gnu_hash (names ! i) AND NOT 1 \<and>
        gnu_bloom_word m hsh (gnu_hash (names ! i)) AND gnu_bloom_bits hsh (gnu_hash (names ! i)) = gnu_bloom_bits hsh (gnu_hash (names ! i)))"

definition gnu_run :: "ram \<Rightarrow> elf_GnuHasher \<Rightarrow> u8 list list \<Rightarrow> nat \<Rightarrow> nat \<Rightarrow> bool" where
  "gnu_run m hsh names a e \<longleftrightarrow> a \<le> e \<and> e < length names \<and>
     (\<forall>i. a \<le> i \<and> i < e \<longrightarrow> gnu_word m hsh i AND 1 = 0) \<and> gnu_word m hsh e AND 1 \<noteq> 0"

definition gnu_table :: "ram \<Rightarrow> elf_GnuHasher \<Rightarrow> u8 list list \<Rightarrow> bool" where
  "gnu_table m hsh names \<longleftrightarrow> nbuckets hsh \<noteq> 0 \<and> gnu_symbols m hsh names \<and>
     (\<forall>h. if gnu_bucket m hsh h = 0 then \<forall>i < length names. gnu_hash (names ! i) mod nbuckets hsh \<noteq> h mod nbuckets hsh
          else \<exists>a e. gnu_bucket m hsh h = symndx hsh + of_nat a \<and> gnu_run m hsh names a e \<and>
             (\<forall>i < length names. gnu_hash (names ! i) mod nbuckets hsh = h mod nbuckets hsh \<longrightarrow> a \<le> i \<and> i \<le> e))"

text \<open>The first defined symbol of a name, by linear search.\<close>

definition linear_lookup :: "ram \<Rightarrow> elf_GnuHasher \<Rightarrow> u8 list list \<Rightarrow> u8 list \<Rightarrow> u32" where
  "linear_lookup m hsh names nm =
     (case find (\<lambda>i. names ! i = nm \<and> elf_Symbol_isDefinition m (gnu_sym hsh i)) [0 ..< length names] of
        None \<Rightarrow> 0 | Some i \<Rightarrow> gnu_sym hsh i)"

lemma find_append: "find P (xs @ ys) = (case find P xs of None \<Rightarrow> find P ys | Some x \<Rightarrow> Some x)"
  by (induction xs) auto

lemma find_range:
  assumes "a \<le> b" and "b \<le> n" and "\<And>i. i < n \<Longrightarrow> P i \<Longrightarrow> a \<le> i \<and> i < b"
  shows "find P [0 ..< n] = find P [a ..< b]"
proof -
  have split: "[0 ..< n] = [0 ..< a] @ [a ..< b] @ [b ..< n]"
    using assms(1,2) upt_add_eq_append [of 0 a "n - a"] upt_add_eq_append [of a b "n - b"] by simp
  have "\<not> P i" if "i < a" for i using assms(3) [of i] that assms(1,2) by auto
  then have "find P [0 ..< a] = None" by (simp add: find_None_iff)
  moreover have "\<not> P i" if "b \<le> i" "i < n" for i using assms(3) [of i] that by auto
  then have "find P [b ..< n] = None" by (simp add: find_None_iff)
  ultimately show ?thesis unfolding split by (auto simp: find_append split: option.split)
qed

lemma gnu_chain_step:
  assumes ok: "gnu_symbols m hsh names" and nm: "cstr m name nm" and i: "i < length names"
  shows "gnu_chain m (g_stringtab hsh) (gnu_hash nm AND NOT 1) name (gnu_sym hsh i) (hashes hsh + 4 * of_nat i) =
    (if names ! i = nm \<and> elf_Symbol_isDefinition m (gnu_sym hsh i) then Some (gnu_sym hsh i)
     else if gnu_word m hsh i AND 1 \<noteq> 0 then Some 0
     else gnu_chain m (g_stringtab hsh) (gnu_hash nm AND NOT 1) name (gnu_sym hsh (Suc i)) (hashes hsh + 4 * of_nat (Suc i)))"
proof -
  have w: "ld32 m (hashes hsh + 4 * of_nat i) = gnu_word m hsh i" by (simp add: gnu_word_def)
  have eq: "elf_Symbol_nameMatches m (gnu_sym hsh i) name (g_stringtab hsh) = Some (names ! i = nm)"
    using ok nm i by (simp add: elf_Symbol_nameMatches_def gnu_symbols_def elf_stringeq_cstr)
  have h: "names ! i = nm \<Longrightarrow> gnu_hash nm AND NOT 1 = gnu_word m hsh i AND NOT 1"
    using ok i by (auto simp: gnu_symbols_def)
  have nxt: "gnu_sym hsh i + 16 = gnu_sym hsh (Suc i)" "hashes hsh + 4 * of_nat i + 4 = hashes hsh + 4 * of_nat (Suc i)"
    by (simp_all add: gnu_sym_def symbol_at_def algebra_simps)
  show ?thesis
    using h by (subst gnu_chain.simps) (auto simp only: w eq nxt bind.simps simp_thms if_True if_False split: if_splits)
qed

lemma gnu_chain_run:
  assumes ok: "gnu_symbols m hsh names" and nm: "cstr m name nm"
  shows "gnu_run m hsh names a e \<Longrightarrow>
    gnu_chain m (g_stringtab hsh) (gnu_hash nm AND NOT 1) name (gnu_sym hsh a) (hashes hsh + 4 * of_nat a) =
      Some (case find (\<lambda>i. names ! i = nm \<and> elf_Symbol_isDefinition m (gnu_sym hsh i)) [a ..< Suc e] of
        None \<Rightarrow> 0 | Some i \<Rightarrow> gnu_sym hsh i)"
proof (induction "e - a" arbitrary: a)
  case (0 a)
  then have "a = e" "a < length names" "gnu_word m hsh a AND 1 \<noteq> 0" by (simp_all add: gnu_run_def)
  then show ?case by (subst gnu_chain_step [OF assms]) simp_all
next
  case (Suc d a)
  then have lt: "a < e" and run: "gnu_run m hsh names (Suc a) e" "a < length names" "gnu_word m hsh a AND 1 = 0"
    by (simp_all add: gnu_run_def)
  have "[a ..< Suc e] = a # [Suc a ..< Suc e]" using lt by (intro upt_conv_Cons) simp
  moreover have "d = e - Suc a" using Suc.hyps(2) by simp
  ultimately show ?case
    using Suc.hyps(1) [OF _ run(1)] run(2,3) by (subst gnu_chain_step [OF assms]) simp_all
qed

lemma gnu_lookup_linear:
  assumes "gnu_table m hsh names" and "cstr m name nm"
  shows "elf_GnuHasher_lookup m hsh (gnu_hash nm) name = Some (linear_lookup m hsh names nm)"
proof -
  let ?h = "gnu_hash nm"
  let ?P = "\<lambda>i. names ! i = nm \<and> elf_Symbol_isDefinition m (gnu_sym hsh i)"
  note t = assms(1) [unfolded gnu_table_def]
  have nb: "nbuckets hsh \<noteq> 0" and syms: "gnu_symbols m hsh names" using t by blast+
  show ?thesis
  proof (cases "gnu_bloom_word m hsh ?h AND gnu_bloom_bits hsh ?h = gnu_bloom_bits hsh ?h")
    case False
    then have "\<not> ?P i" if "i < length names" for i using syms that by (auto simp: gnu_symbols_def)
    then have "find ?P [0 ..< length names] = None" by (auto simp: find_None_iff)
    then show ?thesis using False by (simp add: elf_GnuHasher_lookup_def linear_lookup_def)
  next
    case bloom: True
    show ?thesis
    proof (cases "gnu_bucket m hsh ?h = 0")
      case True
      then have "\<forall>i < length names. gnu_hash (names ! i) mod nbuckets hsh \<noteq> ?h mod nbuckets hsh" using t by (auto dest: spec [of _ ?h])
      then have "find ?P [0 ..< length names] = None" by (auto simp: find_None_iff)
      then show ?thesis using bloom nb True
        by (simp add: elf_GnuHasher_lookup_def linear_lookup_def gnu_bucket_def Let_def)
    next
      case False
      then obtain a e where b: "gnu_bucket m hsh ?h = symndx hsh + of_nat a" and run: "gnu_run m hsh names a e"
        and all: "\<forall>i < length names. gnu_hash (names ! i) mod nbuckets hsh = ?h mod nbuckets hsh \<longrightarrow> a \<le> i \<and> i \<le> e"
        using t by (metis (full_types))
      have ae: "a \<le> Suc e" "Suc e \<le> length names" using run by (simp_all add: gnu_run_def)
      have "find ?P [0 ..< length names] = find ?P [a ..< Suc e]"
        using all ae by (intro find_range) (auto simp: less_Suc_eq_le)
      moreover have "symbol_at (g_symtab hsh) (symndx hsh + of_nat a) = gnu_sym hsh a"
        "hashes hsh + 4 * (symndx hsh + of_nat a) - 4 * symndx hsh = hashes hsh + 4 * of_nat a"
        by (simp_all add: gnu_sym_def algebra_simps)
      ultimately show ?thesis
        using bloom nb False b gnu_chain_run [OF syms assms(2) run]
        by (simp add: elf_GnuHasher_lookup_def linear_lookup_def gnu_bucket_def Let_def)
    qed
  qed
qed

text \<open>
  C38: a look-up of a terminated name in a consistent GNU hash table returns what a linear
  search through the hashed symbols returns: the first defined symbol of that name, or NULL
  when there is none. In particular it ends.
\<close>

theorem gnu_lookup_is_linear_search:
  assumes "gnu_table m hsh names" and "cstr m name nm"
  shows "\<exists>h. elf_GnuHasher_hash m name = Some h \<and> elf_GnuHasher_lookup m hsh h name = Some (linear_lookup m hsh names nm)"
  using gnu_lookup_linear [OF assms] elf_GnuHasher_hash_cstr [OF assms(2)] by simp


text \<open>A symbol table with the one hashed symbol \<^verbatim>\<open>a\<close> and its GNU hash table.\<close>

definition tiny_ram :: ram where
  "tiny_ram = (st32 0x100 1 (st32 0x104 1 (st32 0x108 1 (st32 0x110 0xffffffff (st32 0x114 1 (st32 0x118 0x2b607
     (st32 0x210 1 (st32 0x214 0x40 (st32 0x21c 0x10012 (\<lambda>_. 0)))))))))) (0x301 := 0x61)"

definition tiny_hasher :: elf_GnuHasher where
  "tiny_hasher = elf_GnuHasher_init tiny_ram 0x100 0x200 0x300"

lemma gnu_lookup_is_linear_search_witness:
  "elf_GnuHasher_lookup tiny_ram tiny_hasher 0x2b606 0x301 = Some 0x210"
proof -
  have hs: "tiny_hasher = \<lparr>nbuckets = 1, symndx = 1, maskwords = 1, shift2 = 0, bloom = 0x110, buckets = 0x114,
      hashes = 0x118, g_stringtab = 0x300, g_symtab = 0x200\<rparr>"
    by (simp add: tiny_hasher_def elf_GnuHasher_init_def Let_def tiny_ram_def st32_def ld32_def le_word_def)
  have nm: "cstr tiny_ram 0x301 [0x61]" by (simp add: tiny_ram_def st32_def)
  have hash: "gnu_hash [0x61] = 0x2b606" by (simp add: gnu_hash_def)
  have word: "gnu_word tiny_ram tiny_hasher 0 = 0x2b607" "gnu_bucket tiny_ram tiny_hasher h = 1" for h
    by (simp_all add: gnu_word_def gnu_bucket_def hs tiny_ram_def st32_def ld32_def le_word_def)
  have "gnu_symbols tiny_ram tiny_hasher [[0x61]]"
    using nm word(1)
    by (simp add: gnu_symbols_def hash gnu_sym_def symbol_at_def elf_Symbol_name_def elf_Symbol_nameIndex_def
        gnu_bloom_word_def gnu_bloom_bits_def hs) (simp add: tiny_ram_def st32_def ld32_def le_word_def)
  then have "gnu_table tiny_ram tiny_hasher [[0x61]]"
    using word by (auto simp: gnu_table_def gnu_run_def hs intro!: exI [of _ "0 :: nat"])
  moreover have "linear_lookup tiny_ram tiny_hasher [[0x61]] [0x61] = 0x210"
    by (simp add: linear_lookup_def gnu_sym_def symbol_at_def hs elf_Symbol_isDefinition_def elf_Symbol_section_def
        SHN_UNDEF_def ld16_def le_half_def tiny_ram_def st32_def)
  ultimately show ?thesis
    using gnu_lookup_is_linear_search [OF _ nm] elf_GnuHasher_hash_cstr [OF nm] hash by fastforce
qed

end
