(* ===== verification/Exidx.thy ===== *)
theory Exidx
  imports Elf MemRegion
begin

text \<open>
  The table of exception index sections for the unwinder (\<^verbatim>\<open>tool/elf/src/exidx.c\<close>,
  \<^verbatim>\<open>tool/elf/impl/ExidxTable.h\<close>, \<^verbatim>\<open>tool/elf/src/rtems/exidxTable.c\<close>). The linker records the executable
  segments of every object it loads; the unwinder asks for the section of a program counter.
  The table lives in one page of the workspace region, taken from the region table at the
  first use. The lock is held around each access of the table, which is one step here.
\<close>

subsection \<open>The table\<close>

record Segment =
  segStart :: u32
  segEnd :: u32
  exidxStart :: u32
  numExidxEntries :: u32

record ExidxTable =
  tab_start :: u32
  tab_end :: u32
  tab_next :: u32
  tab_store :: "u32 \<Rightarrow> Segment"

definition exidxTable :: ExidxTable where
  "exidxTable = \<lparr>tab_start = 0, tab_end = 0, tab_next = 0,
     tab_store = (\<lambda>_. \<lparr>segStart = 0, segEnd = 0, exidxStart = 0, numExidxEntries = 0\<rparr>)\<rparr>"

type_synonym exidx_state = "ExidxTable \<times> mem_Region list"

text \<open>\<open>None\<close> is the bug check when the region has no page left.\<close>

definition ExidxTable_init :: "exidx_state \<Rightarrow> exidx_state option" where
  "ExidxTable_init = (\<lambda>(table, regs).
     let bytes = 1 * mem_Region_pageSize MEM_REGION_WORKSPACE regs;
         (p, regs) = mem_Region_alloc MEM_REGION_WORKSPACE bytes regs in
     if p = 0 then None
     else Some (table\<lparr>tab_start := p, tab_next := p, tab_end := p + 16 * (bytes div 16)\<rparr>, regs))"

definition exidx_ready :: "exidx_state \<Rightarrow> exidx_state option" where
  "exidx_ready st = (if tab_start (fst st) = 0 then ExidxTable_init st else Some st)"

text \<open>Out of space only a warning is printed.\<close>

definition addSegment :: "Segment \<Rightarrow> exidx_state \<Rightarrow> exidx_state option" where
  "addSegment seg st = do {
     (table, regs) \<leftarrow> exidx_ready st;
     if tab_next table \<ge> tab_end table then Some (table, regs)
     else Some (table\<lparr>tab_store := (tab_store table)(tab_next table := seg), tab_next := tab_next table + 16\<rparr>, regs) }"

partial_function (option) segment_loop :: "(u32 \<Rightarrow> Segment) \<Rightarrow> u32 \<Rightarrow> u32 \<Rightarrow> u32 \<Rightarrow> u32 option" where
  "segment_loop store pc seg nxt =
     (if seg \<noteq> nxt
      then if segStart (store seg) \<le> pc \<and> pc < segEnd (store seg) then Some seg
           else segment_loop store pc (seg + 16) nxt
      else Some 0)"

definition findSegment :: "u32 \<Rightarrow> exidx_state \<Rightarrow> (u32 \<times> exidx_state) option" where
  "findSegment pc st = do {
     (table, regs) \<leftarrow> exidx_ready st;
     seg \<leftarrow> segment_loop (tab_store table) pc (tab_start table) (tab_next table);
     Some (seg, table, regs) }"

text \<open>The recorded segments of an object: those that are loadable and executable.\<close>

definition exidx_segment :: "ram \<Rightarrow> elf_Object \<Rightarrow> u32 \<Rightarrow> Segment" where
  "exidx_segment m elfObj hdr =
     (let s = elf_Pheader_segAddr m hdr (baseAddress elfObj)
      in \<lparr>segStart = s, segEnd = s + elf_Pheader_memSize m hdr, exidxStart = exidx elfObj,
          numExidxEntries = drop_bit 3 (exidxSize elfObj)\<rparr>)"

fun remember_loop :: "ram \<Rightarrow> elf_Object \<Rightarrow> u32 list \<Rightarrow> exidx_state \<Rightarrow> exidx_state option" where
  "remember_loop m elfObj [] st = Some st"
| "remember_loop m elfObj (hdr # hdrs) st = do {
     st \<leftarrow> (if elf_Pheader_isLoadable m hdr \<and> elf_Pheader_isExecutable m hdr
            then addSegment (exidx_segment m elfObj hdr) st else Some st);
     remember_loop m elfObj hdrs st }"

definition rememberExidx :: "ram \<Rightarrow> elf_Object \<Rightarrow> exidx_state \<Rightarrow> exidx_state option" where
  "rememberExidx m elfObj st =
     (if exidx elfObj \<noteq> 0
      then remember_loop m elfObj (map (phdr_at (phdrtab elfObj)) [0 ..< unat (numPhdr elfObj)]) st
      else Some st)"

text \<open>The arguments \<open>exidx_lo\<close> and \<open>exidx_hi\<close> are the linker symbols of the system image.\<close>

definition gnu_Unwind_Find_exidx :: "u32 \<Rightarrow> u32 \<Rightarrow> u32 \<Rightarrow> exidx_state \<Rightarrow> ((u32 \<times> u32) \<times> exidx_state) option" where
  "gnu_Unwind_Find_exidx exidx_lo exidx_hi pc st = do {
     (seg, table, regs) \<leftarrow> findSegment pc st;
     Some (if seg \<noteq> 0 then (exidxStart (tab_store table seg), numExidxEntries (tab_store table seg))
           else (exidx_lo, signed_drop_bit 3 (exidx_hi - exidx_lo)), table, regs) }"

subsection \<open>The table as a list\<close>

text \<open>
  The list of recorded segments behind the pointers; \<open>[]\<close> before the first use.
\<close>

definition table_of :: "ExidxTable \<Rightarrow> nat \<Rightarrow> Segment list \<Rightarrow> bool" where
  "table_of t cap segs \<longleftrightarrow> tab_start t \<noteq> 0 \<and> unat (tab_start t) + 16 * cap < 2 ^ 32 \<and> length segs \<le> cap \<and>
     tab_end t = tab_start t + of_nat (16 * cap) \<and> tab_next t = tab_start t + of_nat (16 * length segs) \<and>
     (\<forall>i < length segs. tab_store t (tab_start t + of_nat (16 * i)) = segs ! i)"

lemma slot_unat:
  assumes "table_of t cap segs" and "i \<le> cap"
  shows "unat (tab_start t + of_nat (16 * i)) = unat (tab_start t) + 16 * i"
proof -
  have "unat (tab_start t) + 16 * i < 2 ^ 32" using assms by (simp add: table_of_def)
  moreover have "tab_start t + of_nat (16 * i) = of_nat (unat (tab_start t) + 16 * i)" by simp
  ultimately show ?thesis by (simp only: unat_of_nat_u32)
qed

lemma addSegment_table:
  assumes t: "table_of t cap segs"
  shows "\<exists>t'. addSegment seg (t, regs) = Some (t', regs) \<and> table_of t' cap (take cap (segs @ [seg]))"
proof (cases "length segs < cap")
  case False
  then have "length segs = cap" using t by (simp add: table_of_def)
  moreover from this have "tab_end t \<le> tab_next t" using t by (simp add: table_of_def)
  ultimately show ?thesis using t by (auto simp: addSegment_def exidx_ready_def table_of_def)
next
  case True
  let ?t = "t\<lparr>tab_store := (tab_store t)(tab_next t := seg), tab_next := tab_next t + 16\<rparr>"
  have u: "unat (tab_next t) = unat (tab_start t) + 16 * length segs" "unat (tab_end t) = unat (tab_start t) + 16 * cap"
    using slot_unat [OF t, of "length segs"] slot_unat [OF t, of cap] True t by (simp_all add: table_of_def)
  then have "\<not> tab_next t \<ge> tab_end t" using True by (simp add: word_le_nat_alt)
  then have "addSegment seg (t, regs) = Some (?t, regs)"
    using t by (simp add: addSegment_def exidx_ready_def table_of_def)
  moreover have "table_of ?t cap (segs @ [seg])"
  proof -
    have ne: "tab_start t + of_nat (16 * i) \<noteq> tab_next t" if "i < length segs" for i
      using slot_unat [OF t, of i] u(1) that True by auto
    have "tab_store ?t (tab_start t + of_nat (16 * i)) = (segs @ [seg]) ! i" if "i < Suc (length segs)" for i
    proof (cases "i = length segs")
      case True
      then show ?thesis using t by (simp add: table_of_def)
    next
      case False
      then have "i < length segs" using that by simp
      then show ?thesis using t ne [of i] by (simp add: table_of_def del: of_nat_mult)
    qed
    then show ?thesis using t True by (simp add: table_of_def algebra_simps)
  qed
  ultimately show ?thesis using True by (intro exI [of _ ?t]) simp
qed

text \<open>What a sequence of recordings adds.\<close>

definition recorded :: "ram \<Rightarrow> elf_Object \<Rightarrow> Segment list" where
  "recorded m elfObj =
     (if exidx elfObj = 0 then []
      else map (exidx_segment m elfObj)
             (filter (\<lambda>hdr. elf_Pheader_isLoadable m hdr \<and> elf_Pheader_isExecutable m hdr)
                (map (phdr_at (phdrtab elfObj)) [0 ..< unat (numPhdr elfObj)])))"

text \<open>The first use takes a fresh page.\<close>

lemma ready_table:
  assumes "table_ok regs" and "pageSize (region_of MEM_REGION_WORKSPACE regs) = LOG2_SECTION"
    and "next_page (region_of MEM_REGION_WORKSPACE regs) < ucast (pages (region_of MEM_REGION_WORKSPACE regs))"
    and "unat (start (region_of MEM_REGION_WORKSPACE regs)) +
      unat (pages (region_of MEM_REGION_WORKSPACE regs)) * page_bytes (region_of MEM_REGION_WORKSPACE regs) < 2 ^ 32"
    and "tab_start t = 0"
  shows "\<exists>t' regs'. exidx_ready (t, regs) = Some (t', regs') \<and> table_of t' 65536 []"
proof -
  let ?r = "region_of MEM_REGION_WORKSPACE regs"
  have bytes: "mem_Region_pageSize MEM_REGION_WORKSPACE regs = 0x100000"
    using assms(2) by (simp add: mem_Region_pageSize_def region_of_def LOG2_SECTION_def)
  have pb: "page_bytes ?r = 0x100000" using assms(2) by (simp add: page_bytes_def LOG2_SECTION_def)
  have need: "pages_needed ?r 0x100000 = 1" by (simp add: pages_needed_def pb)
  have req: "request_ok MEM_REGION_WORKSPACE 0x100000 regs" by (simp add: request_ok_def pb)
  have rok: "region_ok ?r" by (rule table_okD(1) [OF assms(1)])
  have "unat (next_page ?r) + 1 \<le> unat (pages ?r)"
    using assms(3) unat_ucast_up [of "pages ?r", where 'b = 32] by (simp add: word_less_nat_alt)
  from assms(1) req show ?thesis
  proof (cases rule: alloc_step)
    case full
    then show ?thesis using need \<open>unat (next_page ?r) + 1 \<le> unat (pages ?r)\<close> by simp
  next
    case (fits p regs')
    have "unat (next_page ?r) * 0x100000 + 0x100000 \<le> unat (pages ?r) * 0x100000"
      using \<open>unat (next_page ?r) + 1 \<le> unat (pages ?r)\<close> mult_le_mono1 [of "unat (next_page ?r) + 1" "unat (pages ?r)" "0x100000"]
      by simp
    then have "unat p + 0x100000 < 2 ^ 32" using fits(7) assms(4) pb by simp
    then show ?thesis
      using fits(1,2) assms(5) bytes
      by (simp add: exidx_ready_def ExidxTable_init_def table_of_def)
  qed
qed

text \<open>The states of the table after some recordings: unused, or holding what fits into a page.\<close>

definition workspace_ok :: "mem_Region list \<Rightarrow> bool" where
  "workspace_ok regs \<longleftrightarrow> table_ok regs \<and> (let r = region_of MEM_REGION_WORKSPACE regs in
     pageSize r = LOG2_SECTION \<and> next_page r < ucast (pages r) \<and> unat (start r) + unat (pages r) * page_bytes r < 2 ^ 32)"

definition exidx_holds :: "exidx_state \<Rightarrow> Segment list \<Rightarrow> bool" where
  "exidx_holds st segs \<longleftrightarrow>
     tab_start (fst st) = 0 \<and> segs = [] \<and> workspace_ok (snd st) \<or> table_of (fst st) 65536 (take 65536 segs)"

lemma exidx_ready_holds:
  assumes "exidx_holds st segs"
  shows "\<exists>t regs. exidx_ready st = Some (t, regs) \<and> table_of t 65536 (take 65536 segs)"
proof (cases "table_of (fst st) 65536 (take 65536 segs)")
  case True
  then have "exidx_ready st = Some (fst st, snd st)" by (simp add: exidx_ready_def table_of_def)
  then show ?thesis using True by blast
next
  case False
  then show ?thesis
    using assms ready_table [of "snd st" "fst st"] by (auto simp: exidx_holds_def workspace_ok_def Let_def)
qed

lemma addSegment_holds:
  assumes "exidx_holds st segs"
  shows "\<exists>st'. addSegment seg st = Some st' \<and> exidx_holds st' (segs @ [seg])"
proof -
  obtain t regs where r: "exidx_ready st = Some (t, regs)" "table_of t 65536 (take 65536 segs)"
    using exidx_ready_holds [OF assms] by blast
  then have "tab_start t \<noteq> 0" by (simp add: table_of_def)
  then have "exidx_ready (t, regs) = Some (t, regs)" by (simp add: exidx_ready_def)
  then have "addSegment seg st = addSegment seg (t, regs)" unfolding addSegment_def r(1) by (simp only:)
  moreover have "take 65536 (take 65536 segs @ [seg]) = take 65536 (segs @ [seg])"
    by (cases "length segs < 65536") simp_all
  ultimately show ?thesis using addSegment_table [OF r(2), of seg regs] by (auto simp: exidx_holds_def)
qed

lemma remember_loop_holds:
  "exidx_holds st segs \<Longrightarrow> \<exists>st'. remember_loop m obj hdrs st = Some st' \<and>
     exidx_holds st' (segs @ map (exidx_segment m obj)
       (filter (\<lambda>hdr. elf_Pheader_isLoadable m hdr \<and> elf_Pheader_isExecutable m hdr) hdrs))"
proof (induction hdrs arbitrary: st segs)
  case (Cons hdr hdrs)
  show ?case
  proof (cases "elf_Pheader_isLoadable m hdr \<and> elf_Pheader_isExecutable m hdr")
    case False
    then show ?thesis using Cons by auto
  next
    case True
    obtain st1 where "addSegment (exidx_segment m obj hdr) st = Some st1" "exidx_holds st1 (segs @ [exidx_segment m obj hdr])"
      using addSegment_holds [OF Cons.prems] by blast
    then show ?thesis using Cons.IH [of st1 "segs @ [exidx_segment m obj hdr]"] True by simp
  qed
qed auto

lemma rememberExidx_holds:
  "exidx_holds st segs \<Longrightarrow> \<exists>st'. rememberExidx m obj st = Some st' \<and> exidx_holds st' (segs @ recorded m obj)"
  using remember_loop_holds [of st segs m obj] by (cases "exidx obj = 0") (simp_all add: rememberExidx_def recorded_def)

fun remember_all :: "(ram \<times> elf_Object) list \<Rightarrow> exidx_state \<Rightarrow> exidx_state option" where
  "remember_all [] st = Some st"
| "remember_all ((m, obj) # objs) st = Option.bind (rememberExidx m obj st) (remember_all objs)"

lemma remember_all_holds:
  "exidx_holds st segs \<Longrightarrow>
    \<exists>st'. remember_all objs st = Some st' \<and> exidx_holds st' (segs @ concat (map (\<lambda>(m, obj). recorded m obj) objs))"
proof (induction objs arbitrary: st segs)
  case (Cons p objs)
  obtain m obj where o: "p = (m, obj)" by (cases p)
  obtain st1 where "rememberExidx m obj st = Some st1" "exidx_holds st1 (segs @ recorded m obj)"
    using rememberExidx_holds [OF Cons.prems] by blast
  then show ?case using Cons.IH [of st1 "segs @ recorded m obj"] o by simp
qed auto

subsection \<open>Finding the section of a program counter\<close>

definition covers :: "u32 \<Rightarrow> Segment \<Rightarrow> bool" where
  "covers pc s \<longleftrightarrow> segStart s \<le> pc \<and> pc < segEnd s"

lemma segment_loop_find:
  assumes t: "table_of t cap segs"
  shows "i \<le> length segs \<Longrightarrow> \<exists>p. segment_loop (tab_store t) pc (tab_start t + of_nat (16 * i)) (tab_next t) = Some p \<and>
    (case find (covers pc) (drop i segs) of None \<Rightarrow> p = 0 | Some s \<Rightarrow> p \<noteq> 0 \<and> tab_store t p = s)"
proof (induction "length segs - i" arbitrary: i)
  case 0
  then show ?case using t by (simp add: table_of_def segment_loop.simps)
next
  case (Suc d)
  then have lt: "i < length segs" by simp
  let ?p = "tab_start t + of_nat (16 * i)"
  have cap: "length segs \<le> cap" and nxt: "tab_next t = tab_start t + of_nat (16 * length segs)"
    and s: "tab_store t ?p = segs ! i" and nz: "unat (tab_start t) \<noteq> 0"
    using t lt by (simp_all add: table_of_def unat_eq_zero)
  have u: "unat ?p = unat (tab_start t) + 16 * i" "unat (tab_next t) = unat (tab_start t) + 16 * length segs"
    unfolding nxt using lt cap slot_unat [OF t, of i] slot_unat [OF t, of "length segs"] by simp_all
  then have ne: "?p \<noteq> tab_next t" "?p \<noteq> 0" using lt nz by auto
  have step: "?p + 16 = tab_start t + of_nat (16 * Suc i)" by (simp add: algebra_simps)
  have d: "drop i segs = segs ! i # drop (Suc i) segs" using lt by (simp add: Cons_nth_drop_Suc)
  show ?case
  proof (cases "covers pc (segs ! i)")
    case True
    then have "segment_loop (tab_store t) pc ?p (tab_next t) = Some ?p"
      using ne(1) s by (subst segment_loop.simps) (simp only: covers_def simp_thms if_True)
    then show ?thesis using True d s ne(2) by simp
  next
    case False
    then have "segment_loop (tab_store t) pc ?p (tab_next t) =
        segment_loop (tab_store t) pc (tab_start t + of_nat (16 * Suc i)) (tab_next t)"
      using ne(1) s by (subst segment_loop.simps) (simp only: step covers_def simp_thms if_True if_False)
    then show ?thesis using Suc.hyps(1) [of "Suc i"] Suc.hyps(2) lt False d by simp
  qed
qed

text \<open>
  C39: after any number of objects have been recorded, the unwinder gets for a program counter
  the exception index section of the first recorded segment that contains it, and that of the
  system image when there is none; the table holds the first 65536 segments, and the call
  never fails.
\<close>

theorem find_exidx_of_recorded:
  assumes "workspace_ok regs"
  shows "\<exists>st. remember_all objs (exidxTable, regs) = Some st \<and>
    (\<forall>pc. \<exists>st'. gnu_Unwind_Find_exidx exidx_lo exidx_hi pc st =
       Some (case find (covers pc) (take 65536 (concat (map (\<lambda>(m, obj). recorded m obj) objs))) of
               None \<Rightarrow> (exidx_lo, signed_drop_bit 3 (exidx_hi - exidx_lo))
             | Some s \<Rightarrow> (exidxStart s, numExidxEntries s), st'))"
proof -
  let ?segs = "concat (map (\<lambda>(m, obj). recorded m obj) objs)"
  have "exidx_holds (exidxTable, regs) []" using assms by (simp add: exidx_holds_def exidxTable_def)
  then obtain st where st: "remember_all objs (exidxTable, regs) = Some st" "exidx_holds st ?segs"
    using remember_all_holds [of "(exidxTable, regs)" "[]" objs] by fastforce
  obtain t regs' where r: "exidx_ready st = Some (t, regs')" "table_of t 65536 (take 65536 ?segs)"
    using exidx_ready_holds [OF st(2)] by blast
  have "\<exists>st'. gnu_Unwind_Find_exidx exidx_lo exidx_hi pc st =
       Some (case find (covers pc) (take 65536 ?segs) of
               None \<Rightarrow> (exidx_lo, signed_drop_bit 3 (exidx_hi - exidx_lo))
             | Some s \<Rightarrow> (exidxStart s, numExidxEntries s), st')" for pc
    using segment_loop_find [OF r(2), of 0 pc] r(1)
    by (auto simp: gnu_Unwind_Find_exidx_def findSegment_def split: option.splits)
  then show ?thesis using st(1) by blast
qed


text \<open>One executable segment of 128 bytes at 0x10100 with an index of two entries.\<close>

definition exidx_ram :: ram where
  "exidx_ram = st32 0x200 1 (st32 0x208 0x100 (st32 0x214 0x80 (st32 0x218 5 (\<lambda>_. 0))))"

definition exidx_object :: elf_Object where
  "exidx_object = (empty_Object 0x10000)\<lparr>phdrtab := 0x200, numPhdr := 1, baseAddress := 0x10000, exidx := 0x500, exidxSize := 16\<rparr>"

lemma find_exidx_of_recorded_witness:
  "\<exists>st st'. remember_all [(exidx_ram, exidx_object)] (exidxTable, mem_RegionTable) = Some st \<and>
     gnu_Unwind_Find_exidx 0x700 0x780 0x10110 st = Some ((0x500, 2), st')"
proof -
  have "recorded exidx_ram exidx_object = [\<lparr>segStart = 0x10100, segEnd = 0x10180, exidxStart = 0x500, numExidxEntries = 2\<rparr>]"
    by (simp add: recorded_def exidx_object_def empty_Object_def phdr_at_def exidx_segment_def Let_def elf_Pheader_isLoadable_def
        elf_Pheader_isExecutable_def elf_Pheader_type_def elf_Pheader_flags_def elf_Pheader_memSize_def elf_Pheader_segAddr_def
        elf_Pheader_virtAddr_def exidx_ram_def ld32_def st32_def le_word_def)
  moreover have "table_ok mem_RegionTable"
    by (simp add: table_ok_def region_ok_def page_bytes_def region_table_defs)
  then have "workspace_ok mem_RegionTable"
    by (simp add: workspace_ok_def Let_def region_of_def page_bytes_def region_table_defs)
  note find_exidx_of_recorded [OF this, of "[(exidx_ram, exidx_object)]" "0x700" "0x780"]
  ultimately show ?thesis by (auto simp: covers_def simp del: remember_all.simps dest!: spec [of _ "0x10110"])
qed

end
