(* ===== verification/LnkDb.thy ===== *)
theory LnkDb
  imports Exidx
begin

text \<open>
  The dynamic linker's dependency graph and object database (\<^verbatim>\<open>tool/elf/src/lnkSearchDag.c\<close>,
  \<^verbatim>\<open>lnkObjDb.c\<close>, \<^verbatim>\<open>lnkConstants.h\<close>, \<^verbatim>\<open>tool/elf/include/lnkStatus.h\<close>). The calls of the image loader are
  a record of functions, the argument of every operation that uses them.
\<close>

subsection \<open>Status\<close>

definition LNK_OK :: u32 where "LNK_OK = 0"
definition lnk_code :: "u32 \<Rightarrow> u32" where "lnk_code n = push_bit 16 4 OR n"
definition LNK_UNDEFINED_SYMBOLS :: u32 where "LNK_UNDEFINED_SYMBOLS = lnk_code 2"
definition LNK_DEPENDENCY_CYCLE :: u32 where "LNK_DEPENDENCY_CYCLE = lnk_code 3"
definition LNK_TOO_MANY_OBJECTS :: u32 where "LNK_TOO_MANY_OBJECTS = lnk_code 4"
definition LNK_TOO_MANY_DEPENDENCIES :: u32 where "LNK_TOO_MANY_DEPENDENCIES = lnk_code 5"
definition LNK_BAD_RELOCATION_TYPE :: u32 where "LNK_BAD_RELOCATION_TYPE = lnk_code 7"
definition LNK_INTERNAL_ERROR1 :: u32 where "LNK_INTERNAL_ERROR1 = lnk_code 8"
definition LNK_INTERNAL_ERROR2 :: u32 where "LNK_INTERNAL_ERROR2 = lnk_code 9"

lemmas lnk_codes =
  LNK_OK_def lnk_code_def LNK_UNDEFINED_SYMBOLS_def LNK_DEPENDENCY_CYCLE_def LNK_TOO_MANY_OBJECTS_def
  LNK_TOO_MANY_DEPENDENCIES_def LNK_BAD_RELOCATION_TYPE_def LNK_INTERNAL_ERROR1_def LNK_INTERNAL_ERROR2_def

record lnk_Status =
  status :: u32
  st_soname :: u32
  otherName :: u32

definition lnk_Status_init3 :: "u32 \<Rightarrow> u32 \<Rightarrow> u32 \<Rightarrow> lnk_Status" where
  "lnk_Status_init3 st so other = \<lparr>status = st, st_soname = so, otherName = other\<rparr>"

definition lnk_Status_init1 :: "u32 \<Rightarrow> lnk_Status" where "lnk_Status_init1 st = lnk_Status_init3 st 0 0"
definition lnk_Status_init2 :: "u32 \<Rightarrow> u32 \<Rightarrow> lnk_Status" where "lnk_Status_init2 st so = lnk_Status_init3 st so 0"

abbreviation st_ok :: lnk_Status where "st_ok \<equiv> lnk_Status_init1 LNK_OK"

definition is_ok :: "lnk_Status \<Rightarrow> bool" where "is_ok st \<longleftrightarrow> status st = LNK_OK"

lemma status_init [simp]: "status (lnk_Status_init1 c) = c" "status (lnk_Status_init2 c so) = c"
  by (simp_all add: lnk_Status_init1_def lnk_Status_init2_def lnk_Status_init3_def)

lemma is_ok_init [simp]: "is_ok (lnk_Status_init1 c) \<longleftrightarrow> c = LNK_OK" "is_ok (lnk_Status_init2 c so) \<longleftrightarrow> c = LNK_OK"
  by (simp_all add: is_ok_def)

subsection \<open>The search graph\<close>

definition LNK_MAX_ELF_OBJECTS :: nat where "LNK_MAX_ELF_OBJECTS = 32"
definition LNK_MAX_DAG_NODES :: nat where "LNK_MAX_DAG_NODES = 255"

datatype lnk_DagState = LNK_DAG_NOT_STARTED | LNK_DAG_UNDER_CONSTRUCTION | LNK_DAG_DONE

text \<open>Links are indices of nodes, 0 the null link; a database index fits into a byte.\<close>

record lnk_SearchNode =
  dbIndex :: int
  sib :: nat
  child :: nat
  lastChild :: nat

definition lnk_SearchNode_init :: "int \<Rightarrow> lnk_SearchNode" where
  "lnk_SearchNode_init i = \<lparr>dbIndex = i, sib = 0, child = 0, lastChild = 0\<rparr>"

record lnk_SearchDag =
  dag_next :: nat
  nodes :: "nat \<Rightarrow> lnk_SearchNode"

definition lnk_SearchDag_init :: "int \<Rightarrow> lnk_SearchDag" where
  "lnk_SearchDag_init rootDbIndex =
     \<lparr>dag_next = 2, nodes = (\<lambda>_. lnk_SearchNode_init 0) (1 := lnk_SearchNode_init rootDbIndex)\<rparr>"

text \<open>The pointer to a node is its link; the result is the status with the link.\<close>

definition lnk_SearchDag_get :: "nat \<Rightarrow> lnk_Status \<times> nat" where
  "lnk_SearchDag_get link =
     (if link > 0 \<and> link \<le> LNK_MAX_DAG_NODES then (st_ok, link) else (lnk_Status_init1 LNK_INTERNAL_ERROR2, 0))"

definition set_node :: "nat \<Rightarrow> (lnk_SearchNode \<Rightarrow> lnk_SearchNode) \<Rightarrow> lnk_SearchDag \<Rightarrow> lnk_SearchDag" where
  "set_node i f dag = dag\<lparr>nodes := (nodes dag)(i := f (nodes dag i))\<rparr>"

definition lnk_SearchDag_addChild :: "nat \<Rightarrow> int \<Rightarrow> lnk_SearchDag \<Rightarrow> lnk_Status \<times> nat \<times> lnk_SearchDag" where
  "lnk_SearchDag_addChild parentLink childDbIndex dag =
     (let (st, parent) = lnk_SearchDag_get parentLink in
      if \<not> is_ok st then (st, 0, dag)
      else if dag_next dag > LNK_MAX_DAG_NODES then (lnk_Status_init1 LNK_TOO_MANY_DEPENDENCIES, 0, dag)
      else let new = dag_next dag;
               dag = set_node new (\<lambda>_. lnk_SearchNode_init childDbIndex) (dag\<lparr>dag_next := new + 1\<rparr>) in
        if lastChild (nodes dag parent) = 0
        then (st_ok, new, set_node parent (\<lambda>n. n\<lparr>child := new, lastChild := new\<rparr>) dag)
        else let (st, sb) = lnk_SearchDag_get (lastChild (nodes dag parent)) in
          if \<not> is_ok st then (st, 0, dag)
          else (st_ok, new, set_node parent (\<lambda>n. n\<lparr>lastChild := new\<rparr>) (set_node sb (\<lambda>n. n\<lparr>sib := new\<rparr>) dag)))"

subsection \<open>The world of the linker\<close>

text \<open>
  What a link changes: memory, the table of exception sections with the regions, and the
  loader's own state \<open>ldr\<close>. The loader and the code of the loaded images are parameters:
  \<open>ldr_lookup\<close> and \<open>ldr_load\<close> get an image by the address of its name, \<open>ldr_load\<close> with the
  header address (0 on failure) and the status; \<open>run_init\<close> is a call of an initialisation
  function, \<open>run_prefs\<close> and \<open>run_prelude\<close> those of the symbols the linker looks up, whose names
  the image has at the three addresses \<open>nm_options\<close>, \<open>nm_prelude\<close> and \<open>nm_preferences\<close>.
  \<open>before_info\<close> is what the stack holds in front of the database, read as an object.
\<close>

record 'l world =
  mem :: ram
  exidx_tab :: exidx_state
  ldr :: 'l

record 'l system =
  ldr_lookup :: "u32 \<Rightarrow> 'l world \<Rightarrow> u32"
  ldr_load :: "u32 \<Rightarrow> 'l world \<Rightarrow> (u32 \<times> u32) \<times> 'l world"
  ldr_fixup :: "u32 \<Rightarrow> 'l world \<Rightarrow> 'l world"
  ldr_install :: "u32 \<Rightarrow> 'l world \<Rightarrow> 'l world"
  run_init :: "u32 \<Rightarrow> 'l world \<Rightarrow> 'l world"
  run_prefs :: "u32 \<Rightarrow> u32 \<Rightarrow> 'l world \<Rightarrow> u32 \<times> 'l world"
  run_prelude :: "u32 \<Rightarrow> u32 \<Rightarrow> u32 \<Rightarrow> 'l world \<Rightarrow> u32 \<times> 'l world"
  nm_options :: u32
  nm_prelude :: u32
  nm_preferences :: u32
  before_info :: "'l world \<Rightarrow> elf_Object"

subsection \<open>The object database\<close>

record lnk_ObjInfo =
  elfObject :: elf_Object
  soname :: u32
  dagState :: lnk_DagState
  dag :: nat
  prefsOverride :: u32
  bound :: bool
  installable :: bool

type_synonym lnk_ObjDb = "lnk_ObjInfo list"

definition lnk_ObjDb_init :: lnk_ObjDb where "lnk_ObjDb_init = []"

definition lnk_ObjDb_add ::
    "ram \<Rightarrow> u32 \<Rightarrow> lnk_DagState \<Rightarrow> bool \<Rightarrow> u32 \<Rightarrow> lnk_ObjDb \<Rightarrow> (lnk_Status \<times> int \<times> lnk_ObjDb) option" where
  "lnk_ObjDb_add m objAddr state bnd so db =
     (if length db \<ge> LNK_MAX_ELF_OBJECTS then Some (lnk_Status_init1 LNK_TOO_MANY_OBJECTS, - 1, db)
      else do {
        (elfstatus, obj) \<leftarrow> elf_Object_init m objAddr;
        if LNK_OK \<noteq> elfstatus then Some (lnk_Status_init1 elfstatus, - 1, db)
        else Some (st_ok, int (length db),
               db @ [\<lparr>elfObject = obj, soname = so, dagState = state, dag = 0, prefsOverride = 0,
                      bound = bnd, installable = True\<rparr>]) })"

fun lookup_from :: "nat \<Rightarrow> u32 \<Rightarrow> lnk_ObjInfo list \<Rightarrow> int" where
  "lookup_from i objAddr [] = - 1"
| "lookup_from i objAddr (info # infos) =
     (if objAddr = header (elfObject info) then int i else lookup_from (Suc i) objAddr infos)"

definition lnk_ObjDb_lookup :: "lnk_ObjDb \<Rightarrow> u32 \<Rightarrow> int" where
  "lnk_ObjDb_lookup db objAddr = lookup_from 0 objAddr db"

definition lnk_ObjDb_get :: "lnk_ObjDb \<Rightarrow> int \<Rightarrow> lnk_Status \<times> nat" where
  "lnk_ObjDb_get db index =
     (if index \<ge> 0 \<and> index < int (length db) then (st_ok, nat index) else (lnk_Status_init1 LNK_INTERNAL_ERROR1, 0))"

text \<open>
  When adding the loaded object fails, the source passes \<open>info[-1]\<close> to \<open>rememberExidx\<close>, which
  lies in front of the array.
\<close>

definition lnk_ObjDb_addNeeded ::
    "'l system \<Rightarrow> u32 \<Rightarrow> lnk_ObjDb \<Rightarrow> 'l world \<Rightarrow> (lnk_Status \<times> int \<times> lnk_ObjDb \<times> 'l world) option" where
  "lnk_ObjDb_addNeeded sys neededSoname db w =
     (let addr = ldr_lookup sys neededSoname w; loadNow = (addr = 0); index = lnk_ObjDb_lookup db addr in
      if index \<ge> 0 then Some (st_ok, index, db, w)
      else if \<not> loadNow then do {
        (st, index, db) \<leftarrow> lnk_ObjDb_add (mem w) addr LNK_DAG_NOT_STARTED True neededSoname db;
        Some (st, index, db, w) }
      else let ((elfaddr, ldrstat), w) = ldr_load sys neededSoname w in
        if elfaddr = 0 then Some (lnk_Status_init2 ldrstat neededSoname, - 1, db, w)
        else do {
          (st, index, db) \<leftarrow> lnk_ObjDb_add (mem w) elfaddr LNK_DAG_NOT_STARTED False neededSoname db;
          let obj = (if index < 0 then before_info sys w else elfObject (db ! nat index));
          ex \<leftarrow> rememberExidx (mem w) obj (exidx_tab w);
          Some (st, index, db, w\<lparr>exidx_tab := ex\<rparr>) })"

end
