(* ===== verification/Relocate.thy ===== *)
theory Relocate
  imports LnkDb
begin

text \<open>
  Relocation: \<^verbatim>\<open>relocate\<close> and \<^verbatim>\<open>modifyObject\<close> of the dynamic linker (\<^verbatim>\<open>tool/elf/src/linker.c\<close>) and the
  self-contained variants that relocate the operating system image at boot
  (\<^verbatim>\<open>tool/elf/src/relocator.c\<close>). The theorems: each relocation target gets the value of the
  ABI and nothing else changes; both files do the same to an image without external symbols.
\<close>

subsection \<open>One relocation\<close>

definition R_ARM_ABS32 :: u32 where "R_ARM_ABS32 = 2"
definition R_ARM_REL32 :: u32 where "R_ARM_REL32 = 3"
definition R_ARM_GLOB_DAT :: u32 where "R_ARM_GLOB_DAT = 21"
definition R_ARM_JUMP_SLOT :: u32 where "R_ARM_JUMP_SLOT = 22"
definition R_ARM_RELATIVE :: u32 where "R_ARM_RELATIVE = 23"

lemmas reloc_types = R_ARM_ABS32_def R_ARM_REL32_def R_ARM_GLOB_DAT_def R_ARM_JUMP_SLOT_def R_ARM_RELATIVE_def

text \<open>The pair of the symbol value and the Thumb bit.\<close>

definition splitInterwork :: "u32 \<Rightarrow> u32 \<Rightarrow> u32 \<times> u32" where
  "splitInterwork origValue symType =
     (if symType = STT_FUNC then (origValue AND NOT 1, origValue AND 1) else (origValue, 0))"

definition modifyObject :: "u32 \<Rightarrow> u32 \<Rightarrow> u32 \<Rightarrow> u32 \<Rightarrow> u32 \<Rightarrow> ram \<Rightarrow> lnk_Status \<times> ram" where
  "modifyObject rtype wh symbolValue th baseaddr m =
     (if rtype = R_ARM_JUMP_SLOT then (st_ok, st32 wh (symbolValue OR th) m)
      else if rtype = R_ARM_GLOB_DAT \<or> rtype = R_ARM_ABS32 then (st_ok, st32 wh ((ld32 m wh + symbolValue) OR th) m)
      else if rtype = R_ARM_RELATIVE then (st_ok, st32 wh (ld32 m wh + baseaddr) m)
      else if rtype = R_ARM_REL32 then (st_ok, st32 wh ((ld32 m wh + symbolValue - wh) OR th) m)
      else (lnk_Status_init1 LNK_BAD_RELOCATION_TYPE, m))"

subsection \<open>The dynamic linker\<close>

text \<open>The search through the objects on the NEEDED list: the object and symbol found.\<close>

partial_function (option) scope_search ::
    "ram \<Rightarrow> lnk_ObjDb \<Rightarrow> lnk_SearchDag \<Rightarrow> u32 \<Rightarrow> u32 \<Rightarrow> nat \<Rightarrow> (lnk_Status \<times> (elf_Object \<times> u32) option) option" where
  "scope_search m objDb searchDag hash name nextLink =
     (if nextLink \<noteq> 0
      then let (st, search) = lnk_SearchDag_get nextLink in
        if \<not> is_ok st then Some (st, None)
        else let (st, inf) = lnk_ObjDb_get objDb (dbIndex (nodes searchDag search)) in
          if \<not> is_ok st then Some (st, None)
          else let otherObj = elfObject (objDb ! inf) in do {
            otherSymbol \<leftarrow> elf_Object_lookup m otherObj hash name;
            if otherSymbol \<noteq> 0 then Some (st, Some (otherObj, otherSymbol))
            else scope_search m objDb searchDag hash name (sib (nodes searchDag search)) }
      else Some (st_ok, None))"

record SymbolCache =
  symIndex :: u32
  symval :: u32
  thumb :: u32

text \<open>
  The value of an undefined symbol: \<open>Inl\<close> the status with which \<open>relocate\<close> returns, \<open>Inr\<close>
  value and Thumb bit.
\<close>

definition external_value ::
    "ram \<Rightarrow> lnk_ObjDb \<Rightarrow> lnk_SearchDag \<Rightarrow> lnk_ObjInfo \<Rightarrow> u32 \<Rightarrow> (lnk_Status + u32 \<times> u32) option" where
  "external_value m objDb searchDag currentObject symbol =
     (let obj = elfObject currentObject; name = elf_Symbol_name m symbol (dynStringtab obj) in do {
        hash \<leftarrow> elf_Object_hash m obj name;
        (st, found) \<leftarrow> scope_search m objDb searchDag hash name (dag currentObject);
        if \<not> is_ok st then Some (Inl st)
        else case found of
          None \<Rightarrow> if \<not> elf_Symbol_isWeak m symbol then Some (Inl (lnk_Status_init1 LNK_UNDEFINED_SYMBOLS)) else Some (Inr (0, 0))
        | Some (otherObj, otherSymbol) \<Rightarrow>
            Some (Inr (splitInterwork (elf_Object_getSymbolValue m otherObj otherSymbol) (elf_Symbol_type m otherSymbol))) })"

text \<open>One round of the loop: whether to go on, with the status, the cache and memory.\<close>

definition reloc_step ::
    "lnk_ObjDb \<Rightarrow> lnk_SearchDag \<Rightarrow> lnk_ObjInfo \<Rightarrow> u32 \<Rightarrow> SymbolCache \<Rightarrow> ram \<Rightarrow> (bool \<times> lnk_Status \<times> SymbolCache \<times> ram) option" where
  "reloc_step objDb searchDag currentObject rel symCache m =
     (let obj = elfObject currentObject; rtype = elf_Rel_type m rel; index = elf_Rel_symbolIndex m rel;
          wh = elf_Rel_target m rel (baseAddress obj); symbol = symbol_at (dynSymboltab obj) index;
          modify = (\<lambda>(sv, th) cache. let (st, m) = modifyObject rtype wh sv th (baseAddress obj) m in Some (True, st, cache, m)) in
      if index = 0 then modify (0, 0) symCache
      else if elf_Symbol_isDefinition m symbol
        then modify (splitInterwork (elf_Object_getSymbolValue m obj symbol) (elf_Symbol_type m symbol)) symCache
      else if index = symIndex symCache then modify (symval symCache, thumb symCache) symCache
      else do {
        v \<leftarrow> external_value m objDb searchDag currentObject symbol;
        case v of
          Inl st \<Rightarrow> Some (False, st, symCache, m)
        | Inr (sv, th) \<Rightarrow> modify (sv, th) \<lparr>symIndex = index, symval = sv, thumb = th\<rparr> })"

fun reloc_loop ::
    "lnk_ObjDb \<Rightarrow> lnk_SearchDag \<Rightarrow> lnk_ObjInfo \<Rightarrow> u32 list \<Rightarrow> lnk_Status \<Rightarrow> SymbolCache \<Rightarrow> ram \<Rightarrow> (lnk_Status \<times> ram) option" where
  "reloc_loop objDb searchDag currentObject [] st cache m = Some (st, m)"
| "reloc_loop objDb searchDag currentObject (rel # rels) st cache m = do {
     (go, st, cache, m) \<leftarrow> reloc_step objDb searchDag currentObject rel cache m;
     if go then reloc_loop objDb searchDag currentObject rels st cache m else Some (st, m) }"

definition rel_at :: "u32 \<Rightarrow> nat \<Rightarrow> u32" where "rel_at relArray i = relArray + 8 * of_nat i"

definition relocate ::
    "lnk_ObjDb \<Rightarrow> lnk_SearchDag \<Rightarrow> lnk_ObjInfo \<Rightarrow> u32 \<Rightarrow> u32 \<Rightarrow> ram \<Rightarrow> (lnk_Status \<times> ram) option" where
  "relocate objDb searchDag currentObject relArray n m =
     reloc_loop objDb searchDag currentObject (map (rel_at relArray) [0 ..< unat n]) st_ok
       \<lparr>symIndex = 0xffffffff, symval = 0, thumb = 0\<rparr> m"

subsection \<open>The relocator of the operating system image\<close>

record rts_Object =
  r_header :: u32
  r_phdrtab :: u32
  r_numPhdr :: u32
  r_dyntab :: u32
  r_dynSymboltab :: u32
  r_baseAddress :: u32
  r_reltab :: u32
  r_numRels :: u32
  r_pltReltab :: u32
  r_numPltRels :: u32

partial_function (option) rts_scan_dynamic :: "ram \<Rightarrow> u32 \<Rightarrow> rts_Object \<Rightarrow> rts_Object option" where
  "rts_scan_dynamic m dyn obj =
     (if \<not> elf_Dynamic_isSentinel m dyn
      then let base = r_baseAddress obj in
        rts_scan_dynamic m (dyn + 8)
          (obj\<lparr>r_dynSymboltab := or_old (elf_Dynamic_symtabAddr m dyn base) (r_dynSymboltab obj),
               r_reltab := or_old (elf_Dynamic_reltabAddr m dyn base) (r_reltab obj),
               r_pltReltab := or_old (elf_Dynamic_pltReltabAddr m dyn base) (r_pltReltab obj),
               r_numRels := or_old (elf_Dynamic_numRels m dyn) (r_numRels obj),
               r_numPltRels := or_old (elf_Dynamic_numPltRels m dyn) (r_numPltRels obj)\<rparr>)
      else Some obj)"

definition rts_Object_init :: "ram \<Rightarrow> u32 \<Rightarrow> (u32 \<times> rts_Object) option" where
  "rts_Object_init m headerAddr =
     (let obj = \<lparr>r_header = headerAddr, r_phdrtab = 0, r_numPhdr = 0, r_dyntab = 0, r_dynSymboltab = 0, r_baseAddress = 0,
                 r_reltab = 0, r_numRels = 0, r_pltReltab = 0, r_numPltRels = 0\<rparr> in
      if elf_Header_check m headerAddr \<noteq> ELF_OK then Some (elf_Header_check m headerAddr, obj)
      else let n = elf_Header_numPhdr m headerAddr; tab = elf_Header_addrPhdr m headerAddr; sc = scan_phdrs m tab n;
        base = headerAddr - lowVaddr sc;
        obj = obj\<lparr>r_numPhdr := n, r_phdrtab := tab, r_baseAddress := base\<rparr> in
      if missing_segments sc \<noteq> ELF_OK then Some (missing_segments sc, obj)
      else let dyn = base + elf_Pheader_virtAddr m (dynamic_ph sc) in do {
        obj \<leftarrow> rts_scan_dynamic m dyn (obj\<lparr>r_dyntab := dyn\<rparr>);
        Some (flag_if (r_dynSymboltab obj = 0) ELF_NO_DYNAMIC_SYMBOLS, obj) })"

definition rts_getSymbolValue :: "ram \<Rightarrow> rts_Object \<Rightarrow> u32 \<Rightarrow> u32" where
  "rts_getSymbolValue m obj symbol =
     (if elf_Symbol_isAbsolute m symbol then elf_Symbol_value m symbol else elf_Symbol_value m symbol + r_baseAddress obj)"

definition rts_modifyObject :: "u32 \<Rightarrow> u32 \<Rightarrow> u32 \<Rightarrow> u32 \<Rightarrow> u32 \<Rightarrow> ram \<Rightarrow> u32 \<times> ram" where
  "rts_modifyObject rtype wh symbolValue th baseaddr m =
     (if rtype = R_ARM_JUMP_SLOT then (LNK_OK, st32 wh (symbolValue OR th) m)
      else if rtype = R_ARM_GLOB_DAT \<or> rtype = R_ARM_ABS32 then (LNK_OK, st32 wh ((ld32 m wh + symbolValue) OR th) m)
      else if rtype = R_ARM_RELATIVE then (LNK_OK, st32 wh (ld32 m wh + baseaddr) m)
      else if rtype = R_ARM_REL32 then (LNK_OK, st32 wh ((ld32 m wh + symbolValue - wh) OR th) m)
      else (LNK_BAD_RELOCATION_TYPE, m))"

definition rts_reloc_step :: "rts_Object \<Rightarrow> u32 \<Rightarrow> ram \<Rightarrow> u32 \<times> ram" where
  "rts_reloc_step obj rel m =
     (let rtype = elf_Rel_type m rel; index = elf_Rel_symbolIndex m rel;
          wh = elf_Rel_target m rel (r_baseAddress obj); symbol = symbol_at (r_dynSymboltab obj) index in
      if index = 0 then rts_modifyObject rtype wh 0 0 (r_baseAddress obj) m
      else if elf_Symbol_isDefinition m symbol
        then let (sv, th) = splitInterwork (rts_getSymbolValue m obj symbol) (elf_Symbol_type m symbol)
             in rts_modifyObject rtype wh sv th (r_baseAddress obj) m
      else if elf_Symbol_isWeak m symbol then rts_modifyObject rtype wh 0 0 (r_baseAddress obj) m
      else (LNK_UNDEFINED_SYMBOLS, m))"

fun rts_reloc_loop :: "rts_Object \<Rightarrow> u32 list \<Rightarrow> ram \<Rightarrow> u32 \<times> ram" where
  "rts_reloc_loop obj [] m = (LNK_OK, m)"
| "rts_reloc_loop obj (rel # rels) m =
     (let (st, m) = rts_reloc_step obj rel m in if st = 0 then rts_reloc_loop obj rels m else (st, m))"

definition rts_relocate :: "rts_Object \<Rightarrow> u32 \<Rightarrow> u32 \<Rightarrow> ram \<Rightarrow> u32 \<times> ram" where
  "rts_relocate obj relArray n m = rts_reloc_loop obj (map (rel_at relArray) [0 ..< unat n]) m"

text \<open>The entry point; \<open>run_start\<close> is the code of the operating system, started when all is well.\<close>

definition lnk_relocate :: "(ram \<Rightarrow> ram) \<Rightarrow> ram \<Rightarrow> (u32 \<times> ram) option" where
  "lnk_relocate run_start m = do {
     (status, elf) \<leftarrow> rts_Object_init m RTS_START;
     if status \<noteq> 0 then Some (status, m)
     else let (status, m) = rts_relocate elf (r_reltab elf) (r_numRels elf) m in
       if status \<noteq> 0 then Some (status, m)
       else let (status, m) = rts_relocate elf (r_pltReltab elf) (r_numPltRels elf) m in
         if status \<noteq> 0 then Some (status, m) else Some (status, run_start m) }"


subsection \<open>The values of the ABI\<close>

text \<open>
  The ARM ELF ABI's operation of each relocation type on the place \<open>P\<close> with symbol \<open>S\<close>, Thumb
  bit \<open>T\<close>, base \<open>B\<close> and addend \<open>A\<close>; a PLT entry ignores the addend, as linking is never lazy.
\<close>

definition abi_value :: "u32 \<Rightarrow> u32 \<Rightarrow> u32 \<Rightarrow> u32 \<Rightarrow> u32 \<Rightarrow> u32 \<Rightarrow> u32" where
  "abi_value rtype P S T B A =
     (if rtype = R_ARM_JUMP_SLOT then S OR T
      else if rtype = R_ARM_RELATIVE then B + A
      else if rtype = R_ARM_REL32 then ((S + A) OR T) - P
      else (S + A) OR T)"

definition known_type :: "u32 \<Rightarrow> bool" where
  "known_type rtype \<longleftrightarrow> rtype \<in> {R_ARM_JUMP_SLOT, R_ARM_GLOB_DAT, R_ARM_ABS32, R_ARM_RELATIVE, R_ARM_REL32}"

lemma or_bit0: "x OR (1 :: u32) = (if even x then x + 1 else x)"
  by (simp add: or_one_eq)

lemma rel32_abi: "even P \<Longrightarrow> T = 0 \<or> T = 1 \<Longrightarrow> (A + S - P) OR T = ((S + A) OR T) - (P :: u32)"
proof (elim disjE)
  assume e: "even P" and T: "T = 1"
  have "even (A + S - P) \<longleftrightarrow> even (S + A)"
    using e by (simp add: even_diff_iff [symmetric] add.commute)
  then show "(A + S - P) OR T = ((S + A) OR T) - P" by (simp add: T or_bit0 algebra_simps)
qed (simp add: algebra_simps)

lemma reloc_types_distinct:
  "R_ARM_JUMP_SLOT \<noteq> R_ARM_RELATIVE" "R_ARM_JUMP_SLOT \<noteq> R_ARM_REL32" "R_ARM_RELATIVE \<noteq> R_ARM_REL32"
  "R_ARM_GLOB_DAT \<noteq> R_ARM_JUMP_SLOT" "R_ARM_GLOB_DAT \<noteq> R_ARM_RELATIVE" "R_ARM_GLOB_DAT \<noteq> R_ARM_REL32"
  "R_ARM_ABS32 \<noteq> R_ARM_JUMP_SLOT" "R_ARM_ABS32 \<noteq> R_ARM_RELATIVE" "R_ARM_ABS32 \<noteq> R_ARM_REL32"
  by (simp_all add: reloc_types)

lemma modifyObject_abi:
  assumes "known_type rtype" and "even wh" and "th = 0 \<or> th = 1"
  shows "modifyObject rtype wh sv th base m = (st_ok, st32 wh (abi_value rtype wh sv th base (ld32 m wh)) m)"
proof -
  have e: "(sv + ld32 m wh - wh) OR th = ((sv + ld32 m wh) OR th) - wh"
    using rel32_abi [OF assms(2,3)] by (simp add: add.commute)
  note d = reloc_types_distinct reloc_types_distinct [symmetric]
  from assms(1) show ?thesis
    unfolding known_type_def insert_iff empty_iff
    by (elim disjE) (simp_all only: modifyObject_def abi_value_def e d simp_thms if_True if_False add.commute [of _ sv] add.commute [of base])
qed

lemma rts_modifyObject_eq:
  "rts_modifyObject rtype wh sv th base m = (let (st, m') = modifyObject rtype wh sv th base m in (status st, m'))"
  by (simp add: rts_modifyObject_def modifyObject_def)

subsection \<open>Words in memory\<close>

definition word_bytes :: "u32 \<Rightarrow> u32 set" where "word_bytes a = {a, a + 1, a + 2, a + 3}"

definition word_aligned :: "u32 \<Rightarrow> bool" where "word_aligned a \<longleftrightarrow> 4 dvd unat a"

definition same_outside :: "u32 set \<Rightarrow> ram \<Rightarrow> ram \<Rightarrow> bool" where
  "same_outside W m m' \<longleftrightarrow> (\<forall>a. a \<notin> W \<longrightarrow> m' a = m a)"

lemma same_outside_refl: "same_outside W m m"
  by (simp add: same_outside_def)

lemma same_outside_trans: "same_outside W m m' \<Longrightarrow> same_outside W m' m'' \<Longrightarrow> same_outside W m m''"
  by (simp add: same_outside_def)

lemma same_outside_mono: "same_outside W m m' \<Longrightarrow> W \<subseteq> W' \<Longrightarrow> same_outside W' m m'"
  by (auto simp: same_outside_def)

lemma same_outside_st32: "word_bytes a \<subseteq> W \<Longrightarrow> same_outside W m (st32 a w m)"
  by (auto simp: same_outside_def word_bytes_def st32_def)

lemma ld32_same: "same_outside W m m' \<Longrightarrow> word_bytes a \<inter> W = {} \<Longrightarrow> ld32 m' a = ld32 m a"
  by (auto simp: same_outside_def word_bytes_def ld32_def)

lemma ld32_st32 [simp]: "ld32 (st32 a w m) a = w"
  by (rule bit_word_eqI)
    (auto simp: ld32_def st32_def bit_le_word bit_simps)

lemma even_aligned:
  assumes "word_aligned a"
  shows "even a"
proof -
  obtain q where q: "unat a = 4 * q" using assms by (auto simp: word_aligned_def)
  have "of_nat (unat a) = a" by simp
  then have "2 * of_nat (2 * q) = a" unfolding q by simp
  then have "2 dvd a" by (metis dvd_triv_left)
  then show ?thesis by simp
qed

lemma word_bytes_block: 
  assumes "word_aligned a" and "x \<in> word_bytes a"
  shows "unat x div 4 = unat a div 4"
proof -
  obtain q where q: "unat a = 4 * q" using assms(1) by (auto simp: word_aligned_def)
  have "unat a < 2 ^ 32" using unsigned_less [of a] by (simp del: unsigned_less)
  then have lt: "4 * q + k < 2 ^ 32" if "k < 4" for k using q that by simp
  have "of_nat (unat a) = a" by simp
  then have a: "a = of_nat (4 * q)" unfolding q by (rule sym)
  have u: "unat (a + of_nat k) = 4 * q + k" if "k < 4" for k
    using unat_of_nat_u32 [OF lt [OF that]] by (simp only: a of_nat_add)
  have "unat x = 4 * q \<or> unat x = 4 * q + 1 \<or> unat x = 4 * q + 2 \<or> unat x = 4 * q + 3"
    using assms(2) u [of 0] u [of 1] u [of 2] u [of 3] by (auto simp: word_bytes_def)
  then show ?thesis using q by auto
qed

lemma aligned_disjoint:
  assumes "word_aligned a" and "word_aligned b" and "a \<noteq> b"
  shows "word_bytes a \<inter> word_bytes b = {}"
proof (rule ccontr)
  assume "word_bytes a \<inter> word_bytes b \<noteq> {}"
  then obtain x where "x \<in> word_bytes a" "x \<in> word_bytes b" by blast
  then have "unat a div 4 = unat b div 4" using word_bytes_block assms(1,2) by metis
  then have "unat a = unat b" using assms(1,2) unfolding word_aligned_def by (metis dvd_div_mult_self)
  then show False using assms(3) by (simp add: word_unat_eq_iff)
qed

lemma ld32_st32_other:
  assumes "word_aligned a" and "word_aligned b" and "a \<noteq> b"
  shows "ld32 (st32 a w m) b = ld32 m b"
  by (rule ld32_same [OF same_outside_st32 [OF subset_refl]]) (use aligned_disjoint assms in blast)

subsection \<open>Patches\<close>

text \<open>A patch: type, place, symbol value and Thumb bit of a relocation.\<close>

type_synonym patch = "u32 \<times> u32 \<times> u32 \<times> u32"

definition place :: "patch \<Rightarrow> u32" where "place p = fst (snd p)"

definition patch_value :: "u32 \<Rightarrow> ram \<Rightarrow> patch \<Rightarrow> u32" where
  "patch_value B m = (\<lambda>(rtype, P, S, T). abi_value rtype P S T B (ld32 m P))"

definition apply_patch :: "u32 \<Rightarrow> patch \<Rightarrow> ram \<Rightarrow> ram" where
  "apply_patch B p m = st32 (place p) (patch_value B m p) m"

definition places :: "patch list \<Rightarrow> u32 set" where
  "places ps = (\<Union>p \<in> set ps. word_bytes (place p))"

lemma patch_value_same: "ld32 m' (place p) = ld32 m (place p) \<Longrightarrow> patch_value B m' p = patch_value B m p"
  by (cases p) (simp add: patch_value_def place_def)

lemma same_outside_patch: "word_bytes (place p) \<subseteq> W \<Longrightarrow> same_outside W m (apply_patch B p m)"
  by (simp add: apply_patch_def same_outside_st32)

lemma fold_patches_outside: "same_outside (places ps) m (fold (apply_patch B) ps m)"
proof (induction ps arbitrary: m)
  case (Cons p ps)
  have "same_outside (places (p # ps)) m (apply_patch B p m)" by (rule same_outside_patch) (auto simp: places_def)
  moreover have "same_outside (places (p # ps)) (apply_patch B p m) (fold (apply_patch B) ps (apply_patch B p m))"
    by (rule same_outside_mono [OF Cons.IH]) (auto simp: places_def)
  ultimately show ?case by (simp add: same_outside_trans)
qed (simp add: same_outside_refl)

lemma fold_patches_value:
  "distinct (map place ps) \<Longrightarrow> \<forall>p \<in> set ps. word_aligned (place p) \<Longrightarrow> p \<in> set ps \<Longrightarrow>
    ld32 (fold (apply_patch B) ps m) (place p) = patch_value B m p"
proof (induction ps arbitrary: m)
  case (Cons q ps)
  let ?m = "apply_patch B q m"
  have apart: "word_bytes (place r) \<inter> word_bytes (place q) = {}" if "r \<in> set ps" for r
    using Cons.prems(1,2) that by (intro aligned_disjoint) (auto simp: image_iff)
  show ?case
  proof (cases "p = q")
    case True
    have "places ps \<inter> word_bytes (place q) = {}" using apart unfolding places_def by blast
    then have "ld32 (fold (apply_patch B) ps ?m) (place q) = ld32 ?m (place q)"
      by (intro ld32_same [OF fold_patches_outside]) (simp only: Int_commute)
    moreover have "ld32 ?m (place q) = patch_value B m q" by (simp add: apply_patch_def)
    ultimately show ?thesis using True by simp
  next
    case False
    then have p: "p \<in> set ps" using Cons.prems(3) by simp
    have "ld32 ?m (place p) = ld32 m (place p)"
      by (rule ld32_same [OF same_outside_patch [OF subset_refl]]) (rule apart [OF p])
    then show ?thesis using Cons.IH [of ?m] Cons.prems(1,2) p by (simp add: patch_value_same [of ?m])
  qed
qed simp

subsection \<open>Symbols and what a relocation reads\<close>

text \<open>The value of a symbol: its own definition, or that of the first object in scope.\<close>

definition resolution ::
    "lnk_ObjDb \<Rightarrow> lnk_SearchDag \<Rightarrow> lnk_ObjInfo \<Rightarrow> ram \<Rightarrow> u32 \<Rightarrow> (lnk_Status + u32 \<times> u32) option" where
  "resolution objDb searchDag cur m index =
     (let obj = elfObject cur; symbol = symbol_at (dynSymboltab obj) index in
      if index = 0 then Some (Inr (0, 0))
      else if elf_Symbol_isDefinition m symbol
        then Some (Inr (splitInterwork (elf_Object_getSymbolValue m obj symbol) (elf_Symbol_type m symbol)))
      else external_value m objDb searchDag cur symbol)"

definition resolved :: "lnk_ObjDb \<Rightarrow> lnk_SearchDag \<Rightarrow> lnk_ObjInfo \<Rightarrow> ram \<Rightarrow> u32 \<Rightarrow> u32 \<times> u32" where
  "resolved objDb searchDag cur m index =
     (case resolution objDb searchDag cur m index of Some (Inr v) \<Rightarrow> v | _ \<Rightarrow> (0, 0))"

definition rel_patch :: "lnk_ObjDb \<Rightarrow> lnk_SearchDag \<Rightarrow> lnk_ObjInfo \<Rightarrow> ram \<Rightarrow> u32 \<Rightarrow> patch" where
  "rel_patch objDb searchDag cur m rel =
     (elf_Rel_type m rel, elf_Rel_target m rel (baseAddress (elfObject cur)),
      resolved objDb searchDag cur m (elf_Rel_symbolIndex m rel))"

text \<open>The bytes of a relocation entry and of its symbol.\<close>

definition rel_symbol :: "elf_Object \<Rightarrow> ram \<Rightarrow> u32 \<Rightarrow> u32" where
  "rel_symbol obj m rel = symbol_at (dynSymboltab obj) (elf_Rel_symbolIndex m rel)"

definition rel_reads :: "elf_Object \<Rightarrow> ram \<Rightarrow> u32 \<Rightarrow> u32 set" where
  "rel_reads obj m rel =
     word_bytes rel \<union> word_bytes (rel + 4) \<union> (\<lambda>k. rel_symbol obj m rel + of_nat k) ` {..< 16}"

lemma splitInterwork_thumb: "splitInterwork v t = (sv, th) \<Longrightarrow> th = 0 \<or> th = 1"
  by (auto simp: splitInterwork_def and_one_eq split: if_splits)

lemma resolution_thumb: "resolution objDb searchDag cur m index = Some (Inr (sv, th)) \<Longrightarrow> th = 0 \<or> th = 1"
  by (auto simp: resolution_def external_value_def Let_def bind_eq_Some_conv
      split: if_splits option.splits prod.splits dest: splitInterwork_thumb)

lemma symbolIndex_cache: "elf_Rel_symbolIndex m rel \<noteq> 0xffffffff"
proof
  assume a: "elf_Rel_symbolIndex m rel = 0xffffffff"
  have "bit (elf_Rel_symbolIndex m rel) 31 = bit (0xffffffff :: u32) 31" unfolding a by (rule refl)
  then show False by (auto simp: elf_Rel_symbolIndex_def bit_drop_bit_eq dest: bit_imp_le_length)
qed

text \<open>What a relocation reads of its own object is the same in memory that differs elsewhere.\<close>

lemma rel_entry_same:
  assumes "same_outside W m m'" and "rel_reads obj m rel \<inter> W = {}"
  shows "elf_Rel_type m' rel = elf_Rel_type m rel" "elf_Rel_symbolIndex m' rel = elf_Rel_symbolIndex m rel"
    "elf_Rel_target m' rel base = elf_Rel_target m rel base"
proof -
  have "word_bytes rel \<inter> W = {}" "word_bytes (rel + 4) \<inter> W = {}" using assms(2) by (auto simp: rel_reads_def)
  note w = ld32_same [OF assms(1) this(1)] ld32_same [OF assms(1) this(2)]
  show "elf_Rel_type m' rel = elf_Rel_type m rel" "elf_Rel_symbolIndex m' rel = elf_Rel_symbolIndex m rel"
    "elf_Rel_target m' rel base = elf_Rel_target m rel base"
    by (simp_all add: elf_Rel_type_def elf_Rel_symbolIndex_def elf_Rel_target_def w)
qed

lemma rel_symbol_same:
  assumes "same_outside W m m'" and "rel_reads obj m rel \<inter> W = {}"
  shows "elf_Symbol_isDefinition m' (rel_symbol obj m rel) = elf_Symbol_isDefinition m (rel_symbol obj m rel)"
    "elf_Symbol_isWeak m' (rel_symbol obj m rel) = elf_Symbol_isWeak m (rel_symbol obj m rel)"
    "elf_Symbol_type m' (rel_symbol obj m rel) = elf_Symbol_type m (rel_symbol obj m rel)"
    "elf_Symbol_value m' (rel_symbol obj m rel) = elf_Symbol_value m (rel_symbol obj m rel)"
    "elf_Symbol_isAbsolute m' (rel_symbol obj m rel) = elf_Symbol_isAbsolute m (rel_symbol obj m rel)"
proof -
  let ?s = "rel_symbol obj m rel"
  have b: "m' (?s + of_nat k) = m (?s + of_nat k)" if "k < 16" for k
  proof -
    have "?s + of_nat k \<in> rel_reads obj m rel" using that by (auto simp: rel_reads_def)
    then show ?thesis using assms by (auto simp: same_outside_def)
  qed
  from b [of 4] b [of 5] b [of 6] b [of 7] b [of 12] b [of 14] b [of 15]
  have e: "m' (?s + 4) = m (?s + 4)" "m' (?s + 4 + 1) = m (?s + 4 + 1)" "m' (?s + 4 + 2) = m (?s + 4 + 2)"
    "m' (?s + 4 + 3) = m (?s + 4 + 3)" "m' (?s + 12) = m (?s + 12)" "m' (?s + 14) = m (?s + 14)"
    "m' (?s + 14 + 1) = m (?s + 14 + 1)"
    by (simp_all add: add.assoc)
  show "elf_Symbol_isDefinition m' ?s = elf_Symbol_isDefinition m ?s" "elf_Symbol_isWeak m' ?s = elf_Symbol_isWeak m ?s"
    "elf_Symbol_type m' ?s = elf_Symbol_type m ?s" "elf_Symbol_value m' ?s = elf_Symbol_value m ?s"
    "elf_Symbol_isAbsolute m' ?s = elf_Symbol_isAbsolute m ?s"
    by (simp_all only: elf_Symbol_isDefinition_def elf_Symbol_isWeak_def elf_Symbol_type_def elf_Symbol_value_def
        elf_Symbol_isAbsolute_def elf_Symbol_section_def elf_Symbol_binding_def ld8_def ld16_def ld32_def e)
qed

subsection \<open>The loops\<close>

text \<open>
  What relocating an object needs: places that are aligned, distinct, of known type, apart from
  the entries and symbols that are read; resolved symbols, found by searches that do not depend
  on the contents of the places.
\<close>

definition relocation_ok :: "lnk_ObjDb \<Rightarrow> lnk_SearchDag \<Rightarrow> lnk_ObjInfo \<Rightarrow> u32 list \<Rightarrow> ram \<Rightarrow> bool" where
  "relocation_ok objDb searchDag cur rels m \<longleftrightarrow>
     (let obj = elfObject cur; patches = map (rel_patch objDb searchDag cur m) rels; W = places patches in
      distinct (map place patches) \<and>
      (\<forall>p \<in> set patches. word_aligned (place p) \<and> known_type (fst p)) \<and>
      (\<forall>rel \<in> set rels. rel_reads obj m rel \<inter> W = {} \<and>
         (\<exists>v. resolution objDb searchDag cur m (elf_Rel_symbolIndex m rel) = Some (Inr v)) \<and>
         (elf_Symbol_isDefinition m (rel_symbol obj m rel) \<or> elf_Rel_symbolIndex m rel = 0 \<or>
          (\<forall>m'. same_outside W m m' \<longrightarrow>
            external_value m' objDb searchDag cur (rel_symbol obj m rel) =
            external_value m objDb searchDag cur (rel_symbol obj m rel)))))"

definition cache_ok :: "lnk_ObjDb \<Rightarrow> lnk_SearchDag \<Rightarrow> lnk_ObjInfo \<Rightarrow> ram \<Rightarrow> SymbolCache \<Rightarrow> bool" where
  "cache_ok objDb searchDag cur m cache \<longleftrightarrow>
     symIndex cache = 0xffffffff \<or>
     resolution objDb searchDag cur m (symIndex cache) = Some (Inr (symval cache, thumb cache))"

lemma resolution_same:
  assumes "same_outside W m m'" and "rel_reads (elfObject cur) m rel \<inter> W = {}"
    and "elf_Symbol_isDefinition m (rel_symbol (elfObject cur) m rel) \<or> elf_Rel_symbolIndex m rel = 0 \<or>
      external_value m' objDb searchDag cur (rel_symbol (elfObject cur) m rel) =
      external_value m objDb searchDag cur (rel_symbol (elfObject cur) m rel)"
  shows "resolution objDb searchDag cur m' (elf_Rel_symbolIndex m rel) =
    resolution objDb searchDag cur m (elf_Rel_symbolIndex m rel)"
  using assms(3) rel_symbol_same [OF assms(1,2)]
  by (auto simp: resolution_def Let_def rel_symbol_def elf_Object_getSymbolValue_def)

text \<open>One step, in memory where the resolution is that of \<open>m\<close>.\<close>

lemma reloc_step_patch:
  assumes res: "resolution objDb searchDag cur m' (elf_Rel_symbolIndex m' rel) = Some (Inr (sv, th))"
    and pl: "known_type (elf_Rel_type m' rel)" "even (elf_Rel_target m' rel (baseAddress (elfObject cur)))"
    and cache: "symIndex cache = elf_Rel_symbolIndex m' rel \<longrightarrow> (symval cache, thumb cache) = (sv, th)"
  shows "\<exists>cache'. reloc_step objDb searchDag cur rel cache m' =
      Some (True, st_ok, cache', apply_patch (baseAddress (elfObject cur))
        (elf_Rel_type m' rel, elf_Rel_target m' rel (baseAddress (elfObject cur)), sv, th) m') \<and>
    (cache' = cache \<or> cache' = \<lparr>symIndex = elf_Rel_symbolIndex m' rel, symval = sv, thumb = th\<rparr>)"
proof -
  let ?i = "elf_Rel_symbolIndex m' rel"
  let ?symbol = "symbol_at (dynSymboltab (elfObject cur)) ?i"
  note mod = modifyObject_abi [OF pl resolution_thumb [OF res]]
  consider (none) "?i = 0" | (own) "?i \<noteq> 0" "elf_Symbol_isDefinition m' ?symbol"
    | (cached) "?i \<noteq> 0" "\<not> elf_Symbol_isDefinition m' ?symbol" "?i = symIndex cache"
    | (external) "?i \<noteq> 0" "\<not> elf_Symbol_isDefinition m' ?symbol" "?i \<noteq> symIndex cache"
    by blast
  then show ?thesis
  proof cases
    case none
    then have "sv = 0" "th = 0" using res by (simp_all add: resolution_def Let_def)
    then show ?thesis
      using none mod by (simp add: reloc_step_def Let_def apply_patch_def place_def patch_value_def)
  next
    case own
    then have "splitInterwork (elf_Object_getSymbolValue m' (elfObject cur) ?symbol) (elf_Symbol_type m' ?symbol) = (sv, th)"
      using res by (simp add: resolution_def Let_def)
    then show ?thesis
      using own mod by (simp add: reloc_step_def Let_def apply_patch_def place_def patch_value_def)
  next
    case cached
    then show ?thesis
      using cache mod by (simp add: reloc_step_def Let_def apply_patch_def place_def patch_value_def)
  next
    case external
    then have "external_value m' objDb searchDag cur ?symbol = Some (Inr (sv, th))"
      using res by (simp add: resolution_def Let_def)
    then show ?thesis
      using external mod by (simp add: reloc_step_def Let_def apply_patch_def place_def patch_value_def)
  qed
qed

lemma relocation_okD:
  assumes "relocation_ok objDb searchDag cur rels m" and "rel \<in> set rels"
  defines "W \<equiv> places (map (rel_patch objDb searchDag cur m) rels)"
  shows "rel_reads (elfObject cur) m rel \<inter> W = {}"
    and "resolution objDb searchDag cur m (elf_Rel_symbolIndex m rel) =
      Some (Inr (resolved objDb searchDag cur m (elf_Rel_symbolIndex m rel)))"
    and "known_type (elf_Rel_type m rel)"
    and "even (elf_Rel_target m rel (baseAddress (elfObject cur)))"
    and "same_outside W m m' \<Longrightarrow> elf_Symbol_isDefinition m (rel_symbol (elfObject cur) m rel) \<or> elf_Rel_symbolIndex m rel = 0 \<or>
      external_value m' objDb searchDag cur (rel_symbol (elfObject cur) m rel) =
      external_value m objDb searchDag cur (rel_symbol (elfObject cur) m rel)"
    and "word_bytes (place (rel_patch objDb searchDag cur m rel)) \<subseteq> W"
proof -
  note ok = assms(1) [unfolded relocation_ok_def Let_def]
  show "rel_reads (elfObject cur) m rel \<inter> W = {}" using ok assms(2) unfolding W_def by blast
  show "resolution objDb searchDag cur m (elf_Rel_symbolIndex m rel) =
      Some (Inr (resolved objDb searchDag cur m (elf_Rel_symbolIndex m rel)))"
    using ok assms(2) by (auto simp: resolved_def)
  have "word_aligned (place (rel_patch objDb searchDag cur m rel)) \<and> known_type (fst (rel_patch objDb searchDag cur m rel))"
    using ok assms(2) by simp
  then show "known_type (elf_Rel_type m rel)" "even (elf_Rel_target m rel (baseAddress (elfObject cur)))"
    by (simp_all add: rel_patch_def place_def even_aligned)
  show "same_outside W m m' \<Longrightarrow> elf_Symbol_isDefinition m (rel_symbol (elfObject cur) m rel) \<or> elf_Rel_symbolIndex m rel = 0 \<or>
      external_value m' objDb searchDag cur (rel_symbol (elfObject cur) m rel) =
      external_value m objDb searchDag cur (rel_symbol (elfObject cur) m rel)"
    using ok assms(2) unfolding W_def by blast
  show "word_bytes (place (rel_patch objDb searchDag cur m rel)) \<subseteq> W" using assms(2) by (auto simp: W_def places_def)
qed

lemma reloc_loop_patches:
  assumes ok: "relocation_ok objDb searchDag cur all m"
  shows "set rels \<subseteq> set all \<Longrightarrow> same_outside (places (map (rel_patch objDb searchDag cur m) all)) m m' \<Longrightarrow>
    cache_ok objDb searchDag cur m cache \<Longrightarrow>
    reloc_loop objDb searchDag cur rels st_ok cache m' =
      Some (st_ok, fold (apply_patch (baseAddress (elfObject cur))) (map (rel_patch objDb searchDag cur m) rels) m')"
proof (induction rels arbitrary: cache m')
  case (Cons rel rels)
  let ?W = "places (map (rel_patch objDb searchDag cur m) all)"
  let ?B = "baseAddress (elfObject cur)"
  let ?i = "elf_Rel_symbolIndex m rel"
  let ?p = "rel_patch objDb searchDag cur m rel"
  obtain sv th where v: "resolved objDb searchDag cur m ?i = (sv, th)" by (rule prod.exhaust)
  have rel: "rel \<in> set all" using Cons.prems(1) by simp
  note okD = relocation_okD [OF ok rel]
  note same = rel_entry_same [OF Cons.prems(2) okD(1)]
  have res: "resolution objDb searchDag cur m' (elf_Rel_symbolIndex m' rel) = Some (Inr (sv, th))"
    using resolution_same [OF Cons.prems(2) okD(1) okD(5) [OF Cons.prems(2)]] okD(2) v same(2) by simp
  have c: "symIndex cache = elf_Rel_symbolIndex m' rel \<longrightarrow> (symval cache, thumb cache) = (sv, th)"
    using Cons.prems(3) okD(2) v symbolIndex_cache [of m rel] by (auto simp: cache_ok_def same(2))
  obtain cache' where step: "reloc_step objDb searchDag cur rel cache m' = Some (True, st_ok, cache', apply_patch ?B ?p m')"
    and "cache' = cache \<or> cache' = \<lparr>symIndex = ?i, symval = sv, thumb = th\<rparr>"
    using reloc_step_patch [OF res _ _ c] okD(3,4) v by (auto simp: same rel_patch_def)
  then have "cache_ok objDb searchDag cur m cache'" using Cons.prems(3) okD(2) v by (auto simp: cache_ok_def)
  moreover have "same_outside ?W m (apply_patch ?B ?p m')"
    by (rule same_outside_trans [OF Cons.prems(2) same_outside_patch [OF okD(6)]])
  ultimately show ?case using Cons.IH [of "apply_patch ?B ?p m'" cache'] Cons.prems(1) by (simp add: step)
qed simp

lemma relocate_patches:
  assumes "relocation_ok objDb searchDag cur (map (rel_at relArray) [0 ..< unat n]) m"
  shows "relocate objDb searchDag cur relArray n m =
    Some (st_ok, fold (apply_patch (baseAddress (elfObject cur)))
      (map (rel_patch objDb searchDag cur m) (map (rel_at relArray) [0 ..< unat n])) m)"
  unfolding relocate_def
  by (rule reloc_loop_patches [OF assms subset_refl same_outside_refl]) (simp add: cache_ok_def)

text \<open>
  C36: when the places of a relocation table are aligned, distinct, of known type and apart from
  what the linker reads, and every symbol is resolved, \<open>relocate\<close> succeeds, every place gets the
  value that the ABI assigns to its relocation with the symbol's own definition or that of the
  first object in scope, and memory outside of the places is unchanged. The cache of the last
  external symbol makes no difference.
\<close>

theorem relocate_places:
  assumes "relocation_ok objDb searchDag cur (map (rel_at relArray) [0 ..< unat n]) m"
  shows "\<exists>m'. relocate objDb searchDag cur relArray n m = Some (st_ok, m') \<and>
    (\<forall>i < unat n. ld32 m' (place (rel_patch objDb searchDag cur m (rel_at relArray i))) =
       patch_value (baseAddress (elfObject cur)) m (rel_patch objDb searchDag cur m (rel_at relArray i))) \<and>
    same_outside (places (map (rel_patch objDb searchDag cur m) (map (rel_at relArray) [0 ..< unat n]))) m m'"
proof -
  let ?ps = "map (rel_patch objDb searchDag cur m) (map (rel_at relArray) [0 ..< unat n])"
  have "distinct (map place ?ps)" "\<forall>p \<in> set ?ps. word_aligned (place p)"
    using assms unfolding relocation_ok_def Let_def by blast+
  note v = fold_patches_value [OF this, of _ "baseAddress (elfObject cur)" m]
  have "\<forall>i < unat n. ld32 (fold (apply_patch (baseAddress (elfObject cur))) ?ps m)
      (place (rel_patch objDb searchDag cur m (rel_at relArray i))) =
       patch_value (baseAddress (elfObject cur)) m (rel_patch objDb searchDag cur m (rel_at relArray i))"
    by (intro allI impI v) simp
  then show ?thesis using relocate_patches [OF assms] fold_patches_outside by blast
qed

subsection \<open>The relocator of the image does the same\<close>

definition rts_view :: "elf_Object \<Rightarrow> rts_Object" where
  "rts_view obj =
     \<lparr>r_header = header obj, r_phdrtab = phdrtab obj, r_numPhdr = numPhdr obj, r_dyntab = dyntab obj,
      r_dynSymboltab = dynSymboltab obj, r_baseAddress = baseAddress obj, r_reltab = reltab obj,
      r_numRels = numRels obj, r_pltReltab = pltReltab obj, r_numPltRels = numPltRels obj\<rparr>"

lemma rts_view_updates [simp]:
  "rts_view (obj\<lparr>dynStringtab := a\<rparr>) = rts_view obj" "rts_view (obj\<lparr>sysvHashtab := a\<rparr>) = rts_view obj"
  "rts_view (obj\<lparr>gnuHashtab := a\<rparr>) = rts_view obj" "rts_view (obj\<lparr>inittab := a\<rparr>) = rts_view obj"
  "rts_view (obj\<lparr>numInits := a\<rparr>) = rts_view obj" "rts_view (obj\<lparr>sysvHasher := b\<rparr>) = rts_view obj"
  "rts_view (obj\<lparr>gnuHasher := c\<rparr>) = rts_view obj" "rts_view (obj\<lparr>exidx := a\<rparr>) = rts_view obj"
  "rts_view (obj\<lparr>exidxSize := a\<rparr>) = rts_view obj"
  "rts_view (obj\<lparr>dynSymboltab := a\<rparr>) = (rts_view obj)\<lparr>r_dynSymboltab := a\<rparr>"
  "rts_view (obj\<lparr>reltab := a\<rparr>) = (rts_view obj)\<lparr>r_reltab := a\<rparr>"
  "rts_view (obj\<lparr>pltReltab := a\<rparr>) = (rts_view obj)\<lparr>r_pltReltab := a\<rparr>"
  "rts_view (obj\<lparr>numRels := a\<rparr>) = (rts_view obj)\<lparr>r_numRels := a\<rparr>"
  "rts_view (obj\<lparr>numPltRels := a\<rparr>) = (rts_view obj)\<lparr>r_numPltRels := a\<rparr>"
  "rts_view (obj\<lparr>numPhdr := a\<rparr>) = (rts_view obj)\<lparr>r_numPhdr := a\<rparr>"
  "rts_view (obj\<lparr>phdrtab := a\<rparr>) = (rts_view obj)\<lparr>r_phdrtab := a\<rparr>"
  "rts_view (obj\<lparr>dyntab := a\<rparr>) = (rts_view obj)\<lparr>r_dyntab := a\<rparr>"
  "rts_view (obj\<lparr>baseAddress := a\<rparr>) = (rts_view obj)\<lparr>r_baseAddress := a\<rparr>"
  by (simp_all add: rts_view_def)

lemma rts_view_sel [simp]:
  "r_baseAddress (rts_view obj) = baseAddress obj" "r_dynSymboltab (rts_view obj) = dynSymboltab obj"
  "r_reltab (rts_view obj) = reltab obj" "r_pltReltab (rts_view obj) = pltReltab obj"
  "r_numRels (rts_view obj) = numRels obj" "r_numPltRels (rts_view obj) = numPltRels obj"
  by (simp_all add: rts_view_def)

lemma rts_scan_dynamic_view:
  "scan_dynamic m dyn obj = Some obj' \<Longrightarrow> rts_scan_dynamic m dyn (rts_view obj) = Some (rts_view obj')"
proof (erule scan_dynamic.raw_induct [rotated])
  fix scan m dyn obj obj'
  assume IH: "\<And>m dyn obj obj'. scan m dyn obj = Some obj' \<Longrightarrow> rts_scan_dynamic m dyn (rts_view obj) = Some (rts_view obj')"
    and body: "(if \<not> elf_Dynamic_isSentinel m dyn
      then let base = baseAddress obj in
        scan m (dyn + 8)
          (obj\<lparr>dynSymboltab := or_old (elf_Dynamic_symtabAddr m dyn base) (dynSymboltab obj),
               dynStringtab := or_old (elf_Dynamic_stringtabAddr m dyn base) (dynStringtab obj),
               sysvHashtab := or_old (elf_Dynamic_sysvHashtabAddr m dyn base) (sysvHashtab obj),
               gnuHashtab := or_old (elf_Dynamic_gnuHashtabAddr m dyn base) (gnuHashtab obj),
               reltab := or_old (elf_Dynamic_reltabAddr m dyn base) (reltab obj),
               pltReltab := or_old (elf_Dynamic_pltReltabAddr m dyn base) (pltReltab obj),
               inittab := or_old (elf_Dynamic_inittabAddr m dyn base) (inittab obj),
               numRels := or_old (elf_Dynamic_numRels m dyn) (numRels obj),
               numPltRels := or_old (elf_Dynamic_numPltRels m dyn) (numPltRels obj),
               numInits := or_old (elf_Dynamic_numInits m dyn) (numInits obj)\<rparr>)
      else Some obj) = Some obj'"
  show "rts_scan_dynamic m dyn (rts_view obj) = Some (rts_view obj')"
  proof (cases "elf_Dynamic_isSentinel m dyn")
    case True
    then show ?thesis using body by (simp add: rts_scan_dynamic.simps)
  next
    case False
    note next_entry = IH [OF body [unfolded Let_def if_not_P [OF False] if_P [OF False] ]]
    show ?thesis using False next_entry by (subst rts_scan_dynamic.simps) (simp add: Let_def)
  qed
qed

lemma rts_view_empty:
  "rts_view (empty_Object hdr) =
     \<lparr>r_header = hdr, r_phdrtab = 0, r_numPhdr = 0, r_dyntab = 0, r_dynSymboltab = 0, r_baseAddress = 0,
      r_reltab = 0, r_numRels = 0, r_pltReltab = 0, r_numPltRels = 0\<rparr>"
  by (simp add: rts_view_def empty_Object_def)

lemma rts_Object_init_view:
  assumes "elf_Object_init m hdr = Some (ELF_OK, obj)"
  shows "rts_Object_init m hdr = Some (ELF_OK, rts_view obj)"
proof -
  let ?n = "elf_Header_numPhdr m hdr" and ?tab = "elf_Header_addrPhdr m hdr"
  let ?sc = "scan_phdrs m ?tab ?n"
  let ?dyn = "hdr - lowVaddr ?sc + elf_Pheader_virtAddr m (dynamic_ph ?sc)"
  let ?obj = "set_segments m ?n ?tab ?sc (empty_Object hdr)"
  have check: "elf_Header_check m hdr = ELF_OK" and flags: "missing_segments ?sc = ELF_OK"
    using assms by (auto simp: elf_Object_init_def Let_def split: if_splits)
  have base: "baseAddress ?obj = hdr - lowVaddr ?sc" by (simp add: set_segments_def empty_Object_def Let_def)
  obtain o2 where scan: "scan_dynamic m ?dyn (?obj\<lparr>dyntab := ?dyn\<rparr>) = Some o2"
    and o2: "missing_tables o2 = ELF_OK" "obj = set_hashers m o2"
    using assms check flags
    by (auto simp: elf_Object_init_def Let_def base bind_eq_Some_conv split: if_splits)
  have "flag_if (dynSymboltab o2 = 0) ELF_NO_DYNAMIC_SYMBOLS = ELF_OK"
    using o2(1) by (simp add: missing_tables_def ELF_OK_def or_eq_0_iff)
  moreover have "rts_view obj = rts_view o2" by (simp add: o2(2) set_hashers_def)
  moreover have "rts_view ?obj = (rts_view (empty_Object hdr))\<lparr>r_numPhdr := ?n, r_phdrtab := ?tab, r_baseAddress := hdr - lowVaddr ?sc\<rparr>"
    by (simp add: set_segments_def Let_def) (simp add: empty_Object_def)
  ultimately show ?thesis
    using rts_scan_dynamic_view [OF scan] check flags
    by (simp add: rts_Object_init_def Let_def rts_view_empty)
qed

lemma external_value_no_scope:
  assumes "dag cur = 0" and "external_value m objDb searchDag cur symbol = Some (Inr v)"
  shows "elf_Symbol_isWeak m symbol \<and> v = (0, 0)"
  using assms by (auto simp: external_value_def Let_def scope_search.simps bind_eq_Some_conv split: if_splits)

lemma rts_getSymbolValue_view: "rts_getSymbolValue m (rts_view obj) symbol = elf_Object_getSymbolValue m obj symbol"
  by (simp add: rts_getSymbolValue_def elf_Object_getSymbolValue_def)

lemma rts_reloc_step_patch:
  assumes res: "resolution objDb searchDag cur m' (elf_Rel_symbolIndex m' rel) = Some (Inr (sv, th))"
    and pl: "known_type (elf_Rel_type m' rel)" "even (elf_Rel_target m' rel (baseAddress (elfObject cur)))"
    and alone: "dag cur = 0"
  shows "rts_reloc_step (rts_view (elfObject cur)) rel m' =
    (LNK_OK, apply_patch (baseAddress (elfObject cur))
        (elf_Rel_type m' rel, elf_Rel_target m' rel (baseAddress (elfObject cur)), sv, th) m')"
proof -
  let ?i = "elf_Rel_symbolIndex m' rel"
  let ?symbol = "symbol_at (dynSymboltab (elfObject cur)) ?i"
  note mod = modifyObject_abi [OF pl resolution_thumb [OF res]]
  consider (none) "?i = 0" | (own) "?i \<noteq> 0" "elf_Symbol_isDefinition m' ?symbol"
    | (external) "?i \<noteq> 0" "\<not> elf_Symbol_isDefinition m' ?symbol"
    by blast
  then show ?thesis
  proof cases
    case none
    then have "sv = 0" "th = 0" using res by (simp_all add: resolution_def Let_def)
    then show ?thesis
      using none mod by (simp add: rts_reloc_step_def rts_modifyObject_eq Let_def apply_patch_def place_def patch_value_def)
  next
    case own
    then have "splitInterwork (elf_Object_getSymbolValue m' (elfObject cur) ?symbol) (elf_Symbol_type m' ?symbol) = (sv, th)"
      using res by (simp add: resolution_def Let_def)
    then show ?thesis
      using own mod
      by (simp add: rts_reloc_step_def rts_modifyObject_eq rts_getSymbolValue_view Let_def apply_patch_def place_def patch_value_def)
  next
    case external
    then have "external_value m' objDb searchDag cur ?symbol = Some (Inr (sv, th))"
      using res by (simp add: resolution_def Let_def)
    then have "elf_Symbol_isWeak m' ?symbol \<and> (sv, th) = (0, 0)" by (rule external_value_no_scope [OF alone])
    then show ?thesis
      using external mod by (simp add: rts_reloc_step_def rts_modifyObject_eq Let_def apply_patch_def place_def patch_value_def)
  qed
qed

lemma rts_reloc_loop_patches:
  assumes ok: "relocation_ok objDb searchDag cur all m" and alone: "dag cur = 0"
  shows "set rels \<subseteq> set all \<Longrightarrow> same_outside (places (map (rel_patch objDb searchDag cur m) all)) m m' \<Longrightarrow>
    rts_reloc_loop (rts_view (elfObject cur)) rels m' =
      (LNK_OK, fold (apply_patch (baseAddress (elfObject cur))) (map (rel_patch objDb searchDag cur m) rels) m')"
proof (induction rels arbitrary: m')
  case (Cons rel rels)
  let ?i = "elf_Rel_symbolIndex m rel"
  let ?p = "rel_patch objDb searchDag cur m rel" and ?B = "baseAddress (elfObject cur)"
  obtain sv th where v: "resolved objDb searchDag cur m ?i = (sv, th)" by (rule prod.exhaust)
  have rel: "rel \<in> set all" using Cons.prems(1) by simp
  note okD = relocation_okD [OF ok rel]
  note same = rel_entry_same [OF Cons.prems(2) okD(1)]
  have res: "resolution objDb searchDag cur m' (elf_Rel_symbolIndex m' rel) = Some (Inr (sv, th))"
    using resolution_same [OF Cons.prems(2) okD(1) okD(5) [OF Cons.prems(2)]] okD(2) v same(2) by simp
  have "rts_reloc_step (rts_view (elfObject cur)) rel m' = (LNK_OK, apply_patch ?B ?p m')"
    using rts_reloc_step_patch [OF res _ _ alone] okD(3,4) v by (simp add: same rel_patch_def)
  moreover have "same_outside (places (map (rel_patch objDb searchDag cur m) all)) m (apply_patch ?B ?p m')"
    by (rule same_outside_trans [OF Cons.prems(2) same_outside_patch [OF okD(6)]])
  ultimately show ?case using Cons.IH [of "apply_patch ?B ?p m'"] Cons.prems(1) by (simp add: LNK_OK_def)
qed (simp add: LNK_OK_def)

lemma relocators_agree:
  assumes "relocation_ok objDb searchDag cur (map (rel_at relArray) [0 ..< unat n]) m" and "dag cur = 0"
    and "relocate objDb searchDag cur relArray n m = Some (st, m')"
  shows "st = st_ok \<and> rts_relocate (rts_view (elfObject cur)) relArray n m = (LNK_OK, m')"
  using assms(3) rts_reloc_loop_patches [OF assms(1,2) subset_refl same_outside_refl]
  by (simp add: relocate_patches [OF assms(1)] rts_relocate_def)

text \<open>
  C37: on an image without dependencies the self-contained relocator does what the linker does:
  it finds the same tables, and relocating both tables ends with the same memory in which the
  operating system is started.
\<close>

theorem boot_relocation_as_linker:
  assumes "elf_Object_init m RTS_START = Some (ELF_OK, elfObject cur)" and "dag cur = 0"
    and "relocation_ok objDb searchDag cur (map (rel_at (reltab (elfObject cur))) [0 ..< unat (numRels (elfObject cur))]) m"
    and "relocate objDb searchDag cur (reltab (elfObject cur)) (numRels (elfObject cur)) m = Some (st1, m1)"
    and "relocation_ok objDb searchDag cur (map (rel_at (pltReltab (elfObject cur))) [0 ..< unat (numPltRels (elfObject cur))]) m1"
    and "relocate objDb searchDag cur (pltReltab (elfObject cur)) (numPltRels (elfObject cur)) m1 = Some (st2, m2)"
  shows "is_ok st1 \<and> is_ok st2 \<and> lnk_relocate run_start m = Some (LNK_OK, run_start m2)"
  using rts_Object_init_view [OF assms(1)] relocators_agree [OF assms(3,2,4)] relocators_agree [OF assms(5,2,6)]
  by (simp add: lnk_relocate_def ELF_OK_def LNK_OK_def)

subsection \<open>Unknown types\<close>

lemma rel_table_Suc:
  assumes "n \<noteq> 0"
  shows "map (rel_at relArray) [0 ..< unat n] = relArray # map (rel_at (relArray + 8)) [0 ..< unat (n - 1)]"
proof -
  have "unat n = Suc (unat (n - 1))" using assms by (simp add: unat_minus_one unat_gt_0)
  then show ?thesis by (simp add: upt_conv_Cons map_Suc_upt [symmetric] rel_at_def algebra_simps del: upt_Suc)
qed

text \<open>
  The linker goes on after a relocation of unknown type: unless it is the last of its
  table, its status is overwritten by that of the next, and the table is relocated as if it were
  not there. The relocator of the image stops with the error.
\<close>

theorem relocate_forgets_bad_type:
  assumes "\<not> known_type (elf_Rel_type m relArray)" and "elf_Rel_symbolIndex m relArray = 0" and "n \<noteq> 0"
  shows "relocate objDb searchDag cur relArray n m =
      (if n = 1 then Some (lnk_Status_init1 LNK_BAD_RELOCATION_TYPE, m)
       else relocate objDb searchDag cur (relArray + 8) (n - 1) m) \<and>
    rts_relocate obj relArray n m = (LNK_BAD_RELOCATION_TYPE, m)"
proof (intro conjI)
  have bad: "modifyObject (elf_Rel_type m relArray) wh sv th base m = (lnk_Status_init1 LNK_BAD_RELOCATION_TYPE, m)" for wh sv th base
    using assms(1) by (simp add: modifyObject_def known_type_def)
  have step: "reloc_step objDb searchDag cur relArray cache m = Some (True, lnk_Status_init1 LNK_BAD_RELOCATION_TYPE, cache, m)" for cache
    using assms(2) bad by (simp add: reloc_step_def Let_def)
  have other: "reloc_loop objDb searchDag cur rels st cache m = reloc_loop objDb searchDag cur rels st' cache m"
    if "rels \<noteq> []" for rels st st' cache
    using that by (cases rels) simp_all
  have "n - 1 \<noteq> 0" if "n \<noteq> 1" using that by simp
  then have "map (rel_at (relArray + 8)) [0 ..< unat (n - 1)] \<noteq> []" if "n \<noteq> 1"
    using that by (simp add: unat_eq_zero)
  note next_status = other [OF this, of "lnk_Status_init1 LNK_BAD_RELOCATION_TYPE" _ st_ok]
  show "relocate objDb searchDag cur relArray n m =
      (if n = 1 then Some (lnk_Status_init1 LNK_BAD_RELOCATION_TYPE, m)
       else relocate objDb searchDag cur (relArray + 8) (n - 1) m)"
    using next_status by (simp add: relocate_def rel_table_Suc [OF assms(3)] step)
  show "rts_relocate obj relArray n m = (LNK_BAD_RELOCATION_TYPE, m)"
    using assms(2) bad
    by (simp add: rts_relocate_def rel_table_Suc [OF assms(3)] rts_reloc_step_def Let_def rts_modifyObject_eq
        LNK_BAD_RELOCATION_TYPE_def lnk_code_def)
qed

subsection \<open>Examples\<close>

definition plain_info :: "elf_Object \<Rightarrow> lnk_ObjInfo" where
  "plain_info obj = \<lparr>elfObject = obj, soname = 0, dagState = LNK_DAG_DONE, dag = 0, prefsOverride = 0, bound = False, installable = False\<rparr>"

lemma plain_info_sel [simp]: "elfObject (plain_info obj) = obj" "dag (plain_info obj) = 0"
  by (simp_all add: plain_info_def)

lemma relocate_forgets_bad_type_witness:
  "relocate [] (lnk_SearchDag_init 0) (plain_info (empty_Object 0)) 0x200 2 (st32 0x20c 23 (\<lambda>_. 0)) =
     relocate [] (lnk_SearchDag_init 0) (plain_info (empty_Object 0)) 0x208 1 (st32 0x20c 23 (\<lambda>_. 0)) \<and>
   rts_relocate (rts_view (empty_Object 0)) 0x200 2 (st32 0x20c 23 (\<lambda>_. 0)) =
     (LNK_BAD_RELOCATION_TYPE, st32 0x20c 23 (\<lambda>_. 0))"
proof -
  let ?m = "st32 0x20c 23 (\<lambda>_. 0)"
  have w: "ld32 ?m 0x204 = 0" by (simp add: ld32_def st32_def le_word_def)
  have "\<not> known_type (elf_Rel_type ?m 0x200)" "elf_Rel_symbolIndex ?m 0x200 = 0"
    by (simp_all add: elf_Rel_type_def elf_Rel_symbolIndex_def w known_type_def reloc_types)
  then show ?thesis
    using relocate_forgets_bad_type [where m = ?m and relArray = "0x200" and n = 2] by simp
qed

text \<open>Two relocations: the base at 0x11000, and a Thumb function of the object itself at 0x11004.\<close>

definition rel_ram :: ram where
  "rel_ram = st32 0x200 0x1000 (st32 0x204 23 (st32 0x208 0x1004 (st32 0x20c 0x115 (st32 0x314 0x41 (st32 0x31c 0x10012
     (st32 0x11000 5 (\<lambda>_. 0)))))))"

definition rel_object :: elf_Object where
  "rel_object = (empty_Object 0x10000)\<lparr>baseAddress := 0x10000, dynSymboltab := 0x300\<rparr>"

lemma rel_object_sel: "baseAddress rel_object = 0x10000" "dynSymboltab rel_object = 0x300"
  by (simp_all add: rel_object_def)

lemma rel_ram_words:
  "ld32 rel_ram 0x200 = 0x1000" "ld32 rel_ram 0x204 = 23" "ld32 rel_ram 0x208 = 0x1004" "ld32 rel_ram 0x20c = 0x115"
  "ld32 rel_ram 0x314 = 0x41" "ld8 rel_ram 0x31c = 0x12" "ld16 rel_ram 0x31e = 1" "ld32 rel_ram 0x11000 = 5" "ld32 rel_ram 0x11004 = 0"
  by (simp_all add: rel_ram_def ld32_def ld16_def ld8_def st32_def le_word_def le_half_def)

lemma rel_ram_entries:
  "rel_symbol rel_object rel_ram 0x200 = 0x300" "rel_symbol rel_object rel_ram 0x208 = 0x310"
  "elf_Symbol_isDefinition rel_ram 0x310"
  "rel_patch objDb dg (plain_info rel_object) rel_ram 0x200 = (23, 0x11000, 0, 0)"
  "rel_patch objDb dg (plain_info rel_object) rel_ram 0x208 = (21, 0x11004, 0x10040, 1)"
  "resolution objDb dg (plain_info rel_object) rel_ram 0 = Some (Inr (0, 0))"
  "resolution objDb dg (plain_info rel_object) rel_ram 1 = Some (Inr (0x10040, 1))"
  "elf_Rel_symbolIndex rel_ram 0x200 = 0" "elf_Rel_symbolIndex rel_ram 0x208 = 1"
  by (simp_all add: rel_symbol_def symbol_at_def rel_object_sel elf_Rel_symbolIndex_def elf_Symbol_isDefinition_def
      elf_Symbol_section_def rel_ram_words SHN_UNDEF_def rel_patch_def resolved_def resolution_def Let_def elf_Rel_type_def
      elf_Rel_target_def splitInterwork_def elf_Object_getSymbolValue_def elf_Symbol_isAbsolute_def SHN_ABS_def
      elf_Symbol_value_def elf_Symbol_type_def STT_FUNC_def)

lemma rel_ram_ok: "relocation_ok [] dg (plain_info rel_object) [0x200, 0x208] rel_ram"
  by (simp add: relocation_ok_def Let_def rel_ram_entries place_def places_def word_aligned_def known_type_def reloc_types
      rel_reads_def word_bytes_def lessThan_nat_numeral lessThan_Suc image_insert)

lemma relocate_places_witness:
  "\<exists>m'. relocate [] (lnk_SearchDag_init 0) (plain_info rel_object) 0x200 2 rel_ram = Some (st_ok, m') \<and>
     ld32 m' 0x11000 = 0x10005 \<and> ld32 m' 0x11004 = 0x10041 \<and> m' 0x11008 = rel_ram 0x11008"
proof -
  have rels: "map (rel_at 0x200) [0 ..< unat (2 :: u32)] = [0x200, 0x208]" "rel_at 0x200 0 = 0x200" "rel_at 0x200 1 = 0x208"
    by (simp_all add: rel_at_def upt_rec)
  have ok: "relocation_ok [] (lnk_SearchDag_init 0) (plain_info rel_object) (map (rel_at 0x200) [0 ..< unat (2 :: u32)]) rel_ram"
    unfolding rels by (rule rel_ram_ok)
  obtain m' where m': "relocate [] (lnk_SearchDag_init 0) (plain_info rel_object) 0x200 2 rel_ram = Some (st_ok, m')"
    "\<forall>i < unat (2 :: u32). ld32 m' (place (rel_patch [] (lnk_SearchDag_init 0) (plain_info rel_object) rel_ram (rel_at 0x200 i))) =
       patch_value 0x10000 rel_ram (rel_patch [] (lnk_SearchDag_init 0) (plain_info rel_object) rel_ram (rel_at 0x200 i))"
    "same_outside (places (map (rel_patch [] (lnk_SearchDag_init 0) (plain_info rel_object) rel_ram) [0x200, 0x208])) rel_ram m'"
    using relocate_places [OF ok] unfolding rels plain_info_sel rel_object_sel by blast
  have "ld32 m' 0x11000 = 0x10005" "ld32 m' 0x11004 = 0x10041"
    using m'(2) [rule_format, of 0] m'(2) [rule_format, of 1]
    by (simp_all only: rels rel_ram_entries) (simp_all add: place_def patch_value_def abi_value_def reloc_types rel_ram_words)
  moreover have "m' 0x11008 = rel_ram 0x11008"
    using m'(3) by (simp add: same_outside_def rel_ram_entries places_def place_def word_bytes_def)
  ultimately show ?thesis using m'(1) by blast
qed

text \<open>A system image with one relocation, of the word at offset 0x200.\<close>

definition boot_ram :: ram where
  "boot_ram = st32 0x168000 0x464c457f (st32 0x168004 0x10101 (st32 0x168010 3 (st32 0x16801c 0x34 (st32 0x168028 0x34 (st32 0x16802c 2
     (st32 0x168034 1 (st32 0x168054 2 (st32 0x16805c 0x80
     (st32 0x168080 6 (st32 0x168084 0x100 (st32 0x168088 5 (st32 0x16808c 0x180 (st32 0x168090 4 (st32 0x168094 0x180
     (st32 0x168098 17 (st32 0x16809c 0x140 (st32 0x1680a0 18 (st32 0x1680a4 8
     (st32 0x168140 0x200 (st32 0x168144 23 (st32 0x168200 7 (\<lambda>_. 0))))))))))))))))))))))"

definition boot_object :: elf_Object where
  "boot_object = (empty_Object 0x168000)\<lparr>phdrtab := 0x168034, numPhdr := 2, baseAddress := 0x168000, dyntab := 0x168080,
     dynSymboltab := 0x168100, dynStringtab := 0x168180, sysvHashtab := 0x168180, reltab := 0x168140, numRels := 1,
     sysvHasher := \<lparr>nbucket = 0, nchain = 0, bucket = 0x168188, chain = 0x168188, nsym = 1, s_stringtab = 0x168180, s_symtab = 0x168100\<rparr>\<rparr>"

lemma boot_ram_words:
  "ld8 boot_ram 0x168000 = 0x7f" "ld8 boot_ram 0x168001 = 0x45" "ld8 boot_ram 0x168002 = 0x4c" "ld8 boot_ram 0x168003 = 0x46"
  "ld8 boot_ram 0x168004 = 1" "ld8 boot_ram 0x168006 = 1" "ld16 boot_ram 0x168010 = 3" "ld32 boot_ram 0x16801c = 0x34"
  "ld16 boot_ram 0x168028 = 0x34" "ld16 boot_ram 0x16802c = 2" "ld32 boot_ram 0x168034 = 1" "ld32 boot_ram 0x16803c = 0"
  "ld32 boot_ram 0x168054 = 2" "ld32 boot_ram 0x16805c = 0x80"
  "ld32 boot_ram 0x168080 = 6" "ld32 boot_ram 0x168084 = 0x100" "ld32 boot_ram 0x168088 = 5" "ld32 boot_ram 0x16808c = 0x180"
  "ld32 boot_ram 0x168090 = 4" "ld32 boot_ram 0x168094 = 0x180" "ld32 boot_ram 0x168098 = 17" "ld32 boot_ram 0x16809c = 0x140"
  "ld32 boot_ram 0x1680a0 = 18" "ld32 boot_ram 0x1680a4 = 8" "ld32 boot_ram 0x1680a8 = 0"
  "ld32 boot_ram 0x168140 = 0x200" "ld32 boot_ram 0x168144 = 23" "ld32 boot_ram 0x168180 = 0" "ld32 boot_ram 0x168184 = 0"
  "ld32 boot_ram 0x168200 = 7"
  by (simp_all add: boot_ram_def ld32_st32_other word_aligned_def) (simp_all add: ld16_def ld8_def ld32_def st32_def le_word_def le_half_def)

lemma boot_phdrs:
  "scan_phdrs boot_ram 0x168034 2 = \<lparr>loadable = True, lowVaddr = 0, dynamic_ph = 0x168054, exidx_ph = 0\<rparr>"
  by (simp add: scan_phdrs_def upt_rec phdr_at_def phdr_step_def elf_Pheader_isLoadable_def elf_Pheader_isDynamic_def
      elf_Pheader_type_def elf_Pheader_virtAddr_def boot_ram_words)

lemma boot_dynamic:
  "scan_dynamic boot_ram 0x168080 (boot_object\<lparr>dynSymboltab := 0, dynStringtab := 0, sysvHashtab := 0, reltab := 0, numRels := 0,
     sysvHasher := no_SysvHasher\<rparr>) = Some (boot_object\<lparr>sysvHasher := no_SysvHasher\<rparr>)"
  by (simp add: scan_dynamic.simps Let_def elf_Dynamic_isSentinel_def elf_Dynamic_tag_def elf_Dynamic_value_def elf_Dynamic_ptr_def
      elf_Dynamic_symtabAddr_def elf_Dynamic_stringtabAddr_def elf_Dynamic_sysvHashtabAddr_def elf_Dynamic_gnuHashtabAddr_def
      elf_Dynamic_reltabAddr_def elf_Dynamic_pltReltabAddr_def elf_Dynamic_inittabAddr_def elf_Dynamic_numRels_def
      elf_Dynamic_numPltRels_def elf_Dynamic_numInits_def dyn_addr_def dyn_count_def dyn_tags or_old_def boot_ram_words
      boot_object_def empty_Object_def)

lemma boot_init: "elf_Object_init boot_ram 0x168000 = Some (ELF_OK, boot_object)"
proof -
  have check: "elf_Header_check boot_ram 0x168000 = ELF_OK"
    by (simp add: elf_Header_check_def elf_Header_type_def elf_Header_size_def elf_Header_numPhdr_def elf_Header_offPhdr_def
        boot_ram_words flag_if_def ELF_OK_def)
  have n: "elf_Header_numPhdr boot_ram 0x168000 = 2" "elf_Header_addrPhdr boot_ram 0x168000 = 0x168034"
    by (simp_all add: elf_Header_numPhdr_def elf_Header_addrPhdr_def elf_Header_offPhdr_def boot_ram_words)
  let ?o = "boot_object\<lparr>dynSymboltab := 0, dynStringtab := 0, sysvHashtab := 0, reltab := 0, numRels := 0,
     sysvHasher := no_SysvHasher\<rparr>"
  let ?sc = "scan_phdrs boot_ram 0x168034 2"
  have segs: "missing_segments ?sc = ELF_OK" "(set_segments boot_ram 2 0x168034 ?sc (empty_Object 0x168000))\<lparr>dyntab := 0x168080\<rparr> = ?o"
    "baseAddress (set_segments boot_ram 2 0x168034 ?sc (empty_Object 0x168000)) + elf_Pheader_virtAddr boot_ram (dynamic_ph ?sc) = 0x168080"
    by (simp_all add: boot_phdrs missing_segments_def flag_if_def ELF_OK_def set_segments_def Let_def boot_object_def empty_Object_def
        elf_Pheader_virtAddr_def boot_ram_words)
  have tables: "missing_tables (boot_object\<lparr>sysvHasher := no_SysvHasher\<rparr>) = ELF_OK"
    "set_hashers boot_ram (boot_object\<lparr>sysvHasher := no_SysvHasher\<rparr>) = boot_object"
    by (simp_all add: missing_tables_def flag_if_def ELF_OK_def set_hashers_def boot_object_def empty_Object_def elf_SysvHasher_init_def
        elf_SysvHasher_maxSymIndex_def Let_def boot_ram_words)
  show ?thesis
    by (simp only: elf_Object_init_def check n segs Let_def boot_dynamic tables simp_thms if_False bind.simps)
qed

lemma boot_object_sel:
  "reltab boot_object = 0x168140" "numRels boot_object = 1" "numPltRels boot_object = 0" "baseAddress boot_object = 0x168000"
  "dynSymboltab boot_object = 0x168100"
  by (simp_all add: boot_object_def empty_Object_def)

definition boot_symbols :: lnk_SearchDag where "boot_symbols = lnk_SearchDag_init 0"

lemma boot_rel_ok:
  "relocation_ok [] boot_symbols (plain_info boot_object) [0x168140] boot_ram"
  "relocation_ok [] boot_symbols (plain_info boot_object) [] m"
  "rel_patch [] boot_symbols (plain_info boot_object) boot_ram 0x168140 = (23, 0x168200, 0, 0)"
proof -
  have e: "elf_Rel_symbolIndex boot_ram 0x168140 = 0" by (simp add: elf_Rel_symbolIndex_def boot_ram_words)
  have r: "resolution [] boot_symbols (plain_info boot_object) boot_ram 0 = Some (Inr (0, 0))"
    by (simp add: resolution_def Let_def)
  show p: "rel_patch [] boot_symbols (plain_info boot_object) boot_ram 0x168140 = (23, 0x168200, 0, 0)"
    by (simp add: rel_patch_def e r resolved_def elf_Rel_type_def elf_Rel_target_def boot_ram_words boot_object_sel)
  have s: "rel_symbol boot_object boot_ram 0x168140 = 0x168100"
    by (simp add: rel_symbol_def e symbol_at_def boot_object_sel)
  show "relocation_ok [] boot_symbols (plain_info boot_object) [0x168140] boot_ram"
    by (simp add: relocation_ok_def Let_def p s e r place_def places_def word_aligned_def known_type_def reloc_types
      rel_reads_def word_bytes_def lessThan_nat_numeral lessThan_Suc image_insert)
  show "relocation_ok [] boot_symbols (plain_info boot_object) [] m" by (simp add: relocation_ok_def)
qed

lemma boot_relocation_as_linker_witness:
  "lnk_relocate (\<lambda>m. m) boot_ram = Some (LNK_OK, st32 0x168200 0x168007 boot_ram)"
proof -
  let ?m1 = "apply_patch 0x168000 (23, 0x168200, 0, 0) boot_ram"
  have rts: "RTS_START = 0x168000" by (simp add: region_table_defs)
  have rels: "map (rel_at 0x168140) [0 ..< unat (1 :: u32)] = [0x168140]" by (simp add: rel_at_def)
  have ok: "relocation_ok [] boot_symbols (plain_info boot_object) (map (rel_at 0x168140) [0 ..< unat (1 :: u32)]) boot_ram"
    unfolding rels by (rule boot_rel_ok(1))
  have "relocate [] boot_symbols (plain_info boot_object) 0x168140 1 boot_ram = Some (st_ok, ?m1)"
    using relocate_patches [OF ok] by (simp only: rels plain_info_sel boot_object_sel boot_rel_ok(3) list.map fold.simps comp_apply id_apply)
  moreover have "relocate [] boot_symbols (plain_info boot_object) (pltReltab boot_object) 0 ?m1 = Some (st_ok, ?m1)"
    by (simp add: relocate_def)
  ultimately have "lnk_relocate (\<lambda>m. m) boot_ram = Some (LNK_OK, ?m1)"
    using boot_relocation_as_linker [of boot_ram "plain_info boot_object" "[]" boot_symbols st_ok ?m1 st_ok ?m1 "\<lambda>m. m"]
      boot_init ok boot_rel_ok(2)
    by (simp add: rts boot_object_sel)
  moreover have "?m1 = st32 0x168200 0x168007 boot_ram"
    by (simp add: apply_patch_def patch_value_def place_def abi_value_def reloc_types boot_ram_words)
  ultimately show ?thesis by simp
qed

end
