(* ===== verification/Linker.thy ===== *)
theory Linker
  imports Relocate
begin

text \<open>
  The dynamic linker (\<^verbatim>\<open>tool/elf/src/linker.c\<close>): loading an object with everything it needs, in
  depth-first order, binding each object after its dependencies. The theorems: what is in the
  scope of an object is bound when the object is; a link ends on every dependency graph; an
  object that needs itself is not reported as a cycle.
\<close>

subsection \<open>Binding\<close>

definition LNK_INSTALL :: u32 where "LNK_INSTALL = push_bit 1 1"

definition lookup :: "ram \<Rightarrow> elf_Object \<Rightarrow> u32 \<Rightarrow> u32 option" where
  "lookup m obj name = do {
     hash \<leftarrow> elf_Object_hash m obj name;
     symbol \<leftarrow> elf_Object_lookup m obj hash name;
     Some (if symbol \<noteq> 0 then elf_Object_getSymbolValue m obj symbol else 0) }"

definition run_inits :: "'l system \<Rightarrow> elf_Object \<Rightarrow> 'l world \<Rightarrow> 'l world" where
  "run_inits sys obj =
     fold (\<lambda>i w. run_init sys (ld32 (mem w) (inittab obj + 4 * of_nat i)) w) [0 ..< unat (numInits obj)]"

definition run_lnk_prelude :: "'l system \<Rightarrow> lnk_ObjInfo \<Rightarrow> u32 \<Rightarrow> 'l world \<Rightarrow> (u32 \<times> 'l world) option" where
  "run_lnk_prelude sys currentObj preludeFunc w = do {
     prefsFunc \<leftarrow> lookup (mem w) (elfObject currentObj) (nm_preferences sys);
     let (prefs, w) = (if prefsFunc \<noteq> 0 then run_prefs sys prefsFunc (prefsOverride currentObj) w
                       else (prefsOverride currentObj, w));
     Some (run_prelude sys preludeFunc prefs (header (elfObject currentObj)) w) }"

definition bind_object ::
    "'l system \<Rightarrow> lnk_ObjDb \<Rightarrow> lnk_SearchDag \<Rightarrow> lnk_ObjInfo \<Rightarrow> 'l world \<Rightarrow> (lnk_Status \<times> 'l world) option" where
  "bind_object sys objDb searchDag currentObj w = (let obj = elfObject currentObj in do {
     (st, m) \<leftarrow> relocate objDb searchDag currentObj (reltab obj) (numRels obj) (mem w);
     (st, m) \<leftarrow> (if is_ok st then relocate objDb searchDag currentObj (pltReltab obj) (numPltRels obj) m
                else Some (st, m));
     let w = w\<lparr>mem := m\<rparr>;
     if \<not> is_ok st then Some (st, w)
     else do {
       let w = run_inits sys obj w;
       popts \<leftarrow> lookup (mem w) obj (nm_options sys);
       let options = (if popts \<noteq> 0 then ld32 (mem w) popts else 0);
       preludeFunc \<leftarrow> lookup (mem w) obj (nm_prelude sys);
       (stat, w) \<leftarrow> (if preludeFunc \<noteq> 0 then run_lnk_prelude sys currentObj preludeFunc w else Some (LNK_OK, w));
       if stat \<noteq> LNK_OK then Some (lnk_Status_init1 stat, w)
       else let w = ldr_fixup sys (header obj) w in
         Some (st_ok, if installable currentObj \<and> options AND LNK_INSTALL \<noteq> 0 then ldr_install sys (header obj) w else w) } })"

subsection \<open>Linking\<close>

text \<open>
  The points of \<open>innerLink\<close> between which it runs: its entry, and the loop over the dynamic
  section of the node's object. What follows the loop is the argument \<open>finish\<close>; \<open>innerLink\<close> has
  \<open>finish_object\<close> there.
\<close>

datatype link_point = Enter nat | Needed nat nat u32

type_synonym 'l link_state = "lnk_ObjDb \<times> lnk_SearchDag \<times> 'l world"

definition set_info :: "nat \<Rightarrow> (lnk_ObjInfo \<Rightarrow> lnk_ObjInfo) \<Rightarrow> lnk_ObjDb \<Rightarrow> lnk_ObjDb" where
  "set_info i f db = db[i := f (db ! i)]"

text \<open>The end of \<open>innerLink\<close>: the sub-graph is complete, the object is bound if it was not.\<close>

definition finish_object ::
    "'l system \<Rightarrow> nat \<Rightarrow> nat \<Rightarrow> 'l link_state \<Rightarrow> (lnk_Status \<times> 'l link_state) option" where
  "finish_object sys currentLink i = (\<lambda>(objDb, searchDag, w).
     let objDb = set_info i (\<lambda>info. info\<lparr>dag := child (nodes searchDag currentLink), dagState := LNK_DAG_DONE\<rparr>) objDb in
     if bound (objDb ! i) then Some (st_ok, objDb, searchDag, w)
     else do {
       (st, w) \<leftarrow> bind_object sys objDb searchDag (objDb ! i) w;
       if \<not> is_ok st then Some (st, objDb, searchDag, w)
       else Some (st, set_info i (\<lambda>info. info\<lparr>bound := True\<rparr>) objDb, searchDag, w) })"

partial_function (option) link_from ::
    "(nat \<Rightarrow> nat \<Rightarrow> 'l link_state \<Rightarrow> (lnk_Status \<times> 'l link_state) option) \<Rightarrow> 'l system \<Rightarrow> link_point \<Rightarrow> 'l link_state \<Rightarrow> (lnk_Status \<times> 'l link_state) option" where
  "link_from finish sys point s = (case point of
     Enter currentLink \<Rightarrow> (case s of (objDb, searchDag, w) \<Rightarrow>
       let (st, currentSearch) = lnk_SearchDag_get currentLink in
       if \<not> is_ok st then Some (st, s)
       else let (st, i) = lnk_ObjDb_get objDb (dbIndex (nodes searchDag currentSearch)) in
       if \<not> is_ok st then Some (st, s)
       else if dagState (objDb ! i) = LNK_DAG_UNDER_CONSTRUCTION then Some (lnk_Status_init1 LNK_DEPENDENCY_CYCLE, s)
       else if dagState (objDb ! i) = LNK_DAG_DONE
         then Some (st, objDb, set_node currentSearch (\<lambda>n. n\<lparr>child := dag (objDb ! i)\<rparr>) searchDag, w)
       else link_from finish sys (Needed currentLink i (dyntab (elfObject (objDb ! i))))
              (set_info i (\<lambda>info. info\<lparr>dagState := LNK_DAG_UNDER_CONSTRUCTION\<rparr>) objDb, searchDag, w))
   | Needed currentLink i dyn \<Rightarrow> (case s of (objDb, searchDag, w) \<Rightarrow>
       if elf_Dynamic_isSentinel (mem w) dyn then finish currentLink i s
       else let needed = elf_Dynamic_needed (mem w) dyn (dynStringtab (elfObject (objDb ! i))) in
         if needed = 0 then link_from finish sys (Needed currentLink i (dyn + 8)) s
         else do {
           (st, dbIx, objDb, w) \<leftarrow> lnk_ObjDb_addNeeded sys needed objDb w;
           if \<not> is_ok st then Some (st, objDb, searchDag, w)
           else let (st, childLink, searchDag) = lnk_SearchDag_addChild currentLink dbIx searchDag in
             if \<not> is_ok st then Some (st, objDb, searchDag, w)
             else do {
               (st, s) \<leftarrow> link_from finish sys (Enter childLink) (objDb, searchDag, w);
               if \<not> is_ok st then Some (st, s)
               else link_from finish sys (Needed currentLink i (dyn + 8)) s } }))"

definition innerLink :: "'l system \<Rightarrow> nat \<Rightarrow> 'l link_state \<Rightarrow> (lnk_Status \<times> 'l link_state) option" where
  "innerLink sys currentLink = link_from (finish_object sys) sys (Enter currentLink)"

text \<open>The result: the header address or 0, the two statuses, and the world.\<close>

definition lnk_load ::
    "'l system \<Rightarrow> u32 \<Rightarrow> u32 \<Rightarrow> 'l world \<Rightarrow> (u32 \<times> u32 \<times> lnk_Status \<times> 'l world) option" where
  "lnk_load sys name rootPrefs w =
     (let ((elf, ldStatus), w) = ldr_load sys name w in
      if elf = 0 then Some (0, ldStatus, lnk_Status_init2 ldStatus name, w)
      else do {
        (st, _, objDb) \<leftarrow> lnk_ObjDb_add (mem w) elf LNK_DAG_NOT_STARTED False name lnk_ObjDb_init;
        if \<not> is_ok st then Some (0, status st, st, w)
        else do {
          ex \<leftarrow> rememberExidx (mem w) (elfObject (objDb ! 0)) (exidx_tab w);
          (st, _, _, w) \<leftarrow> innerLink sys 1
             (set_info 0 (\<lambda>info. info\<lparr>prefsOverride := rootPrefs, installable := False\<rparr>) objDb, lnk_SearchDag_init 0, w\<lparr>exidx_tab := ex\<rparr>);
          Some (if \<not> is_ok st then 0 else elf, status st, st, w) } })"

definition lnk_go :: "ram \<Rightarrow> u32 \<Rightarrow> u32" where
  "lnk_go m elf = (if elf_Header_entry m elf \<noteq> 0 then elf + elf_Header_entry m elf else 0)"

definition lnk_lookup :: "ram \<Rightarrow> u32 \<Rightarrow> u32 \<Rightarrow> u32 option" where
  "lnk_lookup m elf name = do {
     (_, obj) \<leftarrow> elf_Object_init m elf;
     lookup m obj name }"

subsection \<open>The scope of an object\<close>

text \<open>The nodes on a list of siblings, in order.\<close>

fun scope :: "lnk_SearchDag \<Rightarrow> nat \<Rightarrow> nat list \<Rightarrow> bool" where
  "scope dg l [] = (l = 0)"
| "scope dg l (k # ks) = (l = k \<and> k \<noteq> 0 \<and> scope dg (sib (nodes dg k)) ks)"

definition obj_of :: "lnk_SearchDag \<Rightarrow> nat \<Rightarrow> nat" where "obj_of dg k = nat (dbIndex (nodes dg k))"

text \<open>
  An object is ready when the list of its dependencies ends and each of them is complete and
  bound.
\<close>

definition scope_ready :: "lnk_ObjDb \<Rightarrow> lnk_SearchDag \<Rightarrow> nat \<Rightarrow> bool" where
  "scope_ready db dg l \<longleftrightarrow> (\<exists>ks. scope dg l ks \<and> (\<forall>k \<in> set ks. k \<le> LNK_MAX_DAG_NODES \<and>
     0 \<le> dbIndex (nodes dg k) \<and> obj_of dg k < length db \<and>
     dagState (db ! obj_of dg k) = LNK_DAG_DONE \<and> bound (db ! obj_of dg k)))"

text \<open>The children of a node are the needed objects \<open>ixs\<close>, in order, each complete and bound.\<close>

definition needs_ready :: "lnk_ObjDb \<Rightarrow> lnk_SearchDag \<Rightarrow> nat \<Rightarrow> int list \<Rightarrow> bool" where
  "needs_ready db dg cur ixs \<longleftrightarrow>
     (\<exists>ks. scope dg (child (nodes dg cur)) ks \<and> map (\<lambda>k. dbIndex (nodes dg k)) ks = ixs) \<and>
     (\<forall>ix \<in> set ixs. 0 \<le> ix \<and> nat ix < length db \<and> dagState (db ! nat ix) = LNK_DAG_DONE \<and> bound (db ! nat ix))"

text \<open>
  The run of \<open>link_from\<close> that takes down the database index which each needed name got, and
  stops with \<open>None\<close> at the end of a dynamic section, before the object is finished and bound,
  when the scope of the object is not the list of these objects, or one of them is not ready.
\<close>

partial_function (option) checked_link ::
    "'l system \<Rightarrow> link_point \<Rightarrow> int list \<Rightarrow> 'l link_state \<Rightarrow> (lnk_Status \<times> 'l link_state) option" where
  "checked_link sys point ixs s = (case point of
     Enter currentLink \<Rightarrow> (case s of (objDb, searchDag, w) \<Rightarrow>
       let (st, currentSearch) = lnk_SearchDag_get currentLink in
       if \<not> is_ok st then Some (st, s)
       else let (st, i) = lnk_ObjDb_get objDb (dbIndex (nodes searchDag currentSearch)) in
       if \<not> is_ok st then Some (st, s)
       else if dagState (objDb ! i) = LNK_DAG_UNDER_CONSTRUCTION then Some (lnk_Status_init1 LNK_DEPENDENCY_CYCLE, s)
       else if dagState (objDb ! i) = LNK_DAG_DONE
         then Some (st, objDb, set_node currentSearch (\<lambda>n. n\<lparr>child := dag (objDb ! i)\<rparr>) searchDag, w)
       else checked_link sys (Needed currentLink i (dyntab (elfObject (objDb ! i)))) []
              (set_info i (\<lambda>info. info\<lparr>dagState := LNK_DAG_UNDER_CONSTRUCTION\<rparr>) objDb, searchDag, w))
   | Needed currentLink i dyn \<Rightarrow> (case s of (objDb, searchDag, w) \<Rightarrow>
       if elf_Dynamic_isSentinel (mem w) dyn
       then if needs_ready objDb searchDag currentLink ixs then finish_object sys currentLink i s else None
       else let needed = elf_Dynamic_needed (mem w) dyn (dynStringtab (elfObject (objDb ! i))) in
         if needed = 0 then checked_link sys (Needed currentLink i (dyn + 8)) ixs s
         else do {
           (st, dbIx, objDb, w) \<leftarrow> lnk_ObjDb_addNeeded sys needed objDb w;
           if \<not> is_ok st then Some (st, objDb, searchDag, w)
           else let (st, childLink, searchDag) = lnk_SearchDag_addChild currentLink dbIx searchDag in
             if \<not> is_ok st then Some (st, objDb, searchDag, w)
             else do {
               (st, s) \<leftarrow> checked_link sys (Enter childLink) [] (objDb, searchDag, w);
               if \<not> is_ok st then Some (st, s)
               else checked_link sys (Needed currentLink i (dyn + 8)) (ixs @ [dbIx]) s } }))"

subsection \<open>The invariant of a link\<close>

text \<open>\<open>A\<close> are the nodes under construction. Links lead to later nodes.\<close>

definition link_inv :: "nat set \<Rightarrow> lnk_ObjDb \<Rightarrow> lnk_SearchDag \<Rightarrow> bool" where
  "link_inv A db dg \<longleftrightarrow>
     2 \<le> dag_next dg \<and> dag_next dg \<le> Suc LNK_MAX_DAG_NODES \<and> A \<subseteq> {1 ..< dag_next dg} \<and>
     (\<forall>k \<in> {1 ..< dag_next dg}. sib (nodes dg k) \<noteq> 0 \<longrightarrow> k < sib (nodes dg k) \<and> sib (nodes dg k) < dag_next dg) \<and>
     (\<forall>k \<in> A. (lastChild (nodes dg k) \<noteq> 0 \<longrightarrow> k < lastChild (nodes dg k) \<and> lastChild (nodes dg k) < dag_next dg) \<and>
        (child (nodes dg k) \<noteq> 0 \<longrightarrow> k < child (nodes dg k) \<and> child (nodes dg k) < dag_next dg)) \<and>
     (\<forall>i < length db. dagState (db ! i) = LNK_DAG_DONE \<longrightarrow> bound (db ! i)) \<and>
     (\<forall>k \<in> {1 ..< dag_next dg} - A. 0 \<le> dbIndex (nodes dg k) \<and> obj_of dg k < length db \<and>
        dagState (db ! obj_of dg k) = LNK_DAG_DONE)"

lemma link_invD:
  assumes "link_inv A db dg"
  shows "2 \<le> dag_next dg" "dag_next dg \<le> Suc LNK_MAX_DAG_NODES" "A \<subseteq> {1 ..< dag_next dg}"
    "k \<in> {1 ..< dag_next dg} \<Longrightarrow> sib (nodes dg k) \<noteq> 0 \<Longrightarrow> k < sib (nodes dg k) \<and> sib (nodes dg k) < dag_next dg"
    "k \<in> A \<Longrightarrow> lastChild (nodes dg k) \<noteq> 0 \<Longrightarrow> k < lastChild (nodes dg k) \<and> lastChild (nodes dg k) < dag_next dg"
    "k \<in> A \<Longrightarrow> child (nodes dg k) \<noteq> 0 \<Longrightarrow> k < child (nodes dg k) \<and> child (nodes dg k) < dag_next dg"
    "i < length db \<Longrightarrow> dagState (db ! i) = LNK_DAG_DONE \<Longrightarrow> bound (db ! i)"
    "k \<in> {1 ..< dag_next dg} \<Longrightarrow> k \<notin> A \<Longrightarrow> 0 \<le> dbIndex (nodes dg k) \<and> obj_of dg k < length db \<and>
        dagState (db ! obj_of dg k) = LNK_DAG_DONE"
  using assms unfolding link_inv_def by blast+

lemma siblings_list:
  assumes inv: "link_inv A db dg"
  shows "l \<in> {1 ..< dag_next dg} \<Longrightarrow> \<exists>ks. scope dg l ks \<and> set ks \<subseteq> {l ..< dag_next dg}"
proof (induction "dag_next dg - l" arbitrary: l rule: less_induct)
  case (less l)
  let ?s = "sib (nodes dg l)"
  show ?case
  proof (cases "?s = 0")
    case True
    then have "scope dg l [l]" using less.prems by simp
    moreover have "set [l] \<subseteq> {l ..< dag_next dg}" using less.prems by simp
    ultimately show ?thesis by blast
  next
    case False
    note s = link_invD(4) [OF inv less.prems False]
    then have "dag_next dg - ?s < dag_next dg - l" "?s \<in> {1 ..< dag_next dg}" using less.prems by auto
    from less.hyps [OF this] obtain ks where ks: "scope dg ?s ks" "set ks \<subseteq> {?s ..< dag_next dg}" by blast
    then have "scope dg l (l # ks)" using less.prems by simp
    moreover have "set (l # ks) \<subseteq> {l ..< dag_next dg}" using ks(2) s less.prems by auto
    ultimately show ?thesis by blast
  qed
qed

text \<open>When the last active node is finished, its dependencies are complete.\<close>

lemma inv_scope_ready:
  assumes inv: "link_inv A db dg" and cur: "cur \<in> A" "\<forall>a \<in> A. a \<le> cur"
  shows "scope_ready db dg (child (nodes dg cur))"
proof (cases "child (nodes dg cur) = 0")
  case True
  then have "scope dg (child (nodes dg cur)) []" by simp
  then show ?thesis unfolding scope_ready_def by (intro exI [of _ "[]"]) simp
next
  case False
  note c = link_invD(6) [OF inv cur(1) False]
  have "cur \<in> {1 ..< dag_next dg}" using link_invD(3) [OF inv] cur(1) by blast
  then have "child (nodes dg cur) \<in> {1 ..< dag_next dg}" using c by simp
  then obtain ks where ks: "scope dg (child (nodes dg cur)) ks" "set ks \<subseteq> {child (nodes dg cur) ..< dag_next dg}"
    using siblings_list [OF inv] by blast
  have "k \<le> LNK_MAX_DAG_NODES \<and> 0 \<le> dbIndex (nodes dg k) \<and> obj_of dg k < length db \<and>
     dagState (db ! obj_of dg k) = LNK_DAG_DONE \<and> bound (db ! obj_of dg k)" if "k \<in> set ks" for k
  proof -
    have k: "cur < k" "k \<in> {1 ..< dag_next dg}" using ks(2) that c by auto
    then have "k \<notin> A" using cur(2) by auto
    then show ?thesis
      using link_invD(8) [OF inv k(2)] link_invD(7) [OF inv, of "obj_of dg k"] link_invD(2) [OF inv] k(2) by auto
  qed
  then show ?thesis using ks(1) unfolding scope_ready_def by blast
qed

subsection \<open>The steps of a link\<close>

lemma set_info_simps [simp]:
  "length (set_info i f db) = length db" "i < length db \<Longrightarrow> set_info i f db ! i = f (db ! i)"
  "j \<noteq> i \<Longrightarrow> set_info i f db ! j = db ! j"
  by (simp_all add: set_info_def)

lemma set_node_simps [simp]:
  "dag_next (set_node k f dg) = dag_next dg" "nodes (set_node k f dg) k = f (nodes dg k)"
  "j \<noteq> k \<Longrightarrow> nodes (set_node k f dg) j = nodes dg j"
  by (simp_all add: set_node_def)

lemma inv_update:
  assumes inv: "link_inv A db dg" and len: "length db \<le> length db'"
    and keep: "\<And>i. i < length db \<Longrightarrow> dagState (db ! i) = LNK_DAG_DONE \<Longrightarrow> dagState (db' ! i) = LNK_DAG_DONE"
    and bnd: "\<And>i. i < length db' \<Longrightarrow> dagState (db' ! i) = LNK_DAG_DONE \<Longrightarrow> bound (db' ! i)"
  shows "link_inv A db' dg"
  unfolding link_inv_def
proof (intro conjI ballI allI impI)
  fix k assume k: "k \<in> {1 ..< dag_next dg} - A"
  show "obj_of dg k < length db'" using link_invD(8) [OF inv, of k] k len by simp
  show "dagState (db' ! obj_of dg k) = LNK_DAG_DONE" using link_invD(8) [OF inv, of k] k by (intro keep) simp_all
qed (use link_invD [OF inv] bnd in auto)

lemma inv_start:
  assumes "link_inv A db dg" and "i < length db" "dagState (db ! i) \<noteq> LNK_DAG_DONE"
  shows "link_inv A (set_info i (\<lambda>info. info\<lparr>dagState := LNK_DAG_UNDER_CONSTRUCTION\<rparr>) db) dg"
proof (rule inv_update [OF assms(1)])
  fix j assume "j < length db" "dagState (db ! j) = LNK_DAG_DONE"
  then show "dagState (set_info i (\<lambda>info. info\<lparr>dagState := LNK_DAG_UNDER_CONSTRUCTION\<rparr>) db ! j) = LNK_DAG_DONE"
    using assms(3) by (cases "j = i") auto
next
  fix j assume "j < length (set_info i (\<lambda>info. info\<lparr>dagState := LNK_DAG_UNDER_CONSTRUCTION\<rparr>) db)"
    "dagState (set_info i (\<lambda>info. info\<lparr>dagState := LNK_DAG_UNDER_CONSTRUCTION\<rparr>) db ! j) = LNK_DAG_DONE"
  then show "bound (set_info i (\<lambda>info. info\<lparr>dagState := LNK_DAG_UNDER_CONSTRUCTION\<rparr>) db ! j)"
    using link_invD(7) [OF assms(1), of j] assms(2) by (cases "j = i") auto
qed simp

lemma inv_extend:
  assumes "link_inv A db dg" and "\<forall>info \<in> set ext. dagState info = LNK_DAG_NOT_STARTED"
  shows "link_inv A (db @ ext) dg"
proof (rule inv_update [OF assms(1)])
  fix j assume j: "j < length (db @ ext)" "dagState ((db @ ext) ! j) = LNK_DAG_DONE"
  show "bound ((db @ ext) ! j)"
  proof (cases "j < length db")
    case True
    then show ?thesis using link_invD(7) [OF assms(1) True] j(2) by (simp add: nth_append)
  next
    case False
    then have "(db @ ext) ! j \<in> set ext" using j(1) by (simp add: nth_append)
    then show ?thesis using assms(2) j(2) by fastforce
  qed
qed (simp_all add: nth_append)

lemma inv_remove:
  assumes inv: "link_inv A db dg" and "0 \<le> dbIndex (nodes dg cur)" and "obj_of dg cur < length db"
    and "dagState (db ! obj_of dg cur) = LNK_DAG_DONE"
  shows "link_inv (A - {cur}) db dg"
  unfolding link_inv_def
proof (intro conjI ballI allI impI)
  fix k assume "k \<in> {1 ..< dag_next dg} - (A - {cur})"
  then show "0 \<le> dbIndex (nodes dg k)" "obj_of dg k < length db" "dagState (db ! obj_of dg k) = LNK_DAG_DONE"
    using link_invD(8) [OF inv, of k] assms(2-4) by (cases "k = cur"; auto)+
qed (use link_invD [OF inv] in auto)

lemma inv_finish:
  assumes inv: "link_inv A db dg" and cur: "0 \<le> dbIndex (nodes dg cur)" "obj_of dg cur < length db"
    and f: "\<And>info. dagState (f info) = LNK_DAG_DONE" "bound (f (db ! obj_of dg cur))"
  shows "link_inv (A - {cur}) (set_info (obj_of dg cur) f db) dg"
proof (rule inv_remove)
  let ?i = "obj_of dg cur"
  show "link_inv A (set_info ?i f db) dg"
  proof (rule inv_update [OF inv])
    fix j assume "j < length db" "dagState (db ! j) = LNK_DAG_DONE"
    then show "dagState (set_info ?i f db ! j) = LNK_DAG_DONE" using f(1) by (cases "j = ?i") auto
  next
    fix j assume "j < length (set_info ?i f db)" "dagState (set_info ?i f db ! j) = LNK_DAG_DONE"
    then show "bound (set_info ?i f db ! j)" using f(2) link_invD(7) [OF inv, of j] cur(2) by (cases "j = ?i") auto
  qed simp
qed (use cur f(1) in simp_all)

text \<open>The state of a node that is entered and found complete.\<close>

lemma inv_known:
  assumes inv: "link_inv A db dg" and cur: "cur \<in> A" "0 \<le> dbIndex (nodes dg cur)" "obj_of dg cur < length db"
    "dagState (db ! obj_of dg cur) = LNK_DAG_DONE"
  shows "link_inv (A - {cur}) db (set_node cur (\<lambda>n. n\<lparr>child := c\<rparr>) dg)"
proof -
  let ?dg = "set_node cur (\<lambda>n. n\<lparr>child := c\<rparr>) dg"
  have same: "sib (nodes ?dg k) = sib (nodes dg k)" "dbIndex (nodes ?dg k) = dbIndex (nodes dg k)"
    "lastChild (nodes ?dg k) = lastChild (nodes dg k)" "k \<noteq> cur \<Longrightarrow> child (nodes ?dg k) = child (nodes dg k)" for k
    by (cases "k = cur"; simp)+
  note inv = inv_remove [OF inv cur(2,3,4)]
  show ?thesis
    using link_invD [OF inv]
    unfolding link_inv_def obj_of_def same(1-3) set_node_simps(1) by (auto simp: same(4))
qed

text \<open>A node is added.\<close>

lemma addChild_dag:
  assumes "link_inv A db dg" and "cur \<in> A" and "lnk_SearchDag_addChild cur ix dg = (st, new, dg')" and "is_ok st"
  defines "dg1 \<equiv> set_node (dag_next dg) (\<lambda>_. lnk_SearchNode_init ix) (dg\<lparr>dag_next := dag_next dg + 1\<rparr>)"
    and "lc \<equiv> lastChild (nodes dg cur)"
  shows "new = dag_next dg" and "new \<le> LNK_MAX_DAG_NODES" and "0 < cur" and "cur < new"
    and "lc \<noteq> 0 \<Longrightarrow> cur < lc \<and> lc < new"
    and "dg' = (if lc = 0 then set_node cur (\<lambda>n. n\<lparr>child := new, lastChild := new\<rparr>) dg1
      else set_node cur (\<lambda>n. n\<lparr>lastChild := new\<rparr>) (set_node lc (\<lambda>n. n\<lparr>sib := new\<rparr>) dg1))"
proof -
  have range: "0 < cur" "cur < dag_next dg" "dag_next dg \<le> Suc LNK_MAX_DAG_NODES" "cur \<noteq> dag_next dg"
    using link_invD(2,3) [OF assms(1)] assms(2) by auto
  have get: "lnk_SearchDag_get cur = (st_ok, cur)" using range by (simp add: lnk_SearchDag_get_def)
  have room: "dag_next dg \<le> LNK_MAX_DAG_NODES"
    using assms(3,4) by (auto simp: lnk_SearchDag_addChild_def get lnk_codes split: if_splits)
  have lc: "lc \<noteq> 0 \<Longrightarrow> cur < lc \<and> lc < dag_next dg" using link_invD(5) [OF assms(1,2)] by (auto simp: lc_def)
  have cond: "\<not> dag_next dg > LNK_MAX_DAG_NODES" "is_ok st_ok" using room by simp_all
  have same: "lastChild (nodes dg1 cur) = lc" using range(4) by (simp add: dg1_def lc_def)
  have "lnk_SearchDag_addChild cur ix dg = (st_ok, dag_next dg,
      if lc = 0 then set_node cur (\<lambda>n. n\<lparr>child := dag_next dg, lastChild := dag_next dg\<rparr>) dg1
      else set_node cur (\<lambda>n. n\<lparr>lastChild := dag_next dg\<rparr>) (set_node lc (\<lambda>n. n\<lparr>sib := dag_next dg\<rparr>) dg1))"
  proof (cases "lc = 0")
    case True
    then show ?thesis
      unfolding lnk_SearchDag_addChild_def get Let_def prod.case dg1_def [symmetric]
      by (simp only: cond same simp_thms if_True if_False)
  next
    case False
    then have g: "lnk_SearchDag_get lc = (st_ok, lc)" using lc room by (simp add: lnk_SearchDag_get_def)
    show ?thesis
      using False unfolding lnk_SearchDag_addChild_def get Let_def prod.case dg1_def [symmetric]
      by (simp only: cond same g prod.case simp_thms if_True if_False)
  qed
  then have "new = dag_next dg \<and> dg' = (if lc = 0 then set_node cur (\<lambda>n. n\<lparr>child := dag_next dg, lastChild := dag_next dg\<rparr>) dg1
      else set_node cur (\<lambda>n. n\<lparr>lastChild := dag_next dg\<rparr>) (set_node lc (\<lambda>n. n\<lparr>sib := dag_next dg\<rparr>) dg1))"
    unfolding assms(3) prod.inject by blast
  then show "new = dag_next dg" "new \<le> LNK_MAX_DAG_NODES" "0 < cur" "cur < new" "lc \<noteq> 0 \<Longrightarrow> cur < lc \<and> lc < new"
    "dg' = (if lc = 0 then set_node cur (\<lambda>n. n\<lparr>child := new, lastChild := new\<rparr>) dg1
      else set_node cur (\<lambda>n. n\<lparr>lastChild := new\<rparr>) (set_node lc (\<lambda>n. n\<lparr>sib := new\<rparr>) dg1))"
    using room range lc by simp_all
qed

lemma addChild_nodes:
  assumes "link_inv A db dg" and "cur \<in> A" and "lnk_SearchDag_addChild cur ix dg = (st, new, dg')" and "is_ok st"
  defines "lc \<equiv> lastChild (nodes dg cur)"
  shows "nodes dg' new = lnk_SearchNode_init ix" and "dag_next dg' = Suc new"
    and "k \<noteq> new \<Longrightarrow> k \<noteq> 0 \<or> lc \<noteq> 0 \<Longrightarrow> nodes dg' k =
      (if k = cur then (if lc = 0 then (nodes dg k)\<lparr>child := new, lastChild := new\<rparr> else (nodes dg k)\<lparr>lastChild := new\<rparr>)
       else if k = lc then (nodes dg k)\<lparr>sib := new\<rparr> else nodes dg k)"
    and "lc = 0 \<Longrightarrow> nodes dg' 0 = nodes dg 0"
  using addChild_dag [OF assms(1-4)] unfolding lc_def [symmetric] by (auto simp: set_node_simps)

lemma addChild_ok:
  assumes "link_inv A db dg" and "cur \<in> A" and "lnk_SearchDag_addChild cur ix dg = (st, new, dg')" and "is_ok st"
  shows "new = dag_next dg \<and> dag_next dg' = Suc new \<and> new \<le> LNK_MAX_DAG_NODES \<and> nodes dg' new = lnk_SearchNode_init ix \<and>
    (\<forall>k. k \<noteq> new \<longrightarrow> dbIndex (nodes dg' k) = dbIndex (nodes dg k)) \<and>
    (\<forall>k. k \<noteq> new \<longrightarrow> sib (nodes dg' k) = sib (nodes dg k) \<or> k < new \<and> sib (nodes dg' k) = new) \<and>
    (\<forall>k. k \<noteq> new \<and> k \<noteq> cur \<longrightarrow> lastChild (nodes dg' k) = lastChild (nodes dg k) \<and> child (nodes dg' k) = child (nodes dg k)) \<and>
    lastChild (nodes dg' cur) = new \<and> (child (nodes dg' cur) = new \<or> child (nodes dg' cur) = child (nodes dg cur))"
proof -
  note d = addChild_dag [OF assms] and n = addChild_nodes [OF assms]
  have "dbIndex (nodes dg' k) = dbIndex (nodes dg k) \<and>
      (sib (nodes dg' k) = sib (nodes dg k) \<or> k < new \<and> sib (nodes dg' k) = new) \<and>
      (k \<noteq> cur \<longrightarrow> lastChild (nodes dg' k) = lastChild (nodes dg k) \<and> child (nodes dg' k) = child (nodes dg k))"
    if "k \<noteq> new" for k
    using n(3) [OF that] n(4) d(5) by (cases "k = 0 \<and> lastChild (nodes dg cur) = 0") auto
  moreover have "lastChild (nodes dg' cur) = new \<and> (child (nodes dg' cur) = new \<or> child (nodes dg' cur) = child (nodes dg cur))"
    using n(3) [of cur] d(3,4) by auto
  ultimately show ?thesis using d(1,2) n(1,2) by blast
qed

lemma inv_child:
  assumes inv: "link_inv A db dg" and "cur \<in> A" and "lnk_SearchDag_addChild cur ix dg = (st, new, dg')" and "is_ok st"
  shows "link_inv (insert new A) db dg'"
proof -
  note c = addChild_ok [OF assms]
  have new: "new = dag_next dg" "dag_next dg' = Suc new" "new \<le> LNK_MAX_DAG_NODES" "nodes dg' new = lnk_SearchNode_init ix"
    using c by blast+
  have lcs: "lastChild (nodes dg' cur) = new" "child (nodes dg' cur) = new \<or> child (nodes dg' cur) = child (nodes dg cur)"
    and others: "k \<noteq> new \<Longrightarrow> k \<noteq> cur \<Longrightarrow> lastChild (nodes dg' k) = lastChild (nodes dg k)"
    "k \<noteq> new \<Longrightarrow> k \<noteq> cur \<Longrightarrow> child (nodes dg' k) = child (nodes dg k)" for k
    using c by blast+
  have curnew: "1 \<le> cur" "cur < new" using link_invD(3) [OF inv] assms(2) new(1) by auto
  show ?thesis
    unfolding link_inv_def
  proof (intro conjI ballI allI impI)
    show "2 \<le> dag_next dg'" "dag_next dg' \<le> Suc LNK_MAX_DAG_NODES" using new link_invD(1) [OF inv] by simp_all
    show "insert new A \<subseteq> {1 ..< dag_next dg'}" using link_invD(3) [OF inv] new curnew by auto
  next
    fix k assume k: "k \<in> {1 ..< dag_next dg'}" "sib (nodes dg' k) \<noteq> 0"
    then have "k \<noteq> new" using new(4) by (auto simp: lnk_SearchNode_init_def)
    then have "sib (nodes dg' k) = sib (nodes dg k) \<or> k < new \<and> sib (nodes dg' k) = new" using c by blast
    then show "k < sib (nodes dg' k)" "sib (nodes dg' k) < dag_next dg'"
      using link_invD(4) [OF inv, of k] k new \<open>k \<noteq> new\<close> by auto
  next
    fix k assume k: "k \<in> insert new A" and l: "lastChild (nodes dg' k) \<noteq> 0"
    then have "k \<noteq> new" using new(4) by (auto simp: lnk_SearchNode_init_def)
    then show "k < lastChild (nodes dg' k)" "lastChild (nodes dg' k) < dag_next dg'"
      using lcs(1) others(1) [of k] link_invD(5) [OF inv, of k] k l curnew new(1,2) by (cases "k = cur"; simp)+
  next
    fix k assume k: "k \<in> insert new A" and l: "child (nodes dg' k) \<noteq> 0"
    then have "k \<noteq> new" using new(4) by (auto simp: lnk_SearchNode_init_def)
    then show "k < child (nodes dg' k)" "child (nodes dg' k) < dag_next dg'"
      using lcs(2) others(2) [of k] link_invD(6) [OF inv, of k] k l curnew new(1,2) by (cases "k = cur"; auto)+
  next
    fix k assume "k \<in> {1 ..< dag_next dg'} - insert new A"
    then have k: "k \<in> {1 ..< dag_next dg}" "k \<notin> A" "k \<noteq> new" using new(1,2) by auto
    then have "dbIndex (nodes dg' k) = dbIndex (nodes dg k)" using c by blast
    then show "0 \<le> dbIndex (nodes dg' k)" "obj_of dg' k < length db" "dagState (db ! obj_of dg' k) = LNK_DAG_DONE"
      using link_invD(8) [OF inv k(1,2)] by (simp_all add: obj_of_def)
  qed (use link_invD(7) [OF inv] in blast)
qed

lemma ObjDb_add_db:
  assumes "lnk_ObjDb_add m a state bnd so db = Some (st, ix, db')"
  shows "\<exists>ext. db' = db @ ext \<and> (\<forall>info \<in> set ext. dagState info = state)"
  using assms by (auto simp: lnk_ObjDb_add_def bind_eq_Some_conv split: if_splits)

lemma addNeeded_db:
  assumes "lnk_ObjDb_addNeeded sys so db w = Some (st, ix, db', w')"
  shows "\<exists>ext. db' = db @ ext \<and> (\<forall>info \<in> set ext. dagState info = LNK_DAG_NOT_STARTED)"
  using assms
  by (auto simp: lnk_ObjDb_addNeeded_def Let_def bind_eq_Some_conv split: if_splits prod.splits dest: ObjDb_add_db)

text \<open>What a completed part of a link keeps: states of objects already started, but for those in \<open>X\<close>.\<close>

definition keeps :: "nat set \<Rightarrow> lnk_ObjDb \<Rightarrow> lnk_SearchDag \<Rightarrow> lnk_ObjDb \<Rightarrow> lnk_SearchDag \<Rightarrow> bool" where
  "keeps X db dg db' dg' \<longleftrightarrow> length db \<le> length db' \<and> dag_next dg \<le> dag_next dg' \<and>
     (\<forall>k < dag_next dg. dbIndex (nodes dg' k) = dbIndex (nodes dg k)) \<and>
     (\<forall>i < length db. i \<notin> X \<longrightarrow> dagState (db ! i) \<noteq> LNK_DAG_NOT_STARTED \<longrightarrow> dagState (db' ! i) = dagState (db ! i))"

lemma keeps_trans: "keeps X db dg db1 dg1 \<Longrightarrow> keeps X db1 dg1 db2 dg2 \<Longrightarrow> keeps X db dg db2 dg2"
  by (auto simp: keeps_def)

lemma keeps_mono: "keeps X db dg db' dg' \<Longrightarrow> X \<subseteq> Y \<Longrightarrow> keeps Y db dg db' dg'"
  by (auto simp: keeps_def)

lemma keeps_start_object:
  "keeps {i} (set_info i f db) dg db' dg' \<Longrightarrow> dagState (db ! i) = LNK_DAG_NOT_STARTED \<Longrightarrow> keeps {} db dg db' dg'"
  unfolding keeps_def by (auto simp: set_info_def nth_list_update)

lemma keeps_extend: "keeps X db dg (db @ ext) dg"
  by (simp add: keeps_def nth_append)

lemma keeps_set_info: "keeps {i} db dg (set_info i f db) dg"
  by (simp add: keeps_def set_info_def)

text \<open>The point where a link stands, with the nodes under construction.\<close>

fun node_at :: "link_point \<Rightarrow> nat" where
  "node_at (Enter cur) = cur" | "node_at (Needed cur i dyn) = cur"

fun own_object :: "link_point \<Rightarrow> nat set" where
  "own_object (Enter cur) = {}" | "own_object (Needed cur i dyn) = {i}"

definition link_pre :: "nat set \<Rightarrow> link_point \<Rightarrow> lnk_ObjDb \<Rightarrow> lnk_SearchDag \<Rightarrow> bool" where
  "link_pre A point db dg \<longleftrightarrow> link_inv A db dg \<and> node_at point \<in> A \<and> (\<forall>a \<in> A. a \<le> node_at point) \<and>
     (case point of Enter cur \<Rightarrow> True
      | Needed cur i dyn \<Rightarrow> 0 \<le> dbIndex (nodes dg cur) \<and> i = obj_of dg cur \<and> i < length db \<and>
          dagState (db ! i) = LNK_DAG_UNDER_CONSTRUCTION)"

definition link_post :: "nat set \<Rightarrow> link_point \<Rightarrow> lnk_ObjDb \<Rightarrow> lnk_SearchDag \<Rightarrow> lnk_ObjDb \<Rightarrow> lnk_SearchDag \<Rightarrow> bool" where
  "link_post A point db dg db' dg' \<longleftrightarrow> link_inv (A - {node_at point}) db' dg' \<and> keeps (own_object point) db dg db' dg'"

text \<open>How the state of a link passes from one point to the next.\<close>

lemma enter_object:
  assumes "link_pre A (Enter cur) db dg" and "lnk_ObjDb_get db (dbIndex (nodes dg cur)) = (st, i)" and "is_ok st"
    and "dagState (db ! i) = LNK_DAG_NOT_STARTED"
  defines "db' \<equiv> set_info i (\<lambda>info. info\<lparr>dagState := LNK_DAG_UNDER_CONSTRUCTION\<rparr>) db"
  shows "link_pre A (Needed cur i dyn) db' dg"
    and "link_post A (Needed cur i dyn) db' dg db2 dg2 \<Longrightarrow> link_post A (Enter cur) db dg db2 dg2"
proof -
  have i: "0 \<le> dbIndex (nodes dg cur)" "i = obj_of dg cur" "i < length db"
    using assms(2,3) by (auto simp: lnk_ObjDb_get_def obj_of_def lnk_codes split: if_splits)
  show "link_pre A (Needed cur i dyn) db' dg"
    using assms(1,4) i inv_start [of A db dg i] by (simp add: link_pre_def db'_def)
  show "link_post A (Enter cur) db dg db2 dg2" if "link_post A (Needed cur i dyn) db' dg db2 dg2"
    using that keeps_start_object [OF _ assms(4)] by (auto simp: link_post_def db'_def)
qed

lemma enter_known:
  assumes "link_pre A (Enter cur) db dg" and "lnk_ObjDb_get db (dbIndex (nodes dg cur)) = (st, i)" and "is_ok st"
    and "dagState (db ! i) = LNK_DAG_DONE"
  shows "link_post A (Enter cur) db dg db (set_node cur (\<lambda>n. n\<lparr>child := c\<rparr>) dg)"
proof -
  have i: "0 \<le> dbIndex (nodes dg cur)" "i = obj_of dg cur" "i < length db"
    using assms(2,3) by (auto simp: lnk_ObjDb_get_def obj_of_def lnk_codes split: if_splits)
  have "dbIndex (nodes (set_node cur (\<lambda>n. n\<lparr>child := c\<rparr>) dg) k) = dbIndex (nodes dg k)" for k by (cases "k = cur") simp_all
  then show ?thesis
    using assms(1,4) i inv_known [of A db dg cur c] by (simp add: link_pre_def link_post_def keeps_def)
qed

lemma needed_child:
  assumes pre: "link_pre A (Needed cur i dyn) db dg" and add: "lnk_ObjDb_addNeeded sys so db w = Some (st, ix, db1, w1)"
    and new: "lnk_SearchDag_addChild cur ix dg = (st', new, dg1)" "is_ok st'"
  shows "link_pre (insert new A) (Enter new) db1 dg1"
    and "dag_next dg < dag_next dg1"
    and "link_post (insert new A) (Enter new) db1 dg1 db2 dg2 \<Longrightarrow> link_pre A (Needed cur i dyn') db2 dg2"
    and "link_post (insert new A) (Enter new) db1 dg1 db2 dg2 \<Longrightarrow> link_post A (Needed cur i dyn') db2 dg2 db3 dg3 \<Longrightarrow>
      link_post A (Needed cur i dyn) db dg db3 dg3"
proof -
  obtain ext where ext: "db1 = db @ ext" "\<forall>info \<in> set ext. dagState info = LNK_DAG_NOT_STARTED"
    using addNeeded_db [OF add] by blast
  have inv: "link_inv A db dg" and cur: "cur \<in> A" "\<forall>a \<in> A. a \<le> cur" and i: "0 \<le> dbIndex (nodes dg cur)" "i = obj_of dg cur"
    "i < length db" "dagState (db ! i) = LNK_DAG_UNDER_CONSTRUCTION"
    using pre by (auto simp: link_pre_def)
  have inv1: "link_inv A db1 dg" using inv_extend [OF inv ext(2)] by (simp add: ext(1))
  note c = addChild_ok [OF inv cur(1) new]
  have curnew: "cur < new" "new \<notin> A" "new = dag_next dg" using link_invD(3) [OF inv] cur(1) c by auto
  show "dag_next dg < dag_next dg1" using c by simp
  show "link_pre (insert new A) (Enter new) db1 dg1"
    using inv_child [OF inv1 cur(1) new] cur(2) curnew(1) by (auto simp: link_pre_def)
  have k1: "keeps X db dg db1 dg1" for X using c by (auto simp: keeps_def ext(1) nth_append)
  show pre2: "link_pre A (Needed cur i dyn') db2 dg2" if post: "link_post (insert new A) (Enter new) db1 dg1 db2 dg2"
  proof -
    have k2: "keeps {} db dg db2 dg2" using keeps_trans [OF k1] post by (simp add: link_post_def)
    have "dbIndex (nodes dg2 cur) = dbIndex (nodes dg cur)" using k2 curnew(1,3) by (simp add: keeps_def)
    moreover have "i < length db2" "dagState (db2 ! i) = LNK_DAG_UNDER_CONSTRUCTION" using k2 i by (auto simp: keeps_def)
    moreover have "insert new A - {new} = A" using curnew(2) by blast
    ultimately show ?thesis using post cur i by (simp add: link_pre_def link_post_def obj_of_def)
  qed
  show "link_post A (Needed cur i dyn) db dg db3 dg3"
    if "link_post (insert new A) (Enter new) db1 dg1 db2 dg2" "link_post A (Needed cur i dyn') db2 dg2 db3 dg3"
  proof -
    have "keeps {i} db1 dg1 db2 dg2" using that(1) keeps_mono [of "{}"] by (auto simp: link_post_def)
    then have "keeps {i} db dg db3 dg3" using that(2) keeps_trans k1 by (metis link_post_def own_object.simps(2))
    then show ?thesis using that(2) by (simp add: link_post_def)
  qed
qed

lemma finish_post:
  assumes pre: "link_pre A (Needed cur i dyn) db dg" and fin: "finish_object sys cur i (db, dg, w) = Some (st, db', dg', w')"
    and ok: "is_ok st"
  shows "link_post A (Needed cur i dyn) db dg db' dg'"
proof -
  let ?f = "\<lambda>info. info\<lparr>dag := child (nodes dg cur), dagState := LNK_DAG_DONE\<rparr>"
  have inv: "link_inv A db dg" and i: "0 \<le> dbIndex (nodes dg cur)" "i = obj_of dg cur" "i < length db"
    using pre by (auto simp: link_pre_def)
  obtain f where f: "db' = set_info i f db" "dg' = dg" "\<And>info. dagState (f info) = LNK_DAG_DONE" "bound (f (db ! i))"
  proof (cases "bound (db ! i)")
    case True
    then have "db' = set_info i ?f db" "dg' = dg" using fin i(3) by (auto simp: finish_object_def Let_def)
    then show ?thesis by (rule that) (simp_all add: True)
  next
    case False
    have "set_info i (\<lambda>info. info\<lparr>bound := True\<rparr>) (set_info i ?f db) = set_info i (\<lambda>info. (?f info)\<lparr>bound := True\<rparr>) db"
      using i(3) by (simp add: set_info_def)
    then have "db' = set_info i (\<lambda>info. (?f info)\<lparr>bound := True\<rparr>) db" "dg' = dg"
      using fin False i(3) ok by (auto simp: finish_object_def Let_def bind_eq_Some_conv split: if_splits)
    then show ?thesis by (rule that) simp_all
  qed
  show ?thesis
    using inv_finish [OF inv i(1) _ f(3)] f(4) i keeps_set_info [of i db dg f] by (simp add: link_post_def f(1,2))
qed

lemma pre_scope_ready: "link_pre A (Needed cur i dyn) db dg \<Longrightarrow> scope_ready db dg (child (nodes dg cur))"
  using inv_scope_ready by (auto simp: link_pre_def)

lemmas link_from_induct = link_from.raw_induct [rotated, consumes 1, case_names step]

lemma unknown_state: "s \<noteq> LNK_DAG_UNDER_CONSTRUCTION \<Longrightarrow> s \<noteq> LNK_DAG_DONE \<Longrightarrow> s = LNK_DAG_NOT_STARTED"
  by (cases s) auto

lemma get_node: "link_pre A point db dg \<Longrightarrow> lnk_SearchDag_get (node_at point) = (st_ok, node_at point)"
  using link_invD(2,3) [of A db dg] by (auto simp: link_pre_def lnk_SearchDag_get_def)

lemma loop_end: "elf_Dynamic_isSentinel (mem w) dyn \<Longrightarrow> link_from finish sys (Needed cur i dyn) (db, dg, w) = finish cur i (db, dg, w)"
  by (subst link_from.simps) simp

lemma loop_skip:
  "\<not> elf_Dynamic_isSentinel (mem w) dyn \<Longrightarrow> elf_Dynamic_needed (mem w) dyn (dynStringtab (elfObject (db ! i))) = 0 \<Longrightarrow>
    link_from finish sys (Needed cur i dyn) (db, dg, w) = link_from finish sys (Needed cur i (dyn + 8)) (db, dg, w)"
  by (subst link_from.simps) (simp add: Let_def)

subsection \<open>The scope of an object is what it needs\<close>

text \<open>The children of a node under construction, in order, and what a link below a node keeps.\<close>

definition children :: "lnk_SearchDag \<Rightarrow> nat \<Rightarrow> int list \<Rightarrow> bool" where
  "children dg cur ixs \<longleftrightarrow> (\<exists>ks. scope dg (child (nodes dg cur)) ks \<and> map (\<lambda>k. dbIndex (nodes dg k)) ks = ixs \<and>
     sorted_wrt (<) ks \<and> (\<forall>k \<in> set ks. cur < k \<and> k < dag_next dg) \<and> lastChild (nodes dg cur) = (if ks = [] then 0 else last ks))"

definition kept_links :: "nat \<Rightarrow> lnk_SearchDag \<Rightarrow> lnk_SearchDag \<Rightarrow> bool" where
  "kept_links cur dg dg' \<longleftrightarrow> (\<forall>k \<le> cur. sib (nodes dg' k) = sib (nodes dg k)) \<and>
     (\<forall>k < cur. child (nodes dg' k) = child (nodes dg k) \<and> lastChild (nodes dg' k) = lastChild (nodes dg k))"

lemma kept_links_refl [simp]: "kept_links cur dg dg"
  by (simp add: kept_links_def)

lemma kept_links_trans: "kept_links cur dg dg1 \<Longrightarrow> kept_links new dg1 dg2 \<Longrightarrow> cur < new \<Longrightarrow> kept_links cur dg dg2"
  by (simp add: kept_links_def)

lemma kept_links_step: "kept_links cur dg dg1 \<Longrightarrow> kept_links cur dg1 dg2 \<Longrightarrow> kept_links cur dg dg2"
  by (simp add: kept_links_def)

lemma scope_kept: "scope dg l ks \<Longrightarrow> \<forall>k \<in> set ks. sib (nodes dg' k) = sib (nodes dg k) \<Longrightarrow> scope dg' l ks"
  by (induction ks arbitrary: l) auto

lemma scope_snoc:
  "scope dg l ks \<Longrightarrow> ks \<noteq> [] \<Longrightarrow> sorted_wrt (<) ks \<Longrightarrow> \<forall>k \<in> set ks. k \<noteq> last ks \<longrightarrow> sib (nodes dg' k) = sib (nodes dg k) \<Longrightarrow>
    sib (nodes dg' (last ks)) = new \<Longrightarrow> new \<noteq> 0 \<Longrightarrow> sib (nodes dg' new) = 0 \<Longrightarrow> scope dg' l (ks @ [new])"
proof (induction ks arbitrary: l)
  case (Cons k ks)
  show ?case
  proof (cases "ks = []")
    case False
    then have "last ks \<in> set ks" by simp
    then have "k \<noteq> last ks" using Cons.prems(3) by auto
    then show ?thesis using Cons False by auto
  qed (use Cons.prems in auto)
qed simp

lemma children_add:
  assumes "link_inv A db dg" and "cur \<in> A" and "lnk_SearchDag_addChild cur ix dg = (st, new, dg')" and "is_ok st"
    and ch: "children dg cur ixs"
  shows "children dg' cur (ixs @ [ix])" and "children dg' new []" and "kept_links cur dg dg'"
proof -
  note d = addChild_dag [OF assms(1-4)] and n = addChild_nodes [OF assms(1-4)]
  obtain ks where ks: "scope dg (child (nodes dg cur)) ks" "map (\<lambda>k. dbIndex (nodes dg k)) ks = ixs" "sorted_wrt (<) ks"
    "\<forall>k \<in> set ks. cur < k \<and> k < new" and lc: "lastChild (nodes dg cur) = (if ks = [] then 0 else last ks)"
    using ch d(1) unfolding children_def by blast
  have nk: "nodes dg' k = (if k = last ks then (nodes dg k)\<lparr>sib := new\<rparr> else nodes dg k)" if "k \<in> set ks" for k
    using n(3) [of k] that ks(4) lc by (cases "ks = []") auto
  have new: "new \<noteq> 0" "sib (nodes dg' new) = 0" "dbIndex (nodes dg' new) = ix" using d(3,4) by (simp_all add: n(1) lnk_SearchNode_init_def)
  have lc0: "ks \<noteq> [] \<Longrightarrow> last ks \<noteq> 0" using ks(4) d(3) last_in_set [of ks] by fastforce
  have cur': "lastChild (nodes dg' cur) = new" "child (nodes dg' cur) = (if ks = [] then new else child (nodes dg cur))"
    using n(3) [of cur] d(3,4) lc lc0 by auto
  have "scope dg' (child (nodes dg' cur)) (ks @ [new])"
  proof (cases "ks = []")
    case True
    then show ?thesis using cur' new by simp
  next
    case False
    then show ?thesis using scope_snoc [OF ks(1) False ks(3), of dg' new] nk new cur'(2) by simp
  qed
  moreover have "map (\<lambda>k. dbIndex (nodes dg' k)) ks = ixs" using nk ks(2) by (metis (no_types, lifting) lnk_SearchNode.select_convs(1)
      lnk_SearchNode.surjective lnk_SearchNode.update_convs(2) map_eq_conv)
  ultimately show "children dg' cur (ixs @ [ix])"
    using ks(3,4) d(4) n(2) new(3) cur'(1) unfolding children_def
    by (intro exI [of _ "ks @ [new]"]) (auto simp: sorted_wrt_append less_Suc_eq)
  show "children dg' new []"
    unfolding children_def by (rule exI [of _ "[]"]) (simp add: n(1) lnk_SearchNode_init_def)
  have "nodes dg' k = nodes dg k" if "k < cur" for k
    using n(3) [of k] n(4) that d(4,5) by (cases "k = 0 \<and> lastChild (nodes dg cur) = 0") auto
  moreover have "sib (nodes dg' cur) = sib (nodes dg cur)" using n(3) [of cur] d(3,4) by auto
  ultimately show "kept_links cur dg dg'" by (auto simp: kept_links_def le_less)
qed

lemma children_kept:
  assumes "children dg cur ixs" and "kept_links new dg dg'" and "cur < new" and "dag_next dg = Suc new" and "keeps X db dg db' dg'"
  shows "children dg' cur ixs"
proof -
  obtain ks where ks: "scope dg (child (nodes dg cur)) ks" "map (\<lambda>k. dbIndex (nodes dg k)) ks = ixs" "sorted_wrt (<) ks"
    "\<forall>k \<in> set ks. cur < k \<and> k < dag_next dg" "lastChild (nodes dg cur) = (if ks = [] then 0 else last ks)"
    using assms(1) unfolding children_def by blast
  have same: "sib (nodes dg' k) = sib (nodes dg k)" "dbIndex (nodes dg' k) = dbIndex (nodes dg k)" if "k \<in> set ks" for k
    using that ks(4) assms(2,4,5) by (auto simp: kept_links_def keeps_def)
  have cur: "child (nodes dg' cur) = child (nodes dg cur)" "lastChild (nodes dg' cur) = lastChild (nodes dg cur)"
    using assms(2,3) by (simp_all add: kept_links_def)
  have "scope dg' (child (nodes dg' cur)) ks" unfolding cur(1) by (rule scope_kept [OF ks(1)]) (simp add: same)
  moreover have "map (\<lambda>k. dbIndex (nodes dg' k)) ks = ixs" unfolding ks(2) [symmetric] by (simp add: same)
  moreover have "\<forall>k \<in> set ks. cur < k \<and> k < dag_next dg'" using ks(4) assms(5) by (auto simp: keeps_def)
  ultimately show ?thesis using ks(3,5) cur(2) unfolding children_def by auto
qed

lemma children_ready:
  assumes pre: "link_pre A (Needed cur i dyn) db dg" and ch: "children dg cur ixs"
  shows "needs_ready db dg cur ixs"
proof -
  have inv: "link_inv A db dg" and cur: "cur \<in> A" "\<forall>a \<in> A. a \<le> cur" using pre by (simp_all add: link_pre_def)
  obtain ks where ks: "scope dg (child (nodes dg cur)) ks" "map (\<lambda>k. dbIndex (nodes dg k)) ks = ixs"
    "\<forall>k \<in> set ks. cur < k \<and> k < dag_next dg"
    using ch unfolding children_def by blast
  have "0 \<le> dbIndex (nodes dg k) \<and> nat (dbIndex (nodes dg k)) < length db \<and>
      dagState (db ! nat (dbIndex (nodes dg k))) = LNK_DAG_DONE \<and> bound (db ! nat (dbIndex (nodes dg k)))" if "k \<in> set ks" for k
  proof -
    have k: "cur < k" "k \<in> {1 ..< dag_next dg}" using ks(3) that by auto
    then have "k \<notin> A" using cur(2) by auto
    then show ?thesis
      using link_invD(8) [OF inv k(2)] link_invD(7) [OF inv, of "obj_of dg k"] by (auto simp: obj_of_def)
  qed
  then show ?thesis unfolding needs_ready_def using ks(1,2) by (auto simp: ks(2) [symmetric])
qed

lemma finish_dag: "finish_object sys cur i (db, dg, w) = Some (st, db', dg', w') \<Longrightarrow> dg' = dg"
  by (auto simp: finish_object_def Let_def bind_eq_Some_conv split: if_splits)

definition link_goal :: "'l system \<Rightarrow> nat set \<Rightarrow> link_point \<Rightarrow> int list \<Rightarrow> 'l link_state \<Rightarrow> lnk_Status \<times> 'l link_state \<Rightarrow> bool" where
  "link_goal sys A point ixs s r \<longleftrightarrow> checked_link sys point ixs s = Some r \<and>
    (is_ok (fst r) \<longrightarrow> link_post A point (fst s) (fst (snd s)) (fst (snd r)) (fst (snd (snd r))) \<and>
       kept_links (node_at point) (fst (snd s)) (fst (snd (snd r))))"

definition link_start :: "nat set \<Rightarrow> link_point \<Rightarrow> int list \<Rightarrow> 'l link_state \<Rightarrow> bool" where
  "link_start A point ixs s \<longleftrightarrow> link_pre A point (fst s) (fst (snd s)) \<and> children (fst (snd s)) (node_at point) ixs \<and>
     (case point of Enter _ \<Rightarrow> ixs = [] | Needed _ _ _ \<Rightarrow> True)"

lemma needed_checked:
  assumes IH: "\<And>point s r A ixs. link finish sys point s = Some r \<Longrightarrow> link_start A point ixs s \<Longrightarrow> link_goal sys A point ixs s r"
    and pre: "link_pre A (Needed cur i dyn) db dg" and ch: "children dg cur ixs"
    and entry: "\<not> elf_Dynamic_isSentinel (mem w) dyn" "elf_Dynamic_needed (mem w) dyn (dynStringtab (elfObject (db ! i))) \<noteq> 0"
    and body: "lnk_ObjDb_addNeeded sys (elf_Dynamic_needed (mem w) dyn (dynStringtab (elfObject (db ! i)))) db w \<bind>
      (\<lambda>(st, dbIx, objDb, w). if \<not> is_ok st then Some (st, objDb, dg, w)
         else case lnk_SearchDag_addChild cur dbIx dg of (st, childLink, searchDag) \<Rightarrow>
           if \<not> is_ok st then Some (st, objDb, searchDag, w)
           else link finish sys (Enter childLink) (objDb, searchDag, w) \<bind>
             (\<lambda>(st, s). if \<not> is_ok st then Some (st, s) else link finish sys (Needed cur i (dyn + 8)) s)) = Some r"
  shows "link_goal sys A (Needed cur i dyn) ixs (db, dg, w) r"
proof -
  let ?n = "elf_Dynamic_needed (mem w) dyn (dynStringtab (elfObject (db ! i)))"
  note unf = checked_link.simps [of sys "Needed cur i dyn" ixs "(db, dg, w)", unfolded link_point.case prod.case Let_def]
  obtain st1 ix db1 w1 where add: "lnk_ObjDb_addNeeded sys ?n db w = Some (st1, ix, db1, w1)"
    using body by (auto simp: bind_eq_Some_conv)
  obtain st2 new dg1 where child: "lnk_SearchDag_addChild cur ix dg = (st2, new, dg1)" by (rule prod_cases3)
  show ?thesis
  proof (cases "is_ok st1 \<and> is_ok st2")
    case False
    then show ?thesis using body entry add child by (auto simp: link_goal_def unf split: if_splits)
  next
    case True
    then have ok: "is_ok st1" "is_ok st2" by simp_all
    obtain st3 s3 where sub: "link finish sys (Enter new) (db1, dg1, w1) = Some (st3, s3)"
      and rest: "(if \<not> is_ok st3 then Some (st3, s3) else link finish sys (Needed cur i (dyn + 8)) s3) = Some r"
      using body ok add child by (auto simp: bind_eq_Some_conv)
    obtain db2 dg2 w2 where s3: "s3 = (db2, dg2, w2)" by (rule prod_cases3)
    note c = needed_child [OF pre add child ok(2)]
    obtain ext where ext: "db1 = db @ ext" "\<forall>info \<in> set ext. dagState info = LNK_DAG_NOT_STARTED"
      using addNeeded_db [OF add] by blast
    have cur: "link_inv A db1 dg" "cur \<in> A" using pre inv_extend [OF _ ext(2)] by (auto simp: link_pre_def ext(1))
    note ch1 = children_add [OF cur child ok(2) ch]
    have new: "cur < new" "dag_next dg1 = Suc new" using addChild_dag(4) [OF cur child ok(2)] addChild_nodes(2) [OF cur child ok(2)] .
    have g1: "link_goal sys (insert new A) (Enter new) [] (db1, dg1, w1) (st3, s3)"
      using IH [OF sub] c(1) ch1(2) by (simp add: link_start_def)
    show ?thesis
    proof (cases "is_ok st3")
      case False
      then show ?thesis using rest g1 entry add child ok by (auto simp: link_goal_def unf s3)
    next
      case ok3: True
      then have post: "link_post (insert new A) (Enter new) db1 dg1 db2 dg2" and k1: "kept_links new dg1 dg2"
        using g1 by (simp_all add: link_goal_def s3)
      have "keeps {} db1 dg1 db2 dg2" using post by (simp add: link_post_def)
      from children_kept [OF ch1(1) k1 new this] have ch2: "children dg2 cur (ixs @ [ix])" .
      have "link finish sys (Needed cur i (dyn + 8)) s3 = Some r" using rest ok3 by simp
      from IH [OF this] have g2: "link_goal sys A (Needed cur i (dyn + 8)) (ixs @ [ix]) s3 r"
        using c(3) [OF post] ch2 by (simp add: link_start_def s3)
      have "checked_link sys (Needed cur i dyn) ixs (db, dg, w) = checked_link sys (Needed cur i (dyn + 8)) (ixs @ [ix]) s3"
        using g1 entry add child ok ok3 by (simp add: link_goal_def unf s3)
      moreover have "kept_links cur dg dg2" using kept_links_trans [OF ch1(3) k1 new(1)] .
      ultimately show ?thesis
        using g2 c(4) [OF post] kept_links_step by (fastforce simp: link_goal_def s3)
    qed
  qed
qed

lemma link_checked:
  assumes "link_from finish sys point s = Some r"
  shows "finish = finish_object sys \<Longrightarrow> link_start A point ixs s \<Longrightarrow> link_goal sys A point ixs s r"
  using assms
proof (induction arbitrary: A ixs rule: link_from_induct)
  case (step link finish sys point s r)
  obtain db dg w where s: "s = (db, dg, w)" by (rule prod_cases3)
  have pre: "link_pre A point db dg" and ch: "children dg (node_at point) ixs"
    using step.prems(2) by (simp_all add: s link_start_def)
  note IH = step.IH [OF _ step.prems(1)]
  show ?case
  proof (cases point)
    case (Enter cur)
    note get = get_node [OF pre, unfolded Enter node_at.simps]
    note pre = pre [unfolded Enter] and ch = ch [unfolded Enter node_at.simps]
    have ixs: "ixs = []" using step.prems(2) by (simp add: link_start_def Enter)
    obtain st i where i: "lnk_ObjDb_get db (dbIndex (nodes dg cur)) = (st, i)" by (rule prod.exhaust)
    note body = step.hyps [unfolded Enter s link_point.case prod.case get Let_def i]
    note unf = checked_link.simps [of sys "Enter cur" ixs "(db, dg, w)", unfolded link_point.case prod.case get Let_def i]
    consider (bad) "\<not> is_ok st" | (cycle) "is_ok st" "dagState (db ! i) = LNK_DAG_UNDER_CONSTRUCTION"
      | (known) "is_ok st" "dagState (db ! i) = LNK_DAG_DONE" | (new) "is_ok st" "dagState (db ! i) = LNK_DAG_NOT_STARTED"
      using unknown_state by blast
    then show ?thesis
    proof cases
      case bad
      then show ?thesis using body by (auto simp: link_goal_def unf Enter s)
    next
      case cycle
      then show ?thesis using body by (auto simp: link_goal_def unf Enter s lnk_codes)
    next
      case known
      then have r: "r = (st, db, set_node cur (\<lambda>n. n\<lparr>child := dag (db ! i)\<rparr>) dg, w)" using body by auto
      have "kept_links cur dg (set_node cur (\<lambda>n. n\<lparr>child := dag (db ! i)\<rparr>) dg)"
        by (auto simp: kept_links_def set_node_def)
      then show ?thesis
        using known r enter_known [OF pre i known] by (simp add: link_goal_def unf Enter s)
    next
      case new
      let ?p = "Needed cur i (dyntab (elfObject (db ! i)))"
      let ?s = "(set_info i (\<lambda>info. info\<lparr>dagState := LNK_DAG_UNDER_CONSTRUCTION\<rparr>) db, dg, w)"
      have "link finish sys ?p ?s = Some r" using body new by simp
      from IH [OF this] have g: "link_goal sys A ?p ixs ?s r"
        using enter_object(1) [OF pre i new] ch by (simp add: link_start_def)
      then show ?thesis
        using new enter_object(2) [OF pre i new] unf by (auto simp: link_goal_def Enter s ixs)
    qed
  next
    case (Needed cur i dyn)
    note pre = pre [unfolded Needed] and ch = ch [unfolded Needed node_at.simps]
    let ?n = "elf_Dynamic_needed (mem w) dyn (dynStringtab (elfObject (db ! i)))"
    note body = step.hyps [unfolded Needed s link_point.case prod.case Let_def]
    note unf = checked_link.simps [of sys "Needed cur i dyn" ixs "(db, dg, w)", unfolded link_point.case prod.case Let_def]
    consider (last) "elf_Dynamic_isSentinel (mem w) dyn" | (other) "\<not> elf_Dynamic_isSentinel (mem w) dyn" "?n = 0"
      | (needed) "\<not> elf_Dynamic_isSentinel (mem w) dyn" "?n \<noteq> 0"
      by blast
    then show ?thesis
    proof cases
      case last
      then have fin: "finish_object sys cur i (db, dg, w) = Some r" using body step.prems(1) by simp
      obtain st' db' dg' w' where r: "r = (st', db', dg', w')" by (rule prod_cases4)
      show ?thesis
        using last finish_post [OF pre fin [unfolded r]] finish_dag [OF fin [unfolded r]] fin children_ready [OF pre ch]
        by (simp add: link_goal_def unf Needed s r)
    next
      case other
      then have "link finish sys (Needed cur i (dyn + 8)) (db, dg, w) = Some r" using body by simp
      from IH [OF this] have "link_goal sys A (Needed cur i (dyn + 8)) ixs (db, dg, w) r"
        using pre ch by (auto simp: link_start_def link_pre_def)
      then show ?thesis using other by (auto simp: link_goal_def unf Needed s link_post_def)
    next
      case needed
      then show ?thesis
        using body unfolding Needed s by (intro needed_checked [OF IH pre ch needed]) simp_all
    qed
  qed
qed

lemma link_pre_root:
  assumes "dagState info = LNK_DAG_NOT_STARTED"
  shows "link_pre {1} (Enter 1) [info] (lnk_SearchDag_init 0)"
  using assms by (auto simp: link_pre_def link_inv_def lnk_SearchDag_init_def lnk_SearchNode_init_def LNK_MAX_DAG_NODES_def)

text \<open>
  C34: dependencies come first. Whenever a link from one fresh object returns, so does the run
  that checks, at the end of each dynamic section and before the object is finished and bound,
  that the scope of the object is the list of the objects which the needed names of the section
  got, in order, and that each of these is complete and bound; it returns the same. When the
  link succeeds every object it met is complete and bound.
\<close>

theorem bound_after_dependencies:
  assumes "dagState info = LNK_DAG_NOT_STARTED"
    and "innerLink sys 1 ([info], lnk_SearchDag_init 0, w) = Some (st, db, dg, w')"
  shows "checked_link sys (Enter 1) [] ([info], lnk_SearchDag_init 0, w) = Some (st, db, dg, w') \<and>
    (is_ok st \<longrightarrow> (\<forall>k \<in> {1 ..< dag_next dg}. obj_of dg k < length db \<and>
       dagState (db ! obj_of dg k) = LNK_DAG_DONE \<and> bound (db ! obj_of dg k)))"
proof -
  have "children (lnk_SearchDag_init 0) 1 []"
    unfolding children_def by (rule exI [of _ "[]"]) (simp add: lnk_SearchDag_init_def lnk_SearchNode_init_def)
  then have g: "link_goal sys {1} (Enter 1) [] ([info], lnk_SearchDag_init 0, w) (st, db, dg, w')"
    using link_checked [OF assms(2) [unfolded innerLink_def] refl] link_pre_root [OF assms(1)] by (simp add: link_start_def)
  have "obj_of dg k < length db \<and> dagState (db ! obj_of dg k) = LNK_DAG_DONE \<and> bound (db ! obj_of dg k)"
    if "is_ok st" "k \<in> {1 ..< dag_next dg}" for k
  proof -
    have inv: "link_inv {} db dg" using g that(1) by (simp add: link_goal_def link_post_def)
    show ?thesis using link_invD(8) [OF inv that(2)] link_invD(7) [OF inv] by simp
  qed
  then show ?thesis using g by (simp add: link_goal_def)
qed

subsection \<open>What a link relies on\<close>

text \<open>
  The data that a link follows: a 0 byte, so that every name ends; a 0 tag on every walk through
  memory, so that every dynamic section ends; a consistent GNU hash table in every known object,
  which the repository's link flags ask for (\<^verbatim>\<open>--hash-style=gnu\<close>). \<open>P\<close> are the bytes this rests on:
  the relocation tables are in \<open>P\<close>, and the places they name are not.
\<close>

definition rel_slots :: "elf_Object \<Rightarrow> u32 set" where
  "rel_slots obj = rel_at (reltab obj) ` {..< unat (numRels obj)} \<union> rel_at (pltReltab obj) ` {..< unat (numPltRels obj)}"

definition followed :: "elf_Object list \<Rightarrow> ram \<Rightarrow> bool" where
  "followed objs m \<longleftrightarrow> (\<exists>p. m p = 0) \<and> (\<forall>dyn. \<exists>n. elf_Dynamic_isSentinel m (dyn + 8 * of_nat n)) \<and>
     (\<forall>obj \<in> set objs. gnuHashtab obj \<noteq> 0 \<and> (\<exists>names. gnu_table m (gnuHasher obj) names))"

definition link_data :: "u32 set \<Rightarrow> elf_Object list \<Rightarrow> ram \<Rightarrow> bool" where
  "link_data P objs m \<longleftrightarrow> (\<forall>m'. same_outside (- P) m m' \<longrightarrow> followed objs m') \<and>
     (\<forall>obj \<in> set objs. \<forall>rel \<in> rel_slots obj. word_bytes rel \<subseteq> P \<and> word_bytes (elf_Rel_target m rel (baseAddress obj)) \<inter> P = {})"

text \<open>
  The code outside of the linker: the loader and the functions of the loaded images return (they
  are functions here) and keep a condition \<open>G\<close> on the known objects and the world, under which the
  data is as above and the table of exception sections can be had. \<open>G\<close> depends on nothing that the
  linker itself changes: bytes outside of \<open>P\<close> and that table. It holds with every object that
  is read from an image which the loader finds or loads.
\<close>

definition new_object :: "(elf_Object list \<Rightarrow> 'l world \<Rightarrow> bool) \<Rightarrow> elf_Object list \<Rightarrow> u32 \<Rightarrow> 'l world \<Rightarrow> bool" where
  "new_object G objs a w \<longleftrightarrow> (\<forall>obj. a \<noteq> 0 \<and> elf_Object_init (mem w) a = Some (ELF_OK, obj) \<longrightarrow> G (objs @ [obj]) w)"

definition outside_ok :: "u32 set \<Rightarrow> (elf_Object list \<Rightarrow> 'l world \<Rightarrow> bool) \<Rightarrow> 'l system \<Rightarrow> bool" where
  "outside_ok P G sys \<longleftrightarrow> (\<forall>objs w. G objs w \<longrightarrow>
     link_data P objs (mem w) \<and> exidx_ready (exidx_tab w) \<noteq> None \<and>
     (\<forall>m. same_outside (- P) (mem w) m \<longrightarrow> G objs (w\<lparr>mem := m\<rparr>)) \<and>
     (\<forall>ex. exidx_ready ex \<noteq> None \<longrightarrow> G objs (w\<lparr>exidx_tab := ex\<rparr>)) \<and>
     (\<forall>a. G objs (ldr_fixup sys a w) \<and> G objs (ldr_install sys a w) \<and> G objs (run_init sys a w)) \<and>
     (\<forall>a p h. G objs (snd (run_prefs sys a p w)) \<and> G objs (snd (run_prelude sys a p h w))) \<and>
     (\<forall>so. new_object G objs (ldr_lookup sys so w) w) \<and>
     (\<forall>so a ls w'. ldr_load sys so w = ((a, ls), w') \<longrightarrow> G objs w' \<and> new_object G objs a w'))"

lemma outside_okD:
  assumes "outside_ok P G sys" and "G objs w"
  shows "link_data P objs (mem w)" "exidx_ready (exidx_tab w) \<noteq> None"
    "same_outside (- P) (mem w) m \<Longrightarrow> G objs (w\<lparr>mem := m\<rparr>)" "exidx_ready ex \<noteq> None \<Longrightarrow> G objs (w\<lparr>exidx_tab := ex\<rparr>)"
    "G objs (ldr_fixup sys a w)" "G objs (ldr_install sys a w)" "G objs (run_init sys a w)"
    "G objs (snd (run_prefs sys a p w))" "G objs (snd (run_prelude sys a p h w))"
    "new_object G objs (ldr_lookup sys so w) w" "ldr_load sys so w = ((a, ls), w') \<Longrightarrow> G objs w' \<and> new_object G objs a w'"
  using assms unfolding outside_ok_def by blast+

text \<open>Names end at the next 0, wherever they start; look-ups of names and of dynamic sections end.\<close>

lemma name_ends:
  assumes "m p = 0"
  shows "\<exists>nm. cstr m q nm"
proof (induction "unat (p - q)" arbitrary: q rule: less_induct)
  case less
  show ?case
  proof (cases "m q = 0")
    case True
    then have "cstr m q []" by simp
    then show ?thesis by blast
  next
    case False
    then have "p - q \<noteq> 0" using assms by auto
    moreover have "p - (q + 1) = (p - q) - 1" by simp
    ultimately have "unat (p - (q + 1)) < unat (p - q)" by (metis measure_unat)
    from less [OF this] obtain nm where "cstr m (q + 1) nm" by blast
    then have "cstr m q (m q # nm)" using False by simp
    then show ?thesis by blast
  qed
qed

lemma followed_name: "followed objs m \<Longrightarrow> \<exists>nm. cstr m q nm"
  using name_ends unfolding followed_def by blast

lemma followed_table:
  assumes "followed objs m" and "obj \<in> set objs" and "cstr m name nm"
  shows "elf_Object_hash m obj name = Some (gnu_hash nm)" and "\<exists>sy. elf_Object_lookup m obj (gnu_hash nm) name = Some sy"
  using assms gnu_lookup_linear [OF _ assms(3)] elf_GnuHasher_hash_cstr [OF assms(3)]
  by (auto simp: followed_def elf_Object_hash_def elf_Object_lookup_def)

lemma lookup_ends:
  assumes "followed objs m" and "obj \<in> set objs"
  shows "\<exists>v. lookup m obj name = Some v"
proof -
  obtain nm where nm: "cstr m name nm" using followed_name [OF assms(1)] by blast
  show ?thesis using followed_table [OF assms nm] by (auto simp: lookup_def)
qed

lemma scan_ends:
  assumes "elf_Dynamic_isSentinel m (dyn + 8 * of_nat n)"
  shows "\<exists>obj'. scan_dynamic m dyn obj = Some obj'"
  using assms
proof (induction n arbitrary: dyn obj)
  case 0
  then show ?case by (subst scan_dynamic.simps) simp
next
  case (Suc n)
  then have "elf_Dynamic_isSentinel m (dyn + 8 + 8 * of_nat n)" by (simp add: algebra_simps)
  then show ?case using Suc.IH by (subst scan_dynamic.simps) (simp add: Let_def)
qed

lemma Object_init_ends:
  assumes "followed objs m"
  shows "\<exists>st obj. elf_Object_init m a = Some (st, obj)"
proof -
  have "\<exists>obj'. scan_dynamic m dyn obj = Some obj'" for dyn obj
    using assms scan_ends unfolding followed_def by blast
  then obtain f where "\<And>dyn obj. scan_dynamic m dyn obj = Some (f dyn obj)" by metis
  then show ?thesis by (simp add: elf_Object_init_def Let_def)
qed

text \<open>The search through a scope ends, as its list of siblings does.\<close>

lemma scope_search_ends:
  assumes m: "followed (map elfObject db) m" and nm: "cstr m name nm"
  shows "scope dg l ks \<Longrightarrow> \<forall>k \<in> set ks. k \<le> LNK_MAX_DAG_NODES \<and> 0 \<le> dbIndex (nodes dg k) \<and> obj_of dg k < length db \<Longrightarrow>
    \<exists>r. scope_search m db dg (gnu_hash nm) name l = Some r"
proof (induction ks arbitrary: l)
  case Nil
  then show ?case by (subst scope_search.simps) simp
next
  case (Cons k ks)
  then have l: "l = k" "k \<noteq> 0" "k \<le> LNK_MAX_DAG_NODES" "scope dg (sib (nodes dg k)) ks" by simp_all
  have ix: "0 \<le> dbIndex (nodes dg k)" "obj_of dg k < length db" using Cons.prems(2) by simp_all
  then have get: "lnk_SearchDag_get k = (st_ok, k)" "lnk_ObjDb_get db (dbIndex (nodes dg k)) = (st_ok, obj_of dg k)"
    using l by (simp_all add: lnk_SearchDag_get_def lnk_ObjDb_get_def obj_of_def)
  obtain sy where "elf_Object_lookup m (elfObject (db ! obj_of dg k)) (gnu_hash nm) name = Some sy"
    using followed_table(2) [OF m _ nm] ix(2) by fastforce
  moreover obtain r where "scope_search m db dg (gnu_hash nm) name (sib (nodes dg k)) = Some r"
    using Cons.IH [OF l(4)] Cons.prems(2) by auto
  ultimately show ?case using l(1,2) get by (subst scope_search.simps) (simp add: lnk_codes)
qed

lemma external_ends:
  assumes m: "followed (map elfObject db) m" and info: "elfObject info \<in> set (map elfObject db)" and s: "scope_ready db dg (dag info)"
  shows "\<exists>r. external_value m db dg info sy = Some r"
proof -
  let ?name = "elf_Symbol_name m sy (dynStringtab (elfObject info))"
  obtain nm where nm: "cstr m ?name nm" using followed_name [OF m] by blast
  obtain ks where "scope dg (dag info) ks"
    "\<forall>k \<in> set ks. k \<le> LNK_MAX_DAG_NODES \<and> 0 \<le> dbIndex (nodes dg k) \<and> obj_of dg k < length db"
    using s unfolding scope_ready_def by blast
  from scope_search_ends [OF m nm this] obtain st found where
    "scope_search m db dg (gnu_hash nm) ?name (dag info) = Some (st, found)" by auto
  then show ?thesis
    using followed_table(1) [OF m info nm] by (cases found) (auto simp: external_value_def Let_def)
qed

text \<open>A relocation ends and changes no byte of \<open>P\<close>.\<close>

lemma modifyObject_outside: "modifyObject rtype wh sv th base m = (st, m') \<Longrightarrow> same_outside (word_bytes wh) m m'"
  by (auto simp: modifyObject_def same_outside_st32 same_outside_refl split: if_splits)

lemma reloc_step_ends:
  assumes m: "followed (map elfObject db) m" and info: "elfObject info \<in> set (map elfObject db)" and s: "scope_ready db dg (dag info)"
    and P: "word_bytes (elf_Rel_target m rel (baseAddress (elfObject info))) \<inter> P = {}"
  shows "\<exists>go st c m'. reloc_step db dg info rel cache m = Some (go, st, c, m') \<and> same_outside (- P) m m'"
proof -
  let ?wh = "elf_Rel_target m rel (baseAddress (elfObject info))"
  have modify: "same_outside (- P) m (snd (modifyObject rtype ?wh sv th base m))" for rtype sv th base
    using modifyObject_outside [OF prod.collapse [symmetric]] P by (blast intro: same_outside_mono)
  obtain r where "external_value m db dg info (symbol_at (dynSymboltab (elfObject info)) (elf_Rel_symbolIndex m rel)) = Some r"
    using external_ends [OF m info s] by blast
  then show ?thesis
    using modify
    by (cases r) (auto simp: reloc_step_def Let_def split_beta same_outside_refl)
qed

lemma reloc_loop_ends:
  assumes data: "link_data P (map elfObject db) m" and info: "elfObject info \<in> set (map elfObject db)"
    and s: "scope_ready db dg (dag info)"
  shows "set rels \<subseteq> rel_slots (elfObject info) \<Longrightarrow> same_outside (- P) m m1 \<Longrightarrow>
    \<exists>st m'. reloc_loop db dg info rels st0 cache m1 = Some (st, m') \<and> same_outside (- P) m m'"
proof (induction rels arbitrary: st0 cache m1)
  case Nil
  then show ?case by simp
next
  case (Cons rel rels)
  have slot: "rel \<in> rel_slots (elfObject info)" using Cons.prems(1) by simp
  note rel = data [unfolded link_data_def, THEN conjunct2, THEN bspec, OF info, THEN bspec, OF slot]
  note rel = rel [THEN conjunct1] rel [THEN conjunct2]
  have "ld32 m1 rel = ld32 m rel" using rel(1) Cons.prems(2) by (intro ld32_same) auto
  then have t: "elf_Rel_target m1 rel b = elf_Rel_target m rel b" for b by (simp add: elf_Rel_target_def)
  have "followed (map elfObject db) m1" using data Cons.prems(2) by (simp add: link_data_def)
  then obtain go st c m2 where step: "reloc_step db dg info rel cache m1 = Some (go, st, c, m2)" and m2: "same_outside (- P) m1 m2"
    using reloc_step_ends [OF _ info s, of m1 rel P cache] rel(2) by (auto simp: t)
  have m2: "same_outside (- P) m m2" using same_outside_trans [OF Cons.prems(2) m2] .
  then obtain st' m' where "reloc_loop db dg info rels st c m2 = Some (st', m')" "same_outside (- P) m m'"
    using Cons.IH [OF _ m2, of st c] Cons.prems(1) by auto
  then show ?case using step m2 by (cases go) auto
qed

lemma relocate_ends:
  assumes "link_data P (map elfObject db) m" and "elfObject info \<in> set (map elfObject db)" and "scope_ready db dg (dag info)"
    and "rel_at arr ` {..< unat n} \<subseteq> rel_slots (elfObject info)" and "same_outside (- P) m m1"
  shows "\<exists>st m'. relocate db dg info arr n m1 = Some (st, m') \<and> same_outside (- P) m m'"
  using reloc_loop_ends [OF assms(1-3) _ assms(5)] assms(4) by (auto simp: relocate_def atLeast0LessThan)


text \<open>Binding an object with a ready scope ends, and so does adding an object.\<close>

lemma inits_ok:
  assumes sys: "outside_ok P G sys" and G: "G objs w"
  shows "G objs (run_inits sys obj w)"
proof -
  have "G objs (fold (\<lambda>i w. run_init sys (f i w) w) is w)" for f :: "nat \<Rightarrow> 'a world \<Rightarrow> u32" and "is"
    using G by (induction "is" arbitrary: w) (simp_all add: outside_okD(7) [OF sys])
  then show ?thesis by (simp add: run_inits_def)
qed

lemma outside_lookup:
  assumes "outside_ok P G sys" and "G objs w" and "obj \<in> set objs"
  shows "\<exists>v. lookup (mem w) obj name = Some v"
  using lookup_ends [OF _ assms(3)] outside_okD(1) [OF assms(1,2)] by (simp add: link_data_def same_outside_refl)

lemma prelude_ends:
  assumes sys: "outside_ok P G sys" and G: "G objs w" and info: "elfObject info \<in> set objs"
  shows "\<exists>st w'. run_lnk_prelude sys info p w = Some (st, w') \<and> G objs w'"
proof -
  obtain q where q: "lookup (mem w) (elfObject info) (nm_preferences sys) = Some q" using outside_lookup [OF sys G info] by blast
  let ?r = "if q \<noteq> 0 then run_prefs sys q (prefsOverride info) w else (prefsOverride info, w)"
  have "G objs (snd ?r)" using G outside_okD(8) [OF sys G] by simp
  then have "G objs (snd (run_prelude sys p (fst ?r) (header (elfObject info)) (snd ?r)))" by (rule outside_okD(9) [OF sys])
  moreover have "run_lnk_prelude sys info p w = Some (run_prelude sys p (fst ?r) (header (elfObject info)) (snd ?r))"
    by (simp add: run_lnk_prelude_def q split_beta)
  ultimately show ?thesis by (metis prod.collapse)
qed

lemma bind_ends:
  assumes sys: "outside_ok P G sys" and G: "G (map elfObject db) w" and info: "elfObject info \<in> set (map elfObject db)"
    and s: "scope_ready db dg (dag info)"
  shows "\<exists>st w'. bind_object sys db dg info w = Some (st, w') \<and> G (map elfObject db) w'"
proof -
  let ?obj = "elfObject info" and ?objs = "map elfObject db"
  note data = outside_okD(1) [OF sys G]
  obtain st1 m1 where r1: "relocate db dg info (reltab ?obj) (numRels ?obj) (mem w) = Some (st1, m1)" and m1: "same_outside (- P) (mem w) m1"
    using relocate_ends [OF data info s _ same_outside_refl, of "reltab ?obj" "numRels ?obj"] by (auto simp: rel_slots_def)
  obtain st2 m2 where r2: "relocate db dg info (pltReltab ?obj) (numPltRels ?obj) m1 = Some (st2, m2)" and m2: "same_outside (- P) (mem w) m2"
    using relocate_ends [OF data info s _ m1, of "pltReltab ?obj" "numPltRels ?obj"] by (auto simp: rel_slots_def)
  obtain st3 m3 where r3: "(if is_ok st1 then relocate db dg info (pltReltab ?obj) (numPltRels ?obj) m1 else Some (st1, m1)) = Some (st3, m3)"
    and G3: "G ?objs (w\<lparr>mem := m3\<rparr>)"
    using r2 outside_okD(3) [OF sys G m1] outside_okD(3) [OF sys G m2] by (cases "is_ok st1") simp_all
  let ?w1 = "run_inits sys ?obj (w\<lparr>mem := m3\<rparr>)"
  have G1: "G ?objs ?w1" by (rule inits_ok [OF sys G3])
  obtain popts pf where l: "lookup (mem ?w1) ?obj (nm_options sys) = Some popts" "lookup (mem ?w1) ?obj (nm_prelude sys) = Some pf"
    using outside_lookup [OF sys G1 info] by metis
  obtain st4 w2 where p: "(if pf \<noteq> 0 then run_lnk_prelude sys info pf ?w1 else Some (LNK_OK, ?w1)) = Some (st4, w2)" and G2: "G ?objs w2"
    using prelude_ends [OF sys G1 info, of pf] G1 by (cases "pf \<noteq> 0") auto
  have "G ?objs (ldr_fixup sys a w2)" "G ?objs (ldr_install sys a (ldr_fixup sys a w2))" for a
    using outside_okD(5) [OF sys G2] outside_okD(6) [OF sys] by blast+
  then show ?thesis using r1 r3 G3 G2 l p by (simp add: bind_object_def Let_def)
qed

lemma add_ends:
  assumes sys: "outside_ok P G sys" and G: "G (map elfObject db) w" and new: "new_object G (map elfObject db) a w" "a \<noteq> 0"
  shows "\<exists>st ix db'. lnk_ObjDb_add (mem w) a state bnd so db = Some (st, ix, db') \<and> G (map elfObject db') w"
proof -
  have "followed (map elfObject db) (mem w)" using outside_okD(1) [OF sys G] by (simp add: link_data_def same_outside_refl)
  then obtain st obj where "elf_Object_init (mem w) a = Some (st, obj)" using Object_init_ends by blast
  then show ?thesis using G new by (auto simp: lnk_ObjDb_add_def new_object_def LNK_OK_def ELF_OK_def)
qed

lemma addSegment_ends:
  assumes "exidx_ready st \<noteq> None"
  shows "\<exists>st'. addSegment seg st = Some st' \<and> exidx_ready st' \<noteq> None"
proof -
  obtain t regs where r: "exidx_ready st = Some (t, regs)" using assms by auto
  then have "tab_start t \<noteq> 0"
    by (auto simp: exidx_ready_def ExidxTable_init_def Let_def split: if_splits prod.splits)
  then show ?thesis using r by (simp add: addSegment_def exidx_ready_def)
qed

lemma rememberExidx_ends:
  assumes "exidx_ready st \<noteq> None"
  shows "\<exists>st'. rememberExidx m obj st = Some st' \<and> exidx_ready st' \<noteq> None"
proof -
  have "\<exists>st'. remember_loop m obj hdrs st = Some st' \<and> exidx_ready st' \<noteq> None" for hdrs
    using assms
  proof (induction hdrs arbitrary: st)
    case (Cons hdr hdrs)
    obtain st1 where "addSegment (exidx_segment m obj hdr) st = Some st1" "exidx_ready st1 \<noteq> None"
      using addSegment_ends [OF Cons.prems] by blast
    then show ?case using Cons.IH [of st1] Cons.IH [OF Cons.prems] by simp
  qed simp
  then show ?thesis using assms by (cases st) (auto simp: rememberExidx_def)
qed

lemma recorded_ok:
  assumes "outside_ok P G sys" and "G objs w"
  shows "\<exists>ex. rememberExidx (mem w) obj (exidx_tab w) = Some ex \<and> G objs (w\<lparr>exidx_tab := ex\<rparr>)"
  using rememberExidx_ends [OF outside_okD(2) [OF assms]] outside_okD(4) [OF assms] by blast

lemma addNeeded_ends:
  assumes sys: "outside_ok P G sys" and G: "G (map elfObject db) w"
  shows "\<exists>st ix db' w'. lnk_ObjDb_addNeeded sys so db w = Some (st, ix, db', w') \<and> G (map elfObject db') w'"
proof -
  let ?a = "ldr_lookup sys so w"
  consider (known) "lnk_ObjDb_lookup db ?a \<ge> 0" | (installed) "\<not> lnk_ObjDb_lookup db ?a \<ge> 0" "?a \<noteq> 0"
    | (load) "\<not> lnk_ObjDb_lookup db 0 \<ge> 0" "?a = 0"
    by (cases "lnk_ObjDb_lookup db ?a \<ge> 0"; cases "?a = 0") simp_all
  then show ?thesis
  proof cases
    case known
    then show ?thesis using G by (simp add: lnk_ObjDb_addNeeded_def)
  next
    case installed
    obtain st ix db' where "lnk_ObjDb_add (mem w) ?a LNK_DAG_NOT_STARTED True so db = Some (st, ix, db')" "G (map elfObject db') w"
      using add_ends [OF sys G outside_okD(10) [OF sys G] installed(2)] by blast
    then show ?thesis using installed by (simp add: lnk_ObjDb_addNeeded_def)
  next
    case load
    obtain a ls w1 where l: "ldr_load sys so w = ((a, ls), w1)" by (metis surj_pair)
    note ok = outside_okD(11) [OF sys G l]
    show ?thesis
    proof (cases "a = 0")
      case True
      then show ?thesis using load l ok by (simp add: lnk_ObjDb_addNeeded_def)
    next
      case False
      obtain st ix db' where add: "lnk_ObjDb_add (mem w1) a LNK_DAG_NOT_STARTED False so db = Some (st, ix, db')" and G1: "G (map elfObject db') w1"
        using add_ends [OF sys conjunct1 [OF ok] conjunct2 [OF ok] False] by blast
      obtain ex where "rememberExidx (mem w1) (if ix < 0 then before_info sys w1 else elfObject (db' ! nat ix)) (exidx_tab w1) = Some ex"
        "G (map elfObject db') (w1\<lparr>exidx_tab := ex\<rparr>)"
        using recorded_ok [OF sys G1] by blast
      then show ?thesis using load l False add by (simp add: lnk_ObjDb_addNeeded_def Let_def)
    qed
  qed
qed

subsection \<open>Every link ends\<close>

text \<open>What is left to show of one node: the walk, adding a needed object and binding end.\<close>

definition link_calls_end :: "'l system \<Rightarrow> (elf_Object list \<Rightarrow> 'l world \<Rightarrow> bool) \<Rightarrow> bool" where
  "link_calls_end sys G \<longleftrightarrow>
     (\<forall>objs w dyn. G objs w \<longrightarrow> (\<exists>n. elf_Dynamic_isSentinel (mem w) (dyn + 8 * of_nat n))) \<and>
     (\<forall>so db w. G (map elfObject db) w \<longrightarrow>
        (\<exists>st ix db' w'. lnk_ObjDb_addNeeded sys so db w = Some (st, ix, db', w') \<and> G (map elfObject db') w')) \<and>
     (\<forall>db dg i w. G (map elfObject db) w \<and> i < length db \<and> scope_ready db dg (dag (db ! i)) \<longrightarrow>
        (\<exists>st w'. bind_object sys db dg (db ! i) w = Some (st, w') \<and> G (map elfObject db) w'))"

lemma outside_calls_end:
  assumes sys: "outside_ok P G sys"
  shows "link_calls_end sys G"
  unfolding link_calls_end_def
proof (intro conjI allI impI)
  fix objs w dyn assume "G objs w"
  then show "\<exists>n. elf_Dynamic_isSentinel (mem w) (dyn + 8 * of_nat n)"
    using outside_okD(1) [OF sys] by (simp add: link_data_def followed_def same_outside_refl)
next
  fix so and db :: lnk_ObjDb and w assume "G (map elfObject db) w"
  then show "\<exists>st ix db' w'. lnk_ObjDb_addNeeded sys so db w = Some (st, ix, db', w') \<and> G (map elfObject db') w'"
    by (rule addNeeded_ends [OF sys])
next
  fix db :: lnk_ObjDb and dg i w assume a: "G (map elfObject db) w \<and> i < length db \<and> scope_ready db dg (dag (db ! i))"
  then have "elfObject (db ! i) \<in> set (map elfObject db)" by simp
  with a show "\<exists>st w'. bind_object sys db dg (db ! i) w = Some (st, w') \<and> G (map elfObject db) w'"
    using bind_ends [OF sys] by blast
qed

lemma map_set_info: "(\<And>info. elfObject (f info) = elfObject info) \<Longrightarrow> map elfObject (set_info i f db) = map elfObject db"
  by (cases "i < length db") (simp_all add: set_info_def map_update list_update_same_conv list_update_beyond)

lemma scope_ready_set_info:
  assumes "scope_ready db dg l" and "i < length db" and "dagState (db ! i) \<noteq> LNK_DAG_DONE"
  shows "scope_ready (set_info i f db) dg l"
proof -
  obtain ks where ks: "scope dg l ks" "\<forall>k \<in> set ks. k \<le> LNK_MAX_DAG_NODES \<and> 0 \<le> dbIndex (nodes dg k) \<and>
     obj_of dg k < length db \<and> dagState (db ! obj_of dg k) = LNK_DAG_DONE \<and> bound (db ! obj_of dg k)"
    using assms(1) unfolding scope_ready_def by blast
  have "obj_of dg k \<noteq> i" if "k \<in> set ks" for k using ks(2) that assms(3) by blast
  then show ?thesis unfolding scope_ready_def by (intro exI [of _ ks]) (use ks in simp)
qed

definition link_ends :: "'l system \<Rightarrow> (elf_Object list \<Rightarrow> 'l world \<Rightarrow> bool) \<Rightarrow> nat set \<Rightarrow> link_point \<Rightarrow> 'l link_state \<Rightarrow> bool" where
  "link_ends sys G A point s \<longleftrightarrow> (\<exists>st db' dg' w'. link_from (finish_object sys) sys point s = Some (st, db', dg', w') \<and>
     (is_ok st \<longrightarrow> G (map elfObject db') w' \<and> link_post A point (fst s) (fst (snd s)) db' dg'))"

lemma finish_ends:
  assumes calls: "link_calls_end sys G" and pre: "link_pre A (Needed cur i dyn) db dg" and G: "G (map elfObject db) w"
  shows "\<exists>st db' dg' w'. finish_object sys cur i (db, dg, w) = Some (st, db', dg', w') \<and> (is_ok st \<longrightarrow> G (map elfObject db') w')"
proof -
  let ?db = "set_info i (\<lambda>info. info\<lparr>dag := child (nodes dg cur), dagState := LNK_DAG_DONE\<rparr>) db"
  have i: "i < length db" "dagState (db ! i) = LNK_DAG_UNDER_CONSTRUCTION" using pre by (auto simp: link_pre_def)
  have G': "G (map elfObject ?db) w" using G by (subst map_set_info) simp_all
  have "scope_ready ?db dg (dag (?db ! i))"
    using scope_ready_set_info [OF pre_scope_ready [OF pre] i(1)] i by simp
  then obtain st w' where "bind_object sys ?db dg (?db ! i) w = Some (st, w')" "G (map elfObject ?db) w'"
    using calls G' i(1) unfolding link_calls_end_def by (metis set_info_simps(1))
  then show ?thesis
    using G' by (simp add: finish_object_def Let_def map_set_info)
qed


lemma needed_object_ends:
  assumes calls: "link_calls_end sys G"
    and sub: "\<And>A' p db' dg' w'. dag_next dg < dag_next dg' \<Longrightarrow> link_pre A' p db' dg' \<Longrightarrow> G (map elfObject db') w' \<Longrightarrow>
      link_ends sys G A' p (db', dg', w')"
    and pre: "link_pre A (Needed cur i dyn) db dg" and G: "G (map elfObject db) w"
    and needed: "\<not> elf_Dynamic_isSentinel (mem w) dyn" "elf_Dynamic_needed (mem w) dyn (dynStringtab (elfObject (db ! i))) \<noteq> 0"
  shows "link_ends sys G A (Needed cur i dyn) (db, dg, w)"
proof -
  let ?n = "elf_Dynamic_needed (mem w) dyn (dynStringtab (elfObject (db ! i)))"
  note unf = link_from.simps [of "finish_object sys" sys "Needed cur i dyn" "(db, dg, w)", unfolded link_point.case prod.case Let_def]
  obtain st ix db1 w1 where add: "lnk_ObjDb_addNeeded sys ?n db w = Some (st, ix, db1, w1)" and G1: "G (map elfObject db1) w1"
    using calls G unfolding link_calls_end_def by blast
  obtain st' new dg1 where child: "lnk_SearchDag_addChild cur ix dg = (st', new, dg1)" by (rule prod_cases3)
  show ?thesis
  proof (cases "is_ok st \<and> is_ok st'")
    case False
    then show ?thesis using needed add child by (auto simp: link_ends_def unf)
  next
    case True
    note c = needed_child [OF pre add child]
    have "link_ends sys G (insert new A) (Enter new) (db1, dg1, w1)" using sub c(1,2) True G1 by blast
    then obtain st2 db2 dg2 w2 where r2: "link_from (finish_object sys) sys (Enter new) (db1, dg1, w1) = Some (st2, db2, dg2, w2)"
      and ok2: "is_ok st2 \<longrightarrow> G (map elfObject db2) w2 \<and> link_post (insert new A) (Enter new) db1 dg1 db2 dg2"
      by (auto simp: link_ends_def)
    show ?thesis
    proof (cases "is_ok st2")
      case False
      then show ?thesis using needed add child True r2 by (simp add: link_ends_def unf)
    next
      case ok: True
      then have post: "link_post (insert new A) (Enter new) db1 dg1 db2 dg2" and G2: "G (map elfObject db2) w2" using ok2 by simp_all
      have "dag_next dg1 \<le> dag_next dg2" using post by (simp add: link_post_def keeps_def)
      then have "dag_next dg < dag_next dg2" using c(2) True by simp
      moreover have "link_pre A (Needed cur i (dyn + 8)) db2 dg2" using c(3) [OF _ post] True by simp
      ultimately have "link_ends sys G A (Needed cur i (dyn + 8)) (db2, dg2, w2)" using sub G2 by blast
      then show ?thesis
        using needed add child True r2 ok c(4) [OF _ post] by (auto simp: link_ends_def unf)
    qed
  qed
qed

text \<open>The loop of a node ends when the links with more nodes end.\<close>

lemma needed_ends:
  assumes calls: "link_calls_end sys G"
    and sub: "\<And>A' p db' dg' w'. dag_next dg < dag_next dg' \<Longrightarrow> link_pre A' p db' dg' \<Longrightarrow> G (map elfObject db') w' \<Longrightarrow>
      link_ends sys G A' p (db', dg', w')"
  shows "elf_Dynamic_isSentinel (mem w) (dyn + 8 * of_nat n) \<Longrightarrow> link_pre A (Needed cur i dyn) db dg \<Longrightarrow>
    G (map elfObject db) w \<Longrightarrow> link_ends sys G A (Needed cur i dyn) (db, dg, w)"
proof (induction n arbitrary: dyn)
  case 0
  obtain st db' dg' w' where fin: "finish_object sys cur i (db, dg, w) = Some (st, db', dg', w')"
    "is_ok st \<longrightarrow> G (map elfObject db') w'"
    using finish_ends [OF calls 0(2,3)] by blast
  then show ?case using 0(1) finish_post [OF 0(2) fin(1)] by (simp add: link_ends_def loop_end)
next
  case (Suc n)
  let ?n = "elf_Dynamic_needed (mem w) dyn (dynStringtab (elfObject (db ! i)))"
  have pre8: "link_pre A (Needed cur i (dyn + 8)) db dg" using Suc.prems(2) by (auto simp: link_pre_def)
  consider (last) "elf_Dynamic_isSentinel (mem w) dyn" | (other) "\<not> elf_Dynamic_isSentinel (mem w) dyn" "?n = 0"
    | (needed) "\<not> elf_Dynamic_isSentinel (mem w) dyn" "?n \<noteq> 0"
    by blast
  then show ?case
  proof cases
    case last
    obtain st db' dg' w' where fin: "finish_object sys cur i (db, dg, w) = Some (st, db', dg', w')"
      "is_ok st \<longrightarrow> G (map elfObject db') w'"
      using finish_ends [OF calls Suc.prems(2,3)] by blast
    then show ?thesis using last finish_post [OF Suc.prems(2) fin(1)] by (simp add: link_ends_def loop_end)
  next
    case other
    have "elf_Dynamic_isSentinel (mem w) (dyn + 8 + 8 * of_nat n)" using Suc.prems(1) by (simp add: algebra_simps)
    then have "link_ends sys G A (Needed cur i (dyn + 8)) (db, dg, w)" using Suc.IH Suc.prems(3) pre8 by blast
    then show ?thesis using other by (simp add: link_ends_def loop_skip link_post_def)
  next
    case needed
    then show ?thesis using needed_object_ends [OF calls sub Suc.prems(2,3)] by blast
  qed
qed

lemma enter_ends:
  assumes pre: "link_pre A (Enter cur) db dg" and G: "G (map elfObject db) w"
    and loop: "\<And>i dyn db'. link_pre A (Needed cur i dyn) db' dg \<Longrightarrow> G (map elfObject db') w \<Longrightarrow>
      link_ends sys G A (Needed cur i dyn) (db', dg, w)"
  shows "link_ends sys G A (Enter cur) (db, dg, w)"
proof -
  note get = get_node [OF pre, unfolded node_at.simps]
  obtain st i where i: "lnk_ObjDb_get db (dbIndex (nodes dg cur)) = (st, i)" by (rule prod.exhaust)
  note unf = link_from.simps [of "finish_object sys" sys "Enter cur" "(db, dg, w)", unfolded link_point.case prod.case get Let_def i]
  consider (bad) "\<not> is_ok st" | (cycle) "is_ok st" "dagState (db ! i) = LNK_DAG_UNDER_CONSTRUCTION"
    | (known) "is_ok st" "dagState (db ! i) = LNK_DAG_DONE" | (new) "is_ok st" "dagState (db ! i) = LNK_DAG_NOT_STARTED"
    using unknown_state by blast
  then show ?thesis
  proof cases
    case known
    then show ?thesis using enter_known [OF pre i known] G by (simp add: link_ends_def unf)
  next
    case new
    let ?db = "set_info i (\<lambda>info. info\<lparr>dagState := LNK_DAG_UNDER_CONSTRUCTION\<rparr>) db"
    have "G (map elfObject ?db) w" using G by (subst map_set_info) simp_all
    then have "link_ends sys G A (Needed cur i (dyntab (elfObject (db ! i)))) (?db, dg, w)"
      using loop enter_object(1) [OF pre i new] by blast
    then show ?thesis using new enter_object(2) [OF pre i new] by (auto simp: link_ends_def unf)
  qed (auto simp: link_ends_def unf lnk_codes)
qed

lemma link_from_ends:
  assumes calls: "link_calls_end sys G"
  shows "Suc LNK_MAX_DAG_NODES - dag_next dg = a \<Longrightarrow> link_pre A point db dg \<Longrightarrow>
    G (map elfObject db) w \<Longrightarrow> link_ends sys G A point (db, dg, w)"
proof (induction a arbitrary: A point db dg w rule: less_induct)
  case (less a)
  have sub: "link_ends sys G A' p (db', dg', w')"
    if "dag_next dg < dag_next dg'" "link_pre A' p db' dg'" "G (map elfObject db') w'" for A' p db' dg' w'
  proof (rule less.IH [OF _ refl that(2,3)])
    have "link_inv A' db' dg'" using that(2) by (simp add: link_pre_def)
    then show "Suc LNK_MAX_DAG_NODES - dag_next dg' < a" using link_invD(2) that(1) less.prems(1) by fastforce
  qed
  have loop: "link_ends sys G A (Needed cur i dyn) (db', dg, w)"
    if pre: "link_pre A (Needed cur i dyn) db' dg" and G: "G (map elfObject db') w" for cur i dyn db'
  proof -
    obtain n where "elf_Dynamic_isSentinel (mem w) (dyn + 8 * of_nat n)" using calls G unfolding link_calls_end_def by blast
    then show ?thesis using needed_ends [OF calls, of dg] sub pre G by blast
  qed
  show ?case
  proof (cases point)
    case (Needed cur i dyn)
    then show ?thesis using loop less.prems by blast
  next
    case (Enter cur)
    show ?thesis using less.prems(2) unfolding Enter by (rule enter_ends [OF _ less.prems(3) loop])
  qed
qed

lemma ObjDb_add_first:
  assumes "lnk_ObjDb_add m a state bnd so [] = Some (st, ix, db)" and "is_ok st"
  shows "\<exists>info. db = [info] \<and> dagState info = state"
proof -
  obtain est obj where "elf_Object_init m a = Some (est, obj)" "LNK_OK = est"
    using assms by (auto simp: lnk_ObjDb_add_def LNK_MAX_ELF_OBJECTS_def bind_eq_Some_conv split: if_splits)
  then show ?thesis using assms(1) by (auto simp: lnk_ObjDb_add_def LNK_MAX_ELF_OBJECTS_def)
qed

lemma load_ends:
  assumes sys: "outside_ok P G sys" and G: "G [] w"
  shows "\<exists>elf r st w'. lnk_load sys nm prefs w = Some (elf, r, st, w')"
proof -
  obtain a ls w1 where l: "ldr_load sys nm w = ((a, ls), w1)" by (metis surj_pair)
  note ok = outside_okD(11) [OF sys G l]
  show ?thesis
  proof (cases "a = 0")
    case True
    then show ?thesis by (simp add: lnk_load_def l)
  next
    case False
    obtain st ix db where add: "lnk_ObjDb_add (mem w1) a LNK_DAG_NOT_STARTED False nm [] = Some (st, ix, db)" and G1: "G (map elfObject db) w1"
      using add_ends [OF sys, of "[]" w1 a LNK_DAG_NOT_STARTED False nm, unfolded list.map] ok False by blast
    show ?thesis
    proof (cases "is_ok st")
      case False
      then show ?thesis using l add \<open>a \<noteq> 0\<close> by (simp add: lnk_load_def lnk_ObjDb_init_def)
    next
      case True
      obtain info where db: "db = [info]" "dagState info = LNK_DAG_NOT_STARTED"
        using ObjDb_add_first [OF add True] by blast
      obtain ex where ex: "rememberExidx (mem w1) (elfObject info) (exidx_tab w1) = Some ex" "G [elfObject info] (w1\<lparr>exidx_tab := ex\<rparr>)"
        using recorded_ok [OF sys G1, of "elfObject info"] unfolding db list.map by blast
      let ?info = "info\<lparr>prefsOverride := prefs, installable := False\<rparr>"
      have "\<exists>r. innerLink sys 1 ([?info], lnk_SearchDag_init 0, w1\<lparr>exidx_tab := ex\<rparr>) = Some r"
        using link_from_ends [OF outside_calls_end [OF sys] refl link_pre_root [of ?info], of "w1\<lparr>exidx_tab := ex\<rparr>"] ex(2) db(2)
        by (auto simp: innerLink_def link_ends_def)
      then show ?thesis
        using l add \<open>a \<noteq> 0\<close> True ex(1) db(1) by (auto simp: lnk_load_def lnk_ObjDb_init_def set_info_def)
    qed
  qed
qed

text \<open>
  C35: a link ends, whatever depends on whatever, cycles included: when the images in memory are
  well formed and the relocations stay away from the tables that the linker reads, \<open>lnk_load\<close>
  returns. Of the calls out of the linker only what they leave in memory is assumed.
\<close>

theorem every_link_ends:
  assumes "outside_ok P G sys" and "G [] w"
  shows "\<exists>elf r st w'. lnk_load sys nm prefs w = Some (elf, r, st, w')"
  by (rule load_ends [OF assms])

subsection \<open>Objects that need each other\<close>

text \<open>The first entry of an object's dynamic section that names a needed object has the name \<open>q\<close>.\<close>

definition first_need :: "ram \<Rightarrow> elf_Object \<Rightarrow> u32 \<Rightarrow> bool" where
  "first_need m obj q \<longleftrightarrow> q \<noteq> 0 \<and> (\<exists>n. \<forall>j \<le> n. let dyn = dyntab obj + 8 * of_nat j in
     \<not> elf_Dynamic_isSentinel m dyn \<and> elf_Dynamic_needed m dyn (dynStringtab obj) = (if j = n then q else 0))"

text \<open>
  Names that are not installed, and whose images, each loaded as a new copy, first need another
  such name: A needs B and B needs A, for example. \<open>J\<close> says of a name in memory that it is one of
  them.
\<close>

definition reloads :: "'l system \<Rightarrow> ('l world \<Rightarrow> u32 \<Rightarrow> bool) \<Rightarrow> bool" where
  "reloads sys J \<longleftrightarrow> (\<forall>w so. J w so \<longrightarrow> ldr_lookup sys so w = 0 \<and>
     (\<exists>a ls w' obj q. ldr_load sys so w = ((a, ls), w') \<and> a \<noteq> 0 \<and> elf_Object_init (mem w') a = Some (ELF_OK, obj) \<and>
        first_need (mem w') obj q \<and> (\<forall>o1 \<in> {obj, before_info sys w'}.
          \<exists>ex. rememberExidx (mem w') o1 (exidx_tab w') = Some ex \<and> J (w'\<lparr>exidx_tab := ex\<rparr>) q)))"

text \<open>The object needs a name of the cycle.\<close>

definition needs_one :: "('l world \<Rightarrow> u32 \<Rightarrow> bool) \<Rightarrow> elf_Object \<Rightarrow> 'l world \<Rightarrow> bool" where
  "needs_one J obj w \<longleftrightarrow> (\<exists>q. first_need (mem w) obj q \<and> J w q)"

lemma scan_dynamic_header: "scan_dynamic m dyn obj = Some obj' \<Longrightarrow> header obj' = header obj"
proof (induction rule: scan_dynamic.raw_induct [rotated, consumes 1, case_names step])
  case (step scan m dyn obj r)
  show ?case
  proof (cases "elf_Dynamic_isSentinel m dyn")
    case True
    then show ?thesis using step.hyps by simp
  next
    case False
    note body = step.hyps [unfolded Let_def if_P [OF False]]
    show ?thesis using step.IH [OF body] by simp
  qed
qed

lemma elf_Object_init_header:
  assumes "elf_Object_init m a = Some (st, obj)"
  shows "header obj = a"
proof -
  have e: "header (set_segments m n tab sc (empty_Object a)) = a" "header (empty_Object a) = a"
    "header (set_hashers m o2) = header o2" for n tab sc o2
    by (simp_all add: empty_Object_def set_segments_def set_hashers_def Let_def)
  then have "header (set_segments m n tab sc (empty_Object a)\<lparr>dyntab := d\<rparr>) = a" for n tab sc d by simp
  then show ?thesis
    using assms e scan_dynamic_header
    by (fastforce simp: elf_Object_init_def Let_def bind_eq_Some_conv split: if_splits)
qed

lemma lookup_from_absent: "\<forall>info \<in> set db. header (elfObject info) \<noteq> a \<Longrightarrow> lookup_from i a db = - 1"
  by (induction db arbitrary: i) auto

lemma reload_add:
  assumes sys: "reloads sys J" "J w so" and headers: "\<forall>info \<in> set db. header (elfObject info) \<noteq> 0"
  shows "\<exists>w'. if length db \<ge> LNK_MAX_ELF_OBJECTS
      then lnk_ObjDb_addNeeded sys so db w = Some (lnk_Status_init1 LNK_TOO_MANY_OBJECTS, - 1, db, w')
      else \<exists>info. lnk_ObjDb_addNeeded sys so db w = Some (st_ok, int (length db), db @ [info], w') \<and>
        dagState info = LNK_DAG_NOT_STARTED \<and> header (elfObject info) \<noteq> 0 \<and> needs_one J (elfObject info) w'"
proof -
  obtain a ls w1 obj q where none: "ldr_lookup sys so w = 0" and load: "ldr_load sys so w = ((a, ls), w1)" "a \<noteq> 0"
    "elf_Object_init (mem w1) a = Some (ELF_OK, obj)" "first_need (mem w1) obj q" and ex: "\<forall>o1 \<in> {obj, before_info sys w1}.
          \<exists>ex. rememberExidx (mem w1) o1 (exidx_tab w1) = Some ex \<and> J (w1\<lparr>exidx_tab := ex\<rparr>) q"
    using sys unfolding reloads_def by blast
  obtain ex1 ex2 where ex: "rememberExidx (mem w1) obj (exidx_tab w1) = Some ex1" "J (w1\<lparr>exidx_tab := ex1\<rparr>) q"
    "rememberExidx (mem w1) (before_info sys w1) (exidx_tab w1) = Some ex2"
    using ex by blast
  have absent: "lnk_ObjDb_lookup db 0 = - 1"
    using lookup_from_absent [OF headers] by (simp add: lnk_ObjDb_lookup_def)
  show ?thesis
  proof (cases "length db \<ge> LNK_MAX_ELF_OBJECTS")
    case True
    then show ?thesis
      using none load ex(3) absent by (intro exI [of _ "w1\<lparr>exidx_tab := ex2\<rparr>"]) (simp add: lnk_ObjDb_addNeeded_def lnk_ObjDb_add_def)
  next
    case False
    have "needs_one J obj (w1\<lparr>exidx_tab := ex1\<rparr>)" using load(4) ex(2) by (auto simp: needs_one_def)
    then show ?thesis
      using False none load ex(1) absent elf_Object_init_header [OF load(3)]
      by (intro exI [of _ "w1\<lparr>exidx_tab := ex1\<rparr>"]) (simp add: lnk_ObjDb_addNeeded_def lnk_ObjDb_add_def ELF_OK_def LNK_OK_def)
  qed
qed

text \<open>The loop passes the entries in front of the first that names a needed object.\<close>

lemma loop_skips:
  assumes "\<forall>j < n. let d = dyn + 8 * of_nat j in
    \<not> elf_Dynamic_isSentinel (mem w) d \<and> elf_Dynamic_needed (mem w) d (dynStringtab (elfObject (db ! i))) = 0"
  shows "link_from finish sys (Needed cur i dyn) (db, dg, w) = link_from finish sys (Needed cur i (dyn + 8 * of_nat n)) (db, dg, w)"
  using assms
proof (induction n)
  case (Suc n)
  then have "link_from finish sys (Needed cur i (dyn + 8 * of_nat n)) (db, dg, w) =
      link_from finish sys (Needed cur i (dyn + 8 * of_nat n + 8)) (db, dg, w)"
    by (intro loop_skip) (auto simp: Let_def)
  then show ?case using Suc by (simp add: less_Suc_eq algebra_simps)
qed simp

lemma headers_set_info:
  assumes "\<And>info. elfObject (f info) = elfObject info"
  shows "(\<forall>info \<in> set (set_info i f db). header (elfObject info) \<noteq> 0) \<longleftrightarrow> (\<forall>info \<in> set db. header (elfObject info) \<noteq> 0)"
proof -
  have "(\<forall>info \<in> set xs. header (elfObject info) \<noteq> 0) \<longleftrightarrow> (\<forall>obj \<in> set (map elfObject xs). header obj \<noteq> 0)" for xs by simp
  then show ?thesis using map_set_info [of f i db] assms by metis
qed

lemma addChild_room:
  assumes "link_inv A db dg" and "cur \<in> A" and "lnk_SearchDag_addChild cur ix dg = (st, new, dg')"
    and "dag_next dg \<le> LNK_MAX_DAG_NODES"
  shows "is_ok st"
proof -
  have "0 < cur" "cur < dag_next dg" using link_invD(3) [OF assms(1)] assms(2) by auto
  then have get: "lnk_SearchDag_get cur = (st_ok, cur)" using assms(4) by (simp add: lnk_SearchDag_get_def)
  have "lnk_SearchDag_get (lastChild (nodes dg cur)) = (st_ok, lastChild (nodes dg cur))" if "lastChild (nodes dg cur) \<noteq> 0"
    using link_invD(5) [OF assms(1,2) that] assms(4) by (simp add: lnk_SearchDag_get_def)
  moreover have "nodes (set_node (dag_next dg) f (dg\<lparr>dag_next := x\<rparr>)) cur = nodes dg cur" for f x
    using \<open>cur < dag_next dg\<close> by (simp add: set_node_def)
  ultimately show ?thesis
    using assms(3,4) get by (cases "lastChild (nodes dg cur) = 0") (auto simp: lnk_SearchDag_addChild_def Let_def)
qed

text \<open>A newly added object is entered, and adds the next.\<close>

definition chain_state :: "('l world \<Rightarrow> u32 \<Rightarrow> bool) \<Rightarrow> nat set \<Rightarrow> nat \<Rightarrow> 'l link_state \<Rightarrow> bool" where
  "chain_state J A cur = (\<lambda>(db, dg, w). link_pre A (Enter cur) db dg \<and> db \<noteq> [] \<and> length db \<le> LNK_MAX_ELF_OBJECTS \<and>
     dbIndex (nodes dg cur) = int (length db) - 1 \<and> dag_next dg = Suc (length db) \<and>
     dagState (last db) = LNK_DAG_NOT_STARTED \<and> needs_one J (elfObject (last db)) w \<and>
     (\<forall>info \<in> set db. header (elfObject info) \<noteq> 0))"

lemma chain_next:
  assumes sys: "reloads sys J" and st: "chain_state J A cur (db, dg, w)"
  defines "i \<equiv> length db - 1"
  defines "db1 \<equiv> set_info i (\<lambda>info. info\<lparr>dagState := LNK_DAG_UNDER_CONSTRUCTION\<rparr>) db"
  shows "\<exists>w'. if length db = LNK_MAX_ELF_OBJECTS
    then link_from finish sys (Enter cur) (db, dg, w) = Some (lnk_Status_init1 LNK_TOO_MANY_OBJECTS, db1, dg, w')
    else \<exists>info new dg'. chain_state J (insert new A) new (db1 @ [info], dg', w') \<and>
      (\<forall>s. link_from finish sys (Enter new) (db1 @ [info], dg', w') = Some (lnk_Status_init1 LNK_TOO_MANY_OBJECTS, s) \<longrightarrow>
        link_from finish sys (Enter cur) (db, dg, w) = Some (lnk_Status_init1 LNK_TOO_MANY_OBJECTS, s))"
proof -
  note st = st [unfolded chain_state_def prod.case]
  have pre: "link_pre A (Enter cur) db dg" and len: "db \<noteq> []" "length db \<le> LNK_MAX_ELF_OBJECTS" and nxt: "dag_next dg = Suc (length db)"
    using st by blast+
  have i: "i < length db" "db ! i = last db" "lnk_ObjDb_get db (dbIndex (nodes dg cur)) = (st_ok, i)"
    using st by (simp_all add: i_def last_conv_nth lnk_ObjDb_get_def nat_diff_distrib)
  have new: "dagState (db ! i) = LNK_DAG_NOT_STARTED" using st i by simp
  obtain q n where need: "q \<noteq> 0" "\<forall>j \<le> n. let dyn = dyntab (elfObject (last db)) + 8 * of_nat j in
     \<not> elf_Dynamic_isSentinel (mem w) dyn \<and> elf_Dynamic_needed (mem w) dyn (dynStringtab (elfObject (last db))) = (if j = n then q else 0)"
    and J: "J w q"
    using st unfolding needs_one_def first_need_def by blast
  have hd: "\<forall>info \<in> set db1. header (elfObject info) \<noteq> 0" using st by (simp add: db1_def headers_set_info)
  let ?dyn = "dyntab (elfObject (last db)) + 8 * of_nat n"
  have len1: "length db1 = length db" "elfObject (db1 ! i) = elfObject (last db)" using i by (simp_all add: db1_def)
  have pre1: "link_pre A (Needed cur i ?dyn) db1 dg" using enter_object(1) [OF pre i(3) _ new] by (simp add: db1_def)
  note get = get_node [OF pre, unfolded node_at.simps]
  have "link_from finish sys (Enter cur) (db, dg, w) =
      link_from finish sys (Needed cur i (dyntab (elfObject (last db)))) (db1, dg, w)"
    using get i new by (subst link_from.simps) (simp add: db1_def)
  also have "\<dots> = link_from finish sys (Needed cur i ?dyn) (db1, dg, w)"
    using need(2) len1(2) by (intro loop_skips) (auto simp: Let_def)
  finally have enter: "link_from finish sys (Enter cur) (db, dg, w) = link_from finish sys (Needed cur i ?dyn) (db1, dg, w)" .
  have entry: "\<not> elf_Dynamic_isSentinel (mem w) ?dyn" "elf_Dynamic_needed (mem w) ?dyn (dynStringtab (elfObject (last db))) = q"
    using need(2) by (auto simp: Let_def)
  have step: "link_from finish sys (Needed cur i ?dyn) (db1, dg, w) = lnk_ObjDb_addNeeded sys q db1 w \<bind> (\<lambda>(st, dbIx, objDb, w).
           if \<not> is_ok st then Some (st, objDb, dg, w)
           else let (st, childLink, searchDag) = lnk_SearchDag_addChild cur dbIx dg in
             if \<not> is_ok st then Some (st, objDb, searchDag, w)
             else do {
               (st, s) \<leftarrow> link_from finish sys (Enter childLink) (objDb, searchDag, w);
               if \<not> is_ok st then Some (st, s)
               else link_from finish sys (Needed cur i (?dyn + 8)) s })"
    using entry need(1) len1(2) by (subst link_from.simps) (simp add: Let_def)
  obtain w' where w': "if length db1 \<ge> LNK_MAX_ELF_OBJECTS
      then lnk_ObjDb_addNeeded sys q db1 w = Some (lnk_Status_init1 LNK_TOO_MANY_OBJECTS, - 1, db1, w')
      else \<exists>info. lnk_ObjDb_addNeeded sys q db1 w = Some (st_ok, int (length db1), db1 @ [info], w') \<and>
        dagState info = LNK_DAG_NOT_STARTED \<and> header (elfObject info) \<noteq> 0 \<and> needs_one J (elfObject info) w'"
    using reload_add [OF sys J hd] by blast
  show ?thesis
  proof (cases "length db = LNK_MAX_ELF_OBJECTS")
    case True
    then show ?thesis using w' len1(1) enter step by (auto simp: lnk_codes)
  next
    case False
    then obtain info where add: "lnk_ObjDb_addNeeded sys q db1 w = Some (st_ok, int (length db1), db1 @ [info], w')"
      and info: "dagState info = LNK_DAG_NOT_STARTED" "header (elfObject info) \<noteq> 0" "needs_one J (elfObject info) w'"
      using w' len(2) len1(1) by (auto split: if_splits)
    obtain st' new dg' where child: "lnk_SearchDag_addChild cur (int (length db1)) dg = (st', new, dg')" by (rule prod_cases3)
    have inv: "link_inv A db1 dg" "cur \<in> A" using pre1 by (simp_all add: link_pre_def)
    have ok: "is_ok st'" using addChild_room [OF inv child] nxt len(2) by (simp add: LNK_MAX_ELF_OBJECTS_def LNK_MAX_DAG_NODES_def)
    note n = needed_child [OF pre1 add child ok]
    have c: "new = Suc (length db)" "dag_next dg' = Suc new" "nodes dg' new = lnk_SearchNode_init (int (length db1))"
      using addChild_ok [OF inv child ok] nxt by blast+
    have "dbIndex (nodes dg' new) = int (length db1)" unfolding c(3) by (simp add: lnk_SearchNode_init_def)
    note c = c(1,2) this
    have "chain_state J (insert new A) new (db1 @ [info], dg', w')"
      using n(1) c info hd False len(2) len1(1) by (simp add: chain_state_def)
    moreover have "link_from finish sys (Enter cur) (db, dg, w) = Some (lnk_Status_init1 LNK_TOO_MANY_OBJECTS, s)"
      if "link_from finish sys (Enter new) (db1 @ [info], dg', w') = Some (lnk_Status_init1 LNK_TOO_MANY_OBJECTS, s)" for s
      using that enter step add child ok by (simp add: lnk_codes)
    ultimately show ?thesis using False by auto
  qed
qed


lemma chain_exhausts:
  assumes sys: "reloads sys J"
  shows "LNK_MAX_ELF_OBJECTS - length (fst s) = n \<Longrightarrow> chain_state J A cur s \<Longrightarrow>
    \<exists>s'. link_from finish sys (Enter cur) s = Some (lnk_Status_init1 LNK_TOO_MANY_OBJECTS, s')"
proof (induction n arbitrary: A cur s)
  case (0 A cur s)
  obtain db dg w where s: "s = (db, dg, w)" by (rule prod_cases3)
  have "length db = LNK_MAX_ELF_OBJECTS" using 0 by (simp add: s chain_state_def)
  then show ?case using chain_next [OF sys, of A cur db dg w finish] 0(2) by (auto simp: s)
next
  case (Suc n A cur s)
  obtain db dg w where s: "s = (db, dg, w)" by (rule prod_cases3)
  have "length db \<noteq> LNK_MAX_ELF_OBJECTS" using Suc.prems(1) by (simp add: s)
  let ?db = "set_info (length db - 1) (\<lambda>info. info\<lparr>dagState := LNK_DAG_UNDER_CONSTRUCTION\<rparr>) db"
  obtain info new dg' w' where nx: "chain_state J (insert new A) new (?db @ [info], dg', w')"
    and imp: "\<forall>s'. link_from finish sys (Enter new) (?db @ [info], dg', w') = Some (lnk_Status_init1 LNK_TOO_MANY_OBJECTS, s') \<longrightarrow>
        link_from finish sys (Enter cur) (db, dg, w) = Some (lnk_Status_init1 LNK_TOO_MANY_OBJECTS, s')"
    using chain_next [OF sys, of A cur db dg w finish] Suc.prems(2) \<open>length db \<noteq> LNK_MAX_ELF_OBJECTS\<close> by (auto simp: s)
  have "LNK_MAX_ELF_OBJECTS - length (fst (?db @ [info], dg', w')) = n" using Suc.prems(1) by (simp add: s)
  then show ?case using Suc.IH [OF _ nx] imp by (fastforce simp: s)
qed

text \<open>
  So such a cycle is not reported as \<open>LNK_DEPENDENCY_CYCLE\<close>: copies are loaded until the database
  is full.
\<close>

lemma cycle_exhausts_database:
  assumes "reloads sys J" and "dagState info = LNK_DAG_NOT_STARTED"
    and "header (elfObject info) \<noteq> 0" and "needs_one J (elfObject info) w"
  shows "\<exists>s. innerLink sys 1 ([info], lnk_SearchDag_init 0, w) = Some (lnk_Status_init1 LNK_TOO_MANY_OBJECTS, s)"
proof -
  have "chain_state J {1} 1 ([info], lnk_SearchDag_init 0, w)"
    using link_pre_root [OF assms(2)] assms
    by (simp add: chain_state_def lnk_SearchDag_init_def lnk_SearchNode_init_def LNK_MAX_ELF_OBJECTS_def)
  then show ?thesis unfolding innerLink_def by (intro chain_exhausts [OF assms(1) refl])
qed

subsection \<open>Examples\<close>

text \<open>
  An image at 0x1000 whose first dynamic entry has the tag \<open>t\<close>, and at 0x2000 the dynamic
  section of a second object, which needs one.
\<close>

definition image_ram :: "u32 \<Rightarrow> ram" where
  "image_ram t = st32 0x1000 0x464c457f (st32 0x1004 0x10101 (st32 0x1010 3 (st32 0x101c 0x34 (st32 0x1028 0x34 (st32 0x102c 2
     (st32 0x1034 1 (st32 0x1054 2 (st32 0x105c 0x80
     (st32 0x1080 t (st32 0x1084 4 (st32 0x1088 6 (st32 0x108c 0x100 (st32 0x1090 5 (st32 0x1094 0x180
     (st32 0x1098 0x6ffffef5 (st32 0x109c 0x140 (st32 0x1140 1 (st32 0x2000 1 (st32 0x2004 4 (\<lambda>_. 0))))))))))))))))))))"

definition image_object :: elf_Object where
  "image_object = (empty_Object 0x1000)\<lparr>phdrtab := 0x1034, numPhdr := 2, baseAddress := 0x1000, dyntab := 0x1080,
     dynSymboltab := 0x1100, dynStringtab := 0x1180, gnuHashtab := 0x1140,
     gnuHasher := \<lparr>nbuckets = 1, symndx = 0, maskwords = 0, shift2 = 0, bloom = 0x1150, buckets = 0x1150, hashes = 0x1154,
       g_stringtab = 0x1180, g_symtab = 0x1100\<rparr>\<rparr>"

definition image_system :: "'l system" where
  "image_system = \<lparr>ldr_lookup = (\<lambda>_ _. 0), ldr_load = (\<lambda>_ w. ((0x1000, 0), w)), ldr_fixup = (\<lambda>_ w. w), ldr_install = (\<lambda>_ w. w),
     run_init = (\<lambda>_ w. w), run_prefs = (\<lambda>_ p w. (p, w)), run_prelude = (\<lambda>_ _ _ w. (0, w)),
     nm_options = 0, nm_prelude = 0, nm_preferences = 0, before_info = (\<lambda>_. empty_Object 0)\<rparr>"

definition image_world_of :: "'l \<Rightarrow> u32 \<Rightarrow> 'l world" where
  "image_world_of x t = \<lparr>mem = image_ram t, exidx_tab = (exidxTable\<lparr>tab_start := 0x100000\<rparr>, []), ldr = x\<rparr>"

abbreviation image_world :: "u32 \<Rightarrow> unit world" where "image_world \<equiv> image_world_of ()"

lemma image_words:
  "ld8 (image_ram t) 0x1000 = 0x7f" "ld8 (image_ram t) 0x1001 = 0x45" "ld8 (image_ram t) 0x1002 = 0x4c" "ld8 (image_ram t) 0x1003 = 0x46"
  "ld8 (image_ram t) 0x1004 = 1" "ld8 (image_ram t) 0x1006 = 1" "ld16 (image_ram t) 0x1010 = 3" "ld32 (image_ram t) 0x101c = 0x34"
  "ld16 (image_ram t) 0x1028 = 0x34" "ld16 (image_ram t) 0x102c = 2" "ld32 (image_ram t) 0x1034 = 1" "ld32 (image_ram t) 0x103c = 0"
  "ld32 (image_ram t) 0x1054 = 2" "ld32 (image_ram t) 0x105c = 0x80"
  "ld32 (image_ram t) 0x1080 = t" "ld32 (image_ram t) 0x1084 = 4" "ld32 (image_ram t) 0x1088 = 6" "ld32 (image_ram t) 0x108c = 0x100"
  "ld32 (image_ram t) 0x1090 = 5" "ld32 (image_ram t) 0x1094 = 0x180" "ld32 (image_ram t) 0x1098 = 0x6ffffef5" "ld32 (image_ram t) 0x109c = 0x140"
  "ld32 (image_ram t) 0x10a0 = 0" "ld32 (image_ram t) 0x2000 = 1" "ld32 (image_ram t) 0x2004 = 4" "ld32 (image_ram t) 0x2008 = 0"
  "ld32 (image_ram t) 0x1140 = 1" "ld32 (image_ram t) 0x1150 = 0" "ld32 (image_ram t) 0x1144 = 0" "ld32 (image_ram t) 0x1148 = 0" "ld32 (image_ram t) 0x114c = 0"
  "ld32 (image_ram t) 0x13f0 = 0"
  by (simp_all add: image_ram_def ld32_st32_other word_aligned_def) (simp_all add: ld16_def ld8_def ld32_def st32_def le_word_def le_half_def)


lemma image_init:
  assumes "t = 1 \<or> t = 21"
  shows "elf_Object_init (image_ram t) 0x1000 = Some (ELF_OK, image_object)"
proof -
  let ?m = "image_ram t"
  have check: "elf_Header_check ?m 0x1000 = ELF_OK"
    by (simp add: elf_Header_check_def elf_Header_type_def elf_Header_size_def elf_Header_numPhdr_def elf_Header_offPhdr_def
        image_words flag_if_def ELF_OK_def)
  have n: "elf_Header_numPhdr ?m 0x1000 = 2" "elf_Header_addrPhdr ?m 0x1000 = 0x1034"
    by (simp_all add: elf_Header_numPhdr_def elf_Header_addrPhdr_def elf_Header_offPhdr_def image_words)
  have sc: "scan_phdrs ?m 0x1034 2 = \<lparr>loadable = True, lowVaddr = 0, dynamic_ph = 0x1054, exidx_ph = 0\<rparr>"
    by (simp add: scan_phdrs_def upt_rec phdr_at_def phdr_step_def elf_Pheader_isLoadable_def elf_Pheader_isDynamic_def
      elf_Pheader_type_def elf_Pheader_virtAddr_def image_words)
  let ?o = "(empty_Object 0x1000)\<lparr>phdrtab := 0x1034, numPhdr := 2, baseAddress := 0x1000, dyntab := 0x1080\<rparr>"
  let ?o2 = "?o\<lparr>dynSymboltab := 0x1100, dynStringtab := 0x1180, gnuHashtab := 0x1140\<rparr>"
  let ?sc = "scan_phdrs ?m 0x1034 2"
  have segs: "missing_segments ?sc = ELF_OK" "(set_segments ?m 2 0x1034 ?sc (empty_Object 0x1000))\<lparr>dyntab := 0x1080\<rparr> = ?o"
    "baseAddress (set_segments ?m 2 0x1034 ?sc (empty_Object 0x1000)) + elf_Pheader_virtAddr ?m (dynamic_ph ?sc) = 0x1080"
    by (simp_all add: sc missing_segments_def flag_if_def ELF_OK_def set_segments_def Let_def empty_Object_def
        elf_Pheader_virtAddr_def image_words)
  have dyn: "scan_dynamic ?m 0x1080 ?o = Some ?o2"
    using assms
    by (elim disjE) (simp_all add: scan_dynamic.simps Let_def elf_Dynamic_isSentinel_def elf_Dynamic_tag_def elf_Dynamic_value_def
      elf_Dynamic_ptr_def elf_Dynamic_symtabAddr_def elf_Dynamic_stringtabAddr_def elf_Dynamic_sysvHashtabAddr_def
      elf_Dynamic_gnuHashtabAddr_def elf_Dynamic_reltabAddr_def elf_Dynamic_pltReltabAddr_def elf_Dynamic_inittabAddr_def
      elf_Dynamic_numRels_def elf_Dynamic_numPltRels_def elf_Dynamic_numInits_def dyn_addr_def dyn_count_def dyn_tags or_old_def
      image_words empty_Object_def)
  have tables: "missing_tables ?o2 = ELF_OK" "set_hashers ?m ?o2 = image_object"
    by (simp_all add: missing_tables_def flag_if_def ELF_OK_def set_hashers_def image_object_def empty_Object_def
        elf_GnuHasher_init_def Let_def image_words)
  show ?thesis
    by (simp only: elf_Object_init_def check n segs Let_def dyn tables simp_thms if_False bind.simps)
qed

text \<open>A stretch of 16 zero bytes at a multiple of 8 has a 0 tag for every walk.\<close>

lemma far_sentinel:
  assumes "\<forall>a \<in> {0x100000 ..< 0x100010}. m a = 0"
  shows "\<exists>n. elf_Dynamic_isSentinel m (dyn + 8 * of_nat n)"
proof -
  define r where "r = dyn mod 8"
  have "unat r < 8" by (simp add: r_def unat_mod)
  then have "unat r = 0 \<or> unat r = 1 \<or> unat r = 2 \<or> unat r = 3 \<or> unat r = 4 \<or> unat r = 5 \<or> unat r = 6 \<or> unat r = 7" by arith
  then have r: "r = 0 \<or> r = 1 \<or> r = 2 \<or> r = 3 \<or> r = 4 \<or> r = 5 \<or> r = 6 \<or> r = 7"
    by (elim disjE) (drule arg_cong [of _ _ "of_nat :: nat \<Rightarrow> u32"], simp)+
  define n where "n = unat (0x20000 - dyn div 8)"
  define q where "q = dyn div 8"
  have "of_nat n = 0x20000 - q" by (simp add: n_def q_def)
  moreover have "dyn = q * 8 + r" by (simp add: r_def q_def div_mult_mod_eq)
  ultimately have "dyn + 8 * of_nat n = q * 8 + r + 8 * (0x20000 - q)" by metis
  also have "\<dots> = 0x100000 + r" by (simp add: algebra_simps)
  finally have "dyn + 8 * of_nat n = 0x100000 + r" .
  moreover have "ld32 m (0x100000 + r) = 0"
    using r assms by (elim disjE) (simp_all add: ld32_def le_word_def)
  ultimately have "elf_Dynamic_isSentinel m (dyn + 8 * of_nat n)"
    by (simp add: elf_Dynamic_isSentinel_def elf_Dynamic_tag_def dyn_tags)
  then show ?thesis by blast
qed

lemma image_sentinel: "\<exists>n. elf_Dynamic_isSentinel (image_ram t) (dyn + 8 * of_nat n)"
proof (rule far_sentinel, rule ballI)
  fix a :: u32 assume "a \<in> {0x100000 ..< 0x100010}"
  then have "0x100000 \<le> a" by simp
  then have "a \<noteq> k" if "k < 0x100000" for k using that by auto
  then show "image_ram t a = 0" by (simp add: image_ram_def st32_def)
qed

text \<open>The copies of the image are found equal, have no relocations and define no symbols.\<close>

lemma image_lookup: "gnuHashtab obj = 0x1140 \<Longrightarrow> gnuHasher obj = gnuHasher image_object \<Longrightarrow> lookup (image_ram t) obj 0 = Some 0"
proof -
  assume "gnuHashtab obj = 0x1140" "gnuHasher obj = gnuHasher image_object"
  moreover have "elf_GnuHasher_hash (image_ram t) 0 = Some 5381"
    by (simp add: elf_GnuHasher_hash_def gnu_hash_loop.simps image_ram_def st32_def)
  moreover have "elf_GnuHasher_lookup (image_ram t) (gnuHasher image_object) 5381 0 = Some 0"
    by (simp add: elf_GnuHasher_lookup_def gnu_bloom_word_def gnu_bloom_bits_def image_object_def empty_Object_def image_words)
  ultimately show ?thesis by (simp add: lookup_def elf_Object_hash_def elf_Object_lookup_def)
qed

lemma image_bind:
  assumes "gnuHashtab (elfObject info) = 0x1140" and "gnuHasher (elfObject info) = gnuHasher image_object"
    and "numRels (elfObject info) = 0" "numPltRels (elfObject info) = 0" "numInits (elfObject info) = 0"
  shows "bind_object image_system db dg info (image_world_of x t) = Some (st_ok, image_world_of x t)"
proof -
  have w: "mem (image_world_of x t) = image_ram t" "(image_world_of x t)\<lparr>mem := image_ram t\<rparr> = image_world_of x t"
    by (simp_all add: image_world_of_def)
  have l: "lookup (image_ram t) (elfObject info) 0 = Some 0" by (rule image_lookup [OF assms(1,2)])
  show ?thesis
    by (simp add: bind_object_def Let_def assms relocate_def w run_inits_def l image_system_def)
qed

lemma image_exidx: "exidx obj = 0 \<Longrightarrow> rememberExidx m obj st = Some st"
  by (simp add: rememberExidx_def)

lemma image_facts:
  "exidx image_object = 0" "header image_object = 0x1000" "gnuHashtab image_object = 0x1140" "numRels image_object = 0"
  "numPltRels image_object = 0" "numInits image_object = 0" "exidx (empty_Object 0) = 0"
  "dyntab image_object = 0x1080" "dynStringtab image_object = 0x1180"
  by (simp_all add: image_object_def empty_Object_def)

text \<open>The image needs itself, when its first entry names what it needs.\<close>

lemma image_needs: "first_need (image_ram 1) image_object 0x1184"
  unfolding first_need_def
  by (intro conjI exI [of _ 0]) (simp_all add: elf_Dynamic_isSentinel_def elf_Dynamic_tag_def elf_Dynamic_needed_def dyn_addr_def
      elf_Dynamic_ptr_def image_facts image_words dyn_tags)

lemma image_reloads: "reloads image_system (\<lambda>w so. w = image_world 1)"
  unfolding reloads_def
proof (intro allI impI conjI)
  fix w :: "unit world" and so assume w: "w = image_world 1"
  show "ldr_lookup image_system so w = 0" by (simp add: image_system_def)
  show "\<exists>a ls w' obj q. ldr_load image_system so w = ((a, ls), w') \<and> a \<noteq> 0 \<and> elf_Object_init (mem w') a = Some (ELF_OK, obj) \<and>
        first_need (mem w') obj q \<and> (\<forall>o1 \<in> {obj, before_info image_system w'}.
          \<exists>ex. rememberExidx (mem w') o1 (exidx_tab w') = Some ex \<and> w'\<lparr>exidx_tab := ex\<rparr> = image_world 1)"
    by (rule exI [of _ "0x1000"], rule exI [of _ 0], rule exI [of _ w], rule exI [of _ image_object], rule exI [of _ "0x1184"])
      (use image_needs image_init [of 1] in \<open>simp add: image_system_def image_exidx image_facts w image_world_of_def\<close>)
qed

definition fresh_info :: "elf_Object \<Rightarrow> lnk_ObjInfo" where
  "fresh_info obj = \<lparr>elfObject = obj, soname = 0, dagState = LNK_DAG_NOT_STARTED, dag = 0, prefsOverride = 0, bound = False, installable = True\<rparr>"

lemma image_cycle:
  "\<exists>s. innerLink image_system 1 ([fresh_info image_object], lnk_SearchDag_init 0, image_world 1) =
     Some (lnk_Status_init1 LNK_TOO_MANY_OBJECTS, s)"
proof (rule cycle_exhausts_database [OF image_reloads])
  show "needs_one (\<lambda>w so. w = image_world 1) (elfObject (fresh_info image_object)) (image_world 1)"
    using image_needs by (auto simp: needs_one_def fresh_info_def image_world_of_def)
qed (simp_all add: fresh_info_def image_facts)

text \<open>The same system for a link that ends, and one that succeeds.\<close>

definition image_good :: "'l \<Rightarrow> u32 \<Rightarrow> elf_Object list \<Rightarrow> 'l world \<Rightarrow> bool" where
  "image_good x t objs w \<longleftrightarrow> mem w = image_ram t \<and> ldr w = x \<and> exidx_ready (exidx_tab w) \<noteq> None \<and> set objs \<subseteq> {image_object}"

lemma image_add:
  assumes "t = 1 \<or> t = 21" and "lnk_ObjDb_lookup db 0 = - 1"
  shows "lnk_ObjDb_addNeeded image_system so db (image_world_of x t) =
    (if length db \<ge> LNK_MAX_ELF_OBJECTS then Some (lnk_Status_init1 LNK_TOO_MANY_OBJECTS, - 1, db, image_world_of x t)
     else Some (st_ok, int (length db), db @ [(fresh_info image_object)\<lparr>soname := so\<rparr>], image_world_of x t))"
proof -
  have load: "ldr_lookup image_system so w = 0" "ldr_load image_system so w = ((0x1000, 0), w)" "before_info image_system w = empty_Object 0" for w
    by (simp_all add: image_system_def)
  have ex: "(image_world_of x t)\<lparr>exidx_tab := exidx_tab (image_world_of x t)\<rparr> = image_world_of x t" by simp
  have init: "elf_Object_init (mem (image_world_of x t)) 0x1000 = Some (ELF_OK, image_object)"
    using image_init [OF assms(1)] by (simp add: image_world_of_def)
  show ?thesis
    using assms(2)
    by (simp add: lnk_ObjDb_addNeeded_def lnk_ObjDb_add_def load init image_exidx image_facts ELF_OK_def LNK_OK_def fresh_info_def)
qed

lemma image_table: "gnu_table (image_ram t) (gnuHasher image_object) []"
  by (simp add: gnu_table_def gnu_symbols_def gnu_bucket_def image_object_def empty_Object_def image_words)

lemma image_outside:
  assumes t: "t = 1 \<or> t = 21"
  shows "outside_ok UNIV (image_good x t) image_system"
  unfolding outside_ok_def
proof (intro allI impI conjI)
  fix objs :: "elf_Object list" and w :: "'a world" assume G: "image_good x t objs w"
  have new: "new_object (image_good x t) objs 0x1000 w"
    using G image_init [OF t] by (simp add: new_object_def image_good_def)
  have "\<exists>p. image_ram t p = 0" by (rule exI [of _ 0]) (simp add: image_ram_def st32_def)
  moreover have "\<forall>obj \<in> set objs. gnuHashtab obj \<noteq> 0 \<and> (\<exists>names. gnu_table (image_ram t) (gnuHasher obj) names)"
  proof
    fix obj assume "obj \<in> set objs"
    then have "obj = image_object" using G by (auto simp: image_good_def)
    then show "gnuHashtab obj \<noteq> 0 \<and> (\<exists>names. gnu_table (image_ram t) (gnuHasher obj) names)"
      using image_table by (auto simp: image_facts)
  qed
  ultimately have "followed objs (image_ram t)" using image_sentinel by (simp add: followed_def)
  moreover have "rel_slots image_object = {}" by (simp add: rel_slots_def image_facts)
  ultimately show "link_data UNIV objs (mem w)"
    using G by (auto simp: link_data_def image_good_def same_outside_def fun_eq_iff [symmetric])
  show "exidx_ready (exidx_tab w) \<noteq> None" using G by (simp add: image_good_def)
  show "image_good x t objs (w\<lparr>mem := m\<rparr>)" if "same_outside (- UNIV) (mem w) m" for m
    using G that by (simp add: image_good_def same_outside_def fun_eq_iff [symmetric])
  show "image_good x t objs (w\<lparr>exidx_tab := ex\<rparr>)" if "exidx_ready ex \<noteq> None" for ex
    using G that by (simp add: image_good_def)
  show "image_good x t objs w'" "new_object (image_good x t) objs a w'" if "ldr_load image_system so w = ((a, ls), w')" for so a ls w'
    using G new that by (auto simp: image_system_def)
  show "new_object (image_good x t) objs (ldr_lookup image_system so w) w" for so
    by (simp add: image_system_def new_object_def)
qed (simp_all add: image_system_def)

lemma every_link_ends_witness:
  "\<exists>elf r st w'. lnk_load image_system 0x500 0 (image_world 1) = Some (elf, r, st, w')"
  by (rule every_link_ends [OF image_outside [of 1 "()"]])
    (simp_all add: image_good_def image_world_of_def exidx_ready_def)


definition root_object :: elf_Object where
  "root_object = image_object\<lparr>header := 0x3000, dyntab := 0x2000\<rparr>"

text \<open>The root needs the image, which needs nothing; both are bound, the image first.\<close>

lemma image_finish:
  assumes "i < length db" and "elfObject (db ! i) \<in> {image_object, root_object}" and "\<not> bound (db ! i)"
  shows "finish_object image_system cur i (db, dg, image_world t) = Some (st_ok, set_info i (\<lambda>info. info\<lparr>bound := True\<rparr>)
    (set_info i (\<lambda>info. info\<lparr>dag := child (nodes dg cur), dagState := LNK_DAG_DONE\<rparr>) db), dg, image_world t)"
proof -
  let ?db = "set_info i (\<lambda>info. info\<lparr>dag := child (nodes dg cur), dagState := LNK_DAG_DONE\<rparr>) db"
  have "bind_object image_system ?db dg (?db ! i) (image_world t) = Some (st_ok, image_world t)"
    using assms by (intro image_bind) (auto simp: root_object_def image_facts)
  then show ?thesis using assms(1,3) by (simp add: finish_object_def Let_def)
qed

lemma image_tags:
  "elf_Dynamic_isSentinel (mem (image_world t)) a \<longleftrightarrow> ld32 (image_ram t) a = 0"
  "elf_Dynamic_needed (mem (image_world t)) a strtab = (if ld32 (image_ram t) a = 1 then ld32 (image_ram t) (a + 4) + strtab else 0)"
  by (simp_all add: elf_Dynamic_isSentinel_def elf_Dynamic_tag_def elf_Dynamic_needed_def dyn_addr_def elf_Dynamic_ptr_def
      image_world_of_def dyn_tags)

definition root_db :: lnk_ObjDb where "root_db = [fresh_info root_object]"

abbreviation start_info :: "lnk_ObjInfo \<Rightarrow> lnk_ObjInfo" where
  "start_info info \<equiv> info\<lparr>dagState := LNK_DAG_UNDER_CONSTRUCTION\<rparr>"

lemma image_link:
  assumes "dbIndex (nodes dg 2) = 1" and "child (nodes dg 2) = 0"
  shows "\<exists>db. link_from (finish_object image_system) image_system (Enter 2)
      ([start_info (fresh_info root_object), (fresh_info image_object)\<lparr>soname := so\<rparr>], dg, image_world 21) =
    Some (st_ok, [start_info (fresh_info root_object), db], dg, image_world 21)"
proof -
  let ?db = "[start_info (fresh_info root_object), start_info ((fresh_info image_object)\<lparr>soname := so\<rparr>)]"
  have "link_from (finish_object image_system) image_system (Enter 2)
      ([start_info (fresh_info root_object), (fresh_info image_object)\<lparr>soname := so\<rparr>], dg, image_world 21) =
    link_from (finish_object image_system) image_system (Needed 2 1 0x1080) (?db, dg, image_world 21)"
    by (subst link_from.simps) (simp add: lnk_SearchDag_get_def lnk_ObjDb_get_def LNK_MAX_DAG_NODES_def assms set_info_def fresh_info_def
        image_facts)
  also have "\<dots> = finish_object image_system 2 1 (?db, dg, image_world 21)"
    by (simp add: loop_skip loop_end image_tags image_words)
  finally show ?thesis
    using image_finish [of 1 ?db 2 dg 21] by (simp add: set_info_def fresh_info_def)
qed

lemma root_links:
  "\<exists>db dg. innerLink image_system 1 (root_db, lnk_SearchDag_init 0, image_world 21) = Some (st_ok, db, dg, image_world 21) \<and> dag_next dg = 3"
proof -
  let ?dg = "lnk_SearchDag_init 0" and ?W = "image_world 21" and ?F = "finish_object image_system"
  let ?db1 = "[start_info (fresh_info root_object)]"
  let ?info = "(fresh_info image_object)\<lparr>soname := 0x1184\<rparr>"
  have root: "dyntab root_object = 0x2000" "dynStringtab root_object = 0x1180" "header root_object = 0x3000"
    by (simp_all add: root_object_def image_facts)
  have enter: "innerLink image_system 1 (root_db, ?dg, ?W) = link_from ?F image_system (Needed 1 0 0x2000) (?db1, ?dg, ?W)"
    unfolding innerLink_def
    by (subst link_from.simps) (simp add: lnk_SearchDag_get_def lnk_ObjDb_get_def LNK_MAX_DAG_NODES_def lnk_SearchDag_init_def
        lnk_SearchNode_init_def root_db_def set_info_def root fresh_info_def)
  have add: "lnk_ObjDb_addNeeded image_system 0x1184 ?db1 ?W = Some (st_ok, 1, ?db1 @ [?info], ?W)"
    using image_add [of 21 ?db1 "0x1184"] by (simp add: lnk_ObjDb_lookup_def fresh_info_def root LNK_MAX_ELF_OBJECTS_def)
  obtain dg where child: "lnk_SearchDag_addChild 1 1 ?dg = (st_ok, 2, dg)" "dag_next dg = 3" "dbIndex (nodes dg 2) = 1" "child (nodes dg 2) = 0"
    by (simp add: lnk_SearchDag_addChild_def lnk_SearchDag_init_def lnk_SearchDag_get_def LNK_MAX_DAG_NODES_def lnk_SearchNode_init_def
        set_node_def)
  obtain info where image: "link_from ?F image_system (Enter 2) (?db1 @ [?info], dg, ?W) = Some (st_ok, [start_info (fresh_info root_object), info], dg, ?W)"
    using image_link [OF child(3,4), of "0x1184"] by auto
  have "link_from ?F image_system (Needed 1 0 0x2000) (?db1, ?dg, ?W) =
      link_from ?F image_system (Needed 1 0 0x2008) ([start_info (fresh_info root_object), info], dg, ?W)"
    using add child(1) image by (subst link_from.simps) (simp add: Let_def image_tags image_words fresh_info_def root)
  also have "\<dots> = finish_object image_system 1 0 ([start_info (fresh_info root_object), info], dg, ?W)"
    by (simp add: loop_end image_tags image_words)
  finally show ?thesis
    using image_finish [of 0 "[start_info (fresh_info root_object), info]" 1 dg 21] child(2) enter by (simp add: fresh_info_def)
qed

lemma bound_after_dependencies_witness:
  "\<exists>r. checked_link image_system (Enter 1) [] (root_db, lnk_SearchDag_init 0, image_world 21) = Some r \<and>
     (\<forall>k \<in> {1 ..< 3}. bound (fst (snd r) ! obj_of (fst (snd (snd r))) k))"
proof -
  obtain db dg where r: "innerLink image_system 1 ([fresh_info root_object], lnk_SearchDag_init 0, image_world 21) = Some (st_ok, db, dg, image_world 21)"
    "dag_next dg = 3"
    using root_links unfolding root_db_def by blast
  have "dagState (fresh_info root_object) = LNK_DAG_NOT_STARTED" by (simp add: fresh_info_def)
  from bound_after_dependencies [OF this r(1)] show ?thesis
    by (intro exI [of _ "(st_ok, db, dg, image_world 21)"]) (auto simp: root_db_def r(2))
qed

end
