(* ===== verification/Ldr.thy ===== *)
theory Ldr
  imports Elf Kvt Mmu
begin

text \<open>
  The loader of shareable images (\<^verbatim>\<open>tool/ldr/src/Ldr.c\<close>, \<^verbatim>\<open>tool/ldr/include/Ldr.h\<close>): name spaces and
  installed images in two key-value tables, reading the loadable segments of a file into a
  block of the system region, and setting the page attributes of an image. The POSIX file
  calls are a parameter; their state is the type variable \<open>'f\<close>. Local arrays are byte lists,
  their contents at function entry are given by \<open>fresh_stack\<close>, and leaving one is \<open>None\<close>.
\<close>

subsection \<open>Status and limits\<close>

definition ldr_code :: "u32 \<Rightarrow> u32" where "ldr_code n = push_bit 16 1 OR n"
definition LDR_SUCCESS :: u32 where "LDR_SUCCESS = 0"
definition LDR_NO_SUCH_FILE :: u32 where "LDR_NO_SUCH_FILE = ldr_code 2"
definition LDR_NOT_ELF_FILE :: u32 where "LDR_NOT_ELF_FILE = ldr_code 3"
definition LDR_NOT_LOADABLE :: u32 where "LDR_NOT_LOADABLE = ldr_code 4"
definition LDR_INSFMEM :: u32 where "LDR_INSFMEM = ldr_code 5"
definition LDR_FILEIO_ERROR :: u32 where "LDR_FILEIO_ERROR = ldr_code 6"
definition LDR_IMAGE_NO_MATCH :: u32 where "LDR_IMAGE_NO_MATCH = ldr_code 7"
definition LDR_NOT_ELF_IMAGE :: u32 where "LDR_NOT_ELF_IMAGE = ldr_code 8"
definition LDR_IMAGE_WITHOUT_NAME :: u32 where "LDR_IMAGE_WITHOUT_NAME = ldr_code 9"
definition LDR_IMAGE_INSTALLED :: u32 where "LDR_IMAGE_INSTALLED = ldr_code 10"

lemmas ldr_codes =
  ldr_code_def LDR_SUCCESS_def LDR_NO_SUCH_FILE_def LDR_NOT_ELF_FILE_def LDR_NOT_LOADABLE_def LDR_INSFMEM_def
  LDR_FILEIO_ERROR_def LDR_IMAGE_NO_MATCH_def LDR_NOT_ELF_IMAGE_def LDR_IMAGE_WITHOUT_NAME_def LDR_IMAGE_INSTALLED_def

definition MAX_IMAGES :: u32 where "MAX_IMAGES = 8"
definition MAX_NAME_SPACES :: u32 where "MAX_NAME_SPACES = 9"
definition MAX_SEGMENTS :: nat where "MAX_SEGMENTS = 64"
definition LDR_MAX_PATH :: nat where "LDR_MAX_PATH = 256"
definition TERMINATE :: u8 where "TERMINATE = 0x3a"

definition READ_ERROR :: int where "READ_ERROR = - 1"
definition INVALID :: int where "INVALID = - 1"

definition sizeof_Ldr_elf :: nat where "sizeof_Ldr_elf = 52"
definition sizeof_Segment :: nat where "sizeof_Segment = 32"
definition sizeof_Element :: nat where "sizeof_Element = 8"

subsection \<open>The state\<close>

text \<open>
  \<open>io_read\<close> gives the return value with the bytes it stored. The tables live in \<open>ld_kvts\<close>, the
  images in \<open>ld_mem\<close>; a value of a table is an address of \<open>ld_mem\<close>.
\<close>

record 'f file_io =
  io_open :: "u8 list \<Rightarrow> 'f \<Rightarrow> int \<times> 'f"
  io_lseek :: "int \<Rightarrow> u32 \<Rightarrow> 'f \<Rightarrow> int \<times> 'f"
  io_read :: "int \<Rightarrow> u32 \<Rightarrow> 'f \<Rightarrow> (int \<times> u8 list) \<times> 'f"
  io_close :: "int \<Rightarrow> 'f \<Rightarrow> 'f"

record 'f loader =
  ld_mem :: ram
  ld_files :: 'f
  ld_regions :: "mem_Region list"
  ld_kvts :: kv_heap
  ld_mmu :: mmu
  images_table :: addr
  namespace_table :: addr
  fresh_stack :: "nat \<Rightarrow> u8"

definition local_array :: "nat \<Rightarrow> 'f loader \<Rightarrow> u8 list" where
  "local_array n s = map (fresh_stack s) [0 ..< n]"

text \<open>Storing into a local array, and a local array as memory that starts at address 0.\<close>

definition store_local :: "u8 list \<Rightarrow> u8 list \<Rightarrow> u8 list option" where
  "store_local bs arr = (if length bs \<le> length arr then Some (bs @ drop (length bs) arr) else None)"

definition as_ram :: "u8 list \<Rightarrow> ram" where
  "as_ram bs a = (if unat a < length bs then bs ! unat a else 0)"

definition put_bytes :: "u32 \<Rightarrow> u8 list \<Rightarrow> ram \<Rightarrow> ram" where
  "put_bytes p bs m = (\<lambda>a. if unat (a - p) < length bs then bs ! unat (a - p) else m a)"

subsection \<open>C strings\<close>

definition mem_bytes :: "ram \<Rightarrow> u32 \<Rightarrow> nat \<Rightarrow> u8 list" where
  "mem_bytes m p n = map (\<lambda>i. m (p + of_nat i)) [0 ..< n]"

partial_function (option) c_strlen :: "ram \<Rightarrow> u32 \<Rightarrow> nat option" where
  "c_strlen m p = (if m p = 0 then Some 0 else do { n \<leftarrow> c_strlen m (p + 1); Some (Suc n) })"

definition c_string :: "ram \<Rightarrow> u32 \<Rightarrow> u8 list option" where
  "c_string m p = do { n \<leftarrow> c_strlen m p; Some (mem_bytes m p n) }"

text \<open>The hash of a string in memory reads the words up to the one with the terminator.\<close>

definition KvtHash_at :: "ram \<Rightarrow> u32 \<Rightarrow> u64 option" where
  "KvtHash_at m p = do { n \<leftarrow> c_strlen m p; KvtHash (mem_bytes m p (4 * (n div 4 + 1))) }"

subsection \<open>Name spaces\<close>

definition Ldr_Assign :: "u32 \<Rightarrow> u32 \<Rightarrow> 'f loader \<Rightarrow> (u32 \<times> 'f loader) option" where
  "Ldr_Assign this path s = do {
     key \<leftarrow> KvtHash_at (ld_mem s) this;
     (r, h) \<leftarrow> KvtInsert key path (namespace_table s) (ld_kvts s);
     Some (r, s\<lparr>ld_kvts := h\<rparr>) }"

definition Ldr_Rename :: "u32 \<Rightarrow> u32 \<Rightarrow> 'f loader \<Rightarrow> (u32 \<times> 'f loader) option" where
  "Ldr_Rename this path s = do {
     key \<leftarrow> KvtHash_at (ld_mem s) this;
     (r, h) \<leftarrow> KvtRename key path (namespace_table s) (ld_kvts s);
     Some (r, s\<lparr>ld_kvts := h\<rparr>) }"

definition Ldr_Remove :: "u32 \<Rightarrow> 'f loader \<Rightarrow> (u32 \<times> 'f loader) option" where
  "Ldr_Remove this s = do {
     key \<leftarrow> KvtHash_at (ld_mem s) this;
     (r, h) \<leftarrow> KvtRemove key (namespace_table s) (ld_kvts s);
     Some (r, s\<lparr>ld_kvts := h\<rparr>) }"

text \<open>
  The loop of \<open>_parse\<close>: the second argument counts down to the refusal (\<open>None\<close> inside the result); the
  other exits leave the last character, the pointer behind it and the end of the copy.
\<close>

fun parse_loop :: "ram \<Rightarrow> nat \<Rightarrow> u8 \<Rightarrow> u32 \<Rightarrow> nat \<Rightarrow> u8 list \<Rightarrow> (u8 \<times> u32 \<times> nat \<times> u8 list) option option" where
  "parse_loop m 0 nxt src dst ns = Some None"
| "parse_loop m (Suc left) nxt src dst ns =
     (if nxt = TERMINATE then Some (Some (nxt, src, dst, ns))
      else do {
        ns \<leftarrow> wr ns dst nxt;
        let (nxt, src, dst) = (m src, src + 1, dst + 1);
        if nxt \<noteq> 0 then parse_loop m left nxt src dst ns else Some (Some (nxt, src, dst, ns)) })"

text \<open>The result is the rest of the name, 0 for \<open>LDR_MAP_ERROR\<close>, and the name space.\<close>

definition ldr_parse :: "ram \<Rightarrow> u32 \<Rightarrow> u8 list \<Rightarrow> (u32 \<times> u8 list) option" where
  "ldr_parse m this ns =
     (let nxt = m this; src = this + 1 in
      if nxt = 0 then Some (0, ns)
      else if nxt = TERMINATE then Some (0, ns)
      else do {
        r \<leftarrow> parse_loop m (LDR_MAX_PATH - 1) nxt src 0 ns;
        case r of None \<Rightarrow> Some (0, ns)
        | Some (nxt, src, dst, ns) \<Rightarrow> do {
            ns \<leftarrow> wr ns dst 0;
            Some (if nxt = TERMINATE then src else 0, ns) } })"

text \<open>The result is \<open>None\<close> for \<open>LDR_MAP_ERROR\<close>, otherwise the filled buffer.\<close>

definition Ldr_Map :: "u32 \<Rightarrow> u8 list \<Rightarrow> 'f loader \<Rightarrow> u8 list option option" where
  "Ldr_Map this buffer s = do {
     (nm, ns) \<leftarrow> ldr_parse (ld_mem s) this (local_array LDR_MAX_PATH s);
     if nm = 0 then Some None
     else do {
       key \<leftarrow> KvtHash ns;
       prefix \<leftarrow> KvtLookup key (namespace_table s) (ld_kvts s);
       if prefix = 0 then Some None
       else do {
         p \<leftarrow> c_string (ld_mem s) prefix;
         n \<leftarrow> c_string (ld_mem s) nm;
         if length p + length n + 1 > LDR_MAX_PATH then Some None
         else do { buffer \<leftarrow> store_local (p @ n @ [0]) buffer; Some (Some buffer) } } } }"

definition Ldr_Lookup :: "u32 \<Rightarrow> 'f loader \<Rightarrow> u32 option" where
  "Ldr_Lookup this s = do {
     key \<leftarrow> KvtHash_at (ld_mem s) this;
     KvtLookup key (images_table s) (ld_kvts s) }"


subsection \<open>Segments\<close>

text \<open>
  Pointers to program headers are addresses in \<open>m\<close>; \<open>ok\<close> tells the addresses that may be
  read, all of them in an image and those of the array for the headers of a file. Program
  headers are 32 bytes.
\<close>

partial_function (option) ldr_iterate :: "(u32 \<Rightarrow> bool) \<Rightarrow> ram \<Rightarrow> u32 \<Rightarrow> u32 \<Rightarrow> u32 option" where
  "ldr_iterate ok m segment last_seg =
     (if \<not> ok segment then None
      else if elf_Pheader_isLoadable m segment then Some segment
      else let segment = segment + 32 in
        if segment \<noteq> last_seg then ldr_iterate ok m segment last_seg else Some segment)"

partial_function (option) seek_loop :: "(u32 \<Rightarrow> bool) \<Rightarrow> ram \<Rightarrow> u32 \<Rightarrow> u32 \<Rightarrow> u32 \<Rightarrow> u32 option" where
  "seek_loop ok m nxt last_seg end_seg =
     (if nxt \<noteq> end_seg then do {
        let last_seg = nxt;
        nxt \<leftarrow> ldr_iterate ok m (nxt + 32) end_seg;
        seek_loop ok m nxt last_seg end_seg }
      else Some last_seg)"

definition ldr_seek_size :: "(u32 \<Rightarrow> bool) \<Rightarrow> ram \<Rightarrow> u32 \<Rightarrow> u32 \<Rightarrow> u32 option" where
  "ldr_seek_size ok m base end_seg = do {
     nxt \<leftarrow> ldr_iterate ok m (base + 32) end_seg;
     last_seg \<leftarrow> seek_loop ok m nxt base end_seg;
     Some (elf_Pheader_virtAddr m last_seg - elf_Pheader_virtAddr m base + elf_Pheader_memSize m last_seg) }"

definition elf_Pheader_offset :: "ram \<Rightarrow> u32 \<Rightarrow> u32" where "elf_Pheader_offset m phdr = ld32 m (phdr + 4)"
definition elf_Pheader_fileSize :: "ram \<Rightarrow> u32 \<Rightarrow> u32" where "elf_Pheader_fileSize m phdr = ld32 m (phdr + 16)"

abbreviation (input) anywhere :: "u32 \<Rightarrow> bool" where "anywhere \<equiv> \<lambda>_. True"

definition Ldr_Sizeof :: "ram \<Rightarrow> u32 \<Rightarrow> u32 option" where
  "Ldr_Sizeof m this =
     (let phnum = elf_Header_numPhdr m this in
      if phnum = 0 then Some 0
      else let first = elf_Header_addrPhdr m this; last_seg = phdr_at first (unat phnum) in do {
        first \<leftarrow> ldr_iterate anywhere m first last_seg;
        if first \<noteq> last_seg then ldr_seek_size anywhere m first last_seg else Some 0 })"

definition ldr_isElf :: "ram \<Rightarrow> u32 \<Rightarrow> u32" where
  "ldr_isElf m this =
     (if ld8 m this \<noteq> 0x7f then 0
      else if ld8 m (this + 1) \<noteq> 0x45 then 0
      else if ld8 m (this + 2) \<noteq> 0x4c then 0
      else if ld8 m (this + 3) \<noteq> 0x46 then 0
      else if ld8 m (this + 4) \<noteq> 1 then 0
      else if ld8 m (this + 6) \<noteq> 1 then 0
      else if ld32 m (this + 20) \<noteq> 1 then 0
      else if elf_Header_size m this \<noteq> of_nat sizeof_Ldr_elf then 0
      else if ld16 m (this + 42) \<noteq> of_nat sizeof_Segment then 0
      else if elf_Header_offPhdr m this = 0 then 0
      else let phnum = elf_Header_numPhdr m this in if phnum \<le> of_nat MAX_SEGMENTS then phnum else 0)"

subsection \<open>The name of an image\<close>

fun phdr_loop :: "u32 \<Rightarrow> ram \<Rightarrow> u32 \<Rightarrow> nat \<Rightarrow> u32" where
  "phdr_loop tag m segment 0 = 0"
| "phdr_loop tag m segment (Suc left) =
     (if elf_Pheader_type m segment = tag then segment else phdr_loop tag m (segment + 32) left)"

definition ldr_segment :: "u32 \<Rightarrow> ram \<Rightarrow> u32 \<Rightarrow> u32" where
  "ldr_segment tag m elf =
     phdr_loop tag m (elf_Header_addrPhdr m elf) (unat (elf_Header_numPhdr m elf))"

partial_function (option) ldr_element :: "u32 \<Rightarrow> ram \<Rightarrow> u32 \<Rightarrow> u32 option" where
  "ldr_element tag m ent =
     (if elf_Dynamic_tag m ent \<noteq> DT_NULL then
        if elf_Dynamic_tag m ent = tag then Some ent else ldr_element tag m (ent + of_nat sizeof_Element)
      else Some 0)"

definition PT_DYNAMIC :: u32 where "PT_DYNAMIC = 2"
definition DT_SONAME :: u32 where "DT_SONAME = 14"

text \<open>The entry of the string table is used without a test; a null entry is \<open>None\<close>.\<close>

definition Ldr_Name :: "ram \<Rightarrow> u32 \<Rightarrow> u32 option" where
  "Ldr_Name m this =
     (let segment = ldr_segment PT_DYNAMIC m this in
      if segment = 0 then Some 0
      else let vector = this + elf_Pheader_virtAddr m segment in do {
        ent \<leftarrow> ldr_element DT_STRTAB m vector;
        if ent = 0 then None
        else let strings = this + elf_Dynamic_value m ent in do {
          ent \<leftarrow> ldr_element DT_SONAME m vector;
          Some (if ent = 0 then 0 else strings + elf_Dynamic_value m ent) } })"

text \<open>A null name is hashed without a test as well.\<close>

definition ldr_validate :: "ram \<Rightarrow> u32 \<Rightarrow> u32 \<Rightarrow> u32 option" where
  "ldr_validate m this nm = do {
     thisName \<leftarrow> Ldr_Name m this;
     if thisName = 0 then None
     else do {
       this_key \<leftarrow> KvtHash_at m thisName;
       name_key \<leftarrow> KvtHash_at m nm;
       Some (if this_key = name_key then LDR_SUCCESS else LDR_IMAGE_NO_MATCH) } }"

definition Ldr_Install :: "u32 \<Rightarrow> 'f loader \<Rightarrow> (u32 \<times> 'f loader) option" where
  "Ldr_Install this s = do {
     nm \<leftarrow> Ldr_Name (ld_mem s) this;
     if nm = 0 then Some (LDR_IMAGE_WITHOUT_NAME, s)
     else do {
       elf_key \<leftarrow> KvtHash_at (ld_mem s) nm;
       (r, h) \<leftarrow> KvtInsert elf_key this (images_table s) (ld_kvts s);
       Some (if r \<noteq> 0 then LDR_SUCCESS else LDR_IMAGE_INSTALLED, s\<lparr>ld_kvts := h\<rparr>) } }"

subsection \<open>Page attributes\<close>

definition PF_X :: u32 where "PF_X = 1"
definition PF_W :: u32 where "PF_W = 2"
definition PF_R :: u32 where "PF_R = 4"

definition segment_access :: "u32 \<Rightarrow> u16" where
  "segment_access flags =
     (let access = MEM_CACHED;
          access = (if flags AND PF_X \<noteq> 0 then access OR MEM_EXEC else access);
          access = (if flags AND PF_R \<noteq> 0 then access OR MEM_READ else access)
      in if flags AND PF_W \<noteq> 0 then access OR MEM_WRITE else access)"

definition ldr_set :: "ram \<Rightarrow> u32 \<Rightarrow> u32 \<Rightarrow> mmu \<Rightarrow> (u32 \<times> mmu) option" where
  "ldr_set m this off mm =
     (let low = off + elf_Pheader_virtAddr m this; high = low + elf_Pheader_memSize m this in do {
        mm \<leftarrow> mem_setFlags low high (segment_access (elf_Pheader_flags m this)) mm;
        Some (this + 32, mm) })"

partial_function (option) fixup_loop :: "ram \<Rightarrow> u32 \<Rightarrow> u32 \<Rightarrow> u32 \<Rightarrow> mmu \<Rightarrow> mmu option" where
  "fixup_loop m off last_seg nxt mm =
     (if nxt \<noteq> last_seg then do {
        (nxt, mm) \<leftarrow> ldr_set m nxt off mm;
        nxt \<leftarrow> ldr_iterate anywhere m nxt last_seg;
        fixup_loop m off last_seg nxt mm }
      else Some mm)"

definition Ldr_Fixup :: "u32 \<Rightarrow> 'f loader \<Rightarrow> 'f loader option" where
  "Ldr_Fixup this s =
     (let m = ld_mem s; phnum = elf_Header_numPhdr m this in
      if phnum = 0 then Some s
      else let first = elf_Header_addrPhdr m this; last_seg = phdr_at first (unat phnum) in do {
        nxt \<leftarrow> ldr_iterate anywhere m first last_seg;
        mm \<leftarrow> fixup_loop m this last_seg nxt (ld_mmu s);
        Some (s\<lparr>ld_mmu := mm\<rparr>) })"

definition ET_DYN :: u32 where "ET_DYN = 3"

definition Ldr_Offset :: "ram \<Rightarrow> u32 \<Rightarrow> u32" where
  "Ldr_Offset m t = (if elf_Header_type m t = ET_DYN then t else 0)"

definition Ldr_Entry :: "ram \<Rightarrow> u32 \<Rightarrow> u32" where
  "Ldr_Entry m t = Ldr_Offset m t + elf_Header_entry m t"


subsection \<open>Loading\<close>

definition ldr_read :: "'f file_io \<Rightarrow> int \<Rightarrow> u32 \<Rightarrow> u32 \<Rightarrow> 'f \<Rightarrow> (int \<times> u8 list) \<times> 'f" where
  "ldr_read io fd off bufsiz f =
     (let (error, f) = io_lseek io fd off f
      in if error = READ_ERROR then ((error, []), f) else io_read io fd bufsiz f)"

text \<open>The program headers of the file in the array \<open>segments\<close>, with their number; 0 on failure.\<close>

definition ldr_pageIn ::
    "'f file_io \<Rightarrow> u8 list \<Rightarrow> int \<Rightarrow> 'f loader \<Rightarrow> (nat \<times> u8 list \<times> 'f loader) option" where
  "ldr_pageIn io segments fd s =
     (let ((error, bs), f) = ldr_read io fd 0 (of_nat sizeof_Ldr_elf) (ld_files s); s = s\<lparr>ld_files := f\<rparr> in do {
        header \<leftarrow> store_local bs (local_array sizeof_Ldr_elf s);
        if error = READ_ERROR then Some (0, segments, s)
        else let header = as_ram header; phnum = ldr_isElf header 0 in
          if phnum = 0 then Some (0, segments, s)
          else if elf_Header_type header 0 \<noteq> ET_DYN then Some (0, segments, s)
          else let ((error, bs), f) = ldr_read io fd (elf_Header_offPhdr header 0) (of_nat sizeof_Segment * phnum)
                     (ld_files s);
                   s = s\<lparr>ld_files := f\<rparr> in do {
            segments \<leftarrow> store_local bs segments;
            Some (if error \<noteq> READ_ERROR then unat phnum else 0, segments, s) } })"

definition ldr_zero :: "u32 \<Rightarrow> u32 \<Rightarrow> ram \<Rightarrow> ram" where
  "ldr_zero buffer bufsiz m = (\<lambda>a. if a - buffer < bufsiz then 0 else m a)"

text \<open>
  The body of the loop in \<open>_populate\<close>, which its first lines repeat for the base segment. The code
  writes wherever the headers of the file say. A write outside of the block of \<open>len\<close> bytes at
  \<open>elf\<close> may hit anything, the loader's own tables included: it has no value here.
\<close>

definition in_block :: "u32 \<Rightarrow> u32 \<Rightarrow> u32 \<Rightarrow> nat \<Rightarrow> bool" where
  "in_block elf len p n \<longleftrightarrow> n = 0 \<or> unat (p - elf) + n \<le> unat len"

definition populate_segment ::
    "'f file_io \<Rightarrow> ram \<Rightarrow> u32 \<Rightarrow> u32 \<Rightarrow> int \<Rightarrow> u32 \<Rightarrow> 'f loader \<Rightarrow> (u32 \<times> 'f loader) option" where
  "populate_segment io segs elf len fd nxt s =
     (let filesz = elf_Pheader_fileSize segs nxt;
          nzero = elf_Pheader_memSize segs nxt - filesz;
          off = elf_Pheader_offset segs nxt;
          vaddr = elf + elf_Pheader_virtAddr segs nxt;
          ((st, bs), f) = ldr_read io fd off filesz (ld_files s);
          s' = s\<lparr>ld_files := f, ld_mem := put_bytes vaddr bs (ld_mem s)\<rparr>
      in if \<not> in_block elf len vaddr (length bs) then None
         else if st = READ_ERROR then Some (LDR_FILEIO_ERROR, s')
         else if nzero \<noteq> 0
         then if in_block elf len (vaddr + filesz) (unat nzero)
              then Some (LDR_SUCCESS, s'\<lparr>ld_mem := ldr_zero (vaddr + filesz) nzero (ld_mem s')\<rparr>) else None
         else Some (LDR_SUCCESS, s'))"

partial_function (option) ldr_populate ::
    "'f file_io \<Rightarrow> (u32 \<Rightarrow> bool) \<Rightarrow> ram \<Rightarrow> u32 \<Rightarrow> u32 \<Rightarrow> u32 \<Rightarrow> int \<Rightarrow> u32 \<Rightarrow> 'f loader \<Rightarrow> (u32 \<times> 'f loader) option" where
  "ldr_populate io ok segs elf len end_seg fd nxt s = do {
     (st, s) \<leftarrow> populate_segment io segs elf len fd nxt s;
     if st \<noteq> LDR_SUCCESS then Some (st, s)
     else do {
       nxt \<leftarrow> ldr_iterate ok segs (nxt + 32) end_seg;
       if nxt \<noteq> end_seg then ldr_populate io ok segs elf len end_seg fd nxt s else Some (LDR_SUCCESS, s) } }"

definition in_segments :: "u32 \<Rightarrow> bool" where
  "in_segments p \<longleftrightarrow> unat p < MAX_SEGMENTS * sizeof_Segment"

text \<open>The result is the address of the image, 0 for \<open>LDR_LOAD_ERROR\<close>, and the status.\<close>

definition ldr_load_fd :: "'f file_io \<Rightarrow> int \<Rightarrow> u32 \<Rightarrow> 'f loader \<Rightarrow> (u32 \<times> u32 \<times> 'f loader) option" where
  "ldr_load_fd io fd nm s = do {
     (phnum, segments, s) \<leftarrow> ldr_pageIn io (local_array (MAX_SEGMENTS * sizeof_Segment) s) fd s;
     if phnum = 0 then Some (0, LDR_NOT_ELF_FILE, s)
     else let segs = as_ram segments; end_seg = phdr_at 0 phnum in do {
       base \<leftarrow> ldr_iterate in_segments segs 0 end_seg;
       if base = end_seg then Some (0, LDR_NOT_LOADABLE, s)
       else if elf_Pheader_virtAddr segs base \<noteq> 0 then Some (0, LDR_NOT_LOADABLE, s)
       else do {
         size \<leftarrow> ldr_seek_size in_segments segs base end_seg;
         if size = 0 then Some (0, LDR_NOT_LOADABLE, s)
         else let (this, tab) = mem_Region_alloc MEM_REGION_RTS size (ld_regions s); s = s\<lparr>ld_regions := tab\<rparr> in
           if this = 0 then Some (0, LDR_INSFMEM, s)
           else do {
             (error, s) \<leftarrow> ldr_populate io in_segments segs this size end_seg fd base s;
             if error \<noteq> LDR_SUCCESS then Some (this, error, s)
             else do {
               error \<leftarrow> ldr_validate (ld_mem s) this nm;
               Some (this, error, s) } } } } }"

text \<open>The path that is opened is the string in the buffer.\<close>

definition Ldr_Load :: "'f file_io \<Rightarrow> u32 \<Rightarrow> 'f loader \<Rightarrow> (u32 \<times> u32 \<times> 'f loader) option" where
  "Ldr_Load io this s = do {
     path \<leftarrow> Ldr_Map this (local_array LDR_MAX_PATH s) s;
     case path of None \<Rightarrow> Some (0, LDR_NO_SUCH_FILE, s)
     | Some string \<Rightarrow>
         let (fd, f) = io_open io (takeWhile (\<lambda>c. c \<noteq> 0) string) (ld_files s); s = s\<lparr>ld_files := f\<rparr> in
         if fd = INVALID then Some (0, LDR_NO_SUCH_FILE, s)
         else do {
           (elf, error, s) \<leftarrow> ldr_load_fd io fd this s;
           let s = s\<lparr>ld_files := io_close io fd (ld_files s)\<rparr>;
           if error = LDR_SUCCESS then Some (elf, error, s)
           else if elf = 0 then Some (elf, error, s)
           else Some (0, error, s\<lparr>ld_regions := mem_Region_undoAlloc MEM_REGION_RTS elf (ld_regions s)\<rparr>) } }"

subsection \<open>Starting the loader\<close>

definition ldr_construct :: "u32 \<Rightarrow> 'f loader \<Rightarrow> addr \<times> 'f loader" where
  "ldr_construct size2 s =
     (let (buffer, tab) = mem_Region_alloc MEM_REGION_WORKSPACE (KvtSizeof size2) (ld_regions s);
          s = s\<lparr>ld_regions := tab\<rparr>
      in if buffer = 0 then (0, s)
         else let (t, h) = KvtConstruct size2 (unat buffer) (ld_kvts s) in (t, s\<lparr>ld_kvts := h\<rparr>))"

definition Ldr_LoadRtems :: "u32 \<Rightarrow> 'f loader \<Rightarrow> (u32 \<times> 'f loader) option" where
  "Ldr_LoadRtems ourname s =
     (let ourself = mem_Region_startAddress MEM_REGION_RTS (ld_regions s) in do {
        error \<leftarrow> ldr_validate (ld_mem s) ourself ourname;
        if error \<noteq> LDR_SUCCESS then Some (error, s)
        else do {
          size \<leftarrow> Ldr_Sizeof (ld_mem s) ourself;
          if size = 0 then Some (LDR_NOT_ELF_IMAGE, s)
          else let (p, tab) = mem_Region_alloc MEM_REGION_RTS size (ld_regions s); s = s\<lparr>ld_regions := tab\<rparr> in
            if p = 0 then Some (LDR_INSFMEM, s)
            else let (t, s) = ldr_construct MAX_IMAGES s; s = s\<lparr>images_table := t\<rparr> in
              if t = 0 then Some (LDR_INSFMEM, s)
              else let (t, s) = ldr_construct MAX_NAME_SPACES s; s = s\<lparr>namespace_table := t\<rparr> in
                if t = 0 then Some (LDR_INSFMEM, s)
                else do { s \<leftarrow> Ldr_Fixup ourself s; Ldr_Install ourself s } } })"


subsection \<open>Strings in memory\<close>

lemma c_strlen_cstr: "cstr m p xs \<Longrightarrow> c_strlen m p = Some (length xs)"
  by (induction xs arbitrary: p) (auto simp: c_strlen.simps)

lemma mem_bytes_0 [simp]: "mem_bytes m p 0 = []"
  by (simp add: mem_bytes_def)

lemma length_mem_bytes [simp]: "length (mem_bytes m p n) = n"
  by (simp add: mem_bytes_def)

lemma mem_bytes_Suc: "mem_bytes m p (Suc n) = m p # mem_bytes m (p + 1) n"
  unfolding mem_bytes_def map_upt_Suc by (simp add: add.assoc)

lemma mem_bytes_cstr: "cstr m p xs \<Longrightarrow>
    mem_bytes m p (length xs + Suc k) = xs @ 0 # mem_bytes m (p + of_nat (length xs) + 1) k"
proof (induction xs arbitrary: p)
  case (Cons c xs)
  then have "mem_bytes m (p + 1) (length xs + Suc k) = xs @ 0 # mem_bytes m (p + 1 + of_nat (length xs) + 1) k" by simp
  moreover have "p + 1 + of_nat (length xs) + 1 = p + of_nat (length (c # xs)) + 1" by simp
  ultimately show ?case using Cons.prems mem_bytes_Suc [of m p "Suc (length xs + k)"] by simp
qed (simp add: mem_bytes_Suc)

lemma c_string_cstr: "cstr m p xs \<Longrightarrow> c_string m p = Some xs"
proof -
  assume xs: "cstr m p xs"
  have "mem_bytes m p (length xs + Suc 0) = xs @ [0]" using mem_bytes_cstr [OF xs, of 0] by simp
  then have "mem_bytes m p (length xs) = xs"
    unfolding mem_bytes_def by simp
  then show ?thesis by (simp add: c_string_def c_strlen_cstr [OF xs])
qed

lemma cstr_no_zero: "cstr m p xs \<Longrightarrow> 0 \<notin> set xs"
  by (induction xs arbitrary: p) auto

definition string_hash :: "u8 list \<Rightarrow> u64" where
  "string_hash xs = words_hash (str_words xs) (HASH_SEED + MAGIC_NUMBER)"

lemma KvtHash_string: "0 \<notin> set xs \<Longrightarrow> 3 \<le> length xs mod 4 + length pad \<Longrightarrow> KvtHash (xs @ 0 # pad) = Some (string_hash xs)"
  by (simp add: KvtHash_def HashString_value string_hash_def)

lemma KvtHash_at_cstr:
  assumes xs: "cstr m p xs"
  shows "KvtHash_at m p = Some (string_hash xs)"
proof -
  have "4 * (length xs div 4 + 1) = length xs + Suc (3 - length xs mod 4)" by presburger
  then have "mem_bytes m p (4 * (length xs div 4 + 1)) =
      xs @ 0 # mem_bytes m (p + of_nat (length xs) + 1) (3 - length xs mod 4)"
    by (simp only: mem_bytes_cstr [OF xs])
  moreover have "3 \<le> length xs mod 4 + (3 - length xs mod 4)" by presburger
  ultimately show ?thesis
    using KvtHash_string [OF cstr_no_zero [OF xs]] by (simp add: KvtHash_at_def c_strlen_cstr [OF xs] length_mem_bytes)
qed

subsection \<open>Name spaces and paths\<close>

text \<open>What a name means: the name space before the first colon and the rest behind it.\<close>

definition split_name :: "u8 list \<Rightarrow> (u8 list \<times> u8 list) option" where
  "split_name nm =
     (let ns = takeWhile (\<lambda>c. c \<noteq> TERMINATE) nm
      in if ns = [] \<or> ns = nm \<or> LDR_MAX_PATH - 2 < length ns then None else Some (ns, drop (length ns + 1) nm))"

lemma wr_at: "length xs \<le> length ns \<Longrightarrow> length xs < length (xs @ v # ys) \<Longrightarrow> wr (xs @ y # ys) (length xs) v = Some (xs @ v # ys)"
  by (simp add: wr_def)

lemma parse_loop_value:
  assumes "cstr m src cs" and "nxt \<noteq> 0" and "length pre + left < length pre + length suf"
  shows "parse_loop m left nxt src (length pre) (pre @ suf) =
    (let w = takeWhile (\<lambda>c. c \<noteq> TERMINATE) (nxt # cs) in
     if TERMINATE \<in> set (nxt # cs)
     then Some (if length w < left then Some (TERMINATE, src + of_nat (length w), length pre + length w, (pre @ w) @ drop (length w) suf) else None)
     else Some (if length w \<le> left then Some (0, src + of_nat (length w), length pre + length w, (pre @ w) @ drop (length w) suf) else None))"
  using assms
proof (induction cs arbitrary: nxt src pre left suf)
  case Nil
  show ?case
  proof (cases left)
    case (Suc l)
    with Nil obtain y suf' where "suf = y # suf'" by (cases suf) auto
    with Nil Suc show ?thesis by (auto simp: wr_def list_update_append)
  qed simp
next
  case (Cons c cs)
  show ?case
  proof (cases left)
    case (Suc l)
    with Cons.prems obtain y suf' where suf: "suf = y # suf'" by (cases suf) auto
    note ih = Cons.IH [of "src + 1" c "pre @ [nxt]" l suf']
    show ?thesis
    proof (cases "nxt = TERMINATE")
      case False
      then show ?thesis using ih Cons.prems
        by (auto simp: Suc suf wr_def list_update_append Let_def algebra_simps)
    qed (simp add: Suc)
  qed (simp add: Let_def)
qed

lemma ldr_parse_value:
  assumes nm: "cstr m this nm" and len: "length ns0 = LDR_MAX_PATH"
  shows "case split_name nm of
      Some (ns, file) \<Rightarrow> ldr_parse m this ns0 = Some (this + of_nat (length ns) + 1, ns @ 0 # drop (length ns + 1) ns0)
    | None \<Rightarrow> \<exists>ns. ldr_parse m this ns0 = Some (0, ns)"
proof (cases nm)
  case Nil
  then show ?thesis using nm by (simp add: split_name_def ldr_parse_def)
next
  case (Cons c cs)
  let ?w = "takeWhile (\<lambda>c. c \<noteq> TERMINATE) nm"
  have c: "c \<noteq> 0" "m this = c" "cstr m (this + 1) cs" using nm Cons by auto
  have loop: "parse_loop m (LDR_MAX_PATH - 1) c (this + 1) 0 ns0 =
    (if TERMINATE \<in> set nm
     then Some (if length ?w < LDR_MAX_PATH - 1 then Some (TERMINATE, this + 1 + of_nat (length ?w), length ?w, ?w @ drop (length ?w) ns0) else None)
     else Some (if length ?w \<le> LDR_MAX_PATH - 1 then Some (0, this + 1 + of_nat (length ?w), length ?w, ?w @ drop (length ?w) ns0) else None))"
    using parse_loop_value [OF c(3,1), of "[]" "LDR_MAX_PATH - 1" ns0] len Cons
    by (simp add: Let_def LDR_MAX_PATH_def)
  have whole: "?w = nm \<longleftrightarrow> TERMINATE \<notin> set nm" by (auto simp: takeWhile_eq_all_conv)
  have wr: "wr (?w @ drop (length ?w) ns0) (length ?w) 0 = Some (?w @ 0 # drop (length ?w + 1) ns0)"
    if fits: "length ?w \<le> LDR_MAX_PATH - 1"
  proof -
    obtain y ys where "drop (length ?w) ns0 = y # ys"
      using fits len by (cases "drop (length ?w) ns0") (auto simp: LDR_MAX_PATH_def)
    moreover then have "drop (length ?w + 1) ns0 = ys" by (metis add.commute drop_drop drop0 drop_Suc_Cons One_nat_def)
    ultimately show ?thesis by (simp add: wr_def list_update_append)
  qed
  show ?thesis
  proof (cases "c = TERMINATE")
    case True
    then show ?thesis using c Cons by (simp add: split_name_def ldr_parse_def)
  next
    case False
    then have ne: "?w \<noteq> []" using Cons by simp
    show ?thesis
    proof (cases "TERMINATE \<in> set nm")
      case True
      then show ?thesis using False c ne whole wr loop
        by (auto simp: split_name_def ldr_parse_def Let_def LDR_MAX_PATH_def algebra_simps)
    next
      case no: False
      then have "split_name nm = None" using whole by (simp add: split_name_def Let_def)
      then show ?thesis using False c no wr loop TERMINATE_def
        by (auto simp: ldr_parse_def Let_def)
    qed
  qed
qed

text \<open>
  The table of name spaces stands for a map from the hashes of names to path strings; a null
  path counts as none.
\<close>

definition path_at :: "ram \<Rightarrow> u32 option \<Rightarrow> u8 list option" where
  "path_at m v = (case v of None \<Rightarrow> None | Some p \<Rightarrow> if p = 0 then None else c_string m p)"

definition paths_ok :: "ram \<Rightarrow> (u64 \<Rightarrow> u32 option) \<Rightarrow> bool" where
  "paths_ok m nm \<longleftrightarrow> (\<forall>k p. nm k = Some p \<longrightarrow> p \<noteq> 0 \<longrightarrow> c_string m p \<noteq> None)"

definition resolve :: "(u64 \<Rightarrow> u8 list option) \<Rightarrow> u8 list \<Rightarrow> u8 list option" where
  "resolve paths nm = do {
     (ns, file) \<leftarrow> split_name nm;
     p \<leftarrow> paths (string_hash ns);
     if LDR_MAX_PATH < length p + length file + 1 then None else Some (p @ file) }"

lemma split_nameD:
  assumes "split_name nm = Some (ns, file)"
  shows "nm = ns @ TERMINATE # file" and "length ns \<le> LDR_MAX_PATH - 2" and "ns \<noteq> []" and "TERMINATE \<notin> set ns"
proof -
  let ?w = "takeWhile (\<lambda>c. c \<noteq> TERMINATE) nm"
  have *: "?w \<noteq> []" "?w \<noteq> nm" "length ?w \<le> LDR_MAX_PATH - 2" "ns = ?w" "file = drop (length ?w + 1) nm"
    using assms by (auto simp: split_name_def Let_def split: if_splits)
  then have d: "dropWhile (\<lambda>c. c \<noteq> TERMINATE) nm \<noteq> []" by (metis append_Nil2 takeWhile_dropWhile_id)
  then have "dropWhile (\<lambda>c. c \<noteq> TERMINATE) nm = TERMINATE # drop (length ?w + 1) nm"
    using hd_dropWhile [OF d] by (metis (no_types, lifting) Suc_eq_plus1 dropWhile_eq_drop drop_Suc list.exhaust_sel tl_drop)
  then show "nm = ns @ TERMINATE # file" using * by (metis takeWhile_dropWhile_id)
  show "length ns \<le> LDR_MAX_PATH - 2" "ns \<noteq> []" using * by simp_all
  show "TERMINATE \<notin> set ns" using *(4) by (auto dest: set_takeWhileD)
qed

lemma cstr_append: "cstr m p (xs @ c # ys) \<Longrightarrow> cstr m (p + of_nat (length xs) + 1) ys"
proof (induction xs arbitrary: p)
  case (Cons x xs)
  then have "cstr m (p + 1 + of_nat (length xs) + 1) ys" unfolding append_Cons cstr.simps by blast
  moreover have "p + 1 + of_nat (length xs) + 1 = p + of_nat (length (x # xs)) + 1" by simp
  ultimately show ?case by (simp only:)
qed simp

lemma Ldr_Map_value:
  assumes rep: "kvt_rep (ld_kvts s) (namespace_table s) n nm c" and ok: "paths_ok (ld_mem s) nm"
    and xs: "cstr (ld_mem s) this xs" and inside: "unat this + length xs < 2 ^ 32"
    and len: "length buffer = LDR_MAX_PATH"
  shows "Ldr_Map this buffer s = Some (map_option (\<lambda>path. path @ 0 # drop (length path + 1) buffer)
           (resolve (\<lambda>k. path_at (ld_mem s) (nm k)) xs))"
proof (cases "split_name xs")
  case None
  with ldr_parse_value [OF xs, of "local_array LDR_MAX_PATH s"]
  obtain ns where "ldr_parse (ld_mem s) this (local_array LDR_MAX_PATH s) = Some (0, ns)"
    by (auto simp: local_array_def)
  then show ?thesis using None by (simp add: Ldr_Map_def resolve_def)
next
  case (Some nsf)
  then obtain ns rest where sp: "split_name xs = Some (ns, rest)" by (cases nsf) auto
  let ?arr = "local_array LDR_MAX_PATH s" and ?src = "this + of_nat (length ns) + 1"
  note split = split_nameD [OF sp]
  have p: "ldr_parse (ld_mem s) this ?arr = Some (?src, ns @ 0 # drop (length ns + 1) ?arr)"
    using ldr_parse_value [OF xs, of ?arr] by (simp add: local_array_def sp)
  have "unat this + length ns + 1 < 2 ^ 32" using inside split(1) by simp
  then have "unat ?src = unat this + length ns + 1"
    by (simp add: unat_word_ariths unat_of_nat)
  then have src: "?src \<noteq> 0" by auto
  have f: "c_string (ld_mem s) ?src = Some rest"
    using xs c_string_cstr cstr_append unfolding split(1) by blast
  have "0 \<notin> set ns" using cstr_no_zero [OF xs] split(1) by simp
  moreover have "3 \<le> length ns mod 4 + length (drop (length ns + 1) ?arr)"
    using split(2) by (simp add: local_array_def LDR_MAX_PATH_def) presburger
  ultimately have k: "KvtHash (ns @ 0 # drop (length ns + 1) ?arr) = Some (string_hash ns)"
    by (rule KvtHash_string)
  note eqs = Ldr_Map_def p src k [unfolded Suc_eq_plus1 [symmetric]] KvtLookup_rep [OF rep] f resolve_def sp path_at_def
  show ?thesis
  proof (cases "nm (string_hash ns)")
    case None
    then show ?thesis by (simp add: eqs)
  next
    case (Some pp)
    show ?thesis
    proof (cases "pp = 0")
      case False
      then obtain path where "c_string (ld_mem s) pp = Some path" using ok Some by (force simp: paths_ok_def)
      then show ?thesis using False Some len by (simp add: eqs store_local_def)
    qed (simp add: eqs Some)
  qed
qed

end
