(* ===== verification/LdrImage.thy ===== *)
theory LdrImage
  imports Ldr
begin

text \<open>
  What the loader (\<open>Ldr\<close>) promises: a load puts every loadable segment of the file in its
  place, zero-filled behind the file's bytes, and touches nothing else; a load that fails
  gives its block back; the search for loadable segments leaves the table when the last
  program header is loadable; after the start-up both tables are in order.
\<close>

subsection \<open>The loadable program headers\<close>

definition loads :: "ram \<Rightarrow> u32 \<Rightarrow> nat \<Rightarrow> nat \<Rightarrow> nat list" where
  "loads m tab i n = filter (\<lambda>j. elf_Pheader_isLoadable m (phdr_at tab j)) [i ..< n]"

lemma phdr_at_Suc: "phdr_at tab i + 32 = phdr_at tab (Suc i)"
  by (simp add: phdr_at_def algebra_simps)

lemma phdr_at_eq:
  assumes "i \<le> 2 ^ 16" "j \<le> 2 ^ 16"
  shows "phdr_at tab i = phdr_at tab j \<longleftrightarrow> i = j"
proof
  assume "phdr_at tab i = phdr_at tab j"
  then have "(of_nat (32 * i) :: u32) = of_nat (32 * j)" by (simp add: phdr_at_def)
  then have "unat (of_nat (32 * i) :: u32) = unat (of_nat (32 * j) :: u32)" by simp
  moreover have "32 * i < 2 ^ 32" "32 * j < 2 ^ 32" using assms by simp_all
  ultimately have "32 * i = 32 * j" by (simp only: unat_of_nat_u32)
  then show "i = j" by simp
qed simp

lemma loads_step:
  assumes "i < n"
  shows "loads m tab i n =
    (if elf_Pheader_isLoadable m (phdr_at tab i) then i # loads m tab (Suc i) n else loads m tab (Suc i) n)"
  using assms by (simp add: loads_def upt_conv_Cons)

lemma loads_all [simp]: "loads m tab n n = []"
  by (simp add: loads_def)

definition first_load :: "nat list \<Rightarrow> nat \<Rightarrow> nat" where
  "first_load js n = (case js of [] \<Rightarrow> n | j # _ \<Rightarrow> j)"

lemma first_load_simps [simp]: "first_load [] n = n" "first_load (j # js) n = j"
  by (simp_all add: first_load_def)

lemma iterate_loads:
  assumes "i < n" "n \<le> 2 ^ 16" "\<forall>j < n. ok (phdr_at tab j)"
  shows "ldr_iterate ok m (phdr_at tab i) (phdr_at tab n) = Some (phdr_at tab (first_load (loads m tab i n) n))"
  using assms(1)
proof (induction "n - i" arbitrary: i)
  case (Suc d)
  show ?case
  proof (cases "Suc i = n")
    case True
    then show ?thesis using Suc.prems assms
      by (subst ldr_iterate.simps) (simp add: loads_step phdr_at_Suc Let_def)
  next
    case False
    then have "phdr_at tab (Suc i) \<noteq> phdr_at tab n" using Suc.prems assms by (simp add: phdr_at_eq)
    moreover have "ldr_iterate ok m (phdr_at tab (Suc i)) (phdr_at tab n) =
        Some (phdr_at tab (first_load (loads m tab (Suc i) n) n))"
      using Suc False by simp
    ultimately show ?thesis using Suc.prems assms
      by (subst ldr_iterate.simps) (simp add: loads_step phdr_at_Suc Let_def)
  qed
qed simp

lemma loads_ConsD:
  assumes "loads m tab i n = j # js"
  shows "i \<le> j" "j < n" "elf_Pheader_isLoadable m (phdr_at tab j)" "loads m tab (Suc j) n = js"
proof -
  obtain us vs where l: "[i ..< n] = us @ j # vs" and js: "js = filter (\<lambda>j. elf_Pheader_isLoadable m (phdr_at tab j)) vs"
    and "elf_Pheader_isLoadable m (phdr_at tab j)"
    using filter_eq_ConsD [OF assms [unfolded loads_def]] by blast
  then show "elf_Pheader_isLoadable m (phdr_at tab j)" by simp
  have "j \<in> set [i ..< n]" unfolding l by simp
  then show ij: "i \<le> j" "j < n" by simp_all
  have "j = [i ..< n] ! length us" by (simp add: l)
  moreover have "length us < length [i ..< n]" unfolding l by simp
  ultimately have "j = i + length us" by simp
  moreover have "vs = drop (Suc (length us)) [i ..< n]" by (simp add: l)
  ultimately have "vs = [Suc j ..< n]" by simp
  then show "loads m tab (Suc j) n = js" by (simp add: loads_def js)
qed

text \<open>The table of program headers: readable, and its last entry is not loadable.\<close>

definition headers_ok :: "(u32 \<Rightarrow> bool) \<Rightarrow> ram \<Rightarrow> u32 \<Rightarrow> nat \<Rightarrow> bool" where
  "headers_ok ok m tab n \<longleftrightarrow> 0 < n \<and> n \<le> 2 ^ 16 \<and> (\<forall>j < n. ok (phdr_at tab j)) \<and>
     \<not> elf_Pheader_isLoadable m (phdr_at tab (n - 1))"

lemma headers_next:
  assumes ok: "headers_ok ok m tab n" and l: "loads m tab i n = j # js"
  shows "ldr_iterate ok m (phdr_at tab j + 32) (phdr_at tab n) = Some (phdr_at tab (first_load js n))"
    and "phdr_at tab j \<noteq> phdr_at tab n"
proof -
  note j = loads_ConsD [OF l]
  have "j \<noteq> n - 1" using ok j(3) by (auto simp: headers_ok_def)
  then have "Suc j < n" using j(2) by simp
  then show "ldr_iterate ok m (phdr_at tab j + 32) (phdr_at tab n) = Some (phdr_at tab (first_load js n))"
    using ok j(4) iterate_loads by (simp add: phdr_at_Suc headers_ok_def)
  show "phdr_at tab j \<noteq> phdr_at tab n" using ok j(2) by (simp add: phdr_at_eq headers_ok_def)
qed

lemma seek_loop_loads:
  assumes ok: "headers_ok ok m tab n" and "loads m tab i n = js"
  shows "seek_loop ok m (phdr_at tab (first_load js n)) l (phdr_at tab n) = Some (last (l # map (phdr_at tab) js))"
  using assms(2)
proof (induction js arbitrary: i l)
  case Nil
  then show ?case by (subst seek_loop.simps) simp
next
  case (Cons j js)
  note nxt = headers_next [OF ok Cons.prems]
  have "seek_loop ok m (phdr_at tab (first_load js n)) (phdr_at tab j) (phdr_at tab n) =
      Some (last (phdr_at tab j # map (phdr_at tab) js))"
    by (rule Cons.IH [OF loads_ConsD(4) [OF Cons.prems]])
  then show ?case using nxt by (subst seek_loop.simps) (simp add: Let_def)
qed

lemma seek_size_loads:
  assumes ok: "headers_ok ok m tab n" and l: "loads m tab i n = j # js"
  shows "ldr_seek_size ok m (phdr_at tab j) (phdr_at tab n) =
    (let p = phdr_at tab (last (j # js)) in
     Some (elf_Pheader_virtAddr m p - elf_Pheader_virtAddr m (phdr_at tab j) + elf_Pheader_memSize m p))"
proof -
  have "last (phdr_at tab j # map (phdr_at tab) js) = phdr_at tab (last (j # js))"
    by (simp only: list.map(2) [symmetric] last_map list.distinct not_False_eq_True)
  then show ?thesis
    using headers_next(1) [OF ok l] seek_loop_loads [OF ok loads_ConsD(4) [OF l], of "phdr_at tab j"]
    by (simp add: ldr_seek_size_def Let_def)
qed


text \<open>Behind a loadable last header the search goes on, past the end of the array.\<close>

lemma iterate_past:
  assumes "\<forall>j. i \<le> j \<and> j < 64 \<longrightarrow> \<not> elf_Pheader_isLoadable m (phdr_at 0 j)" and "n \<le> i" and "i \<le> 64"
  shows "ldr_iterate in_segments m (phdr_at 0 i) (phdr_at 0 n) = None"
  using assms
proof (induction "64 - i" arbitrary: i)
  case 0
  then have "i = 64" by simp
  then have "\<not> in_segments (phdr_at 0 i)"
    by (simp add: in_segments_def phdr_at_def MAX_SEGMENTS_def sizeof_Segment_def)
  then show ?case by (subst ldr_iterate.simps) simp
next
  case (Suc d)
  have "ldr_iterate in_segments m (phdr_at 0 (Suc i)) (phdr_at 0 n) = None" using Suc by simp
  moreover have "phdr_at 0 (Suc i) \<noteq> phdr_at 0 n" using Suc.prems by (simp add: phdr_at_eq)
  moreover have "\<not> elf_Pheader_isLoadable m (phdr_at 0 i)" using Suc by simp
  ultimately show ?case by (subst ldr_iterate.simps) (simp add: phdr_at_Suc Let_def)
qed

subsection \<open>Filling the image\<close>

text \<open>
  The contract of a regular file: a read gives the bytes of the contents from the offset
  on, fewer at the end of the file, and never fails.
\<close>

definition serves :: "'f file_io \<Rightarrow> int \<Rightarrow> ('f \<Rightarrow> bool) \<Rightarrow> u8 list \<Rightarrow> bool" where
  "serves io fd good content \<longleftrightarrow>
     (\<forall>f off n. good f \<longrightarrow> (case io_lseek io fd off f of (p, f1) \<Rightarrow> p \<noteq> READ_ERROR \<and>
        (case io_read io fd n f1 of ((r, bs), f2) \<Rightarrow> r \<noteq> READ_ERROR \<and>
           bs = take (unat n) (drop (unat off) content) \<and> good f2)))"

lemma ldr_read_serves:
  assumes "serves io fd good content" and "good f"
  obtains r f' where "ldr_read io fd off n f = ((r, take (unat n) (drop (unat off) content)), f')"
    "r \<noteq> READ_ERROR" "good f'"
proof -
  obtain p f1 where l: "io_lseek io fd off f = (p, f1)" by (cases "io_lseek io fd off f") auto
  obtain r bs f2 where r: "io_read io fd n f1 = ((r, bs), f2)" by (cases "io_read io fd n f1") auto
  have c: "p \<noteq> READ_ERROR \<and> r \<noteq> READ_ERROR \<and> bs = take (unat n) (drop (unat off) content) \<and> good f2"
    using assms(1) [unfolded serves_def, rule_format, OF assms(2), of n off] by (simp add: l r)
  then show thesis by (intro that [of r f2]) (simp_all add: ldr_read_def l r)
qed

definition load_segment :: "u8 list \<Rightarrow> ram \<Rightarrow> u32 \<Rightarrow> u32 \<Rightarrow> ram \<Rightarrow> ram" where
  "load_segment content segs elf p m =
     (let filesz = elf_Pheader_fileSize segs p; vaddr = elf + elf_Pheader_virtAddr segs p in
      ldr_zero (vaddr + filesz) (elf_Pheader_memSize segs p - filesz)
        (put_bytes vaddr (take (unat filesz) (drop (unat (elf_Pheader_offset segs p)) content)) m))"

lemma ldr_zero_0 [simp]: "ldr_zero p 0 m = m"
  by (simp add: ldr_zero_def)

definition seg_virt :: "ram \<Rightarrow> u32 \<Rightarrow> nat" where "seg_virt m p = unat (elf_Pheader_virtAddr m p)"
definition seg_mem :: "ram \<Rightarrow> u32 \<Rightarrow> nat" where "seg_mem m p = unat (elf_Pheader_memSize m p)"
definition seg_file :: "ram \<Rightarrow> u32 \<Rightarrow> nat" where "seg_file m p = unat (elf_Pheader_fileSize m p)"
definition seg_offset :: "ram \<Rightarrow> u32 \<Rightarrow> nat" where "seg_offset m p = unat (elf_Pheader_offset m p)"

lemmas seg_defs = seg_virt_def seg_mem_def seg_file_def seg_offset_def

definition seg_ok :: "ram \<Rightarrow> u32 \<Rightarrow> bool" where
  "seg_ok m p \<longleftrightarrow> seg_file m p \<le> seg_mem m p \<and> seg_virt m p + seg_mem m p < 2 ^ 32"

text \<open>A segment whose bytes lie in a block of \<open>len\<close> bytes.\<close>

definition seg_fits :: "u32 \<Rightarrow> ram \<Rightarrow> u32 \<Rightarrow> bool" where
  "seg_fits len m p \<longleftrightarrow> seg_ok m p \<and> seg_virt m p + seg_mem m p \<le> unat len"

lemma seg_fits_block:
  assumes "seg_fits len m p" and "n \<le> seg_file m p"
  shows "in_block elf len (elf + elf_Pheader_virtAddr m p) n"
    and "in_block elf len (elf + elf_Pheader_virtAddr m p + elf_Pheader_fileSize m p)
      (unat (elf_Pheader_memSize m p - elf_Pheader_fileSize m p))"
proof -
  let ?v = "elf_Pheader_virtAddr m p" and ?f = "elf_Pheader_fileSize m p" and ?m = "elf_Pheader_memSize m p"
  have fm: "unat ?f \<le> unat ?m" "unat ?v + unat ?m < 2 ^ 32" "unat ?v + unat ?m \<le> unat len"
    using assms(1) by (simp_all add: seg_fits_def seg_ok_def seg_defs)
  then have z: "unat (?m - ?f) = unat ?m - unat ?f" by (simp add: unat_sub word_le_nat_alt)
  have vf: "unat (?v + ?f) = unat ?v + unat ?f" using fm by (subst unat_add_lem [THEN iffD1]) simp_all
  show "in_block elf len (elf + ?v) n" using fm assms(2) by (simp add: in_block_def seg_file_def)
  have "elf + ?v + ?f - elf = ?v + ?f" by simp
  then show "in_block elf len (elf + ?v + ?f) (unat (?m - ?f))" using fm by (simp add: in_block_def z vf)
qed

lemma populate_segment_serves:
  assumes "serves io fd good content" and "good (ld_files s)" and fits: "seg_fits len segs p"
  obtains f' where "good f'" "populate_segment io segs elf len fd p s =
    Some (LDR_SUCCESS, s\<lparr>ld_files := f', ld_mem := load_segment content segs elf p (ld_mem s)\<rparr>)"
proof -
  let ?bs = "take (unat (elf_Pheader_fileSize segs p)) (drop (unat (elf_Pheader_offset segs p)) content)"
  obtain r f' where r: "ldr_read io fd (elf_Pheader_offset segs p) (elf_Pheader_fileSize segs p) (ld_files s) = ((r, ?bs), f')"
    "r \<noteq> READ_ERROR" "good f'"
    using ldr_read_serves [OF assms(1,2)] .
  have "length ?bs \<le> seg_file segs p" by (simp add: seg_file_def)
  note inside = seg_fits_block [OF fits this, of elf]
  show thesis
    using r inside by (intro that [of f']) (simp_all add: populate_segment_def load_segment_def Let_def)
qed

lemma populate_loads:
  assumes srv: "serves io fd good content" and ok: "headers_ok ok segs tab n"
    and "loads segs tab i n = j # js" and "good (ld_files s)" and "\<forall>k \<in> set (j # js). seg_fits len segs (phdr_at tab k)"
  shows "\<exists>f'. good f' \<and> ldr_populate io ok segs elf len (phdr_at tab n) fd (phdr_at tab j) s =
    Some (LDR_SUCCESS, s\<lparr>ld_files := f', ld_mem := fold (\<lambda>k. load_segment content segs elf (phdr_at tab k)) (j # js) (ld_mem s)\<rparr>)"
  using assms(3-5)
proof (induction js arbitrary: i j s)
  case Nil
  obtain f' where "good f'" "populate_segment io segs elf len fd (phdr_at tab j) s =
    Some (LDR_SUCCESS, s\<lparr>ld_files := f', ld_mem := load_segment content segs elf (phdr_at tab j) (ld_mem s)\<rparr>)"
    using populate_segment_serves [OF srv Nil(2), of len segs "phdr_at tab j"] Nil(3) by auto
  then show ?case using headers_next [OF ok Nil(1)]
    by (intro exI [of _ f'], subst ldr_populate.simps) simp
next
  case (Cons k ks)
  obtain f' where f: "good f'" "populate_segment io segs elf len fd (phdr_at tab j) s =
    Some (LDR_SUCCESS, s\<lparr>ld_files := f', ld_mem := load_segment content segs elf (phdr_at tab j) (ld_mem s)\<rparr>)"
    using populate_segment_serves [OF srv Cons.prems(2), of len segs "phdr_at tab j"] Cons.prems(3) by auto
  have l: "loads segs tab (Suc j) n = k # ks" by (rule loads_ConsD(4) [OF Cons.prems(1)])
  let ?s = "s\<lparr>ld_files := f', ld_mem := load_segment content segs elf (phdr_at tab j) (ld_mem s)\<rparr>"
  have "good (ld_files ?s)" "\<forall>k \<in> set (k # ks). seg_fits len segs (phdr_at tab k)" using f(1) Cons.prems(3) by simp_all
  then obtain f'' where f2: "good f''" "ldr_populate io ok segs elf len (phdr_at tab n) fd (phdr_at tab k) ?s =
      Some (LDR_SUCCESS, ?s\<lparr>ld_files := f'', ld_mem := fold (\<lambda>k. load_segment content segs elf (phdr_at tab k)) (k # ks) (ld_mem ?s)\<rparr>)"
    by (rule exE [OF Cons.IH [OF l]]) (rule that, simp_all only: simp_thms)
  have "ldr_populate io ok segs elf len (phdr_at tab n) fd (phdr_at tab j) s =
      ldr_populate io ok segs elf len (phdr_at tab n) fd (phdr_at tab k) ?s"
    using headers_next(1) [OF ok Cons.prems(1)] headers_next(2) [OF ok l] f(2)
    by (subst ldr_populate.simps) simp
  then show ?case using f2 by (intro exI [of _ f'']) simp
qed

subsection \<open>Where the bytes are\<close>

text \<open>The byte at distance \<open>d\<close> from the image: of the file, zero, or left as it was.\<close>

definition in_seg :: "ram \<Rightarrow> u32 \<Rightarrow> nat \<Rightarrow> bool" where
  "in_seg m p d \<longleftrightarrow> seg_virt m p \<le> d \<and> d < seg_virt m p + seg_mem m p"

definition seg_byte :: "u8 list \<Rightarrow> ram \<Rightarrow> u32 \<Rightarrow> nat \<Rightarrow> u8 \<Rightarrow> u8" where
  "seg_byte content m p d old =
     (let i = d - seg_virt m p in
      if seg_file m p \<le> i then 0
      else if seg_offset m p + i < length content then content ! (seg_offset m p + i) else old)"

lemma unat_minus_add: "unat (a - (e + v) :: u32) = (if unat v \<le> unat (a - e) then unat (a - e) - unat v else unat (a - e) + 2 ^ 32 - unat v)"
proof -
  have minus: "unat (x - v) = (if unat v \<le> unat x then unat x - unat v else unat x + 2 ^ 32 - unat v)" for x
    using unsigned_less [of v, where 'a = nat] by (simp add: unat_sub_if_size word_size)
  have "a - (e + v) = (a - e) - v" by (simp add: algebra_simps)
  then show ?thesis by (simp only: minus [of "a - e"])
qed

lemma load_segment_at:
  assumes "seg_ok segs p"
  shows "load_segment content segs elf p m a =
    (if in_seg segs p (unat (a - elf)) then seg_byte content segs p (unat (a - elf)) (m a) else m a)"
proof -
  define v f z where "v = elf_Pheader_virtAddr segs p" and "f = elf_Pheader_fileSize segs p"
    and "z = elf_Pheader_memSize segs p - f"
  define d where "d = unat (a - elf)"
  have fm: "unat f \<le> seg_mem segs p" "unat v + seg_mem segs p < 2 ^ 32"
    using assms by (simp_all add: seg_ok_def seg_defs v_def f_def)
  then have z: "unat z = seg_mem segs p - unat f"
    by (simp add: z_def seg_defs f_def unat_sub word_le_nat_alt)
  have vf: "unat (v + f) = unat v + unat f" using fm by (subst unat_add_lem [THEN iffD1]) simp_all
  have zero: "a - (elf + v + f) < z \<longleftrightarrow> unat v + unat f \<le> d \<and> d < unat v + seg_mem segs p"
    unfolding word_less_nat_alt z add.assoc unat_minus_add vf d_def [symmetric] using fm by auto
  have bytes: "unat (a - (elf + v)) < length (take (unat f) (drop off content)) \<longleftrightarrow>
      unat v \<le> d \<and> d < unat v + unat f \<and> off + (d - unat v) < length content" for off
    unfolding unat_minus_add d_def [symmetric] using fm by auto
  have at: "unat v \<le> d \<Longrightarrow> unat (a - (elf + v)) = d - unat v"
    unfolding unat_minus_add d_def [symmetric] by simp
  let ?o = "seg_offset segs p" and ?M = "seg_mem segs p"
  have lhs: "load_segment content segs elf p m a =
    (if unat v + unat f \<le> d \<and> d < unat v + ?M then 0
     else if unat v \<le> d \<and> d < unat v + unat f \<and> ?o + (d - unat v) < length content
     then content ! (?o + (d - unat v)) else m a)"
    unfolding load_segment_def Let_def v_def [symmetric] f_def [symmetric] z_def [symmetric]
      ldr_zero_def put_bytes_def zero bytes seg_offset_def [symmetric]
    by (intro if_cong refl) (elim conjE, simp add: at)
  have rhs: "seg_byte content segs p d (m a) =
    (if unat f \<le> d - unat v then 0 else if ?o + (d - unat v) < length content then content ! (?o + (d - unat v)) else m a)"
    "in_seg segs p d \<longleftrightarrow> unat v \<le> d \<and> d < unat v + ?M"
    by (simp_all add: seg_byte_def in_seg_def seg_virt_def seg_file_def v_def f_def Let_def)
  show ?thesis
  proof (cases "unat v \<le> d")
    case True
    then obtain i where "d = unat v + i" by (auto simp: le_iff_add)
    then show ?thesis unfolding d_def [symmetric] lhs rhs using fm by simp
  qed (simp add: d_def [symmetric] lhs rhs)
qed

lemma load_segments_at:
  assumes "sorted_wrt (\<lambda>i j. seg_virt segs i + seg_mem segs i \<le> seg_virt segs j) ps" and "\<forall>p \<in> set ps. seg_ok segs p"
  shows "p \<in> set ps \<Longrightarrow> in_seg segs p (unat (a - elf)) \<Longrightarrow>
      fold (load_segment content segs elf) ps m a = seg_byte content segs p (unat (a - elf)) (m a)"
    and "(\<And>p. p \<in> set ps \<Longrightarrow> \<not> in_seg segs p (unat (a - elf))) \<Longrightarrow>
      fold (load_segment content segs elf) ps m a = m a"
proof -
  have outside: "fold (load_segment content segs elf) qs m a = m a"
    if "\<And>p. p \<in> set qs \<Longrightarrow> \<not> in_seg segs p (unat (a - elf))" "\<forall>p \<in> set qs. seg_ok segs p" for qs m
    using that by (induction qs arbitrary: m) (simp_all add: load_segment_at)
  then show "(\<And>p. p \<in> set ps \<Longrightarrow> \<not> in_seg segs p (unat (a - elf))) \<Longrightarrow>
      fold (load_segment content segs elf) ps m a = m a"
    using assms(2) by blast
  show "fold (load_segment content segs elf) ps m a = seg_byte content segs p (unat (a - elf)) (m a)"
    if "p \<in> set ps" "in_seg segs p (unat (a - elf))"
    using assms that
  proof (induction ps arbitrary: m)
    case (Cons q qs)
    show ?case
    proof (cases "in_seg segs q (unat (a - elf))")
      case True
      then have "\<not> in_seg segs r (unat (a - elf))" if "r \<in> set qs" for r
        using Cons.prems(1) that by (auto simp: in_seg_def)
      moreover then have "p = q" using Cons.prems by auto
      ultimately show ?thesis using outside [of qs] Cons.prems True by (simp add: load_segment_at)
    next
      case False
      then show ?thesis using Cons by (auto simp: load_segment_at)
    qed
  qed simp
qed


subsection \<open>The headers of a file\<close>

lemma isElf_cong:
  assumes eq: "\<And>a. unat a < 52 \<Longrightarrow> m a = m' a"
  shows "ldr_isElf m 0 = ldr_isElf m' 0" "elf_Header_type m 0 = elf_Header_type m' 0" "elf_Header_offPhdr m 0 = elf_Header_offPhdr m' 0"
proof -
  have "ld8 m 0 = ld8 m' 0" "ld8 m 1 = ld8 m' 1" "ld8 m 2 = ld8 m' 2" "ld8 m 3 = ld8 m' 3" "ld8 m 4 = ld8 m' 4" "ld8 m 6 = ld8 m' 6"
    "ld32 m 20 = ld32 m' 20" "ld16 m 40 = ld16 m' 40" "ld16 m 42 = ld16 m' 42" "ld32 m 28 = ld32 m' 28" "ld16 m 44 = ld16 m' 44"
    "ld16 m 16 = ld16 m' 16"
    by (simp_all add: ld8_def ld16_def ld32_def eq)
  note eqs = this
  show "ldr_isElf m 0 = ldr_isElf m' 0"
    by (simp only: ldr_isElf_def elf_Header_size_def elf_Header_offPhdr_def elf_Header_numPhdr_def add_0_left eqs)
  show "elf_Header_type m 0 = elf_Header_type m' 0" "elf_Header_offPhdr m 0 = elf_Header_offPhdr m' 0"
    by (simp_all only: elf_Header_type_def elf_Header_offPhdr_def add_0_left eqs)
qed

text \<open>A table at address 0 of one memory is the table at \<open>tab\<close> of another.\<close>

definition same_table :: "nat \<Rightarrow> ram \<Rightarrow> ram \<Rightarrow> u32 \<Rightarrow> bool" where
  "same_table n m m' tab \<longleftrightarrow> (\<forall>i < 32 * n. m (of_nat i) = m' (tab + of_nat i))"

lemma ld32_shift:
  assumes eq: "same_table n m m' tab" and k: "k < n" "c + 3 < 32"
  shows "ld32 m (phdr_at 0 k + of_nat c) = ld32 m' (phdr_at tab k + of_nat c)"
proof -
  have at: "m (phdr_at 0 k + of_nat c + of_nat d) = m' (phdr_at tab k + of_nat c + of_nat d)" if "d < 4" for d
  proof -
    have "32 * k + c + d < 32 * n" using k that by linarith
    then have "m (of_nat (32 * k + c + d)) = m' (tab + of_nat (32 * k + c + d))" using eq by (simp only: same_table_def)
    then show ?thesis by (simp add: phdr_at_def algebra_simps)
  qed
  show ?thesis using at [of 0] at [of 1] at [of 2] at [of 3] by (simp add: ld32_def)
qed

lemma pheader_shift:
  assumes eq: "same_table n m m' tab" and k: "k < n"
  shows "elf_Pheader_isLoadable m (phdr_at 0 k) = elf_Pheader_isLoadable m' (phdr_at tab k)"
    and "elf_Pheader_offset m (phdr_at 0 k) = elf_Pheader_offset m' (phdr_at tab k)"
    and "elf_Pheader_virtAddr m (phdr_at 0 k) = elf_Pheader_virtAddr m' (phdr_at tab k)"
    and "elf_Pheader_fileSize m (phdr_at 0 k) = elf_Pheader_fileSize m' (phdr_at tab k)"
    and "elf_Pheader_memSize m (phdr_at 0 k) = elf_Pheader_memSize m' (phdr_at tab k)"
  using ld32_shift [OF eq k, of 0] ld32_shift [OF eq k, of 4] ld32_shift [OF eq k, of 8]
    ld32_shift [OF eq k, of 16] ld32_shift [OF eq k, of 20]
  by (simp_all add: elf_Pheader_isLoadable_def elf_Pheader_type_def elf_Pheader_offset_def elf_Pheader_virtAddr_def
      elf_Pheader_fileSize_def elf_Pheader_memSize_def)

lemma loads_shift:
  assumes eq: "same_table n m m' tab"
  shows "loads m 0 i n = loads m' tab i n"
  unfolding loads_def by (rule filter_cong [OF refl]) (simp add: pheader_shift(1) [OF eq])

text \<open>
  A file the loader can load: its headers, read in the file itself, are in order, the last
  program header is not loadable, and the loadable segments follow each other without
  overlap from address 0 on.
\<close>

definition file_loads :: "u8 list \<Rightarrow> nat \<Rightarrow> u32 list" where
  "file_loads content n = (let F = as_ram content; tab = elf_Header_offPhdr F 0 in map (phdr_at tab) (loads F tab 0 n))"

definition image_size :: "u8 list \<Rightarrow> nat \<Rightarrow> nat" where
  "image_size content n = (let p = last (file_loads content n) in seg_virt (as_ram content) p + seg_mem (as_ram content) p)"

definition image_file :: "u8 list \<Rightarrow> nat \<Rightarrow> bool" where
  "image_file content n \<longleftrightarrow>
     (let F = as_ram content; tab = elf_Header_offPhdr F 0; ps = file_loads content n in
      52 \<le> length content \<and> length content < 2 ^ 32 \<and> 0 < n \<and> ldr_isElf F 0 = of_nat n \<and> n \<le> MAX_SEGMENTS \<and>
      elf_Header_type F 0 = ET_DYN \<and> unat tab + 32 * n \<le> length content \<and>
      \<not> elf_Pheader_isLoadable F (phdr_at tab (n - 1)) \<and> ps \<noteq> [] \<and> seg_virt F (hd ps) = 0 \<and>
      sorted_wrt (\<lambda>p q. seg_virt F p + seg_mem F p \<le> seg_virt F q) ps \<and> (\<forall>p \<in> set ps. seg_ok F p) \<and>
      0 < image_size content n)"

lemma as_ram_take: "unat a < n \<Longrightarrow> n \<le> length bs \<Longrightarrow> as_ram (take n bs) a = as_ram bs a"
  by (simp add: as_ram_def)

lemma as_ram_table:
  assumes "unat tab + 32 * n \<le> length content" and "length content < 2 ^ 32"
  shows "same_table n (as_ram (take (32 * n) (drop (unat tab) content) @ rest)) (as_ram content) tab"
  unfolding same_table_def
proof (intro allI impI)
  fix i
  assume "i < 32 * n"
  have "unat (of_nat i :: u32) = i" using assms \<open>i < 32 * n\<close> by (intro unat_of_nat_u32) simp
  moreover have "unat (tab + of_nat i) = unat tab + i"
    using assms \<open>i < 32 * n\<close> calculation by (subst unat_add_lem [THEN iffD1]) simp_all
  ultimately show "as_ram (take (32 * n) (drop (unat tab) content) @ rest) (of_nat i) = as_ram content (tab + of_nat i)"
    using assms \<open>i < 32 * n\<close> by (simp add: as_ram_def nth_append)
qed

lemma pageIn_image:
  assumes srv: "serves io fd good content" and "good (ld_files s)" and img: "image_file content n"
  obtains f' where "good f'" "ldr_pageIn io arr fd s = 
    do { segs \<leftarrow> store_local (take (32 * n) (drop (unat (elf_Header_offPhdr (as_ram content) 0)) content)) arr;
         Some (n, segs, s\<lparr>ld_files := f'\<rparr>) }"
proof -
  let ?F = "as_ram content"
  have c: "52 \<le> length content" "ldr_isElf ?F 0 = of_nat n" "0 < n" "n \<le> 64" "elf_Header_type ?F 0 = ET_DYN"
    using img by (simp_all add: image_file_def Let_def MAX_SEGMENTS_def)
  obtain r f1 where r1: "ldr_read io fd 0 52 (ld_files s) = ((r, take 52 content), f1)" "r \<noteq> READ_ERROR" "good f1"
    using ldr_read_serves [OF srv assms(2), of 0 52] by auto
  have n: "unat (of_nat n :: u32) = n" "unat (32 * of_nat n :: u32) = 32 * n" "(of_nat n :: u32) \<noteq> 0"
  proof -
    show "unat (of_nat n :: u32) = n" using c(4) by (intro unat_of_nat_u32) simp
    have "unat (of_nat (32 * n) :: u32) = 32 * n" using c(4) by (intro unat_of_nat_u32) simp
    then show "unat (32 * of_nat n :: u32) = 32 * n" by simp
    show "(of_nat n :: u32) \<noteq> 0" using c(3,4) by (intro of_nat_u32_nonzero) simp_all
  qed
  obtain r' f' where r2: "ldr_read io fd (elf_Header_offPhdr ?F 0) (32 * of_nat n) f1 =
      ((r', take (32 * n) (drop (unat (elf_Header_offPhdr ?F 0)) content)), f')" "r' \<noteq> READ_ERROR" "good f'"
    using ldr_read_serves [OF srv r1(3), of "elf_Header_offPhdr ?F 0" "32 * of_nat n"] n(2) by auto
  have h: "as_ram (take 52 content) a = ?F a" if "unat a < 52" for a using that c(1) by (rule as_ram_take)
  have st: "store_local (take 52 content) (local_array 52 s') = Some (take 52 content)" for s' :: "'a loader"
    using c(1) by (simp add: store_local_def local_array_def)
  show thesis
    by (rule that [OF r2(3)])
      (simp add: ldr_pageIn_def sizeof_Ldr_elf_def sizeof_Segment_def r1 r2 st isElf_cong [OF h] c n Let_def)
qed


subsection \<open>Loading an image file\<close>

lemma in_seg_inside:
  assumes "sorted_wrt (\<lambda>p q. seg_virt m p + seg_mem m p \<le> seg_virt m q) ps" and "p \<in> set ps" and "in_seg m p d"
  shows "d < seg_virt m (last ps) + seg_mem m (last ps)"
proof -
  obtain qs where ps: "ps = qs @ [last ps]" using assms(2) by (metis append_butlast_last_id empty_iff empty_set)
  have "p = last ps \<or> seg_virt m p + seg_mem m p \<le> seg_virt m (last ps)"
  proof (cases "p \<in> set qs")
    case True
    have "sorted_wrt (\<lambda>p q. seg_virt m p + seg_mem m p \<le> seg_virt m q) (qs @ [last ps])" using assms(1) ps by simp
    then show ?thesis using True by (simp add: sorted_wrt_append)
  next
    case False
    have "p \<in> set (qs @ [last ps])" using assms(2) ps by simp
    then show ?thesis using False by simp
  qed
  then show ?thesis using assms(3) by (auto simp: in_seg_def)
qed

lemma sorted_last_bound:
  assumes "sorted_wrt (\<lambda>p q. seg_virt m p + seg_mem m p \<le> seg_virt m q) ps" and "p \<in> set ps"
  shows "seg_virt m p + seg_mem m p \<le> seg_virt m (last ps) + seg_mem m (last ps)"
proof -
  obtain qs where ps: "ps = qs @ [last ps]" using assms(2) by (metis append_butlast_last_id empty_iff empty_set)
  then have "p \<in> set qs \<or> p = last ps" using assms(2) by (metis Un_iff set_append set_ConsD empty_iff empty_set)
  then show ?thesis using assms(1) by (subst (asm) ps) (auto simp: sorted_wrt_append)
qed

lemma image_fileD:
  assumes "image_file content n" and "tab = elf_Header_offPhdr (as_ram content) 0"
  shows "length content < 2 ^ 32" "0 < n" "n \<le> 64" "unat tab + 32 * n \<le> length content"
    "\<not> elf_Pheader_isLoadable (as_ram content) (phdr_at tab (n - 1))" "file_loads content n \<noteq> []"
    "seg_virt (as_ram content) (hd (file_loads content n)) = 0"
    "sorted_wrt (\<lambda>p q. seg_virt (as_ram content) p + seg_mem (as_ram content) p \<le> seg_virt (as_ram content) q) (file_loads content n)"
    "\<forall>p \<in> set (file_loads content n). seg_ok (as_ram content) p" "0 < image_size content n"
  using assms unfolding image_file_def Let_def MAX_SEGMENTS_def by blast+

lemma image_size_bound:
  assumes "image_file content n"
  shows "image_size content n < 2 ^ 32" and "(of_nat (image_size content n) :: u32) \<noteq> 0"
proof -
  note im = image_fileD [OF assms refl]
  show "image_size content n < 2 ^ 32"
    using im(9) last_in_set [OF im(6)] by (auto simp: image_size_def seg_ok_def Let_def)
  then show "(of_nat (image_size content n) :: u32) \<noteq> 0" using im(10) by (intro of_nat_u32_nonzero) simp_all
qed

lemma in_segments_below: "k < n \<Longrightarrow> n \<le> 64 \<Longrightarrow> in_segments (phdr_at 0 k)"
proof -
  assume "k < n" "n \<le> 64"
  moreover then have "unat (of_nat (32 * k) :: u32) = 32 * k" by (intro unat_of_nat_u32) simp
  ultimately show ?thesis by (simp add: in_segments_def phdr_at_def MAX_SEGMENTS_def sizeof_Segment_def)
qed

text \<open>What the array of program headers says of the segments, when it holds the file's table.\<close>

lemma image_headers:
  fixes this :: u32
  assumes img: "image_file content n" and same: "same_table n segs (as_ram content) tab"
    and tab: "tab = elf_Header_offPhdr (as_ram content) 0"
  obtains j js where "file_loads content n = map (phdr_at tab) (j # js)" "headers_ok in_segments segs 0 n"
    "loads segs 0 0 n = j # js" "elf_Pheader_virtAddr segs (phdr_at 0 j) = 0"
    "ldr_seek_size in_segments segs (phdr_at 0 j) (phdr_at 0 n) = Some (of_nat (image_size content n))"
    "\<And>k. k \<in> set (j # js) \<Longrightarrow> load_segment content segs this (phdr_at 0 k) = load_segment content (as_ram content) this (phdr_at tab k)"
    "\<forall>k \<in> set (j # js). seg_fits (of_nat (image_size content n)) segs (phdr_at 0 k)"
proof -
  let ?F = "as_ram content"
  note im = image_fileD [OF img tab] and shift = pheader_shift [OF same] 
  have l: "loads segs 0 0 n = loads (as_ram content) tab 0 n" using same by (rule loads_shift)
  obtain j js where js: "loads ?F tab 0 n = j # js"
    using im(6) by (cases "loads ?F tab 0 n") (auto simp: file_loads_def Let_def tab)
  have lj: "loads segs 0 0 n = j # js" using l js by simp
  have fl: "file_loads content n = map (phdr_at tab) (j # js)" by (simp add: file_loads_def Let_def js [unfolded tab] tab)
  have below: "k < n" if "k \<in> set (j # js)" for k using that js [symmetric] by (simp add: loads_def)
  have "\<not> elf_Pheader_isLoadable segs (phdr_at 0 (n - 1))" using shift(1) [of "n - 1"] im(2,5) by simp
  then have ok: "headers_ok in_segments segs 0 n" using im(2,3) in_segments_below by (simp add: headers_ok_def)
  have "seg_virt ?F (phdr_at tab j) = 0" using im(7) fl by simp
  then have virt: "elf_Pheader_virtAddr segs (phdr_at 0 j) = 0"
    using shift(3) [of j] below [of j] by (simp add: seg_virt_def unsigned_eq_0_iff)
  have lb: "last (j # js) < n" using below last_in_set by blast
  have "last (file_loads content n) = phdr_at tab (last (j # js))" unfolding fl by (rule last_map) simp
  then have size: "ldr_seek_size in_segments segs (phdr_at 0 j) (phdr_at 0 n) = Some (of_nat (image_size content n))"
    using seek_size_loads [OF ok lj] virt shift(3,5) [OF lb]
    by (simp add: Let_def image_size_def seg_virt_def seg_mem_def)
  have seg: "load_segment content segs this (phdr_at 0 k) = load_segment content ?F this (phdr_at tab k)" if "k \<in> set (j # js)" for k
    by (rule ext) (simp only: load_segment_def Let_def shift(2-5) [OF below [OF that]])
  have "seg_virt ?F p + seg_mem ?F p \<le> image_size content n" if p: "p \<in> set (file_loads content n)" for p
    using sorted_last_bound [OF im(8) p] by (simp add: image_size_def Let_def)
  moreover have "unat (of_nat (image_size content n) :: u32) = image_size content n"
    using image_size_bound(1) [OF img] by (intro unat_of_nat_u32) simp
  ultimately have fits: "\<forall>k \<in> set (j # js). seg_fits (of_nat (image_size content n)) segs (phdr_at 0 k)"
    using im(9) fl below shift(3-5) by (auto simp: seg_fits_def seg_ok_def seg_defs)
  show thesis using fl ok lj virt size seg fits by (rule that)
qed

lemma load_fd_image:
  assumes img: "image_file content n" and srv: "serves io fd good content" and good: "good (ld_files s)"
    and alloc: "mem_Region_alloc MEM_REGION_RTS (of_nat (image_size content n)) (ld_regions s) = (this, tab')" "this \<noteq> 0"
  shows "\<exists>f'. let s' = s\<lparr>ld_files := f', ld_regions := tab',
      ld_mem := fold (load_segment content (as_ram content) this) (file_loads content n) (ld_mem s)\<rparr>
    in good f' \<and> ldr_load_fd io fd nm s = map_option (\<lambda>error. (this, error, s')) (ldr_validate (ld_mem s') this nm)"
proof -
  let ?arr = "local_array (MAX_SEGMENTS * sizeof_Segment) s"
  define tab where "tab = elf_Header_offPhdr (as_ram content) 0"
  note im = image_fileD [OF img tab_def]
  obtain f1 where f1: "good f1" and pg: "ldr_pageIn io ?arr fd s =
    do { segs \<leftarrow> store_local (take (32 * n) (drop (unat tab) content)) ?arr; Some (n, segs, s\<lparr>ld_files := f1\<rparr>) }"
    using pageIn_image [OF srv good img] unfolding tab_def [symmetric] .
  define segs where "segs = as_ram (take (32 * n) (drop (unat tab) content) @ drop (32 * n) ?arr)"
  have "length (take (32 * n) (drop (unat tab) content)) = 32 * n" using im(4) by simp
  then have st: "store_local (take (32 * n) (drop (unat tab) content)) ?arr =
      Some (take (32 * n) (drop (unat tab) content) @ drop (32 * n) ?arr)"
    using im(3) by (simp add: store_local_def local_array_def MAX_SEGMENTS_def sizeof_Segment_def)
  have same: "same_table n segs (as_ram content) tab" unfolding segs_def using im(4,1) by (rule as_ram_table)
  obtain j js where h: "file_loads content n = map (phdr_at tab) (j # js)" "headers_ok in_segments segs 0 n"
    "loads segs 0 0 n = j # js" "elf_Pheader_virtAddr segs (phdr_at 0 j) = 0"
    "ldr_seek_size in_segments segs (phdr_at 0 j) (phdr_at 0 n) = Some (of_nat (image_size content n))"
    and seg: "\<And>k. k \<in> set (j # js) \<Longrightarrow>
      load_segment content segs this (phdr_at 0 k) = load_segment content (as_ram content) this (phdr_at tab k)"
    and fits: "\<forall>k \<in> set (j # js). seg_fits (of_nat (image_size content n)) segs (phdr_at 0 k)"
    using image_headers [OF img same tab_def, of this] by blast
  have first: "ldr_iterate in_segments segs 0 (phdr_at 0 n) = Some (phdr_at 0 j)"
    using iterate_loads [of 0 n in_segments 0 segs] h(2) by (simp add: headers_ok_def h(3) phdr_at_def)
  have base: "phdr_at 0 j \<noteq> phdr_at 0 n" by (rule headers_next(2) [OF h(2,3)])
  let ?s1 = "s\<lparr>ld_files := f1, ld_regions := tab'\<rparr>"
  obtain f2 where f2: "good f2" "ldr_populate io in_segments segs this (of_nat (image_size content n)) (phdr_at 0 n) fd (phdr_at 0 j) ?s1 =
      Some (LDR_SUCCESS, ?s1\<lparr>ld_files := f2, ld_mem := fold (\<lambda>k. load_segment content segs this (phdr_at 0 k)) (j # js) (ld_mem ?s1)\<rparr>)"
    using populate_loads [OF srv h(2,3) _ fits, of ?s1 this] f1 by (auto simp del: fold.simps)
  have fm: "fold (\<lambda>k. load_segment content segs this (phdr_at 0 k)) (j # js) (ld_mem s) =
      fold (load_segment content (as_ram content) this) (file_loads content n) (ld_mem s)"
    unfolding h(1) fold_map comp_def by (rule fold_cong [OF refl refl]) (rule seg)
  show ?thesis
    using f2 im(2) first base h(4,5) image_size_bound(2) [OF img] alloc fm
    by (intro exI [of _ f2]) (simp add: ldr_load_fd_def pg st segs_def [symmetric] Let_def map_option_case split: option.split)
qed

text \<open>
  C10: an image whose headers are in order and whose file holds the bytes of all its segments is
  loaded completely: unless the name of the image cannot be read, \<open>_load\<close> returns the new block,
  every byte of every loadable segment is in its place there, from the file or zero behind the
  file's part, and no other byte of memory changes.
\<close>

theorem load_copies_segments:
  assumes "image_file content n" and "serves io fd good content" and "good (ld_files s)"
    and "mem_Region_alloc MEM_REGION_RTS (of_nat (image_size content n)) (ld_regions s) = (this, tab')" and "this \<noteq> 0"
    and "\<forall>p \<in> set (file_loads content n). seg_offset (as_ram content) p + seg_file (as_ram content) p \<le> length content"
  shows "\<exists>s'. ldr_load_fd io fd nm s = map_option (\<lambda>error. (this, error, s')) (ldr_validate (ld_mem s') this nm) \<and>
    ld_regions s' = tab' \<and> ld_kvts s' = ld_kvts s \<and>
    (\<forall>a. let F = as_ram content; ps = file_loads content n; d = unat (a - this) in
       (\<forall>p \<in> set ps. in_seg F p d \<longrightarrow>
          ld_mem s' a = (let i = d - seg_virt F p in if i < seg_file F p then content ! (seg_offset F p + i) else 0)) \<and>
       ((\<forall>p \<in> set ps. \<not> in_seg F p d) \<longrightarrow> ld_mem s' a = ld_mem s a) \<and>
       (image_size content n \<le> d \<longrightarrow> ld_mem s' a = ld_mem s a))"
proof -
  let ?F = "as_ram content" and ?ps = "file_loads content n"
  note im = image_fileD [OF assms(1) refl]
  obtain f' where s': "ldr_load_fd io fd nm s = map_option (\<lambda>error. (this, error, s\<lparr>ld_files := f', ld_regions := tab',
      ld_mem := fold (load_segment content ?F this) ?ps (ld_mem s)\<rparr>))
      (ldr_validate (fold (load_segment content ?F this) ?ps (ld_mem s)) this nm)"
    using load_fd_image [OF assms(1-5), of nm] by (auto simp: Let_def)
  note at = load_segments_at [OF im(8,9), where elf = this and content = content and m = "ld_mem s"]
  have "\<not> in_seg ?F p d" if "image_size content n \<le> d" "p \<in> set ?ps" for p d
    using in_seg_inside [OF im(8) that(2), of d] that(1) by (auto simp: image_size_def Let_def)
  then have rest: "image_size content n \<le> unat (a - this) \<Longrightarrow>
      fold (load_segment content ?F this) ?ps (ld_mem s) a = ld_mem s a" for a
    using at(2) by blast
  let ?s' = "s\<lparr>ld_files := f', ld_regions := tab', ld_mem := fold (load_segment content ?F this) ?ps (ld_mem s)\<rparr>"
  have bytes: "seg_byte content ?F p d old =
      (if d - seg_virt ?F p < seg_file ?F p then content ! (seg_offset ?F p + (d - seg_virt ?F p)) else 0)"
    if "p \<in> set ?ps" for p d old
    using assms(6) [rule_format, OF that] by (auto simp: seg_byte_def Let_def)
  show ?thesis
    unfolding Let_def
    by (intro exI [of _ ?s'] conjI allI ballI impI) (use s' at bytes rest in simp_all)
qed

subsection \<open>A failed load\<close>

lemma pageIn_keeps:
  assumes "ldr_pageIn io arr fd s = Some (k, segs, s')"
  shows "ld_regions s' = ld_regions s \<and> ld_mem s' = ld_mem s"
proof -
  obtain e bs f where r: "ldr_read io fd 0 (of_nat sizeof_Ldr_elf) (ld_files s) = ((e, bs), f)"
    by (metis surj_pair)
  note body = assms [unfolded ldr_pageIn_def r Let_def prod.case]
  show ?thesis
  proof (cases "store_local bs (local_array sizeof_Ldr_elf (s\<lparr>ld_files := f\<rparr>))")
    case (Some h)
    obtain e2 bs2 f2 where r2: "ldr_read io fd (elf_Header_offPhdr (as_ram h) 0) (of_nat sizeof_Segment * ldr_isElf (as_ram h) 0) f =
        ((e2, bs2), f2)"
      by (metis surj_pair)
    show ?thesis
      using body by (cases "store_local bs2 arr") (auto simp: Some r2 split: if_split_asm)
  qed (use body in simp)
qed

lemmas pageIn_regions = pageIn_keeps [THEN conjunct1] and pageIn_mem = pageIn_keeps [THEN conjunct2]

text \<open>Filling the block leaves the region table and all memory outside of the block alone.\<close>

definition fills_block :: "u32 \<Rightarrow> u32 \<Rightarrow> 'f loader \<Rightarrow> 'f loader \<Rightarrow> bool" where
  "fills_block elf len s s' \<longleftrightarrow> ld_regions s' = ld_regions s \<and>
     (\<forall>a. unat len \<le> unat (a - elf) \<longrightarrow> ld_mem s' a = ld_mem s a)"

lemma fills_trans: "fills_block elf len s s' \<Longrightarrow> fills_block elf len s' s'' \<Longrightarrow> fills_block elf len s s''"
  by (simp add: fills_block_def)

lemma in_block_less:
  assumes "in_block elf len p n" and "unat (a - p) < n"
  shows "unat (a - elf) < unat len"
proof -
  have b: "unat (p - elf) + n \<le> unat len" using assms by (auto simp: in_block_def)
  have "unat len < 2 ^ 32" using unsigned_less [of len, where 'a = nat] by simp
  then have "unat (p - elf) + unat (a - p) < 2 ^ 32" using b assms(2) by linarith
  then have "unat ((p - elf) + (a - p)) = unat (p - elf) + unat (a - p)" by (subst unat_add_lem [THEN iffD1]) simp_all
  then show ?thesis using b assms(2) by simp
qed

lemma populate_segment_fills:
  assumes "populate_segment io segs elf len fd p s = Some (st, s')"
  shows "fills_block elf len s s'"
proof -
  let ?f = "elf_Pheader_fileSize segs p" and ?v = "elf + elf_Pheader_virtAddr segs p"
  let ?z = "elf_Pheader_memSize segs p - ?f"
  obtain r bs f where rd: "ldr_read io fd (elf_Pheader_offset segs p) ?f (ld_files s) = ((r, bs), f)" by (metis surj_pair)
  have b: "in_block elf len ?v (length bs)"
    and s': "s' = s\<lparr>ld_files := f, ld_mem := put_bytes ?v bs (ld_mem s)\<rparr> \<or>
      in_block elf len (?v + ?f) (unat ?z) \<and>
      s' = s\<lparr>ld_files := f, ld_mem := ldr_zero (?v + ?f) ?z (put_bytes ?v bs (ld_mem s))\<rparr>"
    using assms by (auto simp: populate_segment_def rd Let_def split: if_splits)
  have bytes: "put_bytes ?v bs m a = m a" if "unat len \<le> unat (a - elf)" for a m
    using in_block_less [OF b, of a] that by (auto simp: put_bytes_def)
  have zero: "ldr_zero (?v + ?f) ?z m a = m a" if "unat len \<le> unat (a - elf)" "in_block elf len (?v + ?f) (unat ?z)" for a m
    using in_block_less [OF that(2), of a] that(1) by (auto simp: ldr_zero_def word_less_nat_alt)
  show ?thesis using s' bytes zero by (auto simp: fills_block_def)
qed

lemma populate_fills: "ldr_populate io ok segs elf len end_seg fd p s = Some r \<Longrightarrow> fills_block elf len s (snd r)"
proof (induction rule: ldr_populate.raw_induct [rotated, consumes 1, case_names step])
  case (step rec io ok segs elf len end_seg fd p s r)
  obtain st s1 where p: "populate_segment io segs elf len fd p s = Some (st, s1)"
    using step.hyps by (cases "populate_segment io segs elf len fd p s") auto
  note s1 = populate_segment_fills [OF p]
  note body = step.hyps [unfolded p Option.bind.simps prod.case]
  show ?case
  proof (cases "st = LDR_SUCCESS")
    case True
    then obtain nxt where nxt: "ldr_iterate ok segs (p + 32) end_seg = Some nxt"
      using body by (cases "ldr_iterate ok segs (p + 32) end_seg") simp_all
    show ?thesis
    proof (cases "nxt = end_seg")
      case False
      then have "rec io ok segs elf len end_seg fd nxt s1 = Some r" using body True nxt by simp
      then show ?thesis using step.IH s1 fills_trans by blast
    qed (use body True nxt s1 in auto)
  qed (use body s1 in auto)
qed

lemma alloc_null_same: "mem_Region_alloc name n tab = (0, tab') \<Longrightarrow> table_ok tab \<Longrightarrow> n \<noteq> 0 \<Longrightarrow> tab' = tab"
proof -
  assume a: "mem_Region_alloc name n tab = (0, tab')" and ok: "table_ok tab" and n: "n \<noteq> 0"
  show "tab' = tab"
  proof (cases "request_ok name n tab")
    case True
    then show ?thesis using alloc_step [OF ok True] a by (metis prod.inject)
  next
    case False
    then have "2 ^ 32 \<le> unat n + (page_bytes (region_of name tab) - 1)" using n by (auto simp: request_ok_def word_gt_0)
    then show ?thesis using alloc_overflow_reserves_nothing [OF ok, of n name] a by auto
  qed
qed

text \<open>A request that overflows reserves nothing, so undoing it changes nothing either.\<close>

lemma undo_alloc:
  assumes ok: "table_ok tab" and n: "n \<noteq> 0" and a: "mem_Region_alloc name n tab = (p, tab')" and p: "p \<noteq> 0"
  shows "mem_Region_undoAlloc name p tab' = tab"
proof (cases "request_ok name n tab")
  case True
  then show ?thesis using undoAlloc_alloc [OF ok True a p] by simp
next
  case False
  let ?r = "region_of name tab"
  have "2 ^ 32 \<le> unat n + (page_bytes ?r - 1)" using False n by (auto simp: request_ok_def word_gt_0)
  then have "p = start ?r + push_bit (unat (pageSize ?r)) (next_page ?r)" "tab' = tab"
    using alloc_overflow_reserves_nothing [OF ok, of n name] a by auto
  then show ?thesis by (simp add: mem_Region_undoAlloc_def region_of_def)
qed

text \<open>
  Either nothing has changed, or the block of the image is the last allocation and the only
  memory that has.
\<close>

lemma load_fd_regions:
  assumes l: "ldr_load_fd io fd nm s = Some (this, error, s')" and ok: "table_ok (ld_regions s)"
  shows "(this = 0 \<longrightarrow> ld_regions s' = ld_regions s \<and> ld_mem s' = ld_mem s) \<and>
    (this \<noteq> 0 \<longrightarrow> (\<exists>size. size \<noteq> 0 \<and> mem_Region_alloc MEM_REGION_RTS size (ld_regions s) = (this, ld_regions s') \<and>
       (\<forall>a. unat size \<le> unat (a - this) \<longrightarrow> ld_mem s' a = ld_mem s a)))"
proof -
  obtain phnum segments s1 where pg: "ldr_pageIn io (local_array (MAX_SEGMENTS * sizeof_Segment) s) fd s = Some (phnum, segments, s1)"
    using l by (cases "ldr_pageIn io (local_array (MAX_SEGMENTS * sizeof_Segment) s) fd s") (auto simp: ldr_load_fd_def)
  note r1 = pageIn_regions [OF pg] pageIn_mem [OF pg]
  note body = l [unfolded ldr_load_fd_def pg Option.bind.simps prod.case Let_def]
  show ?thesis
  proof (cases "phnum = 0")
    case True
    then show ?thesis using body r1 by auto
  next
    case False
    then obtain base where base: "ldr_iterate in_segments (as_ram segments) 0 (phdr_at 0 phnum) = Some base"
      using body by (cases "ldr_iterate in_segments (as_ram segments) 0 (phdr_at 0 phnum)") simp_all
    show ?thesis
    proof (cases "base = phdr_at 0 phnum \<or> elf_Pheader_virtAddr (as_ram segments) base \<noteq> 0")
      case True
      then show ?thesis using body r1 False base by (auto split: if_split_asm)
    next
      case nb: False
      obtain size where size: "ldr_seek_size in_segments (as_ram segments) base (phdr_at 0 phnum) = Some size"
        using body False base nb by (cases "ldr_seek_size in_segments (as_ram segments) base (phdr_at 0 phnum)") simp_all
      obtain p tab where a: "mem_Region_alloc MEM_REGION_RTS size (ld_regions s) = (p, tab)"
        by (cases "mem_Region_alloc MEM_REGION_RTS size (ld_regions s)")
      note bd = body [unfolded base size Option.bind.simps r1 a prod.case]
      consider "size = 0" | "size \<noteq> 0" "p = 0" | "size \<noteq> 0" "p \<noteq> 0" by blast
      then show ?thesis
      proof cases
        case 1
        then show ?thesis using bd False nb r1 by simp
      next
        case 2
        then show ?thesis using bd False nb alloc_null_same [OF a [unfolded 2(2)] ok] r1 by auto
      next
        case 3
        let ?pop = "ldr_populate io in_segments (as_ram segments) p size (phdr_at 0 phnum) fd base (s1\<lparr>ld_regions := tab\<rparr>)"
        obtain err s2 where pop: "?pop = Some (err, s2)" using bd False nb 3 by (cases ?pop) auto
        have "fills_block p size (s1\<lparr>ld_regions := tab\<rparr>) s2" using populate_fills [OF pop] by simp
        then have s2: "ld_regions s2 = tab" "\<forall>a. unat size \<le> unat (a - p) \<longrightarrow> ld_mem s2 a = ld_mem s a"
          by (simp_all add: fills_block_def pageIn_mem [OF pg])
        then show ?thesis using bd False nb 3 a pop
          by (cases "ldr_validate (ld_mem s2) p nm") (auto split: if_split_asm)
      qed
    qed
  qed
qed



subsection \<open>A loadable last header\<close>

lemma seek_loop_past:
  assumes last: "elf_Pheader_isLoadable m (phdr_at 0 (n - 1))" and n: "0 < n" "n \<le> 64"
    and past: "\<forall>j. n \<le> j \<and> j < 64 \<longrightarrow> \<not> elf_Pheader_isLoadable m (phdr_at 0 j)"
    and "loads m 0 i n = j # js"
  shows "seek_loop in_segments m (phdr_at 0 j) l (phdr_at 0 n) = None"
  using assms(5)
proof (induction js arbitrary: i j l)
  case Nil
  note j = loads_ConsD [OF Nil]
  have "j = n - 1"
  proof (rule ccontr)
    assume "j \<noteq> n - 1"
    then have "n - 1 \<in> set (loads m 0 (Suc j) n)" using last j(2) n(1) by (simp add: loads_def)
    then show False using j(4) by simp
  qed
  then have "ldr_iterate in_segments m (phdr_at 0 j + 32) (phdr_at 0 n) = None"
    using iterate_past [of n m n] past n by (simp add: phdr_at_Suc)
  moreover have "phdr_at 0 j \<noteq> phdr_at 0 n" using j(2) n by (simp add: phdr_at_eq)
  ultimately show ?case by (subst seek_loop.simps) (simp add: Let_def)
next
  case (Cons k ks)
  note j = loads_ConsD [OF Cons.prems]
  have "Suc j < n" using j(4) loads_ConsD(1,2) [OF j(4)] by simp
  then have "ldr_iterate in_segments m (phdr_at 0 j + 32) (phdr_at 0 n) = Some (phdr_at 0 k)"
    using iterate_loads [of "Suc j" n in_segments 0 m] n in_segments_below j(4) by (simp add: phdr_at_Suc)
  moreover have "phdr_at 0 j \<noteq> phdr_at 0 n" using j(2) n by (simp add: phdr_at_eq)
  ultimately show ?case using Cons.IH [OF j(4)] by (subst seek_loop.simps) (simp add: Let_def)
qed

text \<open>
  When the last program header of a file is loadable, the search for the next one starts
  behind the table, and unless a loadable header happens to lie there it leaves the array.
\<close>

theorem last_loadable_leaves_array:
  assumes "elf_Pheader_isLoadable m (phdr_at 0 (n - 1))" and "b < n" and "n \<le> MAX_SEGMENTS"
    and "\<forall>j. n \<le> j \<and> j < MAX_SEGMENTS \<longrightarrow> \<not> elf_Pheader_isLoadable m (phdr_at 0 j)"
  shows "ldr_seek_size in_segments m (phdr_at 0 b) (phdr_at 0 n) = None"
proof -
  have n: "0 < n" "n \<le> 64" and past: "\<forall>j. n \<le> j \<and> j < 64 \<longrightarrow> \<not> elf_Pheader_isLoadable m (phdr_at 0 j)"
    using assms by (simp_all add: MAX_SEGMENTS_def)
  show ?thesis
  proof (cases "Suc b = n")
    case True
    then show ?thesis using iterate_past [of n m n] past n by (simp add: ldr_seek_size_def phdr_at_Suc)
  next
    case False
    then have b: "Suc b < n" using assms(2) by simp
    then have "n - 1 \<in> set (loads m 0 (Suc b) n)" using assms(1) by (simp add: loads_def)
    then obtain j js where l: "loads m 0 (Suc b) n = j # js" by (cases "loads m 0 (Suc b) n") auto
    have "ldr_iterate in_segments m (phdr_at 0 b + 32) (phdr_at 0 n) = Some (phdr_at 0 j)"
      using iterate_loads [OF b, of in_segments 0 m] n in_segments_below l by (simp add: phdr_at_Suc)
    then show ?thesis using seek_loop_past [OF assms(1) n past l] by (simp add: ldr_seek_size_def)
  qed
qed


subsection \<open>A sample image\<close>

text \<open>One loadable segment of 4096 bytes, 144 of them in the file, and the dynamic section; its name is "a".\<close>

definition sample_file :: "u8 list" where
  "sample_file =
    [127, 69, 76, 70, 1, 1, 1, 0, 0, 0, 0, 0, 0, 0, 0, 0,
     3, 0, 40, 0, 1, 0, 0, 0, 0, 0, 0, 0, 52, 0, 0, 0,
     0, 0, 0, 0, 0, 0, 0, 0, 52, 0, 32, 0, 2, 0, 0, 0,
     0, 0, 0, 0, 1, 0, 0, 0, 0, 0, 0, 0, 0, 0, 0, 0,
     0, 0, 0, 0, 144, 0, 0, 0, 0, 16, 0, 0, 5, 0, 0, 0,
     0, 16, 0, 0, 2, 0, 0, 0, 116, 0, 0, 0, 116, 0, 0, 0,
     116, 0, 0, 0, 24, 0, 0, 0, 24, 0, 0, 0, 4, 0, 0, 0,
     4, 0, 0, 0, 5, 0, 0, 0, 140, 0, 0, 0, 14, 0, 0, 0,
     1, 0, 0, 0, 0, 0, 0, 0, 0, 0, 0, 0, 0, 97, 0, 0]"

lemma sample_length: "length sample_file = 144"
  by (simp add: sample_file_def)

lemma sample_words:
  "ldr_isElf (as_ram sample_file) 0 = 2" "elf_Header_type (as_ram sample_file) 0 = ET_DYN"
  "elf_Header_offPhdr (as_ram sample_file) 0 = 52"
  by (simp_all add: ldr_isElf_def elf_Header_size_def elf_Header_offPhdr_def elf_Header_numPhdr_def elf_Header_type_def
      ld8_def ld16_def ld32_def as_ram_def sample_file_def ET_DYN_def le_half_def le_word_def
      sizeof_Ldr_elf_def sizeof_Segment_def MAX_SEGMENTS_def)

lemma sample_headers:
  "elf_Pheader_isLoadable (as_ram sample_file) 52" "\<not> elf_Pheader_isLoadable (as_ram sample_file) 84"
  "elf_Pheader_virtAddr (as_ram sample_file) 52 = 0" "elf_Pheader_fileSize (as_ram sample_file) 52 = 144"
  "elf_Pheader_memSize (as_ram sample_file) 52 = 4096" "elf_Pheader_offset (as_ram sample_file) 52 = 0"
  by (simp_all add: elf_Pheader_isLoadable_def elf_Pheader_type_def elf_Pheader_virtAddr_def elf_Pheader_fileSize_def
      elf_Pheader_memSize_def elf_Pheader_offset_def ld32_def as_ram_def sample_file_def le_word_def)

lemma sample_loads: "file_loads sample_file 2 = [52]"
  by (simp add: file_loads_def loads_def sample_words phdr_at_def sample_headers upt_rec)

lemma sample_size: "image_size sample_file 2 = 4096"
  by (simp add: image_size_def sample_loads seg_defs sample_headers)

lemma sample_image: "image_file sample_file 2"
  unfolding image_file_def Let_def sample_loads sample_size
  by (simp add: sample_length sample_words seg_ok_def seg_defs sample_headers MAX_SEGMENTS_def phdr_at_def)

text \<open>A file system with this one file; its state is the position.\<close>

definition sample_io :: "nat file_io" where
  "sample_io = \<lparr>io_open = (\<lambda>path pos. (3, 0)), io_lseek = (\<lambda>fd off pos. (int (unat off), unat off)),
     io_read = (\<lambda>fd n pos. let bs = take (unat n) (drop pos sample_file) in ((int (length bs), bs), pos + length bs)),
     io_close = (\<lambda>fd pos. pos)\<rparr>"

lemma sample_serves: "serves sample_io 3 (\<lambda>_. True) sample_file"
proof -
  have "uint off \<noteq> - 1" for off :: u32 using uint_ge_0 [of off] by linarith
  then show ?thesis by (simp add: serves_def sample_io_def READ_ERROR_def Let_def)
qed

definition sample_loader :: "ram \<Rightarrow> kv_heap \<Rightarrow> nat loader" where
  "sample_loader m h = \<lparr>ld_mem = m, ld_files = 0, ld_regions = mem_RegionTable, ld_kvts = h,
     ld_mmu = \<lparr>words = (\<lambda>_. 0), dacr = 0, ttbr0 = 0x4000, sctlr = 0\<rparr>, images_table = 0x100000, namespace_table = 0x200000,
     fresh_stack = (\<lambda>_. 0)\<rparr>"

lemma sample_loader_sel [simp]:
  "ld_mem (sample_loader m h) = m" "ld_files (sample_loader m h) = 0" "ld_regions (sample_loader m h) = mem_RegionTable"
  "ld_kvts (sample_loader m h) = h" "namespace_table (sample_loader m h) = 0x200000" "images_table (sample_loader m h) = 0x100000"
  by (simp_all add: sample_loader_def)

lemma sample_alloc:
  obtains tab where "mem_Region_alloc MEM_REGION_RTS 4096 mem_RegionTable = (0x168000, tab)"
  by (simp add: alloc_eval)

theorem load_copies_segments_witness:
  "\<exists>s'. ldr_load_fd sample_io 3 0x100 (sample_loader (\<lambda>_. 7) kv_empty_heap) =
       map_option (\<lambda>error. (0x168000, error, s')) (ldr_validate (ld_mem s') 0x168000 0x100) \<and>
     ld_mem s' 0x168001 = 0x45 \<and> ld_mem s' 0x168fff = 0 \<and> ld_mem s' 0x169000 = 7"
proof -
  let ?s = "sample_loader (\<lambda>_. 7) kv_empty_heap"
  obtain tab where a: "mem_Region_alloc MEM_REGION_RTS 4096 mem_RegionTable = (0x168000, tab)" using sample_alloc .
  have alloc: "mem_Region_alloc MEM_REGION_RTS (of_nat (image_size sample_file 2)) (ld_regions ?s) = (0x168000, tab)"
    using a by (simp add: sample_size)
  have complete: "\<forall>p \<in> set (file_loads sample_file 2).
      seg_offset (as_ram sample_file) p + seg_file (as_ram sample_file) p \<le> length sample_file"
    by (simp add: sample_loads seg_defs sample_headers sample_length)
  from load_copies_segments [where nm = "0x100", OF sample_image sample_serves TrueI alloc _ complete]
  obtain s' where s': "ldr_load_fd sample_io 3 0x100 ?s =
      map_option (\<lambda>error. (0x168000, error, s')) (ldr_validate (ld_mem s') 0x168000 0x100)"
    and seg: "\<And>a. in_seg (as_ram sample_file) 52 (unat (a - 0x168000)) \<Longrightarrow>
      ld_mem s' a = (if unat (a - 0x168000) < 144 then sample_file ! unat (a - 0x168000) else 0)"
    and rest: "\<And>a. 4096 \<le> unat (a - 0x168000) \<Longrightarrow> ld_mem s' a = 7"
    by (auto simp: sample_loads sample_size Let_def seg_defs sample_headers)
  have "ld_mem s' 0x168001 = 0x45" "ld_mem s' 0x168fff = 0"
    using seg [of "0x168001"] seg [of "0x168fff"]
    by (simp_all add: in_seg_def seg_defs sample_headers) (simp add: sample_file_def)
  then show ?thesis using s' rest [of "0x169000"] by auto
qed

text \<open>A memory with the name "n:b" and the path "x", and the table that has the path for "n".\<close>

definition sample_ram :: ram where
  "sample_ram = (\<lambda>_. 0)(0x100 := 0x6e, 0x101 := 0x3a, 0x102 := 0x62, 0x200 := 0x78)"

lemma sample_strings: "cstr sample_ram 0x100 [0x6e, 0x3a, 0x62]" "cstr sample_ram 0x200 [0x78]"
  by (simp_all add: sample_ram_def)

lemma sample_table:
  obtains h where "kvt_rep h 0x200000 9 [string_hash [0x6e] \<mapsto> 0x200] 511"
proof -
  obtain h0 where h0: "kvt_rep h0 0x200000 9 Map.empty (2 ^ 9)"
    using KvtConstruct_rep [of "0x200000" 9 9] by auto
  obtain h where "kvt_rep h 0x200000 9 [string_hash [0x6e] \<mapsto> 0x200] 511"
    using KvtInsert_rep [OF h0, of "string_hash [0x6e]" "0x200"] by (auto split: if_split_asm)
  then show thesis by (rule that)
qed

text \<open>What the loaded image looks like in memory.\<close>

definition loaded :: "ram \<Rightarrow> ram" where
  "loaded = load_segment sample_file (as_ram sample_file) 0x168000 52"

lemma loaded_at:
  "unat (a - 0x168000) < 144 \<Longrightarrow> loaded m a = as_ram sample_file (a - 0x168000)"
  "\<not> unat (a - 0x168000) < 4096 \<Longrightarrow> loaded m a = m a"
proof -
  have ok: "seg_ok (as_ram sample_file) 52" by (simp add: seg_ok_def seg_defs sample_headers)
  show "loaded m a = as_ram sample_file (a - 0x168000)" if "unat (a - 0x168000) < 144"
    using that unfolding loaded_def load_segment_at [OF ok]
    by (simp add: in_seg_def seg_byte_def seg_defs sample_headers sample_length Let_def as_ram_def)
  show "loaded m a = m a" if "\<not> unat (a - 0x168000) < 4096"
    using that unfolding loaded_def load_segment_at [OF ok] by (simp add: in_seg_def seg_defs sample_headers)
qed

lemma loaded_words:
  "ld32 (loaded m) 0x16801c = 52" "ld16 (loaded m) 0x16802c = 2" "ld32 (loaded m) 0x168034 = 1" "ld32 (loaded m) 0x168054 = 2"
  "ld32 (loaded m) 0x16805c = 116" "ld32 (loaded m) 0x168074 = 5" "ld32 (loaded m) 0x168078 = 140"
  "ld32 (loaded m) 0x16807c = 14" "ld32 (loaded m) 0x168080 = 1"
  by (simp_all add: ld32_def ld16_def loaded_at as_ram_def sample_length) (simp_all add: sample_file_def le_word_def le_half_def)

lemma phdr_loop_two:
  "phdr_loop tag m p 2 =
     (if elf_Pheader_type m p = tag then p else if elf_Pheader_type m (p + 32) = tag then p + 32 else 0)"
  by (simp add: eval_nat_numeral)

lemma loaded_name: "Ldr_Name (loaded m) 0x168000 = Some 0x16808d" "cstr (loaded m) 0x16808d [0x61]"
proof -
  have "ldr_segment PT_DYNAMIC (loaded m) 0x168000 = 0x168054"
    by (simp add: ldr_segment_def elf_Header_addrPhdr_def elf_Header_offPhdr_def elf_Header_numPhdr_def loaded_words
        phdr_loop_two elf_Pheader_type_def PT_DYNAMIC_def)
  moreover have "ldr_element DT_STRTAB (loaded m) 0x168074 = Some 0x168074"
    by (subst ldr_element.simps) (simp add: elf_Dynamic_tag_def loaded_words dyn_tags)
  moreover have "ldr_element DT_SONAME (loaded m) 0x168074 = Some 0x16807c"
    by (subst ldr_element.simps, subst ldr_element.simps)
      (simp add: elf_Dynamic_tag_def loaded_words dyn_tags DT_SONAME_def sizeof_Element_def)
  ultimately show "Ldr_Name (loaded m) 0x168000 = Some 0x16808d"
    by (simp add: Ldr_Name_def elf_Pheader_virtAddr_def elf_Dynamic_value_def loaded_words)
  show "cstr (loaded m) 0x16808d [0x61]"
    by (simp add: loaded_at as_ram_def sample_length) (simp add: sample_file_def)
qed

lemma cleanup_steps:
  assumes "cleanup_line 14 c b = c1" "cleanup_line 11 a c1 = a1" "cleanup_line 25 b a1 = b1" "cleanup_line 16 c1 b1 = c2"
    "cleanup_line 4 a1 c2 = a2" "cleanup_line 14 b1 a2 = b2" "cleanup_line 24 c2 b2 = c3"
  shows "cleanup (a, b, c) = (a2, b2, c3)"
  by (simp add: cleanup_def Let_def assms)

lemma sample_hash_a: "string_hash [0x61] = join64 4244700054 3800957772"
proof -
  have "cleanup (3737700531, 3737700434, 3737700434) = (4088068167, 4244700054, 3800957772)"
    by (rule cleanup_steps [of _ _ "3454748750" _ "3101756046" "1220018375" "2223767505"]) (simp_all add: cleanup_line_def rot_def)
  then show ?thesis
    by (simp add: string_hash_def words_hash_def HASH_SEED_def MAGIC_NUMBER_def start_regs_def le_word_def hash_result_join)
qed

lemma sample_hash_b: "string_hash [0x6e, 0x3a, 0x62] = join64 398993189 3098189403"
proof -
  have "cleanup (3744137920, 3737700434, 3737700434) = (3520297788, 398993189, 3098189403)"
    by (rule cleanup_steps [of _ _ "3454748750" _ "3095254047" "658776229" "3389669799"]) (simp_all add: cleanup_line_def rot_def)
  then show ?thesis
    by (simp add: string_hash_def words_hash_def HASH_SEED_def MAGIC_NUMBER_def start_regs_def le_word_def hash_result_join)
qed

lemma sample_hashes: "string_hash [0x61] \<noteq> string_hash [0x6e, 0x3a, 0x62]"
  by (simp add: sample_hash_a sample_hash_b join64_eq_iff)


theorem last_loadable_leaves_array_witness:
  "ldr_seek_size in_segments (\<lambda>a. if a = 0 then 1 else 0) (phdr_at 0 0) (phdr_at 0 1) = None"
proof -
  let ?m = "\<lambda>a :: u32. if a = 0 then 1 else (0 :: u8)"
  have past: "\<not> elf_Pheader_isLoadable ?m (phdr_at 0 j)" if "1 \<le> j \<and> j < MAX_SEGMENTS" for j
  proof -
    have "unat (of_nat (32 * j + c) :: u32) = 32 * j + c" if "c < 4" for c
      using \<open>1 \<le> j \<and> j < MAX_SEGMENTS\<close> that by (intro unat_of_nat_u32) (simp add: MAX_SEGMENTS_def)
    then have nz: "(of_nat (32 * j + c) :: u32) \<noteq> 0" if "c < 4" for c using \<open>1 \<le> j \<and> j < MAX_SEGMENTS\<close> that
      by (metis add_is_0 mult_eq_0_iff not_one_le_zero unsigned_0 zero_neq_numeral)
    have "phdr_at 0 j = of_nat (32 * j + 0)" "phdr_at 0 j + 1 = of_nat (32 * j + 1)" "phdr_at 0 j + 2 = of_nat (32 * j + 2)"
      "phdr_at 0 j + 3 = of_nat (32 * j + 3)" by (simp_all add: phdr_at_def)
    then have "ld32 ?m (phdr_at 0 j) = 0" using nz [of 0] nz [of 1] nz [of 2] nz [of 3] by (simp add: ld32_def le_word_def add.commute)
    then show ?thesis by (simp add: elf_Pheader_isLoadable_def elf_Pheader_type_def)
  qed
  have "elf_Pheader_isLoadable ?m (phdr_at 0 (1 - 1))"
    by (simp add: elf_Pheader_isLoadable_def elf_Pheader_type_def phdr_at_def ld32_def le_word_def)
  then show ?thesis using past by (intro last_loadable_leaves_array) (simp_all add: MAX_SEGMENTS_def)
qed

end
