(* ===== verification/LdrBoot.thy ===== *)
theory LdrBoot
  imports LdrImage
begin

text \<open>
  The loader's two tables as one abstract state: starting the loader sets them up, and from
  then on its commands act on two maps, one of installed images and one of name spaces.
\<close>

subsection \<open>The abstract state\<close>

type_synonym table_state = "(u64 \<Rightarrow> u32 option) \<times> nat"
type_synonym loader_state = "table_state \<times> table_state"

definition loader_ok :: "'f loader \<Rightarrow> loader_state \<Rightarrow> bool" where
  "loader_ok s a \<longleftrightarrow> (case a of ((im, ic), (nm, nc)) \<Rightarrow>
     kvt_rep (ld_kvts s) (images_table s) 8 im ic \<and> kvt_rep (ld_kvts s) (namespace_table s) 9 nm nc \<and>
     kvt_span (images_table s) 8 \<inter> kvt_span (namespace_table s) 9 = {})"

datatype ldr_cmd = Assign u32 u32 | Rename u32 u32 | Remove u32 | Lookup u32 | Install u32

fun ldr_step :: "ldr_cmd \<Rightarrow> 'f loader \<Rightarrow> (u32 \<times> 'f loader) option" where
  "ldr_step (Assign ns path) s = Ldr_Assign ns path s"
| "ldr_step (Rename ns path) s = Ldr_Rename ns path s"
| "ldr_step (Remove ns) s = Ldr_Remove ns s"
| "ldr_step (Lookup nm) s = do { r \<leftarrow> Ldr_Lookup nm s; Some (r, s) }"
| "ldr_step (Install elf) s = Ldr_Install elf s"

text \<open>The key of a string, and the meaning of the commands; the memory does not change.\<close>

definition key_at :: "ram \<Rightarrow> u32 \<Rightarrow> u64" where "key_at m p = string_hash (the (c_string m p))"

definition on_names :: "kv_cmd \<Rightarrow> loader_state \<Rightarrow> u32 \<times> loader_state" where
  "on_names x a = (let (r, t) = kv_spec x (snd a) in (r, (fst a, t)))"

definition on_images :: "kv_cmd \<Rightarrow> loader_state \<Rightarrow> u32 \<times> loader_state" where
  "on_images x a = (let (r, t) = kv_spec x (fst a) in (r, (t, snd a)))"

fun ldr_spec :: "ram \<Rightarrow> ldr_cmd \<Rightarrow> loader_state \<Rightarrow> u32 \<times> loader_state" where
  "ldr_spec m (Assign ns path) a = on_names (Ins (key_at m ns) path) a"
| "ldr_spec m (Rename ns path) a = on_names (Ren (key_at m ns) path) a"
| "ldr_spec m (Remove ns) a = on_names (Rem (key_at m ns)) a"
| "ldr_spec m (Lookup nm) a = on_images (Look (key_at m nm)) a"
| "ldr_spec m (Install elf) a =
     (let nm = the (Ldr_Name m elf) in
      if nm = 0 then (LDR_IMAGE_WITHOUT_NAME, a)
      else let (r, a) = on_images (Ins (key_at m nm) elf) a
           in (if r \<noteq> 0 then LDR_SUCCESS else LDR_IMAGE_INSTALLED, a))"

fun spec_run :: "('c \<Rightarrow> 'a \<Rightarrow> 'r \<times> 'a) \<Rightarrow> 'c list \<Rightarrow> 'a \<Rightarrow> 'r list \<times> 'a" where
  "spec_run f [] a = ([], a)"
| "spec_run f (x # xs) a = (let (r, a) = f x a; (rs, a) = spec_run f xs a in (r # rs, a))"

text \<open>A string that ends, and an image whose name can be found.\<close>

definition string_at :: "ram \<Rightarrow> u32 \<Rightarrow> bool" where "string_at m p \<longleftrightarrow> (\<exists>xs. cstr m p xs)"

definition named_image :: "ram \<Rightarrow> u32 \<Rightarrow> bool" where
  "named_image m elf \<longleftrightarrow> (\<exists>nm. Ldr_Name m elf = Some nm \<and> (nm = 0 \<or> string_at m nm))"

fun cmd_ok :: "ram \<Rightarrow> ldr_cmd \<Rightarrow> bool" where
  "cmd_ok m (Assign ns path) = string_at m ns"
| "cmd_ok m (Rename ns path) = string_at m ns"
| "cmd_ok m (Remove ns) = string_at m ns"
| "cmd_ok m (Lookup nm) = string_at m nm"
| "cmd_ok m (Install elf) = named_image m elf"

subsection \<open>Running commands\<close>

text \<open>
  What a sequence of commands needs of each: a result, the abstract one, and again a
  represented state.
\<close>

locale command_simulation =
  fixes rep :: "'s \<Rightarrow> 'a \<Rightarrow> bool"
    and step :: "'c \<Rightarrow> 's \<Rightarrow> ('r \<times> 's) option"
    and spec :: "'c \<Rightarrow> 'a \<Rightarrow> 'r \<times> 'a"
    and allowed :: "'c \<Rightarrow> bool"
  assumes simulates: "rep s a \<Longrightarrow> allowed x \<Longrightarrow> spec x a = (r, a') \<Longrightarrow> \<exists>s'. step x s = Some (r, s') \<and> rep s' a'"
begin

lemma run_simulates:
  "rep s a \<Longrightarrow> \<forall>x \<in> set xs. allowed x \<Longrightarrow> spec_run spec xs a = (rs, a') \<Longrightarrow>
     \<exists>s'. run_cmds step xs s = Some (rs, s') \<and> rep s' a'"
proof (induction xs arbitrary: s a rs a')
  case (Cons x xs)
  obtain r a1 where x: "spec x a = (r, a1)" by (cases "spec x a")
  obtain rs1 a2 where xs: "spec_run spec xs a1 = (rs1, a2)" by (cases "spec_run spec xs a1")
  obtain s1 where s1: "step x s = Some (r, s1)" "rep s1 a1" using simulates Cons.prems x by fastforce
  obtain s2 where "run_cmds step xs s1 = Some (rs1, s2)" "rep s2 a2" using Cons.IH [OF s1(2) _ xs] Cons.prems(2) by auto
  then show ?case using Cons.prems(3) x xs s1 by simp
qed simp

end

lemma key_at_hash: "string_at m p \<Longrightarrow> KvtHash_at m p = Some (key_at m p)"
  by (auto simp: string_at_def key_at_def KvtHash_at_cstr c_string_cstr)

lemma names_step:
  assumes ok: "loader_ok s a" and spec: "on_names x a = (r, a')"
  shows "\<exists>h'. kv_step (namespace_table s) x (ld_kvts s) = Some (r, h') \<and> loader_ok (s\<lparr>ld_kvts := h'\<rparr>) a'"
proof -
  obtain im ic nm nc where a: "a = ((im, ic), (nm, nc))" by (metis surj_pair)
  obtain nm' nc' where sp: "kv_spec x (nm, nc) = (r, nm', nc')" "a' = ((im, ic), (nm', nc'))"
    using spec by (auto simp: on_names_def a split: prod.splits)
  have rep: "kvt_rep (ld_kvts s) (images_table s) 8 im ic" "kvt_rep (ld_kvts s) (namespace_table s) 9 nm nc"
    "kvt_span (images_table s) 8 \<inter> kvt_span (namespace_table s) 9 = {}"
    using ok by (simp_all add: loader_ok_def a)
  obtain h' where h': "kv_step (namespace_table s) x (ld_kvts s) = Some (r, h')" "kvt_rep h' (namespace_table s) 9 nm' nc'"
    using kvt.step_rep [OF rep(2) sp(1)] by blast
  have "kvt_rep h' (images_table s) 8 im ic"
    using kv_step_frame [OF rep(2) h'(1)] rep(3) by (intro kvt_rep_cong [OF rep(1)]) (auto simp: agree_on_def)
  then show ?thesis using h' rep(3) by (auto simp: loader_ok_def sp)
qed

lemma images_step:
  assumes ok: "loader_ok s a" and spec: "on_images x a = (r, a')"
  shows "\<exists>h'. kv_step (images_table s) x (ld_kvts s) = Some (r, h') \<and> loader_ok (s\<lparr>ld_kvts := h'\<rparr>) a'"
proof -
  obtain im ic nm nc where a: "a = ((im, ic), (nm, nc))" by (metis surj_pair)
  obtain im' ic' where sp: "kv_spec x (im, ic) = (r, im', ic')" "a' = ((im', ic'), (nm, nc))"
    using spec by (auto simp: on_images_def a split: prod.splits)
  have rep: "kvt_rep (ld_kvts s) (images_table s) 8 im ic" "kvt_rep (ld_kvts s) (namespace_table s) 9 nm nc"
    "kvt_span (images_table s) 8 \<inter> kvt_span (namespace_table s) 9 = {}"
    using ok by (simp_all add: loader_ok_def a)
  obtain h' where h': "kv_step (images_table s) x (ld_kvts s) = Some (r, h')" "kvt_rep h' (images_table s) 8 im' ic'"
    using kvt.step_rep [OF rep(1) sp(1)] by blast
  have "kvt_rep h' (namespace_table s) 9 nm nc"
    using kv_step_frame [OF rep(1) h'(1)] rep(3) by (intro kvt_rep_cong [OF rep(2)]) (auto simp: agree_on_def)
  then show ?thesis using h' rep(3) by (auto simp: loader_ok_def sp)
qed


lemma install_step:
  assumes m: "ld_mem s = m" and ok: "loader_ok s a" and named: "named_image m elf" and spec: "ldr_spec m (Install elf) a = (r, a')"
  shows "\<exists>s'. Ldr_Install elf s = Some (r, s') \<and> ld_mem s' = m \<and> loader_ok s' a'"
proof -
  obtain nm where nm: "Ldr_Name m elf = Some nm" "nm = 0 \<or> string_at m nm" using named by (auto simp: named_image_def)
  show ?thesis
  proof (cases "nm = 0")
    case True
    then show ?thesis using nm ok m spec by (simp add: Ldr_Install_def)
  next
    case False
    then have key: "KvtHash_at m nm = Some (key_at m nm)" using nm by (simp add: key_at_hash)
    obtain r1 a1 where a1: "on_images (Ins (key_at m nm) elf) a = (r1, a1)" by (cases "on_images (Ins (key_at m nm) elf) a")
    then have r: "r = (if r1 \<noteq> 0 then LDR_SUCCESS else LDR_IMAGE_INSTALLED)" "a' = a1" using spec nm False by auto
    obtain h' where "KvtInsert (key_at m nm) elf (images_table s) (ld_kvts s) = Some (r1, h')" "loader_ok (s\<lparr>ld_kvts := h'\<rparr>) a1"
      using images_step [OF ok a1] by auto
    then show ?thesis using nm False key m r by (simp add: Ldr_Install_def)
  qed
qed

lemma loader_step:
  assumes m: "ld_mem s = m" and ok: "loader_ok s a" and x: "cmd_ok m x" and spec: "ldr_spec m x a = (r, a')"
  shows "\<exists>s'. ldr_step x s = Some (r, s') \<and> ld_mem s' = m \<and> loader_ok s' a'"
proof (cases x)
  case (Install elf)
  then show ?thesis using install_step [OF m ok _ spec [unfolded Install]] x by simp
next
  case (Lookup nm)
  have spec': "on_images (Look (key_at m nm)) a = (r, a')" using spec Lookup by simp
  obtain h' where "kv_step (images_table s) (Look (key_at m nm)) (ld_kvts s) = Some (r, h')" "loader_ok (s\<lparr>ld_kvts := h'\<rparr>) a'"
    using images_step [OF ok spec'] by blast
  then show ?thesis using Lookup m x by (auto simp: Ldr_Lookup_def key_at_hash)
next
  case (Assign ns path)
  then show ?thesis using names_step [OF ok, of "Ins (key_at m ns) path"] spec m x
    by (auto simp: Ldr_Assign_def key_at_hash)
next
  case (Rename ns path)
  then show ?thesis using names_step [OF ok, of "Ren (key_at m ns) path"] spec m x
    by (auto simp: Ldr_Rename_def key_at_hash)
next
  case (Remove ns)
  then show ?thesis using names_step [OF ok, of "Rem (key_at m ns)"] spec m x
    by (auto simp: Ldr_Remove_def key_at_hash)
qed

interpretation loader: command_simulation "\<lambda>s a. ld_mem s = m \<and> loader_ok s a" ldr_step "ldr_spec m" "cmd_ok m" for m
  by unfold_locales (use loader_step in blast)

subsection \<open>Starting the loader\<close>

text \<open>
  The system image: its header is in order and its name is the one the loader is started with.
\<close>

definition system_image :: "ram \<Rightarrow> u32 \<Rightarrow> u32 \<Rightarrow> u32 \<Rightarrow> bool" where
  "system_image m elf ourname bytes \<longleftrightarrow>
     (\<exists>nm xs. Ldr_Name m elf = Some nm \<and> nm \<noteq> 0 \<and> cstr m nm xs \<and> cstr m ourname xs) \<and>
     Ldr_Sizeof m elf = Some bytes \<and> bytes \<noteq> 0"

lemma image_valid:
  assumes "system_image m elf ourname bytes"
  shows "ldr_validate m elf ourname = Some LDR_SUCCESS"
  using assms by (auto simp: system_image_def ldr_validate_def KvtHash_at_cstr)


lemma Fixup_frame:
  assumes "Ldr_Fixup elf s \<noteq> None" "ld_mem s' = ld_mem s" "ld_mmu s' = ld_mmu s"
  shows "\<exists>mm. Ldr_Fixup elf s' = Some (s'\<lparr>ld_mmu := mm\<rparr>)"
proof (cases "elf_Header_numPhdr (ld_mem s) elf = 0")
  case True
  then show ?thesis using assms(2,3) by (intro exI [of _ "ld_mmu s'"]) (simp add: Ldr_Fixup_def Let_def)
next
  case False
  let ?l = "phdr_at (elf_Header_addrPhdr (ld_mem s) elf) (unat (elf_Header_numPhdr (ld_mem s) elf))"
  let ?it = "ldr_iterate anywhere (ld_mem s) (elf_Header_addrPhdr (ld_mem s) elf) ?l"
  obtain nxt where nxt: "?it = Some nxt"
    using assms(1) False by (cases ?it) (simp_all add: Ldr_Fixup_def Let_def)
  obtain mm where mm: "fixup_loop (ld_mem s) elf ?l nxt (ld_mmu s) = Some mm"
    using assms(1) False nxt
    by (cases "fixup_loop (ld_mem s) elf ?l nxt (ld_mmu s)") (simp_all add: Ldr_Fixup_def Let_def)
  then show ?thesis using nxt False assms(2,3) by (intro exI [of _ mm]) (simp add: Ldr_Fixup_def Let_def)
qed

lemma small_request_ok:
  assumes "table_ok tab" "unat n \<le> 2 ^ 20" "n \<noteq> 0"
  shows "request_ok name n tab"
proof -
  have "region_ok (region_of name tab)" using assms(1) by (rule table_okD)
  then have "unat (pageSize (region_of name tab)) \<le> 31" by (simp add: region_ok_def)
  then have "page_bytes (region_of name tab) \<le> 2 ^ 31"
    unfolding page_bytes_def by (rule power_increasing) simp
  then show ?thesis using assms(2,3) by (simp add: request_ok_def word_gt_0)
qed

lemma table_sizes:
  "unat (KvtSizeof MAX_IMAGES) = sizeof_Kvt + 2 ^ (8 + 1) * sizeof_ListHead + 2 ^ 8 * sizeof_Kvp"
  "unat (KvtSizeof MAX_NAME_SPACES) = sizeof_Kvt + 2 ^ (9 + 1) * sizeof_ListHead + 2 ^ 9 * sizeof_Kvp"
  by (rule KvtSizeof_value; simp add: MAX_IMAGES_def MAX_NAME_SPACES_def)+

lemma span_block:
  "kvt_span (unat p) 8 = block p (KvtSizeof MAX_IMAGES)" "kvt_span (unat p) 9 = block p (KvtSizeof MAX_NAME_SPACES)"
  by (simp_all only: kvt_span_def block_def table_sizes add.assoc)

lemma table_requests:
  assumes "table_ok tab"
  shows "request_ok name (KvtSizeof MAX_IMAGES) tab" "request_ok name (KvtSizeof MAX_NAME_SPACES) tab"
proof -
  have "unat (KvtSizeof MAX_IMAGES) = 10264" "unat (KvtSizeof MAX_NAME_SPACES) = 20504"
    by (simp_all only: table_sizes sizeof_Kvt_def sizeof_ListHead_def sizeof_Kvp_def) simp_all
  moreover then have "KvtSizeof MAX_IMAGES \<noteq> 0" "KvtSizeof MAX_NAME_SPACES \<noteq> 0" by auto
  ultimately show "request_ok name (KvtSizeof MAX_IMAGES) tab" "request_ok name (KvtSizeof MAX_NAME_SPACES) tab"
    using assms by (simp_all add: small_request_ok)
qed

lemma construct_table:
  assumes "mem_Region_alloc MEM_REGION_WORKSPACE (KvtSizeof n2) (ld_regions s) = (t, tab')" "t \<noteq> 0" "unat n2 = n" "n \<le> 30"
  obtains h where "ldr_construct n2 s = (unat t, s\<lparr>ld_regions := tab', ld_kvts := h\<rparr>)" "kvt_rep h (unat t) n Map.empty (2 ^ n)"
    "agree_on (- kvt_span (unat t) n) (ld_kvts s) h"
proof -
  obtain h where h: "KvtConstruct n2 (unat t) (ld_kvts s) = (unat t, h)" "kvt_rep h (unat t) n Map.empty (2 ^ n)"
    using KvtConstruct_rep [of "unat t" n2 n] assms(2-4) by (metis unat_eq_zero)
  moreover have "agree_on (- kvt_span (unat t) n) (ld_kvts s) h"
    using KvtConstruct_frame [OF h(1) assms(3,4)] .
  ultimately show thesis using assms(1,2) by (intro that [of h]) (simp_all add: ldr_construct_def)
qed

lemma two_tables:
  assumes ok: "table_ok (ld_regions s)"
    and t1: "mem_Region_alloc MEM_REGION_WORKSPACE (KvtSizeof MAX_IMAGES) (ld_regions s) = (t1, tab1)" "t1 \<noteq> 0"
    and t2: "mem_Region_alloc MEM_REGION_WORKSPACE (KvtSizeof MAX_NAME_SPACES) tab1 = (t2, tab2)" "t2 \<noteq> 0"
  obtains h1 h2 where "ldr_construct MAX_IMAGES s = (unat t1, s\<lparr>ld_regions := tab1, ld_kvts := h1\<rparr>)"
    "ldr_construct MAX_NAME_SPACES (s\<lparr>ld_regions := tab1, ld_kvts := h1, images_table := unat t1\<rparr>) =
       (unat t2, s\<lparr>ld_regions := tab2, ld_kvts := h2, images_table := unat t1\<rparr>)"
    "kvt_rep h2 (unat t1) 8 Map.empty 256" "kvt_rep h2 (unat t2) 9 Map.empty 512"
    "kvt_span (unat t1) 8 \<inter> kvt_span (unat t2) 9 = {}"
proof -
  note r1 = table_requests(1) [OF ok]
  have ok1: "table_ok tab1" using region.alloc_valid [OF ok r1 t1(1)] .
  have "block t1 (KvtSizeof MAX_IMAGES) \<subseteq> taken MEM_REGION_WORKSPACE tab1"
    using region.alloc_fresh [OF ok r1 t1] by simp
  moreover have "block t2 (KvtSizeof MAX_NAME_SPACES) \<inter> taken MEM_REGION_WORKSPACE tab1 = {}"
    using region.alloc_fresh [OF ok1 table_requests(2) [OF ok1] t2] by simp
  ultimately have disj: "kvt_span (unat t1) 8 \<inter> kvt_span (unat t2) 9 = {}" unfolding span_block by auto
  have n8: "unat MAX_IMAGES = 8" and n9: "unat MAX_NAME_SPACES = 9" by (simp_all add: MAX_IMAGES_def MAX_NAME_SPACES_def)
  obtain h1 where h1: "ldr_construct MAX_IMAGES s = (unat t1, s\<lparr>ld_regions := tab1, ld_kvts := h1\<rparr>)"
    "kvt_rep h1 (unat t1) 8 Map.empty (2 ^ 8)"
    using construct_table [OF t1 n8] by auto
  let ?s = "s\<lparr>ld_regions := tab1, ld_kvts := h1, images_table := unat t1\<rparr>"
  have t2': "mem_Region_alloc MEM_REGION_WORKSPACE (KvtSizeof MAX_NAME_SPACES) (ld_regions ?s) = (t2, tab2)" using t2(1) by simp
  obtain h2 where h2: "ldr_construct MAX_NAME_SPACES ?s = (unat t2, ?s\<lparr>ld_regions := tab2, ld_kvts := h2\<rparr>)"
    "kvt_rep h2 (unat t2) 9 Map.empty (2 ^ 9)" "agree_on (- kvt_span (unat t2) 9) (ld_kvts ?s) h2"
    using construct_table [OF t2' t2(2) n9] by auto
  have "kvt_rep h2 (unat t1) 8 Map.empty (2 ^ 8)"
    using h2(3) disj by (intro kvt_rep_cong [OF h1(2)]) (auto simp: agree_on_def)
  then show thesis using h1 h2 disj by (intro that [of h1 h2]) simp_all
qed

lemma Install_regions: "Ldr_Install elf s = Some (r, s') \<Longrightarrow> ld_regions s' = ld_regions s"
  by (auto simp: Ldr_Install_def bind_eq_Some_conv split: if_split_asm)

subsection \<open>Properties\<close>

text \<open>
  C13: starting the loader with a system image in order and room in the two regions sets up
  both tables in disjoint bytes, with the system image installed under its name as the
  only image and with no name space; memory is as before.
\<close>

theorem LoadRtems_starts_loader:
  assumes ok: "table_ok (ld_regions s)" and img: "system_image (ld_mem s) elf ourname bytes"
    and elf: "elf = mem_Region_startAddress MEM_REGION_RTS (ld_regions s)" and fixup: "Ldr_Fixup elf s \<noteq> None"
    and req: "request_ok MEM_REGION_RTS bytes (ld_regions s)"
    and p: "mem_Region_alloc MEM_REGION_RTS bytes (ld_regions s) = (p, tab)" "p \<noteq> 0"
    and t1: "mem_Region_alloc MEM_REGION_WORKSPACE (KvtSizeof MAX_IMAGES) tab = (t1, tab1)" "t1 \<noteq> 0"
    and t2: "mem_Region_alloc MEM_REGION_WORKSPACE (KvtSizeof MAX_NAME_SPACES) tab1 = (t2, tab2)" "t2 \<noteq> 0"
  shows "\<exists>s'. Ldr_LoadRtems ourname s = Some (LDR_SUCCESS, s') \<and>
    loader_ok s' (([key_at (ld_mem s) ourname \<mapsto> elf], 255), (Map.empty, 512)) \<and>
    ld_mem s' = ld_mem s \<and> ld_regions s' = tab2"
proof -
  let ?s0 = "s\<lparr>ld_regions := tab\<rparr>"
  have ok0: "table_ok (ld_regions ?s0)" using region.alloc_valid [OF ok req p(1)] by simp
  have t1': "mem_Region_alloc MEM_REGION_WORKSPACE (KvtSizeof MAX_IMAGES) (ld_regions ?s0) = (t1, tab1)" using t1(1) by simp
  obtain h1 h2 where c: "ldr_construct MAX_IMAGES ?s0 = (unat t1, ?s0\<lparr>ld_regions := tab1, ld_kvts := h1\<rparr>)"
    "ldr_construct MAX_NAME_SPACES (?s0\<lparr>ld_regions := tab1, ld_kvts := h1, images_table := unat t1\<rparr>) =
       (unat t2, ?s0\<lparr>ld_regions := tab2, ld_kvts := h2, images_table := unat t1\<rparr>)"
    and rep: "kvt_rep h2 (unat t1) 8 Map.empty 256" "kvt_rep h2 (unat t2) 9 Map.empty 512"
      "kvt_span (unat t1) 8 \<inter> kvt_span (unat t2) 9 = {}"
    using two_tables [OF ok0 t1' t1(2) t2] .
  let ?s2 = "s\<lparr>ld_regions := tab2, ld_kvts := h2, images_table := unat t1, namespace_table := unat t2\<rparr>"
  obtain mm where mm: "Ldr_Fixup elf ?s2 = Some (?s2\<lparr>ld_mmu := mm\<rparr>)"
    using Fixup_frame [OF fixup, of ?s2] by auto
  obtain nm xs where nm: "Ldr_Name (ld_mem s) elf = Some nm" "nm \<noteq> 0" "cstr (ld_mem s) nm xs" "cstr (ld_mem s) ourname xs"
    and size: "Ldr_Sizeof (ld_mem s) elf = Some bytes" "bytes \<noteq> 0"
    using img by (auto simp: system_image_def)
  have "region_ok (region_of MEM_REGION_RTS (ld_regions s))" using ok by (rule table_okD)
  then have elf0: "elf \<noteq> 0" by (auto simp: elf mem_Region_startAddress_def region_ok_def region_of_def)
  let ?k = "key_at (ld_mem s) ourname"
  have k: "?k = key_at (ld_mem s) nm" by (simp add: key_at_def c_string_cstr [OF nm(3)] c_string_cstr [OF nm(4)])
  have spec: "ldr_spec (ld_mem s) (Install elf) ((Map.empty, 256), (Map.empty, 512)) =
      (LDR_SUCCESS, (([?k \<mapsto> elf], 255), (Map.empty, 512)))"
    by (simp add: nm k on_images_def elf0)
  have "loader_ok (?s2\<lparr>ld_mmu := mm\<rparr>) ((Map.empty, 256), (Map.empty, 512))" using rep by (simp add: loader_ok_def)
  moreover have "named_image (ld_mem s) elf" using nm by (auto simp: named_image_def string_at_def)
  ultimately obtain s' where s': "Ldr_Install elf (?s2\<lparr>ld_mmu := mm\<rparr>) = Some (LDR_SUCCESS, s')" "ld_mem s' = ld_mem s"
    "loader_ok s' (([?k \<mapsto> elf], 255), (Map.empty, 512))"
    using install_step [of "?s2\<lparr>ld_mmu := mm\<rparr>" "ld_mem s", OF _ _ _ spec] by auto
  moreover have "Ldr_LoadRtems ourname s = Ldr_Install elf (?s2\<lparr>ld_mmu := mm\<rparr>)"
    using image_valid [OF img] size p t1(2) t2(2) c mm
    by (simp add: Ldr_LoadRtems_def elf [symmetric] unat_eq_zero)
  moreover have "ld_regions s' = tab2" using Install_regions [OF s'(1)] by simp
  ultimately show ?thesis by simp
qed


text \<open>
  The documented loader: two finite maps, of installed images and of name spaces, the second of
  at most 512 entries. The documentation names no result for \<open>Ldr_Rename\<close>; the code answers
  the new path.
\<close>

type_synonym loader_maps = "(u64 \<Rightarrow> u32 option) \<times> (u64 \<Rightarrow> u32 option)"

fun ldr_doc :: "ram \<Rightarrow> ldr_cmd \<Rightarrow> loader_maps \<Rightarrow> u32 \<times> loader_maps" where
  "ldr_doc m (Assign ns path) (im, nm) =
     (if key_at m ns \<in> dom nm \<or> card (dom nm) \<ge> 512 then (0, (im, nm)) else (path, (im, nm(key_at m ns \<mapsto> path))))"
| "ldr_doc m (Rename ns path) (im, nm) =
     (if key_at m ns \<in> dom nm then (path, (im, nm(key_at m ns \<mapsto> path))) else (0, (im, nm)))"
| "ldr_doc m (Remove ns) (im, nm) =
     (case nm (key_at m ns) of Some path \<Rightarrow> (path, (im, nm(key_at m ns := None))) | None \<Rightarrow> (0, (im, nm)))"
| "ldr_doc m (Lookup nm') (im, nm) = (case im (key_at m nm') of Some elf \<Rightarrow> elf | None \<Rightarrow> 0, (im, nm))"
| "ldr_doc m (Install elf) (im, nm) =
     (let name = the (Ldr_Name m elf) in
      if name = 0 then (LDR_IMAGE_WITHOUT_NAME, (im, nm))
      else if key_at m name \<in> dom im then (LDR_IMAGE_INSTALLED, (im, nm))
      else (LDR_SUCCESS, (im(key_at m name \<mapsto> elf), nm)))"

text \<open>No path and no image is a null pointer, as the documentation of the tables requires.\<close>

fun no_null :: "ldr_cmd \<Rightarrow> bool" where
  "no_null (Assign ns path) = (path \<noteq> 0)"
| "no_null (Rename ns path) = (path \<noteq> 0)"
| "no_null (Remove ns) = True"
| "no_null (Lookup nm) = True"
| "no_null (Install elf) = (elf \<noteq> 0)"

fun is_install :: "ldr_cmd \<Rightarrow> bool" where
  "is_install (Install elf) = True"
| "is_install (Assign ns path) = False"
| "is_install (Rename ns path) = False"
| "is_install (Remove ns) = False"
| "is_install (Lookup nm) = False"

definition has_room :: "loader_state \<Rightarrow> bool" where
  "has_room a \<longleftrightarrow> (case a of ((im, ic), (nm, nc)) \<Rightarrow> finite (dom im) \<and> finite (dom nm) \<and>
     card (dom im) + ic = 256 \<and> card (dom nm) + nc = 512)"

definition maps_of :: "loader_state \<Rightarrow> loader_maps" where
  "maps_of a = (fst (fst a), fst (snd a))"

lemma ldr_doc_step:
  assumes room: "has_room a" and x: "no_null x" and free: "is_install x \<Longrightarrow> card (dom (fst (maps_of a))) < 256"
    and spec: "ldr_spec m x a = (r, a')"
  shows "ldr_doc m x (maps_of a) = (r, maps_of a') \<and> has_room a' \<and>
    card (dom (fst (maps_of a'))) \<le> card (dom (fst (maps_of a))) + (if is_install x then 1 else 0)"
proof -
  obtain im ic nm nc where a: "a = ((im, ic), (nm, nc))" by (metis surj_pair)
  have fin: "finite (dom im)" "finite (dom nm)" and cap: "card (dom im) + ic = 256" "card (dom nm) + nc = 512"
    using room by (simp_all add: has_room_def a)
  have names: "has_room ((im, ic), (nm', nc'))" if "kv_spec y (nm, nc) = (q, nm', nc')" "no_zero y" for y q nm' nc'
    using kv_spec_capacity [OF fin(2) that(2,1)] fin cap by (simp add: has_room_def)
  have images: "has_room ((im', ic'), (nm, nc))" if "kv_spec y (im, ic) = (q, im', ic')" "no_zero y" for y q im' ic'
    using kv_spec_capacity [OF fin(1) that(2,1)] fin cap by (simp add: has_room_def)
  show ?thesis
  proof (cases x)
    case (Assign ns path)
    obtain q nm' nc' where k: "kv_spec (Ins (key_at m ns) path) (nm, nc) = (q, nm', nc')" by (metis surj_pair)
    have "has_room ((im, ic), (nm', nc'))" using names [OF k] x Assign by (simp add: no_zero_def)
    then show ?thesis using spec k x cap(2) unfolding Assign a
      by (auto simp: on_names_def maps_of_def split: if_splits)
  next
    case (Rename ns path)
    obtain q nm' nc' where k: "kv_spec (Ren (key_at m ns) path) (nm, nc) = (q, nm', nc')" by (metis surj_pair)
    have "has_room ((im, ic), (nm', nc'))" using names [OF k] x Rename by (simp add: no_zero_def)
    then show ?thesis using spec k unfolding Rename a
      by (auto simp: on_names_def maps_of_def split: if_splits)
  next
    case (Remove ns)
    obtain q nm' nc' where k: "kv_spec (Rem (key_at m ns)) (nm, nc) = (q, nm', nc')" by (metis surj_pair)
    have "has_room ((im, ic), (nm', nc'))" using names [OF k] by (simp add: no_zero_def)
    then show ?thesis using spec k unfolding Remove a
      by (auto simp: on_names_def maps_of_def split: option.splits)
  next
    case (Lookup nm')
    then show ?thesis using spec room unfolding Lookup a
      by (auto simp: on_images_def maps_of_def)
  next
    case (Install elf)
    let ?n = "the (Ldr_Name m elf)"
    obtain q im' ic' where k: "kv_spec (Ins (key_at m ?n) elf) (im, ic) = (q, im', ic')" by (metis surj_pair)
    have room': "has_room ((im', ic'), (nm, nc))" using images [OF k] x Install by (simp add: no_zero_def)
    have c: "card (dom im) < 256" using free Install by (simp add: maps_of_def a)
    show ?thesis
    proof (cases "?n = 0")
      case True
      then show ?thesis using spec room unfolding Install a by (auto simp: maps_of_def)
    next
      case False
      have q: "q = (if key_at m ?n \<in> dom im then 0 else elf)" "im' = (if key_at m ?n \<in> dom im then im else im(key_at m ?n \<mapsto> elf))"
        using k c cap(1) x Install by (auto split: if_splits)
      have "r = (if q \<noteq> 0 then LDR_SUCCESS else LDR_IMAGE_INSTALLED)" "a' = ((im', ic'), (nm, nc))"
        using spec False k unfolding Install a by (auto simp: on_images_def Let_def)
      then show ?thesis using q room' False x fin(1) unfolding Install a
        by (auto simp: maps_of_def card_insert_if)
    qed
  qed
qed

lemma ldr_doc_run:
  assumes "has_room a" "\<forall>x \<in> set cmds. no_null x"
    and "card (dom (fst (maps_of a))) + length (filter is_install cmds) \<le> 256"
  shows "spec_run (ldr_doc m) cmds (maps_of a) =
      (fst (spec_run (ldr_spec m) cmds a), maps_of (snd (spec_run (ldr_spec m) cmds a))) \<and>
    has_room (snd (spec_run (ldr_spec m) cmds a))"
  using assms
proof (induction cmds arbitrary: a)
  case Nil
  then show ?case by simp
next
  case (Cons x xs)
  obtain r a1 where s1: "ldr_spec m x a = (r, a1)" by (metis surj_pair)
  have free: "is_install x \<Longrightarrow> card (dom (fst (maps_of a))) < 256" using Cons.prems(3) by simp
  have "no_null x" using Cons.prems(2) by simp
  from ldr_doc_step [OF Cons.prems(1) this free s1]
  have d: "ldr_doc m x (maps_of a) = (r, maps_of a1)" "has_room a1"
    "card (dom (fst (maps_of a1))) \<le> card (dom (fst (maps_of a))) + (if is_install x then 1 else 0)" by blast+
  have "card (dom (fst (maps_of a1))) + length (filter is_install xs) \<le> 256"
    using d(3) Cons.prems(3) by (simp split: if_splits)
  then show ?case using Cons.IH [OF d(2)] Cons.prems(2) s1 d(1) by (auto split: prod.splits)
qed

text \<open>The loader's tables represent two maps and have room up to their capacities.\<close>

definition loader_tables :: "'f loader \<Rightarrow> loader_maps \<Rightarrow> bool" where
  "loader_tables s a \<longleftrightarrow> (\<exists>b. loader_ok s b \<and> has_room b \<and> maps_of b = a)"

text \<open>
  C12: from any state with both tables in order every sequence of assignments, renamings and
  removals of name spaces, look-ups and installations of images ends, and answers as two
  independent finite maps do. No path and no image is a null pointer, each string ends, and the
  installations find room: there are at most 256 with the images installed before.
\<close>

theorem loader_refines_two_maps:
  assumes "loader_tables s (images, names)" and "\<forall>x \<in> set cmds. cmd_ok (ld_mem s) x \<and> no_null x"
    and "card (dom images) + length (filter is_install cmds) \<le> 256"
  shows "\<exists>s'. run_cmds ldr_step cmds s = Some (fst (spec_run (ldr_doc (ld_mem s)) cmds (images, names)), s') \<and>
    ld_mem s' = ld_mem s \<and> loader_tables s' (snd (spec_run (ldr_doc (ld_mem s)) cmds (images, names)))"
proof -
  obtain a where a: "loader_ok s a" "has_room a" "maps_of a = (images, names)"
    using assms(1) by (auto simp: loader_tables_def)
  have "\<forall>x \<in> set cmds. cmd_ok (ld_mem s) x" using assms(2) by blast
  then obtain s' where s': "run_cmds ldr_step cmds s = Some (fst (spec_run (ldr_spec (ld_mem s)) cmds a), s')"
    "ld_mem s' = ld_mem s" "loader_ok s' (snd (spec_run (ldr_spec (ld_mem s)) cmds a))"
    using loader.run_simulates [of s "ld_mem s" a cmds, OF _ _ prod.collapse [symmetric]] a(1) by auto
  have "spec_run (ldr_doc (ld_mem s)) cmds (maps_of a) =
      (fst (spec_run (ldr_spec (ld_mem s)) cmds a), maps_of (snd (spec_run (ldr_spec (ld_mem s)) cmds a))) \<and>
    has_room (snd (spec_run (ldr_spec (ld_mem s)) cmds a))"
    using assms(2,3) a(3) by (intro ldr_doc_run [OF a(2)]) simp_all
  then have d: "spec_run (ldr_doc (ld_mem s)) cmds (images, names) =
      (fst (spec_run (ldr_spec (ld_mem s)) cmds a), maps_of (snd (spec_run (ldr_spec (ld_mem s)) cmds a)))"
    "has_room (snd (spec_run (ldr_spec (ld_mem s)) cmds a))"
    unfolding a(3) by blast+
  then have "loader_tables s' (maps_of (snd (spec_run (ldr_spec (ld_mem s)) cmds a)))"
    unfolding loader_tables_def using s'(3) by blast
  then show ?thesis using s'(1,2) by (simp add: d(1))
qed

text \<open>
  An installation into a full table is refused with \<open>LDR_IMAGE_INSTALLED\<close>, the code of an image
  that is already installed.
\<close>

theorem install_into_full_table:
  assumes "loader_ok s ((images, 0), names)" and "Ldr_Name (ld_mem s) elf = Some nm" and "nm \<noteq> 0"
    and "string_at (ld_mem s) nm" and "key_at (ld_mem s) nm \<notin> dom images"
  shows "\<exists>s'. Ldr_Install elf s = Some (LDR_IMAGE_INSTALLED, s')"
proof -
  have "named_image (ld_mem s) elf" using assms(2,4) by (auto simp: named_image_def)
  moreover have "ldr_spec (ld_mem s) (Install elf) ((images, 0), names) = (LDR_IMAGE_INSTALLED, ((images, 0), names))"
    using assms(2,3,5) by (simp add: on_images_def)
  ultimately show ?thesis using install_step [OF refl assms(1)] by blast
qed

text \<open>
  C14: \<open>Ldr_Map\<close> gives every name of the form \<open>space:file\<close>, whose name space has at least one and at
  most 254 characters and a path, the path followed by the file when the result fits into
  256 bytes with its terminator, and refuses all other names; it always ends and never
  leaves its buffers.
\<close>

theorem Ldr_Map_resolves:
  assumes "loader_ok s (images, (nm, nc))" and "paths_ok (ld_mem s) nm"
    and "cstr (ld_mem s) this xs" and "unat this + length xs < 2 ^ 32" and "length buffer = LDR_MAX_PATH"
  shows "Ldr_Map this buffer s = Some (case split_name xs of
      None \<Rightarrow> None
    | Some (space, file) \<Rightarrow> (case path_at (ld_mem s) (nm (string_hash space)) of
        None \<Rightarrow> None
      | Some path \<Rightarrow> if LDR_MAX_PATH < length path + length file + 1 then None
                     else Some (path @ file @ 0 # drop (length path + length file + 1) buffer)))"
proof -
  have rep: "kvt_rep (ld_kvts s) (namespace_table s) 9 nm nc" using assms(1) by (cases images) (simp add: loader_ok_def)
  show ?thesis
    unfolding Ldr_Map_value [OF rep assms(2-5)] resolve_def
    by (simp split: option.split prod.split add: bind_eq_None_conv)
qed

subsection \<open>Witnesses\<close>

lemma sample_tables: obtains h where "loader_ok (sample_loader m h) ((Map.empty, 256), (Map.empty, 512))"
proof -
  obtain h1 where h1: "kvt_rep h1 0x100000 8 Map.empty (2 ^ 8)" using KvtConstruct_rep [of "0x100000" 8 8] by auto
  obtain h2 where h2: "KvtConstruct 9 0x200000 h1 = (0x200000, h2)" "kvt_rep h2 0x200000 9 Map.empty (2 ^ 9)"
    using KvtConstruct_rep [of "0x200000" 9 9 h1] by auto
  have d: "kvt_span 0x100000 8 \<inter> kvt_span 0x200000 9 = {}"
    by (auto simp: kvt_span_def sizeof_Kvt_def sizeof_ListHead_def sizeof_Kvp_def)
  have "agree_on (- kvt_span 0x200000 9) h1 h2" by (rule KvtConstruct_frame [OF h2(1)]) simp_all
  then have "kvt_rep h2 0x100000 8 Map.empty (2 ^ 8)"
    using d by (intro kvt_rep_cong [OF h1]) (auto simp: agree_on_def)
  then show thesis using h2(2) d by (intro that [of h2]) (simp add: loader_ok_def)
qed

theorem loader_refines_two_maps_witness:
  "\<exists>s s'. run_cmds ldr_step [Assign 0x200 0x100, Rename 0x200 0x300, Lookup 0x200, Remove 0x200, Remove 0x200] s =
     Some ([0x100, 0x300, 0, 0x300, 0], s' :: nat loader)"
proof -
  obtain h where h: "loader_ok (sample_loader sample_ram h) ((Map.empty, 256), (Map.empty, 512))" using sample_tables .
  let ?s = "sample_loader sample_ram h"
  have t: "loader_tables ?s (Map.empty, Map.empty)"
    unfolding loader_tables_def
    by (rule exI [of _ "((Map.empty, 256), (Map.empty, 512))"]) (simp add: h has_room_def maps_of_def)
  let ?cmds = "[Assign 0x200 0x100, Rename 0x200 0x300, Lookup 0x200, Remove 0x200, Remove 0x200]"
  have x: "string_at sample_ram 0x200" using sample_strings(2) unfolding string_at_def by blast
  have "\<forall>x \<in> set ?cmds. cmd_ok (ld_mem ?s) x \<and> no_null x" using x by simp
  from loader_refines_two_maps [OF t this] show ?thesis by auto
qed

theorem Ldr_Map_resolves_witness:
  "\<exists>s. Ldr_Map 0x100 (replicate 256 0) (s :: nat loader) = Some (Some ([0x78, 0x62] @ replicate 254 0))"
proof -
  obtain h where h: "loader_ok (sample_loader sample_ram h) ((Map.empty, 256), (Map.empty, 512))" using sample_tables .
  have "on_names (Ins (string_hash [0x6e]) 0x200) ((Map.empty, 256), (Map.empty, 512)) =
      (0x200, ((Map.empty, 256), ([string_hash [0x6e] \<mapsto> 0x200], 511)))"
    by (simp add: on_names_def)
  from names_step [OF h this]
  obtain h' where h': "loader_ok (sample_loader sample_ram h') ((Map.empty, 256), ([string_hash [0x6e] \<mapsto> 0x200], 511))"
    by (auto simp: sample_loader_def)
  have split: "split_name [0x6e, 0x3a, 0x62] = Some ([0x6e], [0x62])" by (simp add: split_name_def TERMINATE_def LDR_MAX_PATH_def)
  have pok: "paths_ok (ld_mem (sample_loader sample_ram h')) [string_hash [0x6e] \<mapsto> 0x200]"
    by (auto simp: paths_ok_def c_string_cstr [OF sample_strings(2)])
  have str: "cstr (ld_mem (sample_loader sample_ram h')) 0x100 [0x6e, 0x3a, 0x62]" using sample_strings(1) by simp
  have "drop 3 (replicate 256 0) = replicate 253 (0 :: u8)" by simp
  moreover have "replicate 254 (0 :: u8) = 0 # replicate 253 0" by (simp add: numeral_eq_Suc)
  ultimately show ?thesis
    using Ldr_Map_resolves [OF h' pok str, of "replicate 256 0"]
    by (intro exI [of _ "sample_loader sample_ram h'"])
      (simp add: split path_at_def c_string_cstr [OF sample_strings(2)] LDR_MAX_PATH_def numeral_3_eq_3)
qed

lemma loaded_segment_words:
  "ld32 (loaded m) 0x16803c = 0" "ld32 (loaded m) 0x168048 = 4096" "ld32 (loaded m) 0x16804c = 5"
  by (simp_all add: ld32_def loaded_at as_ram_def sample_length) (simp_all add: sample_file_def le_word_def)

lemma loaded_headers:
  "elf_Header_numPhdr (loaded m) 0x168000 = 2" "elf_Header_addrPhdr (loaded m) 0x168000 = 0x168034"
  "phdr_at 0x168034 2 = 0x168074"
  "ldr_iterate anywhere (loaded m) 0x168034 0x168074 = Some 0x168034"
  "ldr_iterate anywhere (loaded m) 0x168054 0x168074 = Some 0x168074"
proof -
  show "elf_Header_numPhdr (loaded m) 0x168000 = 2" "elf_Header_addrPhdr (loaded m) 0x168000 = 0x168034" "phdr_at 0x168034 2 = 0x168074"
    by (simp_all add: elf_Header_numPhdr_def elf_Header_addrPhdr_def elf_Header_offPhdr_def loaded_words phdr_at_def)
  show "ldr_iterate anywhere (loaded m) 0x168034 0x168074 = Some 0x168034"
    "ldr_iterate anywhere (loaded m) 0x168054 0x168074 = Some 0x168074"
    by (subst ldr_iterate.simps, simp add: elf_Pheader_isLoadable_def elf_Pheader_type_def loaded_words)+
qed

lemma loaded_size: "Ldr_Sizeof (loaded m) 0x168000 = Some 4096"
proof -
  have "seek_loop anywhere (loaded m) 0x168074 0x168034 0x168074 = Some 0x168034" by (subst seek_loop.simps) simp
  then show ?thesis
    by (simp add: Ldr_Sizeof_def loaded_headers ldr_seek_size_def elf_Pheader_virtAddr_def elf_Pheader_memSize_def loaded_segment_words)
qed

lemma sample_fixup: "Ldr_Fixup 0x168000 (sample_loader (loaded m) h) \<noteq> None"
proof -
  let ?mm = "\<lparr>words = (\<lambda>_. 0), dacr = 0, ttbr0 = 0x4000, sctlr = 0\<rparr> :: mmu"
  have ok: "tables_ok 0x4000 ?mm" by (simp add: tables_ok_def paged_def stte_def tte_consts)
  have base: "getSectionTable ?mm = 0x4000" by (simp add: getSectionTable_def)
  obtain mm where "mem_setFlags 0x168000 0x169000 (segment_access 5) ?mm = Some mm"
    using setFlags_sets [OF ok, of "0x168000" "0x169000" "unat (0x168000 :: u32)" "unat (0x169000 - 1 :: u32)" "segment_access 5" True]
    by (auto simp: mem_setFlags_def base)
  then have set: "ldr_set (loaded m) 0x168034 0x168000 ?mm = Some (0x168054, mm)"
    by (simp add: ldr_set_def elf_Pheader_virtAddr_def elf_Pheader_memSize_def elf_Pheader_flags_def loaded_segment_words)
  have "fixup_loop (loaded m) 0x168000 0x168074 0x168074 mm = Some mm" by (subst fixup_loop.simps) simp
  then have "fixup_loop (loaded m) 0x168000 0x168074 0x168034 ?mm = Some mm"
    by (subst fixup_loop.simps) (simp add: set loaded_headers)
  then show ?thesis by (simp add: Ldr_Fixup_def loaded_headers Let_def sample_loader_def)
qed

theorem LoadRtems_starts_loader_witness:
  "\<exists>s s'. Ldr_LoadRtems 0x16808d (s :: nat loader) = Some (LDR_SUCCESS, s') \<and>
     loader_ok s' (([string_hash [0x61] \<mapsto> 0x168000], 255), (Map.empty, 512))"
proof -
  define s where "s = sample_loader (loaded sample_ram) kv_empty_heap"
  have ok: "table_ok (ld_regions s)" by (simp add: s_def initial_table_valid)
  have img: "system_image (ld_mem s) 0x168000 0x16808d 4096"
    unfolding system_image_def using loaded_name [of sample_ram] loaded_size [of sample_ram]
    by (intro conjI exI [of _ "0x16808d"] exI [of _ "[0x61]"]) (simp_all add: s_def)
  have elf: "0x168000 = mem_Region_startAddress MEM_REGION_RTS (ld_regions s)"
    by (simp add: s_def mem_Region_startAddress_def mem_RegionTable_def region_def region_constants)
  have req: "request_ok MEM_REGION_RTS 4096 (ld_regions s)" using small_request_ok [OF ok] by simp
  have sizes: "KvtSizeof MAX_IMAGES = 10264" "KvtSizeof MAX_NAME_SPACES = 20504"
    by (simp_all add: KvtSizeof_def SIZEOF_LUT_def SIZEOF_BUF_def LNGTHOF_LUT_def MAX_IMAGES_def MAX_NAME_SPACES_def
        sizeof_Kvt_def sizeof_ListHead_def sizeof_Kvp_def)
  obtain tab where p: "mem_Region_alloc MEM_REGION_RTS 4096 (ld_regions s) = (0x168000, tab)" using sample_alloc by (auto simp: s_def)
  obtain tab1 where t1: "mem_Region_alloc MEM_REGION_WORKSPACE (KvtSizeof MAX_IMAGES) tab = (0x0aa00000, tab1)"
    and t2: "\<exists>tab2. mem_Region_alloc MEM_REGION_WORKSPACE (KvtSizeof MAX_NAME_SPACES) tab1 = (0x0ab00000, tab2)"
    using p by (auto simp: s_def sizes alloc_eval)
  obtain tab2 where t2': "mem_Region_alloc MEM_REGION_WORKSPACE (KvtSizeof MAX_NAME_SPACES) tab1 = (0x0ab00000, tab2)" using t2 by blast
  have "Ldr_Fixup 0x168000 s \<noteq> None" unfolding s_def by (rule sample_fixup)
  moreover have "key_at (ld_mem s) 0x16808d = string_hash [0x61]"
    by (simp add: s_def key_at_def c_string_cstr [OF loaded_name(2)])
  ultimately show ?thesis
    using LoadRtems_starts_loader [OF ok img elf _ req p _ t1 _ t2'] by auto
qed

end
