(* ===== verification/Svt.thy ===== *)
theory Svt
  imports Linker Ldr
begin

text \<open>
  System variable tables (\<^verbatim>\<open>tool/svt/src/Svt.c\<close>, \<^verbatim>\<open>Svt_Stub.c\<close>): up to 32 shareable images whose
  dynamic symbols are looked up by name, in the order of their table numbers. The look-up
  context of a table is a block of eight words inside its image, so it is read and written in
  memory. The static variables of the facility are a record that the state of the images
  extends. The theorems: a translation is a linear search through the resident tables; setting
  up an image makes it such a table; where the facility and the dynamic linker agree.
\<close>

subsection \<open>Status and state\<close>

definition svt_code :: "u32 \<Rightarrow> u32" where "svt_code n = push_bit 16 2 OR n"
definition SVT_SUCCESS :: u32 where "SVT_SUCCESS = 0"
definition SVT_INVALID_TABLE :: u32 where "SVT_INVALID_TABLE = svt_code 1"
definition SVT_DUPLICATE :: u32 where "SVT_DUPLICATE = svt_code 2"
definition SVT_IMAGE_NOT_TABLE :: u32 where "SVT_IMAGE_NOT_TABLE = svt_code 3"

lemmas svt_codes = svt_code_def SVT_SUCCESS_def SVT_INVALID_TABLE_def SVT_DUPLICATE_def SVT_IMAGE_NOT_TABLE_def

definition SVT_MAX_TABLES :: nat where "SVT_MAX_TABLES = 32"

text \<open>The fields of the symbol table block at an address.\<close>

definition STB_nbuckets :: "ram \<Rightarrow> u32 \<Rightarrow> u32" where "STB_nbuckets m stb = ld32 m stb"
definition STB_buckets :: "ram \<Rightarrow> u32 \<Rightarrow> u32" where "STB_buckets m stb = ld32 m (stb + 4)"
definition STB_symbols :: "ram \<Rightarrow> u32 \<Rightarrow> u32" where "STB_symbols m stb = ld32 m (stb + 8)"
definition STB_symndx :: "ram \<Rightarrow> u32 \<Rightarrow> u32" where "STB_symndx m stb = ld32 m (stb + 12)"
definition STB_hashvals :: "ram \<Rightarrow> u32 \<Rightarrow> u32" where "STB_hashvals m stb = ld32 m (stb + 16)"
definition STB_strings :: "ram \<Rightarrow> u32 \<Rightarrow> u32" where "STB_strings m stb = ld32 m (stb + 20)"
definition STB_base :: "ram \<Rightarrow> u32 \<Rightarrow> u32" where "STB_base m stb = ld32 m (stb + 24)"

lemmas STB_fields =
  STB_nbuckets_def STB_buckets_def STB_symbols_def STB_symndx_def STB_hashvals_def STB_strings_def STB_base_def

record svt =
  resident :: u32
  stbs :: "u32 list"

definition svt_initial :: svt where
  "svt_initial = \<lparr>resident = 0, stbs = replicate SVT_MAX_TABLES 0\<rparr>"

subsection \<open>Translating a symbol in one table\<close>

definition svt_hash :: "ram \<Rightarrow> u32 \<Rightarrow> u32 option" where
  "svt_hash m symbol = gnu_hash_loop m symbol 5381"

text \<open>The loop over a chain: whether \<^verbatim>\<open>strcmp\<close> gives 0 is \<open>elf_stringeq\<close>.\<close>

partial_function (option) svt_chain :: "ram \<Rightarrow> u32 \<Rightarrow> u32 \<Rightarrow> u32 \<Rightarrow> u32 \<Rightarrow> u32 \<Rightarrow> u32 option" where
  "svt_chain m this stb hash symbol hashval =
     (let expected = ld32 m hashval; nm = STB_strings m stb + elf_Symbol_nameIndex m symbol in
      if hash = expected AND NOT 1
      then do {
        eq \<leftarrow> elf_stringeq m this nm;
        if eq then Some (STB_base m stb + elf_Symbol_value m symbol)
        else if expected AND 1 \<noteq> 0 then Some 0
        else svt_chain m this stb hash (symbol + 16) (hashval + 4) }
      else if expected AND 1 \<noteq> 0 then Some 0
      else svt_chain m this stb hash (symbol + 16) (hashval + 4))"

definition svt_translate :: "ram \<Rightarrow> u32 \<Rightarrow> u32 \<Rightarrow> u32 option" where
  "svt_translate m this stb = do {
     hash \<leftarrow> svt_hash m this;
     if STB_nbuckets m stb = 0 then None
     else let index = ld32 m (STB_buckets m stb + 4 * (hash mod STB_nbuckets m stb)) in
       if index = 0 then Some 0
       else svt_chain m this stb (hash AND NOT 1) (symbol_at (STB_symbols m stb) index)
              (STB_hashvals m stb + 4 * (index - STB_symndx m stb)) }"

subsection \<open>The search list\<close>

text \<open>\<^verbatim>\<open>__builtin_ffsl\<close>: one more than the index of the lowest bit set, 0 when there is none.\<close>

definition builtin_ffsl :: "u32 \<Rightarrow> nat" where
  "builtin_ffsl w = (case find (bit w) [0 ..< 32] of None \<Rightarrow> 0 | Some i \<Rightarrow> Suc i)"

definition BITCLR :: "nat \<Rightarrow> u32 \<Rightarrow> u32" where "BITCLR field w = w AND NOT (push_bit field 1)"

lemma ffsl_bit:
  assumes "w \<noteq> 0"
  obtains i where "builtin_ffsl w = Suc i" and "i < 32" and "bit w i" and "\<And>j. j < i \<Longrightarrow> \<not> bit w j"
proof -
  obtain k where "bit w k" "k < 32" using assms bit_imp_le_length [of w] by (auto simp: bit_eq_iff)
  then have "find (bit w) [0 ..< 32] \<noteq> None" by (auto simp: find_None_iff)
  then obtain i where "find (bit w) [0 ..< 32] = Some i" by blast
  with that show ?thesis by (auto simp: builtin_ffsl_def find_Some_iff)
qed

lemma bit_BITCLR: "bit (BITCLR i w) j \<longleftrightarrow> bit w j \<and> j \<noteq> i"
  using bit_imp_le_length [of w j] by (auto simp: BITCLR_def bit_simps)

lemma BITCLR_less: "bit w i \<Longrightarrow> unat (BITCLR i w) < unat w"
proof -
  assume b: "bit w i"
  have "BITCLR i w \<noteq> w" using b bit_BITCLR [of i w i] by auto
  moreover have "BITCLR i w \<le> w" by (simp add: BITCLR_def word_and_le2)
  ultimately show ?thesis by (simp add: word_less_nat_alt [symmetric])
qed

function svt_search :: "ram \<Rightarrow> u32 \<Rightarrow> u32 list \<Rightarrow> u32 \<Rightarrow> u32 option" where
  "svt_search m symbol stbv left =
     (if left \<noteq> 0
      then let stb = builtin_ffsl left - 1; left = BITCLR stb left in do {
        val \<leftarrow> svt_translate m symbol (stbv ! stb);
        if val \<noteq> 0 then Some val else svt_search m symbol stbv left }
      else Some 0)"
  by auto
termination
proof (relation "measure (\<lambda>(_, _, _, r). unat r)", goal_cases)
  case (2 m symbol stbv left stb rest val)
  then show ?case by (elim ffsl_bit) (simp add: BITCLR_less)
qed simp

declare svt_search.simps [simp del]

definition Svt_Translate :: "u32 \<Rightarrow> u32 \<Rightarrow> ram \<Rightarrow> 'x svt_scheme \<Rightarrow> u32 option" where
  "Svt_Translate symbol search_list m s = svt_search m symbol (stbs s) (resident s AND search_list)"

subsection \<open>Setting up and installing a table\<close>

text \<open>
  \<open>svt_convert\<close> gives the block, or 0, and the memory; the functions that find a segment and an
  entry of the dynamic section are those of the loader, which the source repeats.
\<close>

definition svt_convert :: "u32 \<Rightarrow> u32 \<Rightarrow> ram \<Rightarrow> (u32 \<times> ram) option" where
  "svt_convert stb elf m =
     (let base = Ldr_Offset m elf; segment = ldr_segment PT_DYNAMIC m elf in
      if segment = 0 then Some (0, m)
      else let vector = base + elf_Pheader_virtAddr m segment in do {
        element \<leftarrow> ldr_element DT_STRTAB m vector;
        if element = 0 then Some (0, m)
        else let strings = base + elf_Dynamic_value m element in do {
          element \<leftarrow> ldr_element DT_SYMTAB m vector;
          if element = 0 then Some (0, m)
          else let symbols = base + elf_Dynamic_value m element in do {
            element \<leftarrow> ldr_element DT_GNU_HASH m vector;
            if element = 0 then Some (0, m)
            else
              let m = st32 (stb + 20) strings m;
                  m = st32 (stb + 8) symbols m;
                  hash = base + elf_Dynamic_value m element;
                  nb = ld32 m hash; hash = hash + 4;
                  m = st32 stb nb m;
                  m = st32 (stb + 12) (ld32 m hash) m; hash = hash + 4;
                  bloomsize = ld32 m hash; hash = hash + 4;
                  hash = hash + 4;
                  hash = hash + 4 * bloomsize;
                  m = st32 (stb + 4) hash m;
                  hash = hash + 4 * nb;
                  m = st32 (stb + 16) hash m;
                  m = st32 (stb + 24) base m
              in Some (stb, m) } } })"

text \<open>Storing outside of \<^verbatim>\<open>_stbs\<close> is \<open>None\<close>; the table number is not checked.\<close>

definition Svt_Setup :: "u32 \<Rightarrow> u32 \<Rightarrow> u32 \<Rightarrow> ram \<Rightarrow> 'x svt_scheme \<Rightarrow> (u32 \<times> ram \<times> 'x svt_scheme) option" where
  "Svt_Setup table elf stb m s = do {
     (stbc, m) \<leftarrow> svt_convert stb elf m;
     if stbc = 0 then Some (SVT_IMAGE_NOT_TABLE, m, s)
     else if unat table < length (stbs s)
     then Some (SVT_SUCCESS, m, s\<lparr>stbs := (stbs s)[unat table := stbc], resident := resident s OR push_bit (unat table) 1\<rparr>)
     else None }"

text \<open>The prelude function of an image linked with the stub, whose block is at \<open>stb\<close>.\<close>

definition stub_prelude :: "u32 \<Rightarrow> u32 \<Rightarrow> u32 \<Rightarrow> 'x svt_scheme world \<Rightarrow> (u32 \<times> 'x svt_scheme world) option" where
  "stub_prelude stb table elf w = do {
     (r, m, s) \<leftarrow> Svt_Setup table elf stb (mem w) (ldr w);
     Some (r, w\<lparr>mem := m, ldr := s\<rparr>) }"

definition Svt_Install ::
    "'x svt_scheme system \<Rightarrow> u32 \<Rightarrow> u32 \<Rightarrow> 'x svt_scheme world \<Rightarrow> (u32 \<times> 'x svt_scheme world) option" where
  "Svt_Install sys table nm w =
     (if table > of_nat SVT_MAX_TABLES - 1 then Some (SVT_INVALID_TABLE, w)
      else if push_bit (unat table) 1 AND resident (ldr w) \<noteq> 0 then Some (SVT_DUPLICATE, w)
      else do {
        (_, status, _, w) \<leftarrow> lnk_load sys nm table w;
        Some (status, w) })"

subsection \<open>A translation is a linear search\<close>

text \<open>
  A block agrees with a GNU hash table and a load address; the value of a name in a table is
  that of the first hashed symbol of the name.
\<close>

definition STB_of :: "ram \<Rightarrow> u32 \<Rightarrow> elf_GnuHasher \<Rightarrow> u32 \<Rightarrow> bool" where
  "STB_of m stb hsh base \<longleftrightarrow>
     STB_nbuckets m stb = nbuckets hsh \<and> STB_buckets m stb = buckets hsh \<and> STB_symbols m stb = g_symtab hsh \<and>
     STB_symndx m stb = symndx hsh \<and> STB_hashvals m stb = hashes hsh \<and> STB_strings m stb = g_stringtab hsh \<and>
     STB_base m stb = base"

definition table_value :: "ram \<Rightarrow> elf_GnuHasher \<Rightarrow> u32 \<Rightarrow> u8 list list \<Rightarrow> u8 list \<Rightarrow> u32" where
  "table_value m hsh base names nm =
     (case find (\<lambda>i. names ! i = nm) [0 ..< length names] of None \<Rightarrow> 0 | Some i \<Rightarrow> base + elf_Symbol_value m (gnu_sym hsh i))"

lemma svt_chain_step:
  assumes ok: "gnu_symbols m hsh names" and stb: "STB_of m stb hsh base" and nm: "cstr m this nm" and i: "i < length names"
  shows "svt_chain m this stb (gnu_hash nm AND NOT 1) (gnu_sym hsh i) (hashes hsh + 4 * of_nat i) =
    (if names ! i = nm then Some (base + elf_Symbol_value m (gnu_sym hsh i))
     else if gnu_word m hsh i AND 1 \<noteq> 0 then Some 0
     else svt_chain m this stb (gnu_hash nm AND NOT 1) (gnu_sym hsh (Suc i)) (hashes hsh + 4 * of_nat (Suc i)))"
proof -
  have w: "ld32 m (hashes hsh + 4 * of_nat i) = gnu_word m hsh i" by (simp add: gnu_word_def)
  have f: "STB_base m stb = base" "STB_strings m stb = g_stringtab hsh" using stb by (simp_all add: STB_of_def)
  have eq: "elf_stringeq m this (g_stringtab hsh + elf_Symbol_nameIndex m (gnu_sym hsh i)) = Some (nm = names ! i)"
    using ok nm i by (simp add: gnu_symbols_def elf_Symbol_name_def elf_stringeq_cstr)
  have h: "names ! i = nm \<Longrightarrow> gnu_hash nm AND NOT 1 = gnu_word m hsh i AND NOT 1"
    using ok i by (auto simp: gnu_symbols_def)
  have nxt: "gnu_sym hsh i + 16 = gnu_sym hsh (Suc i)" "hashes hsh + 4 * of_nat i + 4 = hashes hsh + 4 * of_nat (Suc i)"
    by (simp_all add: gnu_sym_def symbol_at_def algebra_simps)
  show ?thesis
    using h by (subst svt_chain.simps) (auto simp only: w f eq nxt Let_def bind.simps simp_thms if_True if_False split: if_splits)
qed

lemma svt_chain_run:
  assumes ok: "gnu_symbols m hsh names" and stb: "STB_of m stb hsh base" and nm: "cstr m this nm"
  shows "gnu_run m hsh names a e \<Longrightarrow>
    svt_chain m this stb (gnu_hash nm AND NOT 1) (gnu_sym hsh a) (hashes hsh + 4 * of_nat a) =
      Some (case find (\<lambda>i. names ! i = nm) [a ..< Suc e] of
        None \<Rightarrow> 0 | Some i \<Rightarrow> base + elf_Symbol_value m (gnu_sym hsh i))"
proof (induction "e - a" arbitrary: a)
  case (0 a)
  then have "a = e" "a < length names" "gnu_word m hsh a AND 1 \<noteq> 0" by (simp_all add: gnu_run_def)
  then show ?case by (subst svt_chain_step [OF assms]) simp_all
next
  case (Suc d a)
  then have lt: "a < e" and run: "gnu_run m hsh names (Suc a) e" "a < length names" "gnu_word m hsh a AND 1 = 0"
    by (simp_all add: gnu_run_def)
  have "[a ..< Suc e] = a # [Suc a ..< Suc e]" using lt by (intro upt_conv_Cons) simp
  moreover have "d = e - Suc a" using Suc.hyps(2) by simp
  ultimately show ?case
    using Suc.hyps(1) [OF _ run(1)] run(2,3) by (subst svt_chain_step [OF assms]) simp_all
qed

lemma svt_translate_value:
  assumes tab: "gnu_table m hsh names" and stb: "STB_of m stb hsh base" and nm: "cstr m this nm"
  shows "svt_translate m this stb = Some (table_value m hsh base names nm)"
proof -
  let ?h = "gnu_hash nm"
  have f: "STB_nbuckets m stb = nbuckets hsh" "STB_buckets m stb = buckets hsh" "STB_symbols m stb = g_symtab hsh"
    "STB_symndx m stb = symndx hsh" "STB_hashvals m stb = hashes hsh"
    using stb by (simp_all add: STB_of_def)
  have hash: "svt_hash m this = Some ?h" using elf_GnuHasher_hash_cstr [OF nm] by (simp add: svt_hash_def elf_GnuHasher_hash_def)
  have nb: "nbuckets hsh \<noteq> 0" and syms: "gnu_symbols m hsh names" using tab by (simp_all add: gnu_table_def)
  note t = tab [unfolded gnu_table_def, THEN conjunct2, THEN conjunct2, THEN spec [of _ ?h]]
  note open_it = svt_translate_def hash f table_value_def gnu_bucket_def Let_def
  show ?thesis
  proof (cases "gnu_bucket m hsh ?h = 0")
    case True
    then have "find (\<lambda>i. names ! i = nm) [0 ..< length names] = None" using t by (auto simp: find_None_iff)
    then show ?thesis using nb True by (simp add: open_it)
  next
    case False
    then obtain a e where b: "gnu_bucket m hsh ?h = symndx hsh + of_nat a" and run: "gnu_run m hsh names a e"
      and all: "\<forall>i < length names. gnu_hash (names ! i) mod nbuckets hsh = ?h mod nbuckets hsh \<longrightarrow> a \<le> i \<and> i \<le> e"
      using t by (metis (full_types))
    have ae: "a \<le> Suc e" "Suc e \<le> length names" using run by (simp_all add: gnu_run_def)
    have "find (\<lambda>i. names ! i = nm) [0 ..< length names] = find (\<lambda>i. names ! i = nm) [a ..< Suc e]"
      using all ae by (intro find_range) (auto simp: less_Suc_eq_le)
    moreover have "symbol_at (g_symtab hsh) (symndx hsh + of_nat a) = gnu_sym hsh a"
      "hashes hsh + 4 * (symndx hsh + of_nat a - symndx hsh) = hashes hsh + 4 * of_nat a"
      by (simp_all add: gnu_sym_def)
    ultimately show ?thesis
      using nb False b svt_chain_run [OF syms stb nm run] by (simp add: open_it)
  qed
qed

text \<open>The tables of a search list in ascending order, and the first value other than 0.\<close>

definition tables_of :: "u32 \<Rightarrow> nat list" where "tables_of w = filter (bit w) [0 ..< SVT_MAX_TABLES]"

definition first_value :: "u32 list \<Rightarrow> u32" where
  "first_value vs = (case find (\<lambda>v. v \<noteq> 0) vs of None \<Rightarrow> 0 | Some v \<Rightarrow> v)"

lemma tables_of_0 [simp]: "tables_of 0 = []"
  by (simp add: tables_of_def)

lemma tables_of_step:
  assumes "builtin_ffsl w = Suc i" and "i < 32" and "bit w i" and "\<And>j. j < i \<Longrightarrow> \<not> bit w j"
  shows "tables_of w = i # tables_of (BITCLR i w)"
proof -
  have split: "[0 ..< SVT_MAX_TABLES] = [0 ..< i] @ i # [Suc i ..< 32]"
    using assms(2) upt_add_eq_append [of 0 i "32 - i"] by (simp add: SVT_MAX_TABLES_def upt_conv_Cons)
  have "filter (bit w) [0 ..< i] = []" "filter (bit (BITCLR i w)) [0 ..< i] = []"
    using assms(4) by (auto simp: filter_empty_conv bit_BITCLR)
  moreover have "filter (bit (BITCLR i w)) [Suc i ..< 32] = filter (bit w) [Suc i ..< 32]"
    by (intro filter_cong) (auto simp: bit_BITCLR)
  ultimately show ?thesis using assms(3) by (simp add: tables_of_def split bit_BITCLR)
qed

lemma first_value_Cons: "first_value (v # vs) = (if v \<noteq> 0 then v else first_value vs)"
  by (simp add: first_value_def)

lemma svt_search_value:
  assumes "\<And>i. i \<in> set (tables_of w) \<Longrightarrow> svt_translate m this (stbv ! i) = Some (val i)"
  shows "svt_search m this stbv w = Some (first_value (map val (tables_of w)))"
  using assms
proof (induction "unat w" arbitrary: w rule: less_induct)
  case less
  show ?case
  proof (cases "w = 0")
    case True
    then show ?thesis by (simp add: svt_search.simps first_value_def)
  next
    case False
    then obtain i where i: "builtin_ffsl w = Suc i" "i < 32" "bit w i" "\<And>j. j < i \<Longrightarrow> \<not> bit w j" by (rule ffsl_bit) blast
    note step = tables_of_step [OF i]
    have "svt_search m this stbv (BITCLR i w) = Some (first_value (map val (tables_of (BITCLR i w))))"
      using less.prems by (intro less.hyps BITCLR_less i) (simp add: step)
    moreover have "svt_translate m this (stbv ! i) = Some (val i)" using less.prems by (simp add: step)
    ultimately show ?thesis using False i(1) by (subst svt_search.simps) (simp add: step first_value_Cons)
  qed
qed

subsection \<open>Setting up a table\<close>

text \<open>The bytes of a block, and those a look-up in a GNU hash table reads.\<close>

definition STB_bytes :: "u32 \<Rightarrow> u32 set" where
  "STB_bytes stb = (\<Union>k \<in> {0, 4, 8, 12, 16, 20, 24}. word_bytes (stb + k))"

definition gnu_words :: "elf_GnuHasher \<Rightarrow> nat \<Rightarrow> u32 set" where
  "gnu_words hsh n = range (\<lambda>h. buckets hsh + 4 * (h mod nbuckets hsh)) \<union>
     range (\<lambda>h. bloom hsh + 4 * (drop_bit 5 h AND (maskwords hsh - 1))) \<union>
     (\<Union>i < n. {hashes hsh + 4 * of_nat i, gnu_sym hsh i, gnu_sym hsh i + 4})"

definition string_bytes :: "u32 \<Rightarrow> nat \<Rightarrow> u32 set" where
  "string_bytes p n = (\<lambda>j. p + of_nat j) ` {.. n}"

definition gnu_bytes :: "ram \<Rightarrow> elf_GnuHasher \<Rightarrow> u8 list list \<Rightarrow> u32 set" where
  "gnu_bytes m hsh names = (\<Union>a \<in> gnu_words hsh (length names). word_bytes a) \<union>
     (\<Union>i < length names. string_bytes (elf_Symbol_name m (gnu_sym hsh i) (g_stringtab hsh)) (length (names ! i)))"

lemma cstr_same: "same_outside W m m' \<Longrightarrow> string_bytes p (length xs) \<inter> W = {} \<Longrightarrow> cstr m' p xs = cstr m p xs"
proof (induction xs arbitrary: p)
  case Nil
  then show ?case by (auto simp: same_outside_def string_bytes_def)
next
  case (Cons x xs)
  have "string_bytes (p + 1) (length xs) \<subseteq> string_bytes p (length (x # xs))"
  proof
    fix a assume "a \<in> string_bytes (p + 1) (length xs)"
    then obtain j where "j \<le> length xs" "a = p + 1 + of_nat j" by (auto simp: string_bytes_def)
    then show "a \<in> string_bytes p (length (x # xs))"
      by (auto simp: string_bytes_def algebra_simps intro!: image_eqI [where x = "Suc j"])
  qed
  then have "cstr m' (p + 1) xs = cstr m (p + 1) xs" using Cons by blast
  moreover have "p \<in> string_bytes p (length (x # xs))" by (auto simp: string_bytes_def intro!: image_eqI [where x = 0])
  then have "m' p = m p" using Cons.prems by (auto simp: same_outside_def)
  ultimately show ?case by simp
qed

lemma gnu_reads:
  assumes "same_outside W m m'" and "gnu_bytes m hsh names \<inter> W = {}"
  shows "gnu_bucket m' hsh h = gnu_bucket m hsh h" and "gnu_bloom_word m' hsh h = gnu_bloom_word m hsh h"
    and "i < length names \<Longrightarrow> gnu_word m' hsh i = gnu_word m hsh i"
    and "i < length names \<Longrightarrow> elf_Symbol_nameIndex m' (gnu_sym hsh i) = elf_Symbol_nameIndex m (gnu_sym hsh i)"
    and "i < length names \<Longrightarrow> elf_Symbol_value m' (gnu_sym hsh i) = elf_Symbol_value m (gnu_sym hsh i)"
proof -
  have rd: "ld32 m' a = ld32 m a" if "a \<in> gnu_words hsh (length names)" for a
    using assms that by (intro ld32_same [OF assms(1)]) (auto simp: gnu_bytes_def)
  show "gnu_bucket m' hsh h = gnu_bucket m hsh h" "gnu_bloom_word m' hsh h = gnu_bloom_word m hsh h"
    unfolding gnu_bucket_def gnu_bloom_word_def by (rule rd; simp add: gnu_words_def)+
  show "i < length names \<Longrightarrow> gnu_word m' hsh i = gnu_word m hsh i"
    "i < length names \<Longrightarrow> elf_Symbol_nameIndex m' (gnu_sym hsh i) = elf_Symbol_nameIndex m (gnu_sym hsh i)"
    "i < length names \<Longrightarrow> elf_Symbol_value m' (gnu_sym hsh i) = elf_Symbol_value m (gnu_sym hsh i)"
    unfolding gnu_word_def elf_Symbol_nameIndex_def elf_Symbol_value_def by (rule rd; force simp: gnu_words_def)+
qed

lemma gnu_table_same:
  assumes same: "same_outside W m m'" and apart: "gnu_bytes m hsh names \<inter> W = {}"
  shows "gnu_table m' hsh names = gnu_table m hsh names"
proof -
  have syms: "gnu_symbols m' hsh names = gnu_symbols m hsh names"
  proof -
    have "cstr m' (elf_Symbol_name m (gnu_sym hsh i) (g_stringtab hsh)) (names ! i) =
        cstr m (elf_Symbol_name m (gnu_sym hsh i) (g_stringtab hsh)) (names ! i)" if "i < length names" for i
      by (rule cstr_same [OF same]) (use apart that in \<open>auto simp: gnu_bytes_def\<close>)
    then show ?thesis unfolding gnu_symbols_def
      using gnu_reads [OF same apart] by (simp add: elf_Symbol_name_def cong: all_cong)
  qed
  have "gnu_run m' hsh names a e = gnu_run m hsh names a e" for a e
  proof (cases "e < length names")
    case True
    then have "gnu_word m' hsh i = gnu_word m hsh i" if "i \<le> e" for i using that by (intro gnu_reads(3) [OF same apart]) simp
    then show ?thesis by (simp add: gnu_run_def)
  qed (simp add: gnu_run_def)
  then show ?thesis unfolding gnu_table_def by (simp add: syms gnu_reads(1) [OF same apart])
qed

lemma gnu_bytes_same:
  assumes "same_outside W m m'" and "gnu_bytes m hsh names \<inter> W = {}"
  shows "gnu_bytes m' hsh names = gnu_bytes m hsh names"
  using gnu_reads(4) [OF assms] by (simp add: gnu_bytes_def elf_Symbol_name_def)

text \<open>
  What the dynamic section of an image says: the entry of the hash table, the address of the
  table and the table. Nothing when an entry is missing.
\<close>

definition image_hasher :: "ram \<Rightarrow> u32 \<Rightarrow> (u32 \<times> u32 \<times> elf_GnuHasher) option" where
  "image_hasher m elf =
     (let base = Ldr_Offset m elf; segment = ldr_segment PT_DYNAMIC m elf; vector = base + elf_Pheader_virtAddr m segment in
      if segment = 0 then None
      else do {
        strings \<leftarrow> ldr_element DT_STRTAB m vector;
        symbols \<leftarrow> ldr_element DT_SYMTAB m vector;
        ent \<leftarrow> ldr_element DT_GNU_HASH m vector;
        let hash = base + elf_Dynamic_value m ent;
        if strings = 0 \<or> symbols = 0 \<or> ent = 0 then None
        else Some (ent, hash,
          elf_GnuHasher_init m hash (base + elf_Dynamic_value m symbols) (base + elf_Dynamic_value m strings)) })"

text \<open>The words that are read between the stores into the block.\<close>

definition late_reads :: "u32 \<Rightarrow> u32 \<Rightarrow> u32 set" where
  "late_reads ent hash = word_bytes (ent + 4) \<union> word_bytes hash \<union> word_bytes (hash + 4) \<union> word_bytes (hash + 8)"

lemma ld32_st32_apart: "word_bytes b \<inter> word_bytes a = {} \<Longrightarrow> ld32 (st32 a w m) b = ld32 m b"
  by (rule ld32_same [OF same_outside_st32 [OF subset_refl]])


lemma field_apart:
  assumes "k \<in> {0, 4, 8, 12, 16, 20, 24}" and "l \<in> {0, 4, 8, 12, 16, 20, 24 :: u32}" and "k \<noteq> l"
  shows "word_bytes (stb + k) \<inter> word_bytes (stb + l) = {}"
proof -
  have "word_bytes (stb + n) = (+) stb ` word_bytes n" for n by (simp add: word_bytes_def add.assoc)
  moreover have "word_bytes k \<inter> word_bytes l = {}"
    using assms by (intro aligned_disjoint) (auto simp: word_aligned_def)
  ultimately show ?thesis by auto
qed

text \<open>Seven stores into the block, in the order of the code.\<close>

definition block_stores :: "u32 \<Rightarrow> elf_GnuHasher \<Rightarrow> u32 \<Rightarrow> ram \<Rightarrow> ram" where
  "block_stores stb hsh base m =
     st32 (stb + 24) base (st32 (stb + 16) (hashes hsh) (st32 (stb + 4) (buckets hsh) (st32 (stb + 12) (symndx hsh)
       (st32 stb (nbuckets hsh) (st32 (stb + 8) (g_symtab hsh) (st32 (stb + 20) (g_stringtab hsh) m))))))"

lemma field_word: "k \<in> {0, 4, 8, 12, 16, 20, 24} \<Longrightarrow> word_bytes (stb + k) \<subseteq> STB_bytes stb"
  by (auto simp: STB_bytes_def)

lemma field_other:
  "k \<in> {0, 4, 8, 12, 16, 20, 24} \<Longrightarrow> l \<in> {0, 4, 8, 12, 16, 20, 24} \<Longrightarrow> k \<noteq> l \<Longrightarrow>
     ld32 (st32 (stb + k) w m) (stb + l) = ld32 m (stb + l)"
  by (rule ld32_st32_apart [OF field_apart]) auto

lemmas field_0 = field_word [of 0 for stb, simplified] field_other [where l = 0, simplified] field_other [where k = 0, simplified]

lemma block_stores_same: "same_outside (STB_bytes stb) m (block_stores stb hsh base m)"
  unfolding block_stores_def
  by (intro same_outside_trans [OF _ same_outside_st32] same_outside_refl field_word field_0(1)) simp_all

lemma block_stores_block: "STB_of (block_stores stb hsh base m) stb hsh base"
  by (simp add: STB_of_def STB_fields block_stores_def field_other field_0(2,3))

lemma convert_block:
  assumes img: "image_hasher m elf = Some (ent, hash, hsh)" and apart: "late_reads ent hash \<inter> STB_bytes stb = {}"
  shows "svt_convert stb elf m = Some (stb, block_stores stb hsh (Ldr_Offset m elf) m)"
proof -
  let ?base = "Ldr_Offset m elf"
  let ?vec = "?base + elf_Pheader_virtAddr m (ldr_segment PT_DYNAMIC m elf)"
  obtain e1 e2 where seg: "ldr_segment PT_DYNAMIC m elf \<noteq> 0"
    and e: "ldr_element DT_STRTAB m ?vec = Some e1" "ldr_element DT_SYMTAB m ?vec = Some e2" "ldr_element DT_GNU_HASH m ?vec = Some ent"
      "e1 \<noteq> 0" "e2 \<noteq> 0" "ent \<noteq> 0"
    and hash: "hash = ?base + ld32 m (ent + 4)"
    and hsh: "hsh = elf_GnuHasher_init m hash (?base + elf_Dynamic_value m e2) (?base + elf_Dynamic_value m e1)"
    using img by (auto simp: image_hasher_def Let_def elf_Dynamic_value_def split: if_splits bind_splits)
  have rd: "ld32 (st32 (stb + k) w m') a = ld32 m' a"
    if "k \<in> {0, 4, 8, 12, 16, 20, 24}" "a \<in> {ent + 4, hash, hash + 4, hash + 8}" for k w m' a
    using apart field_word [OF that(1), of stb] that(2) by (intro ld32_st32_apart) (auto simp: late_reads_def)
  have flds: "nbuckets hsh = ld32 m hash" "symndx hsh = ld32 m (hash + 4)" "buckets hsh = hash + 16 + 4 * ld32 m (hash + 8)"
    "hashes hsh = hash + 16 + 4 * ld32 m (hash + 8) + 4 * ld32 m hash"
    "g_symtab hsh = ?base + elf_Dynamic_value m e2" "g_stringtab hsh = ?base + elf_Dynamic_value m e1"
    by (simp_all add: hsh elf_GnuHasher_init_def Let_def)
  have at: "elf_Dynamic_value m' ent = ld32 m' (ent + 4)" for m' by (simp add: elf_Dynamic_value_def)
  note reads = rd [of _ "ent + 4", simplified] rd [of _ hash, simplified] rd [of _ "hash + 4", simplified]
    rd [of _ "hash + 8", simplified] rd [of 0, simplified]
  have sums: "8 + hash = hash + 8" "16 + hash = hash + 16" by simp_all
  show ?thesis
    by (simp add: svt_convert_def Let_def seg e at reads hash [symmetric] flds block_stores_def sums)
qed

end
