(* ===== verification/SvtTables.thy ===== *)
theory SvtTables
  imports Svt LdrBoot
begin

text \<open>
  The system variable tables as an abstract state: a finite map from table numbers to lists of
  names and values. Sequences of set-ups and translations act on it as on the blocks in memory.
\<close>

subsection \<open>Abstract tables\<close>

type_synonym symbol_list = "(u8 list \<times> u32) list"
type_synonym tables = "nat \<Rightarrow> symbol_list option"

text \<open>The name and the value of each hashed symbol.\<close>

definition table_symbols :: "ram \<Rightarrow> elf_GnuHasher \<Rightarrow> u32 \<Rightarrow> u8 list list \<Rightarrow> symbol_list" where
  "table_symbols m hsh base names = map (\<lambda>i. (names ! i, base + elf_Symbol_value m (gnu_sym hsh i))) [0 ..< length names]"

definition value_in :: "symbol_list \<Rightarrow> u8 list \<Rightarrow> u32" where
  "value_in t nm = (case map_of t nm of None \<Rightarrow> 0 | Some v \<Rightarrow> v)"

definition value_of :: "tables \<Rightarrow> u32 \<Rightarrow> u8 list \<Rightarrow> u32" where
  "value_of T search_list nm =
     first_value (map (\<lambda>i. value_in (the (T i)) nm) (filter (\<lambda>i. T i \<noteq> None) (tables_of search_list)))"

lemma map_of_image_find: "map_of (map (\<lambda>i. (f i, g i)) xs) k = map_option g (find (\<lambda>i. f i = k) xs)"
  by (induction xs) auto

lemma value_in_symbols: "value_in (table_symbols m hsh base names) nm = table_value m hsh base names nm"
  by (simp add: value_in_def table_symbols_def table_value_def map_of_image_find option.case_eq_if option.map_sel)

text \<open>
  An image: its header, its block and its symbols, or nothing for an image that is no table. All
  the code reads of it, apart from the block, is outside of the set \<open>W\<close> of the bytes of all blocks.
\<close>

type_synonym svt_image = "u32 \<times> u32 \<times> symbol_list option"

definition blocks :: "svt_image list \<Rightarrow> u32 set" where
  "blocks I = (\<Union>(elf, stb, t) \<in> set I. STB_bytes stb)"

definition table_image :: "ram \<Rightarrow> u32 set \<Rightarrow> u32 \<Rightarrow> u32 \<Rightarrow> symbol_list \<Rightarrow> bool" where
  "table_image m W elf stb t \<longleftrightarrow> stb \<noteq> 0 \<and>
     (\<exists>ent hash hsh. late_reads ent hash \<inter> W = {} \<and>
        (\<forall>m'. same_outside W m m' \<longrightarrow> image_hasher m' elf = Some (ent, hash, hsh) \<and> Ldr_Offset m' elf = Ldr_Offset m elf \<and>
           gnu_table m' hsh (map fst t) \<and> table_symbols m' hsh (Ldr_Offset m elf) (map fst t) = t))"

definition no_table_image :: "ram \<Rightarrow> u32 set \<Rightarrow> u32 \<Rightarrow> u32 \<Rightarrow> bool" where
  "no_table_image m W elf stb \<longleftrightarrow> (\<forall>m'. same_outside W m m' \<longrightarrow> svt_convert stb elf m' = Some (0, m'))"

definition images_ok :: "ram \<Rightarrow> svt_image list \<Rightarrow> bool" where
  "images_ok m I \<longleftrightarrow>
     (\<forall>(elf, stb, t) \<in> set I. case t of Some t \<Rightarrow> table_image m (blocks I) elf stb t | None \<Rightarrow> no_table_image m (blocks I) elf stb) \<and>
     (\<forall>x \<in> set I. \<forall>y \<in> set I. x \<noteq> y \<longrightarrow> STB_bytes (fst (snd x)) \<inter> STB_bytes (fst (snd y)) = {})"

subsection \<open>Commands\<close>

text \<open>A set-up names a table and an image by its index; a translation a string and a search list.\<close>

datatype svt_cmd = Set_up u32 nat | Translate u32 u32

type_synonym svt_state = "ram \<times> svt"

fun svt_step :: "svt_image list \<Rightarrow> svt_cmd \<Rightarrow> svt_state \<Rightarrow> (u32 \<times> svt_state) option" where
  "svt_step I (Set_up table k) (m, s) = (case I ! k of (elf, stb, _) \<Rightarrow> Svt_Setup table elf stb m s)"
| "svt_step I (Translate symbol search_list) (m, s) =
     do { r \<leftarrow> Svt_Translate symbol search_list m s; Some (r, (m, s)) }"

fun svt_spec :: "ram \<Rightarrow> svt_image list \<Rightarrow> svt_cmd \<Rightarrow> tables \<Rightarrow> u32 \<times> tables" where
  "svt_spec m I (Set_up table k) T = (case I ! k of
       (_, _, Some t) \<Rightarrow> (SVT_SUCCESS, T(unat table \<mapsto> t))
     | (_, _, None) \<Rightarrow> (SVT_IMAGE_NOT_TABLE, T))"
| "svt_spec m I (Translate symbol search_list) T = (value_of T search_list (the (c_string m symbol)), T)"

fun svt_cmd_ok :: "ram \<Rightarrow> svt_image list \<Rightarrow> svt_cmd \<Rightarrow> bool" where
  "svt_cmd_ok m I (Set_up table k) \<longleftrightarrow> unat table < SVT_MAX_TABLES \<and> k < length I"
| "svt_cmd_ok m I (Translate symbol search_list) \<longleftrightarrow>
     (\<exists>nm. cstr m symbol nm \<and> string_bytes symbol (length nm) \<inter> blocks I = {})"

text \<open>
  The state represents the tables: only blocks have changed since the memory was \<open>m0\<close>, and each
  resident table is the block of an image, filled with its hash table.
\<close>

definition svt_block :: "ram \<Rightarrow> svt_image list \<Rightarrow> ram \<Rightarrow> u32 \<Rightarrow> symbol_list \<Rightarrow> bool" where
  "svt_block m0 I m stb t \<longleftrightarrow> (\<exists>elf ent hash hsh. (elf, stb, Some t) \<in> set I \<and>
     image_hasher m0 elf = Some (ent, hash, hsh) \<and> STB_of m stb hsh (Ldr_Offset m0 elf))"

definition svt_rep :: "ram \<Rightarrow> svt_image list \<Rightarrow> svt_state \<Rightarrow> tables \<Rightarrow> bool" where
  "svt_rep m0 I = (\<lambda>(m, s) T. images_ok m0 I \<and> same_outside (blocks I) m0 m \<and> length (stbs s) = SVT_MAX_TABLES \<and>
     (\<forall>i. bit (resident s) i = (T i \<noteq> None)) \<and> (\<forall>i t. T i = Some t \<longrightarrow> svt_block m0 I m (stbs s ! i) t))"

lemma STB_same: "same_outside W m m' \<Longrightarrow> STB_bytes stb \<inter> W = {} \<Longrightarrow> STB_of m' stb hsh base = STB_of m stb hsh base"
proof -
  assume a: "same_outside W m m'" "STB_bytes stb \<inter> W = {}"
  have "ld32 m' (stb + k) = ld32 m (stb + k)" if "k \<in> {0, 4, 8, 12, 16, 20, 24}" for k
    using a(2) field_word [OF that, of stb] by (intro ld32_same [OF a(1)]) blast
  from this [of 0] this [of 4] this [of 8] this [of 12] this [of 16] this [of 20] this [of 24]
  show ?thesis by (simp add: STB_of_def STB_fields)
qed

lemma block_in_blocks: "(elf, stb, t) \<in> set I \<Longrightarrow> STB_bytes stb \<subseteq> blocks I"
  by (auto simp: blocks_def)

lemma imageD:
  assumes "images_ok m0 I" and "(elf, stb, Some t) \<in> set I"
  obtains ent hash hsh where "stb \<noteq> 0" "late_reads ent hash \<inter> blocks I = {}" "image_hasher m0 elf = Some (ent, hash, hsh)"
    "\<And>m'. same_outside (blocks I) m0 m' \<Longrightarrow> image_hasher m' elf = Some (ent, hash, hsh) \<and> Ldr_Offset m' elf = Ldr_Offset m0 elf \<and>
       gnu_table m' hsh (map fst t) \<and> table_symbols m' hsh (Ldr_Offset m0 elf) (map fst t) = t"
proof -
  have "table_image m0 (blocks I) elf stb t" using assms by (auto simp: images_ok_def)
  then show ?thesis using that same_outside_refl [of "blocks I" m0] unfolding table_image_def by (metis (no_types, lifting))
qed

text \<open>A resident table translates as its list of symbols does.\<close>

lemma block_translates:
  assumes ok: "images_ok m0 I" and same: "same_outside (blocks I) m0 m" and b: "svt_block m0 I m stb t" and nm: "cstr m symbol nm"
  shows "svt_translate m symbol stb = Some (value_in t nm)"
proof -
  obtain elf ent hash hsh where x: "(elf, stb, Some t) \<in> set I" "image_hasher m0 elf = Some (ent, hash, hsh)"
    and blk: "STB_of m stb hsh (Ldr_Offset m0 elf)"
    using b by (auto simp: svt_block_def)
  have "gnu_table m hsh (map fst t) \<and> table_symbols m hsh (Ldr_Offset m0 elf) (map fst t) = t"
  proof (rule imageD [OF ok x(1)])
    fix ent' hash' hsh'
    assume h: "image_hasher m0 elf = Some (ent', hash', hsh')"
    assume "\<And>m'. same_outside (blocks I) m0 m' \<Longrightarrow> image_hasher m' elf = Some (ent', hash', hsh') \<and>
      Ldr_Offset m' elf = Ldr_Offset m0 elf \<and> gnu_table m' hsh' (map fst t) \<and>
      table_symbols m' hsh' (Ldr_Offset m0 elf) (map fst t) = t"
    from this [OF same] show ?thesis using x(2) h by simp
  qed
  then have "gnu_table m hsh (map fst t)" and "table_symbols m hsh (Ldr_Offset m0 elf) (map fst t) = t" by blast+
  then show ?thesis using svt_translate_value [OF _ blk nm] value_in_symbols [of m hsh "Ldr_Offset m0 elf" "map fst t" nm] by simp
qed

lemma setup_keeps_blocks:
  assumes ok: "images_ok m0 I" and x: "(elf, stb, Some t) \<in> set I" and hsh: "image_hasher m0 elf = Some (ent, hash, hsh)"
    and b: "svt_block m0 I m stb' t'"
  shows "svt_block m0 I (block_stores stb hsh (Ldr_Offset m0 elf) m) stb' t'"
proof -
  let ?m = "block_stores stb hsh (Ldr_Offset m0 elf) m"
  obtain elf' ent' hash' hsh' where y: "(elf', stb', Some t') \<in> set I" "image_hasher m0 elf' = Some (ent', hash', hsh')"
    and blk: "STB_of m stb' hsh' (Ldr_Offset m0 elf')"
    using b by (auto simp: svt_block_def)
  have "STB_of ?m stb' hsh' (Ldr_Offset m0 elf')"
  proof (cases "(elf', stb', Some t') = (elf, stb, Some t)")
    case True
    then show ?thesis using y(2) hsh block_stores_block by auto
  next
    case False
    then have "STB_bytes stb' \<inter> STB_bytes stb = {}" using ok x y(1) by (fastforce simp: images_ok_def)
    then show ?thesis using blk STB_same [OF block_stores_same] by blast
  qed
  then show ?thesis using y by (auto simp: svt_block_def)
qed

lemma setup_step:
  assumes rep: "svt_rep m0 I (m, s) T" and lt: "unat table < SVT_MAX_TABLES" and k: "k < length I"
    and spec: "svt_spec m0 I (Set_up table k) T = (r, T')"
  shows "\<exists>st'. svt_step I (Set_up table k) (m, s) = Some (r, st') \<and> svt_rep m0 I st' T'"
proof -
  obtain elf stb t where x: "I ! k = (elf, stb, t)" by (metis prod_cases3)
  then have mem: "(elf, stb, t) \<in> set I" using k by (metis nth_mem)
  have ok: "images_ok m0 I" and same: "same_outside (blocks I) m0 m" and len: "length (stbs s) = SVT_MAX_TABLES"
    and bits: "bit (resident s) i = (T i \<noteq> None)" and blk: "T i = Some u \<Longrightarrow> svt_block m0 I m (stbs s ! i) u" for i u
    using rep by (simp_all add: svt_rep_def)
  show ?thesis
  proof (cases t)
    case None
    then have "no_table_image m0 (blocks I) elf stb" using ok mem by (auto simp: images_ok_def)
    then show ?thesis using spec rep same None x by (auto simp: no_table_image_def Svt_Setup_def)
  next
    case (Some u)
    let ?m = "\<lambda>hsh. block_stores stb hsh (Ldr_Offset m0 elf) m"
    obtain ent hash hsh where stb: "stb \<noteq> 0" and apart: "late_reads ent hash \<inter> blocks I = {}"
      and h0: "image_hasher m0 elf = Some (ent, hash, hsh)"
      and h: "image_hasher m elf = Some (ent, hash, hsh)" "Ldr_Offset m elf = Ldr_Offset m0 elf"
      using imageD [OF ok mem [unfolded Some]] same by metis
    have sub: "STB_bytes stb \<subseteq> blocks I" by (rule block_in_blocks [OF mem])
    have conv: "svt_convert stb elf m = Some (stb, ?m hsh)"
      using convert_block [OF h(1)] apart sub h(2) by auto
    have set: "Svt_Setup table elf stb m s = Some (SVT_SUCCESS, ?m hsh,
        s\<lparr>stbs := (stbs s)[unat table := stb], resident := resident s OR push_bit (unat table) 1\<rparr>)"
      using conv stb lt len by (simp add: Svt_Setup_def)
    have new: "svt_block m0 I (?m hsh) stb u"
      using mem Some h0 block_stores_block by (auto simp: svt_block_def)
    have old: "T i = Some v \<Longrightarrow> svt_block m0 I (?m hsh) (stbs s ! i) v" for i v
      using setup_keeps_blocks [OF ok mem [unfolded Some] h0] blk by blast
    have same': "same_outside (blocks I) m0 (?m hsh)"
      using same_outside_trans [OF same same_outside_mono [OF block_stores_same sub]] .
    have T': "r = SVT_SUCCESS" "T' = T(unat table \<mapsto> u)" using spec x Some by simp_all
    have "bit (resident s OR push_bit (unat table) 1) i = (T' i \<noteq> None)" for i
      using bits [of i] lt by (auto simp: T' bit_simps SVT_MAX_TABLES_def)
    moreover have "T' i = Some v \<Longrightarrow> svt_block m0 I (?m hsh) ((stbs s)[unat table := stb] ! i) v" for i v
      using new old len lt by (cases "i = unat table") (auto simp: T')
    ultimately show ?thesis using set ok same' len x T'(1) by (auto simp: svt_rep_def)
  qed
qed

lemma translate_step:
  assumes rep: "svt_rep m0 I (m, s) T" and nm: "cstr m0 symbol nm" "string_bytes symbol (length nm) \<inter> blocks I = {}"
  shows "Svt_Translate symbol search_list m s = Some (value_of T search_list nm)"
proof -
  have ok: "images_ok m0 I" and same: "same_outside (blocks I) m0 m"
    and bits: "bit (resident s) i = (T i \<noteq> None)" and blk: "T i = Some u \<Longrightarrow> svt_block m0 I m (stbs s ! i) u" for i u
    using rep by (simp_all add: svt_rep_def)
  have nm': "cstr m symbol nm" using cstr_same [OF same nm(2)] nm(1) by simp
  let ?w = "resident s AND search_list"
  have tabs: "tables_of ?w = filter (\<lambda>i. T i \<noteq> None) (tables_of search_list)"
    unfolding tables_of_def filter_filter by (intro filter_cong) (auto simp: bit_and_iff bits)
  have "svt_search m symbol (stbs s) ?w = Some (first_value (map (\<lambda>i. value_in (the (T i)) nm) (tables_of ?w)))"
  proof (rule svt_search_value)
    fix i assume "i \<in> set (tables_of ?w)"
    then obtain u where "T i = Some u" by (auto simp: tabs)
    then show "svt_translate m symbol (stbs s ! i) = Some (value_in (the (T i)) nm)"
      using block_translates [OF ok same blk nm'] by simp
  qed
  then show ?thesis by (simp add: Svt_Translate_def value_of_def tabs)
qed

lemma svt_step_spec:
  assumes rep: "svt_rep m0 I st T" and ok: "svt_cmd_ok m0 I x" and spec: "svt_spec m0 I x T = (r, T')"
  shows "\<exists>st'. svt_step I x st = Some (r, st') \<and> svt_rep m0 I st' T'"
proof -
  obtain m s where st: "st = (m, s)" by (cases st)
  show ?thesis
  proof (cases x)
    case (Set_up table k)
    then show ?thesis using setup_step rep ok spec by (simp add: st)
  next
    case (Translate symbol search_list)
    then obtain nm where nm: "cstr m0 symbol nm" "string_bytes symbol (length nm) \<inter> blocks I = {}" using ok by auto
    then have "r = value_of T search_list nm" "T' = T" using spec Translate c_string_cstr by auto
    then show ?thesis using translate_step [OF _ nm] rep Translate by (simp add: st)
  qed
qed

text \<open>The tables as a simulation of commands, for a fixed set of images.\<close>

interpretation tables: command_simulation "svt_rep m0 I" "svt_step I" "svt_spec m0 I" "svt_cmd_ok m0 I" for m0 I
  by unfold_locales (rule svt_step_spec)

text \<open>
  C15: every sequence of set-ups and translations ends and answers as a map from table numbers
  to lists of symbols does: a set-up replaces one table by the symbols of the image and
  leaves the other tables alone, and an image without a table is refused; a translation gives
  the first value other than 0 among the tables of the search list. The memory changes in
  the blocks of the images only.
\<close>

theorem svt_refines_tables:
  assumes "svt_rep m0 I st T" and "\<forall>x \<in> set cmds. svt_cmd_ok m0 I x"
  shows "\<exists>st'. run_cmds (svt_step I) cmds st = Some (fst (spec_run (svt_spec m0 I) cmds T), st') \<and>
    svt_rep m0 I st' (snd (spec_run (svt_spec m0 I) cmds T)) \<and> same_outside (blocks I) m0 (fst st')"
  using tables.run_simulates [OF assms prod.collapse [symmetric]] by (auto simp: svt_rep_def)

text \<open>
  A translation gives the value that the resident tables of the search list have for the
  name, the tables taken in ascending order and each searched linearly: the first value other
  than 0, or 0 when no table has one. In particular it ends.
\<close>

theorem translate_searches_in_order:
  assumes "cstr m symbol nm"
    and "\<And>i. bit (resident s AND search_list) i \<Longrightarrow> gnu_table m (hsh i) (names i) \<and> STB_of m (stbs s ! i) (hsh i) (base i)"
  shows "Svt_Translate symbol search_list m s =
    Some (first_value (map (\<lambda>i. table_value m (hsh i) (base i) (names i) nm) (tables_of (resident s AND search_list))))"
  unfolding Svt_Translate_def
  by (intro svt_search_value svt_translate_value [OF _ _ assms(1)]) (use assms(2) in \<open>simp_all add: tables_of_def\<close>)

subsection \<open>An image with one symbol\<close>

text \<open>
  An image at \<open>0x1000\<close> with the symbol \<^verbatim>\<open>a\<close>, its block at \<open>0x1400\<close>, and one at \<open>0x2000\<close> without a
  dynamic segment.
\<close>

definition svt_ram :: ram where
  "svt_ram = st32 0x1300 0x6100 (st32 0x1010 3 (st32 0x101c 0x34 (st32 0x102c 2 (st32 0x1034 2 (st32 0x103c 0x80
     (st32 0x1000 0x464c457f (st32 0x1004 0x10101 (st32 0x1028 0x34 (st32 0x1054 1
     (st32 0x1080 5 (st32 0x1084 0x300 (st32 0x1088 6 (st32 0x108c 0x200 (st32 0x1090 0x6ffffef5 (st32 0x1094 0x100
     (st32 0x1100 1 (st32 0x1104 1 (st32 0x1108 1 (st32 0x1110 0xffffffff (st32 0x1114 1 (st32 0x1118 0x2b607
     (st32 0x1210 1 (st32 0x1214 0x40 (st32 0x121c 0x10012 (\<lambda>_. 0)))))))))))))))))))))))))"

definition svt_images :: "svt_image list" where
  "svt_images = [(0x1000, 0x1400, Some [([0x61], 0x1040)]), (0x2000, 0x1420, None)]"

definition sample_hasher :: elf_GnuHasher where
  "sample_hasher = \<lparr>nbuckets = 1, symndx = 1, maskwords = 1, shift2 = 0, bloom = 0x1110, buckets = 0x1114,
     hashes = 0x1118, g_stringtab = 0x1300, g_symtab = 0x1200\<rparr>"

lemma sample_blocks: "a \<in> blocks svt_images \<Longrightarrow> 0x1400 \<le> a \<and> a < 0x1440"
  by (auto simp: blocks_def svt_images_def STB_bytes_def word_bytes_def)

lemma sample_rams:
  assumes "same_outside (blocks svt_images) svt_ram m"
  shows "a < 0x1400 \<Longrightarrow> m a = svt_ram a" and "0x1440 \<le> a \<Longrightarrow> m a = svt_ram a"
proof -
  have "a \<notin> blocks svt_images \<Longrightarrow> m a = svt_ram a" using assms by (simp add: same_outside_def)
  then show "a < 0x1400 \<Longrightarrow> m a = svt_ram a" "0x1440 \<le> a \<Longrightarrow> m a = svt_ram a"
    using sample_blocks [of a] by fastforce+
qed

lemma sample_ld32:
  assumes "same_outside (blocks svt_images) svt_ram m"
  shows "a < 0x1400 - 3 \<Longrightarrow> ld32 m a = ld32 svt_ram a"
proof -
  assume a: "a < 0x1400 - 3"
  then have "unat a < 0x13fd" by (simp add: word_less_nat_alt)
  then have "a + 1 < 0x1400" "a + 2 < 0x1400" "a + 3 < 0x1400" "a < 0x1400"
    by (simp_all add: word_less_nat_alt unat_word_ariths)
  then show ?thesis by (simp add: ld32_def sample_rams [OF assms])
qed

lemma svt_ram_words:
  "ld32 svt_ram 0x101c = 0x34" "ld32 svt_ram 0x1034 = 2" "ld32 svt_ram 0x103c = 0x80"
  "ld32 svt_ram 0x1080 = 5" "ld32 svt_ram 0x1084 = 0x300" "ld32 svt_ram 0x1088 = 6" "ld32 svt_ram 0x108c = 0x200"
  "ld32 svt_ram 0x1090 = 0x6ffffef5" "ld32 svt_ram 0x1094 = 0x100" "ld32 svt_ram 0x1100 = 1" "ld32 svt_ram 0x1104 = 1"
  "ld32 svt_ram 0x1108 = 1" "ld32 svt_ram 0x110c = 0" "ld32 svt_ram 0x1110 = 0xffffffff" "ld32 svt_ram 0x1114 = 1"
  "ld32 svt_ram 0x1118 = 0x2b607" "ld32 svt_ram 0x1210 = 1" "ld32 svt_ram 0x1214 = 0x40"
  "ld32 svt_ram 0x1054 = 1" "ld32 svt_ram 0x105c = 0" "ld32 svt_ram 0x1098 = 0"
  unfolding svt_ram_def by (simp_all add: ld32_st32_other word_aligned_def) (simp_all add: ld32_def)

lemma svt_ram_parts: "svt_ram 0x1000 = 0x7f" "svt_ram 0x1001 = 0x45" "svt_ram 0x1002 = 0x4c" "svt_ram 0x1003 = 0x46"
  "svt_ram 0x1004 = 1" "svt_ram 0x1006 = 1" "ld16 svt_ram 0x1028 = 0x34" "svt_ram 0 = 0" "ld16 svt_ram 0x1010 = 3" "ld16 svt_ram 0x102c = 2" "svt_ram 0x1301 = 0x61" "svt_ram 0x1302 = 0" "ld16 svt_ram 0x121e = 1"
  by (simp_all add: ld16_def le_half_def svt_ram_def st32_def)

lemma table_words:
  assumes "same_outside (blocks svt_images) svt_ram m"
  shows "ld16 m 0x1010 = 3" "ld32 m 0x101c = 0x34" "ld16 m 0x102c = 2" "ld32 m 0x1034 = 2" "ld32 m 0x103c = 0x80"
    "ld32 m 0x1080 = 5" "ld32 m 0x1084 = 0x300" "ld32 m 0x1088 = 6" "ld32 m 0x108c = 0x200" "ld32 m 0x1090 = 0x6ffffef5"
    "ld32 m 0x1094 = 0x100" "ld32 m 0x1100 = 1" "ld32 m 0x1104 = 1" "ld32 m 0x1108 = 1" "ld32 m 0x110c = 0" "ld32 m 0x1110 = 0xffffffff"
    "ld32 m 0x1114 = 1" "ld32 m 0x1118 = 0x2b607" "ld32 m 0x1210 = 1" "ld32 m 0x1214 = 0x40" "m 0x1301 = 0x61" "m 0x1302 = 0"
    "ld16 m 0x202c = 0" "ld16 m 0x121e = 1" "ld16 m 0x1028 = 0x34" "ld32 m 0x1054 = 1" "ld32 m 0x105c = 0" "ld32 m 0x1098 = 0"
    "m 0x1000 = 0x7f" "m 0x1001 = 0x45" "m 0x1002 = 0x4c" "m 0x1003 = 0x46" "m 0x1004 = 1" "m 0x1006 = 1" "m 0 = 0"
proof -
  have "ld16 m a = ld16 svt_ram a" if "a < 0x13ff \<or> 0x1440 \<le> a \<and> a < 0xffff" for a
  proof -
    have "unat a < 0x13ff \<or> 0x1440 \<le> unat a \<and> unat a < 0xffff" using that by (simp add: word_less_nat_alt word_le_nat_alt)
    then have "a + 1 < 0x1400 \<and> a < 0x1400 \<or> 0x1440 \<le> a \<and> 0x1440 \<le> a + 1"
      by (auto simp: word_less_nat_alt word_le_nat_alt unat_word_ariths)
    then show ?thesis by (auto simp: ld16_def sample_rams [OF assms])
  qed
  then show "ld16 m 0x1010 = 3" "ld16 m 0x102c = 2" "ld16 m 0x202c = 0" "ld16 m 0x121e = 1" "ld16 m 0x1028 = 0x34"
    by (simp_all add: svt_ram_parts) (simp add: ld16_def le_half_def svt_ram_def st32_def)
qed (simp_all add: sample_ld32 [OF assms] svt_ram_words sample_rams [OF assms] svt_ram_parts)

lemma sample_image_hasher:
  assumes "same_outside (blocks svt_images) svt_ram m"
  shows "image_hasher m 0x1000 = Some (0x1090, 0x1100, sample_hasher)" and "Ldr_Offset m 0x1000 = 0x1000"
proof -
  note w = table_words [OF assms]
  show off: "Ldr_Offset m 0x1000 = 0x1000" by (simp add: Ldr_Offset_def elf_Header_type_def w ET_DYN_def)
  have two: "phdr_loop tag m a 2 = phdr_loop tag m a (Suc (Suc 0))" for tag a by (simp only: numeral_2_eq_2)
  have seg: "ldr_segment PT_DYNAMIC m 0x1000 = 0x1034"
    by (simp add: ldr_segment_def elf_Header_addrPhdr_def elf_Header_offPhdr_def elf_Header_numPhdr_def elf_Pheader_type_def PT_DYNAMIC_def w two)
  have el: "ldr_element DT_STRTAB m 0x1080 = Some 0x1080" "ldr_element DT_SYMTAB m 0x1080 = Some 0x1088"
    "ldr_element DT_GNU_HASH m 0x1080 = Some 0x1090"
    by (simp_all add: ldr_element.simps elf_Dynamic_tag_def dyn_tags w sizeof_Element_def)
  show "image_hasher m 0x1000 = Some (0x1090, 0x1100, sample_hasher)"
    by (simp add: image_hasher_def Let_def off seg el elf_Pheader_virtAddr_def elf_Dynamic_value_def w elf_GnuHasher_init_def
        sample_hasher_def)
qed

lemma sample_gnu_table:
  assumes "same_outside (blocks svt_images) svt_ram m"
  shows "gnu_table m sample_hasher [[0x61]]" and "table_symbols m sample_hasher 0x1000 [[0x61]] = [([0x61], 0x1040)]"
proof -
  note w = table_words [OF assms]
  have hash: "gnu_hash [0x61] = 0x2b606" by (simp add: gnu_hash_def)
  have word: "gnu_word m sample_hasher 0 = 0x2b607" "gnu_bucket m sample_hasher h = 1" for h
    by (simp_all add: gnu_word_def gnu_bucket_def sample_hasher_def w)
  have sym: "gnu_sym sample_hasher 0 = 0x1210" by (simp add: gnu_sym_def symbol_at_def sample_hasher_def)
  have sel: "g_stringtab sample_hasher = 0x1300" "bloom sample_hasher = 0x1110" "maskwords sample_hasher = 1" "shift2 sample_hasher = 0"
    by (simp_all add: sample_hasher_def)
  have "gnu_symbols m sample_hasher [[0x61]]"
    by (simp add: gnu_symbols_def hash sym word elf_Symbol_name_def elf_Symbol_nameIndex_def gnu_bloom_word_def gnu_bloom_bits_def sel w)
  then show "gnu_table m sample_hasher [[0x61]]"
    using word by (auto simp: gnu_table_def gnu_run_def sample_hasher_def intro!: exI [of _ "0 :: nat"])
  show "table_symbols m sample_hasher 0x1000 [[0x61]] = [([0x61], 0x1040)]"
    by (simp add: table_symbols_def sym elf_Symbol_value_def w)
qed

lemma sample_rep: "svt_rep svt_ram svt_images (svt_ram, svt_initial) Map.empty"
proof -
  have "table_image svt_ram (blocks svt_images) 0x1000 0x1400 [([0x61], 0x1040)]"
  proof -
    have "\<forall>m. same_outside (blocks svt_images) svt_ram m \<longrightarrow> image_hasher m 0x1000 = Some (0x1090, 0x1100, sample_hasher) \<and>
        Ldr_Offset m 0x1000 = Ldr_Offset svt_ram 0x1000 \<and> gnu_table m sample_hasher (map fst [([0x61], 0x1040 :: u32)]) \<and>
        table_symbols m sample_hasher (Ldr_Offset svt_ram 0x1000) (map fst [([0x61], 0x1040 :: u32)]) = [([0x61], 0x1040)]"
      using sample_image_hasher sample_gnu_table by (simp add: sample_image_hasher(2) [OF same_outside_refl])
    moreover have "late_reads 0x1090 0x1100 \<inter> blocks svt_images = {}"
      using sample_blocks by (fastforce simp: late_reads_def word_bytes_def)
    moreover have "(0x1400 :: u32) \<noteq> 0" by simp
    ultimately show ?thesis unfolding table_image_def by blast
  qed
  moreover have "no_table_image svt_ram (blocks svt_images) 0x2000 0x1420"
  proof -
    have "ldr_segment PT_DYNAMIC m 0x2000 = 0" if "same_outside (blocks svt_images) svt_ram m" for m
      by (simp add: ldr_segment_def elf_Header_numPhdr_def table_words [OF that])
    then show ?thesis by (simp add: no_table_image_def svt_convert_def)
  qed
  moreover have "STB_bytes 0x1400 \<inter> STB_bytes 0x1420 = {}"
  proof -
    have "a < 0x141c" if "a \<in> STB_bytes 0x1400" for a using that by (auto simp: STB_bytes_def word_bytes_def)
    moreover have "0x1420 \<le> a" if "a \<in> STB_bytes 0x1420" for a using that by (auto simp: STB_bytes_def word_bytes_def)
    ultimately have "a \<in> STB_bytes 0x1400 \<Longrightarrow> a \<notin> STB_bytes 0x1420" for a
      using order.strict_trans1 [of "0x1420" a "0x141c"] by fastforce
    then show ?thesis by blast
  qed
  ultimately have "images_ok svt_ram svt_images" by (auto simp: images_ok_def svt_images_def)
  then show ?thesis by (simp add: svt_rep_def same_outside_refl svt_initial_def)
qed

lemma sample_name: "cstr svt_ram 0x1301 [0x61]" "string_bytes 0x1301 (length [0x61 :: u8]) \<inter> blocks svt_images = {}"
proof -
  show "cstr svt_ram 0x1301 [0x61]" by (simp add: svt_ram_parts)
  have "string_bytes 0x1301 (length [0x61 :: u8]) = {0x1301, 0x1302}" by (auto simp: string_bytes_def le_Suc_eq atMost_Suc)
  then show "string_bytes 0x1301 (length [0x61 :: u8]) \<inter> blocks svt_images = {}" using sample_blocks by fastforce
qed

lemma tables_of_one: "i < SVT_MAX_TABLES \<Longrightarrow> tables_of (push_bit i 1) = [i]"
proof -
  assume i: "i < SVT_MAX_TABLES"
  have "filter ((=) i) [0 ..< n] = (if i < n then [i] else [])" for n by (induction n) (auto simp: less_Suc_eq)
  moreover have "filter (bit (push_bit i (1 :: u32))) [0 ..< SVT_MAX_TABLES] = filter ((=) i) [0 ..< SVT_MAX_TABLES]"
    using i by (intro filter_cong) (auto simp: bit_simps SVT_MAX_TABLES_def)
  ultimately show ?thesis using i by (simp add: tables_of_def)
qed

lemma tables_of_3: "tables_of 8 = [3]"
  using tables_of_one [of 3] by (simp add: SVT_MAX_TABLES_def)

theorem svt_refines_tables_witness:
  "\<exists>st. run_cmds (svt_step svt_images) [Translate 0x1301 8, Set_up 3 0, Translate 0x1301 8, Set_up 5 1] (svt_ram, svt_initial) =
     Some ([0, SVT_SUCCESS, 0x1040, SVT_IMAGE_NOT_TABLE], st) \<and> svt_rep svt_ram svt_images st [3 \<mapsto> [([0x61], 0x1040)]]"
proof -
  let ?cmds = "[Translate 0x1301 8, Set_up 3 0, Translate 0x1301 8, Set_up 5 1]"
  have "\<exists>nm. cstr svt_ram 0x1301 nm \<and> string_bytes 0x1301 (length nm) \<inter> blocks svt_images = {}"
    using sample_name by blast
  then have ok: "\<forall>x \<in> set ?cmds. svt_cmd_ok svt_ram svt_images x" by (simp add: SVT_MAX_TABLES_def svt_images_def)
  moreover have "svt_spec svt_ram svt_images (Set_up 3 0) T = (SVT_SUCCESS, T(3 \<mapsto> [([0x61], 0x1040)]))"
    "svt_spec svt_ram svt_images (Set_up 5 1) T = (SVT_IMAGE_NOT_TABLE, T)" for T
    by (simp_all add: svt_images_def)
  moreover have "svt_spec svt_ram svt_images (Translate 0x1301 8) T = (value_of T 8 [0x61], T)" for T
    by (simp add: c_string_cstr [OF sample_name(1)])
  moreover have "value_of Map.empty 8 [0x61] = 0" "value_of [3 \<mapsto> [([0x61], 0x1040)]] 8 [0x61] = 0x1040"
    by (simp_all add: value_of_def tables_of_3 first_value_def value_in_def)
  ultimately have run: "spec_run (svt_spec svt_ram svt_images) ?cmds Map.empty =
      ([0, SVT_SUCCESS, 0x1040, SVT_IMAGE_NOT_TABLE], [3 \<mapsto> [([0x61], 0x1040)]])"
    by (simp only: spec_run.simps Let_def prod.case)
  show ?thesis using svt_refines_tables [OF sample_rep ok] unfolding run fst_conv snd_conv by blast
qed


text \<open>The image set up as table 3.\<close>

definition ready_ram :: ram where "ready_ram = block_stores 0x1400 sample_hasher 0x1000 svt_ram"

definition ready_svt :: svt where
  "ready_svt = \<lparr>resident = 8, stbs = (replicate SVT_MAX_TABLES 0)[3 := 0x1400]\<rparr>"

lemma ready_ram: "same_outside (blocks svt_images) svt_ram ready_ram" "STB_of ready_ram 0x1400 sample_hasher 0x1000"
proof -
  have "STB_bytes 0x1400 \<subseteq> blocks svt_images" by (rule block_in_blocks) (simp add: svt_images_def)
  then show "same_outside (blocks svt_images) svt_ram ready_ram"
    unfolding ready_ram_def by (rule same_outside_mono [OF block_stores_same])
  show "STB_of ready_ram 0x1400 sample_hasher 0x1000" unfolding ready_ram_def by (rule block_stores_block)
qed

lemma ready_name: "cstr ready_ram 0x1301 [0x61]"
  by (simp add: table_words [OF ready_ram(1)])

theorem translate_searches_in_order_witness: "Svt_Translate 0x1301 8 ready_ram ready_svt = Some 0x1040"
proof -
  have "i = 3" if "bit (8 :: u32) i" for i
    using that bit_push_bit_iff [of 3 "1 :: u32" i] by (auto simp: bit_simps)
  then have "gnu_table ready_ram sample_hasher [[0x61]] \<and> STB_of ready_ram (stbs ready_svt ! i) sample_hasher 0x1000"
    if "bit (resident ready_svt AND 8) i" for i
    using that sample_gnu_table(1) [OF ready_ram(1)] ready_ram(2) by (auto simp: ready_svt_def SVT_MAX_TABLES_def)
  then have "Svt_Translate 0x1301 8 ready_ram ready_svt = Some (first_value
      (map (\<lambda>i. table_value ready_ram sample_hasher 0x1000 [[0x61]] [0x61]) (tables_of (resident ready_svt AND 8))))"
    by (rule translate_searches_in_order [OF ready_name])
  moreover have "table_value ready_ram sample_hasher 0x1000 [[0x61]] [0x61] = 0x1040"
    using value_in_symbols [of ready_ram sample_hasher "0x1000" "[[0x61]]" "[0x61]"] sample_gnu_table(2) [OF ready_ram(1)]
    by (simp add: value_in_def)
  ultimately show ?thesis by (simp add: ready_svt_def tables_of_3 first_value_def)
qed

end
