(* ===== verification/SvtLinker.thy ===== *)
theory SvtLinker
  imports SvtTables
begin

text \<open>
  The system variable tables and the dynamic linker: look-ups of the two in the same image, and
  what installing a table, which links an image and everything it needs, does to the tables.
\<close>

subsection \<open>Two look-ups\<close>

text \<open>What the linker finds: only definitions, and absolute symbols are not relocated.\<close>

lemma linker_lookup_value:
  assumes "gnu_table m (gnuHasher obj) names" and "gnuHashtab obj \<noteq> 0" and "cstr m name nm"
  shows "lookup m obj name = Some (let sy = linear_lookup m (gnuHasher obj) names nm in
    if sy \<noteq> 0 then elf_Object_getSymbolValue m obj sy else 0)"
  using gnu_lookup_linear [OF assms(1,3)] assms(2) elf_GnuHasher_hash_cstr [OF assms(3)]
  by (simp add: lookup_def elf_Object_hash_def elf_Object_lookup_def Let_def)

text \<open>
  C17: for an image whose block is filled from its hash table, a translation finds what the
  linker finds, when the symbols of that name are definitions and not absolute.
\<close>

theorem translate_as_linker:
  assumes "gnu_table m (gnuHasher obj) names" and "gnuHashtab obj \<noteq> 0" and "STB_of m stb (gnuHasher obj) (baseAddress obj)"
    and "cstr m name nm"
    and "\<forall>i < length names. names ! i = nm \<longrightarrow> (let sy = gnu_sym (gnuHasher obj) i in
      sy \<noteq> 0 \<and> elf_Symbol_isDefinition m sy \<and> \<not> elf_Symbol_isAbsolute m sy)"
  shows "\<exists>v. svt_translate m name stb = Some v \<and> lookup m obj name = Some v"
proof -
  let ?P = "\<lambda>i. names ! i = nm"
  have "find (\<lambda>i. ?P i \<and> elf_Symbol_isDefinition m (gnu_sym (gnuHasher obj) i)) [0 ..< length names] = find ?P [0 ..< length names]"
    using assms(5) by (intro find_cong) (auto simp: Let_def)
  then have "linear_lookup m (gnuHasher obj) names nm =
      (case find ?P [0 ..< length names] of None \<Rightarrow> 0 | Some i \<Rightarrow> gnu_sym (gnuHasher obj) i)"
    by (simp add: linear_lookup_def)
  moreover have "find ?P [0 ..< length names] = Some i \<Longrightarrow> i < length names \<and> ?P i" for i
    by (auto simp: find_Some_iff)
  ultimately have "lookup m obj name = Some (table_value m (gnuHasher obj) (baseAddress obj) names nm)"
    using assms(5) by (auto simp: linker_lookup_value [OF assms(1,2,4)] table_value_def elf_Object_getSymbolValue_def Let_def
        add.commute split: option.split)
  then show ?thesis using svt_translate_value [OF assms(1,3,4)] by blast
qed

text \<open>An absolute symbol is relocated by a translation, and not by the linker.\<close>

lemma absolute_symbols_differ:
  assumes "gnu_table m (gnuHasher obj) names" and "gnuHashtab obj \<noteq> 0" and "STB_of m stb (gnuHasher obj) (baseAddress obj)"
    and "names = [nm]" and "cstr m name nm" and "sy = gnu_sym (gnuHasher obj) 0" and "sy \<noteq> 0" and "elf_Symbol_isAbsolute m sy"
  shows "svt_translate m name stb = Some (baseAddress obj + elf_Symbol_value m sy)" and "lookup m obj name = Some (elf_Symbol_value m sy)"
proof -
  show "svt_translate m name stb = Some (baseAddress obj + elf_Symbol_value m sy)"
    using svt_translate_value [OF assms(1,3,5)] assms(4,6) by (simp add: table_value_def)
  have "elf_Symbol_isDefinition m sy"
    using assms(8) by (simp add: elf_Symbol_isAbsolute_def elf_Symbol_isDefinition_def SHN_ABS_def SHN_UNDEF_def)
  then have "linear_lookup m (gnuHasher obj) names nm = sy" using assms(4,6) by (simp add: linear_lookup_def)
  then show "lookup m obj name = Some (elf_Symbol_value m sy)"
    using assms(7,8) by (simp add: linker_lookup_value [OF assms(1,2,5)] elf_Object_getSymbolValue_def)
qed

subsection \<open>Installing a table\<close>

text \<open>
  A relation between the private states of the code outside of the linker before and after a
  call that every such call keeps.
\<close>

definition sys_keeps :: "('l \<Rightarrow> 'l \<Rightarrow> bool) \<Rightarrow> 'l system \<Rightarrow> bool" where
  "sys_keeps R sys \<longleftrightarrow>
     (\<forall>so w. R (ldr w) (ldr (snd (ldr_load sys so w)))) \<and> (\<forall>a w. R (ldr w) (ldr (ldr_fixup sys a w))) \<and>
     (\<forall>a w. R (ldr w) (ldr (ldr_install sys a w))) \<and> (\<forall>a w. R (ldr w) (ldr (run_init sys a w))) \<and>
     (\<forall>a p w. R (ldr w) (ldr (snd (run_prefs sys a p w)))) \<and> (\<forall>a p h w. R (ldr w) (ldr (snd (run_prelude sys a p h w))))"

lemma inits_keep:
  assumes "sys_keeps R sys" and "reflp R" and "transp R"
  shows "R (ldr w) (ldr (run_inits sys obj w))"
proof -
  have "R (ldr w) (ldr (fold (\<lambda>i w. run_init sys (f i w) w) is w))" for f :: "nat \<Rightarrow> 'a world \<Rightarrow> u32" and "is" w
  proof (induction "is" arbitrary: w)
    case Nil
    then show ?case using assms(2) by (simp add: reflpD)
  next
    case (Cons i js)
    have "R (ldr w) (ldr (run_init sys (f i w) w))" using assms(1) by (simp add: sys_keeps_def)
    then show ?case using Cons.IH [of "run_init sys (f i w) w"] assms(3) by (auto dest: transpD)
  qed
  then show ?thesis by (simp add: run_inits_def)
qed

lemma prelude_keeps:
  assumes "sys_keeps R sys" and "reflp R" and "transp R" and "run_lnk_prelude sys info p w = Some (st, w')"
  shows "R (ldr w) (ldr w')"
proof -
  obtain q where "lookup (mem w) (elfObject info) (nm_preferences sys) = Some q"
    using assms(4) by (auto simp: run_lnk_prelude_def bind_eq_Some_conv)
  then obtain prefs w1 where w1: "(if q \<noteq> 0 then run_prefs sys q (prefsOverride info) w else (prefsOverride info, w)) = (prefs, w1)"
    and w': "w' = snd (run_prelude sys p prefs (header (elfObject info)) w1)"
    using assms(4) by (cases "if q \<noteq> 0 then run_prefs sys q (prefsOverride info) w else (prefsOverride info, w)")
      (auto simp: run_lnk_prelude_def)
  have "R (ldr w) (ldr (snd (run_prefs sys q (prefsOverride info) w)))" using assms(1) by (simp add: sys_keeps_def)
  then have "R (ldr w) (ldr w1)" using w1 assms(2) by (auto simp: reflpD split: if_splits)
  moreover have "R (ldr w1) (ldr w')" using assms(1) by (simp add: sys_keeps_def w')
  ultimately show ?thesis using assms(3) by (auto dest: transpD)
qed


lemma bind_keeps:
  assumes keeps: "sys_keeps R sys" "reflp R" "transp R" and b: "bind_object sys db dg info w = Some (st, w')"
  shows "R (ldr w) (ldr w')"
proof -
  let ?obj = "elfObject info"
  obtain st1 m1 st2 m2 where r1: "relocate db dg info (reltab ?obj) (numRels ?obj) (mem w) = Some (st1, m1)"
    and r2: "(if is_ok st1 then relocate db dg info (pltReltab ?obj) (numPltRels ?obj) m1 else Some (st1, m1)) = Some (st2, m2)"
    using b by (auto simp: bind_object_def Let_def bind_eq_Some_conv)
  let ?w = "w\<lparr>mem := m2\<rparr>"
  note body = b [unfolded bind_object_def Let_def r1 bind.simps prod.case r2]
  show ?thesis
  proof (cases "is_ok st2")
    case False
    then show ?thesis using body keeps(2) by (auto simp: reflpD)
  next
    case True
    let ?w1 = "run_inits sys ?obj ?w"
    have R1: "R (ldr w) (ldr ?w1)" using inits_keep [OF keeps, of ?w ?obj] by simp
    obtain popts pf st3 w2 where w2: "(if pf \<noteq> 0 then run_lnk_prelude sys info pf ?w1 else Some (LNK_OK, ?w1)) = Some (st3, w2)"
      and rest: "(if st3 \<noteq> LNK_OK then Some (lnk_Status_init1 st3, w2)
        else Some (st_ok, if installable info \<and> (if popts \<noteq> 0 then ld32 (mem ?w1) popts else 0) AND LNK_INSTALL \<noteq> 0
          then ldr_install sys (header ?obj) (ldr_fixup sys (header ?obj) w2) else ldr_fixup sys (header ?obj) w2)) = Some (st, w')"
      using body True by (auto simp: bind_eq_Some_conv)
    have "R (ldr ?w1) (ldr w2)"
      using w2 keeps(2) prelude_keeps [OF keeps, of info pf ?w1 st3 w2] by (auto simp: reflpD split: if_splits)
    then have R2: "R (ldr w) (ldr w2)" using R1 keeps(3) by (blast dest: transpD)
    have R3: "R (ldr w2) (ldr (ldr_fixup sys a w2))" "R (ldr (ldr_fixup sys a w2)) (ldr (ldr_install sys a (ldr_fixup sys a w2)))" for a
      using keeps(1) by (simp_all add: sys_keeps_def)
    then have "R (ldr w2) (ldr w')"
      using rest keeps(2) transpD [OF keeps(3) R3] by (auto simp: reflpD split: if_splits)
    then show ?thesis using R2 keeps(3) by (blast dest: transpD)
  qed
qed

lemma finish_keeps:
  assumes keeps: "sys_keeps R sys" "reflp R" "transp R" and f: "finish_object sys cur i (db, dg, w) = Some (st, db', dg', w')"
  shows "R (ldr w) (ldr w')"
  using f keeps(2) bind_keeps [OF keeps]
  by (auto simp: finish_object_def Let_def bind_eq_Some_conv reflpD split: if_splits)

lemma addNeeded_keeps:
  assumes keeps: "sys_keeps R sys" "reflp R" and a: "lnk_ObjDb_addNeeded sys so db w = Some (st, ix, db', w')"
  shows "R (ldr w) (ldr w')"
proof -
  obtain elf ls w1 where l: "ldr_load sys so w = ((elf, ls), w1)" by (metis surj_pair)
  have "R (ldr w) (ldr (snd (ldr_load sys so w)))" using keeps(1) by (simp add: sys_keeps_def)
  then show ?thesis
    using a keeps(2) by (auto simp: lnk_ObjDb_addNeeded_def Let_def l bind_eq_Some_conv reflpD split: if_splits)
qed

lemma link_keeps:
  assumes "link_from finish sys point s = Some r"
  shows "finish = finish_object sys \<Longrightarrow> sys_keeps R sys \<Longrightarrow> reflp R \<Longrightarrow> transp R \<Longrightarrow> R (ldr (snd (snd s))) (ldr (snd (snd (snd r))))"
  using assms
proof (induction rule: link_from_induct)
  case (step link finish sys point s r)
  obtain db dg w where s: "s = (db, dg, w)" by (rule prod_cases3)
  obtain st db' dg' w' where r: "r = (st, db', dg', w')" by (rule prod_cases4)
  note keeps = step.prems(2-4)
  note IH = step.IH [OF _ step.prems]
  show ?case
  proof (cases point)
    case (Enter cur)
    show ?thesis
      using step.hyps keeps(2) IH
      by (fastforce simp: Enter s r Let_def reflpD split: prod.splits if_splits)
  next
    case (Needed cur i dyn)
    let ?n = "elf_Dynamic_needed (mem w) dyn (dynStringtab (elfObject (db ! i)))"
    note body = step.hyps [unfolded Needed s link_point.case prod.case Let_def]
    consider (last) "elf_Dynamic_isSentinel (mem w) dyn" | (other) "\<not> elf_Dynamic_isSentinel (mem w) dyn" "?n = 0"
      | (needed) "\<not> elf_Dynamic_isSentinel (mem w) dyn" "?n \<noteq> 0"
      by blast
    then show ?thesis
    proof cases
      case last
      then show ?thesis using body step.prems(1) finish_keeps [OF keeps, of cur i db dg w st db' dg' w'] by (simp add: s r)
    next
      case other
      then have "link finish sys (Needed cur i (dyn + 8)) (db, dg, w) = Some r" using body by simp
      then show ?thesis using IH by (fastforce simp: s)
    next
      case needed
      obtain st1 ix db1 w1 where add: "lnk_ObjDb_addNeeded sys ?n db w = Some (st1, ix, db1, w1)"
        using body needed by (auto simp: bind_eq_Some_conv)
      have R1: "R (ldr w) (ldr w1)" by (rule addNeeded_keeps [OF keeps(1,2) add])
      obtain st2 new dg1 where child: "lnk_SearchDag_addChild cur ix dg = (st2, new, dg1)" by (rule prod_cases3)
      show ?thesis
      proof (cases "is_ok st1 \<and> is_ok st2")
        case False
        then show ?thesis using body needed add child R1 by (auto simp: s r split: if_splits)
      next
        case True
        then obtain st3 s3 where sub: "link finish sys (Enter new) (db1, dg1, w1) = Some (st3, s3)"
          and rest: "(if \<not> is_ok st3 then Some (st3, s3) else link finish sys (Needed cur i (dyn + 8)) s3) = Some r"
          using body needed add child by (auto simp: bind_eq_Some_conv)
        have R2: "R (ldr w1) (ldr (snd (snd s3)))" using IH [OF sub] by simp
        have "R (ldr (snd (snd s3))) (ldr w')"
          using rest keeps(2) IH [of "Needed cur i (dyn + 8)" s3 r] by (cases "is_ok st3") (auto simp: r reflpD)
        then show ?thesis using R1 R2 keeps(3) by (auto simp: s r dest: transpD)
      qed
    qed
  qed
qed


text \<open>
  What the tables keep: each resident one has a block. They grow: no table goes away.
\<close>

definition svt_inv :: "'x svt_scheme \<Rightarrow> bool" where
  "svt_inv s \<longleftrightarrow> length (stbs s) = SVT_MAX_TABLES \<and> (\<forall>i. bit (resident s) i \<longrightarrow> stbs s ! i \<noteq> 0)"

definition svt_grows :: "'x svt_scheme \<Rightarrow> 'x svt_scheme \<Rightarrow> bool" where
  "svt_grows s s' \<longleftrightarrow> (svt_inv s \<longrightarrow> svt_inv s') \<and> (\<forall>i. bit (resident s) i \<longrightarrow> bit (resident s') i)"

lemma grows_refl: "reflp svt_grows"
  by (simp add: reflp_def svt_grows_def)

lemma grows_trans: "transp svt_grows"
  by (auto simp: transp_def svt_grows_def)

text \<open>The prelude of an image linked with the stub lets the tables grow, whatever its arguments.\<close>

lemma setup_grows: "Svt_Setup table elf stb m s = Some (r, m', s') \<Longrightarrow> svt_grows s s'"
proof -
  assume "Svt_Setup table elf stb m s = Some (r, m', s')"
  then have "s' = s \<or> (\<exists>b. b \<noteq> 0 \<and> unat table < length (stbs s) \<and>
      s' = s\<lparr>stbs := (stbs s)[unat table := b], resident := resident s OR push_bit (unat table) 1\<rparr>)"
    by (auto simp: Svt_Setup_def bind_eq_Some_conv split: if_splits)
  then show ?thesis
    by (auto simp: svt_grows_def svt_inv_def bit_simps nth_list_update split: if_splits)
qed

lemma stub_grows: "stub_prelude stb table elf w = Some (r, w') \<Longrightarrow> svt_grows (ldr w) (ldr w')"
  by (auto simp: stub_prelude_def bind_eq_Some_conv setup_grows)

text \<open>
  The calls of a system that may change the tables: a prelude function is that of an image which
  is linked with the stub, so it is a returned run of \<open>stub_prelude\<close>, or it does not touch the
  facility, and neither do the loader and the other functions of the images.
\<close>

definition svt_system :: "'x svt_scheme system \<Rightarrow> bool" where
  "svt_system sys \<longleftrightarrow>
     (\<forall>so w. ldr (snd (ldr_load sys so w)) = ldr w) \<and> (\<forall>a w. ldr (ldr_fixup sys a w) = ldr w) \<and>
     (\<forall>a w. ldr (ldr_install sys a w) = ldr w) \<and> (\<forall>a w. ldr (run_init sys a w) = ldr w) \<and>
     (\<forall>a p w. ldr (snd (run_prefs sys a p w)) = ldr w) \<and>
     (\<forall>a table elf w. (\<exists>stb. stub_prelude stb table elf w = Some (run_prelude sys a table elf w)) \<or>
        ldr (snd (run_prelude sys a table elf w)) = ldr w)"

lemma svt_system_keeps: "svt_system sys \<Longrightarrow> sys_keeps svt_grows sys"
proof -
  assume sys: "svt_system sys"
  have "svt_grows (ldr w) (ldr (snd (run_prelude sys a table elf w)))" for a table elf w
  proof -
    have "(\<exists>stb. stub_prelude stb table elf w = Some (run_prelude sys a table elf w)) \<or>
        ldr (snd (run_prelude sys a table elf w)) = ldr w"
      using sys by (simp add: svt_system_def)
    then show ?thesis
      using stub_grows [of _ table elf w "fst (run_prelude sys a table elf w)" "snd (run_prelude sys a table elf w)"]
        reflpD [OF grows_refl] by auto
  qed
  then show ?thesis using sys by (simp add: sys_keeps_def svt_system_def reflpD [OF grows_refl])
qed

lemma load_keeps:
  assumes keeps: "sys_keeps R sys" "reflp R" "transp R" and load: "lnk_load sys nm prefs w = Some (elf, r, st, w')"
  shows "R (ldr w) (ldr w')"
proof -
  obtain a ls w1 where l: "ldr_load sys nm w = ((a, ls), w1)" by (metis surj_pair)
  have "R (ldr w) (ldr (snd (ldr_load sys nm w)))" using keeps(1) by (simp add: sys_keeps_def)
  then have R1: "R (ldr w) (ldr w1)" by (simp add: l)
  consider (out) "w' = w1" | (link) ex db st' db' dg' where "innerLink sys 1 (db, lnk_SearchDag_init 0, w1\<lparr>exidx_tab := ex\<rparr>) = Some (st', db', dg', w')"
    using load by (auto simp: lnk_load_def l bind_eq_Some_conv split: if_splits)
  then show ?thesis
  proof cases
    case out
    then show ?thesis using R1 by simp
  next
    case link
    then have "R (ldr w1) (ldr w')" using link_keeps [OF link [unfolded innerLink_def] refl keeps] by simp
    then show ?thesis using R1 keeps(3) by (blast dest: transpD)
  qed
qed

text \<open>
  C16: installing a table ends, whatever the image depends on, and keeps the tables in order:
  each resident table has a block, and no resident table goes away, also when the link fails and
  when images set up further tables on the way. A table number above 31 and that of a resident
  table are refused without any change. The images are well formed, as for every link; of the
  functions of the images only the preludes change the tables, by \<open>Svt_Setup\<close>.
\<close>

theorem install_keeps_tables:
  assumes "svt_system sys" and "outside_ok P G sys" and "G [] w" and "svt_inv (ldr w)"
  shows "\<exists>r w'. Svt_Install sys table nm w = Some (r, w') \<and> svt_inv (ldr w') \<and>
    (\<forall>i. bit (resident (ldr w)) i \<longrightarrow> bit (resident (ldr w')) i) \<and>
    (SVT_MAX_TABLES \<le> unat table \<longrightarrow> r = SVT_INVALID_TABLE \<and> w' = w) \<and>
    (bit (resident (ldr w)) (unat table) \<longrightarrow> r = SVT_DUPLICATE \<and> w' = w)"
proof -
  have big: "table > of_nat SVT_MAX_TABLES - 1 \<longleftrightarrow> SVT_MAX_TABLES \<le> unat table"
    by (simp add: word_less_nat_alt SVT_MAX_TABLES_def) arith
  have dup: "push_bit (unat table) 1 AND resident (ldr w) \<noteq> 0 \<longleftrightarrow> bit (resident (ldr w)) (unat table)" 
    by (simp add: bit_iff_and_push_bit_not_eq_0 and.commute)
  have none: "\<not> bit (resident (ldr w)) (unat table)" if "SVT_MAX_TABLES \<le> unat table"
    using that bit_imp_le_length [of "resident (ldr w)" "unat table"] by (auto simp: SVT_MAX_TABLES_def)
  obtain elf r st w' where l: "lnk_load sys nm table w = Some (elf, r, st, w')"
    using load_ends [OF assms(2,3)] by blast
  have grows: "svt_grows (ldr w) (ldr w')"
    by (rule load_keeps [OF svt_system_keeps [OF assms(1)] grows_refl grows_trans l])
  show ?thesis
  proof (cases "SVT_MAX_TABLES \<le> unat table \<or> bit (resident (ldr w)) (unat table)")
    case True
    then show ?thesis using big dup none assms(4) by (cases "SVT_MAX_TABLES \<le> unat table") (auto simp: Svt_Install_def)
  next
    case False
    then show ?thesis using big dup l grows assms(4) by (auto simp: Svt_Install_def svt_grows_def)
  qed
qed


subsection \<open>Witnesses\<close>

definition ready_object :: elf_Object where
  "ready_object = (empty_Object 0x1000)\<lparr>gnuHashtab := 0x1100, gnuHasher := sample_hasher, baseAddress := 0x1000\<rparr>"

theorem translate_as_linker_witness:
  "\<exists>v. svt_translate ready_ram 0x1301 0x1400 = Some v \<and> lookup ready_ram ready_object 0x1301 = Some v"
proof -
  have sel: "gnuHasher ready_object = sample_hasher" "gnuHashtab ready_object \<noteq> 0" "baseAddress ready_object = 0x1000"
    by (simp_all add: ready_object_def)
  have "gnu_sym sample_hasher 0 = 0x1210" by (simp add: gnu_sym_def symbol_at_def sample_hasher_def)
  then have "\<forall>i < length [[0x61 :: u8]]. [[0x61]] ! i = [0x61] \<longrightarrow> (let sy = gnu_sym (gnuHasher ready_object) i in
      sy \<noteq> 0 \<and> elf_Symbol_isDefinition ready_ram sy \<and> \<not> elf_Symbol_isAbsolute ready_ram sy)"
    by (simp add: sel elf_Symbol_isDefinition_def elf_Symbol_isAbsolute_def elf_Symbol_section_def SHN_UNDEF_def SHN_ABS_def
        table_words [OF ready_ram(1)])
  then show ?thesis
    using sample_gnu_table(1) [OF ready_ram(1)] ready_ram(2) ready_name
    by (intro translate_as_linker [where names = "[[0x61]]" and nm = "[0x61]"]) (simp_all only: sel not_False_eq_True)
qed

text \<open>
  A system in which every load gives the image at \<open>0x1000\<close>, whose symbol \<^verbatim>\<open>a\<close> is the prelude of
  the stub with the block at \<open>0x1400\<close>.
\<close>

definition svt_world :: "svt world" where
  "svt_world = \<lparr>mem = svt_ram, exidx_tab = (exidxTable\<lparr>tab_start := 0x100000\<rparr>, []), ldr = svt_initial\<rparr>"

definition stub_system :: "svt system" where
  "stub_system = \<lparr>ldr_lookup = (\<lambda>_ _. 0), ldr_load = (\<lambda>_ w. ((0x1000, 0), w)), ldr_fixup = (\<lambda>_ w. w), ldr_install = (\<lambda>_ w. w),
     run_init = (\<lambda>_ w. w), run_prefs = (\<lambda>_ p w. (p, w)),
     run_prelude = (\<lambda>_ table elf w. case stub_prelude 0x1400 table elf w of None \<Rightarrow> (SVT_IMAGE_NOT_TABLE, w) | Some r \<Rightarrow> r),
     nm_options = 0, nm_prelude = 0x1301, nm_preferences = 0, before_info = (\<lambda>_. empty_Object 0)\<rparr>"

definition svt_object :: elf_Object where
  "svt_object = (empty_Object 0x1000)\<lparr>phdrtab := 0x1034, numPhdr := 2, baseAddress := 0x1000, dyntab := 0x1080,
     dynSymboltab := 0x1200, dynStringtab := 0x1300, gnuHashtab := 0x1100, gnuHasher := sample_hasher\<rparr>"

abbreviation svt_memory :: "ram \<Rightarrow> bool" where "svt_memory \<equiv> same_outside (blocks svt_images) svt_ram"

definition svt_good :: "elf_Object list \<Rightarrow> svt world \<Rightarrow> bool" where
  "svt_good objs w \<longleftrightarrow> svt_memory (mem w) \<and> exidx_ready (exidx_tab w) \<noteq> None \<and> set objs \<subseteq> {svt_object}"

lemma svt_object_sel:
  "exidx svt_object = 0" "header svt_object = 0x1000" "gnuHashtab svt_object = 0x1100" "numRels svt_object = 0"
  "numPltRels svt_object = 0" "numInits svt_object = 0" "dyntab svt_object = 0x1080" "dynStringtab svt_object = 0x1300"
  "gnuHasher svt_object = sample_hasher" "baseAddress svt_object = 0x1000"
  by (simp_all add: svt_object_def empty_Object_def)

lemma svt_object_init:
  assumes "svt_memory m"
  shows "elf_Object_init m 0x1000 = Some (ELF_OK, svt_object)"
proof -
  note w = table_words [OF assms]
  have check: "elf_Header_check m 0x1000 = ELF_OK"
    by (simp add: elf_Header_check_def elf_Header_type_def elf_Header_size_def elf_Header_numPhdr_def elf_Header_offPhdr_def
        w ld8_def flag_if_def ELF_OK_def)
  have n: "elf_Header_numPhdr m 0x1000 = 2" "elf_Header_addrPhdr m 0x1000 = 0x1034"
    by (simp_all add: elf_Header_numPhdr_def elf_Header_addrPhdr_def elf_Header_offPhdr_def w)
  have sc: "scan_phdrs m 0x1034 2 = \<lparr>loadable = True, lowVaddr = 0, dynamic_ph = 0x1034, exidx_ph = 0\<rparr>"
    by (simp add: scan_phdrs_def upt_rec phdr_at_def phdr_step_def elf_Pheader_isLoadable_def elf_Pheader_isDynamic_def
      elf_Pheader_isExidx_def elf_Pheader_type_def elf_Pheader_virtAddr_def w)
  let ?o = "(empty_Object 0x1000)\<lparr>phdrtab := 0x1034, numPhdr := 2, baseAddress := 0x1000, dyntab := 0x1080\<rparr>"
  let ?o2 = "?o\<lparr>dynSymboltab := 0x1200, dynStringtab := 0x1300, gnuHashtab := 0x1100\<rparr>"
  let ?sc = "scan_phdrs m 0x1034 2"
  have segs: "missing_segments ?sc = ELF_OK" "(set_segments m 2 0x1034 ?sc (empty_Object 0x1000))\<lparr>dyntab := 0x1080\<rparr> = ?o"
    "baseAddress (set_segments m 2 0x1034 ?sc (empty_Object 0x1000)) + elf_Pheader_virtAddr m (dynamic_ph ?sc) = 0x1080"
    by (simp_all add: sc missing_segments_def flag_if_def ELF_OK_def set_segments_def Let_def empty_Object_def
        elf_Pheader_virtAddr_def w)
  have dyn: "scan_dynamic m 0x1080 ?o = Some ?o2"
    by (simp add: scan_dynamic.simps Let_def elf_Dynamic_isSentinel_def elf_Dynamic_tag_def elf_Dynamic_value_def
      elf_Dynamic_ptr_def elf_Dynamic_symtabAddr_def elf_Dynamic_stringtabAddr_def elf_Dynamic_sysvHashtabAddr_def
      elf_Dynamic_gnuHashtabAddr_def elf_Dynamic_reltabAddr_def elf_Dynamic_pltReltabAddr_def elf_Dynamic_inittabAddr_def
      elf_Dynamic_numRels_def elf_Dynamic_numPltRels_def elf_Dynamic_numInits_def dyn_addr_def dyn_count_def dyn_tags or_old_def
      w empty_Object_def)
  have tables: "missing_tables ?o2 = ELF_OK" "set_hashers m ?o2 = svt_object"
    by (simp_all add: missing_tables_def flag_if_def ELF_OK_def set_hashers_def svt_object_def empty_Object_def
        elf_GnuHasher_init_def sample_hasher_def Let_def w)
  show ?thesis
    by (simp only: elf_Object_init_def check n segs Let_def dyn tables simp_thms if_False bind.simps)
qed

lemma convert_same: "svt_convert stb elf m = Some (r, m') \<Longrightarrow> same_outside (STB_bytes stb) m m'"
  by (auto simp: svt_convert_def Let_def bind_eq_Some_conv same_outside_refl split: if_splits)
    (intro same_outside_trans [OF _ same_outside_st32] same_outside_refl field_word field_0(1); simp)

lemma stub_memory:
  assumes "svt_memory (mem w)" and "stub_prelude 0x1400 table elf w = Some (r, w')"
  shows "svt_memory (mem w') \<and> exidx_tab w' = exidx_tab w"
proof -
  obtain stbc where "svt_convert 0x1400 elf (mem w) = Some (stbc, mem w')" and ex: "exidx_tab w' = exidx_tab w"
    using assms(2) by (auto simp: stub_prelude_def Svt_Setup_def bind_eq_Some_conv split: if_splits)
  then have "same_outside (STB_bytes 0x1400) (mem w) (mem w')" by (intro convert_same)
  moreover have "STB_bytes 0x1400 \<subseteq> blocks svt_images" by (rule block_in_blocks) (simp add: svt_images_def)
  ultimately show ?thesis using assms(1) ex by (blast intro: same_outside_trans same_outside_mono)
qed

lemma svt_followed:
  assumes "svt_memory m" and "set objs \<subseteq> {svt_object}"
  shows "followed objs m"
proof -
  have "\<exists>p. m p = 0" using table_words [OF assms(1)] by blast
  moreover have "m a = 0" if "a \<in> {0x100000 ..< 0x100010}" for a
  proof -
    have "0x100000 \<le> a" using that by simp
    then have "0x1440 \<le> a" by (rule order.trans [rotated]) simp
    have ne: "a \<noteq> k" if "k < 0x100000" for k using that \<open>0x100000 \<le> a\<close> by auto
    then have "m a = svt_ram a" using \<open>0x1440 \<le> a\<close> sample_rams(2) [OF assms(1)] by simp
    then show ?thesis using ne by (simp add: svt_ram_def st32_def)
  qed
  moreover have "gnuHashtab obj \<noteq> 0 \<and> (\<exists>names. gnu_table m (gnuHasher obj) names)" if "obj \<in> set objs" for obj
  proof -
    have "obj = svt_object" using that assms(2) by blast
    then show ?thesis using sample_gnu_table(1) [OF assms(1)] by (auto simp: svt_object_sel)
  qed
  ultimately show ?thesis using far_sentinel by (simp add: followed_def)
qed

lemma stub_outside: "outside_ok (- blocks svt_images) svt_good stub_system"
  unfolding outside_ok_def
proof (intro allI impI conjI)
  fix objs and w :: "svt world" assume G: "svt_good objs w"
  then have m: "svt_memory (mem w)" and objs: "set objs \<subseteq> {svt_object}" by (simp_all add: svt_good_def)
  have new: "new_object svt_good objs 0x1000 w"
    using G svt_object_init [OF m] by (simp add: new_object_def svt_good_def)
  have "followed objs m'" if "same_outside (blocks svt_images) (mem w) m'" for m'
    by (rule svt_followed [OF same_outside_trans [OF m that] objs])
  moreover have "rel_slots svt_object = {}" by (simp add: rel_slots_def svt_object_sel)
  ultimately show "link_data (- blocks svt_images) objs (mem w)" using objs by (auto simp: link_data_def)
  show "exidx_ready (exidx_tab w) \<noteq> None" using G by (simp add: svt_good_def)
  show "svt_good objs (w\<lparr>mem := m\<rparr>)" if "same_outside (- (- blocks svt_images)) (mem w) m" for m
    using G that by (auto simp: svt_good_def intro: same_outside_trans)
  show "svt_good objs (w\<lparr>exidx_tab := ex\<rparr>)" if "exidx_ready ex \<noteq> None" for ex
    using G that by (simp add: svt_good_def)
  show "svt_good objs w'" "new_object svt_good objs a w'" if "ldr_load stub_system so w = ((a, ls), w')" for so a ls w'
    using G new that by (auto simp: stub_system_def)
  show "svt_good objs (snd (run_prelude stub_system a p h w))" for a p h
  proof (cases "stub_prelude 0x1400 p h w")
    case None
    then show ?thesis using G by (simp add: stub_system_def)
  next
    case (Some rw)
    then show ?thesis using G stub_memory [OF m, of p h "fst rw" "snd rw"] by (simp add: stub_system_def svt_good_def)
  qed
qed (simp_all add: stub_system_def new_object_def)

lemma stub_svt_system: "svt_system stub_system"
proof -
  have "(\<exists>stb. stub_prelude stb table elf w = Some (run_prelude stub_system a table elf w)) \<or>
        ldr (snd (run_prelude stub_system a table elf w)) = ldr w" for a table elf w
  proof (cases "stub_prelude 0x1400 table elf w")
    case None
    then show ?thesis by (simp add: stub_system_def)
  next
    case (Some rw)
    then have "stub_prelude 0x1400 table elf w = Some (run_prelude stub_system a table elf w)" by (simp add: stub_system_def)
    then show ?thesis by blast
  qed
  then show ?thesis by (simp add: svt_system_def) (simp add: stub_system_def)
qed

text \<open>The install sets up table 31, by the prelude that the linker finds and calls.\<close>

lemma svt_lookup:
  assumes "svt_memory m"
  shows "lookup m svt_object 0 = Some 0" and "lookup m svt_object 0x1301 = Some 0x1040"
proof -
  note w = table_words [OF assms]
  have sel: "gnuHasher svt_object = sample_hasher" "gnuHashtab svt_object \<noteq> 0" by (simp_all add: svt_object_sel)
  note v = linker_lookup_value [OF sample_gnu_table(1) [OF assms, folded sel(1)] sel(2), unfolded sel(1)]
  have sym: "gnu_sym sample_hasher 0 = 0x1210" by (simp add: gnu_sym_def symbol_at_def sample_hasher_def)
  have nm: "cstr m 0 []" "cstr m 0x1301 [0x61]" using w by simp_all
  show "lookup m svt_object 0 = Some 0" "lookup m svt_object 0x1301 = Some 0x1040"
    by (simp_all add: v [OF nm(1)] v [OF nm(2)] linear_lookup_def sym elf_Symbol_isDefinition_def elf_Symbol_section_def elf_Object_getSymbolValue_def
        elf_Symbol_isAbsolute_def elf_Symbol_value_def SHN_UNDEF_def SHN_ABS_def w svt_object_sel)
qed

lemma stub_sets_up:
  "\<exists>m. stub_prelude 0x1400 31 0x1000 svt_world =
     Some (SVT_SUCCESS, svt_world\<lparr>mem := m, ldr := svt_initial\<lparr>resident := 0x80000000, stbs := (stbs svt_initial)[31 := 0x1400]\<rparr>\<rparr>)"
proof -
  have subblock: "STB_bytes 0x1400 \<subseteq> blocks svt_images" by (rule block_in_blocks) (simp add: svt_images_def)
  have "late_reads 0x1090 0x1100 \<inter> STB_bytes 0x1400 = {}"
    using sample_blocks subblock by (fastforce simp: late_reads_def word_bytes_def)
  then have "svt_convert 0x1400 0x1000 svt_ram = Some (0x1400, block_stores 0x1400 sample_hasher (Ldr_Offset svt_ram 0x1000) svt_ram)"
    by (rule convert_block [OF sample_image_hasher(1) [OF same_outside_refl]])
  then show ?thesis
    by (simp add: stub_prelude_def Svt_Setup_def svt_world_def svt_initial_def SVT_MAX_TABLES_def)
qed

lemma stub_binds:
  assumes "elfObject info = svt_object" and "prefsOverride info = 31" and "\<not> installable info"
  shows "\<exists>w. bind_object stub_system db dg info svt_world = Some (st_ok, w) \<and> resident (ldr w) = 0x80000000"
proof -
  obtain m where m: "stub_prelude 0x1400 31 0x1000 svt_world =
     Some (SVT_SUCCESS, svt_world\<lparr>mem := m, ldr := svt_initial\<lparr>resident := 0x80000000, stbs := (stbs svt_initial)[31 := 0x1400]\<rparr>\<rparr>)"
    using stub_sets_up by blast
  have w: "mem svt_world = svt_ram" "svt_world\<lparr>mem := svt_ram\<rparr> = svt_world" by (simp_all add: svt_world_def)
  show ?thesis
    by (simp add: bind_object_def Let_def relocate_def assms svt_object_sel w run_inits_def run_lnk_prelude_def
        svt_lookup [OF same_outside_refl] stub_system_def m SVT_SUCCESS_def LNK_OK_def)
qed

lemma stub_installs: "\<exists>w. Svt_Install stub_system 31 0x500 svt_world = Some (SVT_SUCCESS, w) \<and> resident (ldr w) = 0x80000000"
proof -
  let ?info = "(fresh_info svt_object)\<lparr>soname := 0x500, prefsOverride := 31, installable := False\<rparr>"
  let ?dg = "lnk_SearchDag_init 0"
  note w = table_words [OF same_outside_refl]
  have add: "lnk_ObjDb_add svt_ram 0x1000 LNK_DAG_NOT_STARTED False 0x500 [] = Some (st_ok, 0, [(fresh_info svt_object)\<lparr>soname := 0x500\<rparr>])"
    by (simp add: lnk_ObjDb_add_def LNK_MAX_ELF_OBJECTS_def svt_object_init [OF same_outside_refl] LNK_OK_def ELF_OK_def fresh_info_def)
  have "innerLink stub_system 1 ([?info], ?dg, svt_world) =
      link_from (finish_object stub_system) stub_system (Needed 1 0 0x1080) ([start_info ?info], ?dg, svt_world)"
    unfolding innerLink_def
    by (subst link_from.simps) (simp add: lnk_SearchDag_get_def lnk_ObjDb_get_def LNK_MAX_DAG_NODES_def lnk_SearchDag_init_def
        lnk_SearchNode_init_def set_info_def svt_object_sel fresh_info_def)
  also have "\<dots> = finish_object stub_system 1 0 ([start_info ?info], ?dg, svt_world)"
    by (simp add: loop_skip loop_end elf_Dynamic_isSentinel_def elf_Dynamic_tag_def elf_Dynamic_needed_def dyn_addr_def dyn_tags w svt_world_def)
  finally have run: "innerLink stub_system 1 ([?info], ?dg, svt_world) = finish_object stub_system 1 0 ([start_info ?info], ?dg, svt_world)" .
  obtain w1 where w1: "resident (ldr w1) = 0x80000000"
    "\<exists>db dg. innerLink stub_system 1 ([?info], ?dg, svt_world) = Some (st_ok, db, dg, w1)"
  proof -
    let ?db = "set_info 0 (\<lambda>info. info\<lparr>dag := child (nodes ?dg 1), dagState := LNK_DAG_DONE\<rparr>) [start_info ?info]"
    obtain w1 where b: "bind_object stub_system ?db ?dg (?db ! 0) svt_world = Some (st_ok, w1)" "resident (ldr w1) = 0x80000000"
      using stub_binds [of "?db ! 0" ?db ?dg] by (auto simp: fresh_info_def)
    have "\<not> bound (?db ! 0)" by (simp add: fresh_info_def)
    then have "\<exists>db dg. finish_object stub_system 1 0 ([start_info ?info], ?dg, svt_world) = Some (st_ok, db, dg, w1)"
      using b(1) by (simp add: finish_object_def Let_def)
    then show thesis using that b(2) unfolding run by blast
  qed
  obtain db dg where inner: "innerLink stub_system 1 ([?info], ?dg, svt_world) = Some (st_ok, db, dg, w1)" using w1(2) by blast
  have ex: "rememberExidx svt_ram svt_object st = Some st" for st by (rule image_exidx) (simp add: svt_object_sel)
  have sys: "ldr_load stub_system so x = ((0x1000, 0), x)" for so x by (simp add: stub_system_def)
  have sw: "mem svt_world = svt_ram" "ldr svt_world = svt_initial" "svt_world\<lparr>exidx_tab := exidx_tab svt_world\<rparr> = svt_world"
    by (simp_all add: svt_world_def)
  have "lnk_load stub_system 0x500 31 svt_world = Some (0x1000, LNK_OK, st_ok, w1)"
    using inner add by (simp add: lnk_load_def lnk_ObjDb_init_def sys sw ex set_info_def fresh_info_def)
  then show ?thesis
    using w1(1) by (simp add: Svt_Install_def SVT_MAX_TABLES_def sw svt_initial_def SVT_SUCCESS_def LNK_OK_def)
qed

theorem install_keeps_tables_witness:
  "\<exists>w'. Svt_Install stub_system 31 0x500 svt_world = Some (SVT_SUCCESS, w') \<and> svt_inv (ldr w') \<and> bit (resident (ldr w')) 31"
proof -
  have "svt_good [] svt_world"
    by (simp add: svt_good_def svt_world_def same_outside_refl exidx_ready_def)
  moreover have "svt_inv (ldr svt_world)" by (simp add: svt_inv_def svt_world_def svt_initial_def)
  ultimately obtain r w' where "Svt_Install stub_system 31 0x500 svt_world = Some (r, w')" "svt_inv (ldr w')"
    using install_keeps_tables [OF stub_svt_system stub_outside, where table = 31 and nm = "0x500" and w = svt_world] by blast
  moreover have "bit (0x80000000 :: u32) 31" by (simp add: bit_iff_odd)
  ultimately show ?thesis using stub_installs by auto
qed

end
