(* ===== verification/Sas.thy ===== *)
theory Sas
  imports Svt
begin

text \<open>
  Socket abstraction services (\<^verbatim>\<open>service/sas/src/\<close>): sessions and mailboxes in the on-chip memory,
  transactions posted to the firmware's work lists, the free lists the firmware keeps, and the loop
  that waits for input. The registers of the firmware, the semaphores of RTEMS and the handlers
  of the mailboxes are parameters; their state is the type variable \<open>'d\<close>. An access outside of a
  table is \<open>None\<close>.
\<close>

subsection \<open>Fields of instructions and inputs\<close>

text \<open>A field: its offset and its mask.\<close>

type_synonym field = "nat \<times> u32"

definition SAS_ENCODE :: "field \<Rightarrow> u32 \<Rightarrow> u32 \<Rightarrow> u32" where
  "SAS_ENCODE f v x = x OR push_bit (fst f) (v AND snd f)"

definition SAS_DECODE :: "field \<Rightarrow> u32 \<Rightarrow> u32" where
  "SAS_DECODE f v = drop_bit (fst f) v AND snd f"

definition FRAME_DESC :: field where "FRAME_DESC = (0, 0x0003fff0)"
definition FRAME_LEN :: field where "FRAME_LEN = (18, 0xff)"
definition FRAME_TYPE :: field where "FRAME_TYPE = (26, 0xf)"
definition OB_OPCODE :: field where "OB_OPCODE = (30, 3)"
definition IB_OPCODE :: field where "IB_OPCODE = (28, 0xf)"
definition INPUT_EMPTY :: field where "INPUT_EMPTY = (0, 1)"
definition IB_ERROR :: field where "IB_ERROR = (30, 1)"
definition IB_PAYLOAD :: field where "IB_PAYLOAD = (31, 1)"
definition FREELIST_VAL :: field where "FREELIST_VAL = (1, 0xffffffff)"
definition MBX_INPUT_ERROR :: field where "MBX_INPUT_ERROR = (1, 1)"
definition FAULT_ENGINE :: field where "FAULT_ENGINE = (1, 1)"
definition FAULT_SOCKET :: field where "FAULT_SOCKET = (2, 3)"
definition FAULT_READ_OFFSET :: nat where "FAULT_READ_OFFSET = 6"

lemmas sas_fields =
  FRAME_DESC_def FRAME_LEN_def FRAME_TYPE_def OB_OPCODE_def IB_OPCODE_def INPUT_EMPTY_def IB_ERROR_def IB_PAYLOAD_def
  FREELIST_VAL_def MBX_INPUT_ERROR_def FAULT_ENGINE_def FAULT_SOCKET_def

definition IB_INSTR_INIT :: "u32 \<Rightarrow> u32" where "IB_INSTR_INIT a = a AND snd FRAME_DESC"

definition SAS_OB_FREE :: u32 where "SAS_OB_FREE = 0"
definition SAS_IB_FREE :: u32 where "SAS_IB_FREE = 0"
definition SAS_DISABLE :: u32 where "SAS_DISABLE = push_bit 30 1"
definition SAS_ABORT :: u32 where "SAS_ABORT = push_bit 31 1"

definition sas_code :: "u32 \<Rightarrow> u32" where "sas_code n = push_bit 16 5 OR n"
definition SAS_SUCCESS :: u32 where "SAS_SUCCESS = 0"
definition SAS_NO_KVT :: u32 where "SAS_NO_KVT = sas_code 4"
definition SAS_NO_SVT :: u32 where "SAS_NO_SVT = sas_code 5"
definition SAS_NO_IRQ :: u32 where "SAS_NO_IRQ = sas_code 6"
definition SAS_ERR_KVT :: u32 where "SAS_ERR_KVT = sas_code 7"
definition SAS_INSF_OCM :: u32 where "SAS_INSF_OCM = sas_code 8"
definition SAS_BAD_SLOT :: u32 where "SAS_BAD_SLOT = sas_code 9"

lemmas sas_codes =
  sas_code_def SAS_SUCCESS_def SAS_NO_KVT_def SAS_NO_SVT_def SAS_NO_IRQ_def SAS_ERR_KVT_def SAS_INSF_OCM_def SAS_BAD_SLOT_def

subsection \<open>Limits and the memory maps\<close>

definition MAX_SOCKETS :: nat where "MAX_SOCKETS = 4"
definition MAX_INTR_GROUPS :: nat where "MAX_INTR_GROUPS = 8"
definition MAX_INTR_SOURCES :: nat where "MAX_INTR_SOURCES = 32"
definition MAX_INTR_METRICS :: nat where "MAX_INTR_METRICS = 32"
definition MAX_FAULT_SYNDROMES :: nat where "MAX_FAULT_SYNDROMES = 4"
definition MAX_SESSIONS :: nat where "MAX_SESSIONS = 32"
definition MAX_SESSION_INPUTS :: nat where "MAX_SESSION_INPUTS = 8"
definition MAX_RUNDWN_CHANNELS :: nat where "MAX_RUNDWN_CHANNELS = 31"
definition MAX_APP_CHANNELS :: nat where "MAX_APP_CHANNELS = 8"
definition MAX_UTIL_CHANNELS :: nat where "MAX_UTIL_CHANNELS = 2"
definition SAS_INTR_COUNT :: nat where "SAS_INTR_COUNT = 64"

definition SAS_INTR_PPI_IBPEND_BASE :: u32 where "SAS_INTR_PPI_IBPEND_BASE = 0"
definition SAS_INTR_PPI_IBFULL_BASE :: nat where "SAS_INTR_PPI_IBFULL_BASE = 4"
definition SAS_INTR_PPI_OBEMPTY_BASE :: nat where "SAS_INTR_PPI_OBEMPTY_BASE = 8"
definition SAS_INTR_PPI_OBFULL_BASE :: nat where "SAS_INTR_PPI_OBFULL_BASE = 12"
definition SAS_INTR_UTIL_PEND_BASE :: nat where "SAS_INTR_UTIL_PEND_BASE = 16"
definition SAS_INTR_UTIL_EMPTY_BASE :: nat where "SAS_INTR_UTIL_EMPTY_BASE = 20"
definition SAS_INTR_RUNDWN_BASE :: u32 where "SAS_INTR_RUNDWN_BASE = 24"
definition SAS_INTR_RUNDWNERR_PEND :: nat where "SAS_INTR_RUNDWNERR_PEND = 55"
definition SAS_INTR_APP_BASE :: u32 where "SAS_INTR_APP_BASE = 56"
definition SAS_IRQ_METRICS :: u32 where "SAS_IRQ_METRICS = 2"
definition SAS_IRQ_FAULTS :: u32 where "SAS_IRQ_FAULTS = 3"

definition INTR_MAP_ENAB_MASK :: u32 where "INTR_MAP_ENAB_MASK = 0x80000000"
definition INTR_MAP_AXI_BASE :: u32 where "INTR_MAP_AXI_BASE = 0"
definition INTR_GROUP_AXI_BASE :: u32 where "INTR_GROUP_AXI_BASE = 0x8000"
definition SOCKET_AXI_BASE :: u32 where "SOCKET_AXI_BASE = 0x10000000"
definition SOCKET_AXI_SIZE :: u32 where "SOCKET_AXI_SIZE = 0x20000"
definition SOCKET_AXI_FIFO_BASE :: u32 where "SOCKET_AXI_FIFO_BASE = 0x10000"
definition RUNDWN_AXI_BASE :: u32 where "RUNDWN_AXI_BASE = 0x10080000"
definition UTIL_AXI_FIFO_BASE :: u32 where "UTIL_AXI_FIFO_BASE = 0x10080100"

text \<open>Addresses of the registers.\<close>

definition UTIL_session :: "u32 \<Rightarrow> u32" where "UTIL_session axi = axi + UTIL_AXI_FIFO_BASE"
definition UTIL_rundwn :: "u32 \<Rightarrow> u32" where "UTIL_rundwn axi = axi + UTIL_AXI_FIFO_BASE + 4"
definition obFreeList :: "u32 \<Rightarrow> u32" where "obFreeList sock = sock"
definition ibPendList :: "u32 \<Rightarrow> u32" where "ibPendList sock = sock + 4"
definition obWorkList :: "u32 \<Rightarrow> u32" where "obWorkList sock = sock + 0x200"
definition ibWorkList :: "u32 \<Rightarrow> u32" where "ibWorkList sock = sock + 0x240"
definition intr_enable :: "u32 \<Rightarrow> u32 \<Rightarrow> u32" where "intr_enable axi grp = axi + INTR_GROUP_AXI_BASE + 16 * grp"
definition intr_disable :: "u32 \<Rightarrow> u32 \<Rightarrow> u32" where "intr_disable axi grp = axi + INTR_GROUP_AXI_BASE + 16 * grp + 8"
definition remap_src :: "u32 \<Rightarrow> nat \<Rightarrow> nat \<Rightarrow> u32" where
  "remap_src axi grp src = axi + INTR_MAP_AXI_BASE + 4 * of_nat (MAX_INTR_SOURCES * grp + src)"
definition rundwn_fault :: "u32 \<Rightarrow> u32" where "rundwn_fault axi = axi + RUNDWN_AXI_BASE + 4 * of_nat MAX_RUNDWN_CHANNELS"

definition SOCKID :: "u32 \<Rightarrow> u32 \<Rightarrow> u32" where
  "SOCKID sock axi = (sock - axi - SOCKET_AXI_FIFO_BASE - SOCKET_AXI_BASE) div SOCKET_AXI_SIZE"

subsection \<open>The state\<close>

record InterruptMap =
  im_source :: u8
  im_group :: u8
  im_enable :: u16

record SAS_Attributes =
  moh :: u32
  obFd :: u32
  mib :: u32
  ibFd :: u32

record SAS_Preferences =
  pr_attrs :: SAS_Attributes
  pr_region :: u32
  pr_offset :: u32
  pr_name :: u32
  pr_bitfile :: u32

record SAS_AppPreferences =
  ap_slot :: u32
  ap_offset :: u32
  ap_name :: u32

record mbx =
  mb_ocm :: u32
  mb_idx :: u8
  mb_mid :: u8
  mb_enab :: u16
  mb_mask :: u16
  mb_intrBase :: u16
  mb_pend :: u32
  mb_handler :: u32
  mb_socket :: u32
  mb_context :: u32

record session =
  se_enabled :: u8
  se_profile :: u8
  se_srcs :: u16
  se_sync :: u32
  se_axi :: u32
  se_ocm :: u32
  se_valid :: u32
  se_invalid :: u32
  se_wait :: u32
  se_disable :: u32
  se_pend :: "u32 list"
  se_mbx :: "mbx list"

definition no_mbx :: mbx where
  "no_mbx = \<lparr>mb_ocm = 0, mb_idx = 0, mb_mid = 0, mb_enab = 0, mb_mask = 0, mb_intrBase = 0, mb_pend = 0, mb_handler = 0,
     mb_socket = 0, mb_context = 0\<rparr>"

definition no_session :: session where
  "no_session = \<lparr>se_enabled = 0, se_profile = 0, se_srcs = 0, se_sync = 0, se_axi = 0, se_ocm = 0, se_valid = 0, se_invalid = 0,
     se_wait = 0, se_disable = 0, se_pend = replicate MAX_SESSION_INPUTS 0, se_mbx = replicate MAX_SESSION_INPUTS no_mbx\<rparr>"

text \<open>
  The map of the on-chip memory, its key-value tables, and the variables of the facility. A
  session handle is its index in \<open>sessions\<close>, a mailbox handle a session and an index in it.
\<close>

record 'd sas =
  sessions :: "session list"
  plugins :: "SAS_Preferences option list"
  appTable :: "u32 list"
  intrMap :: "InterruptMap list"
  intrSync :: "u32 list list"
  metricsTable :: "u32 list"
  faultTable :: "(u32 list \<times> u32 list) list"
  socketKvt :: u32
  appKvt :: u32
  descriptorBase :: u32
  descriptorFree :: u32
  sas_kvts :: kv_heap
  sas_mem :: ram
  sas_regions :: "mem_Region list"
  SasAxi :: u32
  SasOcm :: u32
  ocmNext :: u32
  dev :: 'd

type_synonym handle = "nat \<times> nat"

text \<open>
  The environment: reading and writing a register, the semaphores, and the call of a handler
  with an input, its context and its mailbox.
\<close>

record 'd sas_env =
  reg_read :: "u32 \<Rightarrow> 'd \<Rightarrow> u32 \<times> 'd"
  reg_write :: "u32 \<Rightarrow> u32 \<Rightarrow> 'd \<Rightarrow> 'd"
  semaphore_create :: "'d \<Rightarrow> (u32 \<times> u32) \<times> 'd"
  semaphore_delete :: "u32 \<Rightarrow> 'd \<Rightarrow> 'd"
  semaphore_obtain :: "u32 \<Rightarrow> 'd \<Rightarrow> 'd"
  semaphore_release :: "u32 \<Rightarrow> 'd \<Rightarrow> 'd"
  call_handler :: "u32 \<Rightarrow> u32 \<Rightarrow> u32 \<Rightarrow> handle \<Rightarrow> 'd sas \<Rightarrow> u32 \<times> 'd sas"

definition read_reg :: "'d sas_env \<Rightarrow> u32 \<Rightarrow> 'd sas \<Rightarrow> u32 \<times> 'd sas" where
  "read_reg env a s = (let (v, d) = reg_read env a (dev s) in (v, s\<lparr>dev := d\<rparr>))"

definition write_reg :: "'d sas_env \<Rightarrow> u32 \<Rightarrow> u32 \<Rightarrow> 'd sas \<Rightarrow> 'd sas" where
  "write_reg env a v s = s\<lparr>dev := reg_write env a v (dev s)\<rparr>"

definition set_session :: "nat \<Rightarrow> (session \<Rightarrow> session) \<Rightarrow> 'd sas \<Rightarrow> 'd sas" where
  "set_session k f s = s\<lparr>sessions := (sessions s)[k := f (sessions s ! k)]\<rparr>"

definition set_mbx :: "handle \<Rightarrow> (mbx \<Rightarrow> mbx) \<Rightarrow> 'd sas \<Rightarrow> 'd sas" where
  "set_mbx h f = set_session (fst h) (\<lambda>x. x\<lparr>se_mbx := (se_mbx x)[snd h := f (se_mbx x ! snd h)]\<rparr>)"

definition mbx_at :: "'d sas \<Rightarrow> handle \<Rightarrow> mbx" where
  "mbx_at s h = se_mbx (sessions s ! fst h) ! snd h"

definition LookupAxiSocket :: "'d sas \<Rightarrow> u32" where "LookupAxiSocket s = mem_Region_startAddress MEM_REGION_SOCKET (sas_regions s)"
definition LookupOcm :: "'d sas \<Rightarrow> u32" where "LookupOcm s = mem_Region_startAddress MEM_REGION_OCM (sas_regions s)"

subsection \<open>Transactions\<close>

definition SAS_ObFree :: "'d sas_env \<Rightarrow> u32 \<Rightarrow> handle \<Rightarrow> 'd sas \<Rightarrow> 'd sas" where
  "SAS_ObFree env frame m s = write_reg env (obWorkList (mb_socket (mbx_at s m))) (SAS_ENCODE OB_OPCODE SAS_OB_FREE frame) s"

text \<open>The result 0 is \<open>SAS_ALLOC_ERROR\<close>.\<close>

definition SAS_ObAlloc :: "'d sas_env \<Rightarrow> handle \<Rightarrow> 'd sas \<Rightarrow> u32 \<times> 'd sas" where
  "SAS_ObAlloc env m s =
     (let (fval, s) = read_reg env (obFreeList (mb_socket (mbx_at s m))) s in
      if SAS_DECODE INPUT_EMPTY fval \<noteq> 0 then (0, s)
      else (SAS_ENCODE FRAME_DESC (SAS_DECODE FRAME_DESC fval) 0, s))"

definition SAS_ObPost :: "'d sas_env \<Rightarrow> u32 \<Rightarrow> u32 \<Rightarrow> handle \<Rightarrow> 'd sas \<Rightarrow> 'd sas" where
  "SAS_ObPost env opcode frame m s = write_reg env (obWorkList (mb_socket (mbx_at s m))) (SAS_ENCODE OB_OPCODE opcode frame) s"

definition SAS_ObError :: "u32 \<Rightarrow> u32" where "SAS_ObError input = SAS_DECODE MBX_INPUT_ERROR input"

definition SAS_ObSet :: "u32 \<Rightarrow> u32 \<Rightarrow> u32 \<Rightarrow> u32" where
  "SAS_ObSet frame type len = SAS_ENCODE FRAME_LEN len (SAS_ENCODE FRAME_TYPE type frame)"

definition SAS_ObFd :: "u32 \<Rightarrow> handle \<Rightarrow> 'd sas \<Rightarrow> u32" where
  "SAS_ObFd frame m s = mb_ocm (mbx_at s m) + SAS_DECODE FRAME_DESC frame"

definition SAS_IbPayload :: "u32 \<Rightarrow> u32" where "SAS_IbPayload input = SAS_DECODE IB_PAYLOAD input"
definition SAS_IbError :: "u32 \<Rightarrow> u32" where "SAS_IbError input = SAS_DECODE IB_ERROR input"

definition SAS_IbFd :: "u32 \<Rightarrow> handle \<Rightarrow> 'd sas \<Rightarrow> u32" where
  "SAS_IbFd frame m s = mb_ocm (mbx_at s m) + SAS_DECODE FRAME_DESC frame"

definition SAS_IbPost :: "'d sas_env \<Rightarrow> u32 \<Rightarrow> u32 \<Rightarrow> handle \<Rightarrow> 'd sas \<Rightarrow> 'd sas" where
  "SAS_IbPost env opcode frame m s =
     write_reg env (ibWorkList (mb_socket (mbx_at s m))) (SAS_ENCODE IB_OPCODE opcode (IB_INSTR_INIT frame)) s"

definition SAS_Error :: "u32 \<Rightarrow> u32" where "SAS_Error input = SAS_DECODE MBX_INPUT_ERROR input"
definition SAS_TypeOf :: "u32 \<Rightarrow> u32" where "SAS_TypeOf input = SAS_DECODE FRAME_TYPE input"
definition SAS_SizeOf :: "u32 \<Rightarrow> u32" where "SAS_SizeOf input = SAS_DECODE FRAME_LEN input"

subsection \<open>Sessions\<close>

definition IntrAllocSync :: "'d sas_env \<Rightarrow> nat \<Rightarrow> 'd sas \<Rightarrow> u32 \<times> 'd sas" where
  "IntrAllocSync env k s =
     (let ((rc, sem), d) = semaphore_create env (dev s); s = s\<lparr>dev := d\<rparr> in
      if rc \<noteq> 0 then (SAS_NO_IRQ, s) else (SAS_SUCCESS, set_session k (\<lambda>x. x\<lparr>se_sync := sem\<rparr>) s))"

definition IntrFreeSync :: "'d sas_env \<Rightarrow> nat \<Rightarrow> 'd sas \<Rightarrow> 'd sas" where
  "IntrFreeSync env k s =
     set_session k (\<lambda>x. x\<lparr>se_sync := 0\<rparr>) (s\<lparr>dev := semaphore_delete env (se_sync (sessions s ! k)) (dev s)\<rparr>)"

text \<open>The result is the new session or nothing, \<open>SAS_OPEN_ERROR\<close>.\<close>

definition SAS_Open :: "'d sas_env \<Rightarrow> 'd sas \<Rightarrow> (nat option \<times> 'd sas) option" where
  "SAS_Open env s =
     (let axi = LookupAxiSocket s; oc = LookupOcm s in
      if axi = 0 then Some (None, s)
      else if oc = 0 then Some (None, s)
      else let (off, s) = read_reg env (UTIL_session axi) s in
        if SAS_DECODE INPUT_EMPTY off \<noteq> 0 then Some (None, s)
        else let k = unat (SAS_DECODE FREELIST_VAL off) in
          if \<not> k < length (sessions s) then None
          else let (status, s) = IntrAllocSync env k s in
            if status \<noteq> SAS_SUCCESS then Some (None, s)
            else Some (Some k, set_session k (\<lambda>x. x\<lparr>se_ocm := oc, se_axi := axi, se_srcs := 0, se_enabled := 0\<rparr>) s))"

definition sas_freeMbx :: "'d sas_env \<Rightarrow> mbx \<Rightarrow> nat \<Rightarrow> 'd sas \<Rightarrow> 'd sas" where
  "sas_freeMbx env m k s =
     (if ucast (mb_intrBase m) = SAS_INTR_RUNDWN_BASE
      then write_reg env (UTIL_rundwn (se_axi (sessions s ! k))) (SAS_ENCODE FREELIST_VAL (ucast (mb_mid m)) 0) s
      else s)"

fun free_mailboxes :: "'d sas_env \<Rightarrow> nat \<Rightarrow> nat \<Rightarrow> 'd sas \<Rightarrow> 'd sas option" where
  "free_mailboxes env k 0 s = Some s"
| "free_mailboxes env k (Suc n) s =
     (let s = set_session k (\<lambda>x. x\<lparr>se_srcs := of_nat n\<rparr>) s in
      if n < length (se_mbx (sessions s ! k)) then free_mailboxes env k n (sas_freeMbx env (mbx_at s (k, n)) k s) else None)"

text \<open>The offset of the session in the table is its index; unmapping does nothing on RTEMS.\<close>

definition SAS_Close :: "'d sas_env \<Rightarrow> nat \<Rightarrow> 'd sas \<Rightarrow> 'd sas option" where
  "SAS_Close env k s =
     (let s = (if se_sync (sessions s ! k) \<noteq> 0 then IntrFreeSync env k s else s) in do {
        s \<leftarrow> free_mailboxes env k (unat (se_srcs (sessions s ! k))) s;
        let s = write_reg env (UTIL_session (se_axi (sessions s ! k))) (SAS_ENCODE FREELIST_VAL (of_nat k) 0) s;
        Some (set_session k (\<lambda>_. no_session) s) })"

subsection \<open>Mailboxes\<close>

definition MBX_ENABLE :: "handle \<Rightarrow> 'd sas \<Rightarrow> 'd sas" where
  "MBX_ENABLE m s = set_session (fst m) (\<lambda>x. x\<lparr>se_enabled := se_enabled x OR ucast (push_bit (unat (mb_idx (mbx_at s m))) (1 :: u32))\<rparr>) s"

definition MBX_ISENABLED :: "handle \<Rightarrow> 'd sas \<Rightarrow> u32" where
  "MBX_ISENABLED m s =
     (if ucast (se_enabled (sessions s ! fst m)) AND push_bit (unat (mb_idx (mbx_at s m))) (1 :: u32) \<noteq> 0 then 1 else 0)"

definition SAS_Enable :: "handle \<Rightarrow> 'd sas \<Rightarrow> 'd sas" where "SAS_Enable = MBX_ENABLE"
definition SAS_IsEnabled :: "handle \<Rightarrow> 'd sas \<Rightarrow> u32" where "SAS_IsEnabled = MBX_ISENABLED"
definition SAS_IbEnable :: "handle \<Rightarrow> 'd sas \<Rightarrow> 'd sas" where "SAS_IbEnable = MBX_ENABLE"
definition SAS_IbIsEnabled :: "handle \<Rightarrow> 'd sas \<Rightarrow> u32" where "SAS_IbIsEnabled = MBX_ISENABLED"
definition SAS_ObEnable :: "handle \<Rightarrow> 'd sas \<Rightarrow> 'd sas" where "SAS_ObEnable = MBX_ENABLE"
definition SAS_ObIsEnabled :: "handle \<Rightarrow> 'd sas \<Rightarrow> u32" where "SAS_ObIsEnabled = MBX_ISENABLED"
definition SAS_AppEnable :: "handle \<Rightarrow> 'd sas \<Rightarrow> 'd sas" where "SAS_AppEnable = MBX_ENABLE"
definition SAS_AppIsEnabled :: "handle \<Rightarrow> 'd sas \<Rightarrow> u32" where "SAS_AppIsEnabled = MBX_ISENABLED"

definition SAS_Id :: "handle \<Rightarrow> 'd sas \<Rightarrow> u8" where "SAS_Id m s = mb_mid (mbx_at s m)"
definition SAS_ObId :: "handle \<Rightarrow> 'd sas \<Rightarrow> u8" where "SAS_ObId m s = mb_mid (mbx_at s m)"

definition sas_bindMbx :: "nat \<Rightarrow> u32 \<Rightarrow> u32 \<Rightarrow> u32 \<Rightarrow> u8 \<Rightarrow> u32 \<Rightarrow> 'd sas \<Rightarrow> (handle \<times> 'd sas) option" where
  "sas_bindMbx k sock pend handler mid ctx s =
     (let x = sessions s ! k; n = unat (se_srcs x) in
      if \<not> (n < length (se_mbx x) \<and> n < length (se_pend x)) then None
      else let s = set_mbx (k, n) (\<lambda>m. m\<lparr>mb_ocm := se_ocm x, mb_socket := sock, mb_handler := handler, mb_idx := ucast (se_srcs x),
               mb_mid := mid, mb_context := ctx, mb_pend := pend\<rparr>) s
        in Some ((k, n), set_session k (\<lambda>x. x\<lparr>se_pend := (se_pend x)[n := pend], se_srcs := se_srcs x + 1\<rparr>) s))"

definition sas_bindMbxIntr :: "handle \<Rightarrow> u32 \<Rightarrow> 'd sas \<Rightarrow> 'd sas option" where
  "sas_bindMbxIntr m intrBase s =
     (let x = sessions s ! fst m; i = unat (intrBase + ucast (mb_mid (mbx_at s m))) in
      if \<not> i < length (intrMap s) then None
      else let grp = im_group (intrMap s ! i); src = im_source (intrMap s ! i);
          s = set_mbx m (\<lambda>b. b\<lparr>mb_enab := ucast (intr_enable (se_axi x) (ucast grp) - se_axi x), mb_mask := ucast src,
                mb_intrBase := ucast intrBase\<rparr>) s in
        if unat grp < length (intrSync s) \<and> unat src < length (intrSync s ! unat grp)
        then Some (s\<lparr>intrSync := (intrSync s)[unat grp := (intrSync s ! unat grp)[unat src := se_sync x]]\<rparr>)
        else None)"

definition sas_lookup :: "u32 \<Rightarrow> u32 \<Rightarrow> u32 \<Rightarrow> 'd sas \<Rightarrow> u32 option" where
  "sas_lookup name oc kvt s = do {
     key \<leftarrow> KvtHash_at (sas_mem s) name;
     KvtLookup key (unat (oc + kvt)) (sas_kvts s) }"

definition sas_lookupApp :: "u32 \<Rightarrow> nat \<Rightarrow> 'd sas \<Rightarrow> u32 option" where
  "sas_lookupApp name k s = sas_lookup name (se_ocm (sessions s ! k)) (appKvt s) s"

definition sas_lookupSocket :: "u32 \<Rightarrow> nat \<Rightarrow> 'd sas \<Rightarrow> u32 option" where
  "sas_lookupSocket name k s = do {
     off \<leftarrow> sas_lookup name (se_ocm (sessions s ! k)) (socketKvt s) s;
     Some (if off \<noteq> 0 then se_axi (sessions s ! k) + off else 0) }"

text \<open>A bound mailbox, its handle or nothing.\<close>

definition bind_both :: "nat \<Rightarrow> u32 \<Rightarrow> u32 \<Rightarrow> u32 \<Rightarrow> u8 \<Rightarrow> u32 \<Rightarrow> u32 \<Rightarrow> 'd sas \<Rightarrow> (handle option \<times> 'd sas) option" where
  "bind_both k sock pend handler mid ctx intrBase s = do {
     (m, s) \<leftarrow> sas_bindMbx k sock pend handler mid ctx s;
     s \<leftarrow> sas_bindMbxIntr m intrBase s;
     Some (Some m, s) }"

definition no_room :: "nat \<Rightarrow> 'd sas \<Rightarrow> bool" where
  "no_room k s \<longleftrightarrow> MAX_SESSION_INPUTS < unat (se_srcs (sessions s ! k)) + 1"

definition rundown_fifo :: "nat \<Rightarrow> u32 \<Rightarrow> 'd sas \<Rightarrow> u32" where
  "rundown_fifo k off s = se_axi (sessions s ! k) + RUNDWN_AXI_BASE + off * 4"

definition SAS_Bind :: "'d sas_env \<Rightarrow> u32 \<Rightarrow> u32 \<Rightarrow> nat \<Rightarrow> 'd sas \<Rightarrow> (handle option \<times> 'd sas) option" where
  "SAS_Bind env handler ctx k s =
     (if no_room k s then Some (None, s)
      else let (off, s) = read_reg env (UTIL_rundwn (se_axi (sessions s ! k))) s in
        if SAS_DECODE INPUT_EMPTY off \<noteq> 0 then Some (None, s)
        else let off = SAS_DECODE FREELIST_VAL off in
          bind_both k 0 (rundown_fifo k off s) handler (ucast off) ctx SAS_INTR_RUNDWN_BASE s)"

definition SAS_IbBind :: "u32 \<Rightarrow> u32 \<Rightarrow> u32 \<Rightarrow> nat \<Rightarrow> 'd sas \<Rightarrow> (handle option \<times> 'd sas) option" where
  "SAS_IbBind name handler ctx k s =
     (if no_room k s then Some (None, s)
      else do {
        sock \<leftarrow> sas_lookupSocket name k s;
        if sock = 0 then Some (None, s)
        else bind_both k sock (ibPendList sock) handler (ucast (SOCKID sock (se_axi (sessions s ! k)))) ctx SAS_INTR_PPI_IBPEND_BASE s })"

definition SAS_ObBind :: "'d sas_env \<Rightarrow> u32 \<Rightarrow> u32 \<Rightarrow> u32 \<Rightarrow> nat \<Rightarrow> 'd sas \<Rightarrow> (handle option \<times> 'd sas) option" where
  "SAS_ObBind env name handler ctx k s =
     (if no_room k s then Some (None, s)
      else do {
        sock \<leftarrow> sas_lookupSocket name k s;
        if sock = 0 then Some (None, s)
        else let (off, s) = read_reg env (UTIL_rundwn (se_axi (sessions s ! k))) s in
          if SAS_DECODE INPUT_EMPTY off \<noteq> 0 then Some (None, s)
          else let off = SAS_DECODE FREELIST_VAL off in
            bind_both k sock (rundown_fifo k off s) handler (ucast off) ctx SAS_INTR_RUNDWN_BASE s })"

definition SAS_AppBind :: "u32 \<Rightarrow> u32 \<Rightarrow> u32 \<Rightarrow> nat \<Rightarrow> 'd sas \<Rightarrow> (handle option \<times> 'd sas) option" where
  "SAS_AppBind name handler ctx k s =
     (if no_room k s then Some (None, s)
      else do {
        off \<leftarrow> sas_lookupApp name k s;
        if off = 0 then Some (None, s)
        else let off = drop_bit 1 off - 1 in
          if unat off < length (appTable s)
          then bind_both k 0 (appTable s ! unat off) handler (ucast off) ctx SAS_INTR_APP_BASE s
          else None })"

subsection \<open>Waiting for input\<close>

text \<open>
  The registers \<open>s16\<close> to \<open>s23\<close> are a list. The move block of a mailbox goes to \<open>retire\<close> when bit 0 of the
  input is set, and to \<open>service\<close> otherwise. Only the last block, that of register \<open>s23\<close>, has no jump at
  its end: it sets the link register too, but runs on into \<open>service\<close> in either case.
\<close>

definition load_inputs :: "'d sas_env \<Rightarrow> nat \<Rightarrow> u32 \<Rightarrow> u32 list \<Rightarrow> 'd sas \<Rightarrow> u32 list \<times> 'd sas" where
  "load_inputs env k active regs s =
     fold (\<lambda>i (regs, s). if bit active i then let (v, s) = read_reg env (se_pend (sessions s ! k) ! i) s in (regs[i := v], s) else (regs, s))
       [0 ..< MAX_SESSION_INPUTS] (regs, s)"

definition service_input :: "'d sas_env \<Rightarrow> nat \<Rightarrow> nat \<Rightarrow> u32 \<Rightarrow> u32 \<times> 'd sas \<Rightarrow> u32 \<times> 'd sas" where
  "service_input env k i input = (\<lambda>(state, s).
     let m = mbx_at s (k, i);
         (r, s) = call_handler env (mb_handler m) input (mb_context m) (k, i) s;
         state = state OR ((SAS_ABORT OR SAS_DISABLE) AND r)
     in if state AND SAS_DISABLE \<noteq> 0
        then ((state + 1) AND NOT SAS_DISABLE,
          set_session k (\<lambda>x. x\<lparr>se_enabled := se_enabled x AND ucast (NOT (push_bit i (1 :: u32))),
            se_disable := (if se_profile x \<noteq> 0 then se_disable x + 1 else se_disable x)\<rparr>) s)
        else (state + 1, s))"

definition retire_input :: "nat \<Rightarrow> u32 \<Rightarrow> 'd sas \<Rightarrow> 'd sas" where
  "retire_input k input = set_session k (\<lambda>x.
     if se_profile x \<noteq> 0 \<and> SAS_DECODE INPUT_EMPTY input = 0 then x\<lparr>se_valid := se_valid x + 1\<rparr>
     else if se_profile x \<noteq> 0 then x\<lparr>se_invalid := se_invalid x + 1\<rparr> else x)"

function check_inputs :: "'d sas_env \<Rightarrow> nat \<Rightarrow> u32 list \<Rightarrow> u32 \<Rightarrow> u32 \<times> 'd sas \<Rightarrow> u32 \<times> 'd sas" where
  "check_inputs env k regs active st =
     (if active \<noteq> 0
      then let i = builtin_ffsl active - 1; input = regs ! i;
               (state, s) = (if input AND 1 \<noteq> 0 \<and> i \<noteq> 7 then st else service_input env k i input st)
           in check_inputs env k regs (BITCLR i active) (state, retire_input k input s)
      else st)"
  by auto
termination
proof (relation "measure (\<lambda>(_, _, _, a, _). unat a)", goal_cases)
  case (2 env k regs active)
  then show ?case by (elim ffsl_bit) (simp add: BITCLR_less)
qed simp

declare check_inputs.simps [simp del]

text \<open>Arming the interrupts of the enabled sources, from the last to the first, then waiting.\<close>

definition count_wait :: "nat \<Rightarrow> 'd sas \<Rightarrow> 'd sas" where
  "count_wait k = set_session k (\<lambda>x. if se_profile x \<noteq> 0 then x\<lparr>se_wait := se_wait x + 1\<rparr> else x)"

fun arm_loop :: "'d sas_env \<Rightarrow> nat \<Rightarrow> u32 \<Rightarrow> nat \<Rightarrow> 'd sas \<Rightarrow> 'd sas" where
  "arm_loop env k active 0 s = s"
| "arm_loop env k active (Suc i) s =
     (let m = mbx_at s (k, i);
          s = (if bit active i then write_reg env (se_axi (sessions s ! k) + ucast (mb_enab m)) (push_bit (unat (mb_mask m)) 1) s else s);
          s = (if i = 0 then s\<lparr>dev := semaphore_obtain env (se_sync (sessions s ! k)) (dev s)\<rparr> else s)
      in arm_loop env k active i (count_wait k s))"

definition wait_round :: "'d sas_env \<Rightarrow> nat \<Rightarrow> u32 \<Rightarrow> u32 list \<Rightarrow> 'd sas \<Rightarrow> u32 \<times> u32 list \<times> 'd sas" where
  "wait_round env k active regs s =
     (let (regs, s) = load_inputs env k active regs s; (state, s) = check_inputs env k regs active (0, s) in (state, regs, s))"

partial_function (option) wait_loop :: "'d sas_env \<Rightarrow> nat \<Rightarrow> u32 \<Rightarrow> u32 list \<Rightarrow> 'd sas \<Rightarrow> 'd sas option" where
  "wait_loop env k active regs s =
     (let (state, regs, s) = wait_round env k active regs s; active = ucast (se_enabled (sessions s ! k)) in
      if state AND SAS_ABORT \<noteq> 0 \<or> active = 0 then Some s
      else wait_loop env k active regs
        (arm_loop env k active (if state = 0 then unat (se_srcs (sessions s ! k)) else 0) s))"

definition SAS_Wait :: "'d sas_env \<Rightarrow> nat \<Rightarrow> 'd sas \<Rightarrow> 'd sas option" where
  "SAS_Wait env k s =
     (let active = ucast (se_enabled (sessions s ! k)) in
      if active = 0 then Some s else wait_loop env k active (replicate MAX_SESSION_INPUTS 0) s)"

definition SAS_EnableWait :: "'d sas_env \<Rightarrow> nat \<Rightarrow> 'd sas \<Rightarrow> 'd sas option" where
  "SAS_EnableWait env k s =
     SAS_Wait env k (fold (\<lambda>i. set_session k (\<lambda>x. x\<lparr>se_enabled := se_enabled x OR ucast (push_bit i (1 :: u32))\<rparr>))
       [0 ..< unat (se_srcs (sessions s ! k))] s)"

subsection \<open>Descriptor pools\<close>

definition sizeof_SAS_Fd :: u32 where "sizeof_SAS_Fd = 16"

text \<open>Posting \<open>n\<close> free instructions for descriptors \<open>step\<close> bytes apart, rounded up by a mask.\<close>

fun post_descriptors :: "'d sas_env \<Rightarrow> u32 \<Rightarrow> (u32 \<Rightarrow> u32) \<Rightarrow> (u32 \<Rightarrow> u32) \<Rightarrow> nat \<Rightarrow> 'd sas \<Rightarrow> 'd sas" where
  "post_descriptors env worklist instr nxt 0 s = s"
| "post_descriptors env worklist instr nxt (Suc n) s =
     (let s = write_reg env worklist (instr (descriptorFree s)) s
      in post_descriptors env worklist instr nxt n (s\<lparr>descriptorFree := nxt (descriptorFree s)\<rparr>))"

definition ob_instr :: "u32 \<Rightarrow> u32" where "ob_instr d = SAS_ENCODE FRAME_DESC d (SAS_ENCODE OB_OPCODE SAS_OB_FREE 0)"
definition ib_instr :: "u32 \<Rightarrow> u32" where "ib_instr d = SAS_ENCODE FRAME_DESC d (SAS_ENCODE IB_OPCODE SAS_IB_FREE 0)"

definition ob_next :: "SAS_Attributes \<Rightarrow> u32 \<Rightarrow> u32" where
  "ob_next attrs d = (d + sizeof_SAS_Fd + push_bit 3 (moh attrs) + 31) AND NOT 0x1f"

definition ib_next :: "SAS_Attributes \<Rightarrow> u32 \<Rightarrow> u32" where
  "ib_next attrs d = (d + sizeof_SAS_Fd + push_bit 3 (mib attrs) + 31) AND NOT 0xf"

text \<open>The loop index is an \<open>int\<close> compared with an unsigned number, so it counts to that number.\<close>

definition configureObDescriptors :: "'d sas_env \<Rightarrow> u32 \<Rightarrow> SAS_Attributes \<Rightarrow> 'd sas \<Rightarrow> u32 \<times> 'd sas" where
  "configureObDescriptors env sock attrs s =
     (let bytes = obFd attrs * (sizeof_SAS_Fd + push_bit 3 (moh attrs)) in
      if bytes + descriptorFree s > mem_Region_size MEM_REGION_OCM (sas_regions s) then (SAS_INSF_OCM, s)
      else (SAS_SUCCESS, post_descriptors env (obWorkList sock) ob_instr (ob_next attrs) (unat (obFd attrs)) s))"

definition configureIbDescriptors :: "'d sas_env \<Rightarrow> u32 \<Rightarrow> SAS_Attributes \<Rightarrow> 'd sas \<Rightarrow> u32 \<times> 'd sas" where
  "configureIbDescriptors env sock attrs s =
     (let bytes = ibFd attrs * (sizeof_SAS_Fd + push_bit 3 (mib attrs)) in
      if bytes + descriptorFree s > mem_Region_size MEM_REGION_OCM (sas_regions s) then (SAS_INSF_OCM, s)
      else (SAS_SUCCESS, post_descriptors env (ibWorkList sock) ib_instr (ib_next attrs) (unat (ibFd attrs)) s))"

text \<open>\<open>slot\<close> is the number \<^verbatim>\<open>atoi\<close> reads from the name of the bit file.\<close>

definition SAS_Plugin :: "'d sas_env \<Rightarrow> u32 \<Rightarrow> SAS_Preferences \<Rightarrow> 'd sas \<Rightarrow> (u32 \<times> 'd sas) option" where
  "SAS_Plugin env slot prefs s =
     (if slot \<ge> of_nat MAX_SOCKETS then Some (SAS_BAD_SLOT, s)
      else let socket = SOCKET_AXI_BASE + SOCKET_AXI_SIZE * slot + SOCKET_AXI_FIFO_BASE; kvt = unat (SasOcm s + socketKvt s) in do {
        key \<leftarrow> KvtHash_at (sas_mem s) (pr_name prefs);
        (ret, h) \<leftarrow> KvtInsert key socket kvt (sas_kvts s);
        let s = s\<lparr>sas_kvts := h\<rparr>;
        if ret = 0 then Some (SAS_ERR_KVT, s)
        else let (error, s) = configureObDescriptors env (SasAxi s + socket) (pr_attrs prefs) s;
            (error, s) = (if error = SAS_SUCCESS then configureIbDescriptors env (SasAxi s + socket) (pr_attrs prefs) s else (error, s)) in
          if error \<noteq> SAS_SUCCESS then do {
            (_, h) \<leftarrow> KvtRemove key kvt (sas_kvts s);
            Some (error, s\<lparr>sas_kvts := h\<rparr>) }
          else Some (error, s\<lparr>plugins := (plugins s)[unat slot := Some prefs]\<rparr>) })"

definition SAS_AppRegister :: "SAS_AppPreferences \<Rightarrow> 'd sas \<Rightarrow> (u32 \<times> 'd sas) option" where
  "SAS_AppRegister attrs s =
     (if ap_slot attrs \<ge> of_nat MAX_APP_CHANNELS then Some (SAS_BAD_SLOT, s)
      else let s = s\<lparr>appTable := (appTable s)[unat (ap_slot attrs) := ap_offset attrs]\<rparr> in do {
        key \<leftarrow> KvtHash_at (sas_mem s) (ap_name attrs);
        (ret, h) \<leftarrow> KvtInsert key (push_bit 1 (ap_slot attrs + 1)) (unat (SasOcm s + appKvt s)) (sas_kvts s);
        Some (if ret = 0 then SAS_ERR_KVT else SAS_SUCCESS, s\<lparr>sas_kvts := h\<rparr>) })"

subsection \<open>Sockets\<close>

definition SOCKET_DISABLED :: u32 where "SOCKET_DISABLED = 0"
definition SOCKET_OFFLINE :: u32 where "SOCKET_OFFLINE = 1"
definition SOCKET_ONLINE :: u32 where "SOCKET_ONLINE = 3"

definition socket_number :: "u32 \<Rightarrow> u32" where
  "socket_number off = (off - SOCKET_AXI_FIFO_BASE - SOCKET_AXI_BASE) div SOCKET_AXI_SIZE"

text \<open>The number of a socket, nothing for \<open>- 1\<close>.\<close>

definition sas_lookupSocketOffset :: "u32 \<Rightarrow> nat \<Rightarrow> 'd sas \<Rightarrow> u32 option option" where
  "sas_lookupSocketOffset name k s = do {
     off \<leftarrow> sas_lookup name (se_ocm (sessions s ! k)) (socketKvt s) s;
     Some (if off \<noteq> 0 then Some (socket_number off) else None) }"

definition enableMetrics :: "'d sas_env \<Rightarrow> nat \<Rightarrow> u32 \<Rightarrow> nat list \<Rightarrow> 'd sas \<Rightarrow> 'd sas option" where
  "enableMetrics env k socket bases s =
     (if \<forall>b \<in> set bases. b + unat socket < length (intrMap s)
      then let enable = fold (\<lambda>b e. e OR push_bit (unat (im_source (intrMap s ! (b + unat socket)))) 1) bases 0
        in Some (write_reg env (intr_enable (se_axi (sessions s ! k)) SAS_IRQ_METRICS) enable s)
      else None)"

definition enableIbMetrics :: "'d sas_env \<Rightarrow> nat \<Rightarrow> u32 \<Rightarrow> 'd sas \<Rightarrow> 'd sas option" where
  "enableIbMetrics env k socket = enableMetrics env k socket [SAS_INTR_PPI_IBFULL_BASE]"

definition enableObMetrics :: "'d sas_env \<Rightarrow> nat \<Rightarrow> u32 \<Rightarrow> 'd sas \<Rightarrow> 'd sas option" where
  "enableObMetrics env k socket = enableMetrics env k socket [SAS_INTR_PPI_OBEMPTY_BASE, SAS_INTR_PPI_OBFULL_BASE]"

definition setSocketState :: "'d sas_env \<Rightarrow> u32 \<Rightarrow> nat \<Rightarrow> u32 \<Rightarrow> 'd sas \<Rightarrow> 'd sas option" where
  "setSocketState env name k state s = do {
     off \<leftarrow> sas_lookup name (se_ocm (sessions s ! k)) (socketKvt s) s;
     if off \<noteq> 0
     then do {
       s \<leftarrow> (if state = SOCKET_ONLINE
            then do { s \<leftarrow> enableIbMetrics env k (socket_number off) s; enableObMetrics env k (socket_number off) s }
            else Some s);
       Some (write_reg env (se_axi (sessions s ! k) + (off - SOCKET_AXI_FIFO_BASE)) state s) }
     else Some s }"

definition SAS_On :: "'d sas_env \<Rightarrow> u32 \<Rightarrow> nat \<Rightarrow> 'd sas \<Rightarrow> 'd sas option" where
  "SAS_On env name k s = setSocketState env name k SOCKET_ONLINE s"

definition SAS_Off :: "'d sas_env \<Rightarrow> u32 \<Rightarrow> nat \<Rightarrow> 'd sas \<Rightarrow> 'd sas option" where
  "SAS_Off env name k s = setSocketState env name k SOCKET_OFFLINE s"

definition SAS_Reset :: "'d sas_env \<Rightarrow> u32 \<Rightarrow> nat \<Rightarrow> 'd sas \<Rightarrow> 'd sas option" where
  "SAS_Reset env name k s = do {
     s \<leftarrow> setSocketState env name k SOCKET_DISABLED s;
     setSocketState env name k SOCKET_OFFLINE s }"

text \<open>Results that are pointers into a table are the index; a null pointer is nothing.\<close>

definition SAS_GetAttributes :: "u32 \<Rightarrow> nat \<Rightarrow> 'd sas \<Rightarrow> SAS_Attributes option option" where
  "SAS_GetAttributes name k s = do {
     off \<leftarrow> sas_lookupSocketOffset name k s;
     case off of None \<Rightarrow> Some None
     | Some i \<Rightarrow> if unat i < length (plugins s) then Some (map_option pr_attrs (plugins s ! unat i)) else None }"

definition SAS_GetErrors :: "u32 \<Rightarrow> nat \<Rightarrow> 'd sas \<Rightarrow> u32 option" where
  "SAS_GetErrors name k s = do {
     off \<leftarrow> sas_lookupSocketOffset name k s;
     Some (case off of None \<Rightarrow> 0 | Some i \<Rightarrow> se_axi (sessions s ! k) + SOCKET_AXI_BASE + i * SOCKET_AXI_SIZE + 16) }"

definition SAS_GetMetrics :: "u32 \<Rightarrow> nat \<Rightarrow> 'd sas \<Rightarrow> nat option option" where
  "SAS_GetMetrics name k s = do {
     off \<leftarrow> sas_lookupSocketOffset name k s;
     Some (map_option (\<lambda>i. unat i * 3) off) }"

definition SAS_GetFaults :: "u32 \<Rightarrow> nat \<Rightarrow> 'd sas \<Rightarrow> nat option option" where
  "SAS_GetFaults name k s = do {
     off \<leftarrow> sas_lookupSocketOffset name k s;
     Some (map_option unat off) }"

subsection \<open>Interrupt handlers\<close>

function release_sources :: "'d sas_env \<Rightarrow> nat \<Rightarrow> u32 \<Rightarrow> 'd sas \<Rightarrow> 'd sas option" where
  "release_sources env grp disabled s =
     (if disabled \<noteq> 0
      then let src = builtin_ffsl disabled - 1 in
        if \<not> (grp < length (intrSync s) \<and> src < length (intrSync s ! grp)) then None
        else let sem = intrSync s ! grp ! src in
          release_sources env grp (BITCLR src disabled)
            (if sem \<noteq> 0 then s\<lparr>dev := semaphore_release env sem (dev s)\<rparr> else s)
      else Some s)"
  by auto
termination
proof (relation "measure (\<lambda>(_, _, d, _). unat d)", goal_cases)
  case (2 env grp disabled)
  then show ?case by (elim ffsl_bit) (simp add: BITCLR_less)
qed simp

declare release_sources.simps [simp del]

definition IntrHandleMbx :: "'d sas_env \<Rightarrow> u32 \<Rightarrow> 'd sas \<Rightarrow> 'd sas option" where
  "IntrHandleMbx env grp s =
     (let (disabled, s) = read_reg env (intr_disable (SasAxi s) grp) s in release_sources env (unat grp) disabled s)"

function count_sources :: "u32 \<Rightarrow> u32 list \<Rightarrow> u32 list" where
  "count_sources disabled table =
     (if disabled \<noteq> 0
      then let src = builtin_ffsl disabled - 1 in count_sources (BITCLR src disabled) (table[src := table ! src + 1])
      else table)"
  by auto
termination
proof (relation "measure (\<lambda>(d, _). unat d)", goal_cases)
  case (2 disabled)
  then show ?case by (elim ffsl_bit) (simp add: BITCLR_less)
qed simp

declare count_sources.simps [simp del]

text \<open>The table has an entry for each bit of a word.\<close>

definition IntrHandleMetrics :: "'d sas_env \<Rightarrow> u32 \<Rightarrow> 'd sas \<Rightarrow> 'd sas" where
  "IntrHandleMetrics env grp s =
     (let (disabled, s) = read_reg env (intr_disable (SasAxi s) grp) s
      in s\<lparr>metricsTable := count_sources disabled (metricsTable s)\<rparr>)"

definition IntrHandleFaults :: "'d sas_env \<Rightarrow> u32 \<Rightarrow> 'd sas \<Rightarrow> 'd sas option" where
  "IntrHandleFaults env grp s =
     (let (disabled, s) = read_reg env (intr_disable (SasAxi s) grp) s;
          (err, s) = read_reg env (rundwn_fault (SasAxi s)) s in
      if SAS_DECODE INPUT_EMPTY err \<noteq> 0 then Some s
      else let engine = SAS_DECODE FAULT_ENGINE err; socket = unat (SAS_DECODE FAULT_SOCKET err);
               syndrome = builtin_ffsl (drop_bit FAULT_READ_OFFSET err); (ib, ob) = faultTable s ! socket in
        if syndrome = 0 then Some s
        else if \<not> (socket < length (faultTable s) \<and> syndrome - 1 < MAX_FAULT_SYNDROMES) then None
        else
          let i = syndrome - 1;
              row = (if engine = 0 then (ib[i := ib ! i + 1], ob) else (ib, ob[i := ob ! i + 1]));
              s = s\<lparr>faultTable := (faultTable s)[socket := row]\<rparr>
          in Some (write_reg env (intr_enable (SasAxi s) grp) disabled s))"

subsection \<open>Construction of the facility\<close>

definition MAX_SOCKET_ENTRIES :: u32 where "MAX_SOCKET_ENTRIES = 2"
definition MAX_APP_ENTRIES :: u32 where "MAX_APP_ENTRIES = 4"
definition sizeof_OcmMap :: u32 where "sizeof_OcmMap = 11936"

definition setupKvt_one :: "u32 \<Rightarrow> 'd sas \<Rightarrow> (u32 \<times> 'd sas)" where
  "setupKvt_one entries s =
     (let (kvt, h) = KvtConstruct entries (unat (SasOcm s + ocmNext s)) (sas_kvts s); s = s\<lparr>sas_kvts := h\<rparr> in
      if kvt = 0 then (0, s)
      else (of_nat kvt, s\<lparr>ocmNext := (ocmNext s + KvtSizeof entries + 15) AND NOT 0xf\<rparr>))"

definition setupKvt :: "'d sas \<Rightarrow> u32 \<times> 'd sas" where
  "setupKvt s =
     (let (kvt, s) = setupKvt_one MAX_SOCKET_ENTRIES s in
      if kvt = 0 then (SAS_NO_KVT, s)
      else let s = s\<lparr>socketKvt := kvt - SasOcm s\<rparr>; (kvt, s) = setupKvt_one MAX_APP_ENTRIES s in
        if kvt = 0 then (SAS_NO_KVT, s)
        else (SAS_SUCCESS, s\<lparr>appKvt := kvt - SasOcm s\<rparr>))"

definition constructSessionList :: "'d sas_env \<Rightarrow> 'd sas \<Rightarrow> 'd sas" where
  "constructSessionList env s =
     fold (\<lambda>i s. write_reg env (UTIL_session (SasAxi s)) (SAS_ENCODE FREELIST_VAL (of_nat i) 0) (set_session i (\<lambda>_. no_session) s))
       [0 ..< MAX_SESSIONS] s"

definition constructRundwnList :: "'d sas_env \<Rightarrow> 'd sas \<Rightarrow> 'd sas" where
  "constructRundwnList env s =
     fold (\<lambda>i s. write_reg env (UTIL_rundwn (SasAxi s)) (SAS_ENCODE FREELIST_VAL (of_nat i) 0) s) [0 ..< MAX_RUNDWN_CHANNELS] s"

definition remap_step :: "'d sas_env \<Rightarrow> nat \<Rightarrow> InterruptMap list \<Rightarrow> 'd sas \<Rightarrow> 'd sas option" where
  "remap_step env i im s =
     (if im_enable (im ! i) = 0 then Some s
      else let grp = unat (im_group (im ! i)); src = unat (im_source (im ! i)) in
        if grp < MAX_INTR_GROUPS \<and> src < MAX_INTR_SOURCES
        then Some (write_reg env (remap_src (SasAxi s) grp src) (INTR_MAP_ENAB_MASK OR of_nat i) s)
        else None)"

fun remap_loop :: "'d sas_env \<Rightarrow> nat list \<Rightarrow> InterruptMap list \<Rightarrow> 'd sas \<Rightarrow> 'd sas option" where
  "remap_loop env [] im s = Some s"
| "remap_loop env (i # is) im s = do { s \<leftarrow> remap_step env i im s; remap_loop env is im s }"

text \<open>The interrupt lines at the processor's interrupt controller: pending ones are cleared, all are enabled.\<close>

definition IntrIrq :: "nat list" where
  "IntrIrq = [61, 62, 63, 64, 65, 66, 67, 68, 84, 85, 86, 87, 88, 89, 90, 91]"

definition gic_word :: "u32 \<Rightarrow> nat \<Rightarrow> u32" where "gic_word reg irq = reg + 4 * of_nat (irq div 32)"
definition gic_mask :: "nat \<Rightarrow> u32" where "gic_mask irq = push_bit (irq mod 32) 1"

definition LookupGic :: "'d sas \<Rightarrow> u32" where
  "LookupGic s = mem_Region_startAddress MEM_REGION_HIGHREG (sas_regions s) + 0xf01000"

definition IntrInit :: "'d sas_env \<Rightarrow> 'd sas \<Rightarrow> u32 \<times> 'd sas" where
  "IntrInit env s =
     (let gic = LookupGic s in
      if gic = 0 then (sas_code 3, s)
      else (SAS_SUCCESS, fold (\<lambda>irq s. write_reg env (gic + gic_word 0x100 irq) (gic_mask irq)
             (write_reg env (gic + gic_word 0x280 irq) (gic_mask irq) s)) IntrIrq s))"

definition configureInterrupts :: "'d sas_env \<Rightarrow> InterruptMap list \<Rightarrow> 'd sas \<Rightarrow> (u32 \<times> 'd sas) option" where
  "configureInterrupts env im s = do {
     s \<leftarrow> remap_loop env [0 ..< SAS_INTR_COUNT] im
            (s\<lparr>intrSync := replicate MAX_INTR_GROUPS (replicate MAX_INTR_SOURCES 0)\<rparr>);
     Some (IntrInit env s) }"

definition enableSystemMetrics :: "'d sas_env \<Rightarrow> InterruptMap list \<Rightarrow> 'd sas \<Rightarrow> 'd sas" where
  "enableSystemMetrics env im s =
     (let s = s\<lparr>metricsTable := replicate MAX_INTR_METRICS 0,
            faultTable := replicate MAX_SOCKETS (replicate MAX_FAULT_SYNDROMES 0, replicate MAX_FAULT_SYNDROMES 0)\<rparr>;
          bits = map (\<lambda>i. SAS_INTR_UTIL_PEND_BASE + i) [0 ..< MAX_UTIL_CHANNELS] @
            map (\<lambda>i. SAS_INTR_UTIL_EMPTY_BASE + i) [0 ..< MAX_UTIL_CHANNELS] @ [SAS_INTR_RUNDWNERR_PEND];
          enable = fold (\<lambda>i e. e OR push_bit (unat (im_source (im ! i))) 1) bits 0;
          s = write_reg env (intr_enable (SasAxi s) SAS_IRQ_METRICS) enable s
      in write_reg env (intr_enable (SasAxi s) SAS_IRQ_FAULTS) enable s)"

text \<open>\<open>installSvt\<close> is the interrupt map that \<open>InstallSvt\<close> finds in the variable table, if it does.\<close>

definition SAS_Construct ::
    "'d sas_env \<Rightarrow> InterruptMap list option \<Rightarrow> 'd sas \<Rightarrow> (u32 \<times> 'd sas) option" where
  "SAS_Construct env installSvt s =
     (let s = s\<lparr>sessions := replicate MAX_SESSIONS no_session, plugins := replicate MAX_SOCKETS None,
            appTable := replicate MAX_APP_CHANNELS 0, intrMap := replicate SAS_INTR_COUNT \<lparr>im_source = 0, im_group = 0, im_enable = 0\<rparr>,
            intrSync := replicate MAX_INTR_GROUPS (replicate MAX_INTR_SOURCES 0), metricsTable := replicate MAX_INTR_METRICS 0,
            faultTable := replicate MAX_SOCKETS (replicate MAX_FAULT_SYNDROMES 0, replicate MAX_FAULT_SYNDROMES 0),
            socketKvt := 0, appKvt := 0, descriptorBase := 0, descriptorFree := 0,
            ocmNext := (ocmNext s + sizeof_OcmMap + 15) AND NOT 0xf\<rparr> in
      case installSvt of None \<Rightarrow> Some (SAS_NO_SVT, s)
      | Some im \<Rightarrow> let (error, s) = setupKvt (s\<lparr>intrMap := im\<rparr>) in
          if error \<noteq> 0 then Some (error, s)
          else do {
            (error, s) \<leftarrow> configureInterrupts env im (constructRundwnList env (constructSessionList env s));
            if error \<noteq> 0 then Some (error, s)
            else let s = enableSystemMetrics env im s; s = s\<lparr>descriptorFree := (ocmNext s + 31) AND NOT 0x1f\<rparr>
              in Some (SAS_SUCCESS, s\<lparr>descriptorBase := descriptorFree s\<rparr>) })"

end
