(* ===== verification/SasSessions.thy ===== *)
theory SasSessions
  imports Sas
begin

text \<open>
  Sessions and mailboxes of \<^verbatim>\<open>Sas\<close> over a firmware that keeps its utility lists as queues: construction fills
  the lists, and openings, bindings and closings conserve what is on them.
\<close>

subsection \<open>The free lists of the firmware\<close>

text \<open>
  What the firmware documents of a utility list: a first-in first-out queue of words behind one
  register. Reading takes the first word, or gives a word with bit 0 set when there is none; writing
  appends. Neither the semaphores nor the other registers touch the queues.
\<close>

definition fifo_device :: "'d sas_env \<Rightarrow> u32 set \<Rightarrow> (u32 \<Rightarrow> 'd \<Rightarrow> u32 list) \<Rightarrow> bool" where
  "fifo_device env A chan \<longleftrightarrow> (\<forall>a \<in> A. \<forall>d.
     (\<forall>b. chan a (snd (reg_read env b d)) = (if b = a then tl (chan a d) else chan a d)) \<and>
     (if chan a d = [] then bit (fst (reg_read env a d)) 0 else fst (reg_read env a d) = hd (chan a d)) \<and>
     (\<forall>b v. chan a (reg_write env b v d) = (if b = a then chan a d @ [v] else chan a d)) \<and>
     chan a (snd (semaphore_create env d)) = chan a d \<and>
     (\<forall>sem. chan a (semaphore_delete env sem d) = chan a d))"

lemma fifo_facts:
  assumes "fifo_device env A chan" "a \<in> A"
  shows fifo_after_read: "chan a (snd (reg_read env b d)) = (if b = a then tl (chan a d) else chan a d)"
    and fifo_read_empty: "chan a d = [] \<Longrightarrow> bit (fst (reg_read env a d)) 0"
    and fifo_read_first: "chan a d \<noteq> [] \<Longrightarrow> fst (reg_read env a d) = hd (chan a d)"
    and fifo_after_write: "chan a (reg_write env b v d) = (if b = a then chan a d @ [v] else chan a d)"
    and fifo_after_create: "chan a (snd (semaphore_create env d)) = chan a d"
    and fifo_after_delete: "chan a (semaphore_delete env sem d) = chan a d"
proof -
  note all = assms(1) [unfolded fifo_device_def, rule_format, OF assms(2), of d]
  show "chan a (snd (reg_read env b d)) = (if b = a then tl (chan a d) else chan a d)"
    "chan a (reg_write env b v d) = (if b = a then chan a d @ [v] else chan a d)"
    "chan a (snd (semaphore_create env d)) = chan a d" "chan a (semaphore_delete env sem d) = chan a d"
    using all by blast+
  show "bit (fst (reg_read env a d)) 0" if "chan a d = []" using all that by simp
  show "fst (reg_read env a d) = hd (chan a d)" if "chan a d \<noteq> []" using all that by simp
qed

lemmas fifo_after = fifo_after_read fifo_after_write fifo_after_create fifo_after_delete

text \<open>The word of a number on a free list.\<close>

definition list_word :: "nat \<Rightarrow> u32" where "list_word i = SAS_ENCODE FREELIST_VAL (of_nat i) 0"

lemma list_word_alt: "list_word i = 2 * of_nat i"
proof -
  have "(0xffffffff :: u32) = - 1" by simp
  then show ?thesis unfolding list_word_def SAS_ENCODE_def FREELIST_VAL_def by (simp only: snd_conv) simp
qed

lemma empty_bit: "SAS_DECODE INPUT_EMPTY v = 0 \<longleftrightarrow> \<not> bit v 0"
  by (simp add: SAS_DECODE_def INPUT_EMPTY_def and_one_eq bit_0 mod2_eq_if)

lemma list_word_not_empty: "\<not> bit (list_word i) 0"
  by (simp add: list_word_alt bit_0)

lemma list_word_value:
  assumes "i < 0x80000000"
  shows "SAS_DECODE FREELIST_VAL (list_word i) = of_nat i"
proof -
  have "unat (list_word i) = 2 * i"
    using assms by (simp add: list_word_alt unat_word_ariths unat_of_nat take_bit_eq_mod mult.commute)
  then have "drop_bit 1 (list_word i) = of_nat i"
    using assms by (simp add: word_unat_eq_iff drop_bit_eq_div unat_div unat_of_nat take_bit_eq_mod)
  moreover have "(0xffffffff :: u32) = - 1" by simp
  ultimately show ?thesis unfolding SAS_DECODE_def FREELIST_VAL_def by (simp only: snd_conv fst_conv) simp
qed

text \<open>A free list that holds given numbers, each once.\<close>

definition free_ids :: "(u32 \<Rightarrow> 'd \<Rightarrow> u32 list) \<Rightarrow> u32 \<Rightarrow> 'd \<Rightarrow> nat list \<Rightarrow> bool" where
  "free_ids chan a d ids \<longleftrightarrow> chan a d = map list_word ids \<and> distinct ids"
subsection \<open>The invariant of sessions and mailboxes\<close>

definition util_lists :: "u32 \<Rightarrow> u32 set" where "util_lists axi = {UTIL_session axi, UTIL_rundwn axi}"

lemma util_lists_simps [simp]:
  "UTIL_session axi \<in> util_lists axi" "UTIL_rundwn axi \<in> util_lists axi" "UTIL_session axi \<noteq> UTIL_rundwn axi" "UTIL_rundwn axi \<noteq> UTIL_session axi"
  by (auto simp: util_lists_def UTIL_session_def UTIL_rundwn_def)

text \<open>An interrupt map whose groups and sources are in the ranges of the synchronisation table.\<close>

definition intr_map_ok :: "InterruptMap list \<Rightarrow> bool" where
  "intr_map_ok im \<longleftrightarrow> length im = SAS_INTR_COUNT \<and>
     (\<forall>m \<in> set im. unat (im_group m) < MAX_INTR_GROUPS \<and> unat (im_source m) < MAX_INTR_SOURCES)"

definition intr_sync_ok :: "u32 list list \<Rightarrow> bool" where
  "intr_sync_ok t \<longleftrightarrow> length t = MAX_INTR_GROUPS \<and> (\<forall>row \<in> set t. length row = MAX_INTR_SOURCES)"

text \<open>The mailboxes of given sessions that took a number of the rundown list.\<close>

definition rundown_boxes :: "nat set \<Rightarrow> session list \<Rightarrow> handle set" where
  "rundown_boxes held xs = {(k, i). k \<in> held \<and> i < unat (se_srcs (xs ! k)) \<and>
     ucast (mb_intrBase (se_mbx (xs ! k) ! i)) = SAS_INTR_RUNDWN_BASE}"

definition mid_at :: "session list \<Rightarrow> handle \<Rightarrow> nat" where
  "mid_at xs h = unat (mb_mid (se_mbx (xs ! fst h) ! snd h))"

definition session_shape :: "session \<Rightarrow> bool" where
  "session_shape x \<longleftrightarrow> length (se_mbx x) = MAX_SESSION_INPUTS \<and> length (se_pend x) = MAX_SESSION_INPUTS"

definition session_ok :: "u32 \<Rightarrow> u32 \<Rightarrow> session \<Rightarrow> bool" where
  "session_ok axi oc x \<longleftrightarrow> se_axi x = axi \<and> se_ocm x = oc \<and> unat (se_srcs x) \<le> MAX_SESSION_INPUTS"

definition sas_ok :: "'d sas \<Rightarrow> bool" where
  "sas_ok s \<longleftrightarrow> LookupAxiSocket s \<noteq> 0 \<and> LookupOcm s \<noteq> 0 \<and> intr_map_ok (intrMap s) \<and> intr_sync_ok (intrSync s) \<and>
     length (sessions s) = MAX_SESSIONS \<and> (\<forall>x \<in> set (sessions s). session_shape x)"

text \<open>
  Given the sessions that clients hold and those that failed openings lost: the other ones are on the
  session list, and each number of a rundown mailbox is either on the rundown list or in exactly one
  mailbox of a held session.
\<close>

definition lists_ok :: "(u32 \<Rightarrow> 'd \<Rightarrow> u32 list) \<Rightarrow> nat set \<Rightarrow> nat set \<Rightarrow> 'd sas \<Rightarrow> nat list \<Rightarrow> nat list \<Rightarrow> bool" where
  "lists_ok chan held lost s fs rs \<longleftrightarrow>
     held \<subseteq> {..<MAX_SESSIONS} \<and> lost \<subseteq> {..<MAX_SESSIONS} \<and> held \<inter> lost = {} \<and> (\<forall>k \<in> held. session_ok (LookupAxiSocket s) (LookupOcm s) (sessions s ! k)) \<and>
     free_ids chan (UTIL_session (LookupAxiSocket s)) (dev s) fs \<and> set fs = {..<MAX_SESSIONS} - (held \<union> lost) \<and>
     free_ids chan (UTIL_rundwn (LookupAxiSocket s)) (dev s) rs \<and> set rs \<subseteq> {..<MAX_RUNDWN_CHANNELS} \<and>
     bij_betw (mid_at (sessions s)) (rundown_boxes held (sessions s)) ({..<MAX_RUNDWN_CHANNELS} - set rs)"

lemma limits [simp]: "MAX_SESSIONS = 32" "MAX_SESSION_INPUTS = 8" "MAX_RUNDWN_CHANNELS = 31" "MAX_INTR_GROUPS = 8"
    "MAX_INTR_SOURCES = 32" "SAS_INTR_COUNT = 64"
  by (simp_all add: MAX_SESSIONS_def MAX_SESSION_INPUTS_def MAX_RUNDWN_CHANNELS_def MAX_INTR_GROUPS_def MAX_INTR_SOURCES_def
      SAS_INTR_COUNT_def)

lemma lookups_indep [simp]:
  "LookupAxiSocket (s\<lparr>dev := d\<rparr>) = LookupAxiSocket s" "LookupOcm (s\<lparr>dev := d\<rparr>) = LookupOcm s"
  "LookupAxiSocket (s\<lparr>sessions := xs\<rparr>) = LookupAxiSocket s" "LookupOcm (s\<lparr>sessions := xs\<rparr>) = LookupOcm s"
  "LookupAxiSocket (s\<lparr>intrSync := t\<rparr>) = LookupAxiSocket s" "LookupOcm (s\<lparr>intrSync := t\<rparr>) = LookupOcm s"
  by (simp_all add: LookupAxiSocket_def LookupOcm_def)

lemma set_session_simps [simp]:
  "sessions (set_session k f s) = (sessions s)[k := f (sessions s ! k)]"
  "dev (set_session k f s) = dev s" "intrMap (set_session k f s) = intrMap s" "intrSync (set_session k f s) = intrSync s"
  "LookupAxiSocket (set_session k f s) = LookupAxiSocket s" "LookupOcm (set_session k f s) = LookupOcm s"
  by (simp_all add: set_session_def)

lemma write_reg_simps [simp]:
  "sessions (write_reg env a v s) = sessions s" "dev (write_reg env a v s) = reg_write env a v (dev s)"
  "SasAxi (write_reg env a v s) = SasAxi s" "intrMap (write_reg env a v s) = intrMap s" "intrSync (write_reg env a v s) = intrSync s"
  "LookupAxiSocket (write_reg env a v s) = LookupAxiSocket s" "LookupOcm (write_reg env a v s) = LookupOcm s"
  by (simp_all add: write_reg_def)

lemma sas_ok_dev [simp]: "sas_ok (s\<lparr>dev := d\<rparr>) = sas_ok s"
  by (simp add: sas_ok_def)

lemma sas_ok_write [simp]: "sas_ok (write_reg env a v s) = sas_ok s"
  by (simp add: sas_ok_def)

lemma sas_ok_set_session:
  assumes "sas_ok s" "k < 32" and "session_shape (sessions s ! k) \<Longrightarrow> session_shape (f (sessions s ! k))"
  shows "sas_ok (set_session k f s)"
  using assms by (auto simp: sas_ok_def dest!: set_update_subset_insert [THEN subsetD])

text \<open>Taking from a free list.\<close>

lemma take_free:
  assumes dev: "fifo_device env A chan" "a \<in> A" and ids: "free_ids chan a d ids" "set ids \<subseteq> {..<n}" "n \<le> 0x80000000"
    and read: "reg_read env a d = (v, d')"
  shows "if ids = [] then SAS_DECODE INPUT_EMPTY v \<noteq> 0 \<and> free_ids chan a d' []
    else SAS_DECODE INPUT_EMPTY v = 0 \<and> SAS_DECODE FREELIST_VAL v = of_nat (hd ids) \<and> hd ids < n \<and> free_ids chan a d' (tl ids)"
proof (cases ids)
  case Nil
  then show ?thesis using fifo_read_empty [OF dev, of d] fifo_after_read [OF dev, of a d] ids read
    by (simp add: empty_bit free_ids_def)
next
  case (Cons i js)
  then have "v = list_word i" using fifo_read_first [OF dev, of d] ids read by (simp add: free_ids_def)
  then show ?thesis using Cons fifo_after_read [OF dev, of a d] ids read
    by (simp add: empty_bit free_ids_def list_word_not_empty list_word_value)
qed

lemma free_ids_other:
  assumes "fifo_device env A chan" "b \<in> A" "free_ids chan b d ids" "a \<noteq> b"
  shows "free_ids chan b (snd (reg_read env a d)) ids" "free_ids chan b (reg_write env a v d) ids"
  using fifo_after [OF assms(1,2)] assms(3,4) by (auto simp: free_ids_def)

lemma give_back:
  assumes "fifo_device env A chan" "a \<in> A" "free_ids chan a d ids" "i \<notin> set ids"
  shows "free_ids chan a (reg_write env a (list_word i) d) (ids @ [i])"
  using fifo_after_write [OF assms(1,2)] assms(3,4) by (simp add: free_ids_def)
lemma boxes_outside [simp]: "k \<notin> held \<Longrightarrow> rundown_boxes held (xs[k := x]) = rundown_boxes held xs"
proof -
  assume "k \<notin> held"
  then have "xs[k := x] ! a = xs ! a" if "a \<in> held" for a using that by (metis nth_list_update_neq)
  then show ?thesis by (auto simp: rundown_boxes_def)
qed

lemma boxes_insert:
  "rundown_boxes (insert k held) xs = rundown_boxes held xs \<union> rundown_boxes {k} xs"
  by (auto simp: rundown_boxes_def)

lemma boxes_empty [simp]: "k < length xs \<Longrightarrow> se_srcs x = 0 \<Longrightarrow> rundown_boxes {k} (xs[k := x]) = {}"
  by (simp add: rundown_boxes_def)

lemma mid_at_held: "h \<in> rundown_boxes held xs \<Longrightarrow> fst h \<in> held" 
  by (auto simp: rundown_boxes_def)

lemma bij_boxes_cong:
  assumes "bij_betw (mid_at xs) B S" and "B' = B" and "\<And>h. h \<in> B \<Longrightarrow> mid_at xs' h = mid_at xs h"
  shows "bij_betw (mid_at xs') B' S"
  using assms bij_betw_cong [of B "mid_at xs'" "mid_at xs" S] by simp

lemma session_shape_opened:
  "session_shape x \<Longrightarrow> session_shape (x\<lparr>se_sync := sem, se_ocm := a, se_axi := b, se_srcs := 0, se_enabled := 0\<rparr>)"
  by (simp add: session_shape_def)

text \<open>The word an opening reads from the session list, and whether no semaphore can be created then.\<close>

definition first_free :: "'d sas_env \<Rightarrow> 'd sas \<Rightarrow> u32" where
  "first_free env s = fst (reg_read env (UTIL_session (LookupAxiSocket s)) (dev s))"

definition no_semaphore :: "'d sas_env \<Rightarrow> 'd sas \<Rightarrow> bool" where
  "no_semaphore env s \<longleftrightarrow>
     fst (fst (semaphore_create env (snd (reg_read env (UTIL_session (LookupAxiSocket s)) (dev s))))) \<noteq> 0"

lemma open_step:
  assumes dev: "fifo_device env (util_lists (LookupAxiSocket s)) chan" and ok: "sas_ok s" and lists: "lists_ok chan held lost s fs rs"
  shows "\<exists>s'. SAS_Open env s = Some (if fs = [] \<or> no_semaphore env s then None else Some (hd fs), s') \<and> sas_ok s' \<and>
    LookupAxiSocket s' = LookupAxiSocket s \<and>
    (SAS_DECODE INPUT_EMPTY (first_free env s) \<noteq> 0 \<longleftrightarrow> fs = []) \<and>
    (fs \<noteq> [] \<longrightarrow> unat (SAS_DECODE FREELIST_VAL (first_free env s)) = hd fs) \<and>
    lists_ok chan (if fs = [] \<or> no_semaphore env s then held else insert (hd fs) held)
      (if fs \<noteq> [] \<and> no_semaphore env s then insert (hd fs) lost else lost) s' (tl fs) rs"
proof -
  let ?U = "UTIL_session (LookupAxiSocket s)" and ?R = "UTIL_rundwn (LookupAxiSocket s)"
  obtain v d where read: "reg_read env ?U (dev s) = (v, d)" by (rule prod.exhaust)
  have ff: "first_free env s = v" "no_semaphore env s \<longleftrightarrow> fst (fst (semaphore_create env d)) \<noteq> 0"
    by (simp_all add: first_free_def no_semaphore_def read)
  have fs: "free_ids chan ?U (dev s) fs" "set fs = {..<32} - (held \<union> lost)" and rs: "free_ids chan ?R (dev s) rs"
    and bij: "bij_betw (mid_at (sessions s)) (rundown_boxes held (sessions s)) ({..<31} - set rs)"
    using lists by (simp_all add: lists_ok_def)
  have free: "if fs = [] then SAS_DECODE INPUT_EMPTY v \<noteq> 0 \<and> free_ids chan ?U d []
    else SAS_DECODE INPUT_EMPTY v = 0 \<and> SAS_DECODE FREELIST_VAL v = of_nat (hd fs) \<and> hd fs < 32 \<and> free_ids chan ?U d (tl fs)"
    using fs read by (intro take_free [OF dev]) auto
  have rs': "free_ids chan ?R d rs" using free_ids_other(1) [OF dev _ rs, of ?U] read by simp
  have start: "SAS_Open env s = (if SAS_DECODE INPUT_EMPTY v \<noteq> 0 then Some (None, s\<lparr>dev := d\<rparr>)
      else let k = unat (SAS_DECODE FREELIST_VAL v) in
        if \<not> k < 32 then None
        else let (status, s') = IntrAllocSync env k (s\<lparr>dev := d\<rparr>) in
          if status \<noteq> SAS_SUCCESS then Some (None, s')
          else Some (Some k, set_session k (\<lambda>x. x\<lparr>se_ocm := LookupOcm s, se_axi := LookupAxiSocket s, se_srcs := 0, se_enabled := 0\<rparr>) s'))"
    using ok unfolding SAS_Open_def read_reg_def by (simp add: read sas_ok_def)
  show ?thesis
  proof (cases "fs = []")
    case True
    then show ?thesis using free rs' lists ok unfolding start by (simp add: lists_ok_def ff)
  next
    case False
    let ?k = "hd fs"
    obtain rc sem d' where create: "semaphore_create env d = ((rc, sem), d')" by (metis prod.exhaust)
    have k: "?k < 32" "unat (SAS_DECODE FREELIST_VAL v) = ?k" "?k \<notin> held" "?k \<notin> lost" "SAS_DECODE INPUT_EMPTY v = 0"
      using False free fs hd_in_set [of fs] by (auto simp: unat_of_nat take_bit_eq_mod)
    have ids: "free_ids chan ?U d' (tl fs)" "free_ids chan ?R d' rs"
      using free rs' False fifo_after_create [OF dev, of _ d] create by (auto simp: free_ids_def)
    have tl: "set (tl fs) = {..<32} - insert ?k (held \<union> lost)"
      using fs False by (cases fs) (auto simp: free_ids_def)
    show ?thesis
    proof (cases "rc = 0")
      case no_sem: False
      have "SAS_Open env s = Some (None, s\<lparr>dev := d'\<rparr>)"
        using k no_sem unfolding start
        by (simp add: IntrAllocSync_def create Let_def SAS_NO_IRQ_def SAS_SUCCESS_def sas_code_def)
      then show ?thesis using False no_sem k ids tl lists ok by (auto simp: ff create lists_ok_def)
    next
      case True
      define s' where "s' = set_session ?k (\<lambda>x. x\<lparr>se_sync := sem, se_ocm := LookupOcm s, se_axi := LookupAxiSocket s, se_srcs := 0, se_enabled := 0\<rparr>)
          (s\<lparr>dev := d'\<rparr>)"
      have "IntrAllocSync env ?k (s\<lparr>dev := d\<rparr>) = (SAS_SUCCESS, set_session ?k (\<lambda>x. x\<lparr>se_sync := sem\<rparr>) (s\<lparr>dev := d'\<rparr>))"
        using True by (simp add: IntrAllocSync_def create)
      then have run: "SAS_Open env s = Some (Some ?k, s')"
        using k ok unfolding start by (simp add: s'_def set_session_def sas_ok_def Let_def)
      have "sas_ok s'" unfolding s'_def
        by (rule sas_ok_set_session [OF _ k(1)]) (simp_all only: sas_ok_dev ok session_shape_opened)
      moreover have "bij_betw (mid_at (sessions s')) (rundown_boxes (insert ?k held) (sessions s')) ({..<31} - set rs)"
      proof (rule bij_boxes_cong [OF bij])
        show "rundown_boxes (insert ?k held) (sessions s') = rundown_boxes held (sessions s)"
          using k ok by (subst boxes_insert) (simp add: s'_def sas_ok_def)
        fix h assume "h \<in> rundown_boxes held (sessions s)"
        then have "fst h \<noteq> ?k" using mid_at_held [of h held "sessions s"] k(3) by auto
        then show "mid_at (sessions s') h = mid_at (sessions s) h" by (simp add: s'_def mid_at_def)
      qed
      moreover have "session_ok (LookupAxiSocket s) (LookupOcm s) (sessions s' ! i)" if "i \<in> insert ?k held" for i
        using that k ok lists by (cases "i = ?k") (auto simp: s'_def session_ok_def sas_ok_def lists_ok_def)
      moreover have "LookupAxiSocket s' = LookupAxiSocket s" "LookupOcm s' = LookupOcm s" "dev s' = d'" by (simp_all add: s'_def)
      ultimately show ?thesis
        using False True run k ids lists tl by (simp add: lists_ok_def ff create)
    qed
  qed
qed
lemma list_word_ucast8: "SAS_ENCODE FREELIST_VAL (ucast m) 0 = list_word (unat (m :: u8))"
  by (simp add: list_word_def)

lemma unat_16 [simp]: "n \<le> 8 \<Longrightarrow> unat (of_nat n :: u16) = n"
  by (simp add: unat_of_nat take_bit_eq_mod)

lemma session_shape_srcs: "session_shape x \<Longrightarrow> session_shape (x\<lparr>se_srcs := n\<rparr>)"
  by (simp add: session_shape_def)

lemma boxes_last:
  assumes "k \<in> held" "k < length xs" "unat (se_srcs (xs ! k)) = Suc n" "n < 8"
  shows "rundown_boxes held (xs[k := (xs ! k)\<lparr>se_srcs := of_nat n\<rparr>]) = rundown_boxes held xs - {(k, n)}"
    and "(k, n) \<in> rundown_boxes held xs \<longleftrightarrow> ucast (mb_intrBase (se_mbx (xs ! k) ! n)) = SAS_INTR_RUNDWN_BASE"
  using assms by (auto simp: rundown_boxes_def nth_list_update split: if_splits)

lemma bij_minus: "bij_betw f A B \<Longrightarrow> a \<in> A \<Longrightarrow> bij_betw f (A - {a}) (B - {f a})"
  by (auto simp: bij_betw_def inj_on_def)

lemma free_mailboxes_step:
  assumes "fifo_device env (util_lists (LookupAxiSocket s)) chan" "sas_ok s" "lists_ok chan held lost s fs rs" "k \<in> held"
    and "unat (se_srcs (sessions s ! k)) = n"
  shows "\<exists>s' rs'. free_mailboxes env k n s = Some s' \<and> sas_ok s' \<and> LookupAxiSocket s' = LookupAxiSocket s \<and>
    lists_ok chan held lost s' fs rs' \<and> se_srcs (sessions s' ! k) = 0"
  using assms
proof (induction n arbitrary: s rs)
  case 0
  then show ?case by (auto simp: unat_eq_0)
next
  case (Suc n)
  let ?R = "UTIL_rundwn (LookupAxiSocket s)" and ?h = "(k, n)"
  define s1 where "s1 = set_session k (\<lambda>x. x\<lparr>se_srcs := of_nat n\<rparr>) s"
  define s2 where "s2 = sas_freeMbx env (mbx_at s1 ?h) k s1"
  have k: "k < 32" "k < length (sessions s)" "session_ok (LookupAxiSocket s) (LookupOcm s) (sessions s ! k)" "n < 8"
    using Suc.prems by (auto simp: lists_ok_def sas_ok_def session_ok_def)
  have len: "length (se_mbx (sessions s ! k)) = 8" using Suc.prems(2) k(2) by (simp add: sas_ok_def session_shape_def)
  have ok1: "sas_ok s1" unfolding s1_def by (rule sas_ok_set_session [OF Suc.prems(2) k(1)]) (rule session_shape_srcs)
  have at: "sessions s1 = (sessions s)[k := (sessions s ! k)\<lparr>se_srcs := of_nat n\<rparr>]" "dev s1 = dev s" by (simp_all add: s1_def)
  have look: "LookupAxiSocket s1 = LookupAxiSocket s" "LookupOcm s1 = LookupOcm s" by (simp_all add: s1_def)
  have same: "mid_at (sessions s1) h = mid_at (sessions s) h" for h
    using k(2) by (cases "fst h = k") (simp_all add: at mid_at_def)
  note boxes = boxes_last [OF Suc.prems(4) k(2) Suc.prems(5) k(4), folded at]
  have held1: "\<forall>i \<in> held. session_ok (LookupAxiSocket s) (LookupOcm s) (sessions s1 ! i)"
    using Suc.prems(3) k by (simp add: lists_ok_def at session_ok_def nth_list_update)
  have rs: "free_ids chan ?R (dev s) rs" and bij: "bij_betw (mid_at (sessions s)) (rundown_boxes held (sessions s)) ({..<31} - set rs)"
    using Suc.prems(3) by (simp_all add: lists_ok_def)
  have mbx: "mbx_at s1 ?h = se_mbx (sessions s ! k) ! n" using k(2) by (simp add: mbx_at_def at)
  have "\<exists>rs'. lists_ok chan held lost s2 fs rs'"
  proof (cases "?h \<in> rundown_boxes held (sessions s)")
    case False
    then have "s2 = s1" using boxes(2) by (simp add: s2_def sas_freeMbx_def mbx)
    moreover have "bij_betw (mid_at (sessions s1)) (rundown_boxes held (sessions s1)) ({..<31} - set rs)"
      by (rule bij_boxes_cong [OF bij]) (use False boxes same in simp_all)
    ultimately show ?thesis using Suc.prems(3) held1 by (auto simp: lists_ok_def look at(2))
  next
    case True
    let ?m = "mid_at (sessions s) ?h"
    have s2: "s2 = write_reg env ?R (list_word ?m) s1"
      using True boxes(2) k look held1 Suc.prems(4) by (simp add: s2_def sas_freeMbx_def mbx mid_at_def list_word_ucast8 session_ok_def)
    have m: "?m \<in> {..<31} - set rs" using True bij by (auto simp: bij_betw_def)
    have "bij_betw (mid_at (sessions s1)) (rundown_boxes held (sessions s1)) ({..<31} - set (rs @ [?m]))"
    proof (rule bij_boxes_cong)
      show "bij_betw (mid_at (sessions s)) (rundown_boxes held (sessions s) - {?h}) ({..<31} - set (rs @ [?m]))"
        using bij_minus [OF bij True] by (simp add: Diff_insert [symmetric])
    qed (use boxes same in simp_all)
    moreover have "free_ids chan ?R (reg_write env ?R (list_word ?m) (dev s)) (rs @ [?m])"
      by (rule give_back [OF Suc.prems(1) _ rs]) (use m in simp_all)
    moreover have "free_ids chan (UTIL_session (LookupAxiSocket s)) (reg_write env ?R (list_word ?m) (dev s)) fs"
      by (rule free_ids_other(2) [OF Suc.prems(1)]) (use Suc.prems(3) in \<open>simp_all add: lists_ok_def\<close>)
    ultimately show ?thesis
      using Suc.prems(3) held1 m by (intro exI [of _ "rs @ [?m]"]) (simp add: lists_ok_def s2 look at(2))
  qed
  then obtain rs' where lists2: "lists_ok chan held lost s2 fs rs'" ..
  have s2: "sas_ok s2" "LookupAxiSocket s2 = LookupAxiSocket s" "unat (se_srcs (sessions s2 ! k)) = n"
    using ok1 look k by (simp_all add: s2_def sas_freeMbx_def at)
  show ?case
    using Suc.IH [of s2 rs'] Suc.prems(1,4) lists2 s2 len k by (simp add: s1_def [symmetric] s2_def [symmetric] at)
qed
lemma free_sync_keeps:
  assumes dev: "fifo_device env (util_lists (LookupAxiSocket s)) chan" and "sas_ok s" "lists_ok chan held lost s fs rs" "k < 32"
  shows "sas_ok (IntrFreeSync env k s)" "LookupAxiSocket (IntrFreeSync env k s) = LookupAxiSocket s" "lists_ok chan held lost (IntrFreeSync env k s) fs rs"
proof -
  let ?f = "\<lambda>x. x\<lparr>se_sync := 0\<rparr> :: session"
  have nth: "(sessions s)[k := ?f (sessions s ! k)] ! i = (if i = k then ?f (sessions s ! i) else sessions s ! i)" for i
    using assms by (simp add: sas_ok_def)
  show "sas_ok (IntrFreeSync env k s)"
    unfolding IntrFreeSync_def by (rule sas_ok_set_session) (use assms in \<open>simp_all add: session_shape_def\<close>)
  have "rundown_boxes held ((sessions s)[k := ?f (sessions s ! k)]) = rundown_boxes held (sessions s)"
    by (auto simp: rundown_boxes_def nth split: if_splits)
  moreover have "mid_at ((sessions s)[k := ?f (sessions s ! k)]) h = mid_at (sessions s) h" for h by (simp add: mid_at_def nth)
  then have "mid_at ((sessions s)[k := ?f (sessions s ! k)]) = mid_at (sessions s)" by blast
  ultimately show "lists_ok chan held lost (IntrFreeSync env k s) fs rs"
    using assms(3) fifo_after_delete [OF dev] by (simp add: lists_ok_def IntrFreeSync_def nth session_ok_def free_ids_def)
  show "LookupAxiSocket (IntrFreeSync env k s) = LookupAxiSocket s" by (simp add: IntrFreeSync_def)
qed

lemma session_shape_no_session: "session_shape no_session" 
  by (simp add: session_shape_def no_session_def)

lemma close_step:
  assumes dev: "fifo_device env (util_lists (LookupAxiSocket s)) chan" and ok: "sas_ok s" and lists: "lists_ok chan held lost s fs rs" and k: "k \<in> held"
  shows "\<exists>s' rs'. SAS_Close env k s = Some s' \<and> sas_ok s' \<and> LookupAxiSocket s' = LookupAxiSocket s \<and> 
    lists_ok chan (held - {k}) lost s' (fs @ [k]) rs'"
proof -
  let ?U = "UTIL_session (LookupAxiSocket s)"
  define s0 where "s0 = (if se_sync (sessions s ! k) \<noteq> 0 then IntrFreeSync env k s else s)"
  have k32: "k < 32" using lists k by (auto simp: lists_ok_def)
  have s0: "sas_ok s0" "LookupAxiSocket s0 = LookupAxiSocket s" "lists_ok chan held lost s0 fs rs"
    using free_sync_keeps [OF dev ok lists k32] ok lists by (simp_all add: s0_def)
  obtain s1 rs' where free: "free_mailboxes env k (unat (se_srcs (sessions s0 ! k))) s0 = Some s1"
    and s1: "sas_ok s1" "LookupAxiSocket s1 = LookupAxiSocket s" "lists_ok chan held lost s1 fs rs'" "se_srcs (sessions s1 ! k) = 0"
    using free_mailboxes_step [of env s0 chan held lost fs rs k] dev s0 k by auto
  have ids: "free_ids chan ?U (dev s1) fs" "k \<notin> set fs" "free_ids chan (UTIL_rundwn (LookupAxiSocket s)) (dev s1) rs'"
    and bij: "bij_betw (mid_at (sessions s1)) (rundown_boxes held (sessions s1)) ({..<31} - set rs')"
    and axi: "se_axi (sessions s1 ! k) = LookupAxiSocket s"
    using s1 k by (auto simp: lists_ok_def session_ok_def)
  define s2 where "s2 = set_session k (\<lambda>_. no_session) (write_reg env ?U (list_word k) s1)"
  have run: "SAS_Close env k s = Some s2"
    unfolding SAS_Close_def s0_def [symmetric] Let_def by (simp add: free axi s2_def list_word_def)
  have "sas_ok s2" unfolding s2_def by (rule sas_ok_set_session [OF _ k32]) (simp_all only: sas_ok_write s1(1) session_shape_no_session)
  moreover have "bij_betw (mid_at (sessions s2)) (rundown_boxes (held - {k}) (sessions s2)) ({..<31} - set rs')"
  proof (rule bij_boxes_cong [OF bij])
    show "rundown_boxes (held - {k}) (sessions s2) = rundown_boxes held (sessions s1)"
      using s1(4) by (auto simp: s2_def rundown_boxes_def [of held]) (auto simp: rundown_boxes_def)
    fix h assume "h \<in> rundown_boxes held (sessions s1)"
    then have "fst h \<noteq> k" using s1(4) by (auto simp: rundown_boxes_def)
    then show "mid_at (sessions s2) h = mid_at (sessions s1) h" by (simp add: s2_def mid_at_def)
  qed
  moreover have "free_ids chan ?U (dev s2) (fs @ [k])" unfolding s2_def set_session_simps write_reg_simps
    by (rule give_back [OF dev _ ids(1,2)]) simp
  moreover have "free_ids chan (UTIL_rundwn (LookupAxiSocket s)) (dev s2) rs'" unfolding s2_def set_session_simps write_reg_simps
    by (rule free_ids_other(2) [OF dev _ ids(3)]) simp_all
  moreover have "\<forall>i \<in> held - {k}. sessions s2 ! i = sessions s1 ! i" by (simp add: s2_def)
  moreover have "LookupAxiSocket s2 = LookupAxiSocket s" "LookupOcm s2 = LookupOcm s1" by (simp_all add: s2_def s1)
  moreover have "set (fs @ [k]) = {..<32} - ((held - {k}) \<union> lost)" using s1(3) k k32 by (auto simp: lists_ok_def)
  ultimately show ?thesis
    using run s1 by (intro exI [of _ s2] exI [of _ rs']) (auto simp: lists_ok_def)
qed
text \<open>What binding makes of a session.\<close>

definition bound_session :: "session \<Rightarrow> session \<Rightarrow> u8 \<Rightarrow> u32 \<Rightarrow> bool" where
  "bound_session x x' mid base \<longleftrightarrow> session_shape x' \<and> se_axi x' = se_axi x \<and> se_ocm x' = se_ocm x \<and> unat (se_srcs x') = Suc (unat (se_srcs x)) \<and>
     (\<exists>m. se_mbx x' = (se_mbx x)[unat (se_srcs x) := m] \<and> mb_mid m = mid \<and> mb_intrBase m = ucast base)"

lemma intr_sync_set: "intr_sync_ok t \<Longrightarrow> i < 8 \<Longrightarrow> intr_sync_ok (t[i := (t ! i)[j := v]])"
  by (auto simp: intr_sync_ok_def dest!: set_update_subset_insert [THEN subsetD])

lemma unat_16_Suc: "unat (n :: u16) < 8 \<Longrightarrow> unat (n + 1) = Suc (unat n)"
  by (simp add: unat_word_ariths)

lemma bind_both_eq:
  assumes ok: "sas_ok s" and k: "k < 32" and n: "unat (se_srcs (sessions s ! k)) < 8"
  shows "(bind_both k sock pend handler mid ctx base s = None \<longleftrightarrow> \<not> unat (base + ucast mid) < 64) \<and>
    (unat (base + ucast mid) < 64 \<longrightarrow> (\<exists>x sync. bind_both k sock pend handler mid ctx base s =
       Some (Some (k, unat (se_srcs (sessions s ! k))), s\<lparr>sessions := (sessions s)[k := x], intrSync := sync\<rparr>) \<and>
     intr_sync_ok sync \<and> bound_session (sessions s ! k) x mid base))"
proof -
  let ?x = "sessions s ! k" let ?n = "unat (se_srcs ?x)"
  have len: "k < length (sessions s)" "length (se_mbx ?x) = 8" "length (se_pend ?x) = 8" "length (intrMap s) = 64"
    using ok k by (simp_all add: sas_ok_def session_shape_def intr_map_ok_def)
  define m where "m = (se_mbx ?x ! ?n)\<lparr>mb_ocm := se_ocm ?x, mb_socket := sock, mb_handler := handler, mb_idx := ucast (se_srcs ?x),
               mb_mid := mid, mb_context := ctx, mb_pend := pend\<rparr>"
  define x where "x = ?x\<lparr>se_mbx := (se_mbx ?x)[?n := m], se_pend := (se_pend ?x)[?n := pend], se_srcs := se_srcs ?x + 1\<rparr>"
  define t where "t = s\<lparr>sessions := (sessions s)[k := x]\<rparr>"
  have bind: "sas_bindMbx k sock pend handler mid ctx s = Some ((k, ?n), t)"
    using n len by (simp add: sas_bindMbx_def Let_def set_mbx_def set_session_def m_def x_def t_def)
  have t: "mbx_at t (k, ?n) = m" "sessions t ! k = x" "intrMap t = intrMap s" "intrSync t = intrSync s" "mb_mid m = mid"
    using len n by (simp_all add: t_def mbx_at_def x_def m_def)
  let ?i = "unat (base + ucast mid)"
  show ?thesis
  proof (cases "?i < 64")
    case False
    then show ?thesis by (simp add: bind_both_def bind sas_bindMbxIntr_def t len Let_def)
  next
    case True
    let ?e = "intrMap s ! ?i"
    define m' where "m' = m\<lparr>mb_enab := ucast (intr_enable (se_axi x) (ucast (im_group ?e)) - se_axi x), mb_mask := ucast (im_source ?e),
      mb_intrBase := ucast base\<rparr>"
    define x' where "x' = x\<lparr>se_mbx := (se_mbx x)[?n := m']\<rparr>"
    define sync where "sync = (intrSync s)[unat (im_group ?e) := (intrSync s ! unat (im_group ?e))[unat (im_source ?e) := se_sync x]]"
    have e: "unat (im_group ?e) < 8" "unat (im_source ?e) < 32" using ok True len by (simp_all add: sas_ok_def intr_map_ok_def)
    have sync_ok: "intr_sync_ok (intrSync s)" using ok by (simp add: sas_ok_def)
    have row: "unat (im_group ?e) < length (intrSync s)" "unat (im_source ?e) < length (intrSync s ! unat (im_group ?e))"
      using sync_ok e by (simp_all add: intr_sync_ok_def)
    have "sas_bindMbxIntr (k, ?n) base t = Some (s\<lparr>sessions := (sessions s)[k := x'], intrSync := sync\<rparr>)"
      using True len row t n unfolding sas_bindMbxIntr_def Let_def
      by (simp add: set_mbx_def set_session_def t_def m'_def x'_def sync_def x_def)
    then have "bind_both k sock pend handler mid ctx base s = Some (Some (k, ?n), s\<lparr>sessions := (sessions s)[k := x'], intrSync := sync\<rparr>)"
      by (simp add: bind_both_def bind)
    moreover have "intr_sync_ok sync" unfolding sync_def by (rule intr_sync_set [OF sync_ok e(1)])
    moreover have "bound_session ?x x' mid base"
      using len n by (auto simp: bound_session_def session_shape_def x'_def x_def m'_def m_def unat_16_Suc)
    ultimately show ?thesis using True by (simp only: simp_thms not_None_eq option.simps) blast
  qed
qed

lemma boxes_bound:
  assumes x: "bound_session (xs ! k) x mid base" and k: "k \<in> held" "k < length xs" and n: "n = unat (se_srcs (xs ! k))" "n < length (se_mbx (xs ! k))"
  shows "rundown_boxes held (xs[k := x]) =
      (if ucast (ucast base :: u16) = SAS_INTR_RUNDWN_BASE then insert (k, n) (rundown_boxes held xs) else rundown_boxes held xs)"
    and "mid_at (xs[k := x]) (k, n) = unat mid"
    and "h \<in> rundown_boxes held xs \<Longrightarrow> mid_at (xs[k := x]) h = mid_at xs h"
    and "(k, n) \<notin> rundown_boxes held xs"
proof -
  have nth: "xs[k := x] ! i = (if i = k then x else xs ! i)" for i using k by simp
  obtain m where m: "se_mbx x = (se_mbx (xs ! k))[n := m]" "mb_mid m = mid" "mb_intrBase m = ucast base" "unat (se_srcs x) = Suc n"
    using x n by (auto simp: bound_session_def)
  show "rundown_boxes held (xs[k := x]) =
      (if ucast (ucast base :: u16) = SAS_INTR_RUNDWN_BASE then insert (k, n) (rundown_boxes held xs) else rundown_boxes held xs)"
    using k n m by (auto simp: rundown_boxes_def nth less_Suc_eq nth_list_update split: if_splits)
  show "mid_at (xs[k := x]) (k, n) = unat mid" using m n by (simp add: mid_at_def nth)
  show "(k, n) \<notin> rundown_boxes held xs" using n by (simp add: rundown_boxes_def)
  assume "h \<in> rundown_boxes held xs"
  then have "fst h = k \<Longrightarrow> snd h \<noteq> n" using n by (auto simp: rundown_boxes_def)
  then show "mid_at (xs[k := x]) h = mid_at xs h" using m by (cases "fst h = k") (simp_all add: mid_at_def nth)
qed
lemma sas_ok_bound:
  assumes "sas_ok s" "k < 32" "bound_session x0 x mid base" "intr_sync_ok sync"
  shows "sas_ok (s\<lparr>sessions := (sessions s)[k := x], intrSync := sync\<rparr>)"
  using assms by (auto simp: sas_ok_def bound_session_def dest!: set_update_subset_insert [THEN subsetD])

lemma bound_base_lists:
  assumes ok: "sas_ok s" and k: "k \<in> held" and x: "bound_session (sessions s ! k) x mid base" and n: "unat (se_srcs (sessions s ! k)) < 8"
    and lists: "lists_ok chan held lost s fs rs" and free: "free_ids chan (UTIL_rundwn (LookupAxiSocket s)) d rs'"
      "free_ids chan (UTIL_session (LookupAxiSocket s)) d fs"
    and taken: "if base = SAS_INTR_RUNDWN_BASE then rs = unat mid # rs' else rs = rs' \<and> ucast (ucast base :: u16) \<noteq> SAS_INTR_RUNDWN_BASE"
  shows "lists_ok chan held lost (s\<lparr>dev := d, sessions := (sessions s)[k := x], intrSync := sync\<rparr>) fs rs'"
proof -
  let ?xs = "sessions s" let ?n = "unat (se_srcs (?xs ! k))"
  have k': "k < 32" "k < length ?xs" "?n < length (se_mbx (?xs ! k))" "session_ok (LookupAxiSocket s) (LookupOcm s) (?xs ! k)"
    using ok k n lists by (auto simp: lists_ok_def sas_ok_def session_shape_def)
  note boxes = boxes_bound [OF x k k'(2) refl k'(3)]
  have bij: "bij_betw (mid_at ?xs) (rundown_boxes held ?xs) ({..<31} - set rs)" using lists by (simp add: lists_ok_def)
  have same: "bij_betw (mid_at (?xs[k := x])) (rundown_boxes held ?xs) ({..<31} - set rs)"
    by (rule bij_boxes_cong [OF bij refl]) (rule boxes(3))
  have "bij_betw (mid_at (?xs[k := x])) (rundown_boxes held (?xs[k := x])) ({..<31} - set rs')"
  proof (cases "base = SAS_INTR_RUNDWN_BASE")
    case False
    then show ?thesis using same taken boxes(1) by simp
  next
    case True
    have "rs = unat mid # rs'" "unat mid < 31" "distinct rs" using taken True lists by (auto simp: lists_ok_def free_ids_def)
    then have diff: "{..<31} - set rs' = insert (unat mid) ({..<31} - set rs)" "unat mid \<notin> {..<31} - set rs" by auto
    have "rundown_boxes held (?xs[k := x]) = insert (k, ?n) (rundown_boxes held ?xs)"
      using boxes(1) True by (simp add: SAS_INTR_RUNDWN_BASE_def)
    moreover have "bij_betw (mid_at (?xs[k := x])) (insert (k, ?n) (rundown_boxes held ?xs)) (insert (unat mid) ({..<31} - set rs))"
      using bij_betw_combine [OF same, of "{(k, ?n)}" "{unat mid}"] diff(2) boxes(2) by (simp add: bij_betw_def)
    ultimately show ?thesis by (simp only: diff(1))
  qed
  moreover have "session_ok (LookupAxiSocket s) (LookupOcm s) (?xs[k := x] ! i)" if "i \<in> held" for i
    using lists that k' n x by (cases "i = k") (simp_all add: lists_ok_def session_ok_def bound_session_def)
  moreover have "set rs' \<subseteq> {..<31}" using lists taken by (auto simp: lists_ok_def split: if_splits)
  ultimately show ?thesis using lists free by (simp add: lists_ok_def)
qed

lemma rundown_read:
  assumes dev: "fifo_device env (util_lists (LookupAxiSocket s)) chan" and lists: "lists_ok chan held lost s fs rs" and k: "k \<in> held"
    and read: "read_reg env (UTIL_rundwn (se_axi (sessions s ! k))) s = (v, s1)"
  shows "\<exists>d. s1 = s\<lparr>dev := d\<rparr> \<and> free_ids chan (UTIL_session (LookupAxiSocket s)) d fs \<and>
    free_ids chan (UTIL_rundwn (LookupAxiSocket s)) d (tl rs) \<and> 
    (if rs = [] then SAS_DECODE INPUT_EMPTY v \<noteq> 0
     else SAS_DECODE INPUT_EMPTY v = 0 \<and> SAS_DECODE FREELIST_VAL v = of_nat (hd rs) \<and> hd rs < 31)"
proof -
  have axi: "se_axi (sessions s ! k) = LookupAxiSocket s" using lists k by (simp add: lists_ok_def session_ok_def)
  obtain d where d: "reg_read env (UTIL_rundwn (LookupAxiSocket s)) (dev s) = (v, d)" "s1 = s\<lparr>dev := d\<rparr>"
    using read by (auto simp: read_reg_def axi split: prod.splits)
  have rs: "free_ids chan (UTIL_rundwn (LookupAxiSocket s)) (dev s) rs" "set rs \<subseteq> {..<31}"
    "free_ids chan (UTIL_session (LookupAxiSocket s)) (dev s) fs" using lists by (simp_all add: lists_ok_def)
  have "free_ids chan (UTIL_session (LookupAxiSocket s)) d fs"
    using free_ids_other(1) [OF dev _ rs(3), of "UTIL_rundwn (LookupAxiSocket s)"] d by simp
  then show ?thesis using take_free [OF dev _ rs(1,2) _ d(1)] d(2) by (cases "rs = []") auto
qed

text \<open>Binding that takes a number of the rundown list: \<^verbatim>\<open>SAS_Bind\<close> and, its socket found, \<^verbatim>\<open>SAS_ObBind\<close>.\<close>

definition take_rundown :: "'d sas_env \<Rightarrow> nat \<Rightarrow> u32 \<Rightarrow> u32 \<Rightarrow> u32 \<Rightarrow> 'd sas \<Rightarrow> (handle option \<times> 'd sas) option" where
  "take_rundown env k sock handler ctx s =
     (let (off, s) = read_reg env (UTIL_rundwn (se_axi (sessions s ! k))) s in
        if SAS_DECODE INPUT_EMPTY off \<noteq> 0 then Some (None, s)
        else let off = SAS_DECODE FREELIST_VAL off in
          bind_both k sock (rundown_fifo k off s) handler (ucast off) ctx SAS_INTR_RUNDWN_BASE s)"

lemma take_rundown_step:
  assumes dev: "fifo_device env (util_lists (LookupAxiSocket s)) chan" and ok: "sas_ok s" and lists: "lists_ok chan held lost s fs rs" and k: "k \<in> held"
    and n: "unat (se_srcs (sessions s ! k)) < 8"
  shows "\<exists>s'. take_rundown env k sock handler ctx s = Some (if rs = [] then None else Some (k, unat (se_srcs (sessions s ! k))), s') \<and> sas_ok s' \<and>
    LookupAxiSocket s' = LookupAxiSocket s \<and> lists_ok chan held lost s' fs (tl rs)"
proof -
  obtain v s1 where read: "read_reg env (UTIL_rundwn (se_axi (sessions s ! k))) s = (v, s1)" by (rule prod.exhaust)
  obtain d where d: "s1 = s\<lparr>dev := d\<rparr>" and free: "free_ids chan (UTIL_rundwn (LookupAxiSocket s)) d (tl rs)"
      "free_ids chan (UTIL_session (LookupAxiSocket s)) d fs"
    and v: "if rs = [] then SAS_DECODE INPUT_EMPTY v \<noteq> 0
     else SAS_DECODE INPUT_EMPTY v = 0 \<and> SAS_DECODE FREELIST_VAL v = of_nat (hd rs) \<and> hd rs < 31"
    using rundown_read [OF dev lists k read] by blast
  show ?thesis
  proof (cases "rs = []")
    case True
    then show ?thesis using v d free lists ok by (simp add: take_rundown_def read lists_ok_def)
  next
    case False
    let ?mid = "ucast (of_nat (hd rs) :: u32) :: u8"
    have mid: "unat ?mid = hd rs" "unat (SAS_INTR_RUNDWN_BASE + ucast ?mid) < 64"
      using v False by (simp_all add: SAS_INTR_RUNDWN_BASE_def unat_of_nat unsigned_ucast_eq take_bit_eq_mod unat_word_ariths)
    have k32: "k < 32" using lists k by (auto simp: lists_ok_def)
    have n1: "unat (se_srcs (sessions s1 ! k)) < 8" and ok1: "sas_ok s1" using n ok d by simp_all
    obtain x sync where bind: "bind_both k sock (rundown_fifo k (of_nat (hd rs)) s1) handler ?mid ctx SAS_INTR_RUNDWN_BASE s1 =
         Some (Some (k, unat (se_srcs (sessions s1 ! k))), s1\<lparr>sessions := (sessions s1)[k := x], intrSync := sync\<rparr>)"
        "intr_sync_ok sync" "bound_session (sessions s1 ! k) x ?mid SAS_INTR_RUNDWN_BASE"
      using bind_both_eq [OF ok1 k32 n1] mid(2) by blast
    have "lists_ok chan held lost (s\<lparr>dev := d, sessions := (sessions s)[k := x], intrSync := sync\<rparr>) fs (tl rs)"
    proof (rule bound_base_lists [OF ok k _ n lists free])
      show "bound_session (sessions s ! k) x ?mid SAS_INTR_RUNDWN_BASE" using bind(3) d by simp
      have "rs = unat ?mid # tl rs" unfolding mid(1) using False by simp
      then show "if SAS_INTR_RUNDWN_BASE = SAS_INTR_RUNDWN_BASE then rs = unat ?mid # tl rs
          else rs = tl rs \<and> ucast (ucast SAS_INTR_RUNDWN_BASE :: u16) \<noteq> SAS_INTR_RUNDWN_BASE" by (simp only: if_True simp_thms)
    qed
    moreover have "sas_ok (s1\<lparr>sessions := (sessions s1)[k := x], intrSync := sync\<rparr>)"
      by (rule sas_ok_bound [OF ok1 k32 bind(3,2)])
    moreover have "take_rundown env k sock handler ctx s = Some (Some (k, unat (se_srcs (sessions s ! k))), s1\<lparr>sessions := (sessions s1)[k := x], intrSync := sync\<rparr>)"
      using v False bind(1) d by (simp add: take_rundown_def read Let_def)
    ultimately show ?thesis using False d by simp
  qed
qed
lemma SAS_Bind_take:
  "SAS_Bind env handler ctx k s = (if no_room k s then Some (None, s) else take_rundown env k 0 handler ctx s)"
  by (simp add: SAS_Bind_def take_rundown_def)

lemma SAS_ObBind_take:
  "SAS_ObBind env name handler ctx k s = (if no_room k s then Some (None, s)
     else do { sock \<leftarrow> sas_lookupSocket name k s; if sock = 0 then Some (None, s) else take_rundown env k sock handler ctx s })"
  unfolding SAS_ObBind_def take_rundown_def ..

lemma no_room_iff: "sas_ok s \<Longrightarrow> lists_ok chan held lost s fs rs \<Longrightarrow> k \<in> held \<Longrightarrow> no_room k s \<longleftrightarrow> \<not> unat (se_srcs (sessions s ! k)) < 8"
  by (auto simp: no_room_def)

text \<open>Binding that takes no number.\<close>

lemma plain_bind_step:
  assumes ok: "sas_ok s" and lists: "lists_ok chan held lost s fs rs" and k: "k \<in> held" and n: "unat (se_srcs (sessions s ! k)) < 8"
    and base: "ucast (ucast base :: u16) \<noteq> SAS_INTR_RUNDWN_BASE" "base \<noteq> SAS_INTR_RUNDWN_BASE"
    and bind: "bind_both k sock pend handler mid ctx base s = Some (r, s')"
  shows "sas_ok s' \<and> LookupAxiSocket s' = LookupAxiSocket s \<and> lists_ok chan held lost s' fs rs"
proof -
  have k32: "k < 32" using lists k by (auto simp: lists_ok_def)
  obtain x sync where x: "s' = s\<lparr>sessions := (sessions s)[k := x], intrSync := sync\<rparr>" "intr_sync_ok sync" "bound_session (sessions s ! k) x mid base"
    using bind_both_eq [OF ok k32 n, of sock pend handler mid ctx base] bind by auto
  have free: "free_ids chan (UTIL_rundwn (LookupAxiSocket s)) (dev s) rs" "free_ids chan (UTIL_session (LookupAxiSocket s)) (dev s) fs"
    using lists by (simp_all add: lists_ok_def)
  have "lists_ok chan held lost (s\<lparr>dev := dev s, sessions := (sessions s)[k := x], intrSync := sync\<rparr>) fs rs"
    by (rule bound_base_lists [OF ok k x(3) n lists free]) (simp add: base)
  then show ?thesis using sas_ok_bound [OF ok k32 x(3,2)] by (simp add: x(1))
qed

lemma bind_steps:
  assumes dev: "fifo_device env (util_lists (LookupAxiSocket s)) chan" and ok: "sas_ok s" and lists: "lists_ok chan held lost s fs rs" and k: "k \<in> held"
    and bind: "SAS_Bind env handler ctx k s = Some (r, s') \<or> SAS_ObBind env name handler ctx k s = Some (r, s') \<or>
      SAS_IbBind name handler ctx k s = Some (r, s') \<or> SAS_AppBind name handler ctx k s = Some (r, s')"
  shows "sas_ok s' \<and> LookupAxiSocket s' = LookupAxiSocket s \<and> (\<exists>rs'. lists_ok chan held lost s' fs rs')"
proof (cases "no_room k s")
  case True
  then show ?thesis
    using bind ok lists by (auto simp: SAS_Bind_def SAS_ObBind_def SAS_IbBind_def SAS_AppBind_def)
next
  case False
  then have n: "unat (se_srcs (sessions s ! k)) < 8" by (simp add: no_room_iff [OF ok lists k])
  have bases: "ucast (ucast SAS_INTR_PPI_IBPEND_BASE :: u16) \<noteq> SAS_INTR_RUNDWN_BASE" "SAS_INTR_PPI_IBPEND_BASE \<noteq> SAS_INTR_RUNDWN_BASE"
    "ucast (ucast SAS_INTR_APP_BASE :: u16) \<noteq> SAS_INTR_RUNDWN_BASE" "SAS_INTR_APP_BASE \<noteq> SAS_INTR_RUNDWN_BASE"
    by (simp_all add: SAS_INTR_PPI_IBPEND_BASE_def SAS_INTR_RUNDWN_BASE_def SAS_INTR_APP_BASE_def)
  consider (same) "s' = s" | (taken) sock where "take_rundown env k sock handler ctx s = Some (r, s')"
    | (plain) sock pend mid base where "bind_both k sock pend handler mid ctx base s = Some (r, s')"
      "base = SAS_INTR_PPI_IBPEND_BASE \<or> base = SAS_INTR_APP_BASE"
    using bind False unfolding SAS_Bind_take SAS_ObBind_take SAS_IbBind_def SAS_AppBind_def
    by (auto simp: Let_def bind_eq_Some_conv split: if_splits)
  then show ?thesis
  proof cases
    case same
    then show ?thesis using ok lists by auto
  next
    case taken
    then show ?thesis using take_rundown_step [OF dev ok lists k n, of sock handler ctx] by auto
  next
    case plain
    then show ?thesis using plain_bind_step [OF ok lists k n _ _ plain(1)] bases by auto
  qed
qed

subsection \<open>Clients of sessions\<close>

text \<open>
  The runs of the facility: \<open>sas_run env s0 held lost s\<close> when the clients hold the sessions \<open>held\<close> after any sequence
  of openings, bindings in held sessions and closings of held sessions. \<open>lost\<close> collects the sessions that an
  opening took off the session list and did not return.
\<close>

inductive sas_run :: "'d sas_env \<Rightarrow> 'd sas \<Rightarrow> nat set \<Rightarrow> nat set \<Rightarrow> 'd sas \<Rightarrow> bool" for env s0 where
  start: "sas_run env s0 {} {} s0"
| opened: "sas_run env s0 held lost s \<Longrightarrow> SAS_Open env s = Some (Some k, s') \<Longrightarrow> sas_run env s0 (insert k held) lost s'"
| not_opened: "sas_run env s0 held lost s \<Longrightarrow> SAS_Open env s = Some (None, s') \<Longrightarrow>
    SAS_DECODE INPUT_EMPTY (first_free env s) \<noteq> 0 \<Longrightarrow> sas_run env s0 held lost s'"
| session_lost: "sas_run env s0 held lost s \<Longrightarrow> SAS_Open env s = Some (None, s') \<Longrightarrow>
    SAS_DECODE INPUT_EMPTY (first_free env s) = 0 \<Longrightarrow>
    sas_run env s0 held (insert (unat (SAS_DECODE FREELIST_VAL (first_free env s))) lost) s'"
| bound: "sas_run env s0 held lost s \<Longrightarrow> k \<in> held \<Longrightarrow>
    SAS_Bind env handler ctx k s = Some (r, s') \<or> SAS_ObBind env name handler ctx k s = Some (r, s') \<or>
      SAS_IbBind name handler ctx k s = Some (r, s') \<or> SAS_AppBind name handler ctx k s = Some (r, s') \<Longrightarrow>
    sas_run env s0 held lost s'"
| closed: "sas_run env s0 held lost s \<Longrightarrow> k \<in> held \<Longrightarrow> SAS_Close env k s = Some s' \<Longrightarrow> sas_run env s0 (held - {k}) lost s'"

lemma sas_run_keeps:
  assumes run: "sas_run env s0 held lost s" and dev: "fifo_device env (util_lists (LookupAxiSocket s0)) chan"
    and init: "sas_ok s0" "lists_ok chan {} {} s0 fs0 rs0"
  shows "sas_ok s \<and> LookupAxiSocket s = LookupAxiSocket s0 \<and> (\<exists>fs rs. lists_ok chan held lost s fs rs) \<and>
    ((\<forall>d. fst (fst (semaphore_create env d)) = 0) \<longrightarrow> lost = {})"
  using run
proof induction
  case start
  then show ?case using init by blast
next
  case (opened held lost s k s')
  then obtain fs rs where lists: "lists_ok chan held lost s fs rs" by blast
  have ih: "sas_ok s" "LookupAxiSocket s = LookupAxiSocket s0" "(\<forall>d. fst (fst (semaphore_create env d)) = 0) \<longrightarrow> lost = {}"
    using opened.IH by blast+
  have "fifo_device env (util_lists (LookupAxiSocket s)) chan" using dev ih(2) by simp
  from open_step [OF this ih(1) lists] show ?case using opened.hyps(2-) ih by (cases "fs = []"; cases "no_semaphore env s") auto
next
  case (not_opened held lost s s')
  then obtain fs rs where lists: "lists_ok chan held lost s fs rs" by blast
  have ih: "sas_ok s" "LookupAxiSocket s = LookupAxiSocket s0" "(\<forall>d. fst (fst (semaphore_create env d)) = 0) \<longrightarrow> lost = {}"
    using not_opened.IH by blast+
  have "fifo_device env (util_lists (LookupAxiSocket s)) chan" using dev ih(2) by simp
  from open_step [OF this ih(1) lists] show ?case using not_opened.hyps(2-) ih by (cases "fs = []"; cases "no_semaphore env s") auto
next
  case (session_lost held lost s s')
  then obtain fs rs where lists: "lists_ok chan held lost s fs rs" by blast
  have ih: "sas_ok s" "LookupAxiSocket s = LookupAxiSocket s0" using session_lost.IH by blast+
  have dev': "fifo_device env (util_lists (LookupAxiSocket s)) chan" using dev ih(2) by simp
  have "\<not> no_semaphore env s" if "\<forall>d. fst (fst (semaphore_create env d)) = 0" using that by (simp add: no_semaphore_def)
  with open_step [OF dev' ih(1) lists] show ?case
    using session_lost.hyps(2-) ih by (cases "fs = []"; cases "no_semaphore env s") auto
next
  case (bound held lost s k handler ctx r s' name)
  then obtain fs rs where lists: "lists_ok chan held lost s fs rs" by blast
  have "sas_ok s' \<and> LookupAxiSocket s' = LookupAxiSocket s \<and> (\<exists>rs'. lists_ok chan held lost s' fs rs')"
    by (rule bind_steps [OF _ _ lists bound.hyps(2,3)]) (use bound.IH dev in auto)
  then show ?case using bound.IH by auto
next
  case (closed held lost s k s')
  then obtain fs rs where lists: "lists_ok chan held lost s fs rs" by blast
  show ?case using close_step [OF _ _ lists closed.hyps(2), of env] dev closed by auto
qed
subsection \<open>Construction\<close>

text \<open>The state that construction works on, with what the two utility lists hold.\<close>

definition boot_state :: "(u32 \<Rightarrow> 'd \<Rightarrow> u32 list) \<Rightarrow> InterruptMap list \<Rightarrow> u32 list \<Rightarrow> u32 list \<Rightarrow> 'd sas \<Rightarrow> bool" where
  "boot_state chan im us rs s \<longleftrightarrow> sessions s = replicate 32 no_session \<and> intrMap s = im \<and>
     (\<forall>n. mem_Region_startAddress n (sas_regions s) = mem_Region_startAddress n mem_RegionTable) \<and>
     SasAxi s = SOCKET_START \<and> chan (UTIL_session SOCKET_START) (dev s) = us \<and> chan (UTIL_rundwn SOCKET_START) (dev s) = rs"

lemma region_starts:
  "mem_Region_startAddress MEM_REGION_SOCKET mem_RegionTable = SOCKET_START"
  "mem_Region_startAddress MEM_REGION_OCM mem_RegionTable = 0xfffc0000"
  "mem_Region_startAddress MEM_REGION_HIGHREG mem_RegionTable = 0xf8000000"
  by (simp_all add: mem_Region_startAddress_def region_table_defs LOG2_SMALL_PAGE_def LOG2_SECTION_def push_bit_eq_mult)

lemma boot_write:
  assumes "fifo_device env (util_lists SOCKET_START) chan" "boot_state chan im us rs s"
  shows "boot_state chan im (if a = UTIL_session SOCKET_START then us @ [v] else us) (if a = UTIL_rundwn SOCKET_START then rs @ [v] else rs)
    (write_reg env a v s)"
  using assms fifo_after_write [OF assms(1), of "UTIL_session SOCKET_START"] fifo_after_write [OF assms(1), of "UTIL_rundwn SOCKET_START"]
  by (auto simp: boot_state_def write_reg_def)

lemma boot_write_other:
  assumes "fifo_device env (util_lists SOCKET_START) chan" "boot_state chan im us rs s" "a \<notin> util_lists SOCKET_START"
  shows "boot_state chan im us rs (write_reg env a v s)"
  using boot_write [OF assms(1,2), of a v] assms(3) by (auto simp: util_lists_def split: if_splits)

lemma boot_session_list:
  assumes dev: "fifo_device env (util_lists SOCKET_START) chan" and boot: "boot_state chan im [] rs s"
  shows "boot_state chan im (map list_word [0 ..< 32]) rs (constructSessionList env s)"
proof -
  let ?f = "\<lambda>i s. write_reg env (UTIL_session (SasAxi s)) (SAS_ENCODE FREELIST_VAL (of_nat i) 0) (set_session i (\<lambda>_. no_session) s)"
  have "n \<le> 32 \<Longrightarrow> boot_state chan im (map list_word [0 ..< n]) rs (fold ?f [0 ..< n] s)" for n
  proof (induction n)
    case 0
    then show ?case using boot by simp
  next
    case (Suc n)
    let ?s = "fold ?f [0 ..< n] s"
    have b: "boot_state chan im (map list_word [0 ..< n]) rs ?s" using Suc by simp
    then have "set_session n (\<lambda>_. no_session) ?s = ?s" using Suc.prems by (simp add: boot_state_def set_session_def list_update_same_conv)
    moreover have "SasAxi ?s = SOCKET_START" using b by (simp add: boot_state_def)
    ultimately show ?case using boot_write [OF dev b, of "UTIL_session SOCKET_START" "list_word n"] by (simp add: list_word_def [symmetric])
  qed
  then show ?thesis by (simp add: constructSessionList_def)
qed

lemma boot_rundown_list:
  assumes dev: "fifo_device env (util_lists SOCKET_START) chan" and boot: "boot_state chan im us [] s"
  shows "boot_state chan im us (map list_word [0 ..< 31]) (constructRundwnList env s)"
proof -
  let ?f = "\<lambda>i s. write_reg env (UTIL_rundwn (SasAxi s)) (SAS_ENCODE FREELIST_VAL (of_nat i) 0) s"
  have "boot_state chan im us (map list_word [0 ..< n]) (fold ?f [0 ..< n] s)" for n
  proof (induction n)
    case 0
    then show ?case using boot by simp
  next
    case (Suc n)
    let ?s = "fold ?f [0 ..< n] s"
    have "SasAxi ?s = SOCKET_START" using Suc by (simp add: boot_state_def)
    then show ?case using boot_write [OF dev Suc, of "UTIL_rundwn SOCKET_START" "list_word n"] by (simp add: list_word_def [symmetric])
  qed
  then show ?thesis by (simp add: constructRundwnList_def)
qed
lemma setupKvt_one_keeps: "setupKvt_one e s = (kvt, s') \<Longrightarrow> boot_state chan im us rs s \<Longrightarrow> boot_state chan im us rs s'"
  by (auto simp: setupKvt_one_def boot_state_def Let_def split: prod.splits if_splits)

lemma boot_fields:
  assumes "boot_state chan im us rs s"
  shows "boot_state chan im us rs (s\<lparr>socketKvt := a\<rparr>)" "boot_state chan im us rs (s\<lparr>appKvt := a\<rparr>)"
    "boot_state chan im us rs (s\<lparr>descriptorFree := a\<rparr>)" "boot_state chan im us rs (s\<lparr>descriptorBase := a\<rparr>)"
    "boot_state chan im us rs (s\<lparr>intrSync := t\<rparr>)" "boot_state chan im us rs (s\<lparr>metricsTable := m, faultTable := ft\<rparr>)"
  using assms by (simp_all add: boot_state_def)

lemma setupKvt_keeps:
  assumes "setupKvt s = (error, s')" "boot_state chan im us rs s"
  shows "boot_state chan im us rs s'"
proof -
  obtain kvt s1 where one: "setupKvt_one MAX_SOCKET_ENTRIES s = (kvt, s1)" by (rule prod.exhaust)
  obtain kvt2 s2 where two: "setupKvt_one MAX_APP_ENTRIES (s1\<lparr>socketKvt := kvt - SasOcm s1\<rparr>) = (kvt2, s2)" by (rule prod.exhaust)
  have "boot_state chan im us rs s1" by (rule setupKvt_one_keeps [OF one assms(2)])
  then have "boot_state chan im us rs s2" using setupKvt_one_keeps [OF two] boot_fields(1) by blast
  then show ?thesis
    using assms(1) one two \<open>boot_state chan im us rs s1\<close> boot_fields(2) by (auto simp: setupKvt_def Let_def split: if_splits)
qed

lemma remap_not_util:
  assumes "grp < 8" "src < 32"
  shows "remap_src SOCKET_START grp src \<notin> util_lists SOCKET_START"
proof -
  let ?w = "4 * of_nat (32 * grp + src) :: u32"
  have "unat ?w = 4 * (32 * grp + src)" using assms by (simp add: unat_word_ariths unat_of_nat take_bit_eq_mod)
  then have "unat ?w < 1024" using assms by simp
  then have "?w \<noteq> 0x10080100" "?w \<noteq> 0x10080104" by (auto simp: unat_arith_simps)
  then show ?thesis
    by (simp add: remap_src_def util_lists_def UTIL_session_def UTIL_rundwn_def UTIL_AXI_FIFO_BASE_def INTR_MAP_AXI_BASE_def)
qed

lemma remap_loop_keeps:
  assumes dev: "fifo_device env (util_lists SOCKET_START) chan" and im: "intr_map_ok im"
  shows "set js \<subseteq> {..<64} \<Longrightarrow> boot_state chan im us rs s \<Longrightarrow>
    \<exists>s'. remap_loop env js im s = Some s' \<and> boot_state chan im us rs s' \<and> intrSync s' = intrSync s"
proof (induction js arbitrary: s)
  case Nil
  then show ?case by simp
next
  case (Cons j js)
  have j: "unat (im_group (im ! j)) < 8" "unat (im_source (im ! j)) < 32" using im Cons.prems(1) by (simp_all add: intr_map_ok_def)
  obtain s1 where s1: "remap_step env j im s = Some s1" "boot_state chan im us rs s1" "intrSync s1 = intrSync s"
  proof (cases "im_enable (im ! j) = 0")
    case True
    then show ?thesis using that Cons.prems by (simp add: remap_step_def)
  next
    case False
    have "boot_state chan im us rs (write_reg env (remap_src SOCKET_START (unat (im_group (im ! j))) (unat (im_source (im ! j)))) v s)" for v
      by (rule boot_write_other [OF dev Cons.prems(2) remap_not_util [OF j]])
    moreover have "SasAxi s = SOCKET_START" using Cons.prems(2) by (simp add: boot_state_def)
    ultimately show ?thesis using that False j by (simp add: remap_step_def Let_def)
  qed
  show ?case using Cons.IH [OF _ s1(2)] Cons.prems(1) s1 by simp
qed

lemma gic_not_util:
  assumes "irq \<in> set IntrIrq"
  shows "0xf8f01000 + gic_word 0x100 irq \<notin> util_lists SOCKET_START" "0xf8f01000 + gic_word 0x280 irq \<notin> util_lists SOCKET_START"
  using assms
  by (auto simp: IntrIrq_def gic_word_def util_lists_def UTIL_session_def UTIL_rundwn_def UTIL_AXI_FIFO_BASE_def SOCKET_START_def)

lemma IntrInit_keeps:
  assumes dev: "fifo_device env (util_lists SOCKET_START) chan" and boot: "boot_state chan im us rs s"
  shows "\<exists>s'. IntrInit env s = (SAS_SUCCESS, s') \<and> boot_state chan im us rs s' \<and> intrSync s' = intrSync s"
proof -
  let ?f = "\<lambda>irq s. write_reg env (0xf8f01000 + gic_word 0x100 irq) (gic_mask irq) (write_reg env (0xf8f01000 + gic_word 0x280 irq) (gic_mask irq) s)"
  have gic: "LookupGic s = 0xf8f01000" using boot by (simp add: LookupGic_def boot_state_def region_starts)
  have "set irqs \<subseteq> set IntrIrq \<Longrightarrow> boot_state chan im us rs t \<Longrightarrow>
    boot_state chan im us rs (fold ?f irqs t) \<and> intrSync (fold ?f irqs t) = intrSync t" for irqs t
    by (induction irqs arbitrary: t) (simp_all add: boot_write_other [OF dev] gic_not_util)
  then show ?thesis using boot by (simp add: IntrInit_def gic Let_def)
qed

lemma enableSystemMetrics_keeps:
  assumes dev: "fifo_device env (util_lists SOCKET_START) chan" and boot: "boot_state chan im us rs s"
  shows "boot_state chan im us rs (enableSystemMetrics env im s) \<and> intrSync (enableSystemMetrics env im s) = intrSync s"
proof -
  have axi: "SasAxi s = SOCKET_START" using boot by (simp add: boot_state_def)
  have out: "intr_enable SOCKET_START SAS_IRQ_METRICS \<notin> util_lists SOCKET_START" "intr_enable SOCKET_START SAS_IRQ_FAULTS \<notin> util_lists SOCKET_START"
    by (simp_all add: intr_enable_def SAS_IRQ_METRICS_def SAS_IRQ_FAULTS_def util_lists_def UTIL_session_def UTIL_rundwn_def
        UTIL_AXI_FIFO_BASE_def SOCKET_START_def INTR_GROUP_AXI_BASE_def)
  show ?thesis
    unfolding enableSystemMetrics_def Let_def
    by (simp add: axi boot_write_other [OF dev _ out(1)] boot_write_other [OF dev _ out(2)] boot_fields boot)
qed
lemma KvtConstruct_fst: "b \<noteq> NIL \<Longrightarrow> \<exists>h'. KvtConstruct e b h = (b, h')"
  by (simp add: KvtConstruct_def Let_def)

lemma kvt_sizes: "KvtSizeof MAX_SOCKET_ENTRIES = 184" "KvtSizeof MAX_APP_ENTRIES = 664"
  by (simp_all add: KvtSizeof_def SIZEOF_LUT_def SIZEOF_BUF_def LNGTHOF_LUT_def sizeof_Kvt_def sizeof_ListHead_def sizeof_Kvp_def MAX_SOCKET_ENTRIES_def
      MAX_APP_ENTRIES_def push_bit_eq_mult)

lemma setupKvt_start:
  assumes "SasOcm s = 0xfffc0000" "ocmNext s = 0x2ea0"
  shows "\<exists>s'. setupKvt s = (SAS_SUCCESS, s') \<and> ocmNext s' = 0x3200"
proof -
  obtain h where h: "KvtConstruct MAX_SOCKET_ENTRIES 0xfffc2ea0 (sas_kvts s) = (0xfffc2ea0, h)"
    using KvtConstruct_fst [of "0xfffc2ea0"] by auto
  obtain h' where h': "KvtConstruct MAX_APP_ENTRIES 0xfffc2f60 h = (0xfffc2f60, h')"
    using KvtConstruct_fst [of "0xfffc2f60"] by auto
  show ?thesis
    using assms by (simp add: setupKvt_def setupKvt_one_def h h' kvt_sizes SAS_SUCCESS_def)
qed

text \<open>The start of the facility: the maps are looked up, and the firmware's lists are empty.\<close>

definition sas_start :: "(u32 \<Rightarrow> 'd \<Rightarrow> u32 list) \<Rightarrow> 'd sas \<Rightarrow> bool" where
  "sas_start chan s \<longleftrightarrow> (\<forall>n. mem_Region_startAddress n (sas_regions s) = mem_Region_startAddress n mem_RegionTable) \<and>
     SasAxi s = LookupAxiSocket s \<and> SasOcm s = LookupOcm s \<and> ocmNext s = 0 \<and> chan (UTIL_session (SasAxi s)) (dev s) = [] \<and> chan (UTIL_rundwn (SasAxi s)) (dev s) = []"

lemma SAS_Construct_ready:
  assumes dev: "fifo_device env (util_lists (LookupAxiSocket s)) chan" and "sas_start chan s" and im: "intr_map_ok im"
  shows "\<exists>s1. SAS_Construct env (Some im) s = Some (SAS_SUCCESS, s1) \<and> sas_ok s1 \<and> LookupAxiSocket s1 = LookupAxiSocket s \<and>
    lists_ok chan {} {} s1 [0 ..< 32] [0 ..< 31]"
proof -
  have axi: "LookupAxiSocket s = SOCKET_START" "SasAxi s = SOCKET_START" using assms(2) by (simp_all add: sas_start_def LookupAxiSocket_def region_starts)
  note dev = dev [unfolded axi]
  define s0 where "s0 = s\<lparr>sessions := replicate MAX_SESSIONS no_session, plugins := replicate MAX_SOCKETS None,
            appTable := replicate MAX_APP_CHANNELS 0, intrMap := replicate SAS_INTR_COUNT \<lparr>im_source = 0, im_group = 0, im_enable = 0\<rparr>,
            intrSync := replicate MAX_INTR_GROUPS (replicate MAX_INTR_SOURCES 0), metricsTable := replicate MAX_INTR_METRICS 0,
            faultTable := replicate MAX_SOCKETS (replicate MAX_FAULT_SYNDROMES 0, replicate MAX_FAULT_SYNDROMES 0),
            socketKvt := 0, appKvt := 0, descriptorBase := 0, descriptorFree := 0,
            ocmNext := (ocmNext s + sizeof_OcmMap + 15) AND NOT 0xf\<rparr>"
  have b0: "boot_state chan im [] [] (s0\<lparr>intrMap := im\<rparr>)" using assms(2) axi by (simp add: s0_def boot_state_def sas_start_def)
  have "SasOcm s = 0xfffc0000" "ocmNext s = 0" using assms(2) by (simp_all add: sas_start_def LookupOcm_def region_starts)
  then have "SasOcm (s0\<lparr>intrMap := im\<rparr>) = 0xfffc0000" "ocmNext (s0\<lparr>intrMap := im\<rparr>) = 0x2ea0"
    by (simp_all add: s0_def sizeof_OcmMap_def)
  then obtain s1 where kvt: "setupKvt (s0\<lparr>intrMap := im\<rparr>) = (SAS_SUCCESS, s1)" using setupKvt_start by blast
  have b1: "boot_state chan im [] [] s1" by (rule setupKvt_keeps [OF kvt b0])
  let ?t = "replicate MAX_INTR_GROUPS (replicate MAX_INTR_SOURCES 0)"
  define s2 where "s2 = (constructRundwnList env (constructSessionList env s1))\<lparr>intrSync := ?t\<rparr>"
  have b2: "boot_state chan im (map list_word [0 ..< 32]) (map list_word [0 ..< 31]) s2"
    unfolding s2_def by (intro boot_fields(5) boot_rundown_list boot_session_list dev b1)
  obtain s3 where s3: "remap_loop env [0 ..< SAS_INTR_COUNT] im s2 = Some s3" "boot_state chan im (map list_word [0 ..< 32]) (map list_word [0 ..< 31]) s3" "intrSync s3 = ?t"
    using remap_loop_keeps [OF dev im _ b2, of "[0 ..< SAS_INTR_COUNT]"] by (auto simp: s2_def lessThan_atLeast0)
  obtain s4 where s4: "IntrInit env s3 = (SAS_SUCCESS, s4)" "boot_state chan im (map list_word [0 ..< 32]) (map list_word [0 ..< 31]) s4" "intrSync s4 = ?t"
    using IntrInit_keeps [OF dev s3(2)] s3(3) by auto
  define s5 where "s5 = enableSystemMetrics env im s4"
  define s6 where "s6 = s5\<lparr>descriptorFree := (ocmNext s5 + 31) AND NOT 0x1f\<rparr>"
  define s7 where "s7 = s6\<lparr>descriptorBase := descriptorFree s6\<rparr>"
  have s5: "boot_state chan im (map list_word [0 ..< 32]) (map list_word [0 ..< 31]) s5" "intrSync s5 = ?t"
    using enableSystemMetrics_keeps [OF dev s4(2)] s4(3) by (auto simp: s5_def)
  have s7: "boot_state chan im (map list_word [0 ..< 32]) (map list_word [0 ..< 31]) s7" "intrSync s7 = ?t"
    using s5 by (simp_all add: s7_def s6_def boot_fields)
  have "SAS_Construct env (Some im) s = Some (SAS_SUCCESS, s7)"
    unfolding SAS_Construct_def Let_def s0_def [symmetric]
    using kvt s3(1) s4(1) by (simp add: s2_def configureInterrupts_def s5_def s6_def s7_def SAS_SUCCESS_def)
  moreover have "LookupAxiSocket s7 = SOCKET_START" "LookupOcm s7 = 0xfffc0000" "intrMap s7 = im" "sessions s7 = replicate 32 no_session"
      "chan (UTIL_session SOCKET_START) (dev s7) = map list_word [0 ..< 32]" "chan (UTIL_rundwn SOCKET_START) (dev s7) = map list_word [0 ..< 31]"
    using s7 by (simp_all add: boot_state_def LookupAxiSocket_def LookupOcm_def region_starts)
  moreover from this have "sas_ok s7"
    using s7(2) im by (simp add: sas_ok_def SOCKET_START_def intr_sync_ok_def session_shape_no_session)
  moreover have "bij_betw (mid_at xs) (rundown_boxes {} xs) ({..<31} - set [0 ..< 31])" for xs
    by (auto simp: rundown_boxes_def bij_betw_def)
  ultimately show ?thesis
    using axi by (auto simp: lists_ok_def free_ids_def)
qed
text \<open>
  C18: the facility keeps account of its sessions and rundown mailboxes. Construction with an interrupt map in
  order succeeds. From then on, whatever the clients open, bind and close, each of the 32 sessions is held, or once on the
  session list, or lost by an opening that found no semaphore (none is lost while semaphores can be created), and each of the
  31 rundown numbers is either once on its list or in exactly one mailbox of a held session. Opening gives the first free
  session and fails only when none is free or no semaphore can be created; closing succeeds; binding gives the next mailbox
  of the session and fails only when the session has eight or no number is left.
\<close>

theorem sessions_conserved:
  assumes "fifo_device env (util_lists (LookupAxiSocket s0)) chan" and "sas_start chan s0" and "intr_map_ok im"
  shows "\<exists>s1. SAS_Construct env (Some im) s0 = Some (SAS_SUCCESS, s1) \<and>
    (\<forall>held lost s. sas_run env s1 held lost s \<longrightarrow> (\<exists>fs rs. lists_ok chan held lost s fs rs \<and>
      ((\<forall>d. fst (fst (semaphore_create env d)) = 0) \<longrightarrow> lost = {}) \<and>
      (\<exists>s'. SAS_Open env s = Some (if fs = [] \<or> no_semaphore env s then None else Some (hd fs), s')) \<and>
      (\<forall>k \<in> held. SAS_Close env k s \<noteq> None \<and>
        (\<forall>handler ctx. \<exists>s'. SAS_Bind env handler ctx k s =
           Some (if unat (se_srcs (sessions s ! k)) = 8 \<or> rs = [] then None else Some (k, unat (se_srcs (sessions s ! k))), s')))))"
proof -
  obtain s1 where s1: "SAS_Construct env (Some im) s0 = Some (SAS_SUCCESS, s1)" "sas_ok s1" "LookupAxiSocket s1 = LookupAxiSocket s0"
      "lists_ok chan {} {} s1 [0 ..< 32] [0 ..< 31]"
    using SAS_Construct_ready [OF assms(1-3)] by blast
  have "\<exists>fs rs. lists_ok chan held lost s fs rs \<and> ((\<forall>d. fst (fst (semaphore_create env d)) = 0) \<longrightarrow> lost = {}) \<and>
      (\<exists>s'. SAS_Open env s = Some (if fs = [] \<or> no_semaphore env s then None else Some (hd fs), s')) \<and>
      (\<forall>k \<in> held. SAS_Close env k s \<noteq> None \<and>
        (\<forall>handler ctx. \<exists>s'. SAS_Bind env handler ctx k s =
           Some (if unat (se_srcs (sessions s ! k)) = 8 \<or> rs = [] then None else Some (k, unat (se_srcs (sessions s ! k))), s')))"
    if run: "sas_run env s1 held lost s" for held lost s
  proof -
    obtain fs rs where s: "sas_ok s" "LookupAxiSocket s = LookupAxiSocket s0" "lists_ok chan held lost s fs rs"
        "(\<forall>d. fst (fst (semaphore_create env d)) = 0) \<longrightarrow> lost = {}"
      using sas_run_keeps [OF run _ s1(2,4)] assms(1) s1(3) by auto
    note dev = assms(1) [folded s(2)]
    have "SAS_Close env k s \<noteq> None" if "k \<in> held" for k using close_step [OF dev s(1,3) that] by auto
    moreover have "\<exists>s'. SAS_Bind env handler ctx k s =
           Some (if unat (se_srcs (sessions s ! k)) = 8 \<or> rs = [] then None else Some (k, unat (se_srcs (sessions s ! k))), s')" if k: "k \<in> held" for k handler ctx
    proof (cases "no_room k s")
      case True
      moreover have "unat (se_srcs (sessions s ! k)) \<le> 8" using s(3) k by (auto simp: lists_ok_def session_ok_def)
      ultimately show ?thesis using no_room_iff [OF s(1,3) k] by (simp add: SAS_Bind_take)
    next
      case False
      then have n: "unat (se_srcs (sessions s ! k)) < 8" using no_room_iff [OF s(1,3) k] by simp
      show ?thesis using take_rundown_step [OF dev s(1,3) k n, of 0 handler ctx] n False by (auto simp: SAS_Bind_take)
    qed
    ultimately show ?thesis using open_step [OF dev s(1,3)] s(3,4) by blast
  qed
  then show ?thesis using s1(1) by blast
qed

text \<open>A device of two queues, for a concrete run.\<close>

definition queue_env :: "(u32 \<Rightarrow> u32 list) sas_env" where
  "queue_env = \<lparr>reg_read = \<lambda>a d. (if d a = [] then 1 else hd (d a), d(a := tl (d a))), reg_write = \<lambda>a v d. d(a := d a @ [v]),
     semaphore_create = \<lambda>d. ((0, 1), d), semaphore_delete = \<lambda>_ d. d, semaphore_obtain = \<lambda>_ d. d, semaphore_release = \<lambda>_ d. d,
     call_handler = \<lambda>_ _ _ _ s. (0, s)\<rparr>"

lemma queue_env_device: "fifo_device queue_env A (\<lambda>a d. d a)"
  by (simp add: fifo_device_def queue_env_def)

definition idle_sas :: "(u32 \<Rightarrow> u32 list) sas" where
  "idle_sas = \<lparr>sessions = [], plugins = [], appTable = [], intrMap = [], intrSync = [], metricsTable = [], faultTable = [],
     socketKvt = 0, appKvt = 0, descriptorBase = 0, descriptorFree = 0,
     sas_kvts = \<lparr>forward = \<lambda>_. 0, reverse = \<lambda>_. 0, kvp_key = \<lambda>_. 0, kvp_value = \<lambda>_. 0,
       kvt_at = \<lambda>_. \<lparr>stride = 0, lut = 0, remaining = 0, next_kvp = 0\<rparr>\<rparr>,
     sas_mem = \<lambda>_. 0, sas_regions = mem_RegionTable, SasAxi = SOCKET_START, SasOcm = 0xfffc0000, ocmNext = 0, dev = \<lambda>_. []\<rparr>"

theorem sessions_conserved_witness:
  "\<exists>s1 k s2 fs rs. SAS_Construct queue_env (Some (replicate 64 \<lparr>im_source = 3, im_group = 1, im_enable = 1\<rparr>)) idle_sas = Some (SAS_SUCCESS, s1) \<and>
     SAS_Open queue_env s1 = Some (Some k, s2) \<and> lists_ok (\<lambda>a d. d a) {k} {} s2 fs rs \<and> k \<notin> set fs"
proof -
  let ?im = "replicate 64 \<lparr>im_source = 3, im_group = 1, im_enable = 1\<rparr>"
  have start: "sas_start (\<lambda>a d. d a) idle_sas"
    by (simp add: sas_start_def idle_sas_def LookupAxiSocket_def LookupOcm_def region_starts)
  have im: "intr_map_ok ?im" by (simp add: intr_map_ok_def)
  have sem: "\<not> no_semaphore queue_env s" for s by (simp add: queue_env_def no_semaphore_def)
  obtain s1 where s1: "SAS_Construct queue_env (Some ?im) idle_sas = Some (SAS_SUCCESS, s1)"
    and runs: "\<And>held lost s. sas_run queue_env s1 held lost s \<Longrightarrow> \<exists>fs rs. lists_ok (\<lambda>a d. d a) held lost s fs rs \<and>
      (\<exists>s'. SAS_Open queue_env s = Some (if fs = [] \<or> no_semaphore queue_env s then None else Some (hd fs), s'))"
    using sessions_conserved [OF queue_env_device start im] by meson
  obtain fs rs s2 where one: "lists_ok (\<lambda>a d. d a) {} {} s1 fs rs" "SAS_Open queue_env s1 = Some (if fs = [] then None else Some (hd fs), s2)"
    using runs [OF sas_run.start] sem by auto
  then have "0 \<in> set fs" by (simp add: lists_ok_def)
  then have ne: "fs \<noteq> []" by auto
  then obtain fs' rs' where "lists_ok (\<lambda>a d. d a) {hd fs} {} s2 fs' rs'" using runs [OF sas_run.opened [OF sas_run.start]] one(2) by fastforce
  moreover from this have "hd fs \<notin> set fs'" by (simp add: lists_ok_def)
  ultimately show ?thesis using s1 one(2) ne by auto
qed

text \<open>Without a semaphore an opening fails after it took a session off the list: the session is lost.\<close>

lemma failed_open_leaks:
  assumes dev: "fifo_device env (util_lists (LookupAxiSocket s)) chan" and ok: "sas_ok s" and lists: "lists_ok chan held lost s fs rs" and ne: "fs \<noteq> []"
    and sem: "no_semaphore env s"
  shows "\<exists>s'. SAS_Open env s = Some (None, s') \<and> lists_ok chan held (insert (hd fs) lost) s' (tl fs) rs"
  using open_step [OF dev ok lists] ne sem by auto

end
