(* ===== verification/SasInput.thy ===== *)
theory SasInput
  imports Sas
begin

text \<open>
  What applications exchange with the firmware through \<^verbatim>\<open>Sas\<close>: the fields of posted
  instructions, and the rounds of \<^verbatim>\<open>SAS_Wait\<close>, in which the inputs of enabled mailboxes are served.
\<close>

subsection \<open>Instructions\<close>

text \<open>The bits of a field in an encoded word.\<close>

lemma bit_ENCODE:
  "bit (SAS_ENCODE f v x) i \<longleftrightarrow> bit x i \<or> (fst f \<le> i \<and> i < 32 \<and> bit v (i - fst f) \<and> bit (snd f) (i - fst f))"
  by (cases f) (auto simp: SAS_ENCODE_def bit_simps)

lemma bit_DECODE: "bit (SAS_DECODE f v) i \<longleftrightarrow> bit v (fst f + i) \<and> bit (snd f) i"
  by (cases f) (simp add: SAS_DECODE_def bit_simps)

lemma field_masks:
  "(0x0003fff0 :: u32) = push_bit 4 (mask 14)" "(0xff :: u32) = mask 8" "(0xf :: u32) = mask 4" "(3 :: u32) = mask 2" "(1 :: u32) = mask 1"
  by (simp_all add: mask_eq_exp_minus_1 push_bit_eq_mult)

lemma bit_fields:
  "fst FRAME_DESC = 0" "bit (snd FRAME_DESC) i \<longleftrightarrow> 4 \<le> i \<and> i < 18"
  "fst FRAME_LEN = 18" "bit (snd FRAME_LEN) i \<longleftrightarrow> i < 8"
  "fst FRAME_TYPE = 26" "bit (snd FRAME_TYPE) i \<longleftrightarrow> i < 4"
  "fst OB_OPCODE = 30" "bit (snd OB_OPCODE) i \<longleftrightarrow> i < 2"
  "fst IB_OPCODE = 28" "bit (snd IB_OPCODE) i \<longleftrightarrow> i < 4"
  unfolding sas_fields fst_conv snd_conv field_masks bit_push_bit_iff bit_mask_iff possible_bit_word by auto

lemma bit_small: "bit (0xff :: u32) i \<longleftrightarrow> i < 8" "bit (0xf :: u32) i \<longleftrightarrow> i < 4" "bit (3 :: u32) i \<longleftrightarrow> i < 2"
  unfolding field_masks bit_mask_iff possible_bit_word by auto

text \<open>
  C19: an outbound frame that is allocated, given a type and a length and posted reaches the
  work list as one instruction, whose descriptor is the allocated one and whose type, length and
  opcode are the given ones cut to the width of their fields.
\<close>

theorem posted_frame_fields:
  assumes "SAS_ObAlloc env m s = (frame, s1)" and "frame \<noteq> 0"
  shows "\<exists>instr. dev (SAS_ObPost env opcode (SAS_ObSet frame type len) m s1) =
      reg_write env (obWorkList (mb_socket (mbx_at s m))) instr (dev s1) \<and>
    SAS_DECODE FRAME_DESC instr = frame \<and> SAS_ObFd instr m s1 = mb_ocm (mbx_at s m) + frame \<and>
    SAS_TypeOf instr = type AND 0xf \<and> SAS_SizeOf instr = len AND 0xff \<and> SAS_DECODE OB_OPCODE instr = opcode AND 3"
proof -
  define instr where "instr = SAS_ENCODE OB_OPCODE opcode (SAS_ObSet frame type len)"
  obtain fval where frame: "frame = SAS_ENCODE FRAME_DESC (SAS_DECODE FRAME_DESC fval) 0"
    using assms by (auto simp: SAS_ObAlloc_def Let_def split: prod.splits if_splits)
  have same: "mbx_at s1 m = mbx_at s m"
    using assms(1) by (auto simp: SAS_ObAlloc_def Let_def read_reg_def mbx_at_def split: prod.splits if_splits)
  have bits: "bit instr i \<longleftrightarrow> (4 \<le> i \<and> i < 18 \<and> bit fval i) \<or> (18 \<le> i \<and> i < 26 \<and> bit len (i - 18)) \<or>
      (26 \<le> i \<and> i < 30 \<and> bit type (i - 26)) \<or> (30 \<le> i \<and> i < 32 \<and> bit opcode (i - 30))" for i
    by (auto simp: instr_def frame bit_ENCODE bit_DECODE bit_fields SAS_ObSet_def)
  have desc: "SAS_DECODE FRAME_DESC instr = frame"
    by (rule bit_word_eqI) (auto simp: bits frame bit_ENCODE bit_DECODE bit_fields)
  have "SAS_TypeOf instr = type AND 0xf" "SAS_SizeOf instr = len AND 0xff" "SAS_DECODE OB_OPCODE instr = opcode AND 3"
    by (rule bit_word_eqI, auto simp: bits bit_DECODE bit_fields SAS_TypeOf_def SAS_SizeOf_def bit_and_iff bit_small simp del: bit_numeral_word_iff)+
  then show ?thesis
    by (intro exI [of _ instr]) (simp add: desc SAS_ObPost_def write_reg_def SAS_ObFd_def same instr_def [symmetric])
qed

text \<open>A firmware that hands out one descriptor and remembers the last word written.\<close>

definition one_frame_env :: "u32 sas_env" where
  "one_frame_env = \<lparr>reg_read = \<lambda>_ d. (0x3200, d), reg_write = \<lambda>_ v _. v, semaphore_create = \<lambda>d. ((0, 1), d), semaphore_delete = \<lambda>_ d. d,
     semaphore_obtain = \<lambda>_ d. d, semaphore_release = \<lambda>_ d. d, call_handler = \<lambda>_ _ _ _ s. (0, s)\<rparr>"

lemma one_frame_alloc: "SAS_ObAlloc one_frame_env m s = (0x3200, s)"
  by (simp add: SAS_ObAlloc_def read_reg_def one_frame_env_def SAS_DECODE_def SAS_ENCODE_def INPUT_EMPTY_def FRAME_DESC_def)

theorem posted_frame_fields_witness:
  "\<forall>s :: u32 sas. \<exists>instr. dev (SAS_ObPost one_frame_env 3 (SAS_ObSet 0x3200 5 16) (0, 0) s) = instr \<and>
     SAS_DECODE FRAME_DESC instr = 0x3200 \<and> SAS_TypeOf instr = 5 \<and> SAS_SizeOf instr = 16 \<and> SAS_DECODE OB_OPCODE instr = 3"
proof
  fix s :: "u32 sas"
  show "\<exists>instr. dev (SAS_ObPost one_frame_env 3 (SAS_ObSet 0x3200 5 16) (0, 0) s) = instr \<and>
     SAS_DECODE FRAME_DESC instr = 0x3200 \<and> SAS_TypeOf instr = 5 \<and> SAS_SizeOf instr = 16 \<and> SAS_DECODE OB_OPCODE instr = 3"
    using posted_frame_fields [OF one_frame_alloc [of "(0, 0)" s], of 3 5 16] by (simp add: one_frame_env_def)
qed

subsection \<open>Waiting\<close>

text \<open>The sources of a word of enabled ones, in ascending order.\<close>

definition sources_of :: "u32 \<Rightarrow> nat list" where "sources_of w = filter (bit w) [0 ..< 32]"

lemma sources_of_step:
  assumes "builtin_ffsl w = Suc i" and "i < 32" and "bit w i" and "\<And>j. j < i \<Longrightarrow> \<not> bit w j"
  shows "sources_of w = i # sources_of (BITCLR i w)"
  using tables_of_step [OF assms] by (simp add: sources_of_def tables_of_def SVT_MAX_TABLES_def)

text \<open>
  Serving one source: a valid input goes to its handler, and either kind is counted. The eighth
  source goes to its handler even when its input is empty.
\<close>

definition handled :: "u32 list \<Rightarrow> nat \<Rightarrow> bool" where
  "handled regs i \<longleftrightarrow> \<not> bit (regs ! i) 0 \<or> i = 7"

definition serve_source :: "'d sas_env \<Rightarrow> nat \<Rightarrow> u32 list \<Rightarrow> nat \<Rightarrow> u32 \<times> 'd sas \<Rightarrow> u32 \<times> 'd sas" where
  "serve_source env k regs i st =
     (let (state, s) = (if handled regs i then service_input env k i (regs ! i) st else st) in (state, retire_input k (regs ! i) s))"

lemma check_inputs_fold: "check_inputs env k regs active st = fold (serve_source env k regs) (sources_of active) st"
proof (induction "unat active" arbitrary: active st rule: less_induct)
  case less
  show ?case
  proof (cases "active = 0")
    case True
    then show ?thesis by (simp add: check_inputs.simps sources_of_def)
  next
    case False
    then obtain i where i: "builtin_ffsl active = Suc i" "i < 32" "bit active i" "\<And>j. j < i \<Longrightarrow> \<not> bit active j" by (rule ffsl_bit) blast
    have odd: "regs ! i AND 1 \<noteq> 0 \<longleftrightarrow> bit (regs ! i) 0" by (simp add: and_one_eq bit_0 mod2_eq_if)
    have "check_inputs env k regs active st = check_inputs env k regs (BITCLR i active) (serve_source env k regs i st)"
      using False i(1) odd by (subst check_inputs.simps) (simp add: serve_source_def handled_def Let_def split: prod.splits)
    also have "\<dots> = fold (serve_source env k regs) (sources_of (BITCLR i active)) (serve_source env k regs i st)"
      by (rule less) (rule BITCLR_less [OF i(3)])
    finally show ?thesis by (simp add: sources_of_step [OF i])
  qed
qed

text \<open>The state word of a round: bits 30 and 31 are flags above a counter.\<close>

lemma inc_parts:
  fixes a b :: nat
  assumes "Suc (a mod b) < b"
  shows "Suc a div b = a div b" and "Suc a mod b = Suc (a mod b)" and "a < 4 * b \<Longrightarrow> Suc a < 4 * b"
proof -
  show same: "Suc a div b = a div b" and "Suc a mod b = Suc (a mod b)" using assms by (simp_all add: div_Suc mod_Suc)
  assume "a < 4 * b"
  then have "Suc a div b < 4" unfolding same by (rule less_mult_imp_div_less)
  then show "Suc a < 4 * b" using assms by (simp add: div_less_iff_less_mult)
qed

lemma inc_flags:
  fixes x :: u32
  assumes "Suc (unat x mod 2 ^ 30) < 2 ^ 30"
  shows "i \<ge> 30 \<Longrightarrow> bit (x + 1) i \<longleftrightarrow> bit x i" and "unat (x + 1) mod 2 ^ 30 = Suc (unat x mod 2 ^ 30)"
proof -
  have "unat x < 4 * 2 ^ 30" using unsigned_less [where 'a = nat, of x] by simp
  then have "Suc (unat x) < 4 * 2 ^ 30" by (rule inc_parts(3) [OF assms])
  then have inc: "unat (x + 1) = Suc (unat x)" by (simp add: unat_word_ariths)
  show "unat (x + 1) mod 2 ^ 30 = Suc (unat x mod 2 ^ 30)" unfolding inc by (rule inc_parts(2) [OF assms])
  have "drop_bit 30 (x + 1) = drop_bit 30 x"
    unfolding word_unat_eq_iff unat_drop_bit_eq inc drop_bit_eq_div [where 'a = nat] by (rule inc_parts(1) [OF assms])
  moreover have "bit w i \<longleftrightarrow> bit (drop_bit 30 w) (i - 30)" if "i \<ge> 30" for w :: u32 using that by (simp add: bit_drop_bit_eq)
  ultimately show "bit (x + 1) i \<longleftrightarrow> bit x i" if "i \<ge> 30" using that by simp
qed


text \<open>A state word after at most \<open>n\<close> sources: no source is left to disable.\<close>

definition served :: "u32 \<Rightarrow> nat" where "served w = unat w mod 2 ^ 30"

lemma served_inc:
  assumes "served x \<le> 32"
  shows "served (x + 1) = Suc (served x)" and "i \<ge> 30 \<Longrightarrow> bit (x + 1) i \<longleftrightarrow> bit x i"
proof -
  have small: "Suc (unat x mod 2 ^ 30) < 2 ^ 30" by (rule le_less_trans [of _ 33]) (use assms in \<open>simp_all add: served_def\<close>)
  show "served (x + 1) = Suc (served x)" unfolding served_def by (rule inc_flags(2) [OF small])
  show "i \<ge> 30 \<Longrightarrow> bit (x + 1) i \<longleftrightarrow> bit x i" by (rule inc_flags(1) [OF small])
qed

definition round_state :: "nat \<Rightarrow> u32 \<Rightarrow> bool" where
  "round_state n w \<longleftrightarrow> served w \<le> n \<and> \<not> bit w 30"

lemma flags:
  "bit (SAS_ABORT :: u32) i \<longleftrightarrow> i = 31" "bit (SAS_DISABLE :: u32) i \<longleftrightarrow> i = 30"
  unfolding SAS_ABORT_def SAS_DISABLE_def bit_push_bit_iff bit_1_iff by auto

lemma flag_test: "w AND SAS_DISABLE \<noteq> 0 \<longleftrightarrow> bit w 30" "w AND SAS_ABORT \<noteq> 0 \<longleftrightarrow> bit w 31"
  by (auto simp: bit_eq_iff [where 'a = "32 word"] bit_and_iff flags)

lemma low_bits:
  fixes v w :: u32
  assumes "\<And>i. i < 30 \<Longrightarrow> bit v i = bit w i"
  shows "served v = served w"
proof -
  have "take_bit 30 v = take_bit 30 w" using assms by (intro bit_word_eqI) (auto simp: bit_take_bit_iff)
  then have "unat (take_bit 30 v) = unat (take_bit 30 w)" by simp
  then show ?thesis unfolding unsigned_take_bit_eq served_def take_bit_eq_mod [where 'a = nat] .
qed

lemma serve_state:
  assumes "round_state n w" "n < 32" "serve_source env k regs i (w, s) = (w', s')"
  shows "round_state (Suc n) w'" and "bit w 31 \<Longrightarrow> bit w' 31"
    and "handled regs i \<Longrightarrow> bit (fst (call_handler env (mb_handler (mbx_at s (k, i))) (regs ! i) (mb_context (mbx_at s (k, i))) (k, i) s)) 31 \<Longrightarrow> bit w' 31"
proof -
  have "round_state (Suc n) w' \<and> (bit w 31 \<longrightarrow> bit w' 31) \<and> (handled regs i \<longrightarrow>
    bit (fst (call_handler env (mb_handler (mbx_at s (k, i))) (regs ! i) (mb_context (mbx_at s (k, i))) (k, i) s)) 31 \<longrightarrow> bit w' 31)"
  proof (cases "handled regs i")
    case False
    then show ?thesis using assms by (auto simp: serve_source_def round_state_def)
  next
    case True
    obtain r t where r: "call_handler env (mb_handler (mbx_at s (k, i))) (regs ! i) (mb_context (mbx_at s (k, i))) (k, i) s = (r, t)"
      by (rule prod.exhaust)
    let ?x = "w OR ((SAS_ABORT OR SAS_DISABLE) AND r)"
    have bits: "bit ?x j \<longleftrightarrow> bit w j \<or> (j = 30 \<or> j = 31) \<and> bit r j" for j by (auto simp: bit_or_iff bit_and_iff flags)
    have low: "served ?x = served w" by (rule low_bits) (auto simp: bits)
    have le: "served ?x \<le> 32" using assms(1,2) by (simp add: low round_state_def)
    have inc: "served (?x + 1) = Suc (served w)" "\<And>j. j \<ge> 30 \<Longrightarrow> bit (?x + 1) j \<longleftrightarrow> bit ?x j"
      using served_inc [OF le] by (simp_all only: low)
    have off: "served ((?x + 1) AND NOT SAS_DISABLE) = served (?x + 1)" by (rule low_bits) (auto simp: bit_and_iff bit_not_iff flags)
    have w': "w' = (if bit ?x 30 then (?x + 1) AND NOT SAS_DISABLE else ?x + 1)"
      using assms(3) True r by (auto simp: serve_source_def service_input_def Let_def flag_test split: if_splits)
    have "round_state (Suc n) w'" 
      using assms(1) inc(1) inc(2) [of 30] off by (simp add: w' round_state_def bit_and_iff bit_not_iff flags)
    moreover have "bit w' 31 \<longleftrightarrow> bit w 31 \<or> bit r 31" using inc(2) [of 31] bits [of 31] by (auto simp: w' bit_and_iff bit_not_iff flags)
    ultimately show ?thesis by (simp add: r)
  qed
  then show "round_state (Suc n) w'" "bit w 31 \<Longrightarrow> bit w' 31" 
    "handled regs i \<Longrightarrow> bit (fst (call_handler env (mb_handler (mbx_at s (k, i))) (regs ! i) (mb_context (mbx_at s (k, i))) (k, i) s)) 31 \<Longrightarrow> bit w' 31"
    by blast+
qed

lemma serve_all_state:
  assumes "round_state n w" "n + length js \<le> 32" "fold (serve_source env k regs) js (w, s) = (w', s')"
  shows "round_state (n + length js) w'" and "bit w 31 \<Longrightarrow> bit w' 31"
proof -
  have "round_state (n + length js) w' \<and> (bit w 31 \<longrightarrow> bit w' 31)"
    using assms
  proof (induction js arbitrary: n w s)
    case Nil
    then show ?case by simp
  next
    case (Cons j js)
    obtain w1 s1 where one: "serve_source env k regs j (w, s) = (w1, s1)" by (rule prod.exhaust)
    have "n < 32" using Cons.prems(2) by simp
    then show ?case
      using Cons.IH [of "Suc n" w1 s1] Cons.prems serve_state(1,2) [OF Cons.prems(1) _ one] one by auto
  qed
  then show "round_state (n + length js) w'" "bit w 31 \<Longrightarrow> bit w' 31" by blast+
qed

text \<open>The starts of the rounds of \<^verbatim>\<open>SAS_Wait\<close>, each with the sources to look at and the input registers.\<close>

inductive waiting :: "'d sas_env \<Rightarrow> nat \<Rightarrow> 'd sas \<Rightarrow> u32 \<Rightarrow> u32 list \<Rightarrow> 'd sas \<Rightarrow> bool" for env k s0 where
  first_round: "active = ucast (se_enabled (sessions s0 ! k)) \<Longrightarrow> active \<noteq> 0 \<Longrightarrow> waiting env k s0 active (replicate MAX_SESSION_INPUTS 0) s0"
| next_round: "waiting env k s0 active regs s \<Longrightarrow> wait_round env k active regs s = (state, regs', s') \<Longrightarrow>
    active' = ucast (se_enabled (sessions s' ! k)) \<Longrightarrow> state AND SAS_ABORT = 0 \<Longrightarrow> active' \<noteq> 0 \<Longrightarrow>
    waiting env k s0 active' regs' (arm_loop env k active' (if state = 0 then unat (se_srcs (sessions s' ! k)) else 0) s')"

lemma waiting_loop: "waiting env k s0 active regs s \<Longrightarrow> SAS_Wait env k s0 = wait_loop env k active regs s"
proof (induction rule: waiting.induct)
  case (first_round active)
  then show ?case by (simp add: SAS_Wait_def Let_def)
next
  case (next_round active regs s state regs' s' active')
  then show ?case by (subst (asm) wait_loop.simps) (simp add: Let_def)
qed

text \<open>
  C20: a session stops waiting when a handler asks for it. In whatever round of \<open>SAS_Wait\<close> this happens,
  the handlers of exactly those active sources run whose input is not empty, and that of the eighth source
  (number 7) if it is active, empty input or not; each runs once, in ascending order, the ones behind the aborting
  handler included. Then \<open>SAS_Wait\<close> returns with the state the last of them left.
\<close>

theorem aborted_wait_returns:
  assumes "waiting env k s0 active regs s" and "load_inputs env k active regs s = (inputs, s1)"
    and "sources_of active = js @ i # ls" and "fold (serve_source env k inputs) js (0, s1) = (w, t)"
    and "handled inputs i"
    and "bit (fst (call_handler env (mb_handler (mbx_at t (k, i))) (inputs ! i) (mb_context (mbx_at t (k, i))) (k, i) t)) 31"
  shows "SAS_Wait env k s0 = Some (snd (fold (serve_source env k inputs) (js @ i # ls) (0, s1)))"
proof -
  have "length (sources_of active) \<le> 32" unfolding sources_of_def by (rule le_trans [OF length_filter_le]) simp
  then have len: "length js + Suc (length ls) \<le> 32" by (simp add: assms(3))
  have start: "round_state 0 0" by (simp add: round_state_def served_def)
  have "round_state (0 + length js) w" by (rule serve_all_state(1) [OF start _ assms(4)]) (use len in simp)
  then have w: "round_state (length js) w" by simp
  obtain w1 t1 where one: "serve_source env k inputs i (w, t) = (w1, t1)" by (rule prod.exhaust)
  have js: "length js < 32" using len by simp
  have w1: "round_state (Suc (length js)) w1" "bit w1 31"
    using serve_state(1,3) [OF w js one] assms(5,6) by blast+
  obtain w2 s2 where rest: "fold (serve_source env k inputs) ls (w1, t1) = (w2, s2)" by (rule prod.exhaust)
  have "bit w2 31" by (rule serve_all_state(2) [OF w1(1) _ rest w1(2)]) (use len in simp)
  then have abort: "w2 AND SAS_ABORT \<noteq> 0" by (simp only: flag_test)
  have all: "fold (serve_source env k inputs) (js @ i # ls) (0, s1) = (w2, s2)" using assms(4) one rest by simp
  then have "wait_round env k active regs s = (w2, inputs, s2)"
    by (simp only: wait_round_def assms(2,3) check_inputs_fold Let_def prod.case)
  then have "wait_loop env k active regs s = Some s2" using abort by (subst wait_loop.simps) (simp add: Let_def)
  then show ?thesis by (simp only: waiting_loop [OF assms(1)] all snd_conv)
qed

definition abort_env :: "u32 sas_env" where
  "abort_env = one_frame_env\<lparr>call_handler := \<lambda>_ _ _ _ s. (SAS_ABORT, s)\<rparr>"

theorem aborted_wait_returns_witness:
  "\<forall>s :: u32 sas. \<exists>s'. SAS_Wait abort_env 0 (s\<lparr>sessions := [no_session\<lparr>se_enabled := 1\<rparr>]\<rparr>) = Some s'"
proof
  fix s :: "u32 sas"
  let ?s = "s\<lparr>sessions := [no_session\<lparr>se_enabled := 1\<rparr>]\<rparr>"
  have wait: "waiting abort_env 0 ?s 1 (replicate MAX_SESSION_INPUTS 0) ?s" by (rule waiting.first_round) simp_all
  have load: "load_inputs abort_env 0 1 (replicate MAX_SESSION_INPUTS 0) ?s = ((replicate MAX_SESSION_INPUTS 0)[0 := 0x3200], ?s)"
    by (simp add: load_inputs_def MAX_SESSION_INPUTS_def upt_rec read_reg_def abort_env_def one_frame_env_def bit_1_iff)
  have one: "sources_of 1 = [] @ 0 # []" by (simp add: sources_of_def upt_rec bit_1_iff)
  have input: "handled ((replicate MAX_SESSION_INPUTS 0)[0 := 0x3200 :: u32]) 0" by (simp add: handled_def MAX_SESSION_INPUTS_def bit_0)
  show "\<exists>s'. SAS_Wait abort_env 0 ?s = Some s'"
    using aborted_wait_returns [OF wait load one _ input] by (simp add: abort_env_def flags)
qed

end
