(* ===== verification/Spec2Isabelle.thy ===== *)
theory Spec2Isabelle
  imports Prelude Bytes DList MemRegion Pool Hash Kvt ShelfRecords ShelfIpmi ShelfInfo Mmu MmuSetup Elf Exidx LnkDb Relocate Linker
    Ldr LdrImage LdrBoot Svt SvtTables SvtLinker Sas SasSessions SasInput
begin

text \<open>
  The core packages of the RCE software library, the run-time system of the SLAC
  reconfigurable cluster element: an ARM Cortex A9 under RTEMS that keeps its own memory
  regions, pools, hash tables, shared objects and dynamic linker, and manages the shelf it
  sits in.

  \<^bold>\<open>The program and the theories.\<close> Paths are below \<^verbatim>\<open>src/\<close>.

  \<^item> \<^verbatim>\<open>Prelude\<close>: integer types (\<open>u8\<close> to \<open>u64\<close>, wrapping words), heap addresses (\<open>addr\<close>, natural
    numbers with 0 as NULL), shared collections and lemmas. \<^verbatim>\<open>Bytes\<close>: byte buffers with
    checked accesses.
  \<^item> \<^verbatim>\<open>DList\<close>, \<^verbatim>\<open>tool/list/include/List.h\<close>: circular doubly-linked lists in a heap of two link maps. A
    locale states what an operation of a list promises of the abstract circle \<open>dll\<close>.
  \<^item> \<^verbatim>\<open>MemRegion\<close>, \<^verbatim>\<open>tool/memory/src/armCA9/memRegion.c\<close>: the static table of regions of the address
    space and the bump allocator \<^verbatim>\<open>mem_Region_alloc\<close>, \<^verbatim>\<open>mem_Region_undoAlloc\<close>.
  \<^item> \<^verbatim>\<open>Pool\<close>, \<^verbatim>\<open>tool/pool/src/Pool.c\<close>: buffer pools, one region block on one list.
  \<^item> \<^verbatim>\<open>Hash\<close>, \<^verbatim>\<open>tool/hash/src/Hash.c\<close>: the word, string and pair hash.
  \<^item> \<^verbatim>\<open>Kvt\<close>, \<^verbatim>\<open>tool/kvt/src/Kvt.c\<close>: the hash table in one buffer, its buckets sorted lists of \<^verbatim>\<open>DList\<close>, its
    hash from \<^verbatim>\<open>Hash\<close>. The abstraction is a finite map of bounded size: the one the code implements
    (\<open>kv_spec\<close>, where inserting 0 costs an entry) and the documented one (\<open>kv_doc\<close>) for commands without the value 0.
  \<^item> \<^verbatim>\<open>Mmu\<close> and \<^verbatim>\<open>MmuSetup\<close>, \<^verbatim>\<open>tool/memory/src/armCA9/memMmu.c\<close>: translation tables in memory, their
    construction from the region table of \<^verbatim>\<open>MemRegion\<close>, attribute changes, and the report.
    The abstraction is \<open>physical\<close> and \<open>attributes\<close> of an address, the table walk of the processor.
  \<^item> \<^verbatim>\<open>Elf\<close>, \<^verbatim>\<open>tool/elf/include/\<close> (\<^verbatim>\<open>baseTypes.h\<close>, \<^verbatim>\<open>Object.h\<close>, \<^verbatim>\<open>GnuHasher.h\<close>, \<^verbatim>\<open>SysvHasher.h\<close>): an ELF
    object in memory, its dynamic section and the two kinds of symbol hash table.
  \<^item> \<^verbatim>\<open>Exidx\<close>, \<^verbatim>\<open>tool/elf/src/exidx.c\<close> and \<^verbatim>\<open>src/rtems/exidxTable.c\<close>: the table the unwinder searches; it
    takes one page from \<^verbatim>\<open>MemRegion\<close> and reads segments through \<^verbatim>\<open>Elf\<close>.
  \<^item> \<^verbatim>\<open>LnkDb\<close>, \<^verbatim>\<open>tool/elf/src/lnkObjDb.c\<close>, \<^verbatim>\<open>lnkSearchDag.c\<close>: the objects of one link and the list of
    dependencies of each. \<^verbatim>\<open>lnk_ObjDb_addNeeded\<close> asks the image loader and records in \<^verbatim>\<open>Exidx\<close>.
  \<^item> \<^verbatim>\<open>Relocate\<close>, relocation in \<^verbatim>\<open>tool/elf/src/linker.c\<close> and in the start-up relocator \<^verbatim>\<open>relocator.c\<close>.
  \<^item> \<^verbatim>\<open>Linker\<close>, the rest of \<^verbatim>\<open>linker.c\<close>: the recursive link over \<^verbatim>\<open>LnkDb\<close>, \<^verbatim>\<open>Relocate\<close> and \<^verbatim>\<open>Elf\<close>, with the
    initialisation, preference and prelude functions of the images. A second run (\<open>checked_link\<close>)
    carries along which objects the needed names got and checks them where an object is bound.
  \<^item> \<^verbatim>\<open>Ldr\<close>, \<^verbatim>\<open>tool/ldr/src/Ldr.c\<close>: name spaces and installed images in two tables of \<^verbatim>\<open>Kvt\<close>, loading an
    image file into a block of \<^verbatim>\<open>MemRegion\<close>, and page attributes through \<^verbatim>\<open>Mmu\<close>. \<^verbatim>\<open>LdrImage\<close> holds what a
    load does, \<^verbatim>\<open>LdrBoot\<close> the abstract state of the two maps, the sequences of commands
    (a locale for simulations of commands) and the start of the loader.
  \<^item> \<^verbatim>\<open>Svt\<close>, \<^verbatim>\<open>tool/svt/src/Svt.c\<close> and \<^verbatim>\<open>Svt_Stub.c\<close>: tables of named values, each the symbols of one
    image, with their blocks in the memory of the images. It finds segments and dynamic entries as
    \<^verbatim>\<open>Ldr\<close> does and installs through \<^verbatim>\<open>Linker\<close>. \<^verbatim>\<open>SvtTables\<close> holds the abstract map of tables, the second
    simulation of commands; \<^verbatim>\<open>SvtLinker\<close> the agreement with the linker's look-ups and installation,
    over a lemma that a link keeps whatever relation the code outside of the linker keeps.
  \<^item> \<^verbatim>\<open>Sas\<close>, \<^verbatim>\<open>service/sas/src/\<close>: the socket services of applications. Sessions and mailboxes in the on-chip
    memory, frames posted to the firmware, the loop that waits for input, descriptor pools, interrupt
    handlers and the construction. It keeps names in two tables of \<^verbatim>\<open>Kvt\<close> and finds its memory through \<^verbatim>\<open>MemRegion\<close>.
    \<^verbatim>\<open>SasSessions\<close> holds the free lists of sessions and mailboxes over every sequence of client calls,
    \<^verbatim>\<open>SasInput\<close> what is exchanged with the firmware.
  \<^item> \<^verbatim>\<open>ShelfRecords\<close>, \<^verbatim>\<open>ShelfIpmi\<close>, \<^verbatim>\<open>ShelfInfo\<close>, \<^verbatim>\<open>service/shelf_fru/src/\<close>: the record of the shelf's network
    in the FRU memory of the shelf manager, the IPMI dialogue under the FRU lock, and the
    commands that set, delete and display the record.

  \<^bold>\<open>Conventions.\<close> C state that a call changes is passed and returned. Undefined behaviour is
  \<open>None\<close>: an access outside of a buffer, an overlapping \<^verbatim>\<open>memcpy\<close>, an uninitialised read, a
  division by zero. Loops whose end depends on memory contents are partial functions in
  the option monad, where not ending is \<open>None\<close> as well; every theorem that such code returns
  a value is therefore also a theorem that it ends and stays in bounds. There is no fuel
  in the model of the code. Integers have the width of the source and wrap. Error codes are
  the source's words. Two models of pointers are in use: the list, pool, table and
  translation-table code works inside allocations, so its pointers are natural numbers;
  the linker computes addresses from file contents, so its pointers are 32-bit words that
  wrap and its memory is a total map from words to bytes.

  \<^bold>\<open>What the lemmas show.\<close>

  \<^item> Data structures. List operations act on the abstract circle; a pool conserves its
    buffers; a table simulates the bounded map over every command sequence, stays in its
    buffer, to its last byte, and is independent of other tables. Hash functions read exactly their words and
    the mixing steps are bijections.
  \<^item> Memory. Region blocks are disjoint, undo restores, the initial table is well formed.
    Tables built from it map each address to itself with the attributes of its region;
    splitting keeps, and setting flags changes, exactly the attributes asked for; the
    printed report determines them.
  \<^item> Objects. In a consistent GNU hash table look-up is linear search. Relocation writes the
    value of the ABI in each place and nothing else, and the two copies of the code agree.
    A link binds dependencies first and leaves every object bound when it succeeds. It ends on
    every graph, cycles included, provided the images in memory are well formed, with a GNU hash table
    as the build asks for (\<^verbatim>\<open>make/sw/flags.mk\<close>), and the relocations, and the functions of the
    images, leave the tables alone that the linker reads (\<open>outside_ok\<close>).
  \<^item> Loader. A load puts exactly the bytes of the file in place, zeroed behind them; a failed
    load gives its block back and has written nowhere else; the commands act as two maps, without null
    pointers and while there is room for the images; names resolve to paths within
    the buffers or are refused; the start establishes the invariant.
  \<^item> System variables. Set-ups and translations act as on a map of tables, translations agree with
    the linker on defined relative symbols, and installing never loses a table when, of the functions of the images,
    only the preludes of the stub change the tables (\<open>svt_system\<close>), under the hypotheses of a link.
  \<^item> Socket services. Construction succeeds and fills the free lists; no rundown mailbox
    is lost or doubled by any sequence of openings, bindings and closings, and a session is lost only by an
    opening that finds no semaphore; the fields of a frame survive posting;
    the sources of a session are served in order, the eighth one also without input, and waiting ends with the round in which a handler aborts.
  \<^item> Shelf. Adding and removing the record round-trip and keep checksums right; a write is
    one committed lock with the exact bytes in small pieces at their places; refusals write nothing, and a
    stale read discards the lock. What the checks of the addresses ensure is stated, and what they let through.
  \<^item> Faults of the code stated as theorems: the leak of \<^verbatim>\<open>KvtInsert\<close> on zero, the wrapped sizes of
    \<^verbatim>\<open>mem_Region_alloc\<close> and \<^verbatim>\<open>Pool_New\<close>, the skipped sections of \<^verbatim>\<open>mem_explode\<close>, the kept lock of a
    failed shelf write, the forgotten relocation error, the unreported dependency cycle, the
    loader's search behind a loadable last program header, the status of an installation into a full table, the
    session lost without a semaphore, the eighth mailbox served without input, and the 34 bytes that are written
    past the end of the FRU memory.

  \<^bold>\<open>Bounds.\<close> The linker's limits are the source's: 32 objects (\<open>LNK_MAX_ELF_OBJECTS\<close>) and 255
  graph nodes (\<open>LNK_MAX_DAG_NODES\<close>); the link's termination measure counts the free nodes of the graph, one of
  which each new need takes, and the rest of the dynamic section. The exception table has the entries that fit in one
  page. A table of \<^verbatim>\<open>Kvt\<close> has \<open>2 ^ max_entries\<close> entries with \<open>max_entries\<close> at most 30,
  the largest its 32-bit look-up arithmetic allows, and at most 26 where \<^verbatim>\<open>KvtSizeof\<close> has to fit. The loader
  has 256 images, 512 name spaces, 64 program headers and paths of 256 bytes. A load that would write outside of
  its block has no value (\<open>in_block\<close>), since the code does not check the sizes in a file.

  \<^bold>\<open>Parameters.\<close> Code outside of the repository or of the modelled part is an argument: the
  calls of FreeIPMI (\<open>ipmi_api\<close>), the image loader as the linker sees it and the functions inside loaded images
  (\<open>system\<close>), the POSIX file calls (\<open>file_io\<close>) with the contents of fresh stack arrays, and the registers of the firmware,
  the semaphores and the mailbox handlers (\<open>sas_env\<close>). Theorems that rely on them name what they rely on as hypotheses, and each has
  a witness on a concrete instance.

  \<^bold>\<open>Not modelled.\<close>

  \<^item> Locks, caches, the TLB and barriers: each critical section is one step, and cache
    maintenance has no effect on the modelled state (\<^verbatim>\<open>memCache.c\<close>; \<^verbatim>\<open>memFlagsTable.c\<close> and \<^verbatim>\<open>memResource.c\<close>
    are generated tables and their consumers). The atomic primitives of \<^verbatim>\<open>tool/concurrency\<close> are inline
    assembler.
  \<^item> Debug output, the hexadecimal dump of the shelf tools, and the command lines of the
    delete and display programs, which only fill their argument records.
  \<^item> Of the socket services: the registration of handlers with RTEMS, the start-up glue that finds plug-ins in
    the variable tables, the shell commands and the Linux version.
  \<^item> Tasks, the PGP and Ethernet plug-ins and the IPMC commands: drivers over device
    registers or thin layers over RTEMS.
  \<^item> Third-party and generated code: lwIP, the Xilinx boot loaders and register tables, the
    NFS client, the SD driver.
\<close>

end
